(* ===== verification/Prelude.thy ===== *)
theory Prelude
  imports Main "HOL-Library.Multiset" "HOL-Library.Sublist"
begin

text \<open>
  Vocabulary shared by every component: the exceptions the Python code raises,
  the result type of a call that may raise, the arithmetic helpers of
  \<open>utils/misc.py\<close>, and the generic facts on lists and divisibility that the
  component proofs use.
\<close>

section \<open>Exceptions and results\<close>

text \<open>The last two are the program's own, subclasses of \<open>ValueError\<close>.\<close>

datatype py_error =
    ValueError
  | RuntimeError
  | AssertionError
  | KeyError
  | IndexError
  | ZeroDivisionError
  | NotImplementedError
  | TypeError
  | OverflowError
  | RecursionError
  | UnicodeDecodeError
  | FileNotFoundError
  | OSError
  | AttributeError
  | GGUFFormatError
  | DequantError

type_synonym 'a res = "py_error + 'a"

type_synonym token = int
type_synonym slot = nat

text \<open>\<open>RadixCacheHandle(cached_len, node)\<close>: the matched length and the node's identity.\<close>

type_synonym handle = "nat \<times> nat"

definition ok :: "'a res \<Rightarrow> bool" where
  "ok r = (case r of Inl _ \<Rightarrow> False | Inr _ \<Rightarrow> True)"

lemma ok_simps [simp]: "ok (Inr x)" "\<not> ok (Inl e)"
  by (simp_all add: ok_def)

definition bind_res :: "'a res \<Rightarrow> ('a \<Rightarrow> 'b res) \<Rightarrow> 'b res" where
  "bind_res r f = (case r of Inl e \<Rightarrow> Inl e | Inr x \<Rightarrow> f x)"

lemma bind_res_simps [simp]:
  "bind_res (Inl e) f = Inl e" "bind_res (Inr x) f = f x"
  by (simp_all add: bind_res_def)

lemma bind_res_Inr: "bind_res r f = Inr y \<longleftrightarrow> (\<exists>x. r = Inr x \<and> f x = Inr y)"
  by (cases r) auto

section \<open>\<open>utils/misc.py\<close>: integer helpers\<close>

text \<open>Python's \<open>//\<close> and \<open>%\<close> on unbounded integers are floor division and
  its remainder, as \<open>div\<close> and \<open>mod\<close> on \<open>int\<close>, and raise on a zero divisor.\<close>

definition py_floordiv :: "int \<Rightarrow> int \<Rightarrow> int res" where
  "py_floordiv a b = (if b = 0 then Inl ZeroDivisionError else Inr (a div b))"

definition div_even :: "int \<Rightarrow> int \<Rightarrow> bool \<Rightarrow> int res" where
  "div_even a b allow_replicate =
     (if allow_replicate \<and> b > a
      then (if a = 0 then Inl ZeroDivisionError
            else if b mod a = 0 then Inr 1 else Inl AssertionError)
      else if b = 0 then Inl ZeroDivisionError
      else if a mod b = 0 then Inr (a div b) else Inl AssertionError)"

definition div_ceil :: "int \<Rightarrow> int \<Rightarrow> int res" where
  "div_ceil a b = py_floordiv (a + b - 1) b"

definition align_ceil :: "int \<Rightarrow> int \<Rightarrow> int res" where
  "align_ceil a b = bind_res (div_ceil a b) (\<lambda>q. Inr (q * b))"

definition align_down :: "int \<Rightarrow> int \<Rightarrow> int res" where
  "align_down a b = bind_res (py_floordiv a b) (\<lambda>q. Inr (q * b))"

text \<open>The same operation on lengths, for a page size that is known to be positive.\<close>

definition nalign :: "nat \<Rightarrow> nat \<Rightarrow> nat" where
  "nalign n p = (n div p) * p"

lemma align_down_nalign:
  "p > 0 \<Longrightarrow> align_down (int n) (int p) = Inr (int (nalign n p))"
  by (simp add: align_down_def py_floordiv_def nalign_def zdiv_int)

lemma nalign_le [simp]: "nalign n p \<le> n"
  by (simp add: nalign_def)

lemma nalign_dvd [simp]: "p dvd nalign n p"
  by (simp add: nalign_def)

lemma nalign_id: "p dvd n \<Longrightarrow> nalign n p = n"
  by (simp add: nalign_def)

lemma nalign_one [simp]: "nalign n (Suc 0) = n"
  by (simp add: nalign_def)

lemma nalign_greatest: "p dvd m \<Longrightarrow> m \<le> n \<Longrightarrow> m \<le> nalign n p"
  unfolding nalign_def
  by (metis div_le_mono dvd_div_mult_self mult_le_mono1)

lemma nalign_pos: "p \<le> n \<Longrightarrow> p > 0 \<Longrightarrow> nalign n p \<ge> p"
  by (rule nalign_greatest) auto

lemma nalign_lt: "p > 0 \<Longrightarrow> n < nalign n p + p"
  unfolding nalign_def by (metis add.commute dividend_less_div_times)

lemma dvd_less_add: "(p::nat) dvd m \<Longrightarrow> p dvd n \<Longrightarrow> m < n \<Longrightarrow> m + p \<le> n"
  by (metis add.commute dvd_diff_nat dvd_imp_le le_diff_conv2 less_imp_le zero_less_diff)

section \<open>Longest common prefix\<close>

text \<open>\<open>kvcache/_compare.py\<close>, \<open>fast_compare_key\<close>: the length of the common prefix.\<close>

fun fast_compare_key :: "'a list \<Rightarrow> 'a list \<Rightarrow> nat" where
  "fast_compare_key (x # xs) (y # ys) = (if x = y then Suc (fast_compare_key xs ys) else 0)"
| "fast_compare_key _ _ = 0"

lemma fast_compare_key_le1: "fast_compare_key xs ys \<le> length xs"
  by (induction xs ys rule: fast_compare_key.induct) auto

lemma fast_compare_key_le2: "fast_compare_key xs ys \<le> length ys"
  by (induction xs ys rule: fast_compare_key.induct) auto

lemma take_fast_compare_key:
  "n \<le> fast_compare_key xs ys \<Longrightarrow> take n xs = take n ys"
proof (induction xs ys arbitrary: n rule: fast_compare_key.induct)
  case (1 x xs y ys)
  then show ?case by (cases n) (auto split: if_splits)
qed auto

lemma fast_compare_key_ge:
  "take n xs = take n ys \<Longrightarrow> n \<le> length xs \<Longrightarrow> n \<le> length ys \<Longrightarrow> n \<le> fast_compare_key xs ys"
proof (induction xs ys arbitrary: n rule: fast_compare_key.induct)
  case (1 x xs y ys)
  then show ?case by (cases n) auto
qed auto

lemma fast_compare_key_iff:
  "n \<le> fast_compare_key xs ys \<longleftrightarrow> n \<le> length xs \<and> n \<le> length ys \<and> take n xs = take n ys"
  by (meson fast_compare_key_ge fast_compare_key_le1 fast_compare_key_le2 le_trans
      take_fast_compare_key)

section \<open>Lists\<close>

lemma sorted_take: "sorted xs \<Longrightarrow> sorted (take n xs)"
  by (rule sorted_wrt_take)

lemma sorted_drop: "sorted xs \<Longrightarrow> sorted (drop n xs)"
  by (rule sorted_wrt_drop)

lemma mset_take_drop: "mset (take n xs) + mset (drop n xs) = mset xs"
  by (metis append_take_drop_id mset_append)

lemma mset_eq_distinct: "mset xs = mset ys \<Longrightarrow> distinct xs = distinct ys"
  by (rule mset_eq_imp_distinct_iff)

lemma set_take_drop: "set (take n xs) \<union> set (drop n xs) = set xs"
  by (metis append_take_drop_id set_append)

lemma distinct_take_drop: "distinct xs \<Longrightarrow> set (take n xs) \<inter> set (drop n xs) = {}"
  by (rule set_take_disj_set_drop_if_distinct) auto

lemma subseq_subset: "subseq xs ys \<Longrightarrow> set xs \<subseteq> set ys"
  by (auto dest: list_emb_set)

section \<open>Strings\<close>

text \<open>\<open>str.lower\<close> on ASCII text.\<close>

definition char_lower :: "char \<Rightarrow> char" where
  "char_lower c =
     (let n = (of_char c :: nat) in if 65 \<le> n \<and> n \<le> 90 then char_of (n + 32) else c)"

definition py_lower :: "string \<Rightarrow> string" where
  "py_lower s = map char_lower s"

end
