(* ===== verification/Slot_Pools.thy ===== *)
theory Slot_Pools
  imports Prelude
begin

text \<open>
  The two free-list allocators of the engine.

  \<open>kvcache/mha_pool.py\<close>, class \<open>MHAKVCache\<close>: the paged KV pool. It hands out
  slots \<open>1 ..< num_slots\<close> per request id, takes them back, lets a finished
  request's slots pass to the prefix tree (\<open>detach\<close>) and takes evicted slots
  back from the tree (\<open>free_slots\<close>).

  \<open>kvcache/linear_state_pool.py\<close>, class \<open>LinearStatePool\<close>: the recurrent-state
  pool, a last-in-first-out free list together with the state tensors.

  The contract the two share is the locale \<open>slot_allocator\<close>, interpreted on both.
\<close>

section \<open>The allocator contract\<close>

text \<open>\<open>avail s\<close> is the free list of \<open>s\<close>; \<open>grab k n s\<close> takes \<open>n\<close> units of
  \<open>grain s\<close> slots for requester \<open>k\<close> or raises, \<open>may k s\<close> says that \<open>k\<close> holds nothing
  that bars it from asking; \<open>give xs s\<close> returns slots that have no owner.\<close>

locale slot_allocator =
  fixes avail :: "'s \<Rightarrow> slot list"
    and grain :: "'s \<Rightarrow> nat"
    and may :: "'k \<Rightarrow> 's \<Rightarrow> bool"
    and grab :: "'k \<Rightarrow> nat \<Rightarrow> 's \<Rightarrow> (slot list \<times> 's) res"
    and give :: "slot list \<Rightarrow> 's \<Rightarrow> 's"
  assumes grab_ok_iff: "may k s \<Longrightarrow> ok (grab k n s) \<longleftrightarrow> n * grain s \<le> length (avail s)"
    and grab_length: "grab k n s = Inr (xs, s') \<Longrightarrow> length xs = n * grain s"
    and grab_mset: "grab k n s = Inr (xs, s') \<Longrightarrow> mset (avail s) = mset xs + mset (avail s')"
    and give_mset: "mset (avail (give xs s)) = mset xs + mset (avail s)"
begin

lemma grab_some:
  assumes "may k s" "n * grain s \<le> length (avail s)"
  shows "\<exists>xs s'. grab k n s = Inr (xs, s') \<and> length xs = n * grain s"
proof -
  have "ok (grab k n s)" using grab_ok_iff assms by blast
  then obtain xs s' where "grab k n s = Inr (xs, s')"
    by (cases "grab k n s") auto
  then show ?thesis using grab_length by blast
qed

lemma grab_distinct:
  assumes "grab k n s = Inr (xs, s')" "distinct (avail s)"
  shows "distinct xs" "distinct (avail s')" "set xs \<inter> set (avail s') = {}"
proof -
  have "mset (xs @ avail s') = mset (avail s)"
    using grab_mset [OF assms(1)] by simp
  then have "distinct (xs @ avail s')"
    using assms(2) mset_eq_distinct by blast
  then show "distinct xs" "distinct (avail s')" "set xs \<inter> set (avail s') = {}"
    by auto
qed

lemma grab_set:
  assumes "grab k n s = Inr (xs, s')"
  shows "set (avail s) = set xs \<union> set (avail s')"
  using arg_cong [OF grab_mset [OF assms], of set_mset] by simp

lemma give_set: "set (avail (give xs s)) = set xs \<union> set (avail s)"
  using arg_cong [OF give_mset [of xs s], of set_mset] by simp

lemma give_distinct:
  assumes "distinct (avail s)" "distinct xs" "set xs \<inter> set (avail s) = {}"
  shows "distinct (avail (give xs s))"
proof -
  have "mset (avail (give xs s)) = mset (xs @ avail s)"
    using give_mset by simp
  then have "distinct (avail (give xs s)) = distinct (xs @ avail s)"
    by (rule mset_eq_distinct)
  then show ?thesis using assms by auto
qed

lemma grab_give:
  assumes "grab k n s = Inr (xs, s')"
  shows "mset (avail (give xs s')) = mset (avail s)"
  using grab_mset [OF assms] by (simp add: give_mset)

lemma grab_twice_disjoint:
  assumes "grab k n s = Inr (xs, s')" "grab j m s' = Inr (ys, s'')" "distinct (avail s)"
  shows "set xs \<inter> set ys = {}"
  using grab_distinct [OF assms(1,3)] grab_set [OF assms(2)] by auto

end

section \<open>\<open>MHAKVCache\<close>\<close>

record mha_pool =
  mp_page_size :: nat
  mp_num_pages :: nat
  mp_free_list :: "slot list"
  mp_alloc :: "int \<rightharpoonup> slot list"

definition mp_num_slots :: "mha_pool \<Rightarrow> nat" where
  "mp_num_slots p = mp_num_pages p * mp_page_size p"

definition mha_init :: "nat \<Rightarrow> nat \<Rightarrow> mha_pool" where
  "mha_init page_size num_pages =
     \<lparr> mp_page_size = page_size, mp_num_pages = num_pages,
       mp_free_list = [1..<num_pages * page_size], mp_alloc = Map.empty \<rparr>"

definition num_allocatable_slots :: "mha_pool \<Rightarrow> nat" where
  "num_allocatable_slots p = length (mp_free_list p)"

text \<open>\<open>num_pages = None\<close> asks for the pool's full page count.\<close>

definition mha_allocate :: "int \<Rightarrow> nat option \<Rightarrow> mha_pool \<Rightarrow> (slot list \<times> mha_pool) res" where
  "mha_allocate req_id num_pages p =
     (let pages = (case num_pages of None \<Rightarrow> mp_num_pages p | Some n \<Rightarrow> n);
          need = pages * mp_page_size p
      in if mp_alloc p req_id \<noteq> None then Inl ValueError
         else if need > length (mp_free_list p) then Inl RuntimeError
         else let slots = take need (mp_free_list p)
              in Inr (slots, p\<lparr>mp_free_list := drop need (mp_free_list p),
                               mp_alloc := (mp_alloc p)(req_id \<mapsto> slots)\<rparr>))"

definition mha_free :: "int \<Rightarrow> mha_pool \<Rightarrow> mha_pool" where
  "mha_free req_id p =
     (case mp_alloc p req_id of
        None \<Rightarrow> p
      | Some slots \<Rightarrow> p\<lparr>mp_free_list := sort (mp_free_list p @ slots),
                       mp_alloc := (mp_alloc p)(req_id := None)\<rparr>)"

definition mha_detach :: "int \<Rightarrow> mha_pool \<Rightarrow> slot list \<times> mha_pool" where
  "mha_detach req_id p =
     ((case mp_alloc p req_id of None \<Rightarrow> [] | Some slots \<Rightarrow> slots),
      p\<lparr>mp_alloc := (mp_alloc p)(req_id := None)\<rparr>)"

definition mha_is_allocated :: "int \<Rightarrow> mha_pool \<Rightarrow> bool" where
  "mha_is_allocated req_id p = (mp_alloc p req_id \<noteq> None)"

definition mha_allocated_slots :: "int \<Rightarrow> mha_pool \<Rightarrow> slot list" where
  "mha_allocated_slots req_id p = (case mp_alloc p req_id of None \<Rightarrow> [] | Some s \<Rightarrow> s)"

definition mha_free_slots :: "slot list \<Rightarrow> mha_pool \<Rightarrow> mha_pool" where
  "mha_free_slots slots p =
     (if slots = [] then p else p\<lparr>mp_free_list := sort (mp_free_list p @ slots)\<rparr>)"

subsection \<open>Ownership invariant\<close>

text \<open>Every allocatable slot has exactly one owner: the free list, one request, or
  the outside owner \<open>ext\<close> (the prefix tree); slot 0 is never handed out and the
  free list stays sorted.\<close>

definition mha_owned :: "mha_pool \<Rightarrow> slot set" where
  "mha_owned p = \<Union>(set ` ran (mp_alloc p))"

definition mha_inv :: "slot set \<Rightarrow> mha_pool \<Rightarrow> bool" where
  "mha_inv ext p \<longleftrightarrow>
     sorted (mp_free_list p) \<and> distinct (mp_free_list p) \<and>
     (\<forall>r xs. mp_alloc p r = Some xs \<longrightarrow>
        distinct xs \<and> set xs \<inter> set (mp_free_list p) = {} \<and> set xs \<inter> ext = {}) \<and>
     (\<forall>r q xs ys. mp_alloc p r = Some xs \<longrightarrow> mp_alloc p q = Some ys \<longrightarrow> r \<noteq> q \<longrightarrow>
        set xs \<inter> set ys = {}) \<and>
     set (mp_free_list p) \<inter> ext = {} \<and>
     set (mp_free_list p) \<union> ext \<union> mha_owned p = {1..<mp_num_slots p}"

lemma mha_invI:
  assumes "sorted (mp_free_list p)" "distinct (mp_free_list p)"
    "\<And>r xs. mp_alloc p r = Some xs \<Longrightarrow> distinct xs"
    "\<And>r xs. mp_alloc p r = Some xs \<Longrightarrow> set xs \<inter> set (mp_free_list p) = {}"
    "\<And>r xs. mp_alloc p r = Some xs \<Longrightarrow> set xs \<inter> ext = {}"
    "\<And>r q xs ys. mp_alloc p r = Some xs \<Longrightarrow> mp_alloc p q = Some ys \<Longrightarrow> r \<noteq> q \<Longrightarrow>
        set xs \<inter> set ys = {}"
    "set (mp_free_list p) \<inter> ext = {}"
    "set (mp_free_list p) \<union> ext \<union> mha_owned p = {1..<mp_num_slots p}"
  shows "mha_inv ext p"
  unfolding mha_inv_def
proof (intro conjI allI impI)
  show "sorted (mp_free_list p)" "distinct (mp_free_list p)" by fact+
next
  fix r xs assume "mp_alloc p r = Some xs"
  then show "distinct xs" "set xs \<inter> set (mp_free_list p) = {}" "set xs \<inter> ext = {}"
    using assms(3-5) by blast+
next
  fix r q xs ys assume "mp_alloc p r = Some xs" "mp_alloc p q = Some ys" "r \<noteq> q"
  then show "set xs \<inter> set ys = {}" by (rule assms(6))
qed (fact assms(7,8))+

lemma mha_invD:
  assumes "mha_inv ext p"
  shows "sorted (mp_free_list p)" "distinct (mp_free_list p)"
    "\<And>r xs. mp_alloc p r = Some xs \<Longrightarrow> distinct xs"
    "\<And>r xs. mp_alloc p r = Some xs \<Longrightarrow> set xs \<inter> set (mp_free_list p) = {}"
    "\<And>r xs. mp_alloc p r = Some xs \<Longrightarrow> set xs \<inter> ext = {}"
    "\<And>r q xs ys. mp_alloc p r = Some xs \<Longrightarrow> mp_alloc p q = Some ys \<Longrightarrow> r \<noteq> q \<Longrightarrow>
        set xs \<inter> set ys = {}"
    "set (mp_free_list p) \<inter> ext = {}"
    "set (mp_free_list p) \<union> ext \<union> mha_owned p = {1..<mp_num_slots p}"
  using assms unfolding mha_inv_def by blast+

lemma mha_init_inv: "mha_inv {} (mha_init ps n)"
  by (rule mha_invI) (auto simp: mha_init_def mp_num_slots_def mha_owned_def)

lemma mha_owned_upd:
  "mp_alloc p r = None \<Longrightarrow>
   mha_owned (p\<lparr>mp_free_list := fs, mp_alloc := (mp_alloc p)(r \<mapsto> xs)\<rparr>) = set xs \<union> mha_owned p"
  by (simp add: mha_owned_def)

lemma mha_owned_del:
  assumes "mp_alloc p r = Some xs"
  shows "mha_owned p = set xs \<union> mha_owned (p\<lparr>mp_free_list := fs, mp_alloc := (mp_alloc p)(r := None)\<rparr>)"
proof -
  let ?m = "(mp_alloc p)(r := None)"
  have "ran (?m(r \<mapsto> xs)) = insert xs (ran ?m)" by (rule ran_map_upd) simp
  moreover have "?m(r \<mapsto> xs) = mp_alloc p" using assms by (auto simp: fun_eq_iff)
  ultimately show ?thesis by (simp add: mha_owned_def)
qed

text \<open>What one successful \<open>allocate\<close> does, on every field.\<close>

lemma mha_allocate_Inr:
  assumes "mha_allocate r np p = Inr (slots, p')"
  obtains need where
    "need = (case np of None \<Rightarrow> mp_num_pages p | Some n \<Rightarrow> n) * mp_page_size p"
    "mp_alloc p r = None" "need \<le> length (mp_free_list p)"
    "slots = take need (mp_free_list p)"
    "p' = p\<lparr>mp_free_list := drop need (mp_free_list p), mp_alloc := (mp_alloc p)(r \<mapsto> slots)\<rparr>"
  using assms unfolding mha_allocate_def Let_def
  by (auto split: if_splits option.splits)

lemma mha_allocate_inv:
  assumes inv: "mha_inv ext p" and al: "mha_allocate r np p = Inr (slots, p')"
  shows "mha_inv ext p'"
proof -
  obtain need where n: "mp_alloc p r = None" "need \<le> length (mp_free_list p)"
      "slots = take need (mp_free_list p)"
      "p' = p\<lparr>mp_free_list := drop need (mp_free_list p), mp_alloc := (mp_alloc p)(r \<mapsto> slots)\<rparr>"
    using al by (rule mha_allocate_Inr)
  note I = mha_invD [OF inv]
  have part: "set (mp_free_list p) = set slots \<union> set (mp_free_list p')"
    using n set_take_drop [of need "mp_free_list p"] by simp
  have disj: "set slots \<inter> set (mp_free_list p') = {}"
    using n distinct_take_drop [OF I(2), of need] by simp
  have own: "mha_owned p' = set slots \<union> mha_owned p"
    using mha_owned_upd [OF n(1)] n(4) by simp
  show ?thesis
  proof (rule mha_invI)
    show "sorted (mp_free_list p')" "distinct (mp_free_list p')"
      using I(1,2) n by (simp_all add: sorted_drop)
  next
    fix q xs assume "mp_alloc p' q = Some xs"
    then consider "q = r" "xs = slots" | "q \<noteq> r" "mp_alloc p q = Some xs"
      using n by (auto split: if_splits)
    then show "distinct xs" "set xs \<inter> set (mp_free_list p') = {}" "set xs \<inter> ext = {}"
      using I(2-5,7) n(3) disj part by (cases; force)+
  next
    fix q q' xs ys
    assume "mp_alloc p' q = Some xs" "mp_alloc p' q' = Some ys" "q \<noteq> q'"
    then show "set xs \<inter> set ys = {}"
      using I(4,6) n part by (auto split: if_splits)
  next
    show "set (mp_free_list p') \<inter> ext = {}" using I(7) part by auto
    show "set (mp_free_list p') \<union> ext \<union> mha_owned p' = {1..<mp_num_slots p'}"
      using I(8) part own by (auto simp: n(4) mp_num_slots_def)
  qed
qed

lemma mha_free_inv:
  assumes inv: "mha_inv ext p"
  shows "mha_inv ext (mha_free r p)"
proof (cases "mp_alloc p r")
  case None
  then show ?thesis using inv by (simp add: mha_free_def)
next
  case (Some xs)
  let ?p' = "p\<lparr>mp_free_list := sort (mp_free_list p @ xs), mp_alloc := (mp_alloc p)(r := None)\<rparr>"
  note I = mha_invD [OF inv]
  have "mha_inv ext ?p'"
  proof (rule mha_invI)
    show "distinct (mp_free_list ?p')"
      using I(2) I(3,4) [OF Some] by auto
  next
    fix q ys assume a: "mp_alloc ?p' q = Some ys"
    then have q: "q \<noteq> r" "mp_alloc p q = Some ys" by (auto split: if_splits)
    show "distinct ys" "set ys \<inter> ext = {}" using I(3,5) [OF q(2)] by auto
    show "set ys \<inter> set (mp_free_list ?p') = {}"
      using I(4) [OF q(2)] I(6) [OF q(2) Some q(1)] by auto
  next
    fix q q' ys zs assume "mp_alloc ?p' q = Some ys" "mp_alloc ?p' q' = Some zs" "q \<noteq> q'"
    then show "set ys \<inter> set zs = {}" using I(6) by (auto split: if_splits)
  next
    show "set (mp_free_list ?p') \<inter> ext = {}" using I(5) [OF Some] I(7) by auto
    show "set (mp_free_list ?p') \<union> ext \<union> mha_owned ?p' = {1..<mp_num_slots ?p'}"
      using I(8) mha_owned_del [OF Some] by (simp add: mp_num_slots_def ac_simps) blast
  qed simp
  then show ?thesis using Some by (simp add: mha_free_def)
qed

text \<open>Detaching moves the request's slots to the outside owner.\<close>

lemma mha_detach_inv:
  assumes inv: "mha_inv ext p" and d: "mha_detach r p = (xs, p')"
  shows "mha_inv (ext \<union> set xs) p'"
proof -
  have p': "p' = p\<lparr>mp_free_list := mp_free_list p, mp_alloc := (mp_alloc p)(r := None)\<rparr>"
    using d by (auto simp: mha_detach_def)
  note I = mha_invD [OF inv]
  have xs: "set xs \<inter> set (mp_free_list p) = {} \<and> mha_owned p = set xs \<union> mha_owned p' \<and>
    (\<forall>q ys. q \<noteq> r \<longrightarrow> mp_alloc p q = Some ys \<longrightarrow> set ys \<inter> set xs = {})"
  proof (cases "mp_alloc p r")
    case None
    then have "(mp_alloc p)(r := None) = mp_alloc p" by auto
    then show ?thesis using None d by (simp add: mha_detach_def p' mha_owned_def)
  next
    case (Some zs)
    then have "xs = zs" using d by (simp add: mha_detach_def)
    moreover have "mha_owned p = set zs \<union> mha_owned p'"
      using mha_owned_del [OF Some, of "mp_free_list p"] p' by simp
    ultimately show ?thesis
      using I(4) [OF Some] I(6) [OF _ Some] by auto
  qed
  show ?thesis
  proof (rule mha_invI)
    fix q ys assume "mp_alloc p' q = Some ys"
    then have q: "q \<noteq> r" "mp_alloc p q = Some ys" by (auto simp: p' split: if_splits)
    show "distinct ys" using I(3) [OF q(2)] .
    show "set ys \<inter> set (mp_free_list p') = {}" using I(4) [OF q(2)] by (simp add: p')
    show "set ys \<inter> (ext \<union> set xs) = {}" using I(5) [OF q(2)] xs q by blast
  next
    fix q q' ys zs assume "mp_alloc p' q = Some ys" "mp_alloc p' q' = Some zs" "q \<noteq> q'"
    then show "set ys \<inter> set zs = {}" using I(6) by (auto simp: p' split: if_splits)
  next
    show "set (mp_free_list p') \<union> (ext \<union> set xs) \<union> mha_owned p' = {1..<mp_num_slots p'}"
      using I(8) xs by (simp add: p' mp_num_slots_def ac_simps)
  qed (use I(1,2,7) xs in \<open>auto simp: p'\<close>)
qed

text \<open>An eviction gives slots of the outside owner back.\<close>

lemma mha_free_slots_inv:
  assumes inv: "mha_inv ext p" and xs: "distinct xs" "set xs \<subseteq> ext"
  shows "mha_inv (ext - set xs) (mha_free_slots xs p)"
proof (cases "xs = []")
  case True
  then show ?thesis using inv by (simp add: mha_free_slots_def)
next
  case False
  let ?p' = "p\<lparr>mp_free_list := sort (mp_free_list p @ xs)\<rparr>"
  note I = mha_invD [OF inv]
  have "mha_inv (ext - set xs) ?p'"
  proof (rule mha_invI)
    show "distinct (mp_free_list ?p')" using I(2,7) xs by auto
    show "set (mp_free_list ?p') \<union> (ext - set xs) \<union> mha_owned ?p' = {1..<mp_num_slots ?p'}"
      using I(8) xs(2) by (simp add: mp_num_slots_def mha_owned_def) blast
  next
    fix q ys assume "mp_alloc ?p' q = Some ys"
    then have q: "mp_alloc p q = Some ys" by simp
    show "distinct ys" "set ys \<inter> set (mp_free_list ?p') = {}" "set ys \<inter> (ext - set xs) = {}"
      using I(3-5) [OF q] xs(2) by auto
  qed (use I(6,7) in auto)
  then show ?thesis using False by (simp add: mha_free_slots_def)
qed

text \<open>Allocation takes the lowest-numbered free slots.\<close>

lemma mha_allocate_lowest:
  assumes inv: "mha_inv ext p" and al: "mha_allocate r np p = Inr (xs, p')"
    and x: "x \<in> set xs" and y: "y \<in> set (mp_free_list p')"
  shows "x < y"
proof -
  obtain need where n: "xs = take need (mp_free_list p)" "mp_free_list p' = drop need (mp_free_list p)"
    using al by (auto elim: mha_allocate_Inr)
  have "sorted (xs @ mp_free_list p')" "distinct (xs @ mp_free_list p')"
    using mha_invD(1,2) [OF inv] n by simp_all
  then show ?thesis
    using x y by (auto simp: sorted_append) (metis disjoint_iff le_neq_implies_less)
qed

lemma mha_allocate_cases:
  "mha_allocate r np p =
    (if mp_alloc p r \<noteq> None then Inl ValueError
     else if (case np of None \<Rightarrow> mp_num_pages p | Some n \<Rightarrow> n) * mp_page_size p
             > num_allocatable_slots p then Inl RuntimeError
     else Inr (take ((case np of None \<Rightarrow> mp_num_pages p | Some n \<Rightarrow> n) * mp_page_size p) (mp_free_list p),
               p\<lparr>mp_free_list := drop ((case np of None \<Rightarrow> mp_num_pages p | Some n \<Rightarrow> n) * mp_page_size p)
                                     (mp_free_list p),
                 mp_alloc := (mp_alloc p)
                   (r \<mapsto> take ((case np of None \<Rightarrow> mp_num_pages p | Some n \<Rightarrow> n) * mp_page_size p)
                             (mp_free_list p))\<rparr>))"
  by (simp add: mha_allocate_def Let_def num_allocatable_slots_def)

section \<open>\<open>LinearStatePool\<close>\<close>

text \<open>A state tensor is indexed \<open>[layer][slot]\<close>; an entry is that slot's block of the
  layer, a value of a type with a zero, of shape \<open>(conv_dim, kernel - 1)\<close> in \<open>lp_conv\<close>
  and \<open>(v_heads, key_head_dim, value_head_dim)\<close> in \<open>lp_rec\<close>. \<open>lp_local\<close> is
  \<open>_local_index\<close>; the item sizes are those of the tensors' dtypes.\<close>

record 'v linear_pool =
  lp_num_slots :: nat
  lp_conv :: "'v list list"
  lp_rec :: "'v list list"
  lp_conv_shape :: "int \<times> int"
  lp_rec_shape :: "int \<times> int \<times> int"
  lp_conv_itemsize :: int
  lp_rec_itemsize :: int
  lp_local :: "int \<rightharpoonup> nat"
  lp_free_list :: "slot list"

text \<open>\<open>ssm_state_dtype().itemsize\<close>, from the value of \<open>FREETOKEN_MAMBA_SSM_DTYPE\<close>;
  an unknown name falls back to fp32.\<close>

definition ssm_state_itemsize :: "string \<Rightarrow> int" where
  "ssm_state_itemsize name =
     (let d = py_lower name in
      if d = ''float32'' then 4 else if d = ''bfloat16'' then 2
      else if d = ''float16'' then 2 else 4)"

text \<open>TP-local \<open>(conv_dim, v_heads)\<close>.\<close>

definition linear_local_dims :: "int \<Rightarrow> int \<Rightarrow> int \<Rightarrow> int \<Rightarrow> int \<Rightarrow> (int \<times> int) res" where
  "linear_local_dims num_key_heads num_value_heads key_head_dim value_head_dim tp_size =
     bind_res (div_even num_key_heads tp_size True) (\<lambda>local_k_heads.
     bind_res (div_even num_value_heads tp_size True) (\<lambda>local_v_heads.
       Inr (2 * local_k_heads * key_head_dim + local_v_heads * value_head_dim, local_v_heads)))"

definition linear_state_bytes_per_req ::
  "int \<Rightarrow> int \<Rightarrow> int \<Rightarrow> int \<Rightarrow> int \<Rightarrow> int \<Rightarrow> int \<Rightarrow> int \<Rightarrow> int \<Rightarrow> int res" where
  "linear_state_bytes_per_req num_layers nkh nvh khd vhd conv_kernel_dim tp_size itemsize ssm_itemsize =
     bind_res (linear_local_dims nkh nvh khd vhd tp_size) (\<lambda>(local_conv_dim, local_v_heads).
       let conv_elems = local_conv_dim * (conv_kernel_dim - 1);
           rec_elems = local_v_heads * khd * vhd;
           conv_bytes = conv_elems * itemsize;
           rec_bytes = rec_elems * ssm_itemsize
       in Inr (num_layers * (conv_bytes + rec_bytes)))"

text \<open>\<open>zeros n s\<close> stands for \<open>torch.zeros((n, s, ...))\<close>.\<close>

definition zeros :: "nat \<Rightarrow> nat \<Rightarrow> 'v::zero list list" where
  "zeros layers slots = replicate layers (replicate slots 0)"

definition linear_init ::
  "nat \<Rightarrow> int \<Rightarrow> int \<Rightarrow> int \<Rightarrow> int \<Rightarrow> int \<Rightarrow> nat \<Rightarrow> int \<Rightarrow> int \<Rightarrow> int list option \<Rightarrow> int
   \<Rightarrow> 'v::zero linear_pool res" where
  "linear_init num_layers nkh nvh khd vhd conv_kernel_dim num_slots itemsize ssm_itemsize layer_ids tp_size =
     bind_res (linear_local_dims nkh nvh khd vhd tp_size) (\<lambda>(local_conv_dim, local_v_heads).
     let ids = (case layer_ids of None \<Rightarrow> map int [0..<num_layers] | Some l \<Rightarrow> l)
     in if length ids \<noteq> num_layers then Inl ValueError
        else Inr \<lparr> lp_num_slots = num_slots,
                   lp_conv = zeros num_layers num_slots,
                   lp_rec = zeros num_layers num_slots,
                   lp_conv_shape = (local_conv_dim, conv_kernel_dim - 1),
                   lp_rec_shape = (local_v_heads, khd, vhd),
                   lp_conv_itemsize = itemsize,
                   lp_rec_itemsize = ssm_itemsize,
                   lp_local = map_of (rev (zip ids [0..<length ids])),
                   lp_free_list = [1..<num_slots] \<rparr>)"

definition num_free_slots :: "'v linear_pool \<Rightarrow> nat" where
  "num_free_slots p = length (lp_free_list p)"

text \<open>\<open>n\<close> pops from the end of the free list, in the order they are popped.\<close>

fun pop_n :: "nat \<Rightarrow> 'a list \<Rightarrow> 'a list \<times> 'a list" where
  "pop_n 0 xs = ([], xs)"
| "pop_n (Suc n) xs = (let (ys, zs) = pop_n n (butlast xs) in (last xs # ys, zs))"

definition linear_alloc :: "nat \<Rightarrow> 'v linear_pool \<Rightarrow> (slot list \<times> 'v linear_pool) res" where
  "linear_alloc n p =
     (if n > length (lp_free_list p) then Inl RuntimeError
      else let (xs, fs) = pop_n n (lp_free_list p)
           in Inr (xs, p\<lparr>lp_free_list := fs\<rparr>))"

definition linear_free :: "slot list \<Rightarrow> 'v linear_pool \<Rightarrow> 'v linear_pool" where
  "linear_free slots p = p\<lparr>lp_free_list := lp_free_list p @ slots\<rparr>"

definition reclaim_all_slots :: "'v linear_pool \<Rightarrow> 'v linear_pool" where
  "reclaim_all_slots p = p\<lparr>lp_free_list := [1..<lp_num_slots p]\<rparr>"

definition linear_rebuild :: "nat \<Rightarrow> 'v::zero linear_pool \<Rightarrow> 'v linear_pool" where
  "linear_rebuild num_slots p =
     p\<lparr>lp_conv := zeros (length (lp_conv p)) num_slots,
       lp_rec := zeros (length (lp_rec p)) num_slots,
       lp_num_slots := num_slots,
       lp_free_list := [1..<num_slots]\<rparr>"

text \<open>\<open>states[:, slots] = 0\<close>: the blocks of the slots in every layer; a slot outside the
  tensor is an index error.\<close>

definition zero_slots :: "slot list \<Rightarrow> 'v::zero list list \<Rightarrow> 'v list list" where
  "zero_slots slots t = map (\<lambda>l. fold (\<lambda>s row. row[s := 0]) slots l) t"

definition linear_clear_slots :: "slot list \<Rightarrow> 'v::zero linear_pool \<Rightarrow> 'v linear_pool res" where
  "linear_clear_slots slots p =
     (if list_all (\<lambda>s. s < lp_num_slots p) slots
      then Inr (p\<lparr>lp_conv := zero_slots slots (lp_conv p), lp_rec := zero_slots slots (lp_rec p)\<rparr>)
      else Inl IndexError)"

definition linear_copy_from :: "slot \<Rightarrow> slot \<Rightarrow> 'v linear_pool \<Rightarrow> 'v linear_pool res" where
  "linear_copy_from src dst p =
     (if src < lp_num_slots p \<and> dst < lp_num_slots p
      then Inr (p\<lparr>lp_conv := map (\<lambda>l. l[dst := l ! src]) (lp_conv p),
                  lp_rec := map (\<lambda>l. l[dst := l ! src]) (lp_rec p)\<rparr>)
      else Inl IndexError)"

definition is_linear_layer :: "int \<Rightarrow> 'v linear_pool \<Rightarrow> bool" where
  "is_linear_layer layer_id p = (lp_local p layer_id \<noteq> None)"

definition local_index :: "int \<Rightarrow> 'v linear_pool \<Rightarrow> nat res" where
  "local_index layer_id p = (case lp_local p layer_id of None \<Rightarrow> Inl KeyError | Some i \<Rightarrow> Inr i)"

definition state_of :: "('v linear_pool \<Rightarrow> 'v list list) \<Rightarrow> int \<Rightarrow> slot \<Rightarrow> 'v linear_pool \<Rightarrow> 'v res" where
  "state_of sel layer_id s p =
     bind_res (local_index layer_id p) (\<lambda>i.
       if s < lp_num_slots p then Inr (sel p ! i ! s) else Inl IndexError)"

abbreviation conv_state where "conv_state \<equiv> state_of lp_conv"
abbreviation recurrent_state where "recurrent_state \<equiv> state_of lp_rec"

definition linear_reset :: "slot \<Rightarrow> 'v::zero linear_pool \<Rightarrow> 'v linear_pool res" where
  "linear_reset s p = linear_clear_slots [s] p"

definition bytes_per_slot :: "'v linear_pool \<Rightarrow> int" where
  "bytes_per_slot p =
     (let (cd, km1) = lp_conv_shape p; (vh, khd, vhd) = lp_rec_shape p
      in int (length (lp_conv p)) * (cd * km1) * lp_conv_itemsize p
         + int (length (lp_rec p)) * (vh * khd * vhd) * lp_rec_itemsize p)"

subsection \<open>The allocator laws hold for both pools\<close>

lemma pop_n_eq: "n \<le> length xs \<Longrightarrow> pop_n n xs = (take n (rev xs), take (length xs - n) xs)"
proof (induction n xs rule: pop_n.induct)
  case (2 n xs)
  then have xs: "xs \<noteq> []" by auto
  have "pop_n n (butlast xs) = (take n (rev (butlast xs)), take (length (butlast xs) - n) (butlast xs))"
    using 2 by simp
  moreover have "last xs # take n (rev (butlast xs)) = take (Suc n) (rev xs)"
    using xs by (metis append_butlast_last_id rev_eq_Cons_iff rev_rev_ident take_Suc_Cons)
  moreover have "take (length (butlast xs) - n) (butlast xs) = take (length xs - Suc n) xs"
    by (simp add: butlast_conv_take)
  ultimately show ?case by simp
qed simp

lemma pop_n_mset: "n \<le> length xs \<Longrightarrow> mset (fst (pop_n n xs)) + mset (snd (pop_n n xs)) = mset xs"
proof -
  assume n: "n \<le> length xs"
  have "mset (take n (rev xs)) = mset (drop (length xs - n) xs)"
    by (simp add: take_rev)
  then show ?thesis
    using mset_take_drop [of "length xs - n" xs] by (simp add: pop_n_eq [OF n] ac_simps)
qed

interpretation mha: slot_allocator mp_free_list mp_page_size "\<lambda>r p. mp_alloc p r = None"
  "\<lambda>r n. mha_allocate r (Some n)" mha_free_slots
proof
  show "ok (mha_allocate k (Some n) s) \<longleftrightarrow> n * mp_page_size s \<le> length (mp_free_list s)"
    if "mp_alloc s k = None" for k s n
    using that by (simp add: mha_allocate_def Let_def)
  show "length xs = n * mp_page_size s"
    if "mha_allocate k (Some n) s = Inr (xs, s')" for k n s xs s'
    using that by (auto elim!: mha_allocate_Inr)
  show "mset (mp_free_list s) = mset xs + mset (mp_free_list s')"
    if "mha_allocate k (Some n) s = Inr (xs, s')" for k n s xs s'
    using that by (auto elim!: mha_allocate_Inr simp: mset_take_drop)
  show "mset (mp_free_list (mha_free_slots xs s)) = mset xs + mset (mp_free_list s)" for xs s
    by (simp add: mha_free_slots_def)
qed

interpretation lin: slot_allocator lp_free_list "\<lambda>_. 1" "\<lambda>(_::unit) _. True"
  "\<lambda>_. linear_alloc" linear_free
proof
  show "ok (linear_alloc n s) \<longleftrightarrow> n * 1 \<le> length (lp_free_list s)" for n and s :: "'a linear_pool"
    by (simp add: linear_alloc_def split: prod.split)
  show "length xs = n * 1" if "linear_alloc n s = Inr (xs, s')" for n xs and s s' :: "'a linear_pool"
    using that by (auto simp: linear_alloc_def pop_n_eq split: if_splits)
  show "mset (lp_free_list s) = mset xs + mset (lp_free_list s')"
    if "linear_alloc n s = Inr (xs, s')" for n xs and s s' :: "'a linear_pool"
    using that pop_n_mset [of n "lp_free_list s"]
    by (auto simp: linear_alloc_def split: if_splits prod.splits)
  show "mset (lp_free_list (linear_free xs s)) = mset xs + mset (lp_free_list s)"
    for xs and s :: "'a linear_pool"
    by (simp add: linear_free_def)
qed

section \<open>Runs of the KV pool\<close>

text \<open>The states the engine can bring the pool into, with the set of slots the prefix
  tree owns: requests allocate, free and detach; evictions return tree slots.\<close>

inductive mha_run :: "nat \<Rightarrow> nat \<Rightarrow> slot set \<Rightarrow> mha_pool \<Rightarrow> bool" for page_size num_pages where
  init: "mha_run page_size num_pages {} (mha_init page_size num_pages)"
| alloc: "mha_run page_size num_pages ext p \<Longrightarrow> mha_allocate r np p = Inr (xs, p') \<Longrightarrow>
    mha_run page_size num_pages ext p'"
| free: "mha_run page_size num_pages ext p \<Longrightarrow> mha_run page_size num_pages ext (mha_free r p)"
| detach: "mha_run page_size num_pages ext p \<Longrightarrow> mha_detach r p = (xs, p') \<Longrightarrow>
    mha_run page_size num_pages (ext \<union> set xs) p'"
| evict: "mha_run page_size num_pages ext p \<Longrightarrow> distinct xs \<Longrightarrow> set xs \<subseteq> ext \<Longrightarrow>
    mha_run page_size num_pages (ext - set xs) (mha_free_slots xs p)"

lemma mha_run_inv: "mha_run ps n ext p \<Longrightarrow> mha_inv ext p"
  by (induction rule: mha_run.induct)
     (auto intro: mha_init_inv mha_allocate_inv mha_free_inv mha_detach_inv mha_free_slots_inv)

lemma mha_run_geometry:
  "mha_run ps n ext p \<Longrightarrow> mp_page_size p = ps \<and> mp_num_pages p = n"
  by (induction rule: mha_run.induct)
     (auto simp: mha_init_def mha_free_def mha_detach_def mha_free_slots_def
           elim!: mha_allocate_Inr split: option.splits)

text \<open>C23. KV pool safety. In every state the engine can bring the pool into, two
  requests never hold the same slot, no request holds a free slot, the reserved slot 0 or a
  slot of the prefix tree, and no slot of \<open>1 ..< num_slots\<close> is lost: each is
  free, held by a request, or owned by the tree.\<close>

theorem mha_pool_partition:
  assumes "mha_run page_size num_pages ext p"
  shows "(\<forall>r xs. mp_alloc p r = Some xs \<longrightarrow>
            distinct xs \<and> 0 \<notin> set xs \<and> set xs \<inter> set (mp_free_list p) = {} \<and> set xs \<inter> ext = {})
       \<and> (\<forall>r q xs ys. mp_alloc p r = Some xs \<and> mp_alloc p q = Some ys \<and> r \<noteq> q \<longrightarrow>
            set xs \<inter> set ys = {})
       \<and> {1..<num_pages * page_size} =
           set (mp_free_list p) \<union> ext \<union> \<Union>(set ` ran (mp_alloc p))"
proof -
  note inv = mha_run_inv [OF assms] and I = mha_invD [OF mha_run_inv [OF assms]]
  have U: "{1..<num_pages * page_size} = set (mp_free_list p) \<union> ext \<union> \<Union>(set ` ran (mp_alloc p))"
    using I(8) mha_run_geometry [OF assms] by (simp add: mha_owned_def mp_num_slots_def)
  have "0 \<notin> set xs" if "mp_alloc p r = Some xs" for r xs
  proof -
    have "xs \<in> ran (mp_alloc p)" using that by (rule ranI)
    then have "set xs \<subseteq> {1..<num_pages * page_size}" unfolding U by auto
    then show ?thesis by auto
  qed
  then show ?thesis using I(3-6) U by blast
qed

text \<open>The witness run: two requests allocate, one detaches, the tree evicts.\<close>

lemma mha_pool_partition_witness:
  "\<exists>p. mha_run 2 4 {3} p \<and> mp_alloc p 1 = None \<and> mp_alloc p 2 = Some [5, 6]
     \<and> {1..<8} = set (mp_free_list p) \<union> {3} \<union> \<Union>(set ` ran (mp_alloc p))"
proof -
  let ?p0 = "mha_init 2 4"
  let ?p1 = "\<lparr>mp_page_size = 2, mp_num_pages = 4, mp_free_list = [5, 6, 7], mp_alloc = [1 \<mapsto> [1, 2, 3, 4]]\<rparr>"
  let ?p2 = "\<lparr>mp_page_size = 2, mp_num_pages = 4, mp_free_list = [7], mp_alloc = [1 \<mapsto> [1, 2, 3, 4], 2 \<mapsto> [5, 6]]\<rparr>"
  let ?p3 = "?p2\<lparr>mp_alloc := [2 \<mapsto> [5, 6]]\<rparr>"
  have up: "[Suc 0..<8] = [1, 2, 3, 4, 5, 6, 7]" by (simp add: upt_rec)
  have "mha_run 2 4 {} ?p0" by (rule mha_run.init)
  moreover have "mha_allocate 1 (Some 2) ?p0 = Inr ([1, 2, 3, 4], ?p1)"
    by (simp add: mha_allocate_def mha_init_def up Let_def)
  ultimately have "mha_run 2 4 {} ?p1" by (rule mha_run.alloc)
  moreover have "mha_allocate 2 (Some 1) ?p1 = Inr ([5, 6], ?p2)"
    by (simp add: mha_allocate_def Let_def)
  ultimately have "mha_run 2 4 {} ?p2" by (rule mha_run.alloc)
  moreover have "mha_detach 1 ?p2 = ([1, 2, 3, 4], ?p3)"
    by (simp add: mha_detach_def fun_eq_iff)
  ultimately have "mha_run 2 4 ({} \<union> set [1, 2, 3, 4]) ?p3" by (rule mha_run.detach)
  then have "mha_run 2 4 (({} \<union> set [1, 2, 3, 4]) - set [1, 2, 4]) (mha_free_slots [1, 2, 4] ?p3)"
    by (rule mha_run.evict) auto
  moreover have "({} \<union> set [1, 2, 3, 4]) - set [1, 2, 4] = {3::nat}" by auto
  ultimately have r: "mha_run 2 4 {3} (mha_free_slots [1, 2, 4] ?p3)" by (simp only:)
  have "mp_alloc (mha_free_slots [1, 2, 4] ?p3) = [2 \<mapsto> [5, 6]]"
    by (simp add: mha_free_slots_def)
  then show ?thesis
    using r mha_pool_partition [OF r] by (intro exI [of _ "mha_free_slots [1, 2, 4] ?p3"]) simp
qed

text \<open>Round trip. Freeing a request right after its allocation brings back
  the very same pool: the same free list in the same order and the same owners.\<close>

theorem mha_alloc_free_roundtrip:
  assumes inv: "mha_inv ext p" and al: "mha_allocate r np p = Inr (xs, p')"
  shows "mha_free r p' = p"
proof -
  obtain need where n: "mp_alloc p r = None" "xs = take need (mp_free_list p)"
    "p' = p\<lparr>mp_free_list := drop need (mp_free_list p), mp_alloc := (mp_alloc p)(r \<mapsto> xs)\<rparr>"
    using al by (rule mha_allocate_Inr)
  have "mset (drop need (mp_free_list p) @ xs) = mset (mp_free_list p)"
    using mset_take_drop [of need "mp_free_list p"] n(2) by (simp add: ac_simps)
  then have "sort (drop need (mp_free_list p) @ xs) = mp_free_list p"
    using mha_invD(1) [OF inv] properties_for_sort by metis
  moreover have "(mp_alloc p)(r := None) = mp_alloc p" using n(1) by auto
  ultimately show ?thesis using n by (simp add: mha_free_def)
qed

lemma mha_alloc_free_roundtrip_witness:
  "\<exists>p'. mha_allocate 7 (Some 2) (mha_init 1 4) = Inr ([1, 2], p') \<and> mha_free 7 p' = mha_init 1 4"
proof -
  have up: "[Suc 0..<4] = [1, 2, 3]" by (simp add: upt_rec)
  have a: "mha_allocate 7 (Some 2) (mha_init 1 4) =
      Inr ([1, 2], (mha_init 1 4)\<lparr>mp_free_list := [3], mp_alloc := [7 \<mapsto> [1, 2]]\<rparr>)"
    by (simp add: mha_allocate_def mha_init_def Let_def up)
  show ?thesis
    using a mha_alloc_free_roundtrip [OF mha_init_inv a] by blast
qed

section \<open>Recurrent states\<close>

definition linear_wf :: "'v linear_pool \<Rightarrow> bool" where
  "linear_wf p \<longleftrightarrow>
     (\<forall>row \<in> set (lp_conv p) \<union> set (lp_rec p). length row = lp_num_slots p) \<and>
     (\<forall>l i. lp_local p l = Some i \<longrightarrow> i < length (lp_conv p) \<and> i < length (lp_rec p))"

lemma length_fold_update [simp]: "length (fold (\<lambda>s row. row[s := z]) ss row) = length row"
  by (induction ss arbitrary: row) auto

lemma nth_fold_update:
  "j < length row \<Longrightarrow> fold (\<lambda>s row. row[s := z]) ss row ! j = (if j \<in> set ss then z else row ! j)"
  by (induction ss arbitrary: row) (auto simp: nth_list_update)

lemma linear_init_wf:
  assumes "linear_init L nkh nvh khd vhd ck n isz ssz ids tp = Inr p"
  shows "linear_wf p"
proof -
  let ?ids = "case ids of None \<Rightarrow> map int [0..<L] | Some l \<Rightarrow> l"
  obtain cd vh where p: "length ?ids = L"
    "p = \<lparr> lp_num_slots = n, lp_conv = zeros L n, lp_rec = zeros L n,
           lp_conv_shape = (cd, ck - 1), lp_rec_shape = (vh, khd, vhd),
           lp_conv_itemsize = isz, lp_rec_itemsize = ssz,
           lp_local = map_of (rev (zip ?ids [0..<length ?ids])), lp_free_list = [1..<n] \<rparr>"
    using assms unfolding linear_init_def
    by (auto simp: bind_res_Inr Let_def split: if_splits prod.splits)
  have "i < L" if "map_of (rev (zip ?ids [0..<length ?ids])) l = Some i" for l i
  proof -
    have "(l, i) \<in> set (zip ?ids [0..<length ?ids])"
      using map_of_SomeD [OF that] by simp
    then show ?thesis using p(1) by (auto dest: set_zip_rightD)
  qed
  then show ?thesis by (auto simp: linear_wf_def p(2) zeros_def)
qed

lemma linear_copy_wf: "linear_wf p \<Longrightarrow> linear_copy_from src dst p = Inr p' \<Longrightarrow> linear_wf p'"
  by (auto simp: linear_wf_def linear_copy_from_def split: if_splits)

lemma linear_clear_wf: "linear_wf p \<Longrightarrow> linear_clear_slots ss p = Inr p' \<Longrightarrow> linear_wf p'"
  by (auto simp: linear_wf_def linear_clear_slots_def zero_slots_def split: if_splits)

lemma linear_rebuild_wf: "linear_wf p \<Longrightarrow> linear_wf (linear_rebuild n p)"
  by (auto simp: linear_wf_def linear_rebuild_def zeros_def)

text \<open>Copy-on-write. Freezing or restoring a snapshot with
  \<open>copy_from\<close> makes every linear layer read at \<open>dst\<close> exactly the conv and recurrent state of
  \<open>src\<close>, and leaves what any layer reads at every other slot, and the free list, as
  it was.\<close>

theorem linear_copy_from_snapshot:
  assumes "linear_wf p" "linear_copy_from src dst p = Inr p'"
  shows "conv_state l dst p' = conv_state l src p \<and> recurrent_state l dst p' = recurrent_state l src p
       \<and> (s \<noteq> dst \<longrightarrow> conv_state l s p' = conv_state l s p \<and> recurrent_state l s p' = recurrent_state l s p)
       \<and> lp_free_list p' = lp_free_list p"
proof -
  have b: "src < lp_num_slots p" "dst < lp_num_slots p" and
    p': "p' = p\<lparr>lp_conv := map (\<lambda>l. l[dst := l ! src]) (lp_conv p),
               lp_rec := map (\<lambda>l. l[dst := l ! src]) (lp_rec p)\<rparr>"
    using assms(2) by (auto simp: linear_copy_from_def split: if_splits)
  show ?thesis
  proof (cases "lp_local p l")
    case None
    then show ?thesis by (simp add: state_of_def local_index_def p')
  next
    case (Some i)
    then have i: "i < length (lp_conv p)" "i < length (lp_rec p)"
      and len: "length (lp_conv p ! i) = lp_num_slots p" "length (lp_rec p ! i) = lp_num_slots p"
      using assms(1) by (auto simp: linear_wf_def)
    show ?thesis using Some i len b by (simp add: state_of_def local_index_def p')
  qed
qed

lemma linear_copy_from_snapshot_witness:
  "\<exists>p p' :: int linear_pool.
     linear_copy_from 2 1 p = Inr p' \<and> conv_state 0 1 p' = Inr 5 \<and> conv_state 0 0 p' = Inr 3"
proof -
  let ?p = "\<lparr> lp_num_slots = 3, lp_conv = [[3, 4, 5]], lp_rec = [[6, 7, 8 :: int]],
              lp_conv_shape = (1, 1), lp_rec_shape = (1, 1, 1), lp_conv_itemsize = 2,
              lp_rec_itemsize = 4, lp_local = [0 \<mapsto> 0], lp_free_list = [1, 2] \<rparr>"
  let ?p' = "?p\<lparr>lp_conv := [[3, 5, 5]], lp_rec := [[6, 8, 8]]\<rparr>"
  have wf: "linear_wf ?p" by (simp add: linear_wf_def)
  have c: "linear_copy_from 2 1 ?p = Inr ?p'" by (simp add: linear_copy_from_def)
  have "conv_state 0 1 ?p' = Inr 5" "conv_state 0 0 ?p' = Inr 3"
    using linear_copy_from_snapshot [OF wf c, of 0 0] by (simp_all add: state_of_def local_index_def)
  then show ?thesis using c by blast
qed

text \<open>Sizing. The planner's estimate of one request's linear state,
  \<open>linear_state_bytes_per_req\<close>, is exactly what one slot of the pool built with the same
  geometry occupies.\<close>

theorem linear_bytes_per_slot:
  assumes "linear_init L nkh nvh khd vhd ck n isz ssz ids tp = Inr p"
  shows "linear_state_bytes_per_req (int L) nkh nvh khd vhd ck tp isz ssz = Inr (bytes_per_slot p)"
proof -
  obtain cd vh where d: "linear_local_dims nkh nvh khd vhd tp = Inr (cd, vh)"
    and p: "length (lp_conv p) = L" "length (lp_rec p) = L" "lp_conv_shape p = (cd, ck - 1)"
      "lp_rec_shape p = (vh, khd, vhd)" "lp_conv_itemsize p = isz" "lp_rec_itemsize p = ssz"
    using assms unfolding linear_init_def zeros_def
    by (auto simp: bind_res_Inr Let_def split: if_splits prod.splits)
  show ?thesis
    by (simp add: linear_state_bytes_per_req_def d Let_def bytes_per_slot_def p algebra_simps)
qed

lemma linear_bytes_per_slot_witness:
  "\<exists>p :: int linear_pool. linear_init 1 4 8 16 16 4 3 2 4 None 2 = Inr p
     \<and> linear_state_bytes_per_req 1 4 8 16 16 4 2 2 4 = Inr (bytes_per_slot p)"
proof -
  obtain p :: "int linear_pool" where p: "linear_init 1 4 8 16 16 4 3 2 4 None 2 = Inr p"
    by (simp add: linear_init_def linear_local_dims_def div_even_def)
  show ?thesis using p linear_bytes_per_slot [OF p] by auto
qed

end
