(* ===== verification/Radix_Cache.thy ===== *)
theory Radix_Cache
  imports Prelude
begin

text \<open>
  \<open>kvcache/radix_cache.py\<close>: the radix tree that maps page-aligned token prefixes to
  the pool slots holding their K/V. A node object is a value \<open>RNode d ks\<close>: its
  fields \<open>d\<close>, its children \<open>ks\<close> in dictionary order. Every write to a \<open>children\<close>
  dictionary uses \<open>key_fn(child._key)\<close> as key, so the dictionary is the list of
  children looked up by \<open>key_fn\<close> of their key. A handle names a node by its
  \<open>uuid\<close>; the walk up the \<open>_parent\<close> pointers is the path from the root to it.
\<close>

section \<open>Nodes\<close>

text \<open>\<open>class RadixTreeNode\<close>. The \<open>mamba\<close> fields are those of the hybrid tree.\<close>

record ndata =
  nd_id :: nat
  nd_key :: "token list"
  nd_val :: "slot list"
  nd_ref :: int
  nd_time :: nat
  nd_mamba :: "slot option"
  nd_mref :: int

datatype rnode = RNode (rn_data: ndata) (rn_kids: "rnode list")

abbreviation rn_id where "rn_id x \<equiv> nd_id (rn_data x)"
abbreviation rn_key where "rn_key x \<equiv> nd_key (rn_data x)"
abbreviation rn_val where "rn_val x \<equiv> nd_val (rn_data x)"
abbreviation rn_ref where "rn_ref x \<equiv> nd_ref (rn_data x)"
abbreviation rn_time where "rn_time x \<equiv> nd_time (rn_data x)"

definition new_ndata :: "nat \<Rightarrow> token list \<Rightarrow> slot list \<Rightarrow> int \<Rightarrow> nat \<Rightarrow> ndata" where
  "new_ndata c key vals ref tic =
     \<lparr> nd_id = c, nd_key = key, nd_val = vals, nd_ref = ref, nd_time = tic,
       nd_mamba = None, nd_mref = 0 \<rparr>"

lemma new_ndata_simps [simp]:
  "nd_id (new_ndata c k v r t) = c" "nd_key (new_ndata c k v r t) = k"
  "nd_val (new_ndata c k v r t) = v" "nd_ref (new_ndata c k v r t) = r"
  "nd_time (new_ndata c k v r t) = t" "nd_mamba (new_ndata c k v r t) = None"
  "nd_mref (new_ndata c k v r t) = 0"
  by (simp_all add: new_ndata_def)

definition is_leaf :: "rnode \<Rightarrow> bool" where
  "is_leaf x = (rn_kids x = [])"

text \<open>\<open>_get_key_fn\<close>: the first token for page size 1, else the first page.\<close>

definition key_fn :: "nat \<Rightarrow> token list \<Rightarrow> token list" where
  "key_fn p x = (if p = 1 then [hd x] else take p x)"

text \<open>\<open>split_at(pos)\<close>: the node keeps its identity, its suffix and its snapshot; a new
  parent with identity \<open>c\<close> takes the first \<open>pos\<close> tokens and the reference count.\<close>

definition split_at :: "nat \<Rightarrow> nat \<Rightarrow> rnode \<Rightarrow> rnode" where
  "split_at c pos x =
     (let d = rn_data x in
      RNode (new_ndata c (take pos (nd_key d)) (take pos (nd_val d)) (nd_ref d) (nd_time d))
        [RNode (d\<lparr>nd_key := drop pos (nd_key d), nd_val := drop pos (nd_val d)\<rparr>) (rn_kids x)])"

definition touch :: "nat \<Rightarrow> rnode \<Rightarrow> rnode" where
  "touch tic x = RNode ((rn_data x)\<lparr>nd_time := tic\<rparr>) (rn_kids x)"

section \<open>The walk\<close>

text \<open>\<open>_tree_walk\<close> from a node on: the tree it leaves, the identity of the node it
  stops at, the number of tokens matched and the next free identity. \<open>walk_kids\<close> is
  the dictionary lookup followed by the rest of the loop body.\<close>

fun walk :: "nat \<Rightarrow> nat \<Rightarrow> nat \<Rightarrow> token list \<Rightarrow> rnode \<Rightarrow> rnode \<times> nat \<times> nat \<times> nat"
and walk_kids :: "nat \<Rightarrow> nat \<Rightarrow> nat \<Rightarrow> token list \<Rightarrow> rnode list
                  \<Rightarrow> (rnode list \<times> nat \<times> nat \<times> nat) option" where
  "walk p tic c ids (RNode d ks) =
     (if ids = [] then (RNode d ks, nd_id d, 0, c)
      else case walk_kids p tic c ids ks of
        None \<Rightarrow> (RNode d ks, nd_id d, 0, c)
      | Some (ks', h, n, c') \<Rightarrow> (RNode d ks', h, n, c'))"
| "walk_kids p tic c ids [] = None"
| "walk_kids p tic c ids (x # xs) =
     (if key_fn p (rn_key x) = key_fn p ids then
        let m = nalign (fast_compare_key (rn_key x) ids) p in
        if m \<noteq> length (rn_key x) then Some (touch tic (split_at c m x) # xs, c, m, c + 1)
        else let (x', h, n, c') = walk p tic c (drop m ids) x
             in Some (touch tic x' # xs, h, m + n, c')
      else map_option (\<lambda>(ks, r). (x # ks, r)) (walk_kids p tic c ids xs))"

section \<open>The cache object\<close>

record radix =
  rx_page :: nat
  rx_root :: rnode
  rx_evictable :: int
  rx_protected :: int
  rx_counter :: nat

text \<open>The root has no key; its reference count is 1 for ever.\<close>

definition new_root :: "nat \<Rightarrow> nat \<Rightarrow> rnode" where
  "new_root c tic = RNode (new_ndata c [] [] 1 tic) []"

definition radix_init :: "nat \<Rightarrow> nat \<Rightarrow> nat \<Rightarrow> radix" where
  "radix_init page c tic =
     \<lparr> rx_page = page, rx_root = new_root c tic, rx_evictable = 0, rx_protected = 0,
       rx_counter = c + 1 \<rparr>"

definition radix_reset :: "nat \<Rightarrow> radix \<Rightarrow> radix" where
  "radix_reset tic r =
     r\<lparr>rx_root := new_root (rx_counter r) tic, rx_counter := rx_counter r + 1,
       rx_evictable := 0, rx_protected := 0\<rparr>"

definition size_info :: "radix \<Rightarrow> int \<times> int" where
  "size_info r = (rx_evictable r, rx_protected r)"

definition match_prefix :: "nat \<Rightarrow> token list \<Rightarrow> radix \<Rightarrow> (nat \<times> handle) \<times> radix" where
  "match_prefix tic ids r =
     (let (t, h, n, c) = walk (rx_page r) tic (rx_counter r) ids (rx_root r)
      in ((n, (n, h)), r\<lparr>rx_root := t, rx_counter := c\<rparr>))"

text \<open>The nodes from the top down to the node named \<open>h\<close>.\<close>

fun node_path :: "nat \<Rightarrow> rnode \<Rightarrow> ndata list option"
and kids_path :: "nat \<Rightarrow> rnode list \<Rightarrow> ndata list option" where
  "node_path h (RNode d ks) =
     (if nd_id d = h then Some [d] else map_option ((#) d) (kids_path h ks))"
| "kids_path h [] = None"
| "kids_path h (x # xs) =
     (case node_path h x of Some ds \<Rightarrow> Some ds | None \<Rightarrow> kids_path h xs)"

text \<open>\<open>get_matched_indices\<close>: the values on the way, the root's left out.\<close>

definition get_matched_indices :: "handle \<Rightarrow> radix \<Rightarrow> slot list option" where
  "get_matched_indices hnd r =
     map_option (\<lambda>ds. concat (map nd_val (tl ds))) (node_path (snd hnd) (rx_root r))"

text \<open>\<open>set_parent\<close>: the entry of the parent's dictionary, and the same at node \<open>h\<close>.\<close>

fun set_child :: "nat \<Rightarrow> rnode \<Rightarrow> rnode list \<Rightarrow> rnode list" where
  "set_child p x [] = [x]"
| "set_child p x (y # ys) =
     (if key_fn p (rn_key y) = key_fn p (rn_key x) then x # ys else y # set_child p x ys)"

fun attach :: "nat \<Rightarrow> nat \<Rightarrow> rnode \<Rightarrow> rnode \<Rightarrow> rnode" where
  "attach p h x (RNode d ks) =
     (if nd_id d = h then RNode d (set_child p x ks) else RNode d (map (attach p h x) ks))"

text \<open>\<open>insert_prefix\<close>; \<open>set_key_value\<close> asserts that key and value have one length.
  \<open>tic\<close> is the clock of the walk, \<open>now\<close> that of the new node. The cached length before the insert and the handle of the inserted prefix come back.\<close>

definition insert_prefix ::
  "nat \<Rightarrow> nat \<Rightarrow> token list \<Rightarrow> slot list \<Rightarrow> radix \<Rightarrow> ((nat \<times> handle) \<times> radix) res" where
  "insert_prefix tic now ids0 idx0 r =
     (let p = rx_page r;
          insert_len = nalign (length ids0) p;
          ids = take insert_len ids0;
          idx = take insert_len idx0;
          (t, h, n, c) = walk p tic (rx_counter r) ids (rx_root r)
      in if n \<noteq> insert_len then
           if length (drop n ids) \<noteq> length (drop n idx) then Inl AssertionError
           else let d = new_ndata c (drop n ids) (drop n idx) 0 now
                in Inr ((n, (insert_len, c)),
                        r\<lparr>rx_root := attach p h (RNode d []) t, rx_counter := c + 1,
                          rx_evictable := rx_evictable r + int (length (nd_key d))\<rparr>)
         else Inr ((n, (insert_len, h)), r\<lparr>rx_root := t, rx_counter := c\<rparr>))"

section \<open>Locks\<close>

text \<open>The loop of \<open>lock_handle\<close> updates the node of the handle and then its ancestors
  up to the root, which it leaves alone; \<open>f\<close> is one loop body, with the length that
  moves between the two counters.\<close>

fun up_path :: "(ndata \<Rightarrow> (ndata \<times> int) res) \<Rightarrow> nat \<Rightarrow> rnode \<Rightarrow> (rnode \<times> int) res option"
and up_kids :: "(ndata \<Rightarrow> (ndata \<times> int) res) \<Rightarrow> nat \<Rightarrow> rnode list \<Rightarrow> (rnode list \<times> int) res option" where
  "up_path f h (RNode d ks) =
     (if nd_id d = h then Some (bind_res (f d) (\<lambda>(d', a). Inr (RNode d' ks, a)))
      else map_option (\<lambda>r. bind_res r (\<lambda>(ks', a). bind_res (f d) (\<lambda>(d', b). Inr (RNode d' ks', a + b))))
             (up_kids f h ks))"
| "up_kids f h [] = None"
| "up_kids f h (x # xs) =
     (case up_path f h x of
        Some r \<Rightarrow> Some (bind_res r (\<lambda>(x', a). Inr (x' # xs, a)))
      | None \<Rightarrow> map_option (\<lambda>r. bind_res r (\<lambda>(xs', a). Inr (x # xs', a))) (up_kids f h xs))"

definition lock_step :: "ndata \<Rightarrow> (ndata \<times> int) res" where
  "lock_step d = Inr (d\<lparr>nd_ref := nd_ref d + 1\<rparr>, if nd_ref d = 0 then int (length (nd_key d)) else 0)"

definition unlock_step :: "ndata \<Rightarrow> (ndata \<times> int) res" where
  "unlock_step d =
     (if nd_ref d - 1 < 0 then Inl AssertionError
      else Inr (d\<lparr>nd_ref := nd_ref d - 1\<rparr>, if nd_ref d - 1 = 0 then int (length (nd_key d)) else 0))"

text \<open>A handle whose node is no longer in the tree is outside the model (\<open>Inl KeyError\<close>);
  a locked node is never removed.\<close>

definition lock_handle :: "handle \<Rightarrow> bool \<Rightarrow> radix \<Rightarrow> radix res" where
  "lock_handle hnd unlock r =
     (if snd hnd = rn_id (rx_root r) then Inr r
      else case up_kids (if unlock then unlock_step else lock_step) (snd hnd) (rn_kids (rx_root r)) of
        None \<Rightarrow> Inl KeyError
      | Some res \<Rightarrow> bind_res res (\<lambda>(ks, a).
          Inr (r\<lparr>rx_root := RNode (rn_data (rx_root r)) ks,
                 rx_evictable := (if unlock then rx_evictable r + a else rx_evictable r - a),
                 rx_protected := (if unlock then rx_protected r - a else rx_protected r + a)\<rparr>)))"

section \<open>Eviction\<close>

text \<open>\<open>_collect_leave_nodes_for_evict\<close>: the unreferenced leaves, with their timestamps.\<close>

fun collect :: "rnode \<Rightarrow> (nat \<times> nat) list" where
  "collect (RNode d ks) =
     (if ks = [] then (if nd_ref d = 0 then [(nd_time d, nd_id d)] else [])
      else concat (map collect ks))"

text \<open>\<open>heapq\<close> compares nodes by timestamp; \<open>heappop\<close> removes one with the least.\<close>

fun heap_pop :: "(nat \<times> nat) list \<Rightarrow> ((nat \<times> nat) \<times> (nat \<times> nat) list) option" where
  "heap_pop [] = None"
| "heap_pop (x # xs) =
     (case heap_pop xs of
        None \<Rightarrow> Some (x, [])
      | Some (y, ys) \<Rightarrow> if fst x \<le> fst y then Some (x, xs) else Some (y, x # ys))"

text \<open>\<open>find_node h t\<close> gives the node named \<open>h\<close>, \<open>parent_of h t\<close> its parent and
  \<open>del_node h t\<close> deletes its entry from the parent's dictionary.\<close>

fun find_node :: "nat \<Rightarrow> rnode \<Rightarrow> rnode option"
and find_kids :: "nat \<Rightarrow> rnode list \<Rightarrow> rnode option" where
  "find_node h (RNode d ks) = (if nd_id d = h then Some (RNode d ks) else find_kids h ks)"
| "find_kids h [] = None"
| "find_kids h (x # xs) = (case find_node h x of Some y \<Rightarrow> Some y | None \<Rightarrow> find_kids h xs)"

fun parent_of :: "nat \<Rightarrow> rnode \<Rightarrow> nat option"
and parent_kids :: "nat \<Rightarrow> rnode list \<Rightarrow> nat option" where
  "parent_of h (RNode d ks) = (if h \<in> rn_id ` set ks then Some (nd_id d) else parent_kids h ks)"
| "parent_kids h [] = None"
| "parent_kids h (x # xs) = (case parent_of h x of Some y \<Rightarrow> Some y | None \<Rightarrow> parent_kids h xs)"

fun del_node :: "nat \<Rightarrow> rnode \<Rightarrow> rnode" where
  "del_node h (RNode d ks) = RNode d (map (del_node h) (filter (\<lambda>x. rn_id x \<noteq> h) ks))"

lemma heap_pop_None: "heap_pop xs = None \<longleftrightarrow> xs = []"
  by (cases xs) (auto split: option.splits)

lemma heap_pop_Some:
  "heap_pop xs = Some (y, ys) \<Longrightarrow> mset xs = add_mset y (mset ys) \<and> (\<forall>x \<in> set xs. fst y \<le> fst x)"
proof (induction xs arbitrary: y ys)
  case (Cons x xs)
  show ?case
  proof (cases "heap_pop xs")
    case None
    then have "xs = []" by (simp add: heap_pop_None)
    then show ?thesis using Cons.prems by simp
  next
    case (Some r)
    obtain z zs where r: "r = (z, zs)" by (cases r)
    have "mset xs = add_mset z (mset zs)" "\<forall>x \<in> set xs. fst z \<le> fst x"
      using Cons.IH Some r by auto
    then show ?thesis using Cons.prems Some r by (auto split: if_splits)
  qed
qed simp

section \<open>Well-formed trees\<close>

fun datas :: "rnode \<Rightarrow> ndata list" where
  "datas (RNode d ks) = d # concat (map datas ks)"

abbreviation kdatas :: "rnode list \<Rightarrow> ndata list" where
  "kdatas ks \<equiv> concat (map datas ks)"

fun wf_node :: "nat \<Rightarrow> rnode \<Rightarrow> bool" where
  "wf_node p (RNode d ks) \<longleftrightarrow>
     nd_key d \<noteq> [] \<and> p dvd length (nd_key d) \<and> length (nd_val d) = length (nd_key d) \<and>
     (\<forall>x \<in> set ks. wf_node p x) \<and> distinct (map (\<lambda>x. key_fn p (rn_key x)) ks)"

definition wf_kids :: "nat \<Rightarrow> rnode list \<Rightarrow> bool" where
  "wf_kids p ks \<longleftrightarrow> (\<forall>x \<in> set ks. wf_node p x) \<and> distinct (map (\<lambda>x. key_fn p (rn_key x)) ks)"

text \<open>What a tree stands for: the set of cached page-aligned prefixes, each with the
  slots of its tokens.\<close>

fun pref :: "nat \<Rightarrow> rnode \<Rightarrow> (token list \<times> slot list) set" where
  "pref p (RNode d ks) =
     {(take n (nd_key d), take n (nd_val d)) | n. 0 < n \<and> n \<le> length (nd_key d) \<and> p dvd n} \<union>
     (\<Union>x \<in> set ks. (\<lambda>(K, V). (nd_key d @ K, nd_val d @ V)) ` pref p x)"

definition prefs :: "nat \<Rightarrow> rnode list \<Rightarrow> (token list \<times> slot list) set" where
  "prefs p ks = insert ([], []) (\<Union>x \<in> set ks. pref p x)"

definition ext :: "ndata \<Rightarrow> token list \<times> slot list \<Rightarrow> token list \<times> slot list" where
  "ext d kv = (nd_key d @ fst kv, nd_val d @ snd kv)"

definition heads :: "nat \<Rightarrow> ndata \<Rightarrow> (token list \<times> slot list) set" where
  "heads p d = {(take n (nd_key d), take n (nd_val d)) | n. 0 < n \<and> n \<le> length (nd_key d) \<and> p dvd n}"

lemma wf_node_RNode:
  "wf_node p (RNode d ks) \<longleftrightarrow>
     nd_key d \<noteq> [] \<and> p dvd length (nd_key d) \<and> length (nd_val d) = length (nd_key d) \<and> wf_kids p ks"
  by (auto simp: wf_kids_def)

lemma pref_RNode:
  assumes "nd_key d \<noteq> []" "p dvd length (nd_key d)" "length (nd_val d) = length (nd_key d)"
  shows "pref p (RNode d ks) = heads p d \<union> ext d ` prefs p ks"
proof -
  have "ext d ([], []) \<in> heads p d"
    unfolding heads_def ext_def using assms
    by (auto intro!: exI [of _ "length (nd_key d)"])
  moreover have "ext d ` (\<Union>x \<in> set ks. pref p x) =
      (\<Union>x \<in> set ks. (\<lambda>(K, V). (nd_key d @ K, nd_val d @ V)) ` pref p x)"
    by (auto simp: ext_def image_iff split: prod.splits) force+
  ultimately show ?thesis
    by (auto simp: prefs_def heads_def)
qed

lemma wf_kids_Nil [simp]: "wf_kids p []"
  by (simp add: wf_kids_def)

lemma wf_kids_Cons:
  "wf_kids p (x # xs) \<longleftrightarrow> wf_node p x \<and> wf_kids p xs \<and>
     (\<forall>y \<in> set xs. key_fn p (rn_key y) \<noteq> key_fn p (rn_key x))"
  unfolding wf_kids_def by (simp add: image_iff) metis

lemma prefs_Cons: "prefs p (x # xs) = pref p x \<union> prefs p xs"
  by (auto simp: prefs_def)

lemma prefs_Nil [simp]: "prefs p [] = {([], [])}"
  by (simp add: prefs_def)

lemma Nil_in_prefs [simp]: "([], []) \<in> prefs p ks"
  by (simp add: prefs_def)

lemma key_fn_take:
  "p \<le> n \<Longrightarrow> 0 < p \<Longrightarrow> p \<le> length x \<Longrightarrow> key_fn p (take n x) = key_fn p x"
  by (cases x) (auto simp: key_fn_def min_def)

lemma key_fn_append: "0 < p \<Longrightarrow> p \<le> length x \<Longrightarrow> key_fn p (x @ y) = key_fn p x"
  by (cases "x = []") (simp_all add: key_fn_def)

lemma key_fn_eq_take:
  assumes "key_fn p x = key_fn p y" "0 < p" "p \<le> length x" "y \<noteq> []"
  shows "p \<le> length y \<and> take p x = take p y"
proof (cases "p = 1")
  case True
  then show ?thesis using assms by (cases x; cases y) (auto simp: key_fn_def)
next
  case False
  then have e: "take p x = take p y" using assms by (simp add: key_fn_def)
  then have "min (length x) p = min (length y) p" by (metis length_take)
  then show ?thesis using assms e by (simp add: min_def split: if_splits)
qed

lemma wf_node_page:
  assumes "wf_node p x" "0 < p"
  shows "p \<le> length (rn_key x)" "rn_key x \<noteq> []" "p dvd length (rn_key x)"
    "length (rn_val x) = length (rn_key x)"
  using assms by (cases x; force dest: dvd_imp_le)+

lemma pref_key_fn:
  assumes "wf_node p x" "0 < p" "(K, V) \<in> pref p x"
  shows "p \<le> length K \<and> key_fn p K = key_fn p (rn_key x) \<and> length V = length K \<and> p dvd length K"
proof -
  have len: "length V = length K \<and> p dvd length K" if "wf_node p x" "(K, V) \<in> pref p x" for x K V
    using that
  proof (induction p x arbitrary: K V rule: pref.induct)
    case (1 p d ks)
    from 1(3) consider n where "K = take n (nd_key d)" "V = take n (nd_val d)" "n \<le> length (nd_key d)" "p dvd n"
      | x K' V' where "x \<in> set ks" "(K', V') \<in> pref p x" "K = nd_key d @ K'" "V = nd_val d @ V'"
      by auto
    then show ?case using 1(1,2) by cases fastforce+
  qed
  obtain d ks where x: "x = RNode d ks" by (cases x)
  note w = wf_node_page [OF assms(1,2), unfolded x, simplified]
  have "p \<le> length K \<and> key_fn p K = key_fn p (nd_key d)"
    using assms(3) w assms(2) unfolding x
    by (auto simp: key_fn_append intro!: key_fn_take dest: dvd_imp_le)
  then show ?thesis using len [OF assms(1,3)] x by simp
qed

lemma prefs_aligned:
  "wf_kids p ks \<Longrightarrow> 0 < p \<Longrightarrow> (K, V) \<in> prefs p ks \<Longrightarrow> length V = length K \<and> p dvd length K"
  by (auto simp: prefs_def wf_kids_def dest: pref_key_fn)

declare wf_node.simps [simp del] pref.simps [simp del] wf_node_RNode [simp]

lemma touch_simps [simp]:
  "rn_kids (touch t x) = rn_kids x" "rn_key (touch t x) = rn_key x" "rn_val (touch t x) = rn_val x"
  "rn_id (touch t x) = rn_id x" "rn_ref (touch t x) = rn_ref x"
  by (simp_all add: touch_def)

lemma wf_node_touch [simp]: "wf_node p (touch t x) = wf_node p x"
  by (cases x) (simp add: touch_def)

lemma pref_touch [simp]: "pref p (touch t x) = pref p x"
  by (cases x) (simp add: touch_def pref.simps)

lemma heads_split:
  assumes "0 < m" "m < length (nd_key d)" "p dvd m"
    and d1: "nd_key d1 = take m (nd_key d)" "nd_val d1 = take m (nd_val d)"
    and d2: "nd_key d2 = drop m (nd_key d)" "nd_val d2 = drop m (nd_val d)"
  shows "heads p d = heads p d1 \<union> ext d1 ` insert ([], []) (heads p d2)"
proof (intro set_eqI iffI)
  fix kv assume "kv \<in> heads p d"
  then obtain n where n: "kv = (take n (nd_key d), take n (nd_val d))" "0 < n" "n \<le> length (nd_key d)" "p dvd n"
    by (auto simp: heads_def)
  show "kv \<in> heads p d1 \<union> ext d1 ` insert ([], []) (heads p d2)"
  proof (cases "n \<le> m")
    case True
    then have "kv \<in> heads p d1"
      using n assms by (auto simp: heads_def min_def intro!: exI [of _ n])
    then show ?thesis by simp
  next
    case False
    then have k: "take n (nd_key d) = take m (nd_key d) @ take (n - m) (drop m (nd_key d))"
      "take n (nd_val d) = take m (nd_val d) @ take (n - m) (drop m (nd_val d))"
      by (metis le_add_diff_inverse nat_le_linear take_add)+
    have "p dvd n - m" using n assms(3) by (simp add: dvd_diff_nat)
    then have "(take (n - m) (nd_key d2), take (n - m) (nd_val d2)) \<in> heads p d2"
      using n False assms(2) d2 by (auto simp: heads_def intro!: exI [of _ "n - m"])
    then have "ext d1 (take (n - m) (nd_key d2), take (n - m) (nd_val d2)) \<in> ext d1 ` heads p d2"
      by (rule imageI)
    then show ?thesis using n k d1 d2 by (simp add: ext_def)
  qed
next
  fix kv assume "kv \<in> heads p d1 \<union> ext d1 ` insert ([], []) (heads p d2)"
  then consider "kv \<in> heads p d1" | "kv = ext d1 ([], [])"
    | kv' where "kv = ext d1 kv'" "kv' \<in> heads p d2" by auto
  then show "kv \<in> heads p d"
  proof cases
    case 1
    then show ?thesis using assms by (force simp: heads_def min_def)
  next
    case 2
    then show ?thesis using assms by (auto simp: heads_def ext_def intro!: exI [of _ m])
  next
    case 3
    then obtain n where n: "kv' = (take n (nd_key d2), take n (nd_val d2))" "0 < n"
        "n \<le> length (nd_key d2)" "p dvd n"
      by (auto simp: heads_def)
    have "kv = (take (m + n) (nd_key d), take (m + n) (nd_val d))"
      using 3(1) n d1 d2 by (simp add: ext_def take_add)
    then show ?thesis using n assms d2 by (auto simp: heads_def intro!: exI [of _ "m + n"])
  qed
qed

lemma split_at_wf:
  assumes "wf_node p x" "0 < p" "0 < m" "m < length (rn_key x)" "p dvd m"
  shows "wf_node p (split_at c m x)" "pref p (split_at c m x) = pref p x"
    "key_fn p (rn_key (split_at c m x)) = key_fn p (rn_key x)"
proof -
  obtain d ks where x: "x = RNode d ks" by (cases x)
  let ?d1 = "new_ndata c (take m (nd_key d)) (take m (nd_val d)) (nd_ref d) (nd_time d)"
  let ?d2 = "d\<lparr>nd_key := drop m (nd_key d), nd_val := drop m (nd_val d)\<rparr>"
  have s: "split_at c m x = RNode ?d1 [RNode ?d2 ks]" by (simp add: split_at_def x Let_def)
  have w: "nd_key d \<noteq> []" "p dvd length (nd_key d)" "length (nd_val d) = length (nd_key d)" "wf_kids p ks"
    using assms(1) by (simp_all add: x wf_node_RNode)
  have w2: "nd_key ?d2 \<noteq> []" "p dvd length (nd_key ?d2)" "length (nd_val ?d2) = length (nd_key ?d2)"
    using w assms x by (auto simp: dvd_diff_nat)
  have w1: "nd_key ?d1 \<noteq> []" "p dvd length (nd_key ?d1)" "length (nd_val ?d1) = length (nd_key ?d1)"
    using w assms x by (auto simp: min_def)
  have n2: "wf_node p (RNode ?d2 ks)" using w2 w(4) unfolding wf_node_RNode by simp
  show "wf_node p (split_at c m x)"
    unfolding s using w1 n2 by (simp only: wf_node_RNode) (simp add: wf_kids_Cons)
  have h: "heads p d = heads p ?d1 \<union> ext ?d1 ` insert ([], []) (heads p ?d2)"
    using heads_split [of m d p ?d1 ?d2] assms x by simp
  have e: "ext d ` P = ext ?d1 ` ext ?d2 ` P" for P
    by (auto simp: ext_def image_image append_assoc [symmetric] simp del: append_assoc)
  have "pref p (split_at c m x) = heads p ?d1 \<union> ext ?d1 ` (insert ([], []) (heads p ?d2) \<union> ext ?d2 ` prefs p ks)"
    unfolding s by (subst pref_RNode [OF w1]) (simp add: prefs_Cons pref_RNode [OF w2])
  also have "\<dots> = pref p x"
    unfolding x by (simp add: pref_RNode [OF w(1-3)] h e [symmetric] image_Un Un_assoc)
  finally show "pref p (split_at c m x) = pref p x" .
  show "key_fn p (rn_key (split_at c m x)) = key_fn p (rn_key x)"
    unfolding s using assms x by (auto intro!: key_fn_take dest: dvd_imp_le)
qed


lemma wf_match_len:
  assumes "wf_node p x" "0 < p" "key_fn p (rn_key x) = key_fn p ids" "ids \<noteq> []"
    and m: "m = nalign (fast_compare_key (rn_key x) ids) p"
  shows "p \<le> m" "0 < m" "m \<le> length (rn_key x)" "m \<le> length ids" "p dvd m" "take m (rn_key x) = take m ids"
proof -
  have k: "p \<le> length (rn_key x)" using wf_node_page(1) assms by blast
  then have "p \<le> length ids" "take p (rn_key x) = take p ids"
    using key_fn_eq_take [OF assms(3,2) k assms(4)] by auto
  then have "p \<le> fast_compare_key (rn_key x) ids" using k by (simp add: fast_compare_key_iff)
  then show "p \<le> m" using assms(2) unfolding m by (simp add: nalign_pos)
  then show "0 < m" using assms(2) by simp
  have le: "m \<le> fast_compare_key (rn_key x) ids" unfolding m by simp
  then show "m \<le> length (rn_key x)" "m \<le> length ids" "take m (rn_key x) = take m ids"
    by (simp_all add: fast_compare_key_iff)
  show "p dvd m" unfolding m by simp
qed

text \<open>A cached prefix of the input passes through the child the dictionary finds.\<close>

lemma pref_prefix_key_fn:
  assumes "wf_node p x" "0 < p" "(K, V) \<in> pref p x" "prefix K ids"
  shows "key_fn p (rn_key x) = key_fn p ids"
proof -
  have K: "p \<le> length K" "key_fn p K = key_fn p (rn_key x)"
    using pref_key_fn [OF assms(1-3)] by auto
  then show ?thesis using assms(2,4) by (auto simp: prefix_def key_fn_append)
qed

text \<open>What a walk over \<open>ks\<close> with input \<open>ids\<close> that matched \<open>n\<close> tokens and left \<open>ks'\<close> guarantees.\<close>

definition walk_ok :: "nat \<Rightarrow> token list \<Rightarrow> rnode list \<Rightarrow> rnode list \<Rightarrow> nat \<Rightarrow> bool" where
  "walk_ok p ids ks ks' n \<longleftrightarrow>
     wf_kids p ks' \<and> prefs p ks' = prefs p ks \<and> n \<le> length ids \<and> p dvd n \<and>
     (\<exists>V. (take n ids, V) \<in> prefs p ks) \<and>
     (\<forall>K V. (K, V) \<in> prefs p ks \<longrightarrow> prefix K ids \<longrightarrow> length K \<le> n)"

lemma prefs_pref_RNode:
  "wf_node p (RNode d ks) \<Longrightarrow> pref p (RNode d ks) = heads p d \<union> ext d ` prefs p ks"
  by (rule pref_RNode) simp_all

lemma heads_length: "kv \<in> heads p d \<Longrightarrow> length (fst kv) \<le> length (nd_key d)"
  by (auto simp: heads_def)

lemma full_head: "wf_node p x \<Longrightarrow> rn_key x = take n ids \<Longrightarrow> \<exists>V. (take n ids, V) \<in> pref p x"
proof (cases x)
  case (RNode d ks)
  assume w: "wf_node p x" and k: "rn_key x = take n ids"
  have "(nd_key d, nd_val d) \<in> heads p d"
    using w RNode by (auto simp: heads_def intro!: exI [of _ "length (nd_key d)"])
  then show ?thesis using w k RNode prefs_pref_RNode [of p d ks] by auto
qed

lemma walk_None:
  assumes "walk_kids p tic c ids ks = None" "wf_kids p ks" "0 < p" "(K, V) \<in> prefs p ks" "prefix K ids"
  shows "K = []"
  using assms
proof (induction ks)
  case (Cons x xs)
  have ne: "key_fn p (rn_key x) \<noteq> key_fn p ids"
    using Cons.prems(1) by (auto simp: Let_def split: if_splits prod.splits)
  then have "(K, V) \<notin> pref p x"
    using pref_prefix_key_fn Cons.prems by (auto simp: wf_kids_Cons)
  moreover have "walk_kids p tic c ids xs = None"
    using Cons.prems(1) ne by auto
  ultimately show ?case using Cons by (simp add: prefs_Cons wf_kids_Cons)
qed simp

lemma walk_keeps_data: "walk p tic c ids x = (x', h, n, c') \<Longrightarrow> rn_data x' = rn_data x"
  by (cases x) (auto split: if_splits option.splits)

lemma walk_None_ok:
  "walk_kids p tic c ids ks = None \<Longrightarrow> wf_kids p ks \<Longrightarrow> 0 < p \<Longrightarrow> walk_ok p ids ks ks 0"
  using walk_None [of p tic c ids ks] by (auto simp: walk_ok_def intro!: exI [of _ "[]"])

lemma walk_correct:
  "walk p tic c ids x = (x', h, n, c') \<Longrightarrow> wf_kids p (rn_kids x) \<Longrightarrow> 0 < p \<Longrightarrow>
     walk_ok p ids (rn_kids x) (rn_kids x') n"
  "walk_kids p tic c ids ks = Some (ks', h, n, c') \<Longrightarrow> wf_kids p ks \<Longrightarrow> 0 < p \<Longrightarrow> ids \<noteq> [] \<Longrightarrow>
     walk_ok p ids ks ks' n \<and> map (\<lambda>x. key_fn p (rn_key x)) ks' = map (\<lambda>x. key_fn p (rn_key x)) ks"
proof (induction p tic c ids x and p tic c ids ks arbitrary: x' h n c' and ks' h n c'
    rule: walk_walk_kids.induct)
  case (1 p tic c ids d ks)
  then show ?case
    by (auto simp: walk_None_ok split: if_splits option.splits)
       (auto simp: walk_ok_def intro!: exI [of _ "[]"])
next
  case (2 p tic c ids)
  then show ?case by simp
next
  case (3 p tic c ids x xs)
  have wx: "wf_node p x" and wxs: "wf_kids p xs"
    and sib: "\<forall>y \<in> set xs. key_fn p (rn_key y) \<noteq> key_fn p (rn_key x)"
    using "3.prems"(2) by (auto simp: wf_kids_Cons)
  show ?case
  proof (cases "key_fn p (rn_key x) = key_fn p ids")
    case False
    then obtain ys where r: "walk_kids p tic c ids xs = Some (ys, h, n, c')" "ks' = x # ys"
      using "3.prems"(1) by auto
    have IH: "walk_ok p ids xs ys n" "map (\<lambda>x. key_fn p (rn_key x)) ys = map (\<lambda>x. key_fn p (rn_key x)) xs"
      using "3.IH"(2) [OF False r(1) wxs "3.prems"(3,4)] by auto
    have "(K, V) \<notin> pref p x" if "prefix K ids" for K V
      using pref_prefix_key_fn wx "3.prems"(3) False that by blast
    moreover have "\<forall>y \<in> set ys. key_fn p (rn_key y) \<noteq> key_fn p (rn_key x)"
      using sib arg_cong [OF IH(2), of set] by (auto simp: image_iff set_eq_iff) metis
    ultimately show ?thesis using IH wx r(2) unfolding walk_ok_def
      by (auto simp: wf_kids_Cons prefs_Cons)
  next
    case True
    define m where "m = nalign (fast_compare_key (rn_key x) ids) p"
    note M = wf_match_len [OF wx "3.prems"(3) True "3.prems"(4) m_def]
    have noxs: "(K, V) \<in> prefs p xs \<Longrightarrow> prefix K ids \<Longrightarrow> K = []" for K V
    proof -
      assume a: "(K, V) \<in> prefs p xs" "prefix K ids"
      show "K = []"
      proof (rule ccontr)
        assume "K \<noteq> []"
        then obtain y where "y \<in> set xs" "(K, V) \<in> pref p y" using a by (auto simp: prefs_def)
        then have "key_fn p (rn_key y) = key_fn p ids"
          using pref_prefix_key_fn wxs "3.prems"(3) a(2) by (auto simp: wf_kids_def)
        then show False using sib True \<open>y \<in> set xs\<close> by auto
      qed
    qed
    obtain d ks where x: "x = RNode d ks" by (cases x)
    have px: "pref p x = heads p d \<union> ext d ` prefs p ks"
      using wx unfolding x by (rule prefs_pref_RNode)
    show ?thesis
    proof (cases "m = length (rn_key x)")
      case False
      then have r: "ks' = touch tic (split_at c m x) # xs" "n = m"
        using "3.prems"(1) True by (auto simp: m_def [symmetric] Let_def)
      have lt: "m < length (rn_key x)" using False M(3) by simp
      note S = split_at_wf [OF wx "3.prems"(3) M(2) lt M(5)]
      have pr: "prefs p ks' = prefs p (x # xs)" using r S(2) by (simp add: prefs_Cons)
      have ex: "(take m ids, take m (nd_val d)) \<in> prefs p (x # xs)"
        using M lt x px by (auto simp: prefs_Cons heads_def intro!: exI [of _ m])
      have max: "length K \<le> m" if kv: "(K, V) \<in> prefs p (x # xs)" "prefix K ids" for K V
      proof (rule ccontr)
        assume "\<not> length K \<le> m"
        then have lm: "m < length K" "K \<noteq> []" by auto
        then have "(K, V) \<in> pref p x" using kv noxs by (auto simp: prefs_Cons)
        moreover have "take (min (length K) (length (nd_key d))) K = take (min (length K) (length (nd_key d))) (nd_key d)"
          using calculation px by (auto simp: heads_def ext_def)
        ultimately have al: "p dvd min (length K) (length (nd_key d))"
          and tk: "take (min (length K) (length (nd_key d))) ids = take (min (length K) (length (nd_key d))) (nd_key d)"
          using pref_key_fn [OF wx "3.prems"(3)] kv(2) wf_node_page(3) [OF wx "3.prems"(3)] x
          by (auto simp: min_def prefix_def)
        have "min (length K) (length (nd_key d)) \<le> fast_compare_key (nd_key d) ids"
          using tk kv(2) by (simp add: fast_compare_key_iff prefix_length_le min.coboundedI1)
        then have "min (length K) (length (nd_key d)) \<le> m"
          unfolding m_def x using al by (simp add: nalign_greatest)
        then show False using lm lt x by (simp add: min_def split: if_splits)
      qed
      show ?thesis unfolding walk_ok_def r(2)
        using pr ex max M S wxs sib r(1) by (auto simp: wf_kids_Cons)
    next
      case eq: True
      obtain y n2 where w: "walk p tic c (drop m ids) x = (y, h, n2, c')" "ks' = touch tic y # xs" "n = m + n2"
        using "3.prems"(1) True eq by (auto simp: m_def [symmetric] Let_def split: prod.splits)
      have dy: "rn_data y = d" using walk_keeps_data [OF w(1)] x by simp
      have "wf_kids p (rn_kids x)" using wx x by simp
      then have IH: "walk_ok p (drop m ids) ks (rn_kids y) n2"
        using "3.IH"(1) [OF True m_def _ w(1)] eq "3.prems"(3) x by simp
      obtain ks2 where y: "y = RNode d ks2" using dy by (cases y) simp
      have wy: "wf_node p y" using wx IH unfolding x y walk_ok_def by simp
      have py: "pref p y = pref p x"
        using IH prefs_pref_RNode [OF wy [unfolded y]] y px by (simp add: walk_ok_def)
      have key: "nd_key d = take m ids" using M(6) eq x by simp
      have dn: "p dvd n" using IH M(5) w(3) by (simp add: walk_ok_def)
      obtain V where "(take n2 (drop m ids), V) \<in> prefs p ks" using IH by (auto simp: walk_ok_def)
      then have "ext d (take n2 (drop m ids), V) \<in> pref p x" unfolding px by blast
      then have ex: "(take n ids, nd_val d @ V) \<in> prefs p (x # xs)"
        by (simp add: ext_def key w(3) take_add prefs_Cons)
      have max: "length K \<le> n" if kv: "(K, V) \<in> prefs p (x # xs)" "prefix K ids" for K V
      proof (cases "K = []")
        case False
        then have "(K, V) \<in> pref p x" using kv noxs by (auto simp: prefs_Cons)
        then consider "(K, V) \<in> heads p d" | K' V' where "(K', V') \<in> prefs p ks" "K = nd_key d @ K'"
          unfolding px by (auto simp: ext_def)
        then show ?thesis
        proof cases
          case 1
          then have "length K \<le> m" using heads_length [OF 1] eq x by simp
          then show ?thesis using w(3) by simp
        next
          case 2
          then have "prefix K' (drop m ids)"
            using kv(2) key M(4) by (auto simp: prefix_def) (metis append_take_drop_id same_append_eq append_assoc)
          then have "length K' \<le> n2" using IH 2(1) by (auto simp: walk_ok_def)
          then show ?thesis using 2 key M(4) w(3) by simp
        qed
      qed simp
      have "n \<le> length ids" using IH w(3) M(4) by (auto simp: walk_ok_def)
      then show ?thesis unfolding walk_ok_def
        using wy py ex max dn wxs sib w(2) dy x by (auto simp: wf_kids_Cons prefs_Cons)
    qed
  qed
qed

section \<open>What a walk keeps\<close>

definition nids :: "rnode \<Rightarrow> nat list" where
  "nids x = map nd_id (datas x)"

definition kids_ids :: "rnode list \<Rightarrow> nat list" where
  "kids_ids ks = map nd_id (kdatas ks)"

lemma kids_ids_simps [simp]:
  "kids_ids [] = []" "kids_ids (x # xs) = nids x @ kids_ids xs"
  "nids (RNode d ks) = nd_id d # kids_ids ks"
  by (simp_all add: kids_ids_def nids_def)

lemma nids_touch [simp]: "nids (touch t x) = nids x"
  by (cases x) (simp add: touch_def)

lemma nids_split [simp]: "nids (split_at c m x) = c # nids x"
  by (cases x) (simp add: split_at_def Let_def)

definition id_grow :: "nat \<Rightarrow> nat \<Rightarrow> nat list \<Rightarrow> nat list \<Rightarrow> bool" where
  "id_grow c c' xs ys \<longleftrightarrow>
     (c' = c \<and> mset ys = mset xs) \<or> (c' = c + 1 \<and> mset ys = add_mset c (mset xs))"

lemma id_grow_refl [simp]: "id_grow c c xs xs"
  by (simp add: id_grow_def)

lemma id_grow_append:
  "id_grow c c' xs ys \<Longrightarrow> id_grow c c' (zs @ xs) (zs @ ys)"
  "id_grow c c' xs ys \<Longrightarrow> id_grow c c' (xs @ zs) (ys @ zs)"
  by (auto simp: id_grow_def)

lemma id_grow_cases:
  assumes "id_grow c c' xs ys"
  obtains "c' = c" "set ys = set xs" "distinct ys = distinct xs"
    | "c' = c + 1" "set ys = set (c # xs)" "distinct ys = distinct (c # xs)"
proof -
  consider "c' = c" "mset ys = mset xs" | "c' = c + 1" "mset ys = mset (c # xs)"
    using assms by (auto simp: id_grow_def)
  then show ?thesis
  proof cases
    case 1
    then show ?thesis using that(1) mset_eq_setD mset_eq_distinct by blast
  next
    case 2
    then show ?thesis using that(2) mset_eq_setD mset_eq_distinct by blast
  qed
qed

lemma id_grow_set: "id_grow c c' xs ys \<Longrightarrow> set ys \<subseteq> insert c (set xs) \<and> set xs \<subseteq> set ys \<and> c \<le> c'"
  by (erule id_grow_cases) auto

lemma id_grow_inv:
  assumes "id_grow c c' xs ys" "distinct xs" "\<forall>i \<in> set xs. i < c"
  shows "distinct ys \<and> (\<forall>i \<in> set ys. i < c')"
  using assms(1)
proof (rule id_grow_cases)
  assume "c' = c + 1" "set ys = set (c # xs)" "distinct ys = distinct (c # xs)"
  then show ?thesis using assms(2,3) by (auto intro: less_SucI)
qed (use assms in simp)

lemma walk_ids:
  "walk p tic c ids x = (x', h, n, c') \<Longrightarrow> id_grow c c' (nids x) (nids x')"
  "walk_kids p tic c ids ks = Some (ks', h, n, c') \<Longrightarrow> id_grow c c' (kids_ids ks) (kids_ids ks')"
proof (induction p tic c ids x and p tic c ids ks arbitrary: x' h n c' and ks' h n c'
    rule: walk_walk_kids.induct)
  case (1 p tic c ids d ks)
  then show ?case
    by (auto split: if_splits option.splits) (auto simp: id_grow_def)
next
  case (3 p tic c ids x xs)
  then show ?case
    by (auto simp: Let_def id_grow_append split: if_splits prod.splits) (auto simp: id_grow_def)
qed simp

text \<open>A quantity that a split divides and that does not look at the clock is unchanged
  in total: slots, sizes, snapshots.\<close>

definition split_additive :: "(ndata \<Rightarrow> 'm::comm_monoid_add) \<Rightarrow> bool" where
  "split_additive g \<longleftrightarrow>
     (\<forall>d t. g (d\<lparr>nd_time := t\<rparr>) = g d) \<and>
     (\<forall>d c m t. 0 < m \<longrightarrow> m < length (nd_key d) \<longrightarrow> length (nd_val d) = length (nd_key d) \<longrightarrow>
        g (new_ndata c (take m (nd_key d)) (take m (nd_val d)) (nd_ref d) t)
        + g (d\<lparr>nd_key := drop m (nd_key d), nd_val := drop m (nd_val d)\<rparr>) = g d)"

definition ksum :: "(ndata \<Rightarrow> 'm::comm_monoid_add) \<Rightarrow> rnode list \<Rightarrow> 'm" where
  "ksum g ks = sum_list (map g (kdatas ks))"

definition nsum :: "(ndata \<Rightarrow> 'm::comm_monoid_add) \<Rightarrow> rnode \<Rightarrow> 'm" where
  "nsum g x = sum_list (map g (datas x))"

lemma ksum_simps [simp]:
  "ksum g [] = 0" "ksum g (x # xs) = nsum g x + ksum g xs"
  "nsum g (RNode d ks) = g d + ksum g ks"
  by (simp_all add: ksum_def nsum_def)

lemma nsum_touch: "split_additive g \<Longrightarrow> nsum g (touch t x) = nsum g x"
  by (cases x) (simp add: touch_def split_additive_def)

lemma nsum_split:
  "split_additive g \<Longrightarrow> wf_node p x \<Longrightarrow> 0 < m \<Longrightarrow> m < length (rn_key x) \<Longrightarrow>
   nsum g (split_at c m x) = nsum g x"
  by (cases x) (simp add: split_at_def Let_def split_additive_def add.assoc [symmetric])

lemma walk_sum:
  fixes g :: "ndata \<Rightarrow> 'm::comm_monoid_add"
  shows
  "walk p tic c ids x = (x', h, n, c') \<Longrightarrow> split_additive g \<Longrightarrow> wf_kids p (rn_kids x) \<Longrightarrow> 0 < p \<Longrightarrow>
     nsum g x' = nsum g x"
  "walk_kids p tic c ids ks = Some (ks', h, n, c') \<Longrightarrow> split_additive g \<Longrightarrow> wf_kids p ks \<Longrightarrow> 0 < p \<Longrightarrow>
     ids \<noteq> [] \<Longrightarrow> ksum g ks' = ksum g ks"
proof (induction p tic c ids x and p tic c ids ks arbitrary: x' h n c' and ks' h n c'
    rule: walk_walk_kids.induct)
  case (1 p tic c ids d ks)
  then show ?case by (auto split: if_splits option.splits)
next
  case (3 p tic c ids x xs)
  have wx: "wf_node p x" "wf_kids p xs" using "3.prems"(3) by (auto simp: wf_kids_Cons)
  show ?case
  proof (cases "key_fn p (rn_key x) = key_fn p ids")
    case False
    then show ?thesis using 3 wx by auto
  next
    case True
    define m where "m = nalign (fast_compare_key (rn_key x) ids) p"
    note M = wf_match_len [OF wx(1) "3.prems"(4) True "3.prems"(5) m_def]
    show ?thesis
    proof (cases "m = length (rn_key x)")
      case False
      then have "m < length (rn_key x)" using M(3) by simp
      then show ?thesis using False True "3.prems"(1,2) wx M(2)
        by (auto simp: m_def [symmetric] Let_def nsum_touch nsum_split)
    next
      case eq: True
      obtain y n2 where w: "walk p tic c (drop m ids) x = (y, h, n2, c')" "ks' = touch tic y # xs"
        using "3.prems"(1) True eq by (auto simp: m_def [symmetric] Let_def split: prod.splits)
      have "wf_kids p (rn_kids x)" using wx by (cases x) simp
      then have "nsum g y = nsum g x"
        using "3.IH"(1) [OF True m_def _ w(1)] eq "3.prems"(2,4) by simp
      then show ?thesis using w(2) "3.prems"(2) by (simp add: nsum_touch)
    qed
  qed
qed simp

text \<open>The references: each node's count is its own locks plus its children's counts.\<close>

fun ref_ok :: "nat multiset \<Rightarrow> rnode \<Rightarrow> bool" where
  "ref_ok L (RNode d ks) \<longleftrightarrow>
     nd_ref d = int (count L (nd_id d)) + sum_list (map rn_ref ks) \<and> (\<forall>x \<in> set ks. ref_ok L x)"

definition refs_ok :: "nat multiset \<Rightarrow> rnode list \<Rightarrow> bool" where
  "refs_ok L ks \<longleftrightarrow> (\<forall>x \<in> set ks. ref_ok L x)"

lemma ref_ok_touch [simp]: "ref_ok L (touch t x) = ref_ok L x"
  by (cases x) (simp add: touch_def)

lemma ref_ok_split: "ref_ok L x \<Longrightarrow> count L c = 0 \<Longrightarrow> ref_ok L (split_at c m x)"
  by (cases x) (simp add: split_at_def Let_def)

lemma rn_ref_split [simp]: "rn_ref (split_at c m x) = rn_ref x"
  by (simp add: split_at_def Let_def)

lemma walk_refs:
  "walk p tic c ids x = (x', h, n, c') \<Longrightarrow> count L c = 0 \<Longrightarrow>
     (refs_ok L (rn_kids x) \<longrightarrow> refs_ok L (rn_kids x')) \<and> sum_list (map rn_ref (rn_kids x')) = sum_list (map rn_ref (rn_kids x))"
  "walk_kids p tic c ids ks = Some (ks', h, n, c') \<Longrightarrow> count L c = 0 \<Longrightarrow>
     (refs_ok L ks \<longrightarrow> refs_ok L ks') \<and> sum_list (map rn_ref ks') = sum_list (map rn_ref ks)"
proof (induction p tic c ids x and p tic c ids ks arbitrary: x' h n c' and ks' h n c'
    rule: walk_walk_kids.induct)
  case (1 p tic c ids d ks)
  then show ?case by (auto split: if_splits option.splits)
next
  case (3 p tic c ids x xs)
  show ?case
  proof (cases "key_fn p (rn_key x) = key_fn p ids")
    case False
    then show ?thesis using 3 by (auto simp: refs_ok_def)
  next
    case True
    define m where "m = nalign (fast_compare_key (rn_key x) ids) p"
    show ?thesis
    proof (cases "m = length (rn_key x)")
      case False
      then show ?thesis using True "3.prems"
        by (auto simp: m_def [symmetric] Let_def refs_ok_def ref_ok_split)
    next
      case eq: True
      obtain y n2 where w: "walk p tic c (drop m ids) x = (y, h, n2, c')" "ks' = touch tic y # xs"
        using "3.prems"(1) True eq by (auto simp: m_def [symmetric] Let_def split: prod.splits)
      have "rn_data y = rn_data x" using walk_keeps_data [OF w(1)] .
      then show ?thesis using "3.IH"(1) [OF True m_def _ w(1) "3.prems"(2)] eq w(2)
        by (cases x; cases y) (auto simp: refs_ok_def)
    qed
  qed
qed simp

section \<open>Paths and handles\<close>

definition keys_of :: "ndata list \<Rightarrow> token list" where
  "keys_of ds = concat (map nd_key ds)"

definition vals_of :: "ndata list \<Rightarrow> slot list" where
  "vals_of ds = concat (map nd_val ds)"

lemma keys_vals_simps [simp]:
  "keys_of [] = []" "keys_of (d # ds) = nd_key d @ keys_of ds"
  "vals_of [] = []" "vals_of (d # ds) = nd_val d @ vals_of ds"
  by (simp_all add: keys_of_def vals_of_def)

lemma path_None_iff:
  "node_path h x = None \<longleftrightarrow> h \<notin> set (nids x)"
  "kids_path h ks = None \<longleftrightarrow> h \<notin> set (kids_ids ks)"
  by (induction h x and h ks rule: node_path_kids_path.induct) (auto split: option.splits)

lemma node_path_hd: "node_path h x = Some ds \<Longrightarrow> \<exists>ds'. ds = rn_data x # ds'"
  by (cases x) (auto split: if_splits)

lemma node_path_touch:
  "node_path h x = Some (d # ds) \<Longrightarrow> node_path h (touch t x) = Some (d\<lparr>nd_time := t\<rparr> # ds)"
  by (cases x) (auto simp: touch_def split: if_splits)

lemma ext_pair [simp]: "ext d (K, V) = (nd_key d @ K, nd_val d @ V)"
  by (simp add: ext_def)

lemma path_in_prefs:
  "node_path h x = Some ds \<Longrightarrow> wf_node p x \<Longrightarrow> (keys_of ds, vals_of ds) \<in> pref p x"
  "kids_path h ks = Some ds \<Longrightarrow> wf_kids p ks \<Longrightarrow> (keys_of ds, vals_of ds) \<in> prefs p ks"
proof (induction h x and h ks arbitrary: ds and ds rule: node_path_kids_path.induct)
  case (1 h d ks)
  have px: "pref p (RNode d ks) = heads p d \<union> ext d ` prefs p ks"
    using 1 by (intro prefs_pref_RNode) blast
  have "\<exists>ds'. ds = d # ds' \<and> (keys_of ds', vals_of ds') \<in> prefs p ks"
    using 1 by (auto split: if_splits)
  then show ?case by (auto simp: px image_iff intro!: bexI)
next
  case (3 h x xs)
  then show ?case by (auto simp: wf_kids_Cons prefs_Cons split: option.splits)
qed simp

lemma kids_path_skip: "h \<notin> set (nids x) \<Longrightarrow> kids_path h (x # xs) = kids_path h xs"
  using path_None_iff(1) [of h x] by simp

lemma walk_path:
  "walk p tic c ids x = (x', h, n, c') \<Longrightarrow> wf_kids p (rn_kids x) \<Longrightarrow> 0 < p \<Longrightarrow>
     distinct (nids x) \<Longrightarrow> \<forall>i \<in> set (nids x). i < c \<Longrightarrow>
     \<exists>ds. node_path h x' = Some (rn_data x' # ds) \<and> keys_of ds = take n ids"
  "walk_kids p tic c ids ks = Some (ks', h, n, c') \<Longrightarrow> wf_kids p ks \<Longrightarrow> 0 < p \<Longrightarrow> ids \<noteq> [] \<Longrightarrow>
     distinct (kids_ids ks) \<Longrightarrow> \<forall>i \<in> set (kids_ids ks). i < c \<Longrightarrow>
     \<exists>ds. kids_path h ks' = Some ds \<and> keys_of ds = take n ids"
proof (induction p tic c ids x and p tic c ids ks arbitrary: x' h n c' and ks' h n c'
    rule: walk_walk_kids.induct)
  case (1 p tic c ids d ks)
  show ?case
  proof (cases "ids = [] \<or> walk_kids p tic c ids ks = None")
    case True
    then show ?thesis using "1.prems" by (cases "ids = []") auto
  next
    case False
    then obtain ks' where w: "walk_kids p tic c ids ks = Some (ks', h, n, c')" "x' = RNode d ks'"
      using "1.prems"(1) by auto
    obtain ds where ds: "kids_path h ks' = Some ds" "keys_of ds = take n ids"
      using "1.IH" [OF _ w(1)] False "1.prems" by auto
    have "nd_id d \<notin> set (kids_ids ks')"
      using walk_ids(2) [OF w(1)] "1.prems"(4,5) by (auto dest!: id_grow_set)
    moreover have "h \<in> set (kids_ids ks')" using ds(1) path_None_iff(2) [of h ks'] by auto
    ultimately have "nd_id d \<noteq> h" by auto
    then show ?thesis using ds w(2) by simp
  qed
next
  case (3 p tic c ids x xs)
  have wx: "wf_node p x" "wf_kids p xs" using "3.prems"(2) by (auto simp: wf_kids_Cons)
  show ?case
  proof (cases "key_fn p (rn_key x) = key_fn p ids")
    case False
    then obtain ys where r: "walk_kids p tic c ids xs = Some (ys, h, n, c')" "ks' = x # ys"
      using "3.prems"(1) by auto
    obtain ds where ds: "kids_path h ys = Some ds" "keys_of ds = take n ids"
      using "3.IH"(2) [OF False r(1) wx(2)] "3.prems" by auto
    have "h \<in> set (kids_ids ys)" using ds(1) path_None_iff(2) [of h ys] by auto
    then have "h \<notin> set (nids x)"
      using walk_ids(2) [OF r(1)] "3.prems"(5,6) by (fastforce dest!: id_grow_set)
    then show ?thesis using ds r(2) kids_path_skip by simp
  next
    case True
    define m where "m = nalign (fast_compare_key (rn_key x) ids) p"
    note M = wf_match_len [OF wx(1) "3.prems"(3) True "3.prems"(4) m_def]
    show ?thesis
    proof (cases "m = length (rn_key x)")
      case False
      then have r: "ks' = touch tic (split_at c m x) # xs" "n = m" "h = c"
        using "3.prems"(1) True by (auto simp: m_def [symmetric] Let_def)
      then show ?thesis using M(6) by (simp add: touch_def split_at_def Let_def)
    next
      case eq: True
      obtain y n2 where w: "walk p tic c (drop m ids) x = (y, h, n2, c')" "ks' = touch tic y # xs" "n = m + n2"
        using "3.prems"(1) True eq by (auto simp: m_def [symmetric] Let_def split: prod.splits)
      have "wf_kids p (rn_kids x)" using wx by (cases x) simp
      then obtain ds where ds: "node_path h y = Some (rn_data y # ds)" "keys_of ds = take n2 (drop m ids)"
        using "3.IH"(1) [OF True m_def _ w(1)] eq "3.prems"(3,5,6) by auto
      have "rn_key y = take m ids" using walk_keeps_data [OF w(1)] M(6) eq by simp
      then show ?thesis using node_path_touch [OF ds(1)] ds(2) w(2,3) by (simp add: take_add)
    qed
  qed
qed simp

section \<open>Inserting a leaf\<close>

lemma set_child_new:
  "\<forall>y \<in> set ks. key_fn p (rn_key y) \<noteq> key_fn p (rn_key x) \<Longrightarrow> set_child p x ks = ks @ [x]"
  by (induction ks) auto

lemma attach_other:
  "h \<notin> set (nids x) \<Longrightarrow> attach p h l x = x"
proof (induction x)
  case (RNode d ks)
  then have "map (attach p h l) ks = ks" by (intro map_idI) (auto simp: kids_ids_def nids_def)
  then show ?case using RNode by simp
qed


lemma attach_data [simp]: "rn_data (attach p h l x) = rn_data x"
  by (cases x) simp

lemma kids_ids_append [simp]: "kids_ids (xs @ ys) = kids_ids xs @ kids_ids ys"
  by (simp add: kids_ids_def)

lemma ksum_append [simp]: "ksum g (xs @ ys) = ksum g xs + ksum g ys"
  by (simp add: ksum_def)

lemma kids_path_split:
  assumes "kids_path h ks = Some ds" "distinct (kids_ids ks)"
  obtains xs y ys where "ks = xs @ y # ys" "node_path h y = Some ds" "h \<in> set (nids y)"
    "h \<notin> set (kids_ids xs)" "h \<notin> set (kids_ids ys)"
  using assms
proof (induction ks arbitrary: thesis)
  case (Cons x xs)
  show ?case
  proof (cases "node_path h x")
    case None
    then have p: "kids_path h xs = Some ds" using Cons.prems(2) by simp
    show ?thesis
    proof (rule Cons.IH [OF _ p])
      fix as y bs assume a: "xs = as @ y # bs" "node_path h y = Some ds" "h \<in> set (nids y)"
        "h \<notin> set (kids_ids as)" "h \<notin> set (kids_ids bs)"
      have "h \<notin> set (nids x)" using None path_None_iff by blast
      then show ?thesis using a Cons.prems(1) [of "x # as" y bs] by simp
    qed (use Cons.prems in auto)
  next
    case (Some ds')
    then have "h \<in> set (nids x)" using path_None_iff(1) [of h x] by auto
    then show ?thesis using Some Cons.prems(1) [of "[]" x xs] Cons.prems(2,3) by auto
  qed
qed simp

lemma map_attach_other: "h \<notin> set (kids_ids ks) \<Longrightarrow> map (attach p h l) ks = ks"
  by (induction ks) (auto simp: attach_other)

lemma prefs_append: "prefs p (xs @ ys) = prefs p xs \<union> prefs p ys"
  by (auto simp: prefs_def)

lemma wf_kids_replace:
  "wf_kids p (xs @ y # ys) \<Longrightarrow> wf_node p y' \<Longrightarrow> key_fn p (rn_key y') = key_fn p (rn_key y) \<Longrightarrow>
   wf_kids p (xs @ y' # ys)"
  by (auto simp: wf_kids_def)

lemma kids_path_append:
  "kids_path h (xs @ ys) = (case kids_path h xs of None \<Rightarrow> kids_path h ys | Some ds \<Rightarrow> Some ds)"
  by (induction xs) (auto split: option.splits)

definition add_ok :: "nat \<Rightarrow> ndata \<Rightarrow> ndata list \<Rightarrow> rnode \<Rightarrow> rnode \<Rightarrow> bool" where
  "add_ok p ld ds x x' \<longleftrightarrow>
     wf_kids p (rn_kids x') \<and>
     prefs p (rn_kids x') = prefs p (rn_kids x) \<union>
        (\<lambda>kv. (keys_of ds @ fst kv, vals_of ds @ snd kv)) ` heads p ld \<and>
     mset (datas x') = add_mset ld (mset (datas x)) \<and>
     sum_list (map rn_ref (rn_kids x')) = sum_list (map rn_ref (rn_kids x)) \<and>
     (\<forall>L. count L (nd_id ld) = 0 \<longrightarrow> refs_ok L (rn_kids x) \<longrightarrow> refs_ok L (rn_kids x')) \<and>
     (\<forall>g \<in> set (nids x). nd_id ld \<notin> set (nids x) \<longrightarrow> node_path g x' = node_path g x)"

lemma attach_correct:
  assumes "node_path h x = Some (d0 # ds)" "distinct (nids x)" "wf_kids p (rn_kids x)" "0 < p"
    "wf_node p (RNode ld [])"
    "\<And>K V. (keys_of ds @ K, V) \<in> prefs p (rn_kids x) \<Longrightarrow> K \<noteq> [] \<Longrightarrow> key_fn p K \<noteq> key_fn p (nd_key ld)"
    "nd_ref ld = 0"
  shows "add_ok p ld ds x (attach p h (RNode ld []) x)"
  using assms
proof (induction x arbitrary: d0 ds)
  case (RNode d ks)
  let ?l = "RNode ld []"
  have pl: "pref p ?l = heads p ld"
  proof -
    have "(nd_key ld, nd_val ld) \<in> heads p ld"
      using RNode.prems(5) by (auto simp: heads_def intro!: exI [of _ "length (nd_key ld)"])
    then show ?thesis using prefs_pref_RNode [OF RNode.prems(5)] by auto
  qed
  show ?case
  proof (cases "nd_id d = h")
    case True
    then have ds: "ds = []" using RNode.prems(1) by simp
    have nk: "key_fn p (rn_key y) \<noteq> key_fn p (nd_key ld)" if y: "y \<in> set ks" for y
    proof -
      have "wf_node p y" using y RNode.prems(3) by (simp add: wf_kids_def)
      then obtain V where "(rn_key y, V) \<in> pref p y" "rn_key y \<noteq> []"
        using full_head [of p y "length (rn_key y)" "rn_key y"] wf_node_page(2) RNode.prems(4) by auto
      then show ?thesis using RNode.prems(6) [of "rn_key y" V] y ds by (auto simp: prefs_def)
    qed
    have "set_child p ?l ks = ks @ [?l]"
      by (rule set_child_new) (use nk in simp)
    moreover have "key_fn p (nd_key ld) \<notin> (\<lambda>y. key_fn p (rn_key y)) ` set ks"
    proof
      assume "key_fn p (nd_key ld) \<in> (\<lambda>y. key_fn p (rn_key y)) ` set ks"
      then obtain y where "y \<in> set ks" "key_fn p (nd_key ld) = key_fn p (rn_key y)" by blast
      then show False using nk [of y] by simp
    qed
    moreover from this have "wf_kids p (ks @ [?l])"
      using RNode.prems(3,5) by (simp add: wf_kids_def)
    ultimately show ?thesis using True ds RNode.prems(7)
      by (auto simp: add_ok_def prefs_append prefs_Cons pl refs_ok_def kids_path_append split: option.splits)
  next
    case False
    then have kp: "kids_path h ks = Some ds" using RNode.prems(1) by auto
    have dk: "distinct (kids_ids ks)" using RNode.prems(2) by simp
    obtain xs y ys where s: "ks = xs @ y # ys" "node_path h y = Some ds"
        "h \<notin> set (kids_ids xs)" "h \<notin> set (kids_ids ys)"
      using kids_path_split [OF kp dk] by metis
    obtain ds' where ds: "ds = rn_data y # ds'" using node_path_hd [OF s(2)] by auto
    obtain dy ky where y: "y = RNode dy ky" by (cases y)
    have wy: "wf_node p y" using RNode.prems(3) s(1) by (simp add: wf_kids_def)
    have py: "pref p y = heads p dy \<union> ext dy ` prefs p ky"
      using prefs_pref_RNode wy y by blast
    let ?y = "attach p h ?l y"
    have IH: "add_ok p ld ds' y ?y"
    proof (rule RNode.IH)
      show "y \<in> set ks" by (simp add: s(1))
      show "node_path h y = Some (rn_data y # ds')" using s(2) ds by simp
      show "distinct (nids y)" using dk s(1) by simp
      show "wf_kids p (rn_kids y)" using wy y by simp
      fix K V assume "(keys_of ds' @ K, V) \<in> prefs p (rn_kids y)" "K \<noteq> []"
      moreover have "(keys_of ds @ K, nd_val dy @ V) \<in> prefs p ks"
        using calculation s(1) y ds py by (force simp: prefs_append prefs_Cons image_iff)
      ultimately show "key_fn p K \<noteq> key_fn p (nd_key ld)" using RNode.prems(6) by auto
    qed (fact RNode.prems(4,5,7))+
    obtain ky' where y': "?y = RNode dy ky'" using y by (cases "?y") (metis attach_data rnode.sel(1))
    note IH' = IH [unfolded y', unfolded y]
    have wy': "wf_node p ?y" using wy y y' IH by (simp add: add_ok_def)
    have py': "pref p ?y = pref p y \<union> (\<lambda>kv. (keys_of ds @ fst kv, vals_of ds @ snd kv)) ` heads p ld"
    proof -
      have "pref p ?y = heads p dy \<union> ext dy ` prefs p ky'"
        using prefs_pref_RNode wy' y' by metis
      moreover have "prefs p ky' = prefs p ky \<union>
          (\<lambda>kv. (keys_of ds' @ fst kv, vals_of ds' @ snd kv)) ` heads p ld"
        using IH y y' by (simp add: add_ok_def)
      ultimately show ?thesis by (simp add: py [unfolded y] ds y image_Un image_image ext_def Un_assoc)
    qed
    have r: "attach p h ?l (RNode d ks) = RNode d (xs @ ?y # ys)"
      using False s by (simp add: map_attach_other)
    have md: "mset (datas ?y) = add_mset ld (mset (datas y))" using IH by (simp add: add_ok_def)
    have refy: "ref_ok L ?y" if "count L (nd_id ld) = 0" "ref_ok L y" for L
      using IH' that(1) that(2) [unfolded y] unfolding y' add_ok_def by (simp add: refs_ok_def)
    show ?thesis unfolding r add_ok_def
    proof (intro conjI allI impI ballI)
      show "wf_kids p (rn_kids (RNode d (xs @ ?y # ys)))"
        using RNode.prems(3) s(1) wy' by (auto intro: wf_kids_replace)
      show "prefs p (rn_kids (RNode d (xs @ ?y # ys))) = prefs p (rn_kids (RNode d ks)) \<union>
          (\<lambda>kv. (keys_of ds @ fst kv, vals_of ds @ snd kv)) ` heads p ld"
        by (simp add: s(1) prefs_append prefs_Cons py' Un_ac)
      show "mset (datas (RNode d (xs @ ?y # ys))) = add_mset ld (mset (datas (RNode d ks)))"
        by (simp add: s(1) md)
      show "sum_list (map rn_ref (rn_kids (RNode d (xs @ ?y # ys)))) =
          sum_list (map rn_ref (rn_kids (RNode d ks)))"
        by (simp add: s(1))
    next
      fix L assume "count L (nd_id ld) = 0" "refs_ok L (rn_kids (RNode d ks))"
      then show "refs_ok L (rn_kids (RNode d (xs @ ?y # ys)))"
        using refy by (auto simp: s(1) refs_ok_def)
    next
      fix g assume g: "g \<in> set (nids (RNode d ks))" "nd_id ld \<notin> set (nids (RNode d ks))"
      have m: "mset (nids ?y) = add_mset (nd_id ld) (mset (nids y))"
        using md by (simp add: nids_def)
      have "set (nids ?y) = insert (nd_id ld) (set (nids y))"
        using arg_cong [OF m, of set_mset] by simp
      then have "node_path g ?y = node_path g y"
        using IH g s(1) path_None_iff(1) [of g y] path_None_iff(1) [of g ?y]
        by (cases "g \<in> set (nids y)") (auto simp: add_ok_def)
      then show "node_path g (RNode d (xs @ ?y # ys)) = node_path g (RNode d ks)"
        by (simp add: s(1) kids_path_append split: option.split)
    qed
  qed
qed

section \<open>Handles survive walks and inserts\<close>

definition same_span :: "ndata list option \<Rightarrow> ndata list option \<Rightarrow> bool" where
  "same_span p q \<longleftrightarrow>
     (\<forall>ds. p = Some ds \<longrightarrow> (\<exists>ds'. q = Some ds' \<and> keys_of ds' = keys_of ds \<and> vals_of ds' = vals_of ds))"

lemma same_span_refl [simp]: "same_span p p"
  by (simp add: same_span_def)

lemma keys_of_touch: "node_path h (touch t x) = map_option (\<lambda>ds. (hd ds)\<lparr>nd_time := t\<rparr> # tl ds) (node_path h x)"
  by (cases x) (auto simp: touch_def option.map_comp comp_def intro!: map_option_cong)

lemma same_span_touch: "same_span (node_path h x) (node_path h (touch t x))"
  using node_path_hd [of h x] by (auto simp: same_span_def keys_of_touch)

lemma same_span_trans: "same_span p q \<Longrightarrow> same_span q r \<Longrightarrow> same_span p r"
  by (force simp: same_span_def)

lemma same_span_split:
  assumes "c \<notin> set (nids x)" "m \<le> length (rn_key x)"
  shows "same_span (node_path h x) (node_path h (split_at c m x))"
proof (cases "h = c")
  case True
  then show ?thesis using assms(1) path_None_iff(1) [of h x] by (auto simp: same_span_def)
next
  case False
  obtain d ks where x: "x = RNode d ks" by (cases x)
  show ?thesis using False
    by (auto simp: x same_span_def split_at_def Let_def append_assoc [symmetric] simp del: append_assoc)
qed

lemma same_span_kids:
  assumes "same_span (node_path h x) (node_path h x')"
    "h \<in> set (nids x') \<Longrightarrow> h \<notin> set (kids_ids xs)"
  shows "same_span (kids_path h (x # xs)) (kids_path h (x' # xs))"
proof (cases "node_path h x")
  case (Some ds)
  then show ?thesis using assms(1) by (auto simp: same_span_def)
next
  case None
  show ?thesis
  proof (cases "h \<in> set (nids x')")
    case True
    then have "kids_path h (x # xs) = None" using None assms(2) path_None_iff(2) [of h xs] by simp
    then show ?thesis by (simp add: same_span_def)
  next
    case False
    then show ?thesis using None path_None_iff(1) [of h x'] by simp
  qed
qed

lemma walk_keeps_spans:
  "walk p tic c ids x = (x', h, n, c') \<Longrightarrow> wf_kids p (rn_kids x) \<Longrightarrow> 0 < p \<Longrightarrow>
     distinct (nids x) \<Longrightarrow> \<forall>i \<in> set (nids x). i < c \<Longrightarrow>
     same_span (node_path g x) (node_path g x')"
  "walk_kids p tic c ids ks = Some (ks', h, n, c') \<Longrightarrow> wf_kids p ks \<Longrightarrow> 0 < p \<Longrightarrow> ids \<noteq> [] \<Longrightarrow>
     distinct (kids_ids ks) \<Longrightarrow> \<forall>i \<in> set (kids_ids ks). i < c \<Longrightarrow>
     same_span (kids_path g ks) (kids_path g ks')"
proof (induction p tic c ids x and p tic c ids ks arbitrary: x' h n c' and ks' h n c'
    rule: walk_walk_kids.induct)
  case (1 p tic c ids d ks)
  show ?case
  proof (cases "ids = [] \<or> walk_kids p tic c ids ks = None")
    case True
    then show ?thesis using "1.prems"(1) by (cases "ids = []") auto
  next
    case False
    then obtain ks' where w: "walk_kids p tic c ids ks = Some (ks', h, n, c')" "x' = RNode d ks'"
      using "1.prems"(1) by auto
    have "same_span (kids_path g ks) (kids_path g ks')"
      using "1.IH" [OF _ w(1)] False "1.prems" by auto
    then show ?thesis using w(2) by (auto simp: same_span_def)
  qed
next
  case (3 p tic c ids x xs)
  have wx: "wf_node p x" "wf_kids p xs" using "3.prems"(2) by (auto simp: wf_kids_Cons)
  have fr: "c \<notin> set (nids x)" "c \<notin> set (kids_ids xs)" using "3.prems"(6) by auto
  show ?case
  proof (cases "key_fn p (rn_key x) = key_fn p ids")
    case False
    then obtain ys where r: "walk_kids p tic c ids xs = Some (ys, h, n, c')" "ks' = x # ys"
      using "3.prems"(1) by auto
    have "same_span (kids_path g xs) (kids_path g ys)"
      using "3.IH"(2) [OF False r(1) wx(2)] "3.prems" by auto
    then show ?thesis using r(2) by (auto simp: same_span_def split: option.splits)
  next
    case True
    define m where "m = nalign (fast_compare_key (rn_key x) ids) p"
    note M = wf_match_len [OF wx(1) "3.prems"(3) True "3.prems"(4) m_def]
    show ?thesis
    proof (cases "m = length (rn_key x)")
      case False
      then have r: "ks' = touch tic (split_at c m x) # xs"
        using "3.prems"(1) True by (auto simp: m_def [symmetric] Let_def)
      show ?thesis unfolding r
      proof (rule same_span_kids)
        show "same_span (node_path g x) (node_path g (touch tic (split_at c m x)))"
          using same_span_split [OF fr(1) M(3)] same_span_touch same_span_trans by blast
      qed (use fr "3.prems"(5) in auto)
    next
      case eq: True
      obtain y n2 where w: "walk p tic c (drop m ids) x = (y, h, n2, c')" "ks' = touch tic y # xs"
        using "3.prems"(1) True eq by (auto simp: m_def [symmetric] Let_def split: prod.splits)
      have "wf_kids p (rn_kids x)" using wx by (cases x) simp
      then have "same_span (node_path g x) (node_path g y)"
        using "3.IH"(1) [OF True m_def _ w(1)] eq "3.prems"(3,5,6) by auto
      moreover have "set (nids y) \<subseteq> insert c (set (nids x))"
        using walk_ids(1) [OF w(1)] id_grow_set by blast
      ultimately show ?thesis unfolding w(2)
        using fr "3.prems"(5)
        by (intro same_span_kids same_span_trans [OF _ same_span_touch]) auto
    qed
  qed
qed simp

lemma kids_path_set_child:
  "nd_id ld = c \<Longrightarrow> c \<notin> set (kids_ids ks) \<Longrightarrow> kids_path c (set_child p (RNode ld []) ks) = Some [ld]"
proof (induction ks)
  case (Cons y ys)
  then have "node_path c y = None" using path_None_iff(1) [of c y] by simp
  then show ?case using Cons by auto
qed simp

lemma attach_path_new:
  assumes "node_path h x = Some (d0 # ds)" "distinct (nids x)" "c \<notin> set (nids x)" "nd_id ld = c"
  shows "node_path c (attach p h (RNode ld []) x) = Some (d0 # ds @ [ld])"
  using assms
proof (induction x arbitrary: d0 ds)
  case (RNode d ks)
  show ?case
  proof (cases "nd_id d = h")
    case True
    then show ?thesis using RNode.prems kids_path_set_child by auto
  next
    case False
    then have kp: "kids_path h ks = Some ds" and d0: "d0 = d" using RNode.prems(1) by auto
    have dk: "distinct (kids_ids ks)" using RNode.prems(2) by simp
    obtain xs y ys where s: "ks = xs @ y # ys" "node_path h y = Some ds"
        "h \<notin> set (kids_ids xs)" "h \<notin> set (kids_ids ys)"
      using kids_path_split [OF kp dk] by metis
    obtain ds' where ds: "ds = rn_data y # ds'" using node_path_hd [OF s(2)] by auto
    have "node_path c (attach p h (RNode ld []) y) = Some (rn_data y # ds' @ [ld])"
      using RNode.IH [of y] s ds RNode.prems(2-4) by auto
    moreover have "kids_path c xs = None" using RNode.prems(3) s(1) by (simp add: path_None_iff)
    ultimately show ?thesis
      using False s RNode.prems(3,4) ds d0 by (auto simp: map_attach_other kids_path_append)
  qed
qed

end
