(* ===== verification/Radix_Laws.thy ===== *)
theory Radix_Laws
  imports Radix_Cache
begin

text \<open>
  The laws of the radix prefix cache: the invariant that relates the tree, its
  reference counts, the two size counters and the outstanding locks, kept by every
  operation; what \<open>match_prefix\<close>, \<open>insert_prefix\<close>, \<open>lock_handle\<close> and \<open>evict\<close> do to
  the set of cached prefixes.
\<close>

section \<open>The invariant\<close>

definition esz :: "ndata \<Rightarrow> int" where
  "esz d = (if nd_ref d = 0 then int (length (nd_key d)) else 0)"

definition psz :: "ndata \<Rightarrow> int" where
  "psz d = (if nd_ref d = 0 then 0 else int (length (nd_key d)))"

text \<open>\<open>L\<close> holds the nodes of the outstanding handles, one entry per lock.\<close>

definition radix_inv :: "nat multiset \<Rightarrow> radix \<Rightarrow> bool" where
  "radix_inv L r \<longleftrightarrow>
     0 < rx_page r \<and> rn_key (rx_root r) = [] \<and> rn_val (rx_root r) = [] \<and> rn_ref (rx_root r) = 1 \<and>
     wf_kids (rx_page r) (rn_kids (rx_root r)) \<and>
     distinct (nids (rx_root r)) \<and> (\<forall>i \<in> set (nids (rx_root r)). i < rx_counter r) \<and>
     set_mset L \<subseteq> set (nids (rx_root r)) \<and> refs_ok L (rn_kids (rx_root r)) \<and>
     rx_evictable r = ksum esz (rn_kids (rx_root r)) \<and>
     rx_protected r = ksum psz (rn_kids (rx_root r))"

text \<open>The cached page-aligned prefixes with their slots.\<close>

definition cached :: "radix \<Rightarrow> (token list \<times> slot list) set" where
  "cached r = prefs (rx_page r) (rn_kids (rx_root r))"

lemma radix_invD:
  assumes "radix_inv L r"
  shows "0 < rx_page r" "rn_key (rx_root r) = []" "rn_val (rx_root r) = []"
    "wf_kids (rx_page r) (rn_kids (rx_root r))" "distinct (nids (rx_root r))"
    "\<forall>i \<in> set (nids (rx_root r)). i < rx_counter r" "set_mset L \<subseteq> set (nids (rx_root r))"
    "refs_ok L (rn_kids (rx_root r))" "rx_evictable r = ksum esz (rn_kids (rx_root r))"
    "rx_protected r = ksum psz (rn_kids (rx_root r))" "rn_ref (rx_root r) = 1"
  using assms by (simp_all add: radix_inv_def)

lemma radix_init_inv: "0 < p \<Longrightarrow> radix_inv {#} (radix_init p c tic)"
  by (simp add: radix_inv_def radix_init_def new_root_def refs_ok_def)

lemma radix_reset_inv: "radix_inv L r \<Longrightarrow> radix_inv {#} (radix_reset tic r)"
  by (simp add: radix_inv_def radix_reset_def new_root_def refs_ok_def)

lemma cached_Nil [simp]: "([], []) \<in> cached r"
  by (simp add: cached_def)

lemma split_additive_esz [simp]: "split_additive esz"
  by (auto simp: split_additive_def esz_def min_def)

lemma split_additive_psz [simp]: "split_additive psz"
  by (auto simp: split_additive_def psz_def min_def)

definition vmset :: "ndata \<Rightarrow> slot multiset" where
  "vmset d = mset (nd_val d)"

lemma split_additive_vmset [simp]: "split_additive vmset"
  by (auto simp: split_additive_def vmset_def mset_take_drop)

section \<open>One prefix, one list of slots\<close>

lemma heads_functional:
  "kv \<in> heads p d \<Longrightarrow> kv' \<in> heads p d \<Longrightarrow> fst kv = fst kv' \<Longrightarrow> snd kv = snd kv'"
proof -
  assume "kv \<in> heads p d" "kv' \<in> heads p d" "fst kv = fst kv'"
  then obtain m n where "kv = (take m (nd_key d), take m (nd_val d))" "m \<le> length (nd_key d)"
      "kv' = (take n (nd_key d), take n (nd_val d))" "n \<le> length (nd_key d)"
      "take m (nd_key d) = take n (nd_key d)"
    by (auto simp: heads_def)
  moreover from this have "m = n" by (metis length_take min.absorb2)
  ultimately show ?thesis by simp
qed

lemma pref_functional:
  assumes "wf_node p x" "0 < p" "(K, V) \<in> pref p x" "(K, V') \<in> pref p x"
  shows "V = V'"
  using assms
proof (induction x arbitrary: K V V')
  case (RNode d ks)
  have px: "pref p (RNode d ks) = heads p d \<union> ext d ` prefs p ks"
    using RNode.prems(1) by (rule prefs_pref_RNode)
  have wk: "wf_kids p ks" using RNode.prems(1) by simp
  have same: "W = W'" if a: "(J, W) \<in> prefs p ks" "(J, W') \<in> prefs p ks" for J W W'
  proof (cases "J = []")
    case True
    then show ?thesis
      using prefs_aligned [OF wk RNode.prems(2) a(1)] prefs_aligned [OF wk RNode.prems(2) a(2)] by simp
  next
    case False
    then obtain y z where y: "y \<in> set ks" "(J, W) \<in> pref p y" and z: "z \<in> set ks" "(J, W') \<in> pref p z"
      using a by (auto simp: prefs_def)
    have w: "wf_node p y" "wf_node p z" using y z wk by (auto simp: wf_kids_def)
    have "key_fn p (rn_key y) = key_fn p (rn_key z)"
      using pref_key_fn [OF w(1) RNode.prems(2) y(2)] pref_key_fn [OF w(2) RNode.prems(2) z(2)] by simp
    then have "y = z" using wk y z by (auto simp: wf_kids_def distinct_map inj_on_def)
    then show ?thesis using RNode.IH y z w RNode.prems(2) by blast
  qed
  have len: "length (nd_val d) = length (nd_key d)" using RNode.prems(1) by simp
  have mix: "W = W'" if h: "(J, W) \<in> heads p d" and e: "(J, W') \<in> ext d ` prefs p ks" for J W W'
  proof -
    obtain J' W2 where j: "(J', W2) \<in> prefs p ks" "J = nd_key d @ J'" "W' = nd_val d @ W2"
      using e by auto
    have "length J \<le> length (nd_key d)" using heads_length [OF h] by simp
    then have "J' = []" using j by simp
    then have "W2 = []" using prefs_aligned [OF wk RNode.prems(2) j(1)] by simp
    moreover have "W = nd_val d"
      using h j(2) \<open>J' = []\<close> len by (auto simp: heads_def) (metis length_take min.absorb2 take_all_iff)
    ultimately show ?thesis using j by simp
  qed
  consider "(K, V) \<in> heads p d" "(K, V') \<in> heads p d"
    | "(K, V) \<in> heads p d" "(K, V') \<in> ext d ` prefs p ks"
    | "(K, V) \<in> ext d ` prefs p ks" "(K, V') \<in> heads p d"
    | "(K, V) \<in> ext d ` prefs p ks" "(K, V') \<in> ext d ` prefs p ks"
    using RNode.prems(3,4) unfolding px by blast
  then show ?case
  proof cases
    case 1
    then show ?thesis using heads_functional by fastforce
  next
    case 2
    then show ?thesis by (rule mix)
  next
    case 3
    then show ?thesis using mix by metis
  next
    case 4
    then obtain J W W' where "(J, W) \<in> prefs p ks" "K = nd_key d @ J" "V = nd_val d @ W"
        "(J, W') \<in> prefs p ks" "V' = nd_val d @ W'"
      by auto
    then show ?thesis using same by simp
  qed
qed

lemma prefs_functional:
  assumes "wf_kids p ks" "0 < p" "(K, V) \<in> prefs p ks" "(K, V') \<in> prefs p ks"
  shows "V = V'"
proof (cases "K = []")
  case True
  then show ?thesis
    using prefs_aligned [OF assms(1,2,3)] prefs_aligned [OF assms(1,2,4)] by simp
next
  case False
  then obtain y z where y: "y \<in> set ks" "(K, V) \<in> pref p y" and z: "z \<in> set ks" "(K, V') \<in> pref p z"
    using assms by (auto simp: prefs_def)
  have w: "wf_node p y" "wf_node p z" using y z assms by (auto simp: wf_kids_def)
  have "key_fn p (rn_key y) = key_fn p (rn_key z)"
    using pref_key_fn [OF w(1) assms(2) y(2)] pref_key_fn [OF w(2) assms(2) z(2)] by simp
  then have "y = z" using assms(1) y z by (auto simp: wf_kids_def distinct_map inj_on_def)
  then show ?thesis using pref_functional y z w assms(2) by blast
qed

lemma cached_functional:
  "radix_inv L r \<Longrightarrow> (K, V) \<in> cached r \<Longrightarrow> (K, V') \<in> cached r \<Longrightarrow> V = V'"
  using radix_invD(1,4) prefs_functional unfolding cached_def by blast

lemma cached_aligned:
  "radix_inv L r \<Longrightarrow> (K, V) \<in> cached r \<Longrightarrow> length V = length K \<and> rx_page r dvd length K"
  using radix_invD(1,4) prefs_aligned unfolding cached_def by blast

section \<open>Match and insert\<close>

lemma nsum_rn: "nsum g x = g (rn_data x) + ksum g (rn_kids x)"
  by (cases x) simp

lemma fresh_count: "radix_inv L r \<Longrightarrow> count L (rx_counter r) = 0"
  using radix_invD(6,7) [of L r] by (auto simp: count_eq_zero_iff)

text \<open>A walk from the root of a well-formed cache.\<close>

definition walked :: "token list \<Rightarrow> radix \<Rightarrow> rnode \<Rightarrow> nat \<Rightarrow> nat \<Rightarrow> nat \<Rightarrow> bool" where
  "walked ids r t h n c \<longleftrightarrow>
     cached (r\<lparr>rx_root := t, rx_counter := c\<rparr>) = cached r \<and>
     n \<le> length ids \<and> rx_page r dvd n \<and>
     (\<forall>K V. (K, V) \<in> cached r \<longrightarrow> prefix K ids \<longrightarrow> length K \<le> n) \<and>
     (\<exists>ds. node_path h t = Some (rn_data t # ds) \<and> keys_of ds = take n ids \<and>
           (take n ids, vals_of ds) \<in> cached r) \<and>
     (\<forall>g. same_span (node_path g (rx_root r)) (node_path g t))"

lemma walk_root:
  assumes inv: "radix_inv L r" and w: "walk (rx_page r) tic (rx_counter r) ids (rx_root r) = (t, h, n, c)"
  shows "radix_inv L (r\<lparr>rx_root := t, rx_counter := c\<rparr>)" "walked ids r t h n c"
    "ksum vmset (rn_kids t) = ksum vmset (rn_kids (rx_root r))"
proof -
  note I = radix_invD [OF inv]
  have d: "rn_data t = rn_data (rx_root r)" using walk_keeps_data [OF w] .
  have g: "id_grow (rx_counter r) c (nids (rx_root r)) (nids t)" using walk_ids(1) [OF w] .
  have ok: "walk_ok (rx_page r) ids (rn_kids (rx_root r)) (rn_kids t) n"
    using walk_correct(1) [OF w I(4,1)] .
  have s: "ksum f (rn_kids t) = ksum f (rn_kids (rx_root r))" if "split_additive f" for f :: "ndata \<Rightarrow> int"
    using walk_sum(1) [OF w that I(4,1)] d by (simp add: nsum_rn)
  show "ksum vmset (rn_kids t) = ksum vmset (rn_kids (rx_root r))"
    using walk_sum(1) [OF w split_additive_vmset I(4,1)] d by (simp add: nsum_rn)
  have ref: "refs_ok L (rn_kids t)"
    using walk_refs(1) [OF w fresh_count [OF inv]] I(8) by simp
  show inv': "radix_inv L (r\<lparr>rx_root := t, rx_counter := c\<rparr>)"
    using I ok d id_grow_inv [OF g I(5,6)] id_grow_set [OF g] s [of esz] s [of psz] ref
    by (auto simp: radix_inv_def walk_ok_def)
  obtain ds where ds: "node_path h t = Some (rn_data t # ds)" "keys_of ds = take n ids"
    using walk_path(1) [OF w I(4,1,5,6)] by auto
  obtain dt kt where t: "t = RNode dt kt" by (cases t)
  have "(keys_of ds, vals_of ds) \<in> prefs (rx_page r) (rn_kids t)"
  proof (cases "ds = []")
    case False
    then have "kids_path h kt = Some ds" using ds(1) t by (auto split: if_splits)
    then show ?thesis using path_in_prefs(2) [of h kt ds "rx_page r"] ok t by (simp add: walk_ok_def)
  qed simp
  then have "(take n ids, vals_of ds) \<in> cached r"
    using ok ds(2) by (simp add: cached_def walk_ok_def)
  then show "walked ids r t h n c"
    unfolding walked_def using ok ds walk_keeps_spans(1) [OF w I(4,1,5,6)]
    by (auto simp: cached_def walk_ok_def)
qed

lemma match_prefix_eq:
  "match_prefix tic ids r = ((n, hnd), r') \<longleftrightarrow>
   (\<exists>t h c. walk (rx_page r) tic (rx_counter r) ids (rx_root r) = (t, h, n, c) \<and> hnd = (n, h) \<and>
      r' = r\<lparr>rx_root := t, rx_counter := c\<rparr>)"
  by (auto simp: match_prefix_def split: prod.splits)

lemma match_prefix_inv:
  "radix_inv L r \<Longrightarrow> match_prefix tic ids r = ((n, hnd), r') \<Longrightarrow> radix_inv L r'"
  by (auto simp: match_prefix_eq walk_root(1))

lemma match_prefix_keeps:
  assumes "radix_inv L r" "match_prefix tic ids r = ((n, hnd), r')"
  shows "cached r' = cached r" "size_info r' = size_info r" "rx_page r' = rx_page r"
    "same_span (node_path g (rx_root r)) (node_path g (rx_root r'))"
    "fst hnd = n" "snd hnd \<in> set (nids (rx_root r'))"
proof -
  obtain t h c where w: "walk (rx_page r) tic (rx_counter r) ids (rx_root r) = (t, h, n, c)"
    "hnd = (n, h)" "r' = r\<lparr>rx_root := t, rx_counter := c\<rparr>"
    using assms(2) by (auto simp: match_prefix_eq)
  have wk: "walked ids r t h n c" using walk_root(2) [OF assms(1) w(1)] .
  show "cached r' = cached r" "size_info r' = size_info r" "rx_page r' = rx_page r"
    "same_span (node_path g (rx_root r)) (node_path g (rx_root r'))" "fst hnd = n"
    using wk w by (auto simp: walked_def size_info_def)
  have "node_path h t \<noteq> None" using wk by (auto simp: walked_def)
  then show "snd hnd \<in> set (nids (rx_root r'))" using w(2,3) by (simp add: path_None_iff)
qed

lemma match_prefix_longest:
  assumes "radix_inv L r" "match_prefix tic ids r = ((n, hnd), r')"
  shows "n \<le> length ids" "rx_page r dvd n"
    "\<exists>V. get_matched_indices hnd r' = Some V \<and> (take n ids, V) \<in> cached r"
    "\<And>K V. (K, V) \<in> cached r \<Longrightarrow> prefix K ids \<Longrightarrow> length K \<le> n"
proof -
  obtain t h c where w: "walk (rx_page r) tic (rx_counter r) ids (rx_root r) = (t, h, n, c)"
    "hnd = (n, h)" "r' = r\<lparr>rx_root := t, rx_counter := c\<rparr>"
    using assms(2) by (auto simp: match_prefix_eq)
  have wk: "walked ids r t h n c" using walk_root(2) [OF assms(1) w(1)] .
  show "n \<le> length ids" "rx_page r dvd n" using wk by (auto simp: walked_def)
  show "(K, V) \<in> cached r \<Longrightarrow> prefix K ids \<Longrightarrow> length K \<le> n" for K V
    using wk by (auto simp: walked_def)
  show "\<exists>V. get_matched_indices hnd r' = Some V \<and> (take n ids, V) \<in> cached r"
    using wk w(2,3) by (auto simp: walked_def get_matched_indices_def vals_of_def)
qed

text \<open>What the handle of an outstanding lock reads is the same after a walk.\<close>

lemma same_span_indices:
  assumes "same_span (node_path h (rx_root r)) (node_path h (rx_root r'))"
    "rn_val (rx_root r) = []" "rn_val (rx_root r') = []"
    "get_matched_indices (n, h) r = Some V"
  shows "get_matched_indices (n, h) r' = Some V"
proof -
  obtain ds where ds: "node_path h (rx_root r) = Some (rn_data (rx_root r) # ds)" "V = vals_of ds"
    using assms(4) node_path_hd [of h "rx_root r"] by (auto simp: get_matched_indices_def vals_of_def)
  then obtain ds' where ds': "node_path h (rx_root r') = Some ds'" "vals_of ds' = vals_of (rn_data (rx_root r) # ds)"
    using assms(1) by (auto simp: same_span_def)
  moreover obtain ds2 where "ds' = rn_data (rx_root r') # ds2" using node_path_hd [OF ds'(1)] by auto
  ultimately show ?thesis using ds(2) assms(2,3)
    by (simp add: get_matched_indices_def vals_of_def [symmetric])
qed

text \<open>Every aligned prefix of a cached prefix is cached.\<close>

lemma pref_closed:
  assumes "wf_node p x" "0 < p" "(K, V) \<in> pref p x" "0 < n" "p dvd n"
  shows "(take n K, take n V) \<in> pref p x"
  using assms
proof (induction x arbitrary: K V n)
  case (RNode d ks)
  have px: "pref p (RNode d ks) = heads p d \<union> ext d ` prefs p ks"
    using RNode.prems(1) by (rule prefs_pref_RNode)
  have w: "nd_key d \<noteq> []" "p dvd length (nd_key d)" "length (nd_val d) = length (nd_key d)" "wf_kids p ks"
    using RNode.prems(1) by auto
  show ?case
  proof (cases "n < length K")
    case False
    then have "length V \<le> n" "length K \<le> n"
      using pref_key_fn [OF RNode.prems(1-3)] by auto
    then show ?thesis using RNode.prems(3) by simp
  next
    case lt: True
    from RNode.prems(3) consider "(K, V) \<in> heads p d"
      | K' V' where "(K', V') \<in> prefs p ks" "K = nd_key d @ K'" "V = nd_val d @ V'"
      unfolding px by auto
    then show ?thesis
    proof cases
      case 1
      then have "(take n K, take n V) \<in> heads p d"
        using lt RNode.prems(4,5) by (auto simp: heads_def min_absorb1 min_absorb2 intro!: exI [of _ n])
      then show ?thesis unfolding px by simp
    next
      case 2
      show ?thesis
      proof (cases "n \<le> length (nd_key d)")
        case True
        then have "(take n K, take n V) \<in> heads p d"
          using 2 w RNode.prems(4,5) by (auto simp: heads_def intro!: exI [of _ n])
        then show ?thesis unfolding px by simp
      next
        case False
        let ?k = "n - length (nd_key d)"
        have "K' \<noteq> []" using lt 2 False by auto
        then obtain y where y: "y \<in> set ks" "(K', V') \<in> pref p y"
          using 2(1) by (auto simp: prefs_def)
        have "wf_node p y" using y w(4) by (simp add: wf_kids_def)
        then have "(take ?k K', take ?k V') \<in> pref p y"
          using RNode.IH [OF y(1) _ RNode.prems(2) y(2), of ?k] False w(2) RNode.prems(5)
          by (simp add: dvd_diff_nat)
        then have "(take ?k K', take ?k V') \<in> prefs p ks" using y(1) by (auto simp: prefs_def)
        moreover have "take n K = nd_key d @ take ?k K'" "take n V = nd_val d @ take ?k V'"
          using 2 False w(3) by auto
        ultimately show ?thesis unfolding px by (auto simp: image_iff intro!: bexI)
      qed
    qed
  qed
qed

text \<open>The new leaf: its node data, and what hanging it below the node where the walk
  stopped does.\<close>

lemma attach_root:
  assumes inv: "radix_inv L r" and w: "walk (rx_page r) tic (rx_counter r) ids (rx_root r) = (t, h, n, c)"
    and al: "rx_page r dvd length ids" and lt: "n < length ids" and len: "length vs = length ids - n"
    and ld: "ld = new_ndata c (drop n ids) vs 0 now"
    and r': "r' = r\<lparr>rx_root := attach (rx_page r) h (RNode ld []) t, rx_counter := c + 1,
                    rx_evictable := rx_evictable r + int (length (nd_key ld))\<rparr>"
    and base: "(take n ids, base) \<in> cached r"
  shows "radix_inv L r'"
    "cached r' = cached r \<union> {(take j ids, base @ take (j - n) vs) | j. n < j \<and> j \<le> length ids \<and> rx_page r dvd j}"
    "get_matched_indices (m, c) r' = Some (base @ vs)"
    "c \<in> set (nids (rx_root r'))"
    "\<And>g. same_span (node_path g (rx_root r)) (node_path g (rx_root r'))"
    "ksum vmset (rn_kids (rx_root r')) = ksum vmset (rn_kids (rx_root r)) + mset vs"
    "mset (kdatas (rn_kids (rx_root r'))) = add_mset ld (mset (kdatas (rn_kids t)))"
    "\<exists>ds. node_path c (rx_root r') = Some (rn_data (rx_root r') # ds) \<and> keys_of ds = ids"
proof -
  let ?p = "rx_page r" and ?l = "RNode ld []"
  note I = radix_invD [OF inv]
  let ?r1 = "r\<lparr>rx_root := t, rx_counter := c\<rparr>"
  have inv1: "radix_inv L ?r1" using walk_root(1) [OF inv w] .
  note J = radix_invD [OF inv1, simplified]
  have wk: "walked ids r t h n c" using walk_root(2) [OF inv w] .
  obtain ds where ds: "node_path h t = Some (rn_data t # ds)" "keys_of ds = take n ids"
      "(take n ids, vals_of ds) \<in> cached r" and dvn: "?p dvd n"
    and max: "\<And>K V. (K, V) \<in> cached r \<Longrightarrow> prefix K ids \<Longrightarrow> length K \<le> n"
    and c1: "prefs ?p (rn_kids t) = cached r"
    using wk by (auto simp: walked_def cached_def)
  have bs: "vals_of ds = base" using cached_functional [OF inv ds(3) base] .
  have al': "?p dvd length ids - n" using al dvn by (simp add: dvd_diff_nat)
  have wl: "wf_node ?p ?l" using lt len ld al' by auto
  have nk: "key_fn ?p K \<noteq> key_fn ?p (nd_key ld)"
    if kv: "(keys_of ds @ K, V) \<in> prefs ?p (rn_kids t)" "K \<noteq> []" for K V
  proof
    assume e: "key_fn ?p K = key_fn ?p (nd_key ld)"
    have kc: "(take n ids @ K, V) \<in> cached r" using kv(1) ds(2) c1 by simp
    have "?p dvd n + length K" using cached_aligned [OF inv kc] lt by (simp add: min_def)
    then have pk: "?p dvd length K" using dvn by (simp add: dvd_add_right_iff)
    then have le: "?p \<le> length K" using kv(2) by (simp add: dvd_imp_le)
    have t2: "take ?p K = take ?p (drop n ids)"
      using key_fn_eq_take [OF e I(1) le] ld lt by simp
    have ple: "?p \<le> length ids - n" using al' lt by (simp add: dvd_imp_le)
    have "(take (n + ?p) (take n ids @ K), take (n + ?p) V) \<in> cached r"
    proof -
      obtain y where y: "y \<in> set (rn_kids (rx_root r))" "(take n ids @ K, V) \<in> pref ?p y"
        using kc kv(2) by (auto simp: cached_def prefs_def)
      have "wf_node ?p y" using y I(4) by (simp add: wf_kids_def)
      then have "(take (n + ?p) (take n ids @ K), take (n + ?p) V) \<in> pref ?p y"
        using I(1) dvn y(2) by (intro pref_closed) auto
      then show ?thesis using y(1) by (auto simp: cached_def prefs_def)
    qed
    moreover have "take (n + ?p) (take n ids @ K) = take (n + ?p) ids"
      using t2 lt by (simp add: take_add)
    ultimately have "(take (n + ?p) ids, take (n + ?p) V) \<in> cached r" by simp
    then have "length (take (n + ?p) ids) \<le> n" using max take_is_prefix by blast
    then show False using I(1) ple lt by simp
  qed
  have ao: "add_ok ?p ld ds t (attach ?p h ?l t)"
    using attach_correct [OF ds(1) J(5,4,1) wl nk] ld by simp
  let ?t = "attach ?p h ?l t"
  have md: "mset (datas ?t) = add_mset ld (mset (datas t))" using ao by (simp add: add_ok_def)
  have dk: "datas y = rn_data y # kdatas (rn_kids y)" for y by (cases y) simp
  show "mset (kdatas (rn_kids (rx_root r'))) = add_mset ld (mset (kdatas (rn_kids t)))"
    using md by (simp add: r' dk [of t] dk [of ?t])
  have cf: "c \<notin> set (nids t)" using J(6) by auto
  have mi: "mset (nids ?t) = mset (c # nids t)" using md ld by (simp add: nids_def)
  have di: "distinct (nids ?t)" "set (nids ?t) = insert c (set (nids t))"
    using mset_eq_distinct [OF mi] mset_eq_setD [OF mi] J(5) cf by auto
  have sm: "ksum f (rn_kids ?t) = f ld + ksum f (rn_kids t)" for f :: "ndata \<Rightarrow> int"
  proof -
    have "sum_mset (image_mset f (mset (datas ?t))) = f ld + sum_mset (image_mset f (mset (datas t)))"
      by (simp add: md)
    then have "nsum f ?t = f ld + nsum f t"
      by (simp add: nsum_def flip: sum_mset_sum_list mset_map)
    then show ?thesis by (simp add: nsum_rn)
  qed
  have "sum_mset (image_mset vmset (mset (datas ?t))) = vmset ld + sum_mset (image_mset vmset (mset (datas t)))"
    by (simp add: md)
  then have "nsum vmset ?t = vmset ld + nsum vmset t"
    by (simp add: nsum_def flip: sum_mset_sum_list mset_map)
  then show "ksum vmset (rn_kids (rx_root r')) = ksum vmset (rn_kids (rx_root r)) + mset vs"
    using walk_root(3) [OF inv w] r' ld len by (simp add: nsum_rn vmset_def)
  show "radix_inv L r'"
    using J di ao cf sm [of esz] sm [of psz] ld r' fresh_count [OF inv1]
    by (auto simp: radix_inv_def add_ok_def esz_def psz_def less_SucI)
  have "cached r' = cached r \<union> (\<lambda>kv. (take n ids @ fst kv, base @ snd kv)) ` heads ?p ld"
    using ao c1 ds(2) bs by (simp add: r' cached_def add_ok_def)
  also have "(\<lambda>kv. (take n ids @ fst kv, base @ snd kv)) ` heads ?p ld =
      {(take j ids, base @ take (j - n) vs) | j. n < j \<and> j \<le> length ids \<and> ?p dvd j}" (is "?A = ?B")
  proof (intro set_eqI iffI)
    fix kv assume "kv \<in> ?A"
    then obtain i where i: "kv = (take n ids @ take i (drop n ids), base @ take i vs)"
        "0 < i" "i \<le> length ids - n" "?p dvd i"
      by (auto simp: heads_def ld)
    then have "kv = (take (n + i) ids, base @ take (n + i - n) vs)" "n + i \<le> length ids"
      using lt by (auto simp: take_add)
    moreover have "?p dvd n + i" using i(4) dvn by simp
    ultimately show "kv \<in> ?B" using i(2) by (intro CollectI exI [of _ "n + i"]) auto
  next
    fix kv assume "kv \<in> ?B"
    then obtain j where j: "kv = (take j ids, base @ take (j - n) vs)" "n < j" "j \<le> length ids" "?p dvd j"
      by auto
    then have "take j ids = take n ids @ take (j - n) (drop n ids)"
      by (metis le_add_diff_inverse less_imp_le take_add)
    moreover have "?p dvd j - n" using j(4) dvn by (simp add: dvd_diff_nat)
    ultimately show "kv \<in> ?A" using j
      by (auto simp: heads_def ld image_iff intro!: exI [of _ "take (j - n) (drop n ids)"]
          exI [of _ "take (j - n) vs"] exI [of _ "j - n"])
  qed
  finally show "cached r' = cached r \<union>
      {(take j ids, base @ take (j - n) vs) | j. n < j \<and> j \<le> length ids \<and> rx_page r dvd j}" .
  have "node_path c ?t = Some (rn_data t # ds @ [ld])"
    using attach_path_new [OF ds(1) J(5) cf] ld by simp
  then show "get_matched_indices (m, c) r' = Some (base @ vs)"
    "\<exists>ds. node_path c (rx_root r') = Some (rn_data (rx_root r') # ds) \<and> keys_of ds = ids"
    using bs ds(2) by (auto simp: r' get_matched_indices_def vals_of_def keys_of_def ld)
  show "c \<in> set (nids (rx_root r'))" using di(2) r' by simp
  fix g
  have "same_span (node_path g t) (node_path g ?t)"
  proof (cases "g \<in> set (nids t)")
    case True
    then show ?thesis using ao cf ld by (simp add: add_ok_def)
  next
    case False
    then show ?thesis using path_None_iff(1) [of g t] by (simp add: same_span_def)
  qed
  moreover have "same_span (node_path g (rx_root r)) (node_path g t)" using wk by (simp add: walked_def)
  ultimately show "same_span (node_path g (rx_root r)) (node_path g (rx_root r'))"
    using same_span_trans r' by simp
qed

text \<open>Everything one insert does.\<close>

definition inserted ::
  "token list \<Rightarrow> slot list \<Rightarrow> radix \<Rightarrow> nat \<Rightarrow> nat \<Rightarrow> nat \<Rightarrow> radix \<Rightarrow> bool" where
  "inserted ids0 idx0 r n m h r' \<longleftrightarrow>
     m = nalign (length ids0) (rx_page r) \<and> n \<le> m \<and> rx_page r dvd n \<and>
     (\<forall>K V. (K, V) \<in> cached r \<longrightarrow> prefix K (take m ids0) \<longrightarrow> length K \<le> n) \<and>
     (\<exists>base. (take n ids0, base) \<in> cached r \<and>
        cached r' = cached r \<union> {(take j ids0, base @ take (j - n) (drop n idx0)) | j.
                                  n < j \<and> j \<le> m \<and> rx_page r dvd j} \<and>
        get_matched_indices (m, h) r' = Some (base @ drop n (take m idx0))) \<and>
     h \<in> set (nids (rx_root r')) \<and> rx_page r' = rx_page r \<and>
     rx_evictable r' = rx_evictable r + int (m - n) \<and> rx_protected r' = rx_protected r \<and>
     (\<forall>g. same_span (node_path g (rx_root r)) (node_path g (rx_root r')))"

lemma insert_prefix_correct:
  assumes inv: "radix_inv L r" and ins: "insert_prefix tic now ids0 idx0 r = Inr ((n, (m, h)), r')"
  shows "radix_inv L r'" "inserted ids0 idx0 r n m h r'"
    "\<exists>ds. node_path h (rx_root r') = Some (rn_data (rx_root r') # ds) \<and> keys_of ds = take m ids0"
proof -
  let ?p = "rx_page r"
  let ?m = "nalign (length ids0) ?p"
  let ?ids = "take ?m ids0" and ?idx = "take ?m idx0"
  have lm: "length ?ids = ?m" by simp
  obtain t h1 n1 c where w: "walk ?p tic (rx_counter r) ?ids (rx_root r) = (t, h1, n1, c)"
    by (metis prod_cases4)
  have wk: "walked ?ids r t h1 n1 c" and inv1: "radix_inv L (r\<lparr>rx_root := t, rx_counter := c\<rparr>)"
    using walk_root [OF inv w] by auto
  obtain ds where ds: "node_path h1 t = Some (rn_data t # ds)" "keys_of ds = take n1 ?ids"
      "(take n1 ?ids, vals_of ds) \<in> cached r"
    and n1: "n1 \<le> ?m" "?p dvd n1"
    and mx: "\<forall>K V. (K, V) \<in> cached r \<longrightarrow> prefix K ?ids \<longrightarrow> length K \<le> n1"
    using wk by (auto simp: walked_def)
  have mn: "m = ?m \<and> n = n1"
    using ins w by (auto simp: insert_prefix_def Let_def split: if_splits)
  have tk: "take j ?ids = take j ids0" if "j \<le> ?m" for j using that by (simp add: min_absorb1)
  have base: "(take n1 ids0, vals_of ds) \<in> cached r" using ds(3) tk [OF n1(1)] by simp
  have "radix_inv L r' \<and> inserted ids0 idx0 r n m h r' \<and>
    (\<exists>ds. node_path h (rx_root r') = Some (rn_data (rx_root r') # ds) \<and> keys_of ds = take m ids0)"
  proof (cases "n1 = ?m")
    case True
    then have r': "h = h1" "r' = r\<lparr>rx_root := t, rx_counter := c\<rparr>"
      using ins w by (auto simp: insert_prefix_def Let_def)
    have "cached r' = cached r" using wk r' by (simp add: walked_def)
    moreover have "{(take j ids0, vals_of ds @ take (j - n1) (drop n1 idx0)) | j. n1 < j \<and> j \<le> ?m \<and> ?p dvd j} = {}"
      using True by auto
    moreover have "get_matched_indices (m, h) r' = Some (vals_of ds @ drop n1 ?idx)"
      using ds(1) r' True by (simp add: get_matched_indices_def vals_of_def)
    moreover have "h \<in> set (nids (rx_root r'))"
      using ds(1) path_None_iff(1) [of h1 t] r' by auto
    moreover have "\<forall>g. same_span (node_path g (rx_root r)) (node_path g (rx_root r'))"
      using wk r' by (simp add: walked_def)
    ultimately have "radix_inv L r' \<and> inserted ids0 idx0 r n m h r'"
      unfolding inserted_def using inv1 r' mn n1 mx base True by auto
    then show ?thesis using ds r' mn True by simp
  next
    case False
    then have lt: "n1 < length ?ids" using n1(1) by simp
    define ld where "ld = new_ndata c (drop n1 ?ids) (drop n1 ?idx) 0 now"
    have r': "h = c" "r' = r\<lparr>rx_root := attach ?p h1 (RNode ld []) t, rx_counter := c + 1,
          rx_evictable := rx_evictable r + int (length (nd_key ld))\<rparr>"
      and len: "length (drop n1 ?idx) = length ?ids - n1"
      using ins w False by (auto simp: insert_prefix_def Let_def ld_def split: if_splits)
    have al: "?p dvd length ?ids" unfolding lm by simp
    note A = attach_root [OF inv w al lt len ld_def r'(2) ds(3)]
    have "{(take j ?ids, vals_of ds @ take (j - n1) (drop n1 ?idx)) | j. n1 < j \<and> j \<le> length ?ids \<and> ?p dvd j}
        = {(take j ids0, vals_of ds @ take (j - n1) (drop n1 idx0)) | j. n1 < j \<and> j \<le> ?m \<and> ?p dvd j}"
    proof -
      have "take j ?ids = take j ids0 \<and> take (j - n1) (drop n1 ?idx) = take (j - n1) (drop n1 idx0)"
        if "n1 < j" "j \<le> ?m" for j
        using that by (simp add: min_absorb1 drop_take)
      then show ?thesis unfolding lm by (intro Collect_cong) metis
    qed
    then have "cached r' = cached r \<union>
        {(take j ids0, vals_of ds @ take (j - n1) (drop n1 idx0)) | j. n1 < j \<and> j \<le> ?m \<and> ?p dvd j}"
      using A(2) by simp
    moreover have "rx_evictable r' = rx_evictable r + int (?m - n1)" "rx_protected r' = rx_protected r"
      "rx_page r' = ?p"
      by (simp_all add: r' ld_def)
    ultimately have "radix_inv L r' \<and> inserted ids0 idx0 r n m h r'"
      unfolding inserted_def using A(1,3,4,5) mn n1 mx base r'(1) by blast
    then show ?thesis using A(8) mn r'(1) by simp
  qed
  then show "radix_inv L r'" "inserted ids0 idx0 r n m h r'"
    "\<exists>ds. node_path h (rx_root r') = Some (rn_data (rx_root r') # ds) \<and> keys_of ds = take m ids0" by auto
qed

lemma insert_prefix_ok:
  assumes "radix_inv L r" "nalign (length ids0) (rx_page r) \<le> length idx0"
  shows "ok (insert_prefix tic now ids0 idx0 r)"
  using assms by (auto simp: insert_prefix_def Let_def split: prod.splits)

section \<open>Locks\<close>

lemma up_None_iff:
  "up_path f h x = None \<longleftrightarrow> h \<notin> set (nids x)"
  "up_kids f h ks = None \<longleftrightarrow> h \<notin> set (kids_ids ks)"
  by (induction f h x and f h ks rule: up_path_up_kids.induct) (auto split: option.splits)

text \<open>A lock step changes only the reference count of a node.\<close>

definition ref_only :: "(ndata \<Rightarrow> (ndata \<times> int) res) \<Rightarrow> bool" where
  "ref_only f \<longleftrightarrow> (\<forall>d d' a. f d = Inr (d', a) \<longrightarrow> d' = d\<lparr>nd_ref := nd_ref d'\<rparr>)"

lemma ref_only_steps [simp]: "ref_only lock_step" "ref_only unlock_step"
  by (auto simp: ref_only_def lock_step_def unlock_step_def split: if_splits)

lemma ref_onlyD:
  assumes "ref_only f" "f d = Inr (d', a)"
  shows "nd_id d' = nd_id d" "nd_key d' = nd_key d" "nd_val d' = nd_val d" "nd_time d' = nd_time d"
    "nd_mamba d' = nd_mamba d"
proof -
  have "d' = d\<lparr>nd_ref := nd_ref d'\<rparr>" using assms by (auto simp: ref_only_def)
  then show "nd_id d' = nd_id d" "nd_key d' = nd_key d" "nd_val d' = nd_val d" "nd_time d' = nd_time d"
    "nd_mamba d' = nd_mamba d"
    by (metis ndata.select_convs ndata.surjective ndata.update_convs(4))+
qed

text \<open>A tree without its reference counts.\<close>

fun erase :: "rnode \<Rightarrow> rnode" where
  "erase (RNode d ks) = RNode (d\<lparr>nd_ref := 0\<rparr>) (map erase ks)"

lemma erase_data [simp]:
  "rn_key (erase x) = rn_key x" "rn_id (erase x) = rn_id x" "rn_val (erase x) = rn_val x"
  by (cases x; simp)+

lemma wf_node_erase: "wf_node p (erase x) = wf_node p x"
  by (induction x) (auto simp: wf_kids_def comp_def)

lemma wf_kids_erase: "wf_kids p (map erase ks) = wf_kids p ks"
  by (auto simp: wf_kids_def wf_node_erase comp_def)

lemma pref_erase: "pref p (erase x) = pref p x"
  by (induction x) (simp add: pref.simps)

lemma prefs_erase: "prefs p (map erase ks) = prefs p ks"
  by (simp add: prefs_def pref_erase)

lemma nids_erase [simp]: "nids (erase x) = nids x"
proof (induction x)
  case (RNode d ks)
  then have "kids_ids (map erase ks) = kids_ids ks"
    by (induction ks) auto
  then show ?case by simp
qed

lemma kids_ids_erase [simp]: "kids_ids (map erase ks) = kids_ids ks"
  by (induction ks) auto

lemma path_erase:
  "node_path g (erase x) = map_option (map (\<lambda>d. d\<lparr>nd_ref := 0\<rparr>)) (node_path g x)"
  "kids_path g (map erase ks) = map_option (map (\<lambda>d. d\<lparr>nd_ref := 0\<rparr>)) (kids_path g ks)"
  by (induction g x and g ks rule: node_path_kids_path.induct)
     (auto simp: option.map_comp comp_def split: option.splits)

lemma keys_vals_erase:
  "keys_of (map (\<lambda>d. d\<lparr>nd_ref := 0\<rparr>) ds) = keys_of ds"
  "vals_of (map (\<lambda>d. d\<lparr>nd_ref := 0\<rparr>) ds) = vals_of ds"
  by (induction ds) auto

lemma same_span_erase:
  assumes "erase x = erase x'"
  shows "same_span (node_path g x) (node_path g x')"
proof -
  have "map_option (map (\<lambda>d. d\<lparr>nd_ref := 0\<rparr>)) (node_path g x) =
      map_option (map (\<lambda>d. d\<lparr>nd_ref := 0\<rparr>)) (node_path g x')"
    using path_erase(1) assms by metis
  then show ?thesis
    by (auto simp: same_span_def map_option_case split: option.splits)
       (metis keys_vals_erase)+
qed

lemma up_erase:
  "up_path f h x = Some (Inr (x', a)) \<Longrightarrow> ref_only f \<Longrightarrow> erase x' = erase x"
  "up_kids f h ks = Some (Inr (ks', a)) \<Longrightarrow> ref_only f \<Longrightarrow> map erase ks' = map erase ks"
proof (induction f h x and f h ks arbitrary: x' a and ks' a rule: up_path_up_kids.induct)
  case (1 f h d ks)
  have eq: "d'\<lparr>nd_ref := 0\<rparr> = d\<lparr>nd_ref := 0\<rparr>" if "f d = Inr (d', b)" for d' b
  proof -
    have "d' = d\<lparr>nd_ref := nd_ref d'\<rparr>" using "1.prems"(2) that by (auto simp: ref_only_def)
    then show ?thesis by (metis ndata.surjective ndata.update_convs(4))
  qed
  show ?case using 1 eq by (auto simp: bind_res_Inr split: if_splits)
next
  case (3 f h x xs)
  then show ?case by (auto simp: bind_res_Inr split: option.splits)
qed simp

lemma ref_ok_other: "h \<notin> set (nids x) \<Longrightarrow> ref_ok (add_mset h L) x = ref_ok L x"
proof (induction x)
  case (RNode d ks)
  then have "\<forall>y \<in> set ks. ref_ok (add_mset h L) y = ref_ok L y"
    by (auto simp: kids_ids_def nids_def)
  then show ?case using RNode.prems by auto
qed

lemma refs_ok_other: "h \<notin> set (kids_ids ks) \<Longrightarrow> refs_ok (add_mset h L) ks = refs_ok L ks"
  by (induction ks) (auto simp: refs_ok_def ref_ok_other)

lemma refs_ok_Cons [simp]: "refs_ok L (x # xs) \<longleftrightarrow> ref_ok L x \<and> refs_ok L xs"
  by (simp add: refs_ok_def)

lemma ref_ok_RNode: "ref_ok L (RNode d ks) \<longleftrightarrow>
    nd_ref d = int (count L (nd_id d)) + sum_list (map rn_ref ks) \<and> refs_ok L ks"
  by (simp add: refs_ok_def)

declare ref_ok.simps [simp del]

lemma ref_nonneg: "ref_ok L x \<Longrightarrow> 0 \<le> rn_ref x"
proof (induction x)
  case (RNode d ks)
  then have "\<forall>y \<in> set ks. 0 \<le> rn_ref y" by (auto simp: ref_ok_RNode refs_ok_def)
  then have "0 \<le> sum_list (map rn_ref ks)" by (intro sum_list_nonneg) auto
  then show ?case using RNode.prems by (simp add: ref_ok_RNode)
qed

lemma refs_nonneg: "refs_ok L ks \<Longrightarrow> 0 \<le> sum_list (map rn_ref ks)"
  by (intro sum_list_nonneg) (auto simp: refs_ok_def dest: ref_nonneg)

lemma lock_amount:
  "lock_step d = Inr (d', a) \<Longrightarrow> 0 \<le> nd_ref d \<Longrightarrow>
   nd_ref d' = nd_ref d + 1 \<and> nd_id d' = nd_id d \<and> esz d' = esz d - a \<and> psz d' = psz d + a"
  by (auto simp: lock_step_def esz_def psz_def)

lemma lock_ok:
  "h \<in> set (nids x) \<Longrightarrow> distinct (nids x) \<Longrightarrow> ref_ok L x \<Longrightarrow>
     \<exists>x' a. up_path lock_step h x = Some (Inr (x', a)) \<and> ref_ok (add_mset h L) x' \<and>
       rn_ref x' = rn_ref x + 1 \<and> nsum esz x' = nsum esz x - a \<and> nsum psz x' = nsum psz x + a"
  "h \<in> set (kids_ids ks) \<Longrightarrow> distinct (kids_ids ks) \<Longrightarrow> refs_ok L ks \<Longrightarrow>
     \<exists>ks' a. up_kids lock_step h ks = Some (Inr (ks', a)) \<and> refs_ok (add_mset h L) ks' \<and>
       sum_list (map rn_ref ks') = sum_list (map rn_ref ks) + 1 \<and>
       ksum esz ks' = ksum esz ks - a \<and> ksum psz ks' = ksum psz ks + a"
proof (induction h x and h ks rule: node_path_kids_path.induct)
  case (1 h d ks)
  obtain d' b where d': "lock_step d = Inr (d', b)" by (simp add: lock_step_def)
  have "0 \<le> nd_ref d" using ref_nonneg [OF "1.prems"(3)] by simp
  note A = lock_amount [OF d' this]
  have k: "nd_ref d = int (count L (nd_id d)) + sum_list (map rn_ref ks)" "refs_ok L ks"
    using "1.prems"(3) by (auto simp: ref_ok_RNode)
  show ?case
  proof (cases "nd_id d = h")
    case True
    then have "refs_ok (add_mset h L) ks" using k "1.prems"(2) by (simp add: refs_ok_other)
    then show ?thesis using True d' A k by (auto simp: ref_ok_RNode)
  next
    case False
    then have "h \<in> set (kids_ids ks)" using "1.prems"(1) by simp
    then obtain ks' a where "up_kids lock_step h ks = Some (Inr (ks', a))" "refs_ok (add_mset h L) ks'"
       "sum_list (map rn_ref ks') = sum_list (map rn_ref ks) + 1"
       "ksum esz ks' = ksum esz ks - a" "ksum psz ks' = ksum psz ks + a"
      using "1.IH" False "1.prems"(2) k(2) by auto
    then show ?thesis using False d' A k by (auto simp: ref_ok_RNode)
  qed
next
  case (3 h x xs)
  show ?case
  proof (cases "h \<in> set (nids x)")
    case True
    then obtain x' a where x': "up_path lock_step h x = Some (Inr (x', a))" "ref_ok (add_mset h L) x'"
       "rn_ref x' = rn_ref x + 1" "nsum esz x' = nsum esz x - a" "nsum psz x' = nsum psz x + a"
      using "3.IH"(1) "3.prems" by auto
    moreover have nh: "h \<notin> set (kids_ids xs)" using True "3.prems"(2) by auto
    moreover have "refs_ok (add_mset h L) xs"
      using refs_ok_other [OF nh, of L] "3.prems"(3) by simp
    ultimately show ?thesis by auto
  next
    case False
    then have n: "up_path lock_step h x = None" by (simp add: up_None_iff)
    obtain ks' a where "up_kids lock_step h xs = Some (Inr (ks', a))" "refs_ok (add_mset h L) ks'"
       "sum_list (map rn_ref ks') = sum_list (map rn_ref xs) + 1"
       "ksum esz ks' = ksum esz xs - a" "ksum psz ks' = ksum psz xs + a"
      using "3.IH"(2) "3.prems" False path_None_iff(1) [of h x] by auto
    then show ?thesis using n False "3.prems"(3) by (auto simp: ref_ok_other)
  qed
qed simp

text \<open>A node with a locked handle below it (or on it) is referenced.\<close>

lemma ref_pos:
  "h \<in> set (nids x) \<Longrightarrow> ref_ok (add_mset h L) x \<Longrightarrow> 1 \<le> rn_ref x"
  "h \<in> set (kids_ids ks) \<Longrightarrow> refs_ok (add_mset h L) ks \<Longrightarrow> 1 \<le> sum_list (map rn_ref ks)"
proof (induction h x and h ks rule: node_path_kids_path.induct)
  case (1 h d ks)
  then have "nd_ref d = int (count (add_mset h L) (nd_id d)) + sum_list (map rn_ref ks)"
    "refs_ok (add_mset h L) ks"
    by (auto simp: ref_ok_RNode)
  then show ?case using 1 refs_nonneg [of "add_mset h L" ks] by (cases "nd_id d = h") auto
next
  case (3 h x xs)
  then show ?case
    using refs_nonneg [of "add_mset h L" xs] ref_nonneg [of "add_mset h L" x] path_None_iff(1) [of h x]
    by (cases "h \<in> set (nids x)") fastforce+
qed simp

lemma unlock_amount:
  "1 \<le> nd_ref d \<Longrightarrow>
   \<exists>d' a. unlock_step d = Inr (d', a) \<and> nd_ref d' = nd_ref d - 1 \<and> nd_id d' = nd_id d \<and>
     esz d' = esz d + a \<and> psz d' = psz d - a"
  by (auto simp: unlock_step_def esz_def psz_def)

lemma unlock_ok:
  "h \<in> set (nids x) \<Longrightarrow> distinct (nids x) \<Longrightarrow> ref_ok (add_mset h L) x \<Longrightarrow>
     \<exists>x' a. up_path unlock_step h x = Some (Inr (x', a)) \<and> ref_ok L x' \<and>
       rn_ref x' = rn_ref x - 1 \<and> nsum esz x' = nsum esz x + a \<and> nsum psz x' = nsum psz x - a"
  "h \<in> set (kids_ids ks) \<Longrightarrow> distinct (kids_ids ks) \<Longrightarrow> refs_ok (add_mset h L) ks \<Longrightarrow>
     \<exists>ks' a. up_kids unlock_step h ks = Some (Inr (ks', a)) \<and> refs_ok L ks' \<and>
       sum_list (map rn_ref ks') = sum_list (map rn_ref ks) - 1 \<and>
       ksum esz ks' = ksum esz ks + a \<and> ksum psz ks' = ksum psz ks - a"
proof (induction h x and h ks rule: node_path_kids_path.induct)
  case (1 h d ks)
  have "1 \<le> nd_ref d" using ref_pos(1) [OF "1.prems"(1,3)] by simp
  then obtain d' b where A: "unlock_step d = Inr (d', b)" "nd_ref d' = nd_ref d - 1" "nd_id d' = nd_id d"
     "esz d' = esz d + b" "psz d' = psz d - b"
    using unlock_amount by blast
  have k: "nd_ref d = int (count (add_mset h L) (nd_id d)) + sum_list (map rn_ref ks)"
      "refs_ok (add_mset h L) ks"
    using "1.prems"(3) by (auto simp: ref_ok_RNode)
  show ?case
  proof (cases "nd_id d = h")
    case True
    then have "refs_ok L ks" using k "1.prems"(2) by (simp add: refs_ok_other)
    then show ?thesis using True A k by (auto simp: ref_ok_RNode)
  next
    case False
    then have "h \<in> set (kids_ids ks)" using "1.prems"(1) by simp
    then obtain ks' a where "up_kids unlock_step h ks = Some (Inr (ks', a))" "refs_ok L ks'"
       "sum_list (map rn_ref ks') = sum_list (map rn_ref ks) - 1"
       "ksum esz ks' = ksum esz ks + a" "ksum psz ks' = ksum psz ks - a"
      using "1.IH" False "1.prems"(2) k(2) by auto
    then show ?thesis using False A k by (auto simp: ref_ok_RNode)
  qed
next
  case (3 h x xs)
  show ?case
  proof (cases "h \<in> set (nids x)")
    case True
    then obtain x' a where x': "up_path unlock_step h x = Some (Inr (x', a))" "ref_ok L x'"
       "rn_ref x' = rn_ref x - 1" "nsum esz x' = nsum esz x + a" "nsum psz x' = nsum psz x - a"
      using "3.IH"(1) "3.prems" by auto
    moreover have nh: "h \<notin> set (kids_ids xs)" using True "3.prems"(2) by auto
    moreover have "refs_ok L xs"
      using refs_ok_other [OF nh, of L] "3.prems"(3) by simp
    ultimately show ?thesis by auto
  next
    case False
    then have n: "up_path unlock_step h x = None" by (simp add: up_None_iff)
    obtain ks' a where "up_kids unlock_step h xs = Some (Inr (ks', a))" "refs_ok L ks'"
       "sum_list (map rn_ref ks') = sum_list (map rn_ref xs) - 1"
       "ksum esz ks' = ksum esz xs + a" "ksum psz ks' = ksum psz xs - a"
      using "3.IH"(2) "3.prems" False path_None_iff(1) [of h x] by auto
    then show ?thesis using n False "3.prems"(3) by (auto simp: ref_ok_other)
  qed
qed simp

definition lock_keeps :: "radix \<Rightarrow> radix \<Rightarrow> bool" where
  "lock_keeps r r' \<longleftrightarrow> cached r' = cached r \<and> rx_page r' = rx_page r \<and>
     nids (rx_root r') = nids (rx_root r) \<and>
     rx_evictable r' + rx_protected r' = rx_evictable r + rx_protected r \<and>
     (\<forall>g. same_span (node_path g (rx_root r)) (node_path g (rx_root r')))"

lemma lock_keeps_refl [simp]: "lock_keeps r r"
  by (simp add: lock_keeps_def)

lemma erase_eta: "erase x = RNode ((rn_data x)\<lparr>nd_ref := 0\<rparr>) (map erase (rn_kids x))"
  by (cases x) simp

lemma nids_eta: "nids x = rn_id x # kids_ids (rn_kids x)"
  by (cases x) simp

lemma radix_inv_erase:
  assumes I: "radix_inv L r" and e: "map erase ks' = map erase (rn_kids (rx_root r))"
    and r': "r' = r\<lparr>rx_root := RNode (rn_data (rx_root r)) ks',
                   rx_evictable := ev, rx_protected := pr\<rparr>"
    and "refs_ok L' ks'" "ev = ksum esz ks'" "pr = ksum psz ks'"
    and "set_mset L' \<subseteq> set (nids (rx_root r))"
    and "ev + pr = rx_evictable r + rx_protected r"
  shows "radix_inv L' r'" "lock_keeps r r'"
proof -
  note J = radix_invD [OF I]
  have ids: "nids (rx_root r') = nids (rx_root r)"
    using arg_cong [OF e, of kids_ids] by (simp add: r' nids_eta)
  have wf: "wf_kids (rx_page r) ks'" using J(4) wf_kids_erase e by metis
  have pre: "prefs (rx_page r) ks' = cached r"
    unfolding cached_def using prefs_erase e by metis
  have er: "erase (rx_root r) = erase (rx_root r')"
    using e by (simp add: erase_eta [of "rx_root r"] r')
  show "radix_inv L' r'"
    unfolding radix_inv_def ids using J assms(4-7) wf by (simp add: r')
  show "lock_keeps r r'"
    unfolding lock_keeps_def ids using assms(8) pre same_span_erase [OF er] by (simp add: r' cached_def)
qed

lemma lock_handle_correct:
  assumes I: "radix_inv L r" and h: "h \<in> set (nids (rx_root r))"
  obtains r' where "lock_handle (n, h) False r = Inr r'" "radix_inv (add_mset h L) r'" "lock_keeps r r'"
proof (cases "h = rn_id (rx_root r)")
  case True
  note J = radix_invD [OF I]
  have "h \<notin> set (kids_ids (rn_kids (rx_root r)))" using J(5) True by (simp add: nids_eta)
  then have "radix_inv (add_mset h L) r"
    using J h by (simp add: radix_inv_def refs_ok_other)
  then show ?thesis using True that by (auto simp: lock_handle_def)
next
  case False
  note J = radix_invD [OF I]
  let ?ks = "rn_kids (rx_root r)"
  have "h \<in> set (kids_ids ?ks)" "distinct (kids_ids ?ks)"
    using h False J(5) by (simp_all add: nids_eta)
  then obtain ks' a where u: "up_kids lock_step h ?ks = Some (Inr (ks', a))"
     "refs_ok (add_mset h L) ks'" "ksum esz ks' = ksum esz ?ks - a" "ksum psz ks' = ksum psz ?ks + a"
    using lock_ok(2) J(8) by blast
  have e: "map erase ks' = map erase ?ks" using up_erase(2) [OF u(1)] by simp
  let ?r = "r\<lparr>rx_root := RNode (rn_data (rx_root r)) ks', rx_evictable := rx_evictable r - a,
              rx_protected := rx_protected r + a\<rparr>"
  have "lock_handle (n, h) False r = Inr ?r" using False u(1) by (simp add: lock_handle_def)
  moreover have "radix_inv (add_mset h L) ?r" "lock_keeps r ?r"
    using radix_inv_erase [OF I e refl u(2)] u J h by simp_all
  ultimately show ?thesis by (rule that)
qed

lemma unlock_handle_correct:
  assumes I: "radix_inv (add_mset h L) r"
  obtains r' where "lock_handle (n, h) True r = Inr r'" "radix_inv L r'" "lock_keeps r r'"
proof (cases "h = rn_id (rx_root r)")
  case True
  note J = radix_invD [OF I]
  have "h \<notin> set (kids_ids (rn_kids (rx_root r)))" using J(5) True by (simp add: nids_eta)
  then have "radix_inv L r"
    using J by (simp add: radix_inv_def refs_ok_other)
  then show ?thesis using True that by (auto simp: lock_handle_def)
next
  case False
  note J = radix_invD [OF I]
  let ?ks = "rn_kids (rx_root r)"
  have "h \<in> set (kids_ids ?ks)" "distinct (kids_ids ?ks)"
    using J(5,7) False by (auto simp: nids_eta)
  then obtain ks' a where u: "up_kids unlock_step h ?ks = Some (Inr (ks', a))"
     "refs_ok L ks'" "ksum esz ks' = ksum esz ?ks + a" "ksum psz ks' = ksum psz ?ks - a"
    using unlock_ok(2) J(8) by blast
  have e: "map erase ks' = map erase ?ks" using up_erase(2) [OF u(1)] by simp
  let ?r = "r\<lparr>rx_root := RNode (rn_data (rx_root r)) ks', rx_evictable := rx_evictable r + a,
              rx_protected := rx_protected r - a\<rparr>"
  have "lock_handle (n, h) True r = Inr ?r" using False u(1) by (simp add: lock_handle_def)
  moreover have "radix_inv L ?r" "lock_keeps r ?r"
    using radix_inv_erase [OF I e refl u(2)] u J by simp_all
  ultimately show ?thesis by (rule that)
qed

section \<open>Eviction\<close>

lemma del_data [simp]: "rn_data (del_node h x) = rn_data x"
  by (cases x) simp

lemma kid_id_in: "x \<in> set ks \<Longrightarrow> rn_id x \<in> set (kids_ids ks)"
  by (induction ks) (auto simp: nids_eta)

lemma del_other: "h \<notin> set (nids x) \<Longrightarrow> del_node h x = x"
proof (induction x)
  case (RNode d ks)
  then have "map (del_node h) ks = ks" by (intro map_idI) (auto simp: kids_ids_def nids_def)
  moreover have "filter (\<lambda>x. rn_id x \<noteq> h) ks = ks"
    using RNode.prems by (intro filter_True) (auto dest: kid_id_in)
  ultimately show ?case by simp
qed

lemma del_kids_other: "h \<notin> set (kids_ids ks) \<Longrightarrow> map (del_node h) ks = ks \<and> filter (\<lambda>x. rn_id x \<noteq> h) ks = ks"
  by (induction ks) (auto simp: del_other nids_eta)

lemma find_None_iff:
  "find_node h x = None \<longleftrightarrow> h \<notin> set (nids x)"
  "find_kids h ks = None \<longleftrightarrow> h \<notin> set (kids_ids ks)"
  by (induction h x and h ks rule: find_node_find_kids.induct) (auto split: option.splits)

lemma find_id:
  "find_node h x = Some y \<Longrightarrow> rn_id y = h"
  "find_kids h ks = Some y \<Longrightarrow> rn_id y = h"
  by (induction h x and h ks rule: find_node_find_kids.induct) (auto split: option.splits if_splits)

lemma find_kids_append:
  "find_kids h (xs @ ys) = (case find_kids h xs of None \<Rightarrow> find_kids h ys | Some y \<Rightarrow> Some y)"
  by (induction xs) (auto split: option.splits)

lemma parent_in:
  "parent_of h x = Some q \<Longrightarrow> h \<in> set (nids x) \<and> q \<in> set (nids x)"
  "parent_kids h ks = Some q \<Longrightarrow> h \<in> set (kids_ids ks) \<and> q \<in> set (kids_ids ks)"
proof (induction h x and h ks arbitrary: q and q rule: parent_of_parent_kids.induct)
  case (1 h d ks)
  then show ?case by (auto simp: kid_id_in split: if_splits)
next
  case (3 h x xs)
  then show ?case by (auto split: option.splits)
qed simp

lemma parent_kids_append:
  "parent_kids h (xs @ ys) = (case parent_kids h xs of None \<Rightarrow> parent_kids h ys | Some y \<Rightarrow> Some y)"
  by (induction xs) (auto split: option.splits)

lemma parent_kids_None: "h \<notin> set (kids_ids ks) \<Longrightarrow> parent_kids h ks = None"
  using parent_in(2) by (metis not_None_eq)

lemma parent_of_None: "h \<notin> set (nids x) \<Longrightarrow> parent_of h x = None"
  using parent_in(1) by (metis not_None_eq)

lemma del_node_length:
  "length (nids (del_node h x)) \<le> length (nids x)"
proof (induction x)
  case (RNode d ks)
  have "length (kids_ids (map (del_node h) (filter (\<lambda>x. rn_id x \<noteq> h) ks))) \<le> length (kids_ids ks)"
    using RNode by (induction ks) (auto intro: add_mono trans_le_add2)
  then show ?case by simp
qed

lemma del_node_shrinks:
  "parent_of h x = Some q \<Longrightarrow> length (nids (del_node h x)) < length (nids x)"
  "parent_kids h ks = Some q \<Longrightarrow>
    length (kids_ids (map (del_node h) (filter (\<lambda>x. rn_id x \<noteq> h) ks))) < length (kids_ids ks)"
proof (induction h x and h ks arbitrary: q and q rule: parent_of_parent_kids.induct)
  case (1 h d ks)
  show ?case
  proof (cases "h \<in> rn_id ` set ks")
    case True
    then have "length (kids_ids (map (del_node h) (filter (\<lambda>x. rn_id x \<noteq> h) ks))) < length (kids_ids ks)"
    proof (induction ks)
      case (Cons y ys)
      have le: "length (kids_ids (map (del_node h) (filter (\<lambda>x. rn_id x \<noteq> h) ys))) \<le> length (kids_ids ys)"
        using del_node_length [of h "RNode d ys"] by simp
      show ?case
      proof (cases "rn_id y = h")
        case True
        then show ?thesis using le by (simp add: nids_eta [of y])
      next
        case False
        then show ?thesis using Cons del_node_length [of h y] by (auto intro: add_le_less_mono)
      qed
    qed simp
    then show ?thesis by simp
  next
    case False
    then show ?thesis using 1 by simp
  qed
next
  case (3 h x xs)
  have le: "length (kids_ids (map (del_node h) (filter (\<lambda>x. rn_id x \<noteq> h) xs))) \<le> length (kids_ids xs)"
    using del_node_length [of h "RNode (rn_data x) xs"] by simp
  show ?case
  proof (cases "rn_id x = h")
    case True
    then show ?thesis using le by (simp add: nids_eta [of x])
  next
    case False
    then show ?thesis using 3 le del_node_length [of h x]
      by (auto split: option.splits intro: add_le_less_mono add_less_le_mono)
  qed
qed simp

text \<open>The loop of \<open>evict\<close>: the heap, the tree, the slots collected, how many, and
  \<open>evictable_size\<close>. Each round deletes one node, so it ends.\<close>

function (sequential) evict_loop ::
  "nat \<Rightarrow> (nat \<times> nat) list \<Rightarrow> rnode \<Rightarrow> slot list \<Rightarrow> nat \<Rightarrow> int \<Rightarrow> (slot list \<times> rnode \<times> int) res" where
  "evict_loop need heap t acc n ev =
     (if need \<le> n then Inr (acc, t, ev)
      else case heap_pop heap of
        None \<Rightarrow> Inl AssertionError
      | Some (e, heap') \<Rightarrow>
          (case find_node (snd e) t of
             None \<Rightarrow> Inl AssertionError
           | Some x \<Rightarrow>
               if \<not> (rn_ref x = 0 \<and> is_leaf x) then Inl AssertionError
               else case parent_of (snd e) t of
                 None \<Rightarrow> Inl AssertionError
               | Some q \<Rightarrow>
                   let t' = del_node (snd e) t;
                       heap'' = (case find_node q t' of
                                   None \<Rightarrow> heap'
                                 | Some y \<Rightarrow> if is_leaf y \<and> rn_ref y = 0 then (rn_time y, q) # heap' else heap')
                   in evict_loop need heap'' t' (acc @ rn_val x) (n + length (rn_key x))
                        (ev - int (length (rn_key x)))))"
  by pat_completeness auto
termination
  by (relation "measure (\<lambda>(need, heap, t, acc, n, ev). length (nids t))")
     (auto simp: del_node_shrinks)

declare evict_loop.simps [simp del]

definition evict :: "nat \<Rightarrow> radix \<Rightarrow> (slot list \<times> radix) res" where
  "evict need r =
     (if need = 0 then Inr ([], r)
      else if int need > rx_evictable r then Inl AssertionError
      else bind_res (evict_loop need (collect (rx_root r)) (rx_root r) [] 0 (rx_evictable r))
             (\<lambda>(idx, t, ev). Inr (idx, r\<lparr>rx_root := t, rx_evictable := ev\<rparr>)))"

text \<open>What deleting the unreferenced leaf \<open>x0\<close> below its parent \<open>q\<close> does to a tree.\<close>

definition leaf_entry :: "rnode \<Rightarrow> nat \<times> nat" where
  "leaf_entry x = (rn_time x, rn_id x)"

definition now_free :: "nat \<Rightarrow> rnode \<Rightarrow> (nat \<times> nat) multiset" where
  "now_free q t =
     (case find_node q t of None \<Rightarrow> {#} | Some y \<Rightarrow> if is_leaf y \<and> rn_ref y = 0 then {#(rn_time y, q)#} else {#})"

definition del_ok :: "nat \<Rightarrow> rnode \<Rightarrow> nat \<Rightarrow> rnode \<Rightarrow> rnode \<Rightarrow> bool" where
  "del_ok p x0 q t t' \<longleftrightarrow>
     wf_kids p (rn_kids t') \<and> prefs p (rn_kids t') \<subseteq> prefs p (rn_kids t) \<and>
     mset (datas t) = add_mset (rn_data x0) (mset (datas t')) \<and>
     sum_list (map rn_ref (rn_kids t')) = sum_list (map rn_ref (rn_kids t)) \<and>
     (\<forall>L. refs_ok L (rn_kids t) \<longrightarrow> refs_ok L (rn_kids t')) \<and>
     (\<forall>g \<in> set (nids t'). node_path g t' = node_path g t) \<and>
     add_mset (leaf_entry x0) (mset (collect t')) = now_free q t' + mset (collect t)"

lemma find_kids_in: "x \<in> set ks \<Longrightarrow> distinct (kids_ids ks) \<Longrightarrow> find_kids (rn_id x) ks = Some x"
proof (induction ks)
  case (Cons y ys)
  show ?case
  proof (cases "x = y")
    case True
    then show ?thesis by (cases y) simp
  next
    case False
    then have "rn_id x \<in> set (kids_ids ys)" using Cons.prems kid_id_in by simp
    then have "rn_id x \<notin> set (nids y)" using Cons.prems(2) by auto
    then have "find_node (rn_id x) y = None" by (simp add: find_None_iff)
    then show ?thesis using Cons False by simp
  qed
qed simp

lemma node_path_other: "g \<notin> set (nids x) \<Longrightarrow> node_path g x = None"
  by (simp add: path_None_iff)

lemma kids_path_replace:
  assumes "g \<in> set (nids y') \<Longrightarrow> node_path g y' = node_path g y" "g \<notin> set (nids y') \<Longrightarrow> g \<notin> set (nids y)"
  shows "kids_path g (xs @ y' # ys) = kids_path g (xs @ y # ys)"
  using assms by (cases "g \<in> set (nids y')") (auto simp: kids_path_append node_path_other split: option.split)

lemma wf_kids_del: "wf_kids p (xs @ x # ys) \<Longrightarrow> wf_kids p (xs @ ys)"
  by (auto simp: wf_kids_def)

lemma collect_ne: "ks \<noteq> [] \<Longrightarrow> collect (RNode d ks) = concat (map collect ks)"
  by simp

declare collect.simps [simp del]

lemma collect_leaf: "collect (RNode d []) = (if nd_ref d = 0 then [(nd_time d, nd_id d)] else [])"
  by (simp add: collect.simps)

lemma find_node_self [simp]: "find_node (rn_id x) x = Some x"
  by (cases x) simp

text \<open>The leaf is a child of the top node.\<close>

lemma del_child:
  assumes ks: "ks = xs @ x0 # ys" and d: "distinct (nids (RNode d ks))" and wf: "wf_kids p ks"
    and leaf: "rn_ref x0 = 0" "is_leaf x0"
  shows "del_node (rn_id x0) (RNode d ks) = RNode d (xs @ ys)"
    "del_ok p x0 (nd_id d) (RNode d ks) (RNode d (xs @ ys))"
proof -
  let ?h = "rn_id x0" and ?t' = "RNode d (xs @ ys)"
  obtain d0 where x0: "x0 = RNode d0 []" using leaf(2) by (cases x0) (simp add: is_leaf_def)
  have o: "?h \<notin> set (kids_ids xs)" "?h \<notin> set (kids_ids ys)"
    using d x0 by (auto simp: ks)
  show dl: "del_node ?h (RNode d ks) = ?t'"
    using del_kids_other [OF o(1)] del_kids_other [OF o(2)] by (simp add: ks)
  have c0: "collect x0 = [leaf_entry x0]" using leaf x0 by (simp add: leaf_entry_def collect_leaf)
  have "add_mset (leaf_entry x0) (mset (collect ?t')) = now_free (nd_id d) ?t' + mset (collect (RNode d ks))"
  proof (cases "xs @ ys = []")
    case True
    then have "collect (RNode d ks) = [leaf_entry x0]" using c0 by (simp add: collect_ne ks)
    moreover have "mset (collect ?t') = now_free (nd_id d) ?t'"
      using True by (simp add: now_free_def is_leaf_def collect_leaf)
    ultimately show ?thesis by simp
  next
    case False
    then have "mset (collect (RNode d ks)) = add_mset (leaf_entry x0) (mset (collect ?t'))"
      using c0 by (simp add: collect_ne ks)
    moreover have "now_free (nd_id d) ?t' = {#}" using False by (auto simp: now_free_def is_leaf_def)
    ultimately show ?thesis by simp
  qed
  moreover have "node_path g ?t' = node_path g (RNode d ks)" if "g \<in> set (nids ?t')" for g
  proof (cases "g = nd_id d")
    case False
    then have "g \<noteq> ?h" using that o by auto
    then have "node_path g x0 = None" using x0 by simp
    then show ?thesis using False by (simp add: ks kids_path_append split: option.split)
  qed simp
  ultimately show "del_ok p x0 (nd_id d) (RNode d ks) ?t'"
    using wf x0 leaf unfolding del_ok_def
    by (auto simp: ks prefs_append prefs_Cons refs_ok_def intro: wf_kids_del)
qed

text \<open>The leaf is deeper, below the child \<open>y\<close>.\<close>

lemma del_deeper:
  assumes ks: "ks = xs @ y # ys" and d: "distinct (nids (RNode d ks))" and wf: "wf_kids p ks"
    and h: "h \<in> set (kids_ids (rn_kids y))" and q: "q \<in> set (nids y')" and y': "y' = del_node h y"
    and dy: "del_ok p x0 q y y'"
  shows "del_node h (RNode d ks) = RNode d (xs @ y' # ys)"
    "del_ok p x0 q (RNode d ks) (RNode d (xs @ y' # ys))"
proof -
  let ?t' = "RNode d (xs @ y' # ys)"
  have hy: "h \<in> set (nids y)" "rn_id y \<noteq> h" using h d by (auto simp: ks nids_eta [of y])
  have o: "h \<notin> set (kids_ids xs)" "h \<notin> set (kids_ids ys)"
    using d hy(1) by (auto simp: ks)
  show "del_node h (RNode d ks) = ?t'"
    using del_kids_other [OF o(1)] del_kids_other [OF o(2)] hy(2) y' by (simp add: ks)
  have md: "mset (datas y) = add_mset (rn_data x0) (mset (datas y'))" using dy by (simp add: del_ok_def)
  then have mi: "mset (nids y) = add_mset (rn_id x0) (mset (nids y'))" by (simp add: nids_def)
  have sub: "set (nids y) = insert (rn_id x0) (set (nids y'))"
    using arg_cong [OF mi, of set_mset] by simp
  have nd: "rn_id x0 \<notin> set (nids y')"
    using mset_eq_distinct [of "nids y" "rn_id x0 # nids y'"] mi d by (simp add: ks)
  have wy: "wf_node p y" using wf by (simp add: ks wf_kids_def)
  obtain e ls where y: "y = RNode e ls" by (cases y)
  obtain ls' where ye: "y' = RNode e ls'"
    using y' y by (cases y') (metis del_data rnode.sel(1))
  have wy': "wf_node p y'" using wy dy y ye by (simp add: del_ok_def)
  have py: "pref p y' \<subseteq> pref p y"
    using prefs_pref_RNode [OF wy [unfolded y]] prefs_pref_RNode [OF wy' [unfolded ye]] dy y ye
    by (auto simp: del_ok_def)
  have nf: "now_free q ?t' = now_free q y'"
  proof -
    have "q \<in> set (nids y)" using sub q by simp
    then have "nd_id d \<noteq> q" "q \<notin> set (kids_ids xs)" using d by (auto simp: ks)
    then have "find_node q ?t' = find_node q y'"
      using q find_None_iff(1) [of q y'] find_None_iff(2) [of q xs]
      by (auto simp: find_kids_append split: option.split)
    then show ?thesis by (simp add: now_free_def)
  qed
  have cl: "add_mset (leaf_entry x0) (mset (collect ?t')) = now_free q ?t' + mset (collect (RNode d ks))"
    using dy by (simp add: nf del_ok_def ks collect_ne)
  have rf: "ref_ok L y'" if "ref_ok L y" for L
    using that dy unfolding y ye del_ok_def by (auto simp: ref_ok_RNode)
  have pth: "node_path g ?t' = node_path g (RNode d ks)" if "g \<in> set (nids ?t')" for g
  proof -
    have "g \<notin> set (nids y') \<Longrightarrow> g \<notin> set (nids y)"
    proof
      assume a: "g \<notin> set (nids y')" "g \<in> set (nids y)"
      then have "g = rn_id x0" using sub by auto
      moreover have "g = nd_id d \<or> g \<in> set (kids_ids xs) \<or> g \<in> set (kids_ids ys)" using that a by auto
      ultimately show False using d a(2) by (auto simp: ks)
    qed
    then have "kids_path g (xs @ y' # ys) = kids_path g (xs @ y # ys)"
      using dy by (intro kids_path_replace) (auto simp: del_ok_def)
    then show ?thesis by (simp add: ks)
  qed
  show "del_ok p x0 q (RNode d ks) ?t'"
    unfolding del_ok_def
  proof (intro conjI allI impI ballI)
    show "wf_kids p (rn_kids ?t')"
      using wf wf_kids_replace [of p xs y ys y'] wy' y ye by (simp add: ks)
    show "prefs p (rn_kids ?t') \<subseteq> prefs p (rn_kids (RNode d ks))"
      using py by (auto simp: ks prefs_append prefs_Cons)
    show "mset (datas (RNode d ks)) = add_mset (rn_data x0) (mset (datas ?t'))"
      using md by (simp add: ks)
    show "sum_list (map rn_ref (rn_kids ?t')) = sum_list (map rn_ref (rn_kids (RNode d ks)))"
      using y ye by (simp add: ks)
    show "refs_ok L (rn_kids ?t')" if "refs_ok L (rn_kids (RNode d ks))" for L
      using that rf by (simp add: ks refs_ok_def)
  qed (use cl pth in auto)
qed

lemma del_correct:
  assumes "find_node h t = Some x0" "parent_of h t = Some q" "distinct (nids t)" "wf_kids p (rn_kids t)"
    "rn_ref x0 = 0" "is_leaf x0"
  shows "del_ok p x0 q t (del_node h t) \<and> q \<in> set (nids (del_node h t))"
  using assms
proof (induction t)
  case (RNode d ks)
  have hid: "rn_id x0 = h" using find_id(1) [OF RNode.prems(1)] .
  have dk: "distinct (kids_ids ks)" "nd_id d \<notin> set (kids_ids ks)" using RNode.prems(3) by auto
  have "h \<in> set (kids_ids ks)"
  proof (cases "h \<in> rn_id ` set ks")
    case True
    then show ?thesis using kid_id_in by auto
  next
    case False
    then have "parent_kids h ks = Some q" using RNode.prems(2) by simp
    then show ?thesis using parent_in(2) by blast
  qed
  then have hd: "h \<noteq> nd_id d" using dk(2) by auto
  show ?case
  proof (cases "h \<in> rn_id ` set ks")
    case True
    then obtain x where x: "x \<in> set ks" "rn_id x = h" by auto
    have "find_kids h ks = Some x0" using RNode.prems(1) hd by simp
    then have "x = x0" using find_kids_in [OF x(1) dk(1)] x(2) by simp
    then have "x0 \<in> set ks" using x(1) by simp
    then obtain xs ys where ks: "ks = xs @ x0 # ys" using split_list [of x0 ks] by blast
    have "q = nd_id d" using RNode.prems(2) True by simp
    then show ?thesis
      using del_child [OF ks RNode.prems(3), of p] RNode.prems(4-6) hid by simp
  next
    case False
    then have pk: "parent_kids h ks = Some q" using RNode.prems(2) by simp
    have "h \<in> set (kids_ids ks)" using parent_in(2) [OF pk] by simp
    then obtain y where y: "y \<in> set ks" "h \<in> set (nids y)"
      by (auto simp: kids_ids_def nids_def)
    obtain xs ys where "ks = xs @ y # ys" using split_list [OF y(1)] by blast
    note ks = this y(2)
    have o: "h \<notin> set (kids_ids xs)" using dk(1) ks by auto
    have "rn_id y \<noteq> h" using False ks(1) by auto
    then have hk: "h \<in> set (kids_ids (rn_kids y))" using ks(2) by (simp add: nids_eta [of y])
    have py: "parent_of h y = Some q"
      using pk o parent_kids_None [of h xs] parent_of_None ks dk(1) parent_kids_None [of h ys]
      by (auto simp: parent_kids_append split: option.splits)
    have fy: "find_node h y = Some x0"
      using RNode.prems(1) hd o find_None_iff(2) [of h xs] ks find_None_iff(1) [of h y]
      by (auto simp: find_kids_append split: option.splits)
    have "wf_node p y" using RNode.prems(4) ks(1) by (simp add: wf_kids_def)
    then have "wf_kids p (rn_kids y)" by (cases y) simp
    then have IH: "del_ok p x0 q y (del_node h y)" "q \<in> set (nids (del_node h y))"
      using RNode.IH [OF _ fy py] ks dk(1) RNode.prems(5,6) by auto
    show ?thesis
      using del_deeper [OF ks(1) RNode.prems(3) _ hk IH(2) refl IH(1)] RNode.prems(4) IH(2) by simp
  qed
qed

lemma kid_of_id:
  assumes "h \<in> set (kids_ids ks)"
  obtains xs y ys where "ks = xs @ y # ys" "h \<in> set (nids y)"
proof -
  obtain y where y: "y \<in> set ks" "h \<in> set (nids y)"
    using assms by (auto simp: kids_ids_def nids_def)
  obtain xs ys where "ks = xs @ y # ys" using split_list [OF y(1)] by blast
  then show ?thesis using that y(2) by blast
qed

lemma collect_entry:
  assumes "(ts, h) \<in> set (collect t)" "distinct (nids t)"
  shows "\<exists>x. find_node h t = Some x \<and> rn_ref x = 0 \<and> is_leaf x \<and> ts = rn_time x \<and>
    (x = t \<or> (\<exists>q. parent_of h t = Some q))"
  using assms
proof (induction t)
  case (RNode d ks)
  show ?case
  proof (cases "ks = []")
    case True
    then show ?thesis using RNode.prems by (auto simp: collect_leaf is_leaf_def split: if_splits)
  next
    case False
    then obtain y where "y \<in> set ks" "(ts, h) \<in> set (collect y)"
      using RNode.prems(1) by (auto simp: collect_ne)
    then obtain xs ys where ks: "ks = xs @ y # ys" and y: "(ts, h) \<in> set (collect y)"
      using split_list [of y ks] by blast
    have dy: "distinct (nids y)" using RNode.prems(2) ks by simp
    obtain x where x: "find_node h y = Some x" "rn_ref x = 0" "is_leaf x" "ts = rn_time x"
        "x = y \<or> (\<exists>q. parent_of h y = Some q)"
      using RNode.IH [OF _ y dy] ks by auto
    have hy: "h \<in> set (nids y)" using x(1) find_None_iff(1) [of h y] by auto
    then have o: "h \<notin> set (kids_ids xs)" "h \<noteq> nd_id d" using RNode.prems(2) ks by auto
    have "find_kids h xs = None" using o by (simp add: find_None_iff)
    then have f: "find_node h (RNode d ks) = Some x" using o x(1) by (simp add: ks find_kids_append)
    have "\<exists>q. parent_of h (RNode d ks) = Some q"
      using x(5)
    proof
      assume "x = y"
      then have "h = rn_id y" using find_id(1) [OF x(1)] by simp
      then show ?thesis by (simp add: ks)
    next
      assume "\<exists>q. parent_of h y = Some q"
      then show ?thesis using parent_kids_None [OF o(1)] by (auto simp: ks parent_kids_append)
    qed
    then show ?thesis using f x by blast
  qed
qed

lemma collect_nonempty: "ref_ok L x \<Longrightarrow> rn_ref x = 0 \<Longrightarrow> collect x \<noteq> []"
proof (induction x)
  case (RNode d ks)
  show ?case
  proof (cases ks)
    case Nil
    then show ?thesis using RNode.prems by (simp add: collect_leaf)
  next
    case (Cons y ys)
    have k: "nd_ref d = int (count L (nd_id d)) + sum_list (map rn_ref ks)" "refs_ok L ks"
      using RNode.prems(1) by (auto simp: ref_ok_RNode)
    have "0 \<le> rn_ref y" "0 \<le> sum_list (map rn_ref ys)"
      using k(2) Cons ref_nonneg refs_nonneg by auto
    then have "rn_ref y = 0" using k(1) RNode.prems(2) Cons by simp
    then show ?thesis using RNode.IH [of y] k(2) Cons by (simp add: collect_ne)
  qed
qed

lemma ksum_pos:
  fixes f :: "ndata \<Rightarrow> int"
  shows "0 < ksum f ks \<Longrightarrow> \<exists>y \<in> set ks. 0 < nsum f y"
proof (induction ks)
  case (Cons y ys)
  then show ?case by (cases "0 < nsum f y") auto
qed simp

lemma collect_evictable:
  "ref_ok L x \<Longrightarrow> 0 < nsum esz x \<Longrightarrow> collect x \<noteq> []"
proof (induction x)
  case (RNode d ks)
  show ?case
  proof (cases "nd_ref d = 0")
    case True
    then show ?thesis using collect_nonempty [OF RNode.prems(1)] by simp
  next
    case False
    then have "esz d = 0" by (simp add: esz_def)
    then have "0 < ksum esz ks" using RNode.prems(2) by simp
    then obtain y where y: "y \<in> set ks" "0 < nsum esz y" using ksum_pos by blast
    then have "ref_ok L y" using RNode.prems(1) by (auto simp: ref_ok_RNode refs_ok_def)
    then have "collect y \<noteq> []" using RNode.IH y by blast
    moreover have "ks \<noteq> []" using y(1) by auto
    ultimately show ?thesis using y(1) by (auto simp: collect_ne)
  qed
qed

lemma collect_root:
  assumes "rn_ref t = 1" "refs_ok L (rn_kids t)" "0 < ksum esz (rn_kids t)"
  shows "collect t \<noteq> []"
proof -
  obtain y where y: "y \<in> set (rn_kids t)" "0 < nsum esz y" using ksum_pos [OF assms(3)] by blast
  then have "collect y \<noteq> []" using assms(2) collect_evictable by (auto simp: refs_ok_def)
  then show ?thesis using y(1) by (cases t) (auto simp: collect.simps)
qed

lemma find_sub:
  "find_node h t = Some x \<Longrightarrow> (wf_node p t \<longrightarrow> wf_node p x) \<and> (ref_ok L t \<longrightarrow> ref_ok L x)"
  "find_kids h ks = Some x \<Longrightarrow> (wf_kids p ks \<longrightarrow> wf_node p x) \<and> (refs_ok L ks \<longrightarrow> ref_ok L x)"
  by (induction h t and h ks rule: find_node_find_kids.induct)
     (auto simp: wf_kids_Cons ref_ok_RNode split: if_splits option.splits)

text \<open>The loop, from any state it can be in: the heap holds exactly the unreferenced
  leaves of the tree.\<close>

definition evicted ::
  "radix \<Rightarrow> rnode \<Rightarrow> int \<Rightarrow> slot list \<Rightarrow> rnode \<Rightarrow> int \<Rightarrow> bool" where
  "evicted r t ev out t' ev' \<longleftrightarrow>
     prefs (rx_page r) (rn_kids t') \<subseteq> prefs (rx_page r) (rn_kids t) \<and>
     ksum vmset (rn_kids t) = mset out + ksum vmset (rn_kids t') \<and>
     ev' = ev - int (length out) \<and> set (nids t') \<subseteq> set (nids t) \<and>
     (\<forall>g \<in> set (nids t'). node_path g t' = node_path g t)"

lemma evicted_refl: "evicted r t ev [] t ev"
  by (simp add: evicted_def)

lemma evicted_trans:
  assumes "evicted r t ev xs t1 e1" "evicted r t1 e1 ys t2 e2"
  shows "evicted r t ev (xs @ ys) t2 e2"
  using assms unfolding evicted_def by auto

lemma evict_step:
  assumes inv: "radix_inv L (r\<lparr>rx_root := t, rx_evictable := ev\<rparr>)"
    and f: "find_node h t = Some x" "rn_ref x = 0" "is_leaf x" "parent_of h t = Some q"
  shows "radix_inv L (r\<lparr>rx_root := del_node h t, rx_evictable := ev - int (length (rn_key x))\<rparr>)"
    "evicted r t ev (rn_val x) (del_node h t) (ev - int (length (rn_key x)))"
    "add_mset (rn_time x, h) (mset (collect (del_node h t))) = now_free q (del_node h t) + mset (collect t)"
proof -
  note J = radix_invD [OF inv, simplified]
  let ?t' = "del_node h t"
  have dc: "del_ok (rx_page r) x q t ?t'"
    using del_correct [OF f(1,4) J(5,4) f(2,3)] by simp
  have hx: "rn_id x = h" using find_id(1) [OF f(1)] .
  have md: "mset (datas t) = add_mset (rn_data x) (mset (datas ?t'))" using dc by (simp add: del_ok_def)
  then have mi: "mset (nids t) = mset (h # nids ?t')" using hx by (simp add: nids_def)
  have ids: "set (nids t) = insert h (set (nids ?t'))" "distinct (nids ?t')" "h \<notin> set (nids ?t')"
    using mset_eq_setD [OF mi] mset_eq_distinct [OF mi] J(5) by auto
  have sm: "ksum g (rn_kids t) = g (rn_data x) + ksum g (rn_kids ?t')" for g :: "ndata \<Rightarrow> 'm::cancel_comm_monoid_add"
  proof -
    have "sum_mset (image_mset g (mset (datas t))) = g (rn_data x) + sum_mset (image_mset g (mset (datas ?t')))"
      by (simp add: md)
    then have "nsum g t = g (rn_data x) + nsum g ?t'"
      by (simp add: nsum_def flip: sum_mset_sum_list mset_map)
    then show ?thesis by (simp add: nsum_rn add.left_commute)
  qed
  have "h \<noteq> rn_id t" using ids(3) by (auto simp: nids_eta)
  then have fk: "find_kids h (rn_kids t) = Some x" using f(1) by (cases t) simp
  have wx: "wf_node (rx_page r) x" and rx: "ref_ok L x"
    using find_sub(2) [OF fk] J(4,8) by auto
  have lv: "length (rn_val x) = length (rn_key x)" using wf_node_page(4) [OF wx J(1)] .
  have cnt: "count L h = 0"
    using rx hx f(2,3) by (cases x) (simp add: ref_ok_RNode is_leaf_def)
  show "radix_inv L (r\<lparr>rx_root := ?t', rx_evictable := ev - int (length (rn_key x))\<rparr>)"
    using J dc ids sm [of esz] sm [of psz] f(2) cnt
    by (auto simp: radix_inv_def del_ok_def esz_def psz_def count_eq_zero_iff)
  show "evicted r t ev (rn_val x) ?t' (ev - int (length (rn_key x)))"
    using dc ids sm [of vmset] lv unfolding evicted_def del_ok_def by (auto simp: vmset_def)
  show "add_mset (rn_time x, h) (mset (collect ?t')) = now_free q ?t' + mset (collect t)"
    using dc hx by (simp add: del_ok_def leaf_entry_def)
qed

lemma evict_loop_correct:
  assumes "radix_inv L (r\<lparr>rx_root := t, rx_evictable := ev\<rparr>)" "mset heap = mset (collect t)"
    "int need \<le> int n + ev"
  shows "\<exists>out t' ev'. evict_loop need heap t acc n ev = Inr (acc @ out, t', ev') \<and>
     radix_inv L (r\<lparr>rx_root := t', rx_evictable := ev'\<rparr>) \<and> need \<le> n + length out \<and>
     evicted r t ev out t' ev'"
  using assms
proof (induction need heap t acc n ev rule: evict_loop.induct)
  case (1 need heap t acc n ev)
  show ?case
  proof (cases "need \<le> n")
    case True
    then have "evict_loop need heap t acc n ev = Inr (acc @ [], t, ev)" by (simp add: evict_loop.simps)
    then show ?thesis
      using "1.prems"(1) evicted_refl True by (intro exI [of _ "[]"] exI [of _ t] exI [of _ ev]) simp
  next
    case False
    note J = radix_invD [OF "1.prems"(1), simplified]
    have "0 < ksum esz (rn_kids t)" using False "1.prems"(3) J(9) by simp
    then have "collect t \<noteq> []" using collect_root J(8,11) by blast
    then have "heap \<noteq> []" using "1.prems"(2) by auto
    then obtain e heap' where hp: "heap_pop heap = Some (e, heap')"
      using heap_pop_None by (cases "heap_pop heap") auto
    have mh: "mset heap = add_mset e (mset heap')" using heap_pop_Some [OF hp] by simp
    have "e \<in> set heap" using arg_cong [OF mh, of set_mset] by simp
    then have ein: "e \<in> set (collect t)" using mset_eq_setD [OF "1.prems"(2)] by simp
    obtain ts h where e: "e = (ts, h)" by (cases e)
    obtain x where x: "find_node h t = Some x" "rn_ref x = 0" "is_leaf x" "ts = rn_time x"
        "x = t \<or> (\<exists>q. parent_of h t = Some q)"
      using collect_entry [OF ein [unfolded e] J(5)] by blast
    then obtain q where q: "parent_of h t = Some q" using J(11) by auto
    let ?t' = "del_node h t" and ?ev' = "ev - int (length (rn_key x))"
    define heap2 where "heap2 = (case find_node q ?t' of None \<Rightarrow> heap'
        | Some y \<Rightarrow> if is_leaf y \<and> rn_ref y = 0 then (rn_time y, q) # heap' else heap')"
    note S = evict_step [OF "1.prems"(1) x(1-3) q]
    have unf: "evict_loop need heap t acc n ev =
        evict_loop need heap2 ?t' (acc @ rn_val x) (n + length (rn_key x)) ?ev'"
      using False hp e x q by (subst evict_loop.simps) (simp add: heap2_def Let_def)
    have m2: "mset heap2 = mset (collect ?t')"
    proof -
      have "add_mset e (mset heap2) = now_free q ?t' + add_mset e (mset heap')"
        by (simp add: heap2_def now_free_def split: option.split)
      also have "\<dots> = now_free q ?t' + mset (collect t)" using mh "1.prems"(2) by simp
      also have "\<dots> = add_mset e (mset (collect ?t'))" using S(3) x(4) e by simp
      finally show ?thesis by simp
    qed
    have wx: "length (rn_val x) = length (rn_key x)"
    proof -
      have "?ev' = ev - int (length (rn_val x))" using S(2) by (simp add: evicted_def)
      then show ?thesis by simp
    qed
    have "\<exists>out t' ev'. evict_loop need heap2 ?t' (acc @ rn_val x) (n + length (rn_key x)) ?ev' =
          Inr ((acc @ rn_val x) @ out, t', ev') \<and>
        radix_inv L (r\<lparr>rx_root := t', rx_evictable := ev'\<rparr>) \<and>
        need \<le> n + length (rn_key x) + length out \<and> evicted r ?t' ?ev' out t' ev'"
    proof (rule "1.IH" [OF False hp [unfolded e] refl])
      show "find_node (snd (ts, h)) t = Some x" "parent_of (snd (ts, h)) t = Some q"
        using x q by simp_all
      show "\<not> \<not> (rn_ref x = 0 \<and> is_leaf x)" using x by simp
    qed (use heap2_def S(1) m2 "1.prems"(3) in simp_all)
    then obtain out t' ev' where o: "evict_loop need heap2 ?t' (acc @ rn_val x) (n + length (rn_key x)) ?ev' =
          Inr ((acc @ rn_val x) @ out, t', ev')"
        "radix_inv L (r\<lparr>rx_root := t', rx_evictable := ev'\<rparr>)"
        "need \<le> n + length (rn_key x) + length out" "evicted r ?t' ?ev' out t' ev'" by blast
    show ?thesis
      using unf o evicted_trans [OF S(2) o(4)] wx
      by (intro exI [of _ "rn_val x @ out"] exI [of _ t'] exI [of _ ev']) simp
  qed
qed

end
