(* ===== verification/Prefix_Cache.thy ===== *)
theory Prefix_Cache
  imports Radix_Laws
begin

text \<open>
  \<open>kvcache/base.py\<close>, \<open>BasePrefixCache\<close>: the interface the scheduler programs
  against, as the locale \<open>prefix_cache\<close>, with what a client may conclude from its
  laws. \<open>RadixPrefixCache\<close> and \<open>NaiveKVCache\<close> both satisfy it. The properties of the
  radix cache follow.
\<close>

section \<open>The interface\<close>

text \<open>\<open>good L s\<close>: \<open>s\<close> is consistent and \<open>L\<close> holds one entry per outstanding lock;
  \<open>spans s\<close>: the cached prefixes with their slots; \<open>live s\<close>: the nodes a handle may
  name; \<open>reads h s\<close>: \<open>get_matched_indices\<close>.\<close>

locale prefix_cache =
  fixes good :: "'n multiset \<Rightarrow> 's \<Rightarrow> bool"
    and spans :: "'s \<Rightarrow> (token list \<times> slot list) set"
    and live :: "'s \<Rightarrow> 'n set"
    and reads :: "nat \<times> 'n \<Rightarrow> 's \<Rightarrow> slot list option"
    and look :: "nat \<Rightarrow> token list \<Rightarrow> 's \<Rightarrow> (nat \<times> (nat \<times> 'n)) \<times> 's"
    and put :: "nat \<Rightarrow> nat \<Rightarrow> token list \<Rightarrow> slot list \<Rightarrow> 's \<Rightarrow> ((nat \<times> (nat \<times> 'n)) \<times> 's) res"
    and hold :: "nat \<times> 'n \<Rightarrow> bool \<Rightarrow> 's \<Rightarrow> 's res"
    and drop_lru :: "nat \<Rightarrow> 's \<Rightarrow> (slot list \<times> 's) res"
    and evictable :: "'s \<Rightarrow> int"
  assumes locked_live: "good L s \<Longrightarrow> set_mset L \<subseteq> live s"
    and look_keeps: "good L s \<Longrightarrow> look t ids s = ((n, h), s') \<Longrightarrow>
        good L s' \<and> spans s' = spans s \<and> evictable s' = evictable s \<and> snd h \<in> live s' \<and>
        (\<forall>g V. snd g \<in> live s \<longrightarrow> reads g s = Some V \<longrightarrow> reads g s' = Some V)"
    and look_longest: "good L s \<Longrightarrow> look t ids s = ((n, h), s') \<Longrightarrow>
        n \<le> length ids \<and> (\<exists>V. reads h s' = Some V \<and> (take n ids, V) \<in> spans s) \<and>
        (\<forall>K V. (K, V) \<in> spans s \<longrightarrow> prefix K ids \<longrightarrow> length K \<le> n)"
    and put_keeps: "good L s \<Longrightarrow> put t now ids idx s = Inr ((n, h), s') \<Longrightarrow>
        good L s' \<and> spans s \<subseteq> spans s' \<and> snd h \<in> live s' \<and>
        (\<forall>g V. snd g \<in> live s \<longrightarrow> reads g s = Some V \<longrightarrow> reads g s' = Some V)"
    and hold_ok: "good L s \<Longrightarrow> snd h \<in> live s \<Longrightarrow>
        \<exists>s'. hold h False s = Inr s' \<and> good (add_mset (snd h) L) s' \<and> spans s' = spans s \<and>
             live s' = live s \<and> (\<forall>g V. reads g s = Some V \<longrightarrow> reads g s' = Some V)"
    and release_ok: "good (add_mset (snd h) L) s \<Longrightarrow>
        \<exists>s'. hold h True s = Inr s' \<and> good L s' \<and> spans s' = spans s \<and>
             live s' = live s \<and> (\<forall>g V. reads g s = Some V \<longrightarrow> reads g s' = Some V)"
    and drop_ok: "good L s \<Longrightarrow> int need \<le> evictable s \<Longrightarrow>
        \<exists>out s'. drop_lru need s = Inr (out, s') \<and> good L s' \<and> need \<le> length out \<and>
             spans s' \<subseteq> spans s \<and> evictable s' = evictable s - int (length out) \<and>
             (\<forall>g V. snd g \<in># L \<longrightarrow> reads g s = Some V \<longrightarrow> reads g s' = Some V)"
begin

text \<open>Admission: match a prompt, lock the handle. Whatever is evicted, matched or
  inserted after that, the handle reads the slots it was matched with.\<close>

lemma admit_ok:
  assumes "good L s" "look t ids s = ((n, h), s1)"
  obtains s2 V where "hold h False s1 = Inr s2" "good (add_mset (snd h) L) s2" "spans s2 = spans s"
    "reads h s2 = Some V" "(take n ids, V) \<in> spans s"
proof -
  have k: "good L s1" "spans s1 = spans s" "snd h \<in> live s1"
    using look_keeps [OF assms] by auto
  obtain V where V: "reads h s1 = Some V" "(take n ids, V) \<in> spans s"
    using look_longest [OF assms] by blast
  obtain s2 where "hold h False s1 = Inr s2" "good (add_mset (snd h) L) s2" "spans s2 = spans s1"
      "reads h s2 = Some V"
    using hold_ok [OF k(1,3)] V(1) by blast
  then show ?thesis using that V k(2) by simp
qed

text \<open>Operations other requests may run while a handle is locked.\<close>

inductive others :: "'n multiset \<Rightarrow> 's \<Rightarrow> 's \<Rightarrow> bool" for L where
  stay: "others L s s"
| look: "others L s s1 \<Longrightarrow> look t ids s1 = (r, s2) \<Longrightarrow> others L s s2"
| put: "others L s s1 \<Longrightarrow> put t now ids idx s1 = Inr (r, s2) \<Longrightarrow> others L s s2"
| evict: "others L s s1 \<Longrightarrow> int need \<le> evictable s1 \<Longrightarrow> drop_lru need s1 = Inr (out, s2) \<Longrightarrow> others L s s2"

lemma others_keep:
  assumes "others L s s'" "good L s" "snd g \<in># L" "reads g s = Some V"
  shows "good L s' \<and> reads g s' = Some V"
  using assms
proof (induction rule: others.induct)
  case (look s s1 t ids r s2)
  then have I: "good L s1" "reads g s1 = Some V" by auto
  obtain n h where r: "r = (n, h)" by (cases r)
  have "snd g \<in> live s1" using locked_live [OF I(1)] look.prems(2) by auto
  then show ?case using look_keeps [OF I(1) look.hyps(2) [unfolded r]] I(2) by blast
next
  case (put s s1 t now ids idx r s2)
  then have I: "good L s1" "reads g s1 = Some V" by auto
  obtain n h where r: "r = (n, h)" by (cases r)
  have "snd g \<in> live s1" using locked_live [OF I(1)] put.prems(2) by auto
  then show ?case using put_keeps [OF I(1) put.hyps(2) [unfolded r]] I(2) by blast
next
  case (evict s s1 need out s2)
  then have I: "good L s1" "reads g s1 = Some V" by auto
  obtain out' s' where "drop_lru need s1 = Inr (out', s')" "good L s'" "reads g s' = Some V"
    using drop_ok [OF I(1) evict.hyps(2)] evict.prems(2) I(2) by blast
  then show ?case using evict.hyps(3) by simp
qed auto

end

section \<open>The radix cache is one\<close>

abbreviation radix_live :: "radix \<Rightarrow> nat set" where
  "radix_live r \<equiv> set (nids (rx_root r))"

lemma evict_correct:
  assumes inv: "radix_inv L r" and le: "int need \<le> rx_evictable r"
  obtains out r' where "evict need r = Inr (out, r')" "radix_inv L r'" "need \<le> length out"
    "cached r' \<subseteq> cached r" "rx_evictable r' = rx_evictable r - int (length out)"
    "rx_protected r' = rx_protected r"
    "ksum vmset (rn_kids (rx_root r)) = mset out + ksum vmset (rn_kids (rx_root r'))"
    "\<And>g. g \<in> radix_live r' \<Longrightarrow> node_path g (rx_root r') = node_path g (rx_root r)"
proof (cases "need = 0")
  case True
  then show ?thesis using that [of "[]" r] inv by (simp add: evict_def)
next
  case False
  have i: "radix_inv L (r\<lparr>rx_root := rx_root r, rx_evictable := rx_evictable r\<rparr>)" using inv by simp
  obtain out t' ev' where o: "evict_loop need (collect (rx_root r)) (rx_root r) [] 0 (rx_evictable r) =
        Inr (out, t', ev')" "radix_inv L (r\<lparr>rx_root := t', rx_evictable := ev'\<rparr>)" "need \<le> length out"
      "evicted r (rx_root r) (rx_evictable r) out t' ev'"
    using evict_loop_correct [OF i refl, of need 0 "[]"] le by auto
  let ?r = "r\<lparr>rx_root := t', rx_evictable := ev'\<rparr>"
  have "evict need r = Inr (out, ?r)" using False le o(1) by (simp add: evict_def)
  then show ?thesis using that [of out ?r] o by (simp add: evicted_def cached_def)
qed

lemma same_span_reads:
  assumes "\<And>g. same_span (node_path g (rx_root r)) (node_path g (rx_root r'))"
    "radix_inv L r" "radix_inv L' r'" "get_matched_indices g r = Some V"
  shows "get_matched_indices g r' = Some V"
  using same_span_indices [of "snd g" r r' "fst g" V] assms radix_invD(3) [OF assms(2)]
    radix_invD(3) [OF assms(3)] by simp

interpretation rx: prefix_cache radix_inv cached radix_live get_matched_indices match_prefix
  insert_prefix lock_handle evict rx_evictable
proof
  fix L r
  assume I: "radix_inv L r"
  show "set_mset L \<subseteq> radix_live r" using radix_invD(7) [OF I] .
  show "radix_inv L r' \<and> cached r' = cached r \<and> rx_evictable r' = rx_evictable r \<and> snd h \<in> radix_live r' \<and>
      (\<forall>g V. snd g \<in> radix_live r \<longrightarrow> get_matched_indices g r = Some V \<longrightarrow> get_matched_indices g r' = Some V)"
    if m: "match_prefix t ids r = ((n, h), r')" for t ids n h r'
    using match_prefix_inv [OF I m] match_prefix_keeps [OF I m]
      same_span_reads [OF match_prefix_keeps(4) [OF I m] I match_prefix_inv [OF I m]]
    by (auto simp: size_info_def)
  show "n \<le> length ids \<and> (\<exists>V. get_matched_indices h r' = Some V \<and> (take n ids, V) \<in> cached r) \<and>
      (\<forall>K V. (K, V) \<in> cached r \<longrightarrow> prefix K ids \<longrightarrow> length K \<le> n)"
    if m: "match_prefix t ids r = ((n, h), r')" for t ids n h r'
    using match_prefix_longest [OF I m] by blast
  show "radix_inv L r' \<and> cached r \<subseteq> cached r' \<and> snd h \<in> radix_live r' \<and>
      (\<forall>g V. snd g \<in> radix_live r \<longrightarrow> get_matched_indices g r = Some V \<longrightarrow> get_matched_indices g r' = Some V)"
    if m: "insert_prefix t now ids idx r = Inr ((n, h), r')" for t now ids idx n h r'
  proof -
    obtain a b where h: "h = (a, b)" by (cases h)
    note C = insert_prefix_correct [OF I m [unfolded h]]
    have "\<And>g. same_span (node_path g (rx_root r)) (node_path g (rx_root r'))"
      using C(2) by (simp add: inserted_def)
    from same_span_reads [OF this I C(1)] show ?thesis
      using C by (auto simp: inserted_def h)
  qed
  show "\<exists>r'. lock_handle h False r = Inr r' \<and> radix_inv (add_mset (snd h) L) r' \<and> cached r' = cached r \<and>
      radix_live r' = radix_live r \<and>
      (\<forall>g V. get_matched_indices g r = Some V \<longrightarrow> get_matched_indices g r' = Some V)"
    if h: "snd h \<in> radix_live r" for h
  proof -
    obtain r' where r': "lock_handle (fst h, snd h) False r = Inr r'" "radix_inv (add_mset (snd h) L) r'"
        "lock_keeps r r'"
      using lock_handle_correct [OF I h] by metis
    then have "\<And>g. same_span (node_path g (rx_root r)) (node_path g (rx_root r'))"
      by (simp add: lock_keeps_def)
    from same_span_reads [OF this I r'(2)] r' show ?thesis by (auto simp: lock_keeps_def)
  qed
  show "\<exists>out r'. evict need r = Inr (out, r') \<and> radix_inv L r' \<and> need \<le> length out \<and> cached r' \<subseteq> cached r \<and>
      rx_evictable r' = rx_evictable r - int (length out) \<and>
      (\<forall>g V. snd g \<in># L \<longrightarrow> get_matched_indices g r = Some V \<longrightarrow> get_matched_indices g r' = Some V)"
    if le: "int need \<le> rx_evictable r" for need
  proof -
    obtain out r' where o: "evict need r = Inr (out, r')" "radix_inv L r'" "need \<le> length out"
      "cached r' \<subseteq> cached r" "rx_evictable r' = rx_evictable r - int (length out)"
      "\<And>g. g \<in> radix_live r' \<Longrightarrow> node_path g (rx_root r') = node_path g (rx_root r)"
      using evict_correct [OF I le] by metis
    have "get_matched_indices g r' = get_matched_indices g r" if "snd g \<in># L" for g
      using o(6) radix_invD(7) [OF o(2)] that by (auto simp: get_matched_indices_def)
    then show ?thesis using o(1-5) by auto
  qed
next
  fix L r and h :: handle
  assume I: "radix_inv (add_mset (snd h) L) r"
  obtain r' where r': "lock_handle (fst h, snd h) True r = Inr r'" "radix_inv L r'" "lock_keeps r r'"
    using unlock_handle_correct [OF I] by metis
  then have "\<And>g. same_span (node_path g (rx_root r)) (node_path g (rx_root r'))"
    by (simp add: lock_keeps_def)
  from same_span_reads [OF this I r'(2)] r'
  show "\<exists>r'. lock_handle h True r = Inr r' \<and> radix_inv L r' \<and> cached r' = cached r \<and>
      radix_live r' = radix_live r \<and>
      (\<forall>g V. get_matched_indices g r = Some V \<longrightarrow> get_matched_indices g r' = Some V)"
    by (auto simp: lock_keeps_def)
qed

section \<open>So is the naive cache\<close>

text \<open>\<open>kvcache/naive_cache.py\<close>: nothing is shared. Its state is the pair of counters;
  a handle has no back-reference.\<close>

type_synonym naive = "int \<times> int"

definition naive_init :: naive where
  "naive_init = (0, 0)"

definition naive_match :: "nat \<Rightarrow> token list \<Rightarrow> naive \<Rightarrow> (nat \<times> (nat \<times> unit)) \<times> naive" where
  "naive_match tic ids s = ((0, (0, ())), s)"

definition naive_insert ::
  "nat \<Rightarrow> nat \<Rightarrow> token list \<Rightarrow> slot list \<Rightarrow> naive \<Rightarrow> ((nat \<times> (nat \<times> unit)) \<times> naive) res" where
  "naive_insert tic now ids idx s = Inr ((0, (0, ())), s)"

definition naive_lock :: "nat \<times> unit \<Rightarrow> bool \<Rightarrow> naive \<Rightarrow> naive res" where
  "naive_lock h unlock s = Inr s"

definition naive_evict :: "nat \<Rightarrow> naive \<Rightarrow> (slot list \<times> naive) res" where
  "naive_evict need s = (if need \<noteq> 0 then Inl RuntimeError else Inr ([], s))"

definition naive_reset :: "naive \<Rightarrow> naive" where
  "naive_reset s = (0, 0)"

definition naive_indices :: "nat \<times> unit \<Rightarrow> naive \<Rightarrow> slot list option" where
  "naive_indices h s = Some []"

interpretation nv: prefix_cache "\<lambda>L s. s = naive_init" "\<lambda>_. {([], [])}" "\<lambda>_. UNIV" naive_indices
  naive_match naive_insert naive_lock naive_evict "\<lambda>s. fst s"
  by unfold_locales
     (auto simp: naive_match_def naive_insert_def naive_lock_def naive_evict_def naive_indices_def
        naive_init_def)

section \<open>Properties of the radix cache\<close>

text \<open>C6. Longest cached prefix. \<open>match_prefix\<close> finds the longest page-aligned prefix
  of the prompt that is cached: every cached prefix of the prompt is at most as long, the
  handle reads exactly the slots cached for it, and the cache content and both size
  counters are as before (a split of a node does not show).\<close>

theorem radix_match_longest:
  assumes inv: "radix_inv L r" and m: "match_prefix tic ids r = ((n, h), r')"
  shows "n \<le> length ids \<and> rx_page r dvd n \<and> fst h = n
    \<and> (\<exists>V. get_matched_indices h r' = Some V \<and> length V = n \<and> (take n ids, V) \<in> cached r)
    \<and> (\<forall>K V. (K, V) \<in> cached r \<and> prefix K ids \<longrightarrow> length K \<le> n)
    \<and> cached r' = cached r \<and> size_info r' = size_info r \<and> radix_inv L r'"
proof -
  obtain V where V: "get_matched_indices h r' = Some V" "(take n ids, V) \<in> cached r"
    using match_prefix_longest(3) [OF inv m] by blast
  have n: "n \<le> length ids" using match_prefix_longest(1) [OF inv m] .
  have "length V = n" using cached_aligned [OF inv V(2)] n by simp
  then show ?thesis
    using V n match_prefix_longest(2,4) [OF inv m] match_prefix_keeps [OF inv m] match_prefix_inv [OF inv m]
    by blast
qed

definition demo_radix :: radix where
  "demo_radix =
     (case insert_prefix 5 6 [1, 2, 3, 4, 9] [11, 12, 13, 14, 15] (radix_init 2 0 1) of
        Inr (_, r) \<Rightarrow> r | Inl _ \<Rightarrow> radix_init 2 0 1)"

lemma demo_insert:
  "insert_prefix 5 6 [1, 2, 3, 4, 9] [11, 12, 13, 14, 15] (radix_init 2 0 1) = Inr ((0, (4, 1)), demo_radix)"
  by (simp add: demo_radix_def insert_prefix_def radix_init_def new_root_def Let_def nalign_def)

lemma demo_inv: "radix_inv {#} demo_radix"
  by (rule insert_prefix_correct(1) [OF radix_init_inv demo_insert]) simp

lemma radix_match_longest_witness:
  "fst (match_prefix 7 [1, 2, 3, 8] demo_radix) = (2, (2, 2))
   \<and> (\<exists>V. get_matched_indices (2, 2) (snd (match_prefix 7 [1, 2, 3, 8] demo_radix)) = Some V \<and> length V = 2)"
proof -
  have m: "fst (match_prefix 7 [1, 2, 3, 8] demo_radix) = (2, (2, 2))"
    by code_simp
  then obtain r' where "match_prefix 7 [1, 2, 3, 8] demo_radix = ((2, (2, 2)), r')"
    by (cases "match_prefix 7 [1, 2, 3, 8] demo_radix") simp
  then show ?thesis using radix_match_longest [OF demo_inv, of 7 "[1, 2, 3, 8]"] by auto
qed

text \<open>C18. Insert then match. After a committed sequence is inserted, any prompt that
  starts with it is matched at least up to its last full page, and the handle's slots on
  that part are the slots already cached for the old prefix followed by the new ones; what
  was cached before is still cached with the same slots.\<close>

theorem radix_insert_then_match:
  assumes inv: "radix_inv L r"
    and ins: "insert_prefix tic now ids idx r = Inr ((n, (m, h)), r1)"
    and pre: "prefix (take m ids) prompt"
    and mt: "match_prefix tic' prompt r1 = ((k, g), r2)"
  shows "m = nalign (length ids) (rx_page r) \<and> m \<le> k \<and> cached r \<subseteq> cached r1
    \<and> (\<exists>base V. (take n ids, base) \<in> cached r \<and> get_matched_indices g r2 = Some V
          \<and> take m V = base @ drop n (take m idx))"
proof -
  note C = insert_prefix_correct [OF inv ins]
  have I: "m = nalign (length ids) (rx_page r)" "n \<le> m" "rx_page r dvd n" "rx_page r1 = rx_page r"
    using C(2) by (auto simp: inserted_def)
  obtain base where b: "(take n ids, base) \<in> cached r"
    "cached r1 = cached r \<union> {(take j ids, base @ take (j - n) (drop n idx)) | j. n < j \<and> j \<le> m \<and> rx_page r dvd j}"
    using C(2) by (auto simp: inserted_def)
  have dm: "rx_page r dvd m" unfolding I(1) by simp
  have mem: "(take m ids, base @ drop n (take m idx)) \<in> cached r1"
  proof (cases "n = m")
    case True
    then show ?thesis using b by simp
  next
    case False
    then have "(take m ids, base @ take (m - n) (drop n idx)) \<in> cached r1"
      using b(2) dm I(2) by (auto intro!: exI [of _ m])
    then show ?thesis by (simp add: drop_take)
  qed
  have lm: "length (take m ids) = m" unfolding I(1) by simp
  have mk: "m \<le> k"
    using match_prefix_longest(4) [OF C(1) mt mem pre] lm by simp
  obtain V where V: "get_matched_indices g r2 = Some V" "(take k prompt, V) \<in> cached r1"
    using match_prefix_longest(3) [OF C(1) mt] by blast
  have "(take m (take k prompt), take m V) \<in> cached r1"
  proof (cases "m = 0")
    case False
    then have "take k prompt \<noteq> []" using mk pre lm by (cases prompt) auto
    then obtain y where y: "y \<in> set (rn_kids (rx_root r1))" "(take k prompt, V) \<in> pref (rx_page r1) y"
      using V(2) by (auto simp: cached_def prefs_def)
    have "wf_node (rx_page r1) y" using y(1) radix_invD(4) [OF C(1)] by (simp add: wf_kids_def)
    then have "(take m (take k prompt), take m V) \<in> pref (rx_page r1) y"
      using y(2) False dm I(4) radix_invD(1) [OF C(1)] by (intro pref_closed) auto
    then show ?thesis using y(1) by (auto simp: cached_def prefs_def)
  qed simp
  moreover have "take m (take k prompt) = take m ids"
    using pre mk lm by (auto simp: prefix_def min_absorb1)
  ultimately have "take m V = base @ drop n (take m idx)"
    using cached_functional [OF C(1)] mem by metis
  then show ?thesis using I(1) mk b V(1) by blast
qed

lemma radix_insert_then_match_witness:
  "\<exists>g r2 V. match_prefix 7 [1, 2, 3, 4, 5, 6] demo_radix = ((4, g), r2)
     \<and> get_matched_indices g r2 = Some V \<and> take 4 V = [11, 12, 13, 14]"
proof -
  obtain k g r2 where m: "match_prefix 7 [1, 2, 3, 4, 5, 6] demo_radix = ((k, g), r2)"
    by (metis prod.exhaust)
  have "fst (fst (match_prefix 7 [1, 2, 3, 4, 5, 6] demo_radix)) = 4" by code_simp
  then have k: "k = 4" using m by simp
  have p: "prefix (take 4 [1, 2, 3, 4, 9]) [1, 2, 3, 4, 5, 6 :: int]" by simp
  obtain base V where V: "(take 0 [1, 2, 3, 4, 9], base) \<in> cached (radix_init 2 0 1)"
      "get_matched_indices g r2 = Some V" "take 4 V = base @ drop 0 (take 4 [11, 12, 13, 14, 15])"
    using radix_insert_then_match [OF radix_init_inv demo_insert p m] by auto
  have "base = []" using V(1) by (simp add: cached_def radix_init_def new_root_def)
  then show ?thesis using m k V by auto
qed

text \<open>C7. A locked prefix is stable. A request that matched a prompt and locked the
  handle keeps reading the same slots, those cached for its prefix at admission, through
  every sequence of matches, inserts and evictions that other requests run, and the lock
  itself never fails.\<close>

theorem radix_locked_prefix_stable:
  assumes "radix_inv L r" "match_prefix tic ids r = ((n, h), r1)"
  shows "\<exists>r2 V. lock_handle h False r1 = Inr r2 \<and> (take n ids, V) \<in> cached r
     \<and> (\<forall>r3. rx.others (add_mset (snd h) L) r2 r3 \<longrightarrow>
           get_matched_indices h r3 = Some V \<and> radix_inv (add_mset (snd h) L) r3)"
proof -
  obtain r2 V where a: "lock_handle h False r1 = Inr r2" "radix_inv (add_mset (snd h) L) r2"
    "get_matched_indices h r2 = Some V" "(take n ids, V) \<in> cached r"
    using rx.admit_ok [OF assms] by metis
  have "get_matched_indices h r3 = Some V \<and> radix_inv (add_mset (snd h) L) r3"
    if "rx.others (add_mset (snd h) L) r2 r3" for r3
    using rx.others_keep [OF that a(2) _ a(3)] by simp
  then show ?thesis using a by blast
qed

lemma radix_locked_prefix_stable_witness:
  "fst (match_prefix 7 [1, 2, 3, 4] demo_radix) = (4, (4, 1))
   \<and> (\<exists>r2 V. lock_handle (4, 1) False (snd (match_prefix 7 [1, 2, 3, 4] demo_radix)) = Inr r2
        \<and> ([1, 2, 3, 4], V) \<in> cached demo_radix \<and> get_matched_indices (4, 1) r2 = Some V)"
proof -
  have m: "fst (match_prefix 7 [1, 2, 3, 4] demo_radix) = (4, (4, 1))" by code_simp
  then obtain r1 where r1: "match_prefix 7 [1, 2, 3, 4] demo_radix = ((4, (4, 1)), r1)"
    by (cases "match_prefix 7 [1, 2, 3, 4] demo_radix") simp
  obtain r2 V where "lock_handle (4, 1) False r1 = Inr r2" "(take 4 [1, 2, 3, 4], V) \<in> cached demo_radix"
    "rx.others (add_mset 1 {#}) r2 r2 \<longrightarrow> get_matched_indices (4, 1) r2 = Some V"
    using radix_locked_prefix_stable [OF demo_inv r1] by auto
  then show ?thesis using m r1 rx.others.stay by auto
qed

text \<open>C17. Eviction. A request for at most \<open>evictable_size\<close> tokens always succeeds: it
  returns at least that many slots, each of them taken out of the tree (the slots of the tree
  before are the returned ones together with those it still holds), lowers
  \<open>evictable_size\<close> by exactly their number, caches nothing new, and leaves the path of
  every remaining node, so of every locked handle, as it was.\<close>

theorem radix_evict_reclaims:
  assumes "radix_inv L r" "int need \<le> rx_evictable r"
  shows "\<exists>out r'. evict need r = Inr (out, r') \<and> need \<le> length out \<and> radix_inv L r'
     \<and> mset (concat (map nd_val (kdatas (rn_kids (rx_root r))))) =
         mset out + mset (concat (map nd_val (kdatas (rn_kids (rx_root r')))))
     \<and> rx_evictable r' = rx_evictable r - int (length out) \<and> rx_protected r' = rx_protected r
     \<and> cached r' \<subseteq> cached r
     \<and> (\<forall>g n. g \<in># L \<longrightarrow> get_matched_indices (n, g) r' = get_matched_indices (n, g) r)"
proof -
  obtain out r' where o: "evict need r = Inr (out, r')" "radix_inv L r'" "need \<le> length out"
    "cached r' \<subseteq> cached r" "rx_evictable r' = rx_evictable r - int (length out)"
    "rx_protected r' = rx_protected r"
    "ksum vmset (rn_kids (rx_root r)) = mset out + ksum vmset (rn_kids (rx_root r'))"
    "\<And>g. g \<in> radix_live r' \<Longrightarrow> node_path g (rx_root r') = node_path g (rx_root r)"
    using evict_correct [OF assms] by metis
  have v: "ksum vmset ks = mset (concat (map nd_val (kdatas ks)))" for ks
    by (simp add: ksum_def mset_concat comp_def vmset_def [abs_def])
  have "\<forall>g n. g \<in># L \<longrightarrow> get_matched_indices (n, g) r' = get_matched_indices (n, g) r"
    using o(8) radix_invD(7) [OF o(2)] by (auto simp: get_matched_indices_def)
  then show ?thesis using o unfolding v by blast
qed

lemma radix_evict_reclaims_witness:
  "\<exists>out r'. evict 3 demo_radix = Inr (out, r') \<and> 3 \<le> length out \<and> rx_evictable r' = 4 - int (length out)"
proof -
  have e: "rx_evictable demo_radix = 4" by code_simp
  then show ?thesis using radix_evict_reclaims [OF demo_inv, of 3] by auto
qed

text \<open>The reference counts are determined by the outstanding locks.\<close>

lemma erase_ref_unique:
  "erase x = erase y \<Longrightarrow> ref_ok L x \<Longrightarrow> ref_ok L y \<Longrightarrow> x = y"
proof (induction x arbitrary: y)
  case (RNode d ks)
  obtain e ls where y: "y = RNode e ls" by (cases y)
  have er: "d\<lparr>nd_ref := 0\<rparr> = e\<lparr>nd_ref := 0\<rparr>" "map erase ks = map erase ls"
    using RNode.prems(1) y by auto
  have r: "refs_ok L ks" "refs_ok L ls" using RNode.prems(2,3) y by (auto simp: ref_ok_RNode)
  have len: "length ks = length ls" using er(2) map_eq_imp_length_eq by blast
  have kl: "ks = ls"
  proof (rule nth_equalityI [OF len])
    fix i assume i: "i < length ks"
    have "erase (ks ! i) = erase (ls ! i)" using er(2) i len by (metis nth_map)
    then show "ks ! i = ls ! i" using RNode.IH [of "ks ! i" "ls ! i"] r i len by (simp add: refs_ok_def)
  qed
  have "nd_id d = nd_id e" using er(1) by (metis ndata.select_convs(1) ndata.surjective ndata.update_convs(4))
  then have "nd_ref d = nd_ref e" using RNode.prems(2,3) y kl by (simp add: ref_ok_RNode)
  then have "d = e" using er(1) by (cases d; cases e) simp
  then show ?case using y kl by simp
qed

text \<open>Lock and unlock. Unlocking a handle undoes its lock exactly: no assertion
  fires, and every reference count and both size counters are back at their values.\<close>

theorem radix_lock_unlock:
  assumes inv: "radix_inv L r" and h: "h \<in> set (nids (rx_root r))"
  shows "\<exists>r1. lock_handle (n, h) False r = Inr r1 \<and> lock_handle (n, h) True r1 = Inr r"
proof -
  obtain r1 where r1: "lock_handle (n, h) False r = Inr r1" "radix_inv (add_mset h L) r1" "lock_keeps r r1"
    using lock_handle_correct [OF inv h] by metis
  obtain r2 where r2: "lock_handle (n, h) True r1 = Inr r2" "radix_inv L r2" "lock_keeps r1 r2"
    using unlock_handle_correct [OF r1(2)] by metis
  have same: "rn_data (rx_root b) = rn_data (rx_root a) \<and> map erase (rn_kids (rx_root b)) = map erase (rn_kids (rx_root a))
      \<and> rx_page b = rx_page a \<and> rx_counter b = rx_counter a"
    if "lock_handle (n, h) u a = Inr b" for u a b
    using that
    by (auto simp: lock_handle_def bind_res_Inr split: if_splits option.splits dest!: up_erase(2))
  have e: "rn_data (rx_root r2) = rn_data (rx_root r)"
    "map erase (rn_kids (rx_root r2)) = map erase (rn_kids (rx_root r))"
    "rx_page r2 = rx_page r" "rx_counter r2 = rx_counter r"
    using same [OF r1(1)] same [OF r2(1)] by auto
  note I = radix_invD [OF inv] and J = radix_invD [OF r2(2)]
  have "rn_kids (rx_root r2) = rn_kids (rx_root r)"
  proof (rule nth_equalityI)
    show len: "length (rn_kids (rx_root r2)) = length (rn_kids (rx_root r))"
      using e(2) map_eq_imp_length_eq by blast
    fix i assume i: "i < length (rn_kids (rx_root r2))"
    then have "erase (rn_kids (rx_root r2) ! i) = erase (rn_kids (rx_root r) ! i)"
      using e(2) len by (metis nth_map)
    then show "rn_kids (rx_root r2) ! i = rn_kids (rx_root r) ! i"
      by (rule erase_ref_unique [where L = L]) (use I(8) J(8) i len in \<open>simp_all add: refs_ok_def\<close>)
  qed
  then have "r2 = r"
    using e I(9,10) J(9,10) by (cases r; cases r2) (auto intro: rnode.expand)
  then show ?thesis using r1(1) r2(1) by blast
qed

lemma radix_lock_unlock_witness:
  "\<exists>r1. lock_handle (4, 1) False demo_radix = Inr r1 \<and> lock_handle (4, 1) True r1 = Inr demo_radix"
  by (rule radix_lock_unlock [OF demo_inv]) code_simp

end
