(* ===== verification/Requests.thy ===== *)
theory Requests
  imports Complex_Main Prelude
begin

text \<open>
  \<open>core.py\<close>: the request object and the batch, and \<open>scheduler/decode.py\<close>, the
  manager of the requests that are decoding. A request object has an identity
  \<open>rq_oid\<close>: \<open>Req\<close> compares and hashes by identity, and the batch and the decode set
  share objects, so an update of a request of the batch is an update of the entry of the
  decode set with the same identity (\<open>sync\<close>).
\<close>

section \<open>\<open>core.py\<close>: \<open>Req\<close> and \<open>Batch\<close>\<close>

record req =
  rq_oid :: nat
  rq_uid :: int
  rq_input :: "token list"
  rq_table :: nat
  rq_next_table :: int
  rq_cached_len :: int
  rq_output_len :: int
  rq_device_len :: int
  rq_max_device_len :: int
  rq_handle :: "handle option"
  rq_aborted :: bool
  rq_chunked :: bool
  rq_linear_slot :: "slot option"
  rq_anchor :: "int option"
  rq_ping_pong :: "(slot \<times> slot) option"
  rq_next_track :: nat
  rq_last_track :: "int option"
  rq_restore_src :: "slot option"

text \<open>\<open>Req.__init__\<close> with \<open>__post_init__\<close>; \<open>chunked\<close> says that the class is \<open>ChunkedReq\<close>.\<close>

definition make_req ::
  "bool \<Rightarrow> nat \<Rightarrow> int \<Rightarrow> token list \<Rightarrow> nat \<Rightarrow> int \<Rightarrow> int \<Rightarrow> int \<Rightarrow> handle option \<Rightarrow> slot option
   \<Rightarrow> (slot \<times> slot) option \<Rightarrow> slot option \<Rightarrow> req" where
  "make_req chunked oid uid ids table next_table cached_len output_len h ls pp rs =
     \<lparr> rq_oid = oid, rq_uid = uid, rq_input = ids, rq_table = table, rq_next_table = next_table,
       rq_cached_len = cached_len, rq_output_len = output_len,
       rq_device_len = int (length ids),
       rq_max_device_len = int (length ids) + max 0 output_len,
       rq_handle = h, rq_aborted = False, rq_chunked = chunked, rq_linear_slot = ls,
       rq_anchor = None, rq_ping_pong = pp, rq_next_track = 0, rq_last_track = None,
       rq_restore_src = rs \<rparr>"

definition remain_len :: "req \<Rightarrow> int" where
  "remain_len r = rq_max_device_len r - rq_device_len r"

definition extend_len :: "req \<Rightarrow> int" where
  "extend_len r = rq_device_len r - rq_cached_len r"

text \<open>\<open>ChunkedReq\<close> overrides \<open>can_decode\<close> with \<open>False\<close>.\<close>

definition can_decode :: "req \<Rightarrow> bool" where
  "can_decode r = (if rq_chunked r then False else remain_len r > 0 \<and> \<not> rq_aborted r)"

text \<open>\<open>ChunkedReq.append_host\<close> raises.\<close>

definition append_host :: "token \<Rightarrow> req \<Rightarrow> req res" where
  "append_host tok r =
     (if rq_chunked r then Inl NotImplementedError
      else Inr (r\<lparr>rq_input := rq_input r @ [tok]\<rparr>))"

record sampling_params =
  sp_temperature :: rat
  sp_top_k :: int
  sp_top_p :: rat
  sp_max_tokens :: int

definition is_greedy :: "sampling_params \<Rightarrow> bool" where
  "is_greedy s = ((sp_temperature s \<le> 0 \<or> sp_top_k s = 1) \<and> sp_top_p s = 1)"

datatype phase = Prefill | Decode

record batch =
  bt_reqs :: "req list"
  bt_phase :: phase
  bt_new_tokens :: int
  bt_admissions :: "(int \<times> int \<times> int) list"

definition is_prefill :: "batch \<Rightarrow> bool" where
  "is_prefill b = (bt_phase b = Prefill)"

definition batch_size :: "batch \<Rightarrow> nat" where
  "batch_size b = length (bt_reqs b)"

text \<open>\<open>Context.forward_batch\<close>: a nested use raises; the batch is cleared on the way out.\<close>

definition enter_batch :: "'b \<Rightarrow> 'b option \<Rightarrow> 'b option res" where
  "enter_batch b ctx = (if ctx = None then Inr (Some b) else Inl AssertionError)"

definition ctx_batch :: "'b option \<Rightarrow> 'b res" where
  "ctx_batch ctx = (case ctx of None \<Rightarrow> Inl AssertionError | Some b \<Rightarrow> Inr b)"

section \<open>\<open>scheduler/decode.py\<close>\<close>

record decode_manager =
  dm_page_size :: int
  dm_running :: "req list"

text \<open>Assignment to a key of an ordered dictionary keeps the place of a key it holds.\<close>

definition od_assign :: "req list \<Rightarrow> req \<Rightarrow> req list" where
  "od_assign rs r = (if rq_oid r \<in> rq_oid ` set rs then rs else rs @ [r])"

definition filter_reqs :: "req list \<Rightarrow> decode_manager \<Rightarrow> decode_manager" where
  "filter_reqs reqs dm =
     dm\<lparr>dm_running := filter can_decode (foldl od_assign (dm_running dm) reqs)\<rparr>"

definition remove_req :: "req \<Rightarrow> decode_manager \<Rightarrow> decode_manager" where
  "remove_req r dm = dm\<lparr>dm_running := filter (\<lambda>x. rq_oid x \<noteq> rq_oid r) (dm_running dm)\<rparr>"

fun pop_uid :: "int \<Rightarrow> req list \<Rightarrow> (req \<times> req list) option" where
  "pop_uid uid [] = None"
| "pop_uid uid (r # rs) =
     (if rq_uid r = uid then Some (r, rs)
      else map_option (\<lambda>(x, xs). (x, r # xs)) (pop_uid uid rs))"

definition decode_abort :: "int \<Rightarrow> decode_manager \<Rightarrow> req option \<times> decode_manager" where
  "decode_abort uid dm =
     (case pop_uid uid (dm_running dm) of
        None \<Rightarrow> (None, dm)
      | Some (r, rs) \<Rightarrow> (Some r, dm\<lparr>dm_running := rs\<rparr>))"

definition inflight_tokens :: "decode_manager \<Rightarrow> int" where
  "inflight_tokens dm =
     sum_list (map remain_len (dm_running dm)) + (dm_page_size dm - 1) * int (length (dm_running dm))"

definition decode_batch :: "decode_manager \<Rightarrow> batch option" where
  "decode_batch dm =
     (if dm_running dm = [] then None
      else Some \<lparr> bt_reqs = sort_key rq_uid (dm_running dm), bt_phase = Decode,
                  bt_new_tokens = 0, bt_admissions = [] \<rparr>)"

text \<open>The objects of the batch after the step, seen through the decode set.\<close>

definition sync :: "req list \<Rightarrow> req list \<Rightarrow> req list" where
  "sync reqs rs = map (\<lambda>r. case find (\<lambda>x. rq_oid x = rq_oid r) reqs of None \<Rightarrow> r | Some x \<Rightarrow> x) rs"

section \<open>Facts about the decode set\<close>

lemma make_req_simps [simp]:
  "rq_oid (make_req ch oid uid ids tb nt cl ol h ls pp rs) = oid"
  "rq_uid (make_req ch oid uid ids tb nt cl ol h ls pp rs) = uid"
  "rq_input (make_req ch oid uid ids tb nt cl ol h ls pp rs) = ids"
  "rq_table (make_req ch oid uid ids tb nt cl ol h ls pp rs) = tb"
  "rq_cached_len (make_req ch oid uid ids tb nt cl ol h ls pp rs) = cl"
  "rq_output_len (make_req ch oid uid ids tb nt cl ol h ls pp rs) = ol"
  "rq_device_len (make_req ch oid uid ids tb nt cl ol h ls pp rs) = int (length ids)"
  "rq_max_device_len (make_req ch oid uid ids tb nt cl ol h ls pp rs) = int (length ids) + max 0 ol"
  "rq_chunked (make_req ch oid uid ids tb nt cl ol h ls pp rs) = ch"
  "rq_aborted (make_req ch oid uid ids tb nt cl ol h ls pp rs) = False"
  "rq_handle (make_req ch oid uid ids tb nt cl ol h ls pp rs) = h"
  "rq_next_table (make_req ch oid uid ids tb nt cl ol h ls pp rs) = nt"
  by (simp_all add: make_req_def)

lemma foldl_od_assign:
  "distinct (map rq_oid rs) \<Longrightarrow> distinct (map rq_oid xs) \<Longrightarrow>
   foldl od_assign rs xs = rs @ filter (\<lambda>x. rq_oid x \<notin> rq_oid ` set rs) xs"
proof (induction xs arbitrary: rs)
  case (Cons x xs)
  show ?case
  proof (cases "rq_oid x \<in> rq_oid ` set rs")
    case True
    then show ?thesis using Cons by (simp add: od_assign_def)
  next
    case False
    have "foldl od_assign (rs @ [x]) xs = (rs @ [x]) @ filter (\<lambda>y. rq_oid y \<notin> rq_oid ` set (rs @ [x])) xs"
      using Cons.IH [of "rs @ [x]"] Cons.prems False by simp
    moreover have "filter (\<lambda>y. rq_oid y \<notin> rq_oid ` set (rs @ [x])) xs = filter (\<lambda>y. rq_oid y \<notin> rq_oid ` set rs) xs"
      using Cons.prems(2) by (intro filter_cong) (auto simp: image_iff)
    moreover have "od_assign rs x = rs @ [x]" using False by (simp add: od_assign_def)
    ultimately show ?thesis using False by simp
  qed
qed simp

lemma filter_reqs_eq:
  assumes "distinct (map rq_oid (dm_running dm))" "distinct (map rq_oid reqs)"
  shows "dm_running (filter_reqs reqs dm) =
     filter can_decode (dm_running dm) @
     filter (\<lambda>x. can_decode x \<and> rq_oid x \<notin> rq_oid ` set (dm_running dm)) reqs"
  using assms by (simp add: filter_reqs_def foldl_od_assign) (rule filter_cong, auto)

lemma pop_uid_Some:
  "pop_uid uid rs = Some (r, rs') \<Longrightarrow>
   \<exists>xs ys. rs = xs @ r # ys \<and> rs' = xs @ ys \<and> rq_uid r = uid \<and> (\<forall>x \<in> set xs. rq_uid x \<noteq> uid)"
proof (induction rs arbitrary: rs')
  case (Cons a rs)
  show ?case
  proof (cases "rq_uid a = uid")
    case True
    then show ?thesis using Cons.prems by (intro exI [of _ "[]"] exI [of _ rs]) auto
  next
    case False
    then obtain qs where q: "pop_uid uid rs = Some (r, qs)" "rs' = a # qs" using Cons.prems by auto
    then obtain xs ys where "rs = xs @ r # ys" "qs = xs @ ys" "rq_uid r = uid" "\<forall>x \<in> set xs. rq_uid x \<noteq> uid"
      using Cons.IH by blast
    then show ?thesis using q False by (intro exI [of _ "a # xs"] exI [of _ ys]) auto
  qed
qed simp

lemma pop_uid_None: "pop_uid uid rs = None \<longleftrightarrow> (\<forall>r \<in> set rs. rq_uid r \<noteq> uid)"
  by (induction rs) auto

text \<open>Decode batch. The decode batch is exactly the decode set, each request once,
  in increasing order of request number; there is none exactly when the set is empty.\<close>

theorem decode_batch_sorted:
  "(case decode_batch dm of
      None \<Rightarrow> dm_running dm = []
    | Some b \<Rightarrow> mset (bt_reqs b) = mset (dm_running dm) \<and> sorted (map rq_uid (bt_reqs b))
                 \<and> bt_phase b = Decode \<and> bt_reqs b \<noteq> [])"
  by (simp add: decode_batch_def) (metis mset.simps(1) mset_sort mset_zero_iff)

text \<open>Refresh of the decode set. After a step, the set holds the old requests that
  can still decode, in their old order, followed by the batch's new ones that can, in batch
  order; nothing is moved to the end and no chunk or finished request is in it.\<close>

theorem filter_reqs_order:
  assumes "distinct (map rq_oid (dm_running dm))" "distinct (map rq_oid reqs)"
  shows "dm_running (filter_reqs reqs dm) =
       filter can_decode (dm_running dm) @
       filter (\<lambda>x. can_decode x \<and> rq_oid x \<notin> rq_oid ` set (dm_running dm)) reqs
     \<and> (\<forall>r \<in> set (dm_running (filter_reqs reqs dm)). \<not> rq_chunked r \<and> \<not> rq_aborted r \<and> 0 < remain_len r)"
  unfolding filter_reqs_eq [OF assms] by (auto simp: can_decode_def split: if_splits)

definition demo_req :: "nat \<Rightarrow> bool \<Rightarrow> req" where
  "demo_req k ch = make_req ch k (int k) [1, 2] k (- 1) 0 3 None None None None"

lemma filter_reqs_order_witness:
  "map rq_uid (dm_running (filter_reqs [demo_req 1 False, demo_req 2 True, demo_req 3 False]
      \<lparr>dm_page_size = 1, dm_running = [demo_req 1 False, demo_req 0 False]\<rparr>)) = [1, 0, 3]"
proof -
  let ?dm = "\<lparr>dm_page_size = 1, dm_running = [demo_req 1 False, demo_req 0 False]\<rparr>"
  let ?rs = "[demo_req 1 False, demo_req 2 True, demo_req 3 False]"
  have "distinct (map rq_oid (dm_running ?dm))" "distinct (map rq_oid ?rs)"
    by (simp_all add: demo_req_def)
  from filter_reqs_order [OF this] show ?thesis
    by (simp add: demo_req_def can_decode_def remain_len_def)
qed

end
