(* ===== verification/Prefill.thy ===== *)
theory Prefill
  imports Requests
begin

text \<open>
  \<open>scheduler/prefill.py\<close>: the queue of prompts, the admission of prompts and chunks into
  one prefill batch within a token budget, and the cancellation of a queued prompt. A
  pending entry has an identity \<open>pd_id\<close>, as the queue is rebuilt by object identity;
  new request objects take their identity from the counter \<open>ad_next_oid\<close>.
\<close>

section \<open>Pending requests\<close>

record pending =
  pd_id :: nat
  pd_uid :: int
  pd_input :: "token list"
  pd_output_len :: int
  pd_chunk :: "req option"
  pd_cached_len :: int
  pd_table :: nat
  pd_next_table :: int
  pd_handle :: "handle option"
  pd_linear_slot :: "slot option"
  pd_ping_pong :: "(slot \<times> slot) option"
  pd_restore_src :: "slot option"

definition input_len :: "pending \<Rightarrow> int" where
  "input_len p = int (length (pd_input p))"

definition make_pending_req ::
  "nat \<Rightarrow> int \<Rightarrow> token list \<Rightarrow> int \<Rightarrow> handle option \<Rightarrow> int \<Rightarrow> slot option \<Rightarrow> (slot \<times> slot) option
   \<Rightarrow> slot option \<Rightarrow> pending" where
  "make_pending_req pid uid ids max_tokens h cached_len ls pp rs =
     \<lparr> pd_id = pid, pd_uid = uid, pd_input = ids, pd_output_len = max_tokens, pd_chunk = None,
       pd_cached_len = cached_len, pd_table = 0, pd_next_table = 0, pd_handle = h,
       pd_linear_slot = ls, pd_ping_pong = pp, pd_restore_src = rs \<rparr>"

section \<open>\<open>PrefillAdder\<close>\<close>

record adder =
  ad_token_budget :: int
  ad_step_budget :: int
  ad_reserved :: int
  ad_max_running :: int
  ad_cache_budget :: int
  ad_running :: int
  ad_next_oid :: nat

definition footprint :: "pending \<Rightarrow> int" where
  "footprint p = (input_len p - pd_cached_len p) + pd_output_len p"

definition try_allocate_one :: "pending \<Rightarrow> adder \<Rightarrow> (int \<times> adder) option" where
  "try_allocate_one p a =
     (if ad_running a \<ge> ad_max_running a then None
      else if ad_reserved a + footprint p > ad_cache_budget a then None
      else Some (pd_cached_len p,
                 a\<lparr>ad_reserved := ad_reserved a + footprint p, ad_running := ad_running a + 1\<rparr>))"

definition undo_allocation :: "pending \<Rightarrow> adder \<Rightarrow> adder" where
  "undo_allocation p a =
     a\<lparr>ad_reserved := ad_reserved a - footprint p, ad_running := ad_running a - 1\<rparr>"

text \<open>Python's \<open>xs[:n]\<close>: a negative bound counts from the end.\<close>

definition py_take :: "int \<Rightarrow> 'a list \<Rightarrow> 'a list" where
  "py_take n xs = take (nat (if n < 0 then n + int (length xs) else n)) xs"

definition add_one_req ::
  "pending \<Rightarrow> nat \<Rightarrow> int \<Rightarrow> int \<Rightarrow> handle option \<Rightarrow> bool \<Rightarrow> adder \<Rightarrow> (req \<times> adder) option" where
  "add_one_req p table cached_len next_table h chunked a =
     (let remain = input_len p - cached_len;
          chunk_size = (if chunked then min (ad_token_budget a) remain else remain)
      in if chunked \<and> chunk_size \<le> 0 then None
         else if \<not> chunked \<and> remain > ad_token_budget a then None
         else let is_chunked = chunk_size < remain;
                  ids = py_take (cached_len + chunk_size) (pd_input p);
                  r = make_req is_chunked (ad_next_oid a) (pd_uid p) ids table next_table
                        cached_len (pd_output_len p) h (pd_linear_slot p) (pd_ping_pong p)
                        (pd_restore_src p)
              in Some (r, a\<lparr>ad_token_budget := ad_token_budget a - chunk_size,
                            ad_next_oid := ad_next_oid a + 1\<rparr>))"

definition try_add_one :: "pending \<Rightarrow> adder \<Rightarrow> req option \<times> adder" where
  "try_add_one p a =
     (if ad_token_budget a \<le> 0 then (None, a)
      else case pd_chunk p of
        Some c \<Rightarrow>
          (case add_one_req p (rq_table c) (rq_device_len c) (rq_next_table c) (rq_handle c) True a of
             None \<Rightarrow> (None, a)
           | Some (r, a') \<Rightarrow> (Some r, a'))
      | None \<Rightarrow>
          (case try_allocate_one p a of
             None \<Rightarrow> (None, a)
           | Some (cached, a1) \<Rightarrow>
               let first_in_step = (ad_token_budget a1 = ad_step_budget a1)
               in case add_one_req p (pd_table p) cached (pd_next_table p) (pd_handle p) first_in_step a1 of
                    None \<Rightarrow> (None, undo_allocation p a1)
                  | Some (r, a2) \<Rightarrow> (Some r, a2)))"

section \<open>\<open>PrefillManager\<close>\<close>

record prefill_manager =
  pm_max_running :: int
  pm_cache_budget :: int
  pm_page_size :: int
  pm_pending :: "pending list"

definition pm_add :: "pending \<Rightarrow> prefill_manager \<Rightarrow> prefill_manager" where
  "pm_add p m = m\<lparr>pm_pending := pm_pending m @ [p]\<rparr>"

text \<open>The admission loop over the queue. It returns the batch's requests, each with the
  entry it came from (as the loop leaves it), the logged token count, the first
  admissions, and the adder. A continuation that gets no room ends the pass.\<close>

fun admit ::
  "pending list \<Rightarrow> adder \<Rightarrow> (pending \<times> req) list \<times> int \<times> (int \<times> int \<times> int) list \<times> adder" where
  "admit [] a = ([], 0, [], a)"
| "admit (p # ps) a =
     (case try_add_one p a of
        (Some r, a1) \<Rightarrow>
          let p' = p\<lparr>pd_chunk := (if rq_chunked r then Some r else None)\<rparr>;
              (adm, n, adms, a2) = admit ps a1
          in ((p', r) # adm, n + extend_len r,
              (if pd_chunk p = None then (rq_uid r, input_len p, 0) # adms else adms), a2)
      | (None, a1) \<Rightarrow> if pd_chunk p \<noteq> None then ([], 0, [], a1) else admit ps a1)"

definition init_adder :: "int \<Rightarrow> decode_manager \<Rightarrow> prefill_manager \<Rightarrow> nat \<Rightarrow> adder" where
  "init_adder budget dm m oid =
     \<lparr> ad_token_budget = budget, ad_step_budget = budget, ad_reserved = inflight_tokens dm,
       ad_max_running = pm_max_running m, ad_cache_budget = pm_cache_budget m,
       ad_running = int (length (dm_running dm)), ad_next_oid = oid \<rparr>"

definition prefill_batch ::
  "int \<Rightarrow> decode_manager \<Rightarrow> nat \<Rightarrow> prefill_manager \<Rightarrow> batch option \<times> prefill_manager \<times> nat" where
  "prefill_batch budget dm oid m =
     (if pm_pending m = [] then (None, m, oid)
      else let (adm, n, adms, a) = admit (pm_pending m) (init_adder budget dm m oid)
           in if adm = [] then (None, m, ad_next_oid a)
              else let chunked_list = map fst (filter (\<lambda>(p, r). rq_chunked r) adm);
                       admitted_ids = pd_id ` fst ` set adm;
                       unadmitted = filter (\<lambda>p. pd_id p \<notin> admitted_ids) (pm_pending m)
                   in (Some \<lparr> bt_reqs = map snd adm, bt_phase = Prefill, bt_new_tokens = n,
                              bt_admissions = adms \<rparr>,
                       m\<lparr>pm_pending := chunked_list @ unadmitted\<rparr>, ad_next_oid a))"

definition pm_abort :: "int \<Rightarrow> prefill_manager \<Rightarrow> req option \<times> prefill_manager" where
  "pm_abort uid m =
     (case find (\<lambda>p. pd_uid p = uid) (pm_pending m) of
        None \<Rightarrow> (None, m)
      | Some p \<Rightarrow> (pd_chunk p, m\<lparr>pm_pending := takeWhile (\<lambda>q. pd_uid q \<noteq> uid) (pm_pending m)
                                  @ tl (dropWhile (\<lambda>q. pd_uid q \<noteq> uid) (pm_pending m))\<rparr>))"

definition pm_runnable :: "prefill_manager \<Rightarrow> bool" where
  "pm_runnable m = (pm_pending m \<noteq> [])"

section \<open>One admission\<close>

text \<open>What a queue entry looks like between steps: the prompt starts after its cached
  prefix, and a chunk in progress holds a proper prefix of the prompt.\<close>

definition pending_ok :: "pending \<Rightarrow> bool" where
  "pending_ok p \<longleftrightarrow> 0 \<le> pd_cached_len p \<and> pd_cached_len p < input_len p \<and> 0 \<le> pd_output_len p \<and>
     (\<forall>c. pd_chunk p = Some c \<longrightarrow> rq_chunked c \<and> rq_uid c = pd_uid p \<and> rq_table c = pd_table p \<and>
        rq_handle c = pd_handle p \<and> 0 \<le> rq_device_len c \<and> rq_device_len c < input_len p \<and>
        rq_input c = take (nat (rq_device_len c)) (pd_input p))"

definition resume_at :: "pending \<Rightarrow> int" where
  "resume_at p = (case pd_chunk p of None \<Rightarrow> pd_cached_len p | Some c \<Rightarrow> rq_device_len c)"

lemma resume_bounds: "pending_ok p \<Longrightarrow> 0 \<le> resume_at p \<and> resume_at p < input_len p"
  by (auto simp: pending_ok_def resume_at_def split: option.splits)

text \<open>The request one admission makes: the slice it extends starts where the prompt had
  got to, ends at most at its end, and fits the budget.\<close>

definition slice_of :: "pending \<Rightarrow> req \<Rightarrow> bool" where
  "slice_of p r \<longleftrightarrow> rq_uid r = pd_uid p \<and> rq_cached_len r = resume_at p \<and> 0 < extend_len r \<and>
     rq_device_len r \<le> input_len p \<and> rq_input r = take (nat (rq_device_len r)) (pd_input p) \<and>
     (rq_chunked r \<longleftrightarrow> rq_device_len r < input_len p) \<and> \<not> rq_aborted r \<and>
     rq_handle r = pd_handle p \<and> rq_max_device_len r = rq_device_len r + max 0 (pd_output_len p)"

lemma add_one_req_Some:
  assumes "add_one_req p tb cl nt h ch a = Some (r, a')" "0 \<le> cl" "cl < input_len p" "0 < ad_token_budget a"
  shows "rq_uid r = pd_uid p" "rq_cached_len r = cl" "0 < extend_len r" "rq_device_len r \<le> input_len p"
    "rq_input r = take (nat (rq_device_len r)) (pd_input p)" "rq_table r = tb"
    "rq_chunked r \<longleftrightarrow> rq_device_len r < input_len p" "rq_oid r = ad_next_oid a" "\<not> rq_aborted r"
    "a' = a\<lparr>ad_token_budget := ad_token_budget a - extend_len r, ad_next_oid := ad_next_oid a + 1\<rparr>"
    "extend_len r \<le> ad_token_budget a" "rq_handle r = h" "rq_next_table r = nt"
    "ch \<Longrightarrow> extend_len r = min (ad_token_budget a) (input_len p - cl)"
    "\<not> ch \<Longrightarrow> rq_device_len r = input_len p" "rq_output_len r = pd_output_len p"
    "rq_max_device_len r = rq_device_len r + max 0 (pd_output_len p)"
proof -
  define cs where "cs = (if ch then min (ad_token_budget a) (input_len p - cl) else input_len p - cl)"
  define ids where "ids = py_take (cl + cs) (pd_input p)"
  have cs: "0 < cs" "cs \<le> input_len p - cl" "cs \<le> ad_token_budget a"
    using assms by (auto simp: cs_def add_one_req_def Let_def split: if_splits)
  have r: "r = make_req (cs < input_len p - cl) (ad_next_oid a) (pd_uid p) ids tb nt cl
      (pd_output_len p) h (pd_linear_slot p) (pd_ping_pong p) (pd_restore_src p)"
    and a': "a' = a\<lparr>ad_token_budget := ad_token_budget a - cs, ad_next_oid := ad_next_oid a + 1\<rparr>"
    using assms(1) unfolding add_one_req_def Let_def cs_def [symmetric] ids_def [symmetric]
    by (auto split: if_splits)
  have ids: "ids = take (nat (cl + cs)) (pd_input p)" "int (length ids) = cl + cs"
    using cs assms(2) by (auto simp: ids_def py_take_def input_len_def)
  have dl: "rq_device_len r = cl + cs" "extend_len r = cs" using ids(2) r by (simp_all add: extend_len_def)
  have c1: "ch \<Longrightarrow> cs = min (ad_token_budget a) (input_len p - cl)" "\<not> ch \<Longrightarrow> cs = input_len p - cl"
    by (simp_all add: cs_def)
  have c2: "(cs < input_len p - cl) = (cl + cs < input_len p)" by linarith
  show "rq_uid r = pd_uid p" "rq_cached_len r = cl" "0 < extend_len r" "rq_device_len r \<le> input_len p"
    "rq_input r = take (nat (rq_device_len r)) (pd_input p)" "rq_table r = tb"
    "rq_chunked r \<longleftrightarrow> rq_device_len r < input_len p" "rq_oid r = ad_next_oid a" "\<not> rq_aborted r"
    "a' = a\<lparr>ad_token_budget := ad_token_budget a - extend_len r, ad_next_oid := ad_next_oid a + 1\<rparr>"
    "extend_len r \<le> ad_token_budget a" "rq_handle r = h" "rq_next_table r = nt"
    "ch \<Longrightarrow> extend_len r = min (ad_token_budget a) (input_len p - cl)"
    "\<not> ch \<Longrightarrow> rq_device_len r = input_len p" "rq_output_len r = pd_output_len p"
    "rq_max_device_len r = rq_device_len r + max 0 (pd_output_len p)"
    using cs dl ids c1 a' c2 by (simp_all add: r)
qed

lemma undo_restores:
  "try_allocate_one p a = Some (c, a1) \<Longrightarrow> undo_allocation p a1 = a"
  by (auto simp: try_allocate_one_def undo_allocation_def split: if_splits)

lemma try_add_one_None: "try_add_one p a = (None, a') \<Longrightarrow> a' = a"
  by (auto simp: try_add_one_def Let_def undo_restores split: if_splits option.splits prod.splits)

text \<open>What one admission does to the adder.\<close>

definition admitted :: "pending \<Rightarrow> req \<Rightarrow> adder \<Rightarrow> adder \<Rightarrow> bool" where
  "admitted p r a a' \<longleftrightarrow> slice_of p r \<and> rq_table r = pd_table p \<and> rq_oid r = ad_next_oid a \<and>
     0 < ad_token_budget a \<and> extend_len r \<le> ad_token_budget a \<and>
     ad_token_budget a' = ad_token_budget a - extend_len r \<and> ad_next_oid a' = ad_next_oid a + 1 \<and>
     ad_step_budget a' = ad_step_budget a \<and> ad_cache_budget a' = ad_cache_budget a \<and>
     ad_max_running a' = ad_max_running a \<and>
     (pd_chunk p = None \<longrightarrow> ad_running a < ad_max_running a \<and> ad_running a' = ad_running a + 1 \<and>
        ad_reserved a' = ad_reserved a + footprint p \<and> ad_reserved a' \<le> ad_cache_budget a) \<and>
     (pd_chunk p \<noteq> None \<longrightarrow> ad_running a' = ad_running a \<and> ad_reserved a' = ad_reserved a \<and>
        extend_len r = min (ad_token_budget a) (input_len p - resume_at p)) \<and>
     (pd_chunk p = None \<longrightarrow> rq_chunked r \<longrightarrow> ad_token_budget a = ad_step_budget a)"

lemma try_add_one_Some:
  assumes t: "try_add_one p a = (Some r, a')" and ok: "pending_ok p"
  shows "admitted p r a a'"
proof -
  have tb: "0 < ad_token_budget a" using t by (auto simp: try_add_one_def split: if_splits)
  show ?thesis
  proof (cases "pd_chunk p")
    case (Some c)
    have d: "0 \<le> rq_device_len c" "rq_device_len c < input_len p" "rq_table c = pd_table p" "rq_handle c = pd_handle p"
      using ok Some by (auto simp: pending_ok_def)
    have ao: "add_one_req p (rq_table c) (rq_device_len c) (rq_next_table c) (rq_handle c) True a = Some (r, a')"
      using t tb Some by (auto simp: try_add_one_def split: option.splits prod.splits)
    note A = add_one_req_Some [OF ao d(1,2) tb]
    show ?thesis
      using A Some d tb unfolding admitted_def slice_of_def by (simp add: resume_at_def)
  next
    case None
    have d: "0 \<le> pd_cached_len p" "pd_cached_len p < input_len p"
      using ok by (auto simp: pending_ok_def)
    obtain a1 where a1: "try_allocate_one p a = Some (pd_cached_len p, a1)"
      "add_one_req p (pd_table p) (pd_cached_len p) (pd_next_table p) (pd_handle p)
         (ad_token_budget a1 = ad_step_budget a1) a1 = Some (r, a')"
      using t tb None
      by (auto simp: try_add_one_def Let_def try_allocate_one_def split: option.splits prod.splits if_splits)
    have b: "a1 = a\<lparr>ad_reserved := ad_reserved a + footprint p, ad_running := ad_running a + 1\<rparr>"
      "ad_running a < ad_max_running a" "ad_reserved a + footprint p \<le> ad_cache_budget a"
      using a1(1) by (auto simp: try_allocate_one_def split: if_splits)
    have tb1: "0 < ad_token_budget a1" using tb b by simp
    note A = add_one_req_Some [OF a1(2) d tb1]
    have "rq_chunked r \<longrightarrow> ad_token_budget a = ad_step_budget a"
      using A(7) A(15) b(1) by (cases "ad_token_budget a = ad_step_budget a") auto
    then show ?thesis
      using A b None d tb unfolding admitted_def slice_of_def by (simp add: resume_at_def)
  qed
qed

section \<open>One pass over the queue\<close>

definition requeued :: "pending \<Rightarrow> req \<Rightarrow> pending" where
  "requeued p r = p\<lparr>pd_chunk := (if rq_chunked r then Some r else None)\<rparr>"

lemma requeued_simps [simp]:
  "pd_id (requeued p r) = pd_id p" "pd_uid (requeued p r) = pd_uid p" "pd_table (requeued p r) = pd_table p"
  "pd_input (requeued p r) = pd_input p" "input_len (requeued p r) = input_len p"
  "pd_cached_len (requeued p r) = pd_cached_len p" "pd_output_len (requeued p r) = pd_output_len p"
  "pd_chunk (requeued p r) = (if rq_chunked r then Some r else None)" "pd_handle (requeued p r) = pd_handle p"
  by (simp_all add: requeued_def input_len_def)

text \<open>The entries admitted in one pass, in queue order, with their requests.\<close>

definition pass_ok :: "pending list \<Rightarrow> adder \<Rightarrow> pending list \<Rightarrow> req list \<Rightarrow> int \<Rightarrow> adder \<Rightarrow> bool" where
  "pass_ok ps a sub rs n a' \<longleftrightarrow> subseq sub ps \<and>
     list_all2 (\<lambda>p r. slice_of p r \<and> rq_table r = pd_table p) sub rs \<and>
     n = sum_list (map extend_len rs) \<and> ad_token_budget a' = ad_token_budget a - n \<and>
     (0 \<le> ad_token_budget a \<longrightarrow> 0 \<le> ad_token_budget a') \<and>
     map rq_oid rs = [ad_next_oid a..<ad_next_oid a'] \<and> ad_next_oid a \<le> ad_next_oid a' \<and>
     ad_max_running a' = ad_max_running a \<and> ad_cache_budget a' = ad_cache_budget a \<and>
     ad_running a' = ad_running a + int (length (filter (\<lambda>p. pd_chunk p = None) sub)) \<and>
     ad_reserved a' = ad_reserved a + sum_list (map footprint (filter (\<lambda>p. pd_chunk p = None) sub)) \<and>
     (filter (\<lambda>p. pd_chunk p = None) sub \<noteq> [] \<longrightarrow>
        ad_reserved a' \<le> ad_cache_budget a \<and> ad_running a' \<le> ad_max_running a)"

lemma admit_pass:
  assumes "admit ps a = (adm, n, adms, a')" "\<forall>p \<in> set ps. pending_ok p"
  shows "\<exists>sub rs. adm = map2 (\<lambda>p r. (requeued p r, r)) sub rs \<and> pass_ok ps a sub rs n a'"
  using assms
proof (induction ps arbitrary: a adm n adms)
  case Nil
  then show ?case by (intro exI [of _ "[]"]) (simp add: pass_ok_def)
next
  case (Cons p ps)
  obtain o1 a1 where t: "try_add_one p a = (o1, a1)" by (cases "try_add_one p a")
  have okp: "pending_ok p" and okps: "\<forall>q \<in> set ps. pending_ok q" using Cons.prems(2) by auto
  show ?case
  proof (cases o1)
    case None
    have "a1 = a" using try_add_one_None t None by blast
    then show ?thesis
    proof (cases "pd_chunk p = None")
      case True
      then have "admit ps a = (adm, n, adms, a')" using Cons.prems(1) t None \<open>a1 = a\<close> by simp
      then obtain sub rs where s: "adm = map2 (\<lambda>p r. (requeued p r, r)) sub rs" "pass_ok ps a sub rs n a'"
        using Cons.IH okps by blast
      then have "pass_ok (p # ps) a sub rs n a'" by (auto simp: pass_ok_def)
      then show ?thesis using s by blast
    next
      case False
      then have "adm = []" "n = 0" "a' = a" using Cons.prems(1) t None \<open>a1 = a\<close> by auto
      then show ?thesis by (intro exI [of _ "[]"]) (simp add: pass_ok_def)
    qed
  next
    case (Some r)
    have A: "admitted p r a a1" using try_add_one_Some t Some okp by simp
    obtain adm2 n2 adms2 where r2: "admit ps a1 = (adm2, n2, adms2, a')"
      and adm: "adm = (requeued p r, r) # adm2" "n = n2 + extend_len r"
      using Cons.prems(1) t Some by (auto simp: Let_def requeued_def split: prod.splits)
    obtain sub rs where s: "adm2 = map2 (\<lambda>p r. (requeued p r, r)) sub rs" "pass_ok ps a1 sub rs n2 a'"
      using Cons.IH [OF r2 okps] by blast
    have "pass_ok (p # ps) a (p # sub) (r # rs) n a'"
      using s(2) A adm(2) unfolding pass_ok_def admitted_def
      by (auto simp: upt_conv_Cons)
    moreover have "adm = map2 (\<lambda>p r. (requeued p r, r)) (p # sub) (r # rs)"
      using adm(1) s(1) by simp
    ultimately show ?thesis by blast
  qed
qed

text \<open>The queue after a pass that admitted something.\<close>

lemma prefill_batch_Some:
  assumes pb: "prefill_batch budget dm oid m = (Some b, m', oid')"
    and ok: "\<forall>p \<in> set (pm_pending m). pending_ok p" and d: "distinct (map pd_id (pm_pending m))"
  obtains sub rs a' where "bt_reqs b = rs" "bt_phase b = Prefill" "rs \<noteq> []"
    "pass_ok (pm_pending m) (init_adder budget dm m oid) sub rs (bt_new_tokens b) a'"
    "pm_pending m' = map2 requeued (map fst (filter (\<lambda>(p, r). rq_chunked r) (zip sub rs)))
                                   (map snd (filter (\<lambda>(p, r). rq_chunked r) (zip sub rs)))
                     @ filter (\<lambda>p. p \<notin> set sub) (pm_pending m)"
    "oid' = ad_next_oid a'" "distinct (map pd_id sub)"
proof -
  obtain adm n lg a where ad: "admit (pm_pending m) (init_adder budget dm m oid) = (adm, n, lg, a)"
    by (metis prod_cases4)
  obtain sub rs where s: "adm = map2 (\<lambda>p r. (requeued p r, r)) sub rs"
      "pass_ok (pm_pending m) (init_adder budget dm m oid) sub rs n a"
    using admit_pass [OF ad ok] by blast
  have ne: "adm \<noteq> []" and b: "b = \<lparr> bt_reqs = map snd adm, bt_phase = Prefill, bt_new_tokens = n,
        bt_admissions = lg \<rparr>"
    and m': "m' = m\<lparr>pm_pending := map fst (filter (\<lambda>(p, r). rq_chunked r) adm) @
        filter (\<lambda>p. pd_id p \<notin> pd_id ` fst ` set adm) (pm_pending m)\<rparr>" and oid': "oid' = ad_next_oid a"
    using pb ad by (auto simp: prefill_batch_def Let_def split: if_splits)
  have len: "length sub = length rs" and sq: "subseq sub (pm_pending m)"
    using s(2) by (auto simp: pass_ok_def dest: list_all2_lengthD)
  have rs: "map snd adm = rs" using len s(1) by (simp add: list_eq_iff_nth_eq)
  have dsub: "distinct (map pd_id sub)"
    using subseq_map [OF sq, of pd_id] d subseqs_distinctD [of "map pd_id sub" "map pd_id (pm_pending m)"] by simp
  have ch: "map fst (filter (\<lambda>(p, r). rq_chunked r) adm) =
      map2 requeued (map fst (filter (\<lambda>(p, r). rq_chunked r) (zip sub rs)))
                    (map snd (filter (\<lambda>(p, r). rq_chunked r) (zip sub rs)))"
    unfolding s(1) using len by (induction sub rs rule: list_induct2) auto
  have sub: "set sub \<subseteq> set (pm_pending m)" using sq by (rule subseq_subset)
  have ids: "pd_id ` fst ` set adm = pd_id ` set sub"
  proof -
    have "map (\<lambda>x. pd_id (fst x)) adm = map pd_id sub"
      unfolding s(1) using len by (induction sub rs rule: list_induct2) auto
    then have "set (map (\<lambda>x. pd_id (fst x)) adm) = set (map pd_id sub)" by simp
    then show ?thesis by (simp add: image_image)
  qed
  have "pd_id p \<in> pd_id ` set sub \<longleftrightarrow> p \<in> set sub" if "p \<in> set (pm_pending m)" for p
    using that sub d by (auto simp: distinct_map inj_on_def)
  then have un: "filter (\<lambda>p. pd_id p \<notin> pd_id ` fst ` set adm) (pm_pending m) =
      filter (\<lambda>p. p \<notin> set sub) (pm_pending m)"
    unfolding ids by (intro filter_cong) auto
  have "rs \<noteq> []" using ne rs by auto
  then show ?thesis
    using that [of rs sub a] b m' s(2) rs ch un oid' dsub by simp
qed

text \<open>Prefill budget. A prefill batch never extends more tokens than the step's
  budget, every request in it extends at least one, and each is the slice of its prompt that
  starts exactly where the prompt had got to; it is a partial chunk exactly when it does not
  reach the end of the prompt.\<close>

theorem prefill_within_budget:
  assumes "prefill_batch budget dm oid m = (Some b, m', oid')" "0 \<le> budget"
    "\<forall>p \<in> set (pm_pending m). pending_ok p" "distinct (map pd_id (pm_pending m))"
  shows "sum_list (map extend_len (bt_reqs b)) \<le> budget \<and> bt_reqs b \<noteq> []
    \<and> bt_new_tokens b = sum_list (map extend_len (bt_reqs b))
    \<and> (\<forall>r \<in> set (bt_reqs b). \<exists>p \<in> set (pm_pending m).
          rq_uid r = pd_uid p \<and> rq_table r = pd_table p \<and> 0 < extend_len r
          \<and> rq_cached_len r = resume_at p \<and> rq_device_len r \<le> input_len p
          \<and> rq_input r = take (nat (rq_device_len r)) (pd_input p)
          \<and> (rq_chunked r \<longleftrightarrow> rq_device_len r < input_len p))"
proof -
  obtain sub rs a' where s: "bt_reqs b = rs" "rs \<noteq> []"
    "pass_ok (pm_pending m) (init_adder budget dm m oid) sub rs (bt_new_tokens b) a'"
    using prefill_batch_Some [OF assms(1,3,4)] by metis
  then have P: "subseq sub (pm_pending m)" "list_all2 (\<lambda>p r. slice_of p r \<and> rq_table r = pd_table p) sub rs"
    "bt_new_tokens b = sum_list (map extend_len rs)" "0 \<le> budget - bt_new_tokens b"
    using assms(2) by (auto simp: pass_ok_def init_adder_def)
  have "\<exists>p \<in> set (pm_pending m). slice_of p r \<and> rq_table r = pd_table p" if rin: "r \<in> set rs" for r
  proof -
    obtain i where i: "i < length rs" "rs ! i = r" using rin by (auto simp: in_set_conv_nth)
    have "slice_of (sub ! i) r \<and> rq_table r = pd_table (sub ! i)"
      using list_all2_nthD2 [OF P(2) i(1)] i(2) by simp
    moreover have "i < length sub" using list_all2_lengthD [OF P(2)] i(1) by simp
    then have "sub ! i \<in> set (pm_pending m)" using subseq_subset [OF P(1)] nth_mem by blast
    ultimately show ?thesis by blast
  qed
  then show ?thesis using s P unfolding slice_of_def by fastforce
qed

lemma zip_filter_split:
  assumes "length xs = length ys"
  shows "mset xs = mset (map fst (filter (\<lambda>(x, y). Q y) (zip xs ys)))
                 + mset (map fst (filter (\<lambda>(x, y). \<not> Q y) (zip xs ys)))"
  using assms by (induction xs ys rule: list_induct2) auto

lemma requeued_ok: "pending_ok p \<Longrightarrow> slice_of p r \<Longrightarrow> rq_table r = pd_table p \<Longrightarrow> pending_ok (requeued p r)"
  using resume_bounds [of p] by (auto simp: pending_ok_def slice_of_def extend_len_def)

lemma resume_requeued: "slice_of p r \<Longrightarrow> rq_chunked r \<Longrightarrow> resume_at (requeued p r) = resume_at p + extend_len r"
  by (simp add: resume_at_def slice_of_def extend_len_def)

text \<open>C16. No prompt is lost or run twice. After a prefill pass every queued prompt is
  either still in the queue, untouched or advanced by its chunk, or has left it with a batch
  request that covers the whole prompt; the advanced ones come first, the untouched ones keep
  their order, and every entry is still well formed.\<close>

theorem prefill_conserves_queue:
  assumes pb: "prefill_batch budget dm oid m = (Some b, m', oid')"
    and ok: "\<forall>p \<in> set (pm_pending m). pending_ok p"
    and d: "distinct (map pd_id (pm_pending m))" and du: "distinct (map pd_uid (pm_pending m))"
  shows "mset (map pd_id (pm_pending m)) = mset (map pd_id (pm_pending m'))
       + mset (map pd_id (filter (\<lambda>p. \<exists>r \<in> set (bt_reqs b). rq_uid r = pd_uid p \<and> \<not> rq_chunked r
                                        \<and> rq_input r = pd_input p) (pm_pending m)))
    \<and> (\<forall>p \<in> set (pm_pending m'). pending_ok p)
    \<and> (\<exists>conts. pm_pending m' = conts @ filter (\<lambda>p. \<forall>r \<in> set (bt_reqs b). rq_uid r \<noteq> pd_uid p) (pm_pending m)
          \<and> (\<forall>q \<in> set conts. pd_chunk q \<noteq> None \<and> the (pd_chunk q) \<in> set (bt_reqs b)))"
proof -
  let ?ps = "pm_pending m"
  obtain sub rs a' where s: "bt_reqs b = rs"
    "pass_ok ?ps (init_adder budget dm m oid) sub rs (bt_new_tokens b) a'"
    "pm_pending m' = map2 requeued (map fst (filter (\<lambda>(p, r). rq_chunked r) (zip sub rs)))
                                   (map snd (filter (\<lambda>(p, r). rq_chunked r) (zip sub rs)))
                     @ filter (\<lambda>p. p \<notin> set sub) ?ps" "distinct (map pd_id sub)"
    using prefill_batch_Some [OF pb ok d] by metis
  let ?Z = "zip sub rs"
  let ?C = "filter (\<lambda>(p, r). rq_chunked r) ?Z" and ?N = "filter (\<lambda>(p, r). \<not> rq_chunked r) ?Z"
  have sq: "subseq sub ?ps" and la: "list_all2 (\<lambda>p r. slice_of p r \<and> rq_table r = pd_table p) sub rs"
    using s(2) by (auto simp: pass_ok_def)
  have len: "length sub = length rs" using la by (rule list_all2_lengthD)
  have sl: "slice_of p r \<and> rq_table r = pd_table p" if "(p, r) \<in> set ?Z" for p r
    using la that by (auto simp: list_all2_iff)
  have sub: "set sub \<subseteq> set ?ps" using subseq_subset [OF sq] .
  have dps: "distinct ?ps" using d by (simp add: distinct_map)
  have dsub: "distinct sub" using s(4) by (simp add: distinct_map)
  have pair: "\<exists>r. (p, r) \<in> set ?Z" if "p \<in> set sub" for p
    using that len by (auto simp: in_set_conv_nth set_zip)
  have pairr: "\<exists>p. (p, r) \<in> set ?Z" if "r \<in> set rs" for r
    using that len by (auto simp: in_set_conv_nth set_zip)
  have uni: "p = q" if "p \<in> set ?ps" "q \<in> set ?ps" "pd_uid p = pd_uid q" for p q
    using du that by (auto simp: distinct_map inj_on_def)
  have touched: "(\<exists>r \<in> set rs. rq_uid r = pd_uid p) \<longleftrightarrow> p \<in> set sub" if p: "p \<in> set ?ps" for p
  proof
    assume "\<exists>r \<in> set rs. rq_uid r = pd_uid p"
    then obtain r q where "(q, r) \<in> set ?Z" "rq_uid r = pd_uid p" using pairr by blast
    moreover from this have "q \<in> set sub" by (auto dest: set_zip_leftD)
    ultimately show "p \<in> set sub" using sl uni [OF _ p] sub by (auto simp: slice_of_def)
  next
    assume "p \<in> set sub"
    then obtain r where r: "(p, r) \<in> set ?Z" using pair by blast
    then show "\<exists>r \<in> set rs. rq_uid r = pd_uid p" using sl by (auto simp: slice_of_def dest: set_zip_rightD)
  qed
  have don: "(\<exists>r \<in> set rs. rq_uid r = pd_uid p \<and> \<not> rq_chunked r \<and> rq_input r = pd_input p)
      \<longleftrightarrow> p \<in> fst ` set ?N" if p: "p \<in> set ?ps" for p
  proof
    assume "\<exists>r \<in> set rs. rq_uid r = pd_uid p \<and> \<not> rq_chunked r \<and> rq_input r = pd_input p"
    then obtain r q where r: "(q, r) \<in> set ?Z" "rq_uid r = pd_uid p" "\<not> rq_chunked r" using pairr by blast
    then have "q \<in> set sub" by (auto dest: set_zip_leftD)
    then have "q = p" using uni [OF _ p] sub sl r by (auto simp: slice_of_def)
    then show "p \<in> fst ` set ?N" using r by force
  next
    assume "p \<in> fst ` set ?N"
    then obtain r where r: "(p, r) \<in> set ?Z" "\<not> rq_chunked r" by auto
    then have "rq_uid r = pd_uid p" "rq_input r = pd_input p" "r \<in> set rs"
      using sl [OF r(1)] by (auto simp: slice_of_def input_len_def dest: set_zip_rightD)
    then show "\<exists>r \<in> set rs. rq_uid r = pd_uid p \<and> \<not> rq_chunked r \<and> rq_input r = pd_input p"
      using r(2) by blast
  qed
  have fN: "fst ` set ?N \<subseteq> set ?ps" using sub by (auto dest: set_zip_leftD)
  have dN: "distinct (map fst ?N)"
  proof -
    have "mset sub = mset (map fst ?C) + mset (map fst ?N)" using zip_filter_split [OF len] by simp
    then have "distinct (map fst ?C @ map fst ?N)"
      using mset_eq_distinct [of "map fst ?C @ map fst ?N" sub] dsub by simp
    then show ?thesis by simp
  qed
  have mN: "mset (filter (\<lambda>p. p \<in> fst ` set ?N) ?ps) = mset (map fst ?N)"
  proof (rule set_eq_iff_mset_eq_distinct [THEN iffD1])
    show "distinct (filter (\<lambda>p. p \<in> fst ` set ?N) ?ps)" using dps by simp
    show "distinct (map fst ?N)" by fact
    show "set (filter (\<lambda>p. p \<in> fst ` set ?N) ?ps) = set (map fst ?N)" using fN by auto
  qed
  have mS: "mset (filter (\<lambda>p. p \<in> set sub) ?ps) = mset sub"
    using dps dsub sub by (intro set_eq_iff_mset_eq_distinct [THEN iffD1]) auto
  have mP: "mset ?ps = mset sub + mset (filter (\<lambda>p. p \<notin> set sub) ?ps)"
    using mS by (metis (no_types) mset_filter multiset_partition)
  have conts: "mset (map pd_id (map2 requeued (map fst ?C) (map snd ?C))) = mset (map pd_id (map fst ?C))"
  proof -
    have "map pd_id (map2 requeued (map fst ?C) (map snd ?C)) = map pd_id (map fst ?C)"
      unfolding zip_map_fst_snd by (simp add: comp_def case_prod_beta)
    then show ?thesis by simp
  qed
  have f1: "filter (\<lambda>p. \<exists>r \<in> set (bt_reqs b). rq_uid r = pd_uid p \<and> \<not> rq_chunked r \<and> rq_input r = pd_input p) ?ps
      = filter (\<lambda>p. p \<in> fst ` set ?N) ?ps"
    unfolding s(1) using don by (intro filter_cong) auto
  have f2: "filter (\<lambda>p. \<forall>r \<in> set (bt_reqs b). rq_uid r \<noteq> pd_uid p) ?ps = filter (\<lambda>p. p \<notin> set sub) ?ps"
    unfolding s(1) using touched by (intro filter_cong) auto
  have "mset (map pd_id ?ps) = image_mset pd_id (mset (map fst ?C)) + image_mset pd_id (mset (map fst ?N))
      + image_mset pd_id (mset (filter (\<lambda>p. p \<notin> set sub) ?ps))"
    unfolding mset_map mP zip_filter_split [OF len, of rq_chunked] image_mset_union by simp
  moreover have "mset (map pd_id (pm_pending m')) = image_mset pd_id (mset (map fst ?C))
      + image_mset pd_id (mset (filter (\<lambda>p. p \<notin> set sub) ?ps))"
    unfolding s(3) map_append mset_append conts by (simp only: mset_map)
  moreover have "mset (map pd_id (filter (\<lambda>p. p \<in> fst ` set ?N) ?ps)) = image_mset pd_id (mset (map fst ?N))"
    by (simp only: mset_map mN)
  ultimately have 1: "mset (map pd_id ?ps) = mset (map pd_id (pm_pending m')) +
      mset (map pd_id (filter (\<lambda>p. p \<in> fst ` set ?N) ?ps))" by (simp only: add.assoc add.commute add.left_commute)
  have cont: "pending_ok q \<and> pd_chunk q \<noteq> None \<and> the (pd_chunk q) \<in> set rs"
    if qin: "q \<in> set (map2 requeued (map fst ?C) (map snd ?C))" for q
  proof -
    obtain p r where q: "q = requeued p r" "(p, r) \<in> set ?C"
      using qin unfolding zip_map_fst_snd by auto
    then have pr: "(p, r) \<in> set ?Z" "rq_chunked r" by auto
    then have "p \<in> set ?ps" "r \<in> set rs" using sub by (auto dest: set_zip_leftD set_zip_rightD)
    then show ?thesis using requeued_ok ok sl [OF pr(1)] pr(2) q(1) by auto
  qed
  have 2: "\<forall>p \<in> set (pm_pending m'). pending_ok p" unfolding s(3) using cont ok by auto
  show ?thesis
    unfolding f1 f2 using 1 2 s(1,3) cont by blast
qed

definition demo_dm :: decode_manager where
  "demo_dm = \<lparr>dm_page_size = 1, dm_running = []\<rparr>"

definition demo_pending :: "nat \<Rightarrow> token list \<Rightarrow> int \<Rightarrow> pending" where
  "demo_pending k ids out = (make_pending_req k (int k) ids out None 0 None None None)\<lparr>pd_table := k\<rparr>"

definition demo_pm :: prefill_manager where
  "demo_pm = \<lparr>pm_max_running = 4, pm_cache_budget = 100, pm_page_size = 1,
     pm_pending = [demo_pending 0 [1, 2, 3, 4, 5] 2, demo_pending 1 [6, 7] 3]\<rparr>"

lemmas demo_defs = demo_dm_def demo_pending_def demo_pm_def make_pending_req_def

lemma demo_pm_ok:
  "\<forall>p \<in> set (pm_pending demo_pm). pending_ok p"
  "distinct (map pd_id (pm_pending demo_pm))" "distinct (map pd_uid (pm_pending demo_pm))"
  by (simp_all add: demo_defs pending_ok_def input_len_def)

lemma prefill_conserves_queue_witness:
  "\<exists>b m' oid'. prefill_batch 6 demo_dm 0 demo_pm = (Some b, m', oid')
     \<and> map rq_uid (bt_reqs b) = [0] \<and> {#0, 1#} = mset (map pd_id (pm_pending m')) + {#0#}"
proof -
  obtain b m' oid' where pb: "prefill_batch 6 demo_dm 0 demo_pm = (Some b, m', oid')"
    and r: "map rq_uid (bt_reqs b) = [0]" "map rq_chunked (bt_reqs b) = [False]"
       "map rq_input (bt_reqs b) = [[1, 2, 3, 4, 5]]"
  proof -
    have "(case prefill_batch 6 demo_dm 0 demo_pm of (Some b, m', oid') \<Rightarrow>
        map rq_uid (bt_reqs b) = [0] \<and> map rq_chunked (bt_reqs b) = [False]
        \<and> map rq_input (bt_reqs b) = [[1, 2, 3, 4, 5]] | _ \<Rightarrow> False)"
      by code_simp
    then show ?thesis using that by (auto split: option.splits prod.splits)
  qed
  from r(1) obtain q where q: "bt_reqs b = [q]" by auto
  have "filter (\<lambda>p. \<exists>r \<in> set (bt_reqs b). rq_uid r = pd_uid p \<and> \<not> rq_chunked r
          \<and> rq_input r = pd_input p) (pm_pending demo_pm) = [demo_pending 0 [1, 2, 3, 4, 5] 2]"
    using r q by (simp add: demo_defs)
  then have "mset (map pd_id (pm_pending demo_pm)) = mset (map pd_id (pm_pending m')) + {#0#}"
    using prefill_conserves_queue [OF pb demo_pm_ok] by (simp add: demo_pending_def make_pending_req_def)
  then show ?thesis using pb r(1) by (simp add: demo_defs)
qed

lemma prefill_within_budget_witness:
  "\<exists>b m' oid'. prefill_batch 3 demo_dm 0 demo_pm = (Some b, m', oid')
     \<and> sum_list (map extend_len (bt_reqs b)) \<le> 3 \<and> bt_reqs b \<noteq> []"
proof -
  obtain b m' oid' where pb: "prefill_batch 3 demo_dm 0 demo_pm = (Some b, m', oid')"
  proof -
    have "fst (prefill_batch 3 demo_dm 0 demo_pm) \<noteq> None" by code_simp
    then show ?thesis using that by (cases "prefill_batch 3 demo_dm 0 demo_pm") auto
  qed
  then show ?thesis using prefill_within_budget [OF pb _ demo_pm_ok(1,2)] by auto
qed

lemma subseq_filter_mem: "subseq xs ys \<Longrightarrow> distinct ys \<Longrightarrow> filter (\<lambda>y. y \<in> set xs) ys = xs"
proof (induction rule: list_emb.induct)
  case (list_emb_Cons xs ys y)
  then have "y \<notin> set xs" using subseq_subset by fastforce
  then show ?case using list_emb_Cons by simp
next
  case (list_emb_Cons2 x y xs ys)
  then have "filter (\<lambda>z. z = y \<or> z \<in> set xs) ys = filter (\<lambda>z. z \<in> set xs) ys"
    by (intro filter_cong) auto
  then show ?case using list_emb_Cons2 by auto
qed simp

text \<open>Pool reservation within a pass. When a pass admits a new prompt, the tokens the
  decode set still has to produce and the footprints of all prompts admitted in this pass fit
  the pool together, and the running requests with the new ones stay within the request cap.\<close>

theorem prefill_reservation:
  assumes "prefill_batch budget dm oid m = (Some b, m', oid')"
    "\<forall>p \<in> set (pm_pending m). pending_ok p" "distinct (map pd_id (pm_pending m))"
    "distinct (map pd_uid (pm_pending m))"
  defines "fresh \<equiv> filter (\<lambda>p. pd_chunk p = None \<and> (\<exists>r \<in> set (bt_reqs b). rq_uid r = pd_uid p)) (pm_pending m)"
  shows "fresh = [] \<or>
     (inflight_tokens dm + sum_list (map footprint fresh) \<le> pm_cache_budget m
      \<and> int (length (dm_running dm)) + int (length fresh) \<le> pm_max_running m)"
proof -
  let ?ps = "pm_pending m"
  obtain sub rs a' where s: "bt_reqs b = rs"
    "pass_ok ?ps (init_adder budget dm m oid) sub rs (bt_new_tokens b) a'"
    using prefill_batch_Some [OF assms(1-3)] by metis
  have sq: "subseq sub ?ps" and la: "list_all2 (\<lambda>p r. slice_of p r \<and> rq_table r = pd_table p) sub rs"
    using s(2) by (auto simp: pass_ok_def)
  have sub: "set sub \<subseteq> set ?ps" using subseq_subset [OF sq] .
  have u: "map pd_uid sub = map rq_uid rs"
    using la by (induction rule: list_all2_induct) (auto simp: slice_of_def)
  have "(\<exists>r \<in> set rs. rq_uid r = pd_uid p) \<longleftrightarrow> p \<in> set sub" if p: "p \<in> set ?ps" for p
  proof -
    have "(\<exists>r \<in> set rs. rq_uid r = pd_uid p) \<longleftrightarrow> pd_uid p \<in> set (map rq_uid rs)"
      unfolding set_map image_iff by metis
    also have "\<dots> \<longleftrightarrow> pd_uid p \<in> pd_uid ` set sub" unfolding u [symmetric] by simp
    also have "\<dots> \<longleftrightarrow> p \<in> set sub" using assms(4) sub p by (auto simp: distinct_map inj_on_def)
    finally show ?thesis .
  qed
  then have "fresh = filter (\<lambda>p. pd_chunk p = None \<and> p \<in> set sub) ?ps"
    unfolding fresh_def s(1) by (intro filter_cong) auto
  also have "\<dots> = filter (\<lambda>p. pd_chunk p = None) (filter (\<lambda>p. p \<in> set sub) ?ps)"
    by (simp add: conj_commute)
  also have "filter (\<lambda>p. p \<in> set sub) ?ps = sub"
    using sq distinct_map [THEN iffD1, OF assms(3)] by (intro subseq_filter_mem) auto
  finally have f: "fresh = filter (\<lambda>p. pd_chunk p = None) sub" .
  show ?thesis using s(2) unfolding f pass_ok_def init_adder_def by auto
qed

lemma prefill_reservation_witness:
  "\<exists>b m' oid'. prefill_batch 7 demo_dm 0 demo_pm = (Some b, m', oid') \<and> map rq_uid (bt_reqs b) = [0, 1]
     \<and> inflight_tokens demo_dm + (7 + 5) \<le> pm_cache_budget demo_pm"
proof -
  obtain b m' oid' where pb: "prefill_batch 7 demo_dm 0 demo_pm = (Some b, m', oid')"
    and r: "map rq_uid (bt_reqs b) = [0, 1]"
  proof -
    have "(case prefill_batch 7 demo_dm 0 demo_pm of (Some b, m', oid') \<Rightarrow> map rq_uid (bt_reqs b) = [0, 1]
        | _ \<Rightarrow> False)" by code_simp
    then show ?thesis using that by (auto split: option.splits prod.splits)
  qed
  obtain x y where xy: "bt_reqs b = [x, y]" "rq_uid x = 0" "rq_uid y = 1" using r by auto
  have "filter (\<lambda>p. pd_chunk p = None \<and> (\<exists>r \<in> set (bt_reqs b). rq_uid r = pd_uid p)) (pm_pending demo_pm)
      = pm_pending demo_pm"
    using xy by (simp add: demo_defs)
  then show ?thesis
    using prefill_reservation [OF pb demo_pm_ok] pb r by (simp add: demo_defs footprint_def input_len_def)
qed

section \<open>A chunked prompt finishes\<close>

lemma prefill_batch_keeps:
  assumes pb: "prefill_batch budget dm oid m = (ob, m', oid')"
    and ok: "\<forall>p \<in> set (pm_pending m). pending_ok p" and d: "distinct (map pd_id (pm_pending m))"
  shows "\<forall>p \<in> set (pm_pending m'). pending_ok p" "distinct (map pd_id (pm_pending m'))"
    "set (map pd_id (pm_pending m')) \<subseteq> set (map pd_id (pm_pending m))"
proof -
  have "(\<forall>p \<in> set (pm_pending m'). pending_ok p) \<and> distinct (map pd_id (pm_pending m')) \<and>
    set (map pd_id (pm_pending m')) \<subseteq> set (map pd_id (pm_pending m))"
  proof (cases ob)
    case None
    then have "m' = m" using pb by (auto simp: prefill_batch_def Let_def split: if_splits prod.splits)
    then show ?thesis using ok d by simp
  next
    case (Some b)
    let ?ps = "pm_pending m"
    obtain sub rs a' where s: "pass_ok ?ps (init_adder budget dm m oid) sub rs (bt_new_tokens b) a'"
      "pm_pending m' = map2 requeued (map fst (filter (\<lambda>(p, r). rq_chunked r) (zip sub rs)))
                                     (map snd (filter (\<lambda>(p, r). rq_chunked r) (zip sub rs)))
                       @ filter (\<lambda>p. p \<notin> set sub) ?ps" "distinct (map pd_id sub)"
      using prefill_batch_Some [OF pb [unfolded Some] ok d] by metis
    let ?C = "filter (\<lambda>(p, r). rq_chunked r) (zip sub rs)"
    have sub: "set sub \<subseteq> set ?ps" and la: "list_all2 (\<lambda>p r. slice_of p r \<and> rq_table r = pd_table p) sub rs"
      using s(1) subseq_subset by (auto simp: pass_ok_def)
    have fC: "set (map fst ?C) \<subseteq> set sub" by (auto dest: set_zip_leftD)
    have mp: "map pd_id (map2 requeued (map fst ?C) (map snd ?C)) = map pd_id (map fst ?C)"
      unfolding zip_map_fst_snd by (simp add: comp_def case_prod_beta)
    have dC: "distinct (map pd_id (map fst ?C))"
    proof -
      have "length sub = length rs" using la by (rule list_all2_lengthD)
      from zip_filter_split [OF this, of rq_chunked]
      have "mset (map pd_id sub) = mset (map pd_id (map fst ?C)) +
          mset (map pd_id (map fst (filter (\<lambda>(x, y). \<not> rq_chunked y) (zip sub rs))))"
        unfolding mset_map by (metis image_mset_union mset_map)
      then have "mset (map pd_id (map fst ?C) @ map pd_id (map fst (filter (\<lambda>(x, y). \<not> rq_chunked y) (zip sub rs))))
          = mset (map pd_id sub)" by (simp only: mset_append)
      from mset_eq_distinct [OF this] show ?thesis using s(3) by auto
    qed
    have inj: "inj_on pd_id (set ?ps)" using d by (simp add: distinct_map)
    have ids: "set (map pd_id (pm_pending m')) \<subseteq> set (map pd_id ?ps)"
      unfolding s(2) map_append mp using fC sub by auto
    have dis: "distinct (map pd_id (pm_pending m'))"
      unfolding s(2) map_append mp distinct_append
    proof (intro conjI dC)
      show "distinct (map pd_id (filter (\<lambda>p. p \<notin> set sub) ?ps))" using d by (simp add: distinct_map_filter)
      show "set (map pd_id (map fst ?C)) \<inter> set (map pd_id (filter (\<lambda>p. p \<notin> set sub) ?ps)) = {}"
      proof (rule ccontr)
        assume "\<not> ?thesis"
        then obtain p q where "p \<in> set (map fst ?C)" "q \<in> set ?ps" "q \<notin> set sub" "pd_id p = pd_id q" by auto
        then show False using fC sub inj by (auto simp: inj_on_def)
      qed
    qed
    have "pending_ok q" if qin: "q \<in> set (map2 requeued (map fst ?C) (map snd ?C))" for q
    proof -
      obtain p r where q: "q = requeued p r" "(p, r) \<in> set ?C" using qin unfolding zip_map_fst_snd by auto
      then have "(p, r) \<in> set (zip sub rs)" by auto
      then have "slice_of p r \<and> rq_table r = pd_table p" "p \<in> set sub"
        using la by (auto simp: list_all2_iff dest: set_zip_leftD)
      then show ?thesis using requeued_ok [of p r] ok sub q(1) by blast
    qed
    then show ?thesis using dis ids ok unfolding s(2) by auto
  qed
  then show "\<forall>p \<in> set (pm_pending m'). pending_ok p" "distinct (map pd_id (pm_pending m'))"
    "set (map pd_id (pm_pending m')) \<subseteq> set (map pd_id (pm_pending m))" by auto
qed

lemma add_one_req_cont:
  "0 < ad_token_budget a \<Longrightarrow> cl < input_len p \<Longrightarrow> add_one_req p tb cl nt h True a \<noteq> None"
  by (simp add: add_one_req_def Let_def)

text \<open>A continuation at the head of the queue always gets its share.\<close>

lemma head_continuation:
  assumes q: "pm_pending m = p # ps" "pd_chunk p \<noteq> None" and B: "0 < budget"
    and ok: "\<forall>q \<in> set (pm_pending m). pending_ok q" and d: "distinct (map pd_id (pm_pending m))"
  obtains b m' oid' r where "prefill_batch budget dm oid m = (Some b, m', oid')"
    "slice_of p r" "r = hd (bt_reqs b)" "extend_len r = min budget (input_len p - resume_at p)"
    "rq_chunked r \<Longrightarrow> \<exists>qs. pm_pending m' = requeued p r # qs"
    "\<not> rq_chunked r \<Longrightarrow> pd_id p \<notin> set (map pd_id (pm_pending m'))"
proof -
  let ?a = "init_adder budget dm m oid"
  obtain c where c: "pd_chunk p = Some c" using q(2) by auto
  have okp: "pending_ok p" using ok q(1) by simp
  have tb: "ad_token_budget ?a = budget" by (simp add: init_adder_def)
  have "try_add_one p ?a \<noteq> (None, ?a)"
    using add_one_req_cont [of ?a "rq_device_len c" p] okp c B tb
    by (auto simp: try_add_one_def pending_ok_def split: option.splits prod.splits)
  then obtain r a1 where t: "try_add_one p ?a = (Some r, a1)"
    using try_add_one_None [of p ?a] by (metis option.exhaust surj_pair)
  have A: "admitted p r ?a a1" using try_add_one_Some [OF t okp] .
  have sl: "slice_of p r" and ex: "extend_len r = min budget (input_len p - resume_at p)"
    using A q(2) tb by (auto simp: admitted_def)
  obtain adm n lg a2 where ad: "admit ps a1 = (adm, n, lg, a2)" by (metis prod_cases4)
  obtain lg' where adp: "admit (pm_pending m) ?a = ((requeued p r, r) # adm, n + extend_len r, lg', a2)"
    using t ad q by (simp add: Let_def requeued_def)
  then obtain b m' oid' where pb: "prefill_batch budget dm oid m = (Some b, m', oid')"
    and b: "bt_reqs b = r # map snd adm"
    and m': "pm_pending m' = map fst (filter (\<lambda>(p, r). rq_chunked r) ((requeued p r, r) # adm)) @
        filter (\<lambda>x. pd_id x \<notin> pd_id ` fst ` set ((requeued p r, r) # adm)) (pm_pending m)"
    using q(1) by (simp add: prefill_batch_def Let_def)
  have 1: "\<exists>qs. pm_pending m' = requeued p r # qs" if "rq_chunked r" using m' that by simp
  have 2: "pd_id p \<notin> set (map pd_id (pm_pending m'))" if nc: "\<not> rq_chunked r"
  proof -
    obtain sub rs where s: "adm = map2 (\<lambda>p r. (requeued p r, r)) sub rs" "pass_ok ps a1 sub rs n a2"
      using admit_pass [OF ad] ok q(1) by auto
    have "set sub \<subseteq> set ps" using s(2) subseq_subset by (auto simp: pass_ok_def)
    moreover have "pd_id p \<notin> pd_id ` set ps" using d q(1) by auto
    ultimately have "pd_id p \<notin> pd_id ` fst ` set adm"
      unfolding s(1) by (auto dest!: set_zip_leftD)
    then show ?thesis unfolding m' using nc by force
  qed
  show ?thesis using that [OF pb sl _ ex 1 2] b by simp
qed

text \<open>Consecutive prefill passes, with whatever decode set each of them sees.\<close>

fun passes :: "int \<Rightarrow> decode_manager list \<Rightarrow> nat \<Rightarrow> prefill_manager \<Rightarrow> prefill_manager" where
  "passes budget [] oid m = m"
| "passes budget (dm # dms) oid m =
     (let (_, m', oid') = prefill_batch budget dm oid m in passes budget dms oid' m')"

lemma passes_ids:
  assumes "\<forall>p \<in> set (pm_pending m). pending_ok p" "distinct (map pd_id (pm_pending m))"
  shows "set (map pd_id (pm_pending (passes budget dms oid m))) \<subseteq> set (map pd_id (pm_pending m))"
  using assms
proof (induction dms arbitrary: oid m)
  case (Cons dm dms)
  obtain ob m' oid' where pb: "prefill_batch budget dm oid m = (ob, m', oid')" by (metis prod_cases3)
  note K = prefill_batch_keeps [OF pb Cons.prems]
  show ?case using subset_trans [OF Cons.IH [OF K(1,2), of oid'] K(3)] pb by simp
qed simp

text \<open>C25. A chunked prompt finishes. A prompt whose first chunk has run is at the head of
  the queue; it is extended by the whole step budget in every following prefill pass,
  whatever else is queued or decoding, and has left the queue (its last chunk in the batch)
  after at most \<open>remaining / budget\<close> passes, rounded up.\<close>

theorem chunked_prompt_finishes:
  assumes "pm_pending m = p # ps" "pd_chunk p \<noteq> None" "0 < budget"
    "\<forall>q \<in> set (pm_pending m). pending_ok q" "distinct (map pd_id (pm_pending m))"
    "input_len p - resume_at p \<le> budget * int (length dms)"
  shows "pd_id p \<notin> set (map pd_id (pm_pending (passes budget dms oid m)))"
  using assms
proof (induction dms arbitrary: oid m p ps)
  case Nil
  then show ?case using resume_bounds [of p] by simp
next
  case (Cons dm dms)
  obtain b m' oid' r where h: "prefill_batch budget dm oid m = (Some b, m', oid')" "slice_of p r"
    "extend_len r = min budget (input_len p - resume_at p)"
    "rq_chunked r \<Longrightarrow> \<exists>qs. pm_pending m' = requeued p r # qs"
    "\<not> rq_chunked r \<Longrightarrow> pd_id p \<notin> set (map pd_id (pm_pending m'))"
    using head_continuation [OF Cons.prems(1-5)] by metis
  note K = prefill_batch_keeps [OF h(1) Cons.prems(4,5)]
  show ?case
  proof (cases "rq_chunked r")
    case True
    then obtain qs where qs: "pm_pending m' = requeued p r # qs" using h(4) by blast
    have "resume_at (requeued p r) = resume_at p + extend_len r" using resume_requeued [OF h(2) True] .
    moreover have "extend_len r = budget"
      using h(2,3) True by (auto simp: slice_of_def extend_len_def)
    ultimately have "input_len (requeued p r) - resume_at (requeued p r) \<le> budget * int (length dms)"
      using Cons.prems(6) by (simp add: algebra_simps)
    then have "pd_id (requeued p r) \<notin> set (map pd_id (pm_pending (passes budget dms oid' m')))"
      using Cons.IH [OF qs _ Cons.prems(3) K(1,2)] True by simp
    then show ?thesis using h(1) by simp
  next
    case False
    then have "pd_id p \<notin> set (map pd_id (pm_pending m'))" using h(5) by blast
    then show ?thesis using passes_ids [OF K(1,2), of budget dms oid'] h(1) by auto
  qed
qed

lemma chunked_prompt_finishes_witness:
  "pd_id (demo_pending 0 [1, 2, 3, 4, 5] 2) \<notin> set (map pd_id (pm_pending (passes 2 [demo_dm, demo_dm] 1
     \<lparr>pm_max_running = 4, pm_cache_budget = 100, pm_page_size = 1,
      pm_pending = [(demo_pending 0 [1, 2, 3, 4, 5] 2)
        \<lparr>pd_chunk := Some (make_req True 0 0 [1, 2] 0 0 0 2 None None None None)\<rparr>,
        demo_pending 1 [6, 7] 3]\<rparr>)))"
proof -
  let ?p = "(demo_pending 0 [1, 2, 3, 4, 5] 2)
        \<lparr>pd_chunk := Some (make_req True 0 0 [1, 2] 0 0 0 2 None None None None)\<rparr>"
  let ?m = "\<lparr>pm_max_running = 4, pm_cache_budget = 100, pm_page_size = 1,
      pm_pending = [?p, demo_pending 1 [6, 7] 3]\<rparr>"
  have "pd_id ?p \<notin> set (map pd_id (pm_pending (passes 2 [demo_dm, demo_dm] 1 ?m)))"
    by (rule chunked_prompt_finishes [of ?m ?p "[demo_pending 1 [6, 7] 3]"])
       (simp_all add: demo_defs pending_ok_def input_len_def resume_at_def)
  then show ?thesis by (simp add: demo_defs)
qed

text \<open>The reservation does not survive the step. A prompt in the middle of its chunks
  is in no pass's \<open>reserved_size\<close>: with a pool of 10 tokens and nothing decoding, a prompt
  with footprint 9 (7 prompt tokens, 2 output tokens) is being continued, and the same pass
  admits a second prompt with footprint 10; the two need 19 tokens of the pool of 10.\<close>

theorem continuation_footprint_unreserved:
  "let m = \<lparr>pm_max_running = 4, pm_cache_budget = 10, pm_page_size = 1,
             pm_pending = [demo_pending 0 [1, 2, 3, 4, 5, 6, 7] 2, demo_pending 1 [8] 9]\<rparr>;
       (b1, m1, o1) = prefill_batch 4 demo_dm 0 m;
       (b2, m2, o2) = prefill_batch 4 demo_dm o1 m1
   in map_option (map (\<lambda>r. (rq_uid r, rq_chunked r, extend_len r)) \<circ> bt_reqs) b1 = Some [(0, True, 4)]
    \<and> map_option (map (\<lambda>r. (rq_uid r, rq_chunked r, extend_len r)) \<circ> bt_reqs) b2
        = Some [(0, False, 3), (1, False, 1)]
    \<and> pm_pending m2 = []
    \<and> pm_cache_budget m < footprint (demo_pending 0 [1, 2, 3, 4, 5, 6, 7] 2) + footprint (demo_pending 1 [8] 9)"
  by code_simp

end
