(* ===== verification/Scheduler.thy ===== *)
theory Scheduler
  imports Prefill
begin

text \<open>
  \<open>scheduler/scheduler.py\<close>: the choice of each step's batch and the ownership of the
  page-table rows. A step is \<open>schedule\<close>, the engine's update of the batch's requests
  (\<open>engine/engine.py\<close>, the bookkeeping after sampling) and \<open>complete\<close>.
\<close>

section \<open>State and operations\<close>

record scheduler =
  sd_max_running :: nat
  sd_max_extend :: int
  sd_next_uid :: int
  sd_free :: "nat list"
  sd_dm :: decode_manager
  sd_pm :: prefill_manager
  sd_next_oid :: nat

definition sched_init :: "nat \<Rightarrow> int \<Rightarrow> int \<Rightarrow> int \<Rightarrow> scheduler" where
  "sched_init max_running max_extend page_size cache_budget =
     \<lparr> sd_max_running = max_running, sd_max_extend = max_extend, sd_next_uid = 0,
       sd_free = sort [0..<max_running],
       sd_dm = \<lparr>dm_page_size = page_size, dm_running = []\<rparr>,
       sd_pm = \<lparr>pm_max_running = int max_running, pm_cache_budget = cache_budget,
                pm_page_size = page_size, pm_pending = []\<rparr>,
       sd_next_oid = 0 \<rparr>"

definition sched_add :: "pending \<Rightarrow> scheduler \<Rightarrow> (int \<times> scheduler) res" where
  "sched_add p s =
     (case sd_free s of
        [] \<Rightarrow> Inl RuntimeError
      | t # ts \<Rightarrow>
          Inr (pd_uid p,
               s\<lparr>sd_free := ts,
                 sd_pm := pm_add (p\<lparr>pd_table := t, pd_next_table := - 1\<rparr>) (sd_pm s),
                 sd_next_uid := max (sd_next_uid s) (pd_uid p + 1)\<rparr>))"

definition pending_row :: "pending \<Rightarrow> nat" where
  "pending_row p = (case pd_chunk p of Some c \<Rightarrow> rq_table c | None \<Rightarrow> pd_table p)"

fun pop_pending :: "int \<Rightarrow> pending list \<Rightarrow> (pending \<times> pending list) option" where
  "pop_pending uid [] = None"
| "pop_pending uid (p # ps) =
     (if pd_uid p = uid then Some (p, ps)
      else map_option (\<lambda>(x, xs). (x, p # xs)) (pop_pending uid ps))"

definition sched_abort :: "int \<Rightarrow> scheduler \<Rightarrow> bool \<times> scheduler" where
  "sched_abort uid s =
     (case pop_pending uid (pm_pending (sd_pm s)) of
        Some (p, ps) \<Rightarrow>
          (True, s\<lparr>sd_pm := (sd_pm s)\<lparr>pm_pending := ps\<rparr>, sd_free := sort (sd_free s @ [pending_row p])\<rparr>)
      | None \<Rightarrow>
          (case decode_abort uid (sd_dm s) of
             (Some r, dm) \<Rightarrow> (True, s\<lparr>sd_dm := dm, sd_free := sort (sd_free s @ [rq_table r])\<rparr>)
           | (None, _) \<Rightarrow> (False, s)))"

definition sched_schedule :: "scheduler \<Rightarrow> batch option \<times> scheduler" where
  "sched_schedule s =
     (let (ob, pm, oid) = prefill_batch (sd_max_extend s) (sd_dm s) (sd_next_oid s) (sd_pm s);
          s' = s\<lparr>sd_pm := pm, sd_next_oid := oid\<rparr>
      in case ob of Some b \<Rightarrow> (Some b, s') | None \<Rightarrow> (decode_batch (sd_dm s), s'))"

text \<open>\<open>complete\<close>: the rows of the requests that were running and no longer are, then the
  rows of the batch's aborted requests that the difference missed.\<close>

definition freed_rows :: "req list \<Rightarrow> req list \<Rightarrow> req list \<Rightarrow> nat list" where
  "freed_rows before after reqs =
     foldl (\<lambda>fr r. if rq_aborted r \<and> rq_table r \<notin> set fr then fr @ [rq_table r] else fr)
       (map rq_table (filter (\<lambda>r. rq_oid r \<notin> rq_oid ` set after) before)) reqs"

definition sched_complete :: "req list \<Rightarrow> scheduler \<Rightarrow> scheduler" where
  "sched_complete reqs s =
     (let before = sync reqs (dm_running (sd_dm s));
          dm = filter_reqs reqs ((sd_dm s)\<lparr>dm_running := before\<rparr>);
          freed = freed_rows before (dm_running dm) reqs
      in s\<lparr>sd_dm := dm, sd_free := (if freed = [] then sd_free s else sort (sd_free s @ freed))\<rparr>)"

text \<open>The property \<open>idle\<close> runs \<open>schedule\<close>.\<close>

definition sched_idle :: "scheduler \<Rightarrow> bool \<times> scheduler" where
  "sched_idle s = (let (b, s') = sched_schedule s in (b = None, s'))"

definition next_table_idx_of :: "req \<Rightarrow> scheduler \<Rightarrow> int" where
  "next_table_idx_of r s = (case sd_free s of [] \<Rightarrow> - 1 | t # _ \<Rightarrow> int t)"

section \<open>The engine's part of a step\<close>

text \<open>\<open>Engine.step\<close>, the loop over the batch after sampling: a chunk is skipped; any other
  request gets its token, and is aborted at the end-of-sequence token or at its length.\<close>

definition post_append :: "phase \<Rightarrow> token option \<Rightarrow> token \<Rightarrow> req \<Rightarrow> req" where
  "post_append ph anchor_id tok r =
     (let r1 = r\<lparr>rq_input := (if ph = Decode then [tok] else rq_input r @ [tok]),
                 rq_device_len := rq_device_len r + 1\<rparr>
      in if anchor_id = Some tok \<and> rq_anchor r1 = None
         then r1\<lparr>rq_anchor := Some (rq_device_len r1)\<rparr> else r1)"

definition post_finish :: "phase \<Rightarrow> token option \<Rightarrow> bool \<Rightarrow> token \<Rightarrow> req \<Rightarrow> req" where
  "post_finish ph eos ignore_eos tok r =
     (let r3 = (if ph = Prefill \<and> rq_cached_len r > 0
                then r\<lparr>rq_cached_len := int (length (rq_input r)) - 1\<rparr> else r);
          r4 = (if \<not> ignore_eos \<and> eos = Some tok then r3\<lparr>rq_aborted := True\<rparr> else r3)
      in if rq_device_len r4 \<ge> rq_max_device_len r4 then r4\<lparr>rq_aborted := True\<rparr> else r4)"

definition post_sample ::
  "phase \<Rightarrow> token option \<Rightarrow> token option \<Rightarrow> (req \<Rightarrow> bool) \<Rightarrow> (req \<Rightarrow> token) \<Rightarrow> req \<Rightarrow> req" where
  "post_sample ph anchor_id eos ignore_eos tok_of r =
     (if rq_chunked r then r
      else post_finish ph eos (ignore_eos r) (tok_of r) (post_append ph anchor_id (tok_of r) r))"

text \<open>What \<open>complete\<close> relies on: an executed request keeps its identity and its row, a chunk
  is left alone, and any other can go on decoding or is aborted.\<close>

definition exec_ok :: "(req \<Rightarrow> req) \<Rightarrow> bool" where
  "exec_ok g \<longleftrightarrow> (\<forall>r. rq_oid (g r) = rq_oid r \<and> rq_table (g r) = rq_table r \<and> rq_uid (g r) = rq_uid r
     \<and> rq_chunked (g r) = rq_chunked r \<and> (rq_chunked r \<longrightarrow> rq_aborted (g r) = rq_aborted r)
     \<and> (\<not> rq_chunked r \<longrightarrow> can_decode (g r) \<or> rq_aborted (g r)))"

lemma post_sample_exec_ok: "exec_ok (post_sample ph a e i t)"
  by (simp add: exec_ok_def post_sample_def post_append_def post_finish_def Let_def can_decode_def remain_len_def)

definition sched_step ::
  "token option \<Rightarrow> token option \<Rightarrow> (req \<Rightarrow> bool) \<Rightarrow> (req \<Rightarrow> token) \<Rightarrow> scheduler \<Rightarrow> scheduler" where
  "sched_step anchor_id eos ignore_eos tok_of s =
     (case sched_schedule s of
        (None, s1) \<Rightarrow> s1
      | (Some b, s1) \<Rightarrow> sched_complete (map (post_sample (bt_phase b) anchor_id eos ignore_eos tok_of) (bt_reqs b)) s1)"

section \<open>Rows are conserved\<close>

definition sched_inv :: "scheduler \<Rightarrow> bool" where
  "sched_inv s \<longleftrightarrow>
     sorted (sd_free s) \<and>
     mset (sd_free s) + mset (map pd_table (pm_pending (sd_pm s))) + mset (map rq_table (dm_running (sd_dm s)))
       = mset [0..<sd_max_running s] \<and>
     (\<forall>p \<in> set (pm_pending (sd_pm s)). pending_ok p) \<and> distinct (map pd_id (pm_pending (sd_pm s))) \<and>
     distinct (map rq_oid (dm_running (sd_dm s))) \<and>
     (\<forall>r \<in> set (dm_running (sd_dm s)). rq_oid r < sd_next_oid s \<and> \<not> rq_chunked r)"

lemma sched_init_inv: "sched_inv (sched_init n e ps cb)"
  by (simp add: sched_inv_def sched_init_def)

lemma pending_row_ok: "pending_ok p \<Longrightarrow> pending_row p = pd_table p"
  by (auto simp: pending_ok_def pending_row_def split: option.splits)

lemma pop_pending_Some:
  "pop_pending uid ps = Some (p, ps') \<Longrightarrow> \<exists>xs ys. ps = xs @ p # ys \<and> ps' = xs @ ys \<and> pd_uid p = uid"
proof (induction ps arbitrary: ps')
  case (Cons a ps)
  show ?case
  proof (cases "pd_uid a = uid")
    case True
    then show ?thesis using Cons.prems by (intro exI [of _ "[]"] exI [of _ ps]) auto
  next
    case False
    then obtain qs where q: "pop_pending uid ps = Some (p, qs)" "ps' = a # qs" using Cons.prems by auto
    then obtain xs ys where "ps = xs @ p # ys" "qs = xs @ ys" "pd_uid p = uid" using Cons.IH by blast
    then show ?thesis using q by (intro exI [of _ "a # xs"] exI [of _ ys]) auto
  qed
qed simp

lemma sched_add_inv:
  assumes "sched_inv s" "sched_add p s = Inr (u, s')" "pending_ok p" "pd_chunk p = None"
    "pd_id p \<notin> pd_id ` set (pm_pending (sd_pm s))"
  shows "sched_inv s'"
proof -
  obtain t ts where f: "sd_free s = t # ts" and s': "s' = s\<lparr>sd_free := ts,
      sd_pm := pm_add (p\<lparr>pd_table := t, pd_next_table := - 1\<rparr>) (sd_pm s),
      sd_next_uid := max (sd_next_uid s) (pd_uid p + 1)\<rparr>"
    using assms(2) by (auto simp: sched_add_def split: list.splits)
  have "pending_ok (p\<lparr>pd_table := t, pd_next_table := - 1\<rparr>)"
    using assms(3,4) by (simp add: pending_ok_def input_len_def)
  then show ?thesis using assms(1,5) f by (simp add: sched_inv_def s' pm_add_def)
qed

lemma sched_abort_inv:
  assumes inv: "sched_inv s" and ab: "sched_abort uid s = (found, s')"
  shows "sched_inv s'"
proof (cases "pop_pending uid (pm_pending (sd_pm s))")
  case (Some q)
  obtain p ps where q: "q = (p, ps)" by (cases q)
  obtain xs ys where l: "pm_pending (sd_pm s) = xs @ p # ys" "ps = xs @ ys"
    using pop_pending_Some [OF Some [unfolded q]] by blast
  have "pending_row p = pd_table p" using inv l(1) by (auto simp: sched_inv_def intro: pending_row_ok)
  then show ?thesis
    using inv ab Some q l by (auto simp: sched_abort_def sched_inv_def)
next
  case None
  show ?thesis
  proof (cases "pop_uid uid (dm_running (sd_dm s))")
    case None
    then show ?thesis using inv ab \<open>pop_pending uid _ = None\<close> by (simp add: sched_abort_def decode_abort_def)
  next
    case (Some q)
    obtain r rs where q: "q = (r, rs)" by (cases q)
    obtain xs ys where l: "dm_running (sd_dm s) = xs @ r # ys" "rs = xs @ ys"
      using pop_uid_Some [OF Some [unfolded q]] by blast
    then show ?thesis
      using inv ab None Some q by (auto simp: sched_abort_def decode_abort_def sched_inv_def)
  qed
qed

lemma mset_zip_filter:
  assumes "list_all2 P sub rs" "\<And>p r. P p r \<Longrightarrow> \<not> rq_chunked r \<Longrightarrow> F p = G r"
  shows "mset (map F sub) = mset (map F (map fst (filter (\<lambda>(p, r). rq_chunked r) (zip sub rs))))
    + mset (map G (filter (\<lambda>r. \<not> rq_chunked r) rs))"
  using assms(1) by (induction rule: list_all2_induct) (auto simp: assms(2))

text \<open>A prefill pass divides the queue: whatever is recorded of an entry is still in the queue or is
  what is recorded of the request that ends its prompt.\<close>

lemma prefill_partition:
  assumes pb: "prefill_batch budget dm oid m = (Some b, m', oid')"
    and ok: "\<forall>p \<in> set (pm_pending m). pending_ok p" and d: "distinct (map pd_id (pm_pending m))"
    and F: "\<And>p r. F (requeued p r) = F p"
    and FG: "\<And>p r. slice_of p r \<Longrightarrow> rq_table r = pd_table p \<Longrightarrow> \<not> rq_chunked r \<Longrightarrow> F p = G r"
  shows "mset (map F (pm_pending m)) = mset (map F (pm_pending m')) + mset (map G (filter (\<lambda>r. \<not> rq_chunked r) (bt_reqs b)))"
proof -
  let ?ps = "pm_pending m"
  obtain sub rs a' where s: "bt_reqs b = rs"
    "pass_ok ?ps (init_adder budget dm m oid) sub rs (bt_new_tokens b) a'"
    "pm_pending m' = map2 requeued (map fst (filter (\<lambda>(p, r). rq_chunked r) (zip sub rs)))
                                   (map snd (filter (\<lambda>(p, r). rq_chunked r) (zip sub rs)))
                     @ filter (\<lambda>p. p \<notin> set sub) ?ps" "oid' = ad_next_oid a'"
    using prefill_batch_Some [OF pb ok d] by metis
  let ?C = "filter (\<lambda>(p, r). rq_chunked r) (zip sub rs)"
  have P: "subseq sub ?ps" "list_all2 (\<lambda>p r. slice_of p r \<and> rq_table r = pd_table p) sub rs"
    using s(2) by (auto simp: pass_ok_def)
  have dps: "distinct ?ps" using d by (simp add: distinct_map)
  have "map F (map2 requeued (map fst ?C) (map snd ?C)) = map F (map fst ?C)"
    unfolding zip_map_fst_snd by (simp add: comp_def case_prod_beta F)
  then have 1: "mset (map F (pm_pending m')) = mset (map F (map fst ?C)) + mset (map F (filter (\<lambda>p. p \<notin> set sub) ?ps))"
    unfolding s(3) map_append mset_append by simp
  have "filter (\<lambda>p. p \<in> set sub) ?ps = sub" using subseq_filter_mem [OF P(1) dps] .
  then have "mset ?ps = mset sub + mset (filter (\<lambda>p. p \<notin> set sub) ?ps)"
    by (metis (no_types) mset_filter multiset_partition)
  then have "mset (map F ?ps) = mset (map F sub) + mset (map F (filter (\<lambda>p. p \<notin> set sub) ?ps))"
    unfolding mset_map by (metis image_mset_union)
  moreover have "mset (map F sub) = mset (map F (map fst ?C)) + mset (map G (filter (\<lambda>r. \<not> rq_chunked r) rs))"
    by (rule mset_zip_filter [OF P(2)]) (simp add: FG)
  ultimately show ?thesis using 1 s(1) by (simp only: add.assoc add.commute add.left_commute)
qed

text \<open>The rows of the queue before a prefill pass are those of the queue after it and those
  of the batch's finished prompts; the batch's requests are new objects.\<close>

lemma prefill_rows:
  assumes pb: "prefill_batch budget dm oid m = (Some b, m', oid')"
    and ok: "\<forall>p \<in> set (pm_pending m). pending_ok p" and d: "distinct (map pd_id (pm_pending m))"
  shows "mset (map pd_table (pm_pending m)) = mset (map pd_table (pm_pending m'))
      + mset (map rq_table (filter (\<lambda>r. \<not> rq_chunked r) (bt_reqs b)))"
    "map rq_oid (bt_reqs b) = [oid..<oid']" "oid \<le> oid'" "\<forall>r \<in> set (bt_reqs b). \<not> rq_aborted r"
proof -
  let ?ps = "pm_pending m"
  obtain sub rs a' where s: "bt_reqs b = rs"
    "pass_ok ?ps (init_adder budget dm m oid) sub rs (bt_new_tokens b) a'" "oid' = ad_next_oid a'"
    using prefill_batch_Some [OF pb ok d] by metis
  have P: "list_all2 (\<lambda>p r. slice_of p r \<and> rq_table r = pd_table p) sub rs"
    "map rq_oid rs = [oid..<oid']" "oid \<le> oid'"
    using s(2,3) by (auto simp: pass_ok_def init_adder_def)
  show "mset (map pd_table (pm_pending m)) = mset (map pd_table (pm_pending m'))
      + mset (map rq_table (filter (\<lambda>r. \<not> rq_chunked r) (bt_reqs b)))"
    by (rule prefill_partition [OF pb ok d]) simp_all
  show "map rq_oid (bt_reqs b) = [oid..<oid']" "oid \<le> oid'" using P s(1) by simp_all
  show "\<forall>r \<in> set (bt_reqs b). \<not> rq_aborted r"
  proof
    fix r assume rin: "r \<in> set (bt_reqs b)"
    obtain i where i: "i < length rs" "rs ! i = r" using rin s(1) by (auto simp: in_set_conv_nth)
    show "\<not> rq_aborted r" using list_all2_nthD2 [OF P(1) i(1)] i(2) by (simp add: slice_of_def)
  qed
qed

lemma sync_new: "\<forall>r \<in> set rs. \<forall>x \<in> set reqs. rq_oid x \<noteq> rq_oid r \<Longrightarrow> sync reqs rs = rs"
proof -
  assume a: "\<forall>r \<in> set rs. \<forall>x \<in> set reqs. rq_oid x \<noteq> rq_oid r"
  have "find (\<lambda>x. rq_oid x = rq_oid r) reqs = None" if "r \<in> set rs" for r
    using a that by (simp add: find_None_iff)
  then show ?thesis by (simp add: sync_def map_idI)
qed

lemma find_append_None: "find P xs = None \<Longrightarrow> find P (xs @ ys) = find P ys"
  by (induction xs) (auto split: if_splits)

lemma sync_same:
  assumes "distinct (map rq_oid rs)" "exec_ok g"
  shows "sync (map g (sort_key k rs)) rs = map g rs"
proof -
  have "find (\<lambda>x. rq_oid x = rq_oid r) (map g (sort_key k rs)) = Some (g r)" if r: "r \<in> set rs" for r
  proof -
    have "r \<in> set (sort_key k rs)" using r by simp
    then obtain xs ys where s: "sort_key k rs = xs @ r # ys" by (meson split_list)
    have "distinct (map rq_oid (sort_key k rs))"
      using assms(1) mset_eq_distinct [of "map rq_oid (sort_key k rs)" "map rq_oid rs"] by simp
    then have "\<forall>x \<in> set xs. rq_oid x \<noteq> rq_oid r" using s by (auto simp: image_iff)
    then have "find (\<lambda>x. rq_oid x = rq_oid r) (map g xs) = None"
      using assms(2) by (auto simp: find_None_iff exec_ok_def)
    then show ?thesis using s assms(2) by (simp add: find_append_None exec_ok_def)
  qed
  then show ?thesis by (simp add: sync_def)
qed

text \<open>The rows that \<open>complete\<close> frees, when no batch row is repeated.\<close>

lemma freed_rows_eq:
  assumes "distinct (map rq_table (filter rq_aborted reqs))"
    "\<forall>r \<in> set reqs. rq_aborted r \<longrightarrow> rq_table r \<notin> set fr"
  shows "foldl (\<lambda>fr r. if rq_aborted r \<and> rq_table r \<notin> set fr then fr @ [rq_table r] else fr) fr reqs
    = fr @ map rq_table (filter rq_aborted reqs)"
  using assms
proof (induction reqs arbitrary: fr)
  case (Cons r rs)
  show ?case
  proof (cases "rq_aborted r")
    case True
    have "\<forall>x \<in> set rs. rq_aborted x \<longrightarrow> rq_table x \<notin> set (fr @ [rq_table r])"
      using Cons.prems True by (auto simp: image_iff)
    then show ?thesis using Cons True by simp
  next
    case False
    then show ?thesis using Cons by simp
  qed
qed simp

lemma freed_rows_seen:
  assumes "\<forall>r \<in> set reqs. rq_aborted r \<longrightarrow> rq_table r \<in> set fr"
  shows "foldl (\<lambda>fr r. if rq_aborted r \<and> rq_table r \<notin> set fr then fr @ [rq_table r] else fr) fr reqs = fr"
  using assms by (induction reqs) auto

lemma mset_partition: "mset (filter P xs) + mset (filter (\<lambda>x. \<not> P x) xs) = mset xs"
  by (simp flip: multiset_partition)


lemma complete_free:
  assumes "sync reqs (dm_running (sd_dm s)) = before" "sorted (sd_free s)"
  defines "F \<equiv> freed_rows before (dm_running (filter_reqs reqs ((sd_dm s)\<lparr>dm_running := before\<rparr>))) reqs"
  shows "mset (sd_free (sched_complete reqs s)) = mset (sd_free s) + mset F"
    "sorted (sd_free (sched_complete reqs s))"
  using assms(1,2) unfolding F_def by (simp_all add: sched_complete_def Let_def)

text \<open>The requests of a prefill batch are new objects, and what decodes after the step.\<close>

lemma prefill_sync:
  assumes inv: "sched_inv s" and sc: "prefill_batch (sd_max_extend s) (sd_dm s) (sd_next_oid s) (sd_pm s) = (Some b, pm, oid)"
    and g: "exec_ok g"
  defines "run \<equiv> dm_running (sd_dm s)" and "reqs \<equiv> map g (bt_reqs b)"
  shows "sync reqs run = run" "\<forall>x \<in> set reqs. sd_next_oid s \<le> rq_oid x \<and> rq_oid x < oid" "distinct (map rq_oid reqs)"
    "dm_running (filter_reqs reqs (sd_dm s)) = filter can_decode run @ filter can_decode reqs"
    "filter can_decode reqs = map g (filter (\<lambda>r. can_decode (g r)) (filter (\<lambda>r. \<not> rq_chunked r) (bt_reqs b)))"
proof -
  have I: "\<forall>p \<in> set (pm_pending (sd_pm s)). pending_ok p" "distinct (map pd_id (pm_pending (sd_pm s)))"
    "distinct (map rq_oid run)" "\<forall>r \<in> set run. rq_oid r < sd_next_oid s \<and> \<not> rq_chunked r"
    using inv by (auto simp: sched_inv_def run_def)
  have E: "rq_oid (g r) = rq_oid r" "rq_chunked (g r) = rq_chunked r" for r using g by (auto simp: exec_ok_def)
  have oids: "map rq_oid reqs = [sd_next_oid s..<oid]"
    using prefill_rows(2) [OF sc I(1,2)] by (simp add: E(1) reqs_def comp_def cong: map_cong)
  then show dr: "distinct (map rq_oid reqs)" by simp
  show new: "\<forall>x \<in> set reqs. sd_next_oid s \<le> rq_oid x \<and> rq_oid x < oid"
  proof
    fix x assume "x \<in> set reqs"
    then have "rq_oid x \<in> set (map rq_oid reqs)" by simp
    then show "sd_next_oid s \<le> rq_oid x \<and> rq_oid x < oid" unfolding oids by simp
  qed
  show "sync reqs run = run" using I(4) new by (intro sync_new) fastforce
  have fr: "rq_oid x \<notin> rq_oid ` set run" if "x \<in> set reqs" for x using I(4) new that by fastforce
  have "filter (\<lambda>x. can_decode x \<and> rq_oid x \<notin> rq_oid ` set run) reqs = filter can_decode reqs"
    using fr by (intro filter_cong) auto
  then show "dm_running (filter_reqs reqs (sd_dm s)) = filter can_decode run @ filter can_decode reqs"
    using filter_reqs_eq [of "sd_dm s" reqs] I(3) dr by (simp add: run_def)
  have "can_decode (g r) \<Longrightarrow> \<not> rq_chunked r" for r using E(2) by (auto simp: can_decode_def split: if_splits)
  then have "filter (\<lambda>r. can_decode (g r)) (bt_reqs b) = filter (\<lambda>r. can_decode (g r)) (filter (\<lambda>r. \<not> rq_chunked r) (bt_reqs b))"
    by (auto intro!: filter_cong)
  then show "filter can_decode reqs = map g (filter (\<lambda>r. can_decode (g r)) (filter (\<lambda>r. \<not> rq_chunked r) (bt_reqs b)))"
    by (simp add: filter_map comp_def reqs_def)
qed

lemma prefill_complete_running:
  assumes "sched_inv s" "prefill_batch (sd_max_extend s) (sd_dm s) (sd_next_oid s) (sd_pm s) = (Some b, pm, oid)" "exec_ok g"
  shows "dm_running (sd_dm (sched_complete (map g (bt_reqs b)) (s\<lparr>sd_pm := pm, sd_next_oid := oid\<rparr>))) =
      filter can_decode (dm_running (sd_dm s)) @ map g (filter (\<lambda>r. can_decode (g r)) (filter (\<lambda>r. \<not> rq_chunked r) (bt_reqs b)))"
    "sd_pm (sched_complete (map g (bt_reqs b)) (s\<lparr>sd_pm := pm, sd_next_oid := oid\<rparr>)) = pm"
  using prefill_sync(1,4,5) [OF assms] by (simp_all add: sched_complete_def Let_def del: filter_filter)

lemma step_prefill_inv:
  assumes inv: "sched_inv s" and sc: "prefill_batch (sd_max_extend s) (sd_dm s) (sd_next_oid s) (sd_pm s) = (Some b, pm, oid)"
    and g: "exec_ok g"
  shows "sched_inv (sched_complete (map g (bt_reqs b)) (s\<lparr>sd_pm := pm, sd_next_oid := oid\<rparr>))"
proof -
  let ?run = "dm_running (sd_dm s)" and ?reqs = "map g (bt_reqs b)"
  have I: "sorted (sd_free s)" "\<forall>p \<in> set (pm_pending (sd_pm s)). pending_ok p"
    "distinct (map pd_id (pm_pending (sd_pm s)))" "distinct (map rq_oid ?run)"
    "\<forall>r \<in> set ?run. rq_oid r < sd_next_oid s \<and> \<not> rq_chunked r"
    and part: "mset (sd_free s) + mset (map pd_table (pm_pending (sd_pm s))) + mset (map rq_table ?run)
       = mset [0..<sd_max_running s]"
    using inv by (auto simp: sched_inv_def)
  note R = prefill_rows [OF sc I(2,3)] and K = prefill_batch_keeps [OF sc I(2,3)]
  have E: "rq_oid (g r) = rq_oid r" "rq_table (g r) = rq_table r" "rq_chunked (g r) = rq_chunked r"
    "rq_chunked r \<Longrightarrow> rq_aborted (g r) = rq_aborted r" "\<not> rq_chunked r \<Longrightarrow> can_decode (g r) \<or> rq_aborted (g r)" for r
    using g by (auto simp: exec_ok_def)
  let ?dm = "filter_reqs ?reqs (sd_dm s)" and ?N = "filter (\<lambda>r. \<not> rq_chunked r) (bt_reqs b)"
  note sy = prefill_sync(1) [OF inv sc g] and new = prefill_sync(2) [OF inv sc g] and dr = prefill_sync(3) [OF inv sc g]
    and run' = prefill_sync(4) [OF inv sc g] and can = prefill_sync(5) [OF inv sc g]
  have gone: "filter (\<lambda>r. rq_oid r \<notin> rq_oid ` set (dm_running ?dm)) ?run = filter (\<lambda>r. \<not> can_decode r) ?run"
  proof (rule filter_cong [OF refl])
    fix r assume r: "r \<in> set ?run"
    have "rq_oid r \<notin> rq_oid ` set ?reqs" using I(5) new r by fastforce
    moreover have "rq_oid r \<in> rq_oid ` set (filter can_decode ?run) \<longleftrightarrow> can_decode r"
      using I(4) r by (auto simp: distinct_map inj_on_def)
    ultimately show "(rq_oid r \<notin> rq_oid ` set (dm_running ?dm)) = (\<not> can_decode r)"
      unfolding run' by auto
  qed
  let ?fr1 = "map rq_table (filter (\<lambda>r. \<not> can_decode r) ?run)"
  have ab: "filter rq_aborted ?reqs = map g (filter (\<lambda>r. \<not> can_decode (g r)) ?N)"
  proof -
    have "rq_aborted (g r) \<longleftrightarrow> \<not> rq_chunked r \<and> \<not> can_decode (g r)" if "r \<in> set (bt_reqs b)" for r
      using E(3) [of r] E(4) [of r] E(5) [of r] R(4) that by (cases "rq_chunked r") (auto simp: can_decode_def split: if_splits)
    then have "filter (\<lambda>r. rq_aborted (g r)) (bt_reqs b) = filter (\<lambda>r. \<not> can_decode (g r)) ?N"
      by (auto intro!: filter_cong)
    then show ?thesis by (simp add: filter_map comp_def)
  qed
  have part2: "mset (sd_free s) + mset (map pd_table (pm_pending pm)) + mset (map rq_table ?N) + mset (map rq_table ?run)
      = mset [0..<sd_max_running s]"
    using part R(1) by (simp add: add_ac)
  have dN: "distinct (map rq_table ?N @ map rq_table ?run)"
  proof -
    have "mset ((map rq_table ?N @ map rq_table ?run) @ sd_free s @ map pd_table (pm_pending pm)) = mset [0..<sd_max_running s]"
      using part2 by (simp add: add_ac)
    then have "distinct ((map rq_table ?N @ map rq_table ?run) @ sd_free s @ map pd_table (pm_pending pm))"
      using mset_eq_distinct by fastforce
    then show ?thesis unfolding distinct_append [of "map rq_table ?N @ map rq_table ?run"] by blast
  qed
  have "freed_rows ?run (dm_running ?dm) ?reqs = ?fr1 @ map rq_table (filter rq_aborted ?reqs)"
    unfolding freed_rows_def gone
  proof (rule freed_rows_eq)
    show "distinct (map rq_table (filter rq_aborted ?reqs))"
    proof -
      have "distinct (map rq_table (filter (\<lambda>r. \<not> can_decode (g r)) ?N))"
        by (rule distinct_map_filter) (use dN in simp)
      then show ?thesis unfolding ab by (simp add: E(2) comp_def del: filter_filter)
    qed
    show "\<forall>r \<in> set ?reqs. rq_aborted r \<longrightarrow> rq_table r \<notin> set ?fr1"
    proof (intro ballI impI notI)
      fix r assume "r \<in> set ?reqs" "rq_aborted r" "rq_table r \<in> set ?fr1"
      then have "r \<in> set (filter rq_aborted ?reqs)" "rq_table r \<in> set (map rq_table ?run)" by auto
      then show False unfolding ab using dN E(2) by auto
    qed
  qed
  then have fr: "freed_rows ?run (dm_running ?dm) ?reqs =
      ?fr1 @ map rq_table (filter (\<lambda>r. \<not> can_decode (g r)) ?N)"
    unfolding ab by (simp add: E(2) comp_def)
  have mN: "mset (map rq_table (filter (\<lambda>r. can_decode (g r)) ?N)) +
      mset (map rq_table (filter (\<lambda>r. \<not> can_decode (g r)) ?N)) = mset (map rq_table ?N)"
    unfolding mset_map using mset_partition [of "\<lambda>r. can_decode (g r)" ?N] by (metis image_mset_union)
  have mR: "mset (map rq_table (filter can_decode ?run)) + mset ?fr1 = mset (map rq_table ?run)"
    unfolding mset_map using mset_partition [of can_decode ?run] by (metis image_mset_union)
  let ?s' = "sched_complete ?reqs (s\<lparr>sd_pm := pm, sd_next_oid := oid\<rparr>)"
  have s': "sd_dm ?s' = ?dm" "sd_pm ?s' = pm" "sd_next_oid ?s' = oid" "sd_max_running ?s' = sd_max_running s"
    by (simp_all add: sched_complete_def Let_def sy)
  have fs: "mset (sd_free ?s') = mset (sd_free s) + (mset ?fr1 + mset (map rq_table (filter (\<lambda>r. \<not> can_decode (g r)) ?N)))"
    and so: "sorted (sd_free ?s')"
    using complete_free [of ?reqs "s\<lparr>sd_pm := pm, sd_next_oid := oid\<rparr>" ?run] sy I(1) fr
    by (simp_all del: filter_filter)
  have "mset (map rq_table (dm_running ?dm)) = mset (map rq_table (filter can_decode ?run)) +
      mset (map rq_table (filter (\<lambda>r. can_decode (g r)) ?N))"
    unfolding run' can by (simp add: E(2) comp_def)
  then have "mset (sd_free ?s') + mset (map pd_table (pm_pending pm)) + mset (map rq_table (dm_running ?dm))
      = mset (sd_free s) + mset (map pd_table (pm_pending pm)) + mset (map rq_table ?N) + mset (map rq_table ?run)"
    unfolding fs mN [symmetric] mR [symmetric] by (simp only: add_ac)
  then have P: "mset (sd_free ?s') + mset (map pd_table (pm_pending pm)) + mset (map rq_table (dm_running ?dm))
      = mset [0..<sd_max_running s]" using part2 by (rule trans)
  have od: "distinct (map rq_oid (dm_running ?dm))"
    unfolding run' using I(4) dr new I(5)
    by (auto simp: distinct_map_filter) fastforce+
  have lt: "\<forall>r \<in> set (dm_running ?dm). rq_oid r < oid \<and> \<not> rq_chunked r"
    unfolding run' using I(5) new R(3) by (auto simp: can_decode_def split: if_splits)
  show ?thesis unfolding sched_inv_def s' using so P K(1,2) od lt by blast
qed

lemma decode_sync:
  assumes inv: "sched_inv s" and b: "decode_batch (sd_dm s) = Some b" and g: "exec_ok g"
  defines "bef \<equiv> map g (dm_running (sd_dm s))" and "reqs \<equiv> map g (bt_reqs b)"
  shows "bt_reqs b = sort_key rq_uid (dm_running (sd_dm s))" "sync reqs (dm_running (sd_dm s)) = bef" "distinct (map rq_oid bef)"
    "dm_running (filter_reqs reqs ((sd_dm s)\<lparr>dm_running := bef\<rparr>)) = filter can_decode bef"
proof -
  let ?run = "dm_running (sd_dm s)"
  have I: "distinct (map rq_oid ?run)" using inv by (auto simp: sched_inv_def)
  show bt: "bt_reqs b = sort_key rq_uid ?run" using b by (auto simp: decode_batch_def split: if_splits)
  show "sync reqs ?run = bef" unfolding bt reqs_def bef_def by (rule sync_same [OF I g])
  have E: "rq_oid (g r) = rq_oid r" for r using g by (auto simp: exec_ok_def)
  show d1: "distinct (map rq_oid bef)" using I by (simp add: E(1) bef_def comp_def)
  have d2: "distinct (map rq_oid reqs)"
    using mset_eq_distinct [of "map rq_oid reqs" "map rq_oid bef"] d1 bt by (simp add: reqs_def bef_def)
  have none: "filter (\<lambda>x. can_decode x \<and> rq_oid x \<notin> rq_oid ` set bef) reqs = []"
    by (auto simp: bt filter_empty_conv reqs_def bef_def)
  show "dm_running (filter_reqs reqs ((sd_dm s)\<lparr>dm_running := bef\<rparr>)) = filter can_decode bef"
    using filter_reqs_eq [of "(sd_dm s)\<lparr>dm_running := bef\<rparr>" reqs] d1 d2 none by simp
qed

lemma decode_complete_running:
  assumes "sched_inv s" "decode_batch (sd_dm s) = Some b" "exec_ok g"
  shows "dm_running (sd_dm (sched_complete (map g (bt_reqs b)) s)) = filter can_decode (map g (dm_running (sd_dm s)))"
    "sd_pm (sched_complete (map g (bt_reqs b)) s) = sd_pm s"
  using decode_sync(2,4) [OF assms] by (simp_all add: sched_complete_def Let_def)

lemma step_decode_inv:
  assumes inv: "sched_inv s" and b: "decode_batch (sd_dm s) = Some b" and g: "exec_ok g"
  shows "sched_inv (sched_complete (map g (bt_reqs b)) s)"
proof -
  let ?run = "dm_running (sd_dm s)"
  have I: "sorted (sd_free s)" "distinct (map rq_oid ?run)"
    "\<forall>r \<in> set ?run. rq_oid r < sd_next_oid s \<and> \<not> rq_chunked r"
    and part: "mset (sd_free s) + mset (map pd_table (pm_pending (sd_pm s))) + mset (map rq_table ?run)
       = mset [0..<sd_max_running s]"
    using inv by (auto simp: sched_inv_def)
  let ?reqs = "map g (bt_reqs b)" and ?bef = "map g ?run"
  let ?dm = "filter_reqs ?reqs ((sd_dm s)\<lparr>dm_running := ?bef\<rparr>)"
  have E: "rq_oid (g r) = rq_oid r" "rq_table (g r) = rq_table r" "rq_chunked (g r) = rq_chunked r"
    "\<not> rq_chunked r \<Longrightarrow> can_decode (g r) \<or> rq_aborted (g r)" for r
    using g by (auto simp: exec_ok_def)
  note bt = decode_sync(1) [OF inv b g] and sy = decode_sync(2) [OF inv b g] and d1 = decode_sync(3) [OF inv b g]
    and run' = decode_sync(4) [OF inv b g]
  have gone: "filter (\<lambda>r. rq_oid r \<notin> rq_oid ` set (dm_running ?dm)) ?bef = filter (\<lambda>r. \<not> can_decode r) ?bef"
  proof (rule filter_cong [OF refl])
    fix r assume r: "r \<in> set ?bef"
    show "(rq_oid r \<notin> rq_oid ` set (dm_running ?dm)) = (\<not> can_decode r)"
      unfolding run' using d1 r by (auto simp: distinct_map inj_on_def)
  qed
  let ?fr = "map rq_table (filter (\<lambda>r. \<not> can_decode r) ?bef)"
  have F: "freed_rows ?bef (dm_running ?dm) ?reqs = ?fr"
    unfolding freed_rows_def gone
    by (rule freed_rows_seen) (auto simp: bt can_decode_def)
  let ?s' = "sched_complete ?reqs s"
  have s': "sd_dm ?s' = ?dm" "sd_pm ?s' = sd_pm s" "sd_next_oid ?s' = sd_next_oid s"
    "sd_max_running ?s' = sd_max_running s"
    by (simp_all add: sched_complete_def Let_def sy)
  have fs: "mset (sd_free ?s') = mset (sd_free s) + mset ?fr" and so: "sorted (sd_free ?s')"
    using complete_free [of ?reqs s ?bef] sy I(1) F by simp_all
  have "mset (map rq_table (filter can_decode ?bef)) + mset ?fr = mset (map rq_table ?bef)"
    unfolding mset_map using mset_partition [of can_decode ?bef] by (metis image_mset_union mset_map)
  moreover have "mset (map rq_table ?bef) = mset (map rq_table ?run)" by (simp add: E(2) comp_def)
  ultimately have X: "mset (map rq_table ?run) = mset (map rq_table (filter can_decode ?bef)) + mset ?fr"
    by (simp only:)
  have "mset (sd_free ?s') + mset (map pd_table (pm_pending (sd_pm s))) + mset (map rq_table (dm_running ?dm))
      = mset (sd_free s) + mset (map pd_table (pm_pending (sd_pm s))) + mset (map rq_table ?run)"
    unfolding fs run' X by (simp only: add_ac)
  then have P: "mset (sd_free ?s') + mset (map pd_table (pm_pending (sd_pm s))) + mset (map rq_table (dm_running ?dm))
      = mset [0..<sd_max_running s]" using part by (rule trans)
  have od: "distinct (map rq_oid (dm_running ?dm))" unfolding run' by (rule distinct_map_filter [OF d1])
  have lt: "\<forall>r \<in> set (dm_running ?dm). rq_oid r < sd_next_oid s \<and> \<not> rq_chunked r"
    unfolding run' using I(3) E(1,3) by auto
  show ?thesis unfolding sched_inv_def s' using so P od lt inv by (simp add: sched_inv_def)
qed

lemma prefill_none: "prefill_batch B dm oid m = (None, m', oid') \<Longrightarrow> m' = m \<and> oid \<le> oid'"
proof -
  have le: "admit ps a = (adm, n, lg, a') \<Longrightarrow> ad_next_oid a \<le> ad_next_oid a'" for ps a adm n lg a'
  proof (induction ps arbitrary: a adm n lg)
    case (Cons p ps)
    have "try_add_one p a = (ob, a1) \<Longrightarrow> ad_next_oid a \<le> ad_next_oid a1" for ob a1
      by (auto simp: try_add_one_def try_allocate_one_def undo_allocation_def add_one_req_def Let_def
          split: if_splits option.splits)
    then show ?case using Cons by (fastforce simp: Let_def split: prod.splits option.splits if_splits)
  qed simp
  show "prefill_batch B dm oid m = (None, m', oid') \<Longrightarrow> m' = m \<and> oid \<le> oid'"
    by (auto simp: prefill_batch_def Let_def init_adder_def dest!: le split: if_splits prod.splits)
qed

lemma sched_step_inv:
  assumes inv: "sched_inv s"
  shows "sched_inv (sched_step a e i t s)"
proof -
  obtain ob pm oid where pb: "prefill_batch (sd_max_extend s) (sd_dm s) (sd_next_oid s) (sd_pm s) = (ob, pm, oid)"
    by (metis prod_cases3)
  show ?thesis
  proof (cases ob)
    case (Some b)
    then show ?thesis
      using step_prefill_inv [OF inv pb [unfolded Some] post_sample_exec_ok] pb
      by (simp add: sched_step_def sched_schedule_def)
  next
    case None
    have k: "pm = sd_pm s" "sd_next_oid s \<le> oid" using prefill_none pb None by auto
    let ?s1 = "s\<lparr>sd_pm := pm, sd_next_oid := oid\<rparr>"
    have i1: "sched_inv ?s1" using inv k by (auto simp: sched_inv_def)
    show ?thesis
    proof (cases "decode_batch (sd_dm s)")
      case None
      then show ?thesis using i1 pb \<open>ob = None\<close> by (simp add: sched_step_def sched_schedule_def)
    next
      case (Some b)
      then show ?thesis
        using step_decode_inv [OF i1 _ post_sample_exec_ok, of b] pb \<open>ob = None\<close>
        by (simp add: sched_step_def sched_schedule_def)
    qed
  qed
qed

text \<open>The states a server run reaches: prompts are added, requests are aborted, steps are
  taken, in any order and with any sampled tokens.\<close>

inductive sched_run :: "nat \<Rightarrow> scheduler \<Rightarrow> bool" for n where
  init: "sched_run n (sched_init n e ps cb)"
| add: "sched_run n s \<Longrightarrow> pending_ok p \<Longrightarrow> pd_chunk p = None \<Longrightarrow>
    pd_id p \<notin> pd_id ` set (pm_pending (sd_pm s)) \<Longrightarrow> sched_add p s = Inr (u, s') \<Longrightarrow> sched_run n s'"
| abort: "sched_run n s \<Longrightarrow> sched_abort uid s = (found, s') \<Longrightarrow> sched_run n s'"
| step: "sched_run n s \<Longrightarrow> sched_run n (sched_step a e i t s)"

lemma sched_run_inv: "sched_run n s \<Longrightarrow> sched_inv s"
  by (induction rule: sched_run.induct)
     (auto intro: sched_init_inv sched_add_inv sched_abort_inv sched_step_inv)

lemma sched_max_running:
  "sd_max_running (sched_step a e i t s) = sd_max_running s"
  "sched_add p s = Inr (u, s') \<Longrightarrow> sd_max_running s' = sd_max_running s"
  "sched_abort uid s = (found, s') \<Longrightarrow> sd_max_running s' = sd_max_running s"
  by (auto simp: sched_step_def sched_schedule_def sched_complete_def sched_add_def sched_abort_def Let_def
      split: option.splits prod.splits list.splits)

lemma sched_run_rows: "sched_run n s \<Longrightarrow> sd_max_running s = n"
  by (induction rule: sched_run.induct) (auto simp: sched_init_def sched_max_running)

text \<open>C15. Row ownership. In every run, whatever is added, aborted, chunked, finished in its
  prefill step or stopped, each page-table row has exactly one owner: it is free, or belongs
  to one queued prompt, or to one decoding request. No row is handed out twice and none
  leaks; the free list is in order, so \<open>add\<close> hands out the lowest free row.\<close>

theorem rows_partition:
  assumes "sched_run n s"
  shows "mset (sd_free s @ map pd_table (pm_pending (sd_pm s)) @ map rq_table (dm_running (sd_dm s)))
      = mset [0..<n]
    \<and> sorted (sd_free s)"
  using sched_run_inv [OF assms] sched_run_rows [OF assms] by (simp add: sched_inv_def add_ac)

definition demo_sched :: scheduler where
  "demo_sched =
     \<lparr> sd_max_running = 2, sd_max_extend = 8, sd_next_uid = 8, sd_free = [1],
       sd_dm = \<lparr>dm_page_size = 1, dm_running = []\<rparr>,
       sd_pm = \<lparr>pm_max_running = 2, pm_cache_budget = 100, pm_page_size = 1,
                pm_pending = [(demo_pending 7 [1, 2, 3] 2)\<lparr>pd_table := 0, pd_next_table := - 1\<rparr>]\<rparr>,
       sd_next_oid = 0 \<rparr>"

lemma demo_add: "sched_add (demo_pending 7 [1, 2, 3] 2) (sched_init 2 8 1 100) = Inr (7, demo_sched)"
proof -
  have up: "[0..<2] = [0, 1::nat]" by (simp add: upt_rec)
  show ?thesis by (simp add: demo_sched_def sched_add_def sched_init_def pm_add_def up demo_defs)
qed

lemma demo_sched_run: "sched_run 2 demo_sched"
  by (rule sched_run.add [OF sched_run.init _ _ _ demo_add])
     (simp_all add: demo_defs pending_ok_def input_len_def sched_init_def)

lemma rows_partition_witness:
  "sched_run 2 (sched_step None None (\<lambda>_. False) (\<lambda>_. 9) demo_sched)
   \<and> map rq_table (dm_running (sd_dm (sched_step None None (\<lambda>_. False) (\<lambda>_. 9) demo_sched))) = [0]
   \<and> mset (sd_free (sched_step None None (\<lambda>_. False) (\<lambda>_. 9) demo_sched)) + {#0#} = mset [0..<2]"
proof -
  have r: "sched_run 2 (sched_step None None (\<lambda>_. False) (\<lambda>_. 9) demo_sched)"
    using demo_sched_run by (rule sched_run.step)
  have p: "pm_pending (sd_pm (sched_step None None (\<lambda>_. False) (\<lambda>_. 9) demo_sched)) = []" by code_simp
  have d: "map rq_table (dm_running (sd_dm (sched_step None None (\<lambda>_. False) (\<lambda>_. 9) demo_sched))) = [0]"
    by code_simp
  show ?thesis using rows_partition [OF r] r p d by simp
qed

text \<open>\<open>idle\<close> is not a question without effect. The property runs \<open>schedule\<close>, which
  takes the prompts it admits out of the queue: asked of a scheduler with one queued prompt,
  it answers "not idle" and drops the prompt, which is then neither queued nor decoding,
  while its row stays taken.\<close>

theorem idle_drops_prompt:
  "map pd_uid (pm_pending (sd_pm demo_sched)) = [7] \<and>
   (let (answer, s') = sched_idle demo_sched
    in \<not> answer \<and> pm_pending (sd_pm s') = [] \<and> dm_running (sd_dm s') = [] \<and> sd_free s' = [1]
       \<and> fst (sched_schedule s') = None \<and> \<not> fst (sched_abort 7 s'))"
  by code_simp

end
