(* ===== verification/Engine.thy ===== *)
theory Engine
  imports Slot_Pools Prefix_Cache Scheduler
begin

text \<open>
  \<open>scheduler/cache.py\<close> and \<open>engine/engine.py\<close>: a request's life in the engine. The engine joins
  the scheduler (rows of the page table), the paged pool (slots), the prefix tree (slots of
  finished requests) and, for hybrid models, the recurrent-state pool. The forward pass and
  the sampler are outside the model: \<open>tok\<close> gives the token sampled for each request of a batch.
  An operation that raises returns the exception together with the state it leaves.
\<close>

section \<open>\<open>scheduler/cache.py\<close>: \<open>CacheManager\<close>\<close>

definition cm_init :: "nat \<Rightarrow> nat \<Rightarrow> radix" where
  "cm_init page_size tic = radix_init page_size 0 tic"

definition cm_match :: "nat \<Rightarrow> token list \<Rightarrow> radix \<Rightarrow> (nat \<times> handle) \<times> radix" where
  "cm_match tic ids c = match_prefix tic ids c"

definition cm_lock :: "handle \<Rightarrow> radix \<Rightarrow> radix res" where
  "cm_lock h c = lock_handle h False c"

definition cm_unlock :: "handle \<Rightarrow> radix \<Rightarrow> radix res" where
  "cm_unlock h c = lock_handle h True c"

definition cm_commit :: "nat \<times> nat \<Rightarrow> token list \<Rightarrow> slot list \<Rightarrow> radix \<Rightarrow> ((nat \<times> handle) \<times> radix) res" where
  "cm_commit clk ids indices c = insert_prefix (fst clk) (snd clk) ids indices c"

definition cm_evict :: "nat \<Rightarrow> radix \<Rightarrow> (slot list \<times> radix) res" where
  "cm_evict n c = evict n c"

definition cm_evictable_size :: "radix \<Rightarrow> int" where
  "cm_evictable_size c = fst (size_info c)"

definition track_slot :: "req \<Rightarrow> slot \<times> slot \<Rightarrow> slot" where
  "track_slot r pp = (if rq_next_track r = 0 then fst pp else snd pp)"

definition snapshot_one :: "nat \<Rightarrow> req \<Rightarrow> 'v linear_pool \<Rightarrow> (req \<times> 'v linear_pool) res" where
  "snapshot_one page r pool =
     (case (rq_anchor r, rq_ping_pong r, rq_last_track r) of
        (Some anchor, Some pp, None) \<Rightarrow>
          bind_res (align_down anchor (int page)) (\<lambda>a.
            if a \<noteq> anchor then Inr (r, pool)
            else case rq_linear_slot r of
              None \<Rightarrow> Inl IndexError
            | Some live \<Rightarrow>
                bind_res (linear_copy_from live (track_slot r pp) pool) (\<lambda>pool'.
                  Inr (r\<lparr>rq_last_track := Some anchor, rq_next_track := 1 - rq_next_track r\<rparr>, pool')))
      | _ \<Rightarrow> Inr (r, pool))"

fun snapshot_toolcall_anchor :: "nat \<Rightarrow> req list \<Rightarrow> 'v linear_pool \<Rightarrow> (req list \<times> 'v linear_pool) res" where
  "snapshot_toolcall_anchor page [] pool = Inr ([], pool)"
| "snapshot_toolcall_anchor page (r # rs) pool =
     bind_res (snapshot_one page r pool) (\<lambda>(r', pool1).
     bind_res (snapshot_toolcall_anchor page rs pool1) (\<lambda>(rs', pool2). Inr (r' # rs', pool2)))"

section \<open>State of the engine\<close>

record 'v engine =
  en_page :: nat
  en_max_seq :: nat
  en_anchor_id :: "token option"
  en_sched :: scheduler
  en_kv :: mha_pool
  en_pt :: "slot list list"
  en_cm :: "radix option"
  en_full :: "nat \<rightharpoonup> token list"
  en_adm :: "nat \<rightharpoonup> int"
  en_lin :: "'v linear_pool option"
  en_snaps :: "(token list \<times> slot) list"
  en_next_pid :: nat

text \<open>\<open>Engine.__init__\<close> once the pool is sized: \<open>num_pages\<close> already counts the slack page.\<close>

definition engine_init ::
  "nat \<Rightarrow> nat \<Rightarrow> nat \<Rightarrow> nat \<Rightarrow> int \<Rightarrow> bool \<Rightarrow> nat \<Rightarrow> 'v linear_pool option \<Rightarrow> 'v engine" where
  "engine_init page_size max_seq max_running num_pages max_extend prefix_on tic lin =
     \<lparr> en_page = page_size, en_max_seq = max_seq, en_anchor_id = None,
       en_sched = sched_init max_running max_extend (int page_size) (int (num_pages * page_size)),
       en_kv = mha_init page_size num_pages,
       en_pt = replicate (max_running + 1) (replicate max_seq 0),
       en_cm = (if prefix_on then Some (cm_init page_size tic) else None),
       en_full = Map.empty, en_adm = Map.empty,
       en_lin = (if prefix_on then lin else None), en_snaps = [], en_next_pid = 0 \<rparr>"

text \<open>Sequencing of steps that may raise; the state is kept either way.\<close>

definition then_do :: "'a res \<times> 's \<Rightarrow> ('a \<Rightarrow> 's \<Rightarrow> 'b res \<times> 's) \<Rightarrow> 'b res \<times> 's" where
  "then_do m f = (case m of (Inl err, s) \<Rightarrow> (Inl err, s) | (Inr x, s) \<Rightarrow> f x s)"

lemma then_do_simps [simp]:
  "then_do (Inl err, s) f = (Inl err, s)" "then_do (Inr x, s) f = f x s"
  by (simp_all add: then_do_def)

lemma then_do_Inr: "then_do m f = (Inr y, s') \<longleftrightarrow> (\<exists>x s. m = (Inr x, s) \<and> f x s = (Inr y, s'))"
  by (cases m; cases "fst m") (auto simp: then_do_def)

text \<open>Python slices of a row of the page table; assigning a slice needs a list of its length,
  or of length one, which is repeated.\<close>

definition norm_idx :: "int \<Rightarrow> nat \<Rightarrow> nat" where
  "norm_idx i n = nat (if i < 0 then max 0 (i + int n) else min i (int n))"

definition py_slice :: "int \<Rightarrow> int \<Rightarrow> 'a list \<Rightarrow> 'a list" where
  "py_slice a b xs = (let i = norm_idx a (length xs) in take (norm_idx b (length xs) - i) (drop i xs))"

definition row_assign :: "int \<Rightarrow> int \<Rightarrow> 'a list \<Rightarrow> 'a list \<Rightarrow> 'a list res" where
  "row_assign a b vs row =
     (let i = norm_idx a (length row); j = max i (norm_idx b (length row))
      in if length vs = j - i then Inr (take i row @ vs @ drop j row)
         else if length vs = 1 then Inr (take i row @ replicate (j - i) (hd vs) @ drop j row)
         else Inl RuntimeError)"

definition pt_assign :: "nat \<Rightarrow> int \<Rightarrow> int \<Rightarrow> slot list \<Rightarrow> 'v engine \<Rightarrow> unit res \<times> 'v engine" where
  "pt_assign row a b vs e =
     (case row_assign a b vs (en_pt e ! row) of
        Inl err \<Rightarrow> (Inl err, e)
      | Inr l \<Rightarrow> (Inr (), e\<lparr>en_pt := (en_pt e)[row := l]\<rparr>))"

section \<open>Admission\<close>

text \<open>\<open>_allocate_slot\<close>. The retry after an eviction is the handler of the pool's
  \<open>RuntimeError\<close>.\<close>

definition install_slots :: "nat \<Rightarrow> int \<Rightarrow> slot list \<Rightarrow> 'v engine \<Rightarrow> unit res \<times> 'v engine" where
  "install_slots row clen slots e =
     pt_assign row clen (int (en_max_seq e)) (py_slice 0 (int (en_max_seq e) - clen) slots) e"

definition pages_for :: "int \<Rightarrow> nat \<Rightarrow> nat" where
  "pages_for remaining page = nat (- ((- remaining) div int page))"

definition evict_and_retry :: "nat \<Rightarrow> nat \<Rightarrow> py_error \<Rightarrow> 'v engine \<Rightarrow> slot list res \<times> 'v engine" where
  "evict_and_retry row num_pages err e =
     (case en_cm e of
        None \<Rightarrow> (Inl err, e)
      | Some c \<Rightarrow>
          let to_evict = min (int (num_pages * en_page e)) (cm_evictable_size c)
          in if to_evict \<le> 0 then (Inl err, e)
             else case cm_evict (nat to_evict) c of
               Inl err' \<Rightarrow> (Inl err', e)
             | Inr (out, c') \<Rightarrow>
                 let e1 = e\<lparr>en_cm := Some c', en_kv := mha_free_slots out (en_kv e)\<rparr>
                 in case mha_allocate (int row) (Some num_pages) (en_kv e1) of
                      Inl err' \<Rightarrow> (Inl err', e1)
                    | Inr (slots, kv) \<Rightarrow> (Inr slots, e1\<lparr>en_kv := kv\<rparr>))"

definition allocate_slots :: "nat \<Rightarrow> nat \<Rightarrow> 'v engine \<Rightarrow> slot list res \<times> 'v engine" where
  "allocate_slots row num_pages e =
     (case mha_allocate (int row) (Some num_pages) (en_kv e) of
        Inr (slots, kv) \<Rightarrow> (Inr slots, e\<lparr>en_kv := kv\<rparr>)
      | Inl err \<Rightarrow> if err = RuntimeError then evict_and_retry row num_pages err e else (Inl err, e))"

definition allocate_slot :: "nat \<Rightarrow> int \<Rightarrow> slot list \<Rightarrow> 'v engine \<Rightarrow> unit res \<times> 'v engine" where
  "allocate_slot row clen matched e =
     then_do (if clen \<noteq> 0 then pt_assign row 0 clen (py_slice 0 clen matched) e else (Inr (), e)) (\<lambda>_ e1.
     then_do (allocate_slots row (pages_for (int (en_max_seq e1) - clen) (en_page e1)) e1) (\<lambda>slots e2.
       install_slots row clen slots e2))"

text \<open>\<open>add_request\<close>: the prompt is matched and its prefix locked, recurrent-state slots are
  taken, the scheduler assigns the row, the row gets its slots.\<close>

definition match_prompt :: "nat \<Rightarrow> req \<Rightarrow> 'v engine \<Rightarrow> (int \<times> handle option \<times> slot list \<times> req) res \<times> 'v engine" where
  "match_prompt tic r e =
     (case en_cm e of
        None \<Rightarrow> (Inr (0, rq_handle r, [], r), e)
      | Some c \<Rightarrow>
          let ((n, h), c1) = cm_match tic (rq_input r) c;
              e1 = e\<lparr>en_cm := Some c1\<rparr>
          in case align_down (min (int n) (int (length (rq_input r)) - 1)) (int (en_page e)) of
               Inl err \<Rightarrow> (Inl err, e1)
             | Inr clen \<Rightarrow>
                 (case cm_lock h c1 of
                    Inl err \<Rightarrow> (Inl err, e1)
                  | Inr c2 \<Rightarrow>
                      (case get_matched_indices h c2 of
                         None \<Rightarrow> (Inl KeyError, e1\<lparr>en_cm := Some c2\<rparr>)
                       | Some matched \<Rightarrow>
                           (Inr (clen, Some h, matched, r\<lparr>rq_handle := Some h, rq_cached_len := clen\<rparr>),
                            e1\<lparr>en_cm := Some c2\<rparr>))))"

definition take_linear :: "int \<Rightarrow> req \<Rightarrow> 'v engine \<Rightarrow> req res \<times> 'v engine" where
  "take_linear clen r e =
     (case en_lin e of
        None \<Rightarrow> (Inr r, e)
      | Some pool \<Rightarrow>
          (case linear_alloc 3 pool of
             Inl err \<Rightarrow> (Inl err, e)
           | Inr (slots, pool') \<Rightarrow>
               let r1 = r\<lparr>rq_linear_slot := Some (slots ! 0), rq_ping_pong := Some (slots ! 1, slots ! 2)\<rparr>;
                   snap = (if clen \<noteq> 0 then map_of (en_snaps e) (py_slice 0 clen (rq_input r)) else None)
               in (Inr (case snap of None \<Rightarrow> r1 | Some s \<Rightarrow> r1\<lparr>rq_restore_src := Some s\<rparr>),
                   e\<lparr>en_lin := Some pool'\<rparr>)))"

definition enqueue :: "int \<Rightarrow> int \<Rightarrow> handle option \<Rightarrow> req \<Rightarrow> 'v engine \<Rightarrow> (int \<times> nat) res \<times> 'v engine" where
  "enqueue max_tokens clen h r e =
     (let p = make_pending_req (en_next_pid e) (rq_uid r) (rq_input r) max_tokens h clen
                (rq_linear_slot r) (rq_ping_pong r) (rq_restore_src r);
          e1 = e\<lparr>en_next_pid := en_next_pid e + 1\<rparr>
      in case sched_add p (en_sched e1) of
           Inl err \<Rightarrow> (Inl err, e1)
         | Inr (uid, s) \<Rightarrow>
             let row = pd_table (last (pm_pending (sd_pm s)))
             in (Inr (uid, row),
                 e1\<lparr>en_sched := s,
                    en_adm := (if en_cm e1 \<noteq> None then (en_adm e1)(row \<mapsto> clen) else en_adm e1)\<rparr>))"

definition add_request :: "nat \<Rightarrow> req \<Rightarrow> int \<Rightarrow> 'v engine \<Rightarrow> (int \<times> nat) res \<times> 'v engine" where
  "add_request tic r max_tokens e =
     then_do (match_prompt tic r e) (\<lambda>(clen, h, matched, r1) e1.
     then_do (take_linear clen r1 e1) (\<lambda>r2 e2.
     then_do (enqueue max_tokens clen h r2 e2) (\<lambda>(uid, row) e3.
     then_do (allocate_slot row clen matched e3) (\<lambda>_ e4. (Inr (uid, row), e4)))))"

section \<open>Cancellation\<close>

definition find_cache_handle :: "int \<Rightarrow> scheduler \<Rightarrow> handle option" where
  "find_cache_handle uid s =
     (case find (\<lambda>p. pd_uid p = uid) (pm_pending (sd_pm s)) of
        Some p \<Rightarrow> (case pd_chunk p of Some c \<Rightarrow> rq_handle c | None \<Rightarrow> pd_handle p)
      | None \<Rightarrow> (case find (\<lambda>r. rq_uid r = uid) (dm_running (sd_dm s)) of
                   Some r \<Rightarrow> rq_handle r | None \<Rightarrow> None))"

definition linear_slots_of :: "int \<Rightarrow> scheduler \<Rightarrow> slot list" where
  "linear_slots_of uid s =
     (let (live, pp) =
        (case find (\<lambda>p. pd_uid p = uid) (pm_pending (sd_pm s)) of
           Some p \<Rightarrow> (pd_linear_slot p, pd_ping_pong p)
         | None \<Rightarrow> (case find (\<lambda>r. rq_uid r = uid) (dm_running (sd_dm s)) of
                      Some r \<Rightarrow> (rq_linear_slot r, rq_ping_pong r) | None \<Rightarrow> (None, None)))
      in case live of
           None \<Rightarrow> []
         | Some l \<Rightarrow> l # (case pp of None \<Rightarrow> [] | Some (a, b) \<Rightarrow> [a, b]))"

text \<open>The rows that are free after and were not before; \<open>_free_slot\<close> on each.\<close>

definition newly_free :: "scheduler \<Rightarrow> scheduler \<Rightarrow> nat list" where
  "newly_free s s' = filter (\<lambda>t. t \<notin> set (sd_free s)) (sd_free s')"

definition release_rows :: "nat list \<Rightarrow> mha_pool \<Rightarrow> mha_pool" where
  "release_rows rows kv = foldl (\<lambda>kv t. mha_free (int t) kv) kv rows"

definition abort_request :: "int \<Rightarrow> 'v engine \<Rightarrow> bool res \<times> 'v engine" where
  "abort_request uid e =
     then_do (case (en_cm e, find_cache_handle uid (en_sched e)) of
                (Some c, Some h) \<Rightarrow>
                  (case cm_unlock h c of Inl err \<Rightarrow> (Inl err, e) | Inr c' \<Rightarrow> (Inr (), e\<lparr>en_cm := Some c'\<rparr>))
              | _ \<Rightarrow> (Inr (), e)) (\<lambda>_ e1.
       let e2 = (case en_lin e1 of
                   None \<Rightarrow> e1
                 | Some pool \<Rightarrow> e1\<lparr>en_lin := Some (linear_free (linear_slots_of uid (en_sched e1)) pool)\<rparr>);
           (found, s') = sched_abort uid (en_sched e2);
           rows = (if found then newly_free (en_sched e2) s' else [])
       in (Inr found,
           e2\<lparr>en_sched := s', en_kv := release_rows rows (en_kv e2),
              en_full := en_full e2 |` (- set rows), en_adm := en_adm e2 |` (- set rows)\<rparr>))"

section \<open>One step\<close>

text \<open>The rows of the batch tensors: the tokens of each request with their positions, which are
  also where their keys and values are written, and the count per request.\<close>

definition req_inputs :: "phase \<Rightarrow> req \<Rightarrow> (token \<times> int) list" where
  "req_inputs ph r =
     (case ph of
        Prefill \<Rightarrow> map (\<lambda>t. (rq_input r ! nat (rq_cached_len r + int t), rq_cached_len r + int t))
                     [0..<nat (extend_len r)]
      | Decode \<Rightarrow> [(last (rq_input r), rq_device_len r - 1)])"

definition step_inputs :: "batch \<Rightarrow> token list \<times> int list \<times> nat list" where
  "step_inputs b =
     (let rows = map (req_inputs (bt_phase b)) (bt_reqs b)
      in (map fst (concat rows), map snd (concat rows), map length rows))"

text \<open>A frozen recurrent state is copied into the request's live slot once.\<close>

fun restore_states :: "req list \<Rightarrow> 'v linear_pool \<Rightarrow> (req list \<times> 'v linear_pool) res" where
  "restore_states [] pool = Inr ([], pool)"
| "restore_states (r # rs) pool =
     bind_res (case rq_restore_src r of
         None \<Rightarrow> Inr (r, pool)
       | Some src \<Rightarrow>
           (case rq_linear_slot r of
              None \<Rightarrow> Inl IndexError
            | Some live \<Rightarrow> bind_res (linear_copy_from src live pool) (\<lambda>pool'. Inr (r\<lparr>rq_restore_src := None\<rparr>, pool'))))
       (\<lambda>(r', pool1). bind_res (restore_states rs pool1) (\<lambda>(rs', pool2). Inr (r' # rs', pool2)))"

definition restore_batch :: "req list \<Rightarrow> 'v engine \<Rightarrow> (req list \<times> 'v engine) res" where
  "restore_batch rs e =
     (case en_lin e of
        None \<Rightarrow> Inr (rs, e)
      | Some pool \<Rightarrow> bind_res (restore_states rs pool) (\<lambda>(rs', pool'). Inr (rs', e\<lparr>en_lin := Some pool'\<rparr>)))"

text \<open>The bookkeeping after sampling, one request at a time.\<close>

definition track_full :: "phase \<Rightarrow> token \<Rightarrow> req \<Rightarrow> 'v engine \<Rightarrow> 'v engine res" where
  "track_full ph tok r e =
     (if en_cm e = None then Inr e
      else case ph of
        Decode \<Rightarrow>
          (case en_full e (rq_table r) of
             None \<Rightarrow> Inl KeyError
           | Some f \<Rightarrow> Inr (e\<lparr>en_full := (en_full e)(rq_table r \<mapsto> f @ [tok])\<rparr>))
      | Prefill \<Rightarrow> Inr (e\<lparr>en_full := (en_full e)(rq_table r \<mapsto> rq_input r)\<rparr>))"

definition dict_set :: "'k \<Rightarrow> 'v \<Rightarrow> ('k \<times> 'v) list \<Rightarrow> ('k \<times> 'v) list" where
  "dict_set k v d = (k, v) # filter (\<lambda>x. fst x \<noteq> k) d"

definition track_anchor :: "req \<Rightarrow> 'v engine \<Rightarrow> (req \<times> 'v engine) res" where
  "track_anchor r e =
     (case (en_lin e, rq_ping_pong r, rq_anchor r, rq_last_track r) of
        (Some pool, Some pp, Some anchor, None) \<Rightarrow>
          if rq_device_len r \<noteq> anchor + 1 then Inr (r, e)
          else
            let dst = track_slot r pp
            in bind_res (snapshot_toolcall_anchor (en_page e) [r] pool) (\<lambda>(rs, pool').
               let r' = hd rs; e' = e\<lparr>en_lin := Some pool'\<rparr>
               in if rq_last_track r' \<noteq> rq_anchor r' then Inr (r', e')
                  else case en_full e' (rq_table r') of
                    None \<Rightarrow> Inl KeyError
                  | Some f \<Rightarrow> Inr (r', e'\<lparr>en_snaps := dict_set (py_slice 0 anchor f) dst (en_snaps e')\<rparr>))
      | _ \<Rightarrow> Inr (r, e))"

definition post_one ::
  "phase \<Rightarrow> token option \<Rightarrow> (req \<Rightarrow> bool) \<Rightarrow> (req \<Rightarrow> token) \<Rightarrow> req \<Rightarrow> 'v engine \<Rightarrow> (req \<times> 'v engine) res" where
  "post_one ph eos ignore_eos tok r e =
     (if rq_chunked r then Inr (r, e)
      else
        let r1 = post_append ph (en_anchor_id e) (tok r) r
        in bind_res (track_full ph (tok r) r1 e) (\<lambda>e1.
           bind_res (track_anchor r1 e1) (\<lambda>(r2, e2).
             Inr (post_finish ph eos (ignore_eos r) (tok r) r2, e2))))"

fun post_batch ::
  "phase \<Rightarrow> token option \<Rightarrow> (req \<Rightarrow> bool) \<Rightarrow> (req \<Rightarrow> token) \<Rightarrow> req list \<Rightarrow> 'v engine
     \<Rightarrow> (req list \<times> 'v engine) res" where
  "post_batch ph eos ign tok [] e = Inr ([], e)"
| "post_batch ph eos ign tok (r # rs) e =
     bind_res (post_one ph eos ign tok r e) (\<lambda>(r', e1).
     bind_res (post_batch ph eos ign tok rs e1) (\<lambda>(rs', e2). Inr (r' # rs', e2)))"

text \<open>A finished request's sequence is committed to the tree, its row's slots change hands,
  what the tree already had and what was never written goes back to the pool.\<close>

definition commit_slots ::
  "nat \<times> nat \<Rightarrow> nat \<Rightarrow> token list \<Rightarrow> int \<Rightarrow> radix \<Rightarrow> 'v engine \<Rightarrow> 'v engine res" where
  "commit_slots clk row ids adm c e =
     (let pt = en_pt e ! row
      in bind_res (cm_commit clk ids (py_slice 0 (int (length ids)) pt) c) (\<lambda>((n, h), c').
           let (_, kv) = mha_detach (int row) (en_kv e);
               redundant = py_slice adm (int n) pt;
               unwritten = py_slice (int (length ids)) (int (en_max_seq e)) pt
           in Inr (e\<lparr>en_cm := Some c', en_kv := mha_free_slots (redundant @ unwritten) kv\<rparr>)))"

definition free_linear :: "req \<Rightarrow> 'v engine \<Rightarrow> 'v engine" where
  "free_linear r e =
     (case (en_lin e, rq_linear_slot r) of
        (Some pool, Some live) \<Rightarrow>
          let donated = snd ` set (en_snaps e);
              track = (case rq_ping_pong r of None \<Rightarrow> [] | Some (a, b) \<Rightarrow> filter (\<lambda>s. s \<notin> donated) [a, b])
          in e\<lparr>en_lin := Some (linear_free (live # track) pool)\<rparr>
      | _ \<Rightarrow> e)"

definition commit_one :: "(req \<Rightarrow> nat \<times> nat) \<Rightarrow> req \<Rightarrow> 'v engine \<Rightarrow> 'v engine res" where
  "commit_one clk r e =
     (case en_cm e of
        None \<Rightarrow> Inr e
      | Some c \<Rightarrow>
          let row = rq_table r;
              full = en_full e row;
              adm = (case en_adm e row of None \<Rightarrow> 0 | Some n \<Rightarrow> n);
              e1 = e\<lparr>en_full := (en_full e)(row := None), en_adm := (en_adm e)(row := None)\<rparr>
          in bind_res (case rq_handle r of None \<Rightarrow> Inr c | Some h \<Rightarrow> cm_unlock h c) (\<lambda>c1.
             bind_res (case full of
                  None \<Rightarrow> Inr (e1\<lparr>en_cm := Some c1\<rparr>)
                | Some ids \<Rightarrow> if ids = [] then Inr (e1\<lparr>en_cm := Some c1\<rparr>)
                              else commit_slots (clk r) row ids adm c1 e1) (\<lambda>e2.
             Inr (free_linear r e2))))"

fun commit_all :: "(req \<Rightarrow> nat \<times> nat) \<Rightarrow> req list \<Rightarrow> 'v engine \<Rightarrow> 'v engine res" where
  "commit_all clk [] e = Inr e"
| "commit_all clk (r # rs) e = bind_res (commit_one clk r e) (commit_all clk rs)"

definition complete_step :: "req list \<Rightarrow> 'v engine \<Rightarrow> 'v engine" where
  "complete_step reqs e =
     (let s' = sched_complete reqs (en_sched e)
      in e\<lparr>en_sched := s', en_kv := release_rows (newly_free (en_sched e) s') (en_kv e)\<rparr>)"

text \<open>\<open>Engine.step\<close>: the requests of the batch after the step, those that finished, the state.\<close>

definition engine_step ::
  "(req \<Rightarrow> nat \<times> nat) \<Rightarrow> token option \<Rightarrow> (req \<Rightarrow> bool) \<Rightarrow> (req \<Rightarrow> token) \<Rightarrow> 'v engine
     \<Rightarrow> ((batch \<times> req list \<times> req list) option \<times> 'v engine) res" where
  "engine_step clk eos ign tok e =
     (case sched_schedule (en_sched e) of
        (None, s) \<Rightarrow> Inr (None, e\<lparr>en_sched := s\<rparr>)
      | (Some b, s) \<Rightarrow>
          bind_res (restore_batch (bt_reqs b) (e\<lparr>en_sched := s\<rparr>)) (\<lambda>(rs, e1).
          bind_res (post_batch (bt_phase b) eos ign tok rs e1) (\<lambda>(reqs, e2).
          let finished = filter (\<lambda>r. \<not> rq_chunked r \<and> rq_aborted r) reqs
          in bind_res (commit_all clk finished e2) (\<lambda>e3.
             Inr (Some (b, reqs, finished), complete_step reqs e3)))))"

text \<open>\<open>Engine.generate\<close>: at most \<open>budget\<close> steps; \<open>toks k\<close> are the tokens sampled in step \<open>k\<close>.
  The result is one list per request queued at the call, in queue order.\<close>

definition generate_budget :: "scheduler \<Rightarrow> int" where
  "generate_budget s =
     sum_list (map (\<lambda>p. - ((- input_len p) div max 1 (sd_max_extend s)) + pd_output_len p) (pm_pending (sd_pm s)))
     + int (length (dm_running (sd_dm s)))"

definition emit :: "(req \<Rightarrow> token) \<Rightarrow> req list \<Rightarrow> (int \<times> token list) list \<Rightarrow> (int \<times> token list) list" where
  "emit tok rs d =
     foldl (\<lambda>d r. if rq_chunked r then d
              else dict_set (rq_uid r) ((case map_of d (rq_uid r) of None \<Rightarrow> [] | Some l \<Rightarrow> l) @ [tok r]) d) d rs"

fun gen_loop ::
  "nat \<Rightarrow> nat \<Rightarrow> (nat \<Rightarrow> req \<Rightarrow> nat \<times> nat) \<Rightarrow> token option \<Rightarrow> (req \<Rightarrow> bool) \<Rightarrow> (nat \<Rightarrow> req \<Rightarrow> token)
     \<Rightarrow> (int \<times> token list) list \<Rightarrow> 'v engine \<Rightarrow> ((int \<times> token list) list \<times> 'v engine) res" where
  "gen_loop 0 k clk eos ign toks d e = Inr (d, e)"
| "gen_loop (Suc fuel) k clk eos ign toks d e =
     bind_res (engine_step (clk k) eos ign (toks k) e) (\<lambda>(out, e1).
       case out of
         None \<Rightarrow> Inr (d, e1)
       | Some (b, _) \<Rightarrow> gen_loop fuel (k + 1) clk eos ign toks (emit (toks k) (bt_reqs b) d) e1)"

definition generate ::
  "nat option \<Rightarrow> (nat \<Rightarrow> req \<Rightarrow> nat \<times> nat) \<Rightarrow> token option \<Rightarrow> (req \<Rightarrow> bool) \<Rightarrow> (nat \<Rightarrow> req \<Rightarrow> token)
     \<Rightarrow> 'v engine \<Rightarrow> (token list list \<times> 'v engine) res" where
  "generate max_steps clk eos ign toks e =
     (let ps = pm_pending (sd_pm (en_sched e))
      in if ps = [] then Inr ([], e)
         else
           let budget = (case max_steps of Some n \<Rightarrow> n | None \<Rightarrow> nat (generate_budget (en_sched e)))
           in bind_res (gen_loop budget 0 clk eos ign toks (map (\<lambda>p. (pd_uid p, [])) ps) e) (\<lambda>(d, e').
                Inr (map (\<lambda>p. the (map_of d (pd_uid p))) ps, e')))"

text \<open>\<open>_rebuild_kv_pool\<close>: a fresh pool and a fresh page table; the scheduler's budget follows.
  \<open>num_pages\<close> already counts the slack page.\<close>

definition rebuild_kv_pool :: "nat \<Rightarrow> 'v engine \<Rightarrow> 'v engine" where
  "rebuild_kv_pool num_pages e =
     (let rows = sd_max_running (en_sched e) + 1
      in e\<lparr>en_kv := mha_init (en_page e) num_pages,
           en_pt := replicate rows (replicate (en_max_seq e) 0),
           en_sched := (en_sched e)\<lparr>sd_pm := (sd_pm (en_sched e))\<lparr>pm_cache_budget := int (num_pages * en_page e)\<rparr>\<rparr>\<rparr>)"

end
