(* ===== verification/Tree_Slots.thy ===== *)
theory Tree_Slots
  imports Engine
begin

text \<open>
  Which slots the prefix tree owns and what an operation of the cache manager does to them:
  the facts the engine's slot accounting uses.
\<close>

section \<open>What the tree owns\<close>

definition tree_slots :: "radix \<Rightarrow> slot multiset" where
  "tree_slots r = ksum vmset (rn_kids (rx_root r))"

text \<open>The tokens and the slots on the way to a node.\<close>

definition span_of :: "nat \<Rightarrow> radix \<Rightarrow> (token list \<times> slot list) option" where
  "span_of h r = map_option (\<lambda>ds. (keys_of (tl ds), vals_of (tl ds))) (node_path h (rx_root r))"

text \<open>The paths of the nodes in \<open>G\<close> read as before.\<close>

definition spans_kept :: "nat set \<Rightarrow> radix \<Rightarrow> radix \<Rightarrow> bool" where
  "spans_kept G r r' \<longleftrightarrow> (\<forall>g \<in> G. \<forall>x. span_of g r = Some x \<longrightarrow> span_of g r' = Some x)"

lemma spans_keptD: "spans_kept G r r' \<Longrightarrow> g \<in> G \<Longrightarrow> span_of g r = Some x \<Longrightarrow> span_of g r' = Some x"
  unfolding spans_kept_def by blast

lemma spans_kept_trans: "spans_kept G r r1 \<Longrightarrow> spans_kept H r1 r2 \<Longrightarrow> spans_kept (G \<inter> H) r r2"
  by (simp add: spans_kept_def)

lemma spans_kept_UNIV: "spans_kept UNIV r r' \<longleftrightarrow> (\<forall>g x. span_of g r = Some x \<longrightarrow> span_of g r' = Some x)"
  by (simp add: spans_kept_def)

lemma span_of_indices: "get_matched_indices hnd r = map_option snd (span_of (snd hnd) r)"
  by (simp add: get_matched_indices_def span_of_def vals_of_def option.map_comp comp_def)

lemma span_live: "span_of h r \<noteq> None \<longleftrightarrow> h \<in> set (nids (rx_root r))"
  using path_None_iff(1) [of h "rx_root r"] by (auto simp: span_of_def)

lemma path_slots:
  "node_path h x = Some ds \<Longrightarrow> mset (vals_of ds) \<subseteq># nsum vmset x"
  "kids_path h ks = Some ds \<Longrightarrow> mset (vals_of ds) \<subseteq># ksum vmset ks"
proof (induction h x and h ks arbitrary: ds and ds rule: node_path_kids_path.induct)
  case (1 h d ks)
  then show ?case by (auto simp: vmset_def split: if_splits)
next
  case (3 h x xs)
  then show ?case
    by (auto split: option.splits intro: subset_mset.add_increasing subset_mset.add_increasing2)
qed auto

lemma span_slots:
  assumes "span_of h r = Some (K, V)"
  shows "mset V \<subseteq># tree_slots r"
proof -
  obtain ds where ds: "node_path h (rx_root r) = Some ds" "V = vals_of (tl ds)"
    using assms by (auto simp: span_of_def)
  obtain d ks where r: "rx_root r = RNode d ks" by (cases "rx_root r")
  show ?thesis using ds path_slots(2) [of h ks]
    by (auto simp: r tree_slots_def split: if_splits)
qed

lemma span_cached:
  assumes I: "radix_inv L r" and s: "span_of h r = Some (K, V)"
  shows "(K, V) \<in> cached r"
proof -
  obtain ds where ds: "node_path h (rx_root r) = Some ds" "V = vals_of (tl ds)" "K = keys_of (tl ds)"
    using s by (auto simp: span_of_def)
  obtain d ks where r: "rx_root r = RNode d ks" by (cases "rx_root r")
  show ?thesis using ds path_in_prefs(2) [of h ks _ "rx_page r"] radix_invD(4) [OF I]
    by (auto simp: r cached_def split: if_splits)
qed

lemma span_same:
  assumes "same_span (node_path h (rx_root r)) (node_path h (rx_root r'))"
    and "radix_inv L r" "radix_inv L' r'" "span_of h r = Some x"
  shows "span_of h r' = Some x"
proof -
  note I = radix_invD(2,3) [OF assms(2)] and J = radix_invD(2,3) [OF assms(3)]
  obtain ds where ds: "node_path h (rx_root r) = Some (rn_data (rx_root r) # ds)" "x = (keys_of ds, vals_of ds)"
    using assms(4) node_path_hd [of h "rx_root r"] by (auto simp: span_of_def)
  then obtain ds' where ds': "node_path h (rx_root r') = Some ds'" "vals_of ds' = vals_of (rn_data (rx_root r) # ds)"
    "keys_of ds' = keys_of (rn_data (rx_root r) # ds)"
    using assms(1) by (auto simp: same_span_def)
  moreover obtain ds2 where "ds' = rn_data (rx_root r') # ds2" using node_path_hd [OF ds'(1)] by auto
  ultimately show ?thesis using ds(2) I J by (simp add: span_of_def)
qed

lemma match_slots:
  assumes I: "radix_inv L r" and m: "match_prefix tic ids r = ((n, h), r')"
  shows "tree_slots r' = tree_slots r" "radix_inv L r'" "rx_page r' = rx_page r"
    "spans_kept UNIV r r'"
    "\<exists>V. span_of (snd h) r' = Some (take n ids, V) \<and> length V = n" "n \<le> length ids"
proof -
  show inv: "radix_inv L r'" using match_prefix_inv [OF I m] .
  obtain t c where w: "walk (rx_page r) tic (rx_counter r) ids (rx_root r) = (t, snd h, n, c)"
    "r' = r\<lparr>rx_root := t, rx_counter := c\<rparr>"
    using m by (auto simp: match_prefix_eq)
  show "tree_slots r' = tree_slots r" using walk_root(3) [OF I w(1)] w(2) by (simp add: tree_slots_def)
  show "rx_page r' = rx_page r" "n \<le> length ids"
    using match_prefix_keeps(3) [OF I m] match_prefix_longest(1) [OF I m] by auto
  show "spans_kept UNIV r r'"
    using span_same [OF match_prefix_keeps(4) [OF I m] I inv] by (simp add: spans_kept_UNIV)
  obtain ds where ds: "node_path (snd h) t = Some (rn_data t # ds)" "keys_of ds = take n ids"
    using walk_root(2) [OF I w(1)] by (auto simp: walked_def)
  then have s: "span_of (snd h) r' = Some (take n ids, vals_of ds)" using w(2) by (simp add: span_of_def)
  have "length (vals_of ds) = n"
    using cached_aligned [OF inv span_cached [OF inv s]] match_prefix_longest(1) [OF I m] by simp
  then show "\<exists>V. span_of (snd h) r' = Some (take n ids, V) \<and> length V = n" using s by blast
qed

lemma ksum_map: "ksum f ls = sum_list (map (nsum f) ls)"
  by (induction ls) simp_all

lemma nsum_erase: "nsum vmset (erase x) = nsum vmset x"
proof (induction x)
  case (RNode d ks)
  have "map (nsum vmset \<circ> erase) ks = map (nsum vmset) ks" using RNode by simp
  then have "ksum vmset (map erase ks) = ksum vmset ks" by (simp only: ksum_map map_map)
  moreover have "vmset (d\<lparr>nd_ref := 0\<rparr>) = vmset d" by (simp add: vmset_def)
  ultimately show ?case by simp
qed

lemma ksum_erase: "ksum vmset (map erase ks) = ksum vmset ks"
  by (induction ks) (simp_all add: nsum_erase)

lemma lock_handle_slots:
  assumes "lock_handle h u r = Inr r'"
  shows "tree_slots r' = tree_slots r"
proof -
  have "map erase (rn_kids (rx_root r')) = map erase (rn_kids (rx_root r))"
    using assms by (auto simp: lock_handle_def bind_res_Inr split: if_splits option.splits dest!: up_erase(2))
  then show ?thesis unfolding tree_slots_def by (metis ksum_erase)
qed

lemma lock_slots:
  assumes I: "radix_inv L r" and h: "h \<in> set (nids (rx_root r))"
  obtains r' where "cm_lock (n, h) r = Inr r'" "radix_inv (add_mset h L) r'" "tree_slots r' = tree_slots r"
    "rx_page r' = rx_page r" "spans_kept UNIV r r'"
proof -
  obtain r' where r': "lock_handle (n, h) False r = Inr r'" "radix_inv (add_mset h L) r'" "lock_keeps r r'"
    using lock_handle_correct [OF I h] by metis
  then show ?thesis
    using that [of r'] lock_handle_slots [OF r'(1)] span_same [OF _ I r'(2)] by (simp add: cm_lock_def lock_keeps_def spans_kept_UNIV)
qed

lemma unlock_slots:
  assumes I: "radix_inv (add_mset h L) r"
  obtains r' where "cm_unlock (n, h) r = Inr r'" "radix_inv L r'" "tree_slots r' = tree_slots r"
    "rx_page r' = rx_page r" "spans_kept UNIV r r'"
proof -
  obtain r' where r': "lock_handle (n, h) True r = Inr r'" "radix_inv L r'" "lock_keeps r r'"
    using unlock_handle_correct [OF I] by metis
  then show ?thesis
    using that [of r'] lock_handle_slots [OF r'(1)] span_same [OF _ I r'(2)] by (simp add: cm_unlock_def lock_keeps_def spans_kept_UNIV)
qed

lemma evict_slots:
  assumes I: "radix_inv L r" and le: "int need \<le> rx_evictable r"
  obtains out r' where "cm_evict need r = Inr (out, r')" "radix_inv L r'" "need \<le> length out"
    "tree_slots r = mset out + tree_slots r'" "rx_page r' = rx_page r"
    "spans_kept (set_mset L) r r'"
proof -
  obtain out r' where o: "evict need r = Inr (out, r')" "radix_inv L r'" "need \<le> length out"
    "ksum vmset (rn_kids (rx_root r)) = mset out + ksum vmset (rn_kids (rx_root r'))"
    "\<And>g. g \<in> radix_live r' \<Longrightarrow> node_path g (rx_root r') = node_path g (rx_root r)"
    using evict_correct [OF I le] by metis
  have "rx_page r' = rx_page r" using o(1) by (auto simp: evict_def bind_res_Inr split: if_splits sum.splits prod.splits)
  moreover have "spans_kept (set_mset L) r r'"
    using o(5) radix_invD(7) [OF o(2)] by (auto simp: spans_kept_def span_of_def)
  ultimately show ?thesis using that [of out r'] o(1-4) by (simp add: cm_evict_def tree_slots_def)
qed

lemma commit_slots_ok:
  assumes I: "radix_inv L r" and p: "rx_page r = 1" and len: "length idx = length ids"
  obtains n h r' where "cm_commit clk ids idx r = Inr ((n, h), r')" "radix_inv L r'" "n \<le> length ids"
    "tree_slots r' = tree_slots r + mset (drop n idx)" "rx_page r' = rx_page r"
    "spans_kept UNIV r r'"
    "\<forall>K V. (K, V) \<in> cached r \<longrightarrow> prefix K ids \<longrightarrow> length K \<le> n"
proof -
  have al: "nalign (length ids) (rx_page r) = length ids" using p by simp
  have "ok (insert_prefix (fst clk) (snd clk) ids idx r)" using insert_prefix_ok [OF I] al len by simp
  then obtain n m h r' where ins: "insert_prefix (fst clk) (snd clk) ids idx r = Inr ((n, (m, h)), r')"
    by (cases "insert_prefix (fst clk) (snd clk) ids idx r") auto
  note C = insert_prefix_correct [OF I ins]
  obtain t h1 n1 c where w: "walk (rx_page r) (fst clk) (rx_counter r) ids (rx_root r) = (t, h1, n1, c)"
    by (metis prod_cases4)
  have N: "n \<le> length ids" "m = length ids" using C(2) al by (auto simp: inserted_def)
  have "tree_slots r' = tree_slots r + mset (drop n idx)"
  proof (cases "n1 = length ids")
    case True
    then have "n = n1" "r' = r\<lparr>rx_root := t, rx_counter := c\<rparr>"
      using ins w al len by (auto simp: insert_prefix_def Let_def)
    then show ?thesis using walk_root(3) [OF I w] True len by (simp add: tree_slots_def)
  next
    case False
    have wk: "walked ids r t h1 n1 c" using walk_root(2) [OF I w] .
    then obtain base where base: "(take n1 ids, base) \<in> cached r" and le: "n1 \<le> length ids"
      by (auto simp: walked_def)
    define ld where "ld = new_ndata c (drop n1 ids) (drop n1 idx) 0 (snd clk)"
    have r': "r' = r\<lparr>rx_root := attach (rx_page r) h1 (RNode ld []) t, rx_counter := c + 1,
          rx_evictable := rx_evictable r + int (length (nd_key ld))\<rparr>" and n: "n = n1"
      using ins w False al len by (auto simp: insert_prefix_def Let_def ld_def split: if_splits)
    have lt: "n1 < length ids" "length (drop n1 idx) = length ids - n1" using le False len by auto
    have dv: "rx_page r dvd length ids" using p by simp
    show ?thesis
      using attach_root(6) [OF I w dv lt ld_def r' base] n by (simp add: tree_slots_def)
  qed
  moreover have "length K \<le> n" if "(K, V) \<in> cached r" "prefix K ids" for K V
    using C(2) that N(2) by (auto simp: inserted_def)
  moreover have "same_span (node_path g (rx_root r)) (node_path g (rx_root r'))" for g
    using C(2) by (simp add: inserted_def)
  then have "spans_kept UNIV r r'" using span_same [OF _ I C(1)] by (simp add: spans_kept_UNIV)
  moreover have "rx_page r' = rx_page r" using C(2) by (simp add: inserted_def)
  ultimately show ?thesis using that [of n "(m, h)" r'] ins C(1) N(1) by (simp add: cm_commit_def)
qed

end
