(* ===== verification/Slot_Accounting.thy ===== *)
theory Slot_Accounting
  imports Tree_Slots
begin

text \<open>
  Who owns which KV slot. Every live request holds a row of the page table; the row reads the
  slots of a locked path of the prefix tree and then slots allocated to the row itself. The
  invariant says so for a list of tickets, one per live request, and is kept by every operation
  of the engine that touches the tree, the pool or the page table (page size 1, prefix cache on).
\<close>

section \<open>Slices and multisets\<close>

lemma single_distinct: "\<forall>s. count (mset xs + M) s \<le> 1 \<Longrightarrow> distinct xs \<and> set xs \<inter> set_mset M = {}"
proof -
  assume a: "\<forall>s. count (mset xs + M) s \<le> 1"
  have "count (mset xs) s \<le> 1" for s using a [rule_format, of s] by simp
  then have d: "distinct xs"
    by (auto simp: distinct_count_atmost_1 count_mset_gt_0 le_Suc_eq not_in_iff)
  have "s \<notin># M" if "s \<in> set xs" for s
  proof
    assume "s \<in># M"
    moreover have "s \<in># mset xs" using that by simp
    ultimately have "0 < count M s" "0 < count (mset xs) s" by (simp_all only: count_greater_zero_iff)
    then show False using a [rule_format, of s, unfolded count_union] by linarith
  qed
  then show ?thesis using d by auto
qed

lemma py_slice_nat:
  "a \<le> b \<Longrightarrow> b \<le> length xs \<Longrightarrow> py_slice (int a) (int b) xs = take (b - a) (drop a xs)"
  by (simp add: py_slice_def norm_idx_def)

lemma py_slice_0: "b \<le> length xs \<Longrightarrow> py_slice 0 (int b) xs = take b xs"
  using py_slice_nat [of 0 b xs] by simp

lemma row_assign_nat:
  assumes "a \<le> b" "b \<le> length row" "length vs = b - a"
  shows "row_assign (int a) (int b) vs row = Inr (take a row @ vs @ drop b row)"
  using assms by (simp add: row_assign_def norm_idx_def)

section \<open>The tree and the pool share the slots\<close>

definition tree_ok :: "nat multiset \<Rightarrow> radix \<Rightarrow> mha_pool \<Rightarrow> bool" where
  "tree_ok L r kv \<longleftrightarrow> radix_inv L r \<and> rx_page r = 1 \<and> mp_page_size kv = 1 \<and>
     mha_inv (set_mset (tree_slots r)) kv \<and> (\<forall>s. count (tree_slots r) s \<le> 1)"

lemma tree_okD:
  assumes "tree_ok L r kv"
  shows "radix_inv L r" "rx_page r = 1" "mp_page_size kv = 1" "mha_inv (set_mset (tree_slots r)) kv"
    "\<forall>s. count (tree_slots r) s \<le> 1"
  using assms by (auto simp: tree_ok_def)

text \<open>A change of the tree that neither takes nor gives slots.\<close>

lemma tree_ok_same:
  "tree_ok L r kv \<Longrightarrow> radix_inv L' r' \<Longrightarrow> tree_slots r' = tree_slots r \<Longrightarrow> rx_page r' = rx_page r \<Longrightarrow> tree_ok L' r' kv"
  by (simp add: tree_ok_def)

lemma tree_ok_free: "tree_ok L r kv \<Longrightarrow> tree_ok L r (mha_free k kv)"
  by (auto simp: tree_ok_def mha_free_inv) (simp add: mha_free_def split: option.splits)

lemma tree_ok_alloc:
  assumes "tree_ok L r kv" "mha_allocate k (Some n) kv = Inr (slots, kv')"
  shows "tree_ok L r kv'" "length slots = n" "mp_alloc kv k = None" "mp_alloc kv' = (mp_alloc kv)(k \<mapsto> slots)"
proof -
  obtain need where n: "need = (case Some n of None \<Rightarrow> mp_num_pages kv | Some n \<Rightarrow> n) * mp_page_size kv" "mp_alloc kv k = None" "need \<le> length (mp_free_list kv)"
      "slots = take need (mp_free_list kv)"
      "kv' = kv\<lparr>mp_free_list := drop need (mp_free_list kv), mp_alloc := (mp_alloc kv)(k \<mapsto> slots)\<rparr>"
    using assms(2) by (rule mha_allocate_Inr)
  show "tree_ok L r kv'" using assms(1) mha_allocate_inv [OF _ assms(2)] n(5) by (simp add: tree_ok_def)
  show "length slots = n" "mp_alloc kv k = None" "mp_alloc kv' = (mp_alloc kv)(k \<mapsto> slots)"
    using n tree_okD(3) [OF assms(1)] by auto
qed

lemma tree_ok_evict:
  assumes T: "tree_ok L r kv" and ev: "cm_evict need r = Inr (out, r')" and le: "int need \<le> rx_evictable r"
  shows "tree_ok L r' (mha_free_slots out kv)"
    "spans_kept (set_mset L) r r'"
proof -
  note I = tree_okD [OF T]
  have E: "radix_inv L r'" "tree_slots r = mset out + tree_slots r'" "rx_page r' = rx_page r"
    "spans_kept (set_mset L) r r'"
    using evict_slots [OF I(1) le] ev by auto
  then show "spans_kept (set_mset L) r r'" by blast
  have d: "distinct out" "set out \<inter> set_mset (tree_slots r') = {}"
    using single_distinct [of out "tree_slots r'"] I(5) E(2) by auto
  have "set_mset (tree_slots r) = set out \<union> set_mset (tree_slots r')" by (simp add: E(2))
  then have "set_mset (tree_slots r') = set_mset (tree_slots r) - set out" "set out \<subseteq> set_mset (tree_slots r)"
    using d by auto
  then have "mha_inv (set_mset (tree_slots r')) (mha_free_slots out kv)"
    using mha_free_slots_inv [OF I(4) d(1)] by simp
  moreover have "count (tree_slots r') s \<le> 1" for s using I(5) [rule_format, of s] E(2) by simp
  moreover have "mp_page_size (mha_free_slots out kv) = 1" using I(3) by (simp add: mha_free_slots_def)
  ultimately show "tree_ok L r' (mha_free_slots out kv)" using E I(2) by (simp add: tree_ok_def)
qed

lemma alloc_free_slots [simp]: "mp_alloc (mha_free_slots xs kv) = mp_alloc kv"
  by (simp add: mha_free_slots_def)

lemma allocate_slots_ok:
  assumes T: "tree_ok L r (en_kv e)" and cm: "en_cm e = Some r" and pg: "en_page e = 1"
    and al: "allocate_slots row np e = (Inr slots, e')"
  obtains r' kv' where "e' = e\<lparr>en_cm := Some r', en_kv := kv'\<rparr>" "tree_ok L r' kv'" "length slots = np"
    "mp_alloc (en_kv e) (int row) = None" "mp_alloc kv' = (mp_alloc (en_kv e))(int row \<mapsto> slots)"
    "spans_kept (set_mset L) r r'"
proof (cases "mha_allocate (int row) (Some np) (en_kv e)")
  case (Inr q)
  then obtain kv where q: "mha_allocate (int row) (Some np) (en_kv e) = Inr (slots, kv)" "e' = e\<lparr>en_kv := kv\<rparr>"
    using al by (cases q) (auto simp: allocate_slots_def)
  then have "e' = e\<lparr>en_cm := Some r, en_kv := kv\<rparr>" using cm by simp
  then show ?thesis
    by (rule that) (use tree_ok_alloc [OF T q(1)] in \<open>simp_all add: spans_kept_def\<close>)
next
  case (Inl err)
  let ?ev = "min (int (np * en_page e)) (cm_evictable_size r)"
  obtain out r' kv where o: "cm_evict (nat ?ev) r = Inr (out, r')" "\<not> ?ev \<le> 0"
    "mha_allocate (int row) (Some np) (mha_free_slots out (en_kv e)) = Inr (slots, kv)"
    "e' = e\<lparr>en_cm := Some r', en_kv := kv\<rparr>"
    using al Inl cm
    by (auto simp: allocate_slots_def evict_and_retry_def Let_def not_le split: if_splits sum.splits prod.splits)
  have le: "int (nat ?ev) \<le> rx_evictable r" using o(2) by (simp add: cm_evictable_size_def size_info_def)
  note E = tree_ok_evict [OF T o(1) le]
  show ?thesis
    by (rule that [OF o(4)]) (use tree_ok_alloc [OF E(1) o(3)] E(2) in simp_all)
qed

section \<open>Tickets\<close>

text \<open>A ticket: the row, the locked node, the tokens of the request so far.\<close>

type_synonym ticket = "nat \<times> nat \<times> token list"

definition row_ok :: "'v engine \<Rightarrow> radix \<Rightarrow> ticket \<Rightarrow> bool" where
  "row_ok e r w \<longleftrightarrow>
     (case w of (t, h, K) \<Rightarrow>
       t < length (en_pt e) \<and>
       (\<exists>a V own. en_adm e t = Some (int a) \<and> a \<le> length V \<and> a < length K \<and> length V \<le> length K \<and>
          span_of h r = Some (take (length V) K, V) \<and>
          mp_alloc (en_kv e) (int t) = Some own \<and> a + length own = en_max_seq e \<and>
          en_pt e ! t = take a V @ own))"

definition kv_core :: "ticket list \<Rightarrow> radix \<Rightarrow> nat multiset \<Rightarrow> 'v engine \<Rightarrow> bool" where
  "kv_core W r X e \<longleftrightarrow>
     en_page e = 1 \<and> en_cm e = Some r \<and>
     tree_ok (mset (map (\<lambda>w. fst (snd w)) W) + X) r (en_kv e) \<and>
     (\<forall>l \<in> set (en_pt e). length l = en_max_seq e) \<and>
     (\<forall>w \<in> set W. row_ok e r w) \<and> distinct (map fst W) \<and>
     (\<forall>k. mp_alloc (en_kv e) k \<noteq> None \<longrightarrow> (\<exists>w \<in> set W. k = int (fst w)))"

lemma kv_coreD:
  assumes "kv_core W r X e"
  shows "en_page e = 1" "en_cm e = Some r" "tree_ok (mset (map (\<lambda>w. fst (snd w)) W) + X) r (en_kv e)"
    "\<forall>l \<in> set (en_pt e). length l = en_max_seq e" "\<forall>w \<in> set W. row_ok e r w" "distinct (map fst W)"
    "\<forall>k. mp_alloc (en_kv e) k \<noteq> None \<longrightarrow> (\<exists>w \<in> set W. k = int (fst w))"
  using assms by (auto simp: kv_core_def)

lemma kv_core_perm:
  assumes K: "kv_core W r X e" and m: "mset W = mset W'"
  shows "kv_core W' r X e"
proof -
  have s: "set W = set W'" using m by (rule mset_eq_setD)
  have d: "distinct (map fst W) = distinct (map fst W')" by (rule mset_eq_distinct) (simp add: m)
  show ?thesis using K unfolding kv_core_def s d mset_map m .
qed

text \<open>Only these fields matter.\<close>

lemma kv_core_fields:
  "kv_core W r X e \<Longrightarrow> en_page e' = en_page e \<Longrightarrow> en_cm e' = en_cm e \<Longrightarrow> en_kv e' = en_kv e \<Longrightarrow>
   en_pt e' = en_pt e \<Longrightarrow> en_max_seq e' = en_max_seq e \<Longrightarrow> en_adm e' = en_adm e \<Longrightarrow> kv_core W r X e'"
  by (simp add: kv_core_def row_ok_def)

lemma row_ok_tree:
  "row_ok e r w \<Longrightarrow> (\<And>x. span_of (fst (snd w)) r = Some x \<Longrightarrow> span_of (fst (snd w)) r' = Some x) \<Longrightarrow> row_ok e r' w"
  by (auto simp: row_ok_def split: prod.splits)

text \<open>The request has got more tokens.\<close>

definition grown :: "ticket \<Rightarrow> ticket \<Rightarrow> bool" where
  "grown w w' \<longleftrightarrow> fst w' = fst w \<and> fst (snd w') = fst (snd w) \<and> prefix (snd (snd w)) (snd (snd w'))"

lemma row_ok_grown: "row_ok e r w \<Longrightarrow> grown w w' \<Longrightarrow> row_ok e r w'"
  by (auto simp: row_ok_def grown_def prefix_def split: prod.splits)

lemma kv_core_grown:
  assumes "kv_core W r X e" "list_all2 grown W W'"
  shows "kv_core W' r X e"
proof -
  have m: "map fst W' = map fst W \<and> map (\<lambda>w. fst (snd w)) W' = map (\<lambda>w. fst (snd w)) W"
    using assms(2) by (induction rule: list_all2_induct) (auto simp: grown_def)
  have "\<forall>w' \<in> set W'. row_ok e r w'"
  proof
    fix w' assume "w' \<in> set W'"
    then obtain i where i: "i < length W'" "w' = W' ! i" by (auto simp: in_set_conv_nth)
    then have "W ! i \<in> set W" "grown (W ! i) w'"
      using list_all2_nthD2 [OF assms(2)] list_all2_lengthD [OF assms(2)] by auto
    then show "row_ok e r w'" using row_ok_grown kv_coreD(5) [OF assms(1)] by blast
  qed
  moreover have "(\<exists>w \<in> set W'. k = int (fst w)) \<longleftrightarrow> (\<exists>w \<in> set W. k = int (fst w))" for k
  proof -
    have "fst ` set W' = fst ` set W" using m by (metis list.set_map)
    then have "k \<in> int ` fst ` set W' \<longleftrightarrow> k \<in> int ` fst ` set W" by simp
    then show ?thesis by (simp only: image_image image_iff)
  qed
  ultimately show ?thesis using assms(1) m by (simp add: kv_core_def)
qed

text \<open>Releasing a row gives its slots back; its lock may be left over.\<close>

lemma kv_core_release:
  assumes K: "kv_core (w # W) r X e"
  shows "kv_core W r (add_mset (fst (snd w)) X) (e\<lparr>en_kv := mha_free (int (fst w)) (en_kv e)\<rparr>)"
proof -
  let ?kv = "mha_free (int (fst w)) (en_kv e)"
  note I = kv_coreD [OF K]
  have al: "mp_alloc ?kv = (mp_alloc (en_kv e))(int (fst w) := None)"
    by (auto simp: mha_free_def split: option.splits)
  have "row_ok (e\<lparr>en_kv := ?kv\<rparr>) r v" if "v \<in> set W" for v
  proof -
    have "fst v \<noteq> fst w" using I(6) that by (auto simp: image_iff)
    moreover have "row_ok e r v" using I(5) that by simp
    ultimately show ?thesis by (auto simp: row_ok_def al split: prod.splits)
  qed
  moreover have "\<exists>v \<in> set W. k = int (fst v)" if "mp_alloc ?kv k \<noteq> None" for k
    using I(7) that by (auto simp: al split: if_splits)
  ultimately show ?thesis using I tree_ok_free [OF I(3)] by (simp add: kv_core_def)
qed

section \<open>A finished request's slots\<close>

lemma free_linear_fields [simp]:
  "en_page (free_linear q e) = en_page e" "en_cm (free_linear q e) = en_cm e" "en_kv (free_linear q e) = en_kv e"
  "en_pt (free_linear q e) = en_pt e" "en_max_seq (free_linear q e) = en_max_seq e"
  "en_adm (free_linear q e) = en_adm e" "en_sched (free_linear q e) = en_sched e" "en_full (free_linear q e) = en_full e"
  "en_next_pid (free_linear q e) = en_next_pid e" "en_lin e = None \<Longrightarrow> en_lin (free_linear q e) = None"
  by (simp_all add: free_linear_def Let_def split: option.splits)

text \<open>A finished row's own slots: what the tree had already, what it takes over, what was not
  used.\<close>

lemma split_own:
  fixes own :: "slot list"
  assumes "a \<le> n" "n \<le> m" "m \<le> a + length own"
  shows "own = take (n - a) own @ take (m - n) (drop (n - a) own) @ drop (m - a) own"
proof -
  have "drop (m - n) (drop (n - a) own) = drop (m - a) own" using assms by simp
  then show ?thesis by (metis append_take_drop_id)
qed

lemma tree_ok_commit:
  assumes T: "tree_ok L r kv" and al: "mp_alloc kv k = Some own"
    and pt: "pt = pre @ own" "length f \<le> length pt" and a: "a = length pre" "a < length f"
    and s: "span_of h r = Some (take (length V) f, V)" "a \<le> length V" "length V \<le> length f"
  obtains n hh r' where "cm_commit clk f (take (length f) pt) r = Inr ((n, hh), r')"
    "a \<le> n" "n \<le> length f"
    "tree_ok L r' (mha_free_slots (take (n - a) own @ drop (length f - a) own) (snd (mha_detach k kv)))"
    "spans_kept UNIV r r'"
proof -
  note I = tree_okD [OF T]
  let ?m = "length f"
  have len: "length (take ?m pt) = ?m" using pt(2) by simp
  obtain n hh r' where C: "cm_commit clk f (take ?m pt) r = Inr ((n, hh), r')" "radix_inv L r'" "n \<le> ?m"
    "tree_slots r' = tree_slots r + mset (drop n (take ?m pt))" "rx_page r' = rx_page r"
    "spans_kept UNIV r r'"
    "\<forall>K V. (K, V) \<in> cached r \<longrightarrow> prefix K f \<longrightarrow> length K \<le> n"
    by (rule commit_slots_ok [OF I(1,2) len, where clk = clk])
  have n: "length V \<le> n" using C(7) [rule_format, OF span_cached [OF I(1) s(1)] take_is_prefix] s(3) by simp
  then have an: "a \<le> n" using s(2) by simp
  have mo: "?m \<le> a + length own" using pt a by simp
  have mid: "drop n (take ?m pt) = take (?m - n) (drop (n - a) own)"
    using an a by (simp add: pt(1) drop_take min_def)
  let ?mid = "take (?m - n) (drop (n - a) own)" and ?out = "take (n - a) own @ drop (?m - a) own"
  have own: "own = take (n - a) own @ ?mid @ drop (?m - a) own" by (rule split_own [OF an C(3) mo])
  note J = mha_invD [OF I(4)]
  have od: "distinct own" "set own \<inter> set_mset (tree_slots r) = {}" using J(3,5) [OF al] by auto
  then have d3: "distinct (take (n - a) own @ ?mid @ drop (?m - a) own)" using own by simp
  have so: "set own = set ?out \<union> set ?mid" using arg_cong [OF own, of set] by auto
  have dis: "set ?out \<inter> set ?mid = {}" "distinct ?out" "distinct ?mid" using d3 by auto
  let ?kv = "snd (mha_detach k kv)"
  have fst: "fst (mha_detach k kv) = own" using al by (simp add: mha_detach_def)
  have D: "mha_inv (set_mset (tree_slots r) \<union> set own) ?kv"
    by (rule mha_detach_inv [OF I(4)]) (simp add: fst [symmetric])
  have sub: "set ?out \<subseteq> set_mset (tree_slots r) \<union> set own" using so by auto
  have ts: "set_mset (tree_slots r') = set_mset (tree_slots r) \<union> set ?mid" using C(4) mid by simp
  have "set_mset (tree_slots r) \<union> set own - set ?out = set_mset (tree_slots r')"
    unfolding ts using so dis od(2) by auto
  then have inv: "mha_inv (set_mset (tree_slots r')) (mha_free_slots ?out ?kv)"
    using mha_free_slots_inv [OF D dis(2) sub] by simp
  have one: "count (tree_slots r') s \<le> 1" for s
  proof (cases "s \<in> set ?mid")
    case True
    then have "s \<notin># tree_slots r" using so od(2) by auto
    then have "count (tree_slots r) s = 0" by (simp add: count_eq_zero_iff)
    moreover have "count (mset ?mid) s \<le> 1" using dis(3) by (simp add: distinct_count_atmost_1)
    ultimately show ?thesis unfolding C(4) mid by simp
  next
    case False
    then have "count (mset ?mid) s = 0" by (simp only: count_eq_zero_iff set_mset_mset not_False_eq_True)
    then show ?thesis using I(5) unfolding C(4) mid count_union by (simp only: add_0_right)
  qed
  have "mp_page_size (mha_free_slots ?out ?kv) = 1"
    using I(3) by (simp add: mha_free_slots_def mha_detach_def)
  then have "tree_ok L r' (mha_free_slots ?out ?kv)"
    using C(2,5) I(2) inv one by (simp add: tree_ok_def)
  then show ?thesis by (rule that [OF C(1) an C(3) _ C(6)])
qed

lemma commit_one_core:
  assumes K: "kv_core ((t, h, f) # W) r X e" and q: "rq_table q = t" "rq_handle q = Some (m, h)"
    and f: "en_full e t = Some f" "length f \<le> en_max_seq e"
  obtains r' e' where "commit_one clk q e = Inr e'" "kv_core W r' X e'" "en_sched e' = en_sched e"
    "en_full e' = (en_full e)(t := None)" "en_adm e' = (en_adm e)(t := None)" "en_max_seq e' = en_max_seq e"
    "en_next_pid e' = en_next_pid e" "en_lin e = None \<Longrightarrow> en_lin e' = None" "length (en_pt e') = length (en_pt e)"
proof -
  note I = kv_coreD [OF K]
  let ?L = "mset (map (\<lambda>w. fst (snd w)) W) + X"
  obtain a V own where R: "t < length (en_pt e)" "en_adm e t = Some (int a)" "a \<le> length V" "a < length f"
    "length V \<le> length f" "span_of h r = Some (take (length V) f, V)" "mp_alloc (en_kv e) (int t) = Some own"
    "a + length own = en_max_seq e" "en_pt e ! t = take a V @ own"
    using I(5) by (auto simp: row_ok_def)
  have T: "tree_ok (add_mset h ?L) r (en_kv e)" using I(3) by simp
  obtain c1 where c1: "cm_unlock (m, h) r = Inr c1" "radix_inv ?L c1" "tree_slots c1 = tree_slots r"
    "rx_page c1 = rx_page r" "spans_kept UNIV r c1"
    by (rule unlock_slots [OF tree_okD(1) [OF T], where n = m])
  have T1: "tree_ok ?L c1 (en_kv e)" using tree_ok_same [OF T c1(2,3,4)] .
  have lp: "length (en_pt e ! t) = en_max_seq e" using I(4) R(1) by simp
  have pre: "a = length (take a V)" using R(3) by simp
  have lf: "length f \<le> length (en_pt e ! t)" using f(2) lp by simp
  obtain n hh r' where C: "cm_commit (clk q) f (take (length f) (en_pt e ! t)) c1 = Inr ((n, hh), r')"
    "a \<le> n" "n \<le> length f"
    "tree_ok ?L r' (mha_free_slots (take (n - a) own @ drop (length f - a) own) (snd (mha_detach (int t) (en_kv e))))"
    "spans_kept UNIV c1 r'"
    by (rule tree_ok_commit [OF T1 R(7) R(9) lf pre R(4) spans_keptD [OF c1(5) UNIV_I R(6)] R(3,5), where clk = "clk q"])
  let ?kv = "mha_free_slots (take (n - a) own @ drop (length f - a) own) (snd (mha_detach (int t) (en_kv e)))"
  let ?e2 = "e\<lparr>en_full := (en_full e)(t := None), en_adm := (en_adm e)(t := None), en_cm := Some r', en_kv := ?kv\<rparr>"
  have sl: "py_slice (int a) (int n) (en_pt e ! t) = take (n - a) own"
    "py_slice (int (length f)) (int (en_max_seq e)) (en_pt e ! t) = drop (length f - a) own"
    using C(2,3) R(3,4,8) f(2) lp by (simp_all add: py_slice_nat R(9))
  have s0: "py_slice 0 (int (length f)) (en_pt e ! t) = take (length f) (en_pt e ! t)"
    using py_slice_0 [OF lf] .
  have ne: "f \<noteq> []" using R(4) by auto
  have "commit_one clk q e = Inr (free_linear q ?e2)"
    using I(2) q f(1) R(2) c1(1) C(1) ne
    by (simp add: commit_one_def commit_slots_def Let_def s0 sl split_beta)
  moreover have "kv_core W r' X ?e2"
  proof -
    have al: "mp_alloc (snd (mha_detach (int t) (en_kv e))) = (mp_alloc (en_kv e))(int t := None)"
      by (simp add: mha_detach_def)
    have "row_ok ?e2 r' v" if v: "v \<in> set W" for v
    proof -
      have "fst v \<noteq> t" using I(6) v by (auto simp: image_iff)
      moreover have "row_ok e r v" using I(5) v by simp
      ultimately show ?thesis using c1(5) C(5) by (auto simp: row_ok_def al spans_kept_UNIV split: prod.splits)
    qed
    moreover have "\<exists>v \<in> set W. k = int (fst v)" if "mp_alloc ?kv k \<noteq> None" for k
      using I(7) that by (auto simp: al split: if_splits)
    ultimately show ?thesis using I C(4) by (simp add: kv_core_def)
  qed
  then have "kv_core W r' X (free_linear q ?e2)" by (rule kv_core_fields) simp_all
  ultimately show ?thesis using that by simp
qed

section \<open>Admission\<close>

lemma kv_core_lock:
  assumes K: "kv_core W r X e" and T: "tree_ok (mset (map (\<lambda>w. fst (snd w)) W) + Y) r2 (en_kv e)" and s: "spans_kept UNIV r r2"
  shows "kv_core W r2 Y (e\<lparr>en_cm := Some r2\<rparr>)"
proof -
  have "row_ok (e\<lparr>en_cm := Some r2\<rparr>) r2 w" if "w \<in> set W" for w
    using kv_coreD(5) [OF K] that s by (fastforce simp: row_ok_def spans_kept_UNIV split: prod.splits)
  then show ?thesis using K T by (simp add: kv_core_def)
qed

lemma match_prompt_core:
  assumes K: "kv_core W r X e" and ne: "rq_input q \<noteq> []"
  obtains n h V r2 where
    "match_prompt tic q e = (Inr (int (min n (length (rq_input q) - 1)), Some h, V,
        q\<lparr>rq_handle := Some h, rq_cached_len := int (min n (length (rq_input q) - 1))\<rparr>), e\<lparr>en_cm := Some r2\<rparr>)"
    "kv_core W r2 (add_mset (snd h) X) (e\<lparr>en_cm := Some r2\<rparr>)"
    "span_of (snd h) r2 = Some (take n (rq_input q), V)" "length V = n" "n \<le> length (rq_input q)"
proof -
  note I = kv_coreD [OF K]
  let ?ids = "rq_input q" and ?L = "mset (map (\<lambda>w. fst (snd w)) W) + X"
  obtain n h c1 where m: "match_prefix tic ?ids r = ((n, h), c1)" by (metis surj_pair)
  note M = match_slots [OF tree_okD(1) [OF I(3)] m]
  obtain V where V: "span_of (snd h) c1 = Some (take n ?ids, V)" "length V = n" using M(5) by blast
  have live: "snd h \<in> set (nids (rx_root c1))" using V(1) span_live [of "snd h" c1] by simp
  obtain c2 where c2: "cm_lock (fst h, snd h) c1 = Inr c2" "radix_inv (add_mset (snd h) ?L) c2"
    "tree_slots c2 = tree_slots c1" "rx_page c2 = rx_page c1" "spans_kept UNIV c1 c2"
    by (rule lock_slots [OF M(2) live])
  have T: "tree_ok (mset (map (\<lambda>w. fst (snd w)) W) + add_mset (snd h) X) c2 (en_kv e)"
    using tree_ok_same [OF I(3), of _ c2] c2 M(1,3) by simp
  have s: "spans_kept UNIV r c2" using spans_kept_trans [OF M(4) c2(5)] by simp
  have V2: "span_of (snd h) c2 = Some (take n ?ids, V)" using spans_keptD [OF c2(5) UNIV_I V(1)] .
  have mi: "get_matched_indices h c2 = Some V" using V2 by (simp add: span_of_indices)
  have len: "min (int n) (int (length ?ids) - 1) = int (min n (length ?ids - 1))" using ne by (cases ?ids) auto
  have al: "align_down (int k) (int (en_page e)) = Inr (int k)" for k
    using I(1) by (simp add: align_down_def py_floordiv_def)
  have "match_prompt tic q e = (Inr (int (min n (length ?ids - 1)), Some h, V,
        q\<lparr>rq_handle := Some h, rq_cached_len := int (min n (length ?ids - 1))\<rparr>), e\<lparr>en_cm := Some c2\<rparr>)"
    using I(2) m c2(1) mi by (simp add: match_prompt_def cm_match_def len al)
  then show ?thesis using that kv_core_lock [OF K T s] V2 V(2) M(6) by blast
qed

lemma install_slots_nat:
  assumes "t < length (en_pt e)" "\<forall>l \<in> set (en_pt e). length l = en_max_seq e" "a + length slots = en_max_seq e"
  shows "install_slots t (int a) slots e
    = (Inr (), e\<lparr>en_pt := (en_pt e)[t := take a (en_pt e ! t) @ slots]\<rparr>)"
proof -
  have l: "length (en_pt e ! t) = en_max_seq e" using assms(1,2) by simp
  have "int (en_max_seq e) - int a = int (length slots)" using assms(3) by linarith
  then have s: "py_slice 0 (int (en_max_seq e) - int a) slots = slots"
    using py_slice_0 [of "length slots" slots] by simp
  have "row_assign (int a) (int (en_max_seq e)) slots (en_pt e ! t) = Inr (take a (en_pt e ! t) @ slots)"
    using row_assign_nat [of a "en_max_seq e" "en_pt e ! t" slots] assms(3) l by simp
  then show ?thesis by (simp add: install_slots_def pt_assign_def s)
qed

lemma alias_prefix:
  assumes "t < length (en_pt e)" "\<forall>l \<in> set (en_pt e). length l = en_max_seq e" "a \<le> length V" "a \<le> en_max_seq e"
  shows "(if int a \<noteq> 0 then pt_assign t 0 (int a) (py_slice 0 (int a) V) e else (Inr (), e))
    = (Inr (), e\<lparr>en_pt := (en_pt e)[t := take a V @ drop a (en_pt e ! t)]\<rparr>)"
proof -
  have l: "length (en_pt e ! t) = en_max_seq e" using assms(1,2) by simp
  have "row_assign 0 (int a) (take a V) (en_pt e ! t) = Inr (take a V @ drop a (en_pt e ! t))"
    using row_assign_nat [of 0 a "en_pt e ! t" "take a V"] assms(3,4) l by simp
  then show ?thesis using py_slice_0 [OF assms(3)] by (simp add: pt_assign_def)
qed

lemma allocate_slot_core:
  assumes K: "kv_core W r (add_mset h X) e" and s: "span_of h r = Some (take (length V) ids, V)" "length V \<le> length ids"
    and a: "a = min (length V) (length ids - 1)" "ids \<noteq> []" "length ids \<le> en_max_seq e"
    and t: "t < length (en_pt e)" "t \<notin> fst ` set W" "en_adm e t = Some (int a)"
    and al: "allocate_slot t (int a) V e = (Inr u, e')"
  obtains r' kv' pt' where "kv_core ((t, h, ids) # W) r' X e'" "e' = e\<lparr>en_cm := Some r', en_kv := kv', en_pt := pt'\<rparr>"
    "length pt' = length (en_pt e)"
proof -
  note I = kv_coreD [OF K]
  have al1: "a \<le> length V" "a < length ids" "a \<le> en_max_seq e" using a by (cases ids; auto)+
  let ?e1 = "e\<lparr>en_pt := (en_pt e)[t := take a V @ drop a (en_pt e ! t)]\<rparr>"
  have pg: "pages_for (int (en_max_seq e) - int a) 1 = en_max_seq e - a" by (simp add: pages_for_def)
  obtain slots e2 where S: "allocate_slots t (en_max_seq e - a) ?e1 = (Inr slots, e2)"
    "install_slots t (int a) slots e2 = (Inr u, e')"
  proof -
    have "allocate_slot t (int a) V e = then_do (allocate_slots t (en_max_seq e - a) ?e1) (install_slots t (int a))"
      unfolding allocate_slot_def alias_prefix [OF t(1) I(4) al1(1,3)] using pg I(1) by simp
    then have "then_do (allocate_slots t (en_max_seq e - a) ?e1) (install_slots t (int a)) = (Inr u, e')"
      using al by simp
    then show ?thesis using that unfolding then_do_Inr by blast
  qed
  obtain r' kv' where A: "e2 = ?e1\<lparr>en_cm := Some r', en_kv := kv'\<rparr>"
    "tree_ok (mset (map (\<lambda>w. fst (snd w)) W) + add_mset h X) r' kv'" "length slots = en_max_seq e - a"
    "mp_alloc (en_kv ?e1) (int t) = None" "mp_alloc kv' = (mp_alloc (en_kv ?e1))(int t \<mapsto> slots)"
    "spans_kept (set_mset (mset (map (\<lambda>w. fst (snd w)) W) + add_mset h X)) r r'"
    by (rule allocate_slots_ok [OF _ _ _ S(1), of "mset (map (\<lambda>w. fst (snd w)) W) + add_mset h X" r]) (use I in simp_all)
  let ?pt' = "(en_pt e)[t := take a V @ slots]"
  have le: "\<forall>l \<in> set (en_pt e2). length l = en_max_seq e2"
    using I(4) A(1) t(1) al1 by (auto dest!: set_update_subset_insert [THEN subsetD])
  have e': "e' = e\<lparr>en_cm := Some r', en_kv := kv', en_pt := ?pt'\<rparr>"
  proof -
    have "install_slots t (int a) slots e2 = (Inr (), e2\<lparr>en_pt := (en_pt e2)[t := take a (en_pt e2 ! t) @ slots]\<rparr>)"
      by (rule install_slots_nat [OF _ le]) (use t(1) al1(3) A(3) in \<open>simp_all add: A(1)\<close>)
    then have "e' = e2\<lparr>en_pt := (en_pt e2)[t := take a (en_pt e2 ! t) @ slots]\<rparr>" using S(2) by simp
    also have "\<dots> = e\<lparr>en_cm := Some r', en_kv := kv', en_pt := ?pt'\<rparr>" using t(1) al1(1) by (simp add: A(1))
    finally show ?thesis .
  qed
  have "row_ok e' r' w" if w: "w \<in> set W" for w
  proof -
    have "fst w \<noteq> t" using t(2) w by (auto simp: image_iff)
    moreover have "row_ok e r w" using I(5) w by simp
    moreover have "fst (snd w) \<in> set_mset (mset (map (\<lambda>w. fst (snd w)) W) + add_mset h X)" using w by simp
    note spans_keptD [OF A(6) this]
    ultimately show ?thesis using A(5) by (auto simp: e' row_ok_def split: prod.splits)
  qed
  moreover have "row_ok e' r' (t, h, ids)"
    using spans_keptD [OF A(6) _ s(1)] s(2) al1 t(1,3) A(3,5) by (auto simp: e' row_ok_def)
  moreover have "\<forall>l \<in> set ?pt'. length l = en_max_seq e"
    using I(4) A(3) t(1) al1 by (auto dest!: set_update_subset_insert [THEN subsetD])
  moreover have "\<exists>w \<in> set ((t, h, ids) # W). k = int (fst w)" if "mp_alloc kv' k \<noteq> None" for k
    using I(7) that A(5) by (auto split: if_splits)
  ultimately have "kv_core ((t, h, ids) # W) r' X e'"
    using I(1,6) A(2) t(2) by (simp add: kv_core_def e')
  then show ?thesis using that e' by simp
qed

lemma take_linear_fields:
  assumes "take_linear cl q e = (res, e')"
  shows "en_page e' = en_page e" "en_cm e' = en_cm e" "en_kv e' = en_kv e" "en_pt e' = en_pt e"
    "en_max_seq e' = en_max_seq e" "en_adm e' = en_adm e" "en_sched e' = en_sched e" "en_full e' = en_full e"
    "en_next_pid e' = en_next_pid e" "en_lin e = None \<Longrightarrow> en_lin e' = None"
    "res = Inr q' \<Longrightarrow> rq_input q' = rq_input q \<and> rq_uid q' = rq_uid q"
  using assms
  by (auto simp: take_linear_def Let_def split: option.splits sum.splits prod.splits)

text \<open>A successful admission gives the new row a ticket.\<close>

lemma add_request_core:
  assumes K: "kv_core W r X e" and q: "rq_input q \<noteq> []" "length (rq_input q) \<le> en_max_seq e"
    and t: "sd_free (en_sched e) = t # ts" "t < length (en_pt e)" "t \<notin> fst ` set W"
    and ad: "add_request tic q mt e = (Inr (uid, row), e')"
  obtains h p r' X' where "row = t" "kv_core ((t, snd h, rq_input q) # W) r' X' e'"
    "sched_add p (en_sched e) = Inr (uid, en_sched e')"
    "pd_id p = en_next_pid e" "pd_uid p = rq_uid q" "pd_input p = rq_input q" "pd_chunk p = None"
    "pd_output_len p = mt" "pd_handle p = Some h"
    "0 \<le> pd_cached_len p" "pd_cached_len p < input_len p"
    "en_adm e' = (en_adm e)(t \<mapsto> pd_cached_len p)" "en_full e' = en_full e"
    "en_next_pid e' = en_next_pid e + 1" "en_max_seq e' = en_max_seq e" "length (en_pt e') = length (en_pt e)"
    "en_lin e = None \<Longrightarrow> en_lin e' = None"
proof -
  let ?ids = "rq_input q"
  obtain n h V r2 where M: "match_prompt tic q e = (Inr (int (min n (length ?ids - 1)), Some h, V,
        q\<lparr>rq_handle := Some h, rq_cached_len := int (min n (length ?ids - 1))\<rparr>), e\<lparr>en_cm := Some r2\<rparr>)"
    "kv_core W r2 (add_mset (snd h) X) (e\<lparr>en_cm := Some r2\<rparr>)"
    "span_of (snd h) r2 = Some (take n ?ids, V)" "length V = n" "n \<le> length ?ids"
    by (rule match_prompt_core [OF K q(1), where tic = tic])
  let ?a = "min n (length ?ids - 1)" and ?e1 = "e\<lparr>en_cm := Some r2\<rparr>"
  let ?q1 = "q\<lparr>rq_handle := Some h, rq_cached_len := int ?a\<rparr>"
  obtain q2 e2 where L: "take_linear (int ?a) ?q1 ?e1 = (Inr q2, e2)"
    and en: "then_do (enqueue mt (int ?a) (Some h) q2 e2) (\<lambda>(uid, row) e3.
       then_do (allocate_slot row (int ?a) V e3) (\<lambda>_ e4. (Inr (uid, row), e4))) = (Inr (uid, row), e')"
    using ad unfolding add_request_def M(1) by (auto simp: then_do_Inr)
  note F = take_linear_fields [OF L, simplified]
  let ?p = "make_pending_req (en_next_pid e) (rq_uid q2) (rq_input q2) mt (Some h) (int ?a)
                (rq_linear_slot q2) (rq_ping_pong q2) (rq_restore_src q2)"
  let ?s = "(en_sched e)\<lparr>sd_free := ts, sd_pm := pm_add (?p\<lparr>pd_table := t, pd_next_table := - 1\<rparr>) (sd_pm (en_sched e)),
      sd_next_uid := max (sd_next_uid (en_sched e)) (pd_uid ?p + 1)\<rparr>"
  have sa: "sched_add ?p (en_sched e) = Inr (rq_uid q2, ?s)"
    using t(1) by (simp add: sched_add_def make_pending_req_def)
  let ?e3 = "e2\<lparr>en_next_pid := en_next_pid e + 1, en_sched := ?s, en_adm := (en_adm e)(t \<mapsto> int ?a)\<rparr>"
  have E: "enqueue mt (int ?a) (Some h) q2 e2 = (Inr (rq_uid q2, t), ?e3)"
    unfolding enqueue_def Let_def using sa F by (simp add: pm_add_def)
  have A: "allocate_slot t (int ?a) V ?e3 = (Inr (), e')" and ur: "uid = rq_uid q2" "row = t"
    using en unfolding E by (auto simp: then_do_Inr)
  have K3: "kv_core W r2 (add_mset (snd h) X) ?e3"
  proof -
    have "row_ok ?e3 r2 w" if w: "w \<in> set W" for w
    proof -
      have "fst w \<noteq> t" using t(3) w by (auto simp: image_iff)
      moreover have "row_ok ?e1 r2 w" using kv_coreD(5) [OF M(2)] w by simp
      ultimately show ?thesis by (auto simp: row_ok_def F split: prod.splits)
    qed
    then show ?thesis using M(2) by (simp add: kv_core_def F)
  qed
  have sp: "span_of (snd h) r2 = Some (take (length V) ?ids, V)" "length V \<le> length ?ids" using M(3-5) by auto
  have a: "?a = min (length V) (length ?ids - 1)" using M(4) by simp
  have pre: "length ?ids \<le> en_max_seq ?e3" "t < length (en_pt ?e3)" "en_adm ?e3 t = Some (int ?a)"
    using q t F by simp_all
  obtain r' kv' pt' where R: "kv_core ((t, snd h, ?ids) # W) r' X e'"
    "e' = ?e3\<lparr>en_cm := Some r', en_kv := kv', en_pt := pt'\<rparr>" "length pt' = length (en_pt ?e3)"
    by (rule allocate_slot_core [OF K3 sp a q(1) pre(1) pre(2) t(3) pre(3) A])
  have il: "int ?a < input_len ?p"
    using q(1) unfolding input_len_def make_pending_req_def by (cases ?ids) (auto simp: F)
  have es: "en_sched e' = ?s" and adm: "en_adm e' = (en_adm e)(t \<mapsto> int ?a)" and fu: "en_full e' = en_full e2"
    and np: "en_next_pid e' = en_next_pid e + 1" and ms: "en_max_seq e' = en_max_seq e2"
    and li: "en_lin e' = en_lin e2" and lp: "length (en_pt e') = length (en_pt e2)"
    unfolding R(2) using R(3) by simp_all
  have f1: "en_full e2 = en_full e" "en_max_seq e2 = en_max_seq e" "en_pt e2 = en_pt e"
    "en_lin e = None \<Longrightarrow> en_lin e2 = None" "rq_uid q2 = rq_uid q" "rq_input q2 = rq_input q"
    using F by simp_all
  define p where "p = ?p"
  have p: "pd_id p = en_next_pid e" "pd_uid p = rq_uid q" "pd_input p = rq_input q" "pd_chunk p = None"
    "pd_output_len p = mt" "pd_handle p = Some h" "pd_cached_len p = int ?a"
    unfolding p_def make_pending_req_def using f1 by simp_all
  have c: "0 \<le> pd_cached_len p" "pd_cached_len p < input_len p"
    unfolding p(7) using il by (simp_all add: p_def)
  have sa': "sched_add p (en_sched e) = Inr (uid, en_sched e')" unfolding ur es p_def by (rule sa)
  have adm': "en_adm e' = (en_adm e)(t \<mapsto> pd_cached_len p)" unfolding adm p(7) by (rule refl)
  have rest: "en_full e' = en_full e" "en_max_seq e' = en_max_seq e" "length (en_pt e') = length (en_pt e)"
    "en_lin e = None \<Longrightarrow> en_lin e' = None"
    unfolding fu f1 ms lp li by (simp_all add: f1)
  show ?thesis
    by (rule that [where p = p, OF ur(2) R(1) sa' p(1-6) c adm' rest(1) np rest(2,3)]) (rule rest(4))
qed

text \<open>A refused admission leaves at most a lock behind.\<close>

lemma add_request_refused:
  assumes K: "kv_core W r X e" and q: "rq_input q \<noteq> []" and t: "sd_free (en_sched e) = []"
    and ad: "add_request tic q mt e = (res, e')"
  obtains err r' X' where "res = Inl err" "kv_core W r' X' e'" "en_sched e' = en_sched e" "en_adm e' = en_adm e"
    "en_full e' = en_full e" "en_next_pid e \<le> en_next_pid e'" "en_max_seq e' = en_max_seq e"
    "length (en_pt e') = length (en_pt e)"
    "en_lin e = None \<Longrightarrow> en_lin e' = None"
proof -
  let ?ids = "rq_input q"
  obtain n h V r2 where M: "match_prompt tic q e = (Inr (int (min n (length ?ids - 1)), Some h, V,
        q\<lparr>rq_handle := Some h, rq_cached_len := int (min n (length ?ids - 1))\<rparr>), e\<lparr>en_cm := Some r2\<rparr>)"
    "kv_core W r2 (add_mset (snd h) X) (e\<lparr>en_cm := Some r2\<rparr>)"
    "span_of (snd h) r2 = Some (take n ?ids, V)" "length V = n" "n \<le> length ?ids"
    by (rule match_prompt_core [OF K q, where tic = tic])
  let ?a = "min n (length ?ids - 1)" and ?e1 = "e\<lparr>en_cm := Some r2\<rparr>"
  let ?q1 = "q\<lparr>rq_handle := Some h, rq_cached_len := int ?a\<rparr>"
  obtain res2 e2 where L: "take_linear (int ?a) ?q1 ?e1 = (res2, e2)" by (cases "take_linear (int ?a) ?q1 ?e1")
  note F = take_linear_fields [OF L, simplified]
  have K2: "kv_core W r2 (add_mset (snd h) X) e2" by (rule kv_core_fields [OF M(2)]) (simp_all add: F)
  show ?thesis
  proof (cases res2)
    case (Inl err)
    then have "res = Inl err" "e' = e2" using ad L unfolding add_request_def M(1) by simp_all
    then show ?thesis using that [of err r2 "add_mset (snd h) X"] K2 F by simp
  next
    case (Inr q2)
    have E: "enqueue mt (int ?a) (Some h) q2 e2 = (Inl RuntimeError, e2\<lparr>en_next_pid := en_next_pid e2 + 1\<rparr>)"
      using t F by (simp add: enqueue_def sched_add_def Let_def)
    have "res = Inl RuntimeError" "e' = e2\<lparr>en_next_pid := en_next_pid e2 + 1\<rparr>"
      using ad L Inr E unfolding add_request_def M(1) by simp_all
    moreover have "kv_core W r2 (add_mset (snd h) X) (e2\<lparr>en_next_pid := en_next_pid e2 + 1\<rparr>)"
      by (rule kv_core_fields [OF K2]) simp_all
    ultimately show ?thesis using that [of RuntimeError r2 "add_mset (snd h) X"] F by simp
  qed
qed

text \<open>Releasing a list of rows.\<close>

lemma release_idle: "kv_core W r X e \<Longrightarrow> t \<notin> fst ` set W \<Longrightarrow> mha_free (int t) (en_kv e) = en_kv e"
proof -
  assume K: "kv_core W r X e" and t: "t \<notin> fst ` set W"
  have "mp_alloc (en_kv e) (int t) = None" using kv_coreD(7) [OF K] t by (force simp: image_iff)
  then show ?thesis by (simp add: mha_free_def)
qed

lemma release_rows_idle:
  "kv_core W r X e \<Longrightarrow> set ts \<inter> fst ` set W = {} \<Longrightarrow> release_rows ts (en_kv e) = en_kv e"
  unfolding release_rows_def by (induction ts) (auto simp: release_idle)

end
