(* ===== verification/Engine_Run.thy ===== *)
theory Engine_Run
  imports Slot_Accounting
begin

text \<open>
  The engine as a whole: in every history of admissions, cancellations and steps the rows of the
  page table, the pool and the prefix tree stay consistent (page size 1, prefix cache on, no
  recurrent layers). The tickets of a state are those of the queued prompts and of the decoding
  requests.
\<close>

section \<open>The invariant\<close>

definition pending_ticket :: "pending \<Rightarrow> ticket" where
  "pending_ticket p = (pd_table p, snd (the (pd_handle p)), pd_input p)"

definition running_ticket :: "'v engine \<Rightarrow> req \<Rightarrow> ticket" where
  "running_ticket e r = (rq_table r, snd (the (rq_handle r)), the (en_full e (rq_table r)))"

definition tickets :: "'v engine \<Rightarrow> ticket list" where
  "tickets e = map pending_ticket (pm_pending (sd_pm (en_sched e))) @ map (running_ticket e) (dm_running (sd_dm (en_sched e)))"

text \<open>A queued prompt fits its row, and its extension never starts before the row's own slots.\<close>

definition waiting_ok :: "'v engine \<Rightarrow> pending \<Rightarrow> bool" where
  "waiting_ok e p \<longleftrightarrow> pd_handle p \<noteq> None \<and> 1 \<le> pd_output_len p \<and>
     input_len p + pd_output_len p \<le> int (en_max_seq e) \<and> pd_id p < en_next_pid e \<and>
     en_adm e (pd_table p) = Some (pd_cached_len p) \<and> pd_cached_len p \<le> resume_at p"

definition full_ok :: "'v engine \<Rightarrow> req \<Rightarrow> bool" where
  "full_ok e r \<longleftrightarrow> rq_handle r \<noteq> None \<and> rq_max_device_len r \<le> int (en_max_seq e) \<and>
     (\<exists>f. en_full e (rq_table r) = Some f \<and> int (length f) = rq_device_len r)"

definition eng_inv :: "'v engine \<Rightarrow> bool" where
  "eng_inv e \<longleftrightarrow> sched_inv (en_sched e) \<and> sd_max_running (en_sched e) \<le> length (en_pt e) \<and> en_lin e = None \<and>
     (\<forall>p \<in> set (pm_pending (sd_pm (en_sched e))). waiting_ok e p) \<and>
     (\<forall>r \<in> set (dm_running (sd_dm (en_sched e))). can_decode r \<and> full_ok e r) \<and>
     (\<exists>r X. kv_core (tickets e) r X e)"

section \<open>The bookkeeping after sampling\<close>

lemma post_sample_keeps [simp]:
  "rq_table (post_sample ph an eos ign tok r) = rq_table r" "rq_handle (post_sample ph an eos ign tok r) = rq_handle r"
  "rq_chunked (post_sample ph an eos ign tok r) = rq_chunked r" "rq_uid (post_sample ph an eos ign tok r) = rq_uid r"
  "rq_max_device_len (post_sample ph an eos ign tok r) = rq_max_device_len r"
  "\<not> rq_chunked r \<Longrightarrow> rq_device_len (post_sample ph an eos ign tok r) = rq_device_len r + 1"
  by (simp_all add: post_sample_def post_append_def post_finish_def Let_def)

lemma post_sample_aborted:
  "\<not> rq_chunked r \<Longrightarrow> rq_aborted (post_sample ph an eos ign tok r) \<longleftrightarrow> \<not> can_decode (post_sample ph an eos ign tok r)"
  by (auto simp: post_sample_def post_finish_def post_append_def Let_def can_decode_def remain_len_def)

text \<open>The tokens recorded for a row after its request got one more.\<close>

definition longer :: "phase \<Rightarrow> (req \<Rightarrow> token) \<Rightarrow> (nat \<rightharpoonup> token list) \<Rightarrow> req \<Rightarrow> token list" where
  "longer ph tok F r = (case ph of Prefill \<Rightarrow> rq_input r | Decode \<Rightarrow> the (F (rq_table r))) @ [tok r]"

definition full_after :: "phase \<Rightarrow> (req \<Rightarrow> token) \<Rightarrow> req \<Rightarrow> (nat \<rightharpoonup> token list) \<Rightarrow> (nat \<rightharpoonup> token list)" where
  "full_after ph tok r F = (if rq_chunked r then F else F(rq_table r \<mapsto> longer ph tok F r))"

lemma post_one_eff:
  assumes "en_lin e = None" "en_cm e \<noteq> None" "ph = Decode \<Longrightarrow> \<not> rq_chunked r \<Longrightarrow> en_full e (rq_table r) \<noteq> None"
  shows "post_one ph eos ign tok r e =
    Inr (post_sample ph (en_anchor_id e) eos ign tok r, e\<lparr>en_full := full_after ph tok r (en_full e)\<rparr>)"
proof (cases "rq_chunked r")
  case True
  then show ?thesis by (simp add: post_one_def post_sample_def full_after_def)
next
  case False
  let ?r1 = "post_append ph (en_anchor_id e) (tok r) r"
  have r1: "rq_table ?r1 = rq_table r" "ph = Prefill \<Longrightarrow> rq_input ?r1 = rq_input r @ [tok r]"
    by (simp_all add: post_append_def Let_def)
  have "track_full ph (tok r) ?r1 e = Inr (e\<lparr>en_full := full_after ph tok r (en_full e)\<rparr>)"
    using assms(2,3) False r1 by (cases ph) (auto simp: track_full_def full_after_def longer_def)
  then show ?thesis using False assms(1) by (simp add: post_one_def post_sample_def track_anchor_def)
qed

lemma post_batch_eff:
  assumes "en_lin e = None" "en_cm e \<noteq> None" "distinct (map rq_table (filter (\<lambda>r. \<not> rq_chunked r) rs))"
    "\<And>r. ph = Decode \<Longrightarrow> r \<in> set rs \<Longrightarrow> \<not> rq_chunked r \<Longrightarrow> en_full e (rq_table r) \<noteq> None"
  obtains F where "post_batch ph eos ign tok rs e = Inr (map (post_sample ph (en_anchor_id e) eos ign tok) rs, e\<lparr>en_full := F\<rparr>)"
    "\<forall>r \<in> set rs. \<not> rq_chunked r \<longrightarrow> F (rq_table r) = Some (longer ph tok (en_full e) r)"
    "\<forall>t. t \<notin> rq_table ` set (filter (\<lambda>r. \<not> rq_chunked r) rs) \<longrightarrow> F t = en_full e t"
proof -
  have "\<exists>F. post_batch ph eos ign tok rs e = Inr (map (post_sample ph (en_anchor_id e) eos ign tok) rs, e\<lparr>en_full := F\<rparr>) \<and>
    (\<forall>r \<in> set rs. \<not> rq_chunked r \<longrightarrow> F (rq_table r) = Some (longer ph tok (en_full e) r)) \<and>
    (\<forall>t. t \<notin> rq_table ` set (filter (\<lambda>r. \<not> rq_chunked r) rs) \<longrightarrow> F t = en_full e t)"
    using assms
  proof (induction rs arbitrary: e)
    case Nil
    then show ?case by (intro exI [of _ "en_full e"]) simp
  next
    case (Cons r rs)
    let ?e = "e\<lparr>en_full := full_after ph tok r (en_full e)\<rparr>"
    have one: "post_one ph eos ign tok r e = Inr (post_sample ph (en_anchor_id e) eos ign tok r, ?e)"
      by (rule post_one_eff) (use Cons.prems in auto)
    have away: "full_after ph tok r (en_full e) t = en_full e t" if "rq_chunked r \<or> t \<noteq> rq_table r" for t
      using that by (auto simp: full_after_def)
    have apart: "rq_chunked r \<or> rq_table q \<noteq> rq_table r" if "q \<in> set rs" "\<not> rq_chunked q" for q
      using Cons.prems(3) that by (fastforce simp: image_iff)
    have "ph = Decode \<Longrightarrow> q \<in> set rs \<Longrightarrow> \<not> rq_chunked q \<Longrightarrow> en_full ?e (rq_table q) \<noteq> None" for q
      using Cons.prems(4) [of q] away apart [of q] by simp
    then obtain F where F: "post_batch ph eos ign tok rs ?e = Inr (map (post_sample ph (en_anchor_id ?e) eos ign tok) rs, ?e\<lparr>en_full := F\<rparr>)"
      "\<forall>q \<in> set rs. \<not> rq_chunked q \<longrightarrow> F (rq_table q) = Some (longer ph tok (en_full ?e) q)"
      "\<forall>t. t \<notin> rq_table ` set (filter (\<lambda>r. \<not> rq_chunked r) rs) \<longrightarrow> F t = en_full ?e t"
      using Cons.IH [of ?e] Cons.prems by (auto split: if_splits)
    have "F (rq_table q) = Some (longer ph tok (en_full e) q)" if q: "q \<in> set rs" "\<not> rq_chunked q" for q
    proof -
      have "longer ph tok (en_full ?e) q = longer ph tok (en_full e) q"
        using away [OF apart [OF q]] by (cases ph) (simp_all add: longer_def)
      then show ?thesis using F(2) q by simp
    qed
    moreover have "F (rq_table r) = Some (longer ph tok (en_full e) r)" if "\<not> rq_chunked r"
    proof -
      have "rq_table r \<notin> rq_table ` set (filter (\<lambda>r. \<not> rq_chunked r) rs)" using Cons.prems(3) that by simp
      then show ?thesis using F(3) that by (simp add: full_after_def)
    qed
    moreover have "F t = en_full e t" if "t \<notin> rq_table ` set (filter (\<lambda>r. \<not> rq_chunked r) (r # rs))" for t
      using F(3) away that by (auto split: if_splits)
    ultimately show ?case using F(1) one by (intro exI [of _ F]) auto
  qed
  then show ?thesis using that by blast
qed

section \<open>Committing a list of finished requests\<close>

lemma commit_all_core:
  assumes "kv_core (map tk qs @ W) r X e"
    and "\<forall>q \<in> set qs. rq_handle q \<noteq> None \<and>
       (\<exists>f. en_full e (rq_table q) = Some f \<and> length f \<le> en_max_seq e \<and> tk q = (rq_table q, snd (the (rq_handle q)), f))"
  obtains r' e' where "commit_all clk qs e = Inr e'" "kv_core W r' X e'" "en_sched e' = en_sched e"
    "\<forall>t. t \<notin> rq_table ` set qs \<longrightarrow> en_full e' t = en_full e t \<and> en_adm e' t = en_adm e t" "en_max_seq e' = en_max_seq e"
    "en_next_pid e' = en_next_pid e" "en_lin e = None \<longrightarrow> en_lin e' = None" "length (en_pt e') = length (en_pt e)"
proof -
  have "\<exists>r' e'. commit_all clk qs e = Inr e' \<and> kv_core W r' X e' \<and> en_sched e' = en_sched e \<and>
    (\<forall>t. t \<notin> rq_table ` set qs \<longrightarrow> en_full e' t = en_full e t \<and> en_adm e' t = en_adm e t) \<and> en_max_seq e' = en_max_seq e \<and>
    en_next_pid e' = en_next_pid e \<and> (en_lin e = None \<longrightarrow> en_lin e' = None) \<and> length (en_pt e') = length (en_pt e)"
    using assms
  proof (induction qs arbitrary: r e)
    case (Cons q qs)
    obtain f where q: "rq_handle q \<noteq> None" "en_full e (rq_table q) = Some f" "length f \<le> en_max_seq e"
      "tk q = (rq_table q, snd (the (rq_handle q)), f)"
      using Cons.prems(2) by auto
    obtain m h where h: "rq_handle q = Some (m, h)" using q(1) by (cases "rq_handle q") auto
    have K: "kv_core ((rq_table q, h, f) # (map tk qs @ W)) r X e" using Cons.prems(1) q(4) h by simp
    obtain r1 e1 where C: "commit_one clk q e = Inr e1" "kv_core (map tk qs @ W) r1 X e1" "en_sched e1 = en_sched e"
      "en_full e1 = (en_full e)(rq_table q := None)" "en_adm e1 = (en_adm e)(rq_table q := None)" "en_max_seq e1 = en_max_seq e" "en_next_pid e1 = en_next_pid e"
      "en_lin e = None \<Longrightarrow> en_lin e1 = None" "length (en_pt e1) = length (en_pt e)"
      by (rule commit_one_core [OF K refl h q(2,3), where clk = clk]) (rule that, (assumption | simp)+)
    have J: "rq_handle p \<noteq> None \<and> (\<exists>f. en_full e1 (rq_table p) = Some f \<and> length f \<le> en_max_seq e1 \<and>
        tk p = (rq_table p, snd (the (rq_handle p)), f))" if p: "p \<in> set qs" for p
    proof -
      have "fst (tk p) \<noteq> rq_table q" using kv_coreD(6) [OF K] p by (force simp: image_iff)
      then show ?thesis using Cons.prems(2) p C(4,6) by auto
    qed
    have J': "\<forall>q \<in> set qs. rq_handle q \<noteq> None \<and> (\<exists>f. en_full e1 (rq_table q) = Some f \<and> length f \<le> en_max_seq e1 \<and>
        tk q = (rq_table q, snd (the (rq_handle q)), f))" using J by blast
    obtain r' e' where R: "commit_all clk qs e1 = Inr e'" "kv_core W r' X e'" "en_sched e' = en_sched e1"
      "\<forall>t. t \<notin> rq_table ` set qs \<longrightarrow> en_full e' t = en_full e1 t \<and> en_adm e' t = en_adm e1 t" "en_max_seq e' = en_max_seq e1"
      "en_next_pid e' = en_next_pid e1" "en_lin e1 = None \<longrightarrow> en_lin e' = None" "length (en_pt e') = length (en_pt e1)"
      using Cons.IH [OF C(2) J'] by (elim exE conjE) (rule that)
    show ?case using R C by (intro exI [of _ r'] exI [of _ e']) auto
  qed auto
  then show ?thesis by (elim exE conjE) (rule that)
qed

section \<open>The end of a step\<close>

lemma sched_rows_distinct:
  assumes "sched_inv s"
  shows "distinct (sd_free s @ map pd_table (pm_pending (sd_pm s)) @ map rq_table (dm_running (sd_dm s)))"
    "set (sd_free s @ map pd_table (pm_pending (sd_pm s)) @ map rq_table (dm_running (sd_dm s))) = {..<sd_max_running s}"
proof -
  let ?l = "sd_free s @ map pd_table (pm_pending (sd_pm s)) @ map rq_table (dm_running (sd_dm s))"
  have m: "mset ?l = mset [0..<sd_max_running s]" using assms by (simp add: sched_inv_def add.assoc)
  show "distinct ?l" using mset_eq_distinct [OF m] by simp
  show "set ?l = {..<sd_max_running s}" using mset_eq_setD [OF m] by auto
qed

lemma fst_ticket [simp]: "fst (pending_ticket p) = pd_table p" "fst (running_ticket e r) = rq_table r"
  by (simp_all add: pending_ticket_def running_ticket_def)

lemma complete_step_fields [simp]:
  "en_page (complete_step reqs e) = en_page e" "en_cm (complete_step reqs e) = en_cm e" "en_pt (complete_step reqs e) = en_pt e"
  "en_max_seq (complete_step reqs e) = en_max_seq e" "en_adm (complete_step reqs e) = en_adm e" "en_lin (complete_step reqs e) = en_lin e"
  "en_full (complete_step reqs e) = en_full e" "en_next_pid (complete_step reqs e) = en_next_pid e"
  "en_sched (complete_step reqs e) = sched_complete reqs (en_sched e)"
  by (simp_all add: complete_step_def Let_def)

lemma finish_step:
  assumes K: "kv_core (map (running_ticket e) fin @ W) r X e"
    and fin: "\<And>q. q \<in> set fin \<Longrightarrow> full_ok e q \<and> rq_device_len q \<le> int (en_max_seq e)"
    and S: "sched_inv (sched_complete reqs (en_sched e))" "sd_max_running (sched_complete reqs (en_sched e)) \<le> length (en_pt e)"
    and W: "mset W = mset (map pending_ticket (pm_pending (sd_pm (sched_complete reqs (en_sched e))))) +
       mset (map (running_ticket e) (dm_running (sd_dm (sched_complete reqs (en_sched e)))))"
    and run: "\<And>q. q \<in> set (dm_running (sd_dm (sched_complete reqs (en_sched e)))) \<Longrightarrow> can_decode q \<and> full_ok e q"
    and pend: "\<And>p. p \<in> set (pm_pending (sd_pm (sched_complete reqs (en_sched e)))) \<Longrightarrow> waiting_ok e p"
    and lin: "en_lin e = None"
  obtains e' where "commit_all clk fin e = Inr e'" "eng_inv (complete_step reqs e')"
proof -
  let ?s = "sched_complete reqs (en_sched e)"
  let ?P = "pm_pending (sd_pm ?s)" and ?R = "dm_running (sd_dm ?s)"
  have J: "rq_handle q \<noteq> None \<and> (\<exists>f. en_full e (rq_table q) = Some f \<and> length f \<le> en_max_seq e \<and>
      running_ticket e q = (rq_table q, snd (the (rq_handle q)), f))" if "q \<in> set fin" for q
    using fin [OF that] by (auto simp: full_ok_def running_ticket_def)
  obtain r' e' where C: "commit_all clk fin e = Inr e'" "kv_core W r' X e'" "en_sched e' = en_sched e"
    "\<forall>t. t \<notin> rq_table ` set fin \<longrightarrow> en_full e' t = en_full e t \<and> en_adm e' t = en_adm e t" "en_max_seq e' = en_max_seq e"
    "en_next_pid e' = en_next_pid e" "en_lin e = None \<longrightarrow> en_lin e' = None" "length (en_pt e') = length (en_pt e)"
    by (rule commit_all_core [OF K, where clk = clk]) (use J in blast)+
  have sW: "set W = set (map pending_ticket ?P @ map (running_ticket e) ?R)"
    by (rule mset_eq_setD) (use W in simp)
  have d: "fst w \<notin> rq_table ` set fin" if w: "w \<in> set W" for w
    using kv_coreD(6) [OF K] w by (force simp: image_iff)
  have same: "running_ticket e' q = running_ticket e q" "full_ok e' q = full_ok e q" if "q \<in> set ?R" for q
    using C(4,5) d [of "running_ticket e q"] that by (auto simp: running_ticket_def full_ok_def sW)
  have wait: "waiting_ok (complete_step reqs e') p" if "p \<in> set ?P" for p
    using C(4,5,6) d [of "pending_ticket p"] pend that by (auto simp: waiting_ok_def sW)
  have rows: "fst ` set W = set (map pd_table ?P) \<union> set (map rq_table ?R)"
    by (simp add: sW image_Un image_image)
  have "set (newly_free (en_sched e') ?s) \<inter> fst ` set W = {}"
    using sched_rows_distinct(1) [OF S(1)] unfolding rows by (auto simp: newly_free_def)
  then have kv: "en_kv (complete_step reqs e') = en_kv e'"
    using release_rows_idle [OF C(2)] C(3) by (simp add: complete_step_def Let_def)
  have "kv_core W r' X (complete_step reqs e')" by (rule kv_core_fields [OF C(2)]) (simp_all add: kv)
  moreover have "mset W = mset (tickets (complete_step reqs e'))"
    using W same(1) by (simp add: tickets_def C(3) running_ticket_def cong: map_cong)
  ultimately have "kv_core (tickets (complete_step reqs e')) r' X (complete_step reqs e')" by (rule kv_core_perm)
  moreover have "full_ok (complete_step reqs e') q = full_ok e' q" for q by (simp add: full_ok_def)
  ultimately have "eng_inv (complete_step reqs e')"
    using S lin run wait same(2) C unfolding eng_inv_def by auto
  then show ?thesis using that C(1) by blast
qed

end
