(* ===== verification/Engine_Step.thy ===== *)
theory Engine_Step
  imports Engine_Run
begin

text \<open>
  One step of the engine: from a consistent state \<open>engine_step\<close> never raises and leaves a
  consistent state, whatever the sampler returns.
\<close>


section \<open>A prefill step\<close>

definition prompt_ticket :: "req \<Rightarrow> ticket" where
  "prompt_ticket r = (rq_table r, snd (the (rq_handle r)), rq_input r)"

lemma slice_ticket: "slice_of p r \<Longrightarrow> rq_table r = pd_table p \<Longrightarrow> \<not> rq_chunked r \<Longrightarrow> pending_ticket p = prompt_ticket r"
  by (auto simp: slice_of_def pending_ticket_def prompt_ticket_def input_len_def)

lemma prefill_members:
  assumes pb: "prefill_batch budget dm oid m = (Some b, m', oid')"
    and ok: "\<forall>p \<in> set (pm_pending m). pending_ok p" and d: "distinct (map pd_id (pm_pending m))"
  shows "\<forall>p' \<in> set (pm_pending m'). \<exists>p \<in> set (pm_pending m). p' = p \<or> (\<exists>r. p' = requeued p r \<and> slice_of p r)"
    "\<forall>r \<in> set (bt_reqs b). \<exists>p \<in> set (pm_pending m). slice_of p r"
proof -
  obtain sub rs a' where s: "bt_reqs b = rs"
    "pass_ok (pm_pending m) (init_adder budget dm m oid) sub rs (bt_new_tokens b) a'"
    "pm_pending m' = map2 requeued (map fst (filter (\<lambda>(p, r). rq_chunked r) (zip sub rs)))
                                   (map snd (filter (\<lambda>(p, r). rq_chunked r) (zip sub rs)))
                     @ filter (\<lambda>p. p \<notin> set sub) (pm_pending m)"
    using prefill_batch_Some [OF pb ok d] by metis
  have P: "set sub \<subseteq> set (pm_pending m)" "list_all2 (\<lambda>p r. slice_of p r \<and> rq_table r = pd_table p) sub rs"
    using s(2) subseq_subset by (auto simp: pass_ok_def)
  have "\<exists>p \<in> set (pm_pending m). p' = p \<or> (\<exists>r. p' = requeued p r \<and> slice_of p r)" if "p' \<in> set (pm_pending m')" for p'
  proof -
    have "p' \<in> set (map2 requeued (map fst (filter (\<lambda>(p, r). rq_chunked r) (zip sub rs)))
          (map snd (filter (\<lambda>(p, r). rq_chunked r) (zip sub rs)))) \<or> p' \<in> set (pm_pending m)"
      using that s(3) by auto
    then show ?thesis
    proof
      assume "p' \<in> set (map2 requeued (map fst (filter (\<lambda>(p, r). rq_chunked r) (zip sub rs)))
          (map snd (filter (\<lambda>(p, r). rq_chunked r) (zip sub rs))))"
      then obtain p r where "(p, r) \<in> set (zip sub rs)" "p' = requeued p r" by (auto simp: zip_map_fst_snd)
      moreover from this have "slice_of p r" using P(2) by (auto simp: list_all2_iff)
      ultimately show ?thesis using P(1) by (auto dest: set_zip_leftD)
    qed blast
  qed
  then show "\<forall>p' \<in> set (pm_pending m'). \<exists>p \<in> set (pm_pending m). p' = p \<or> (\<exists>r. p' = requeued p r \<and> slice_of p r)" by blast
  have "\<exists>p \<in> set (pm_pending m). slice_of p r" if rin: "r \<in> set rs" for r
  proof -
    obtain i where i: "i < length rs" "rs ! i = r" using rin by (auto simp: in_set_conv_nth)
    then have "slice_of (sub ! i) r" "sub ! i \<in> set sub" using list_all2_nthD2 [OF P(2) i(1)] list_all2_lengthD [OF P(2)] by auto
    then show ?thesis using P(1) by blast
  qed
  then show "\<forall>r \<in> set (bt_reqs b). \<exists>p \<in> set (pm_pending m). slice_of p r" using s(1) by blast
qed

lemma waiting_requeued: "waiting_ok e p \<Longrightarrow> slice_of p r \<Longrightarrow> waiting_ok e (requeued p r)"
  by (auto simp: waiting_ok_def slice_of_def resume_at_def requeued_def extend_len_def input_len_def split: option.splits)

lemma waiting_fields:
  "waiting_ok e p \<Longrightarrow> en_max_seq e' = en_max_seq e \<Longrightarrow> en_next_pid e' = en_next_pid e \<Longrightarrow> en_adm e' = en_adm e \<Longrightarrow> waiting_ok e' p"
  by (simp add: waiting_ok_def)

lemma finished_split:
  assumes "\<And>r. \<not> rq_chunked r \<Longrightarrow> rq_aborted (g r) \<longleftrightarrow> \<not> can_decode (g r)" "\<And>r. rq_chunked (g r) = rq_chunked r"
  shows "filter (\<lambda>r. \<not> rq_chunked r \<and> rq_aborted r) (map g rs) =
     map g (filter (\<lambda>r. \<not> can_decode (g r)) (filter (\<lambda>r. \<not> rq_chunked r) rs))"
proof -
  have "filter (\<lambda>r. \<not> rq_chunked (g r) \<and> rq_aborted (g r)) rs = filter (\<lambda>r. \<not> can_decode (g r)) (filter (\<lambda>r. \<not> rq_chunked r) rs)"
    using assms by (auto intro!: filter_cong)
  then show ?thesis by (simp add: filter_map comp_def del: filter_filter)
qed

lemma map_split: "mset (map f xs) = mset (map f (filter P xs)) + mset (map f (filter (\<lambda>x. \<not> P x) xs))"
  by (induction xs) auto

lemma eng_prefill:
  assumes inv: "eng_inv e" and pb: "prefill_batch (sd_max_extend (en_sched e)) (sd_dm (en_sched e)) (sd_next_oid (en_sched e))
      (sd_pm (en_sched e)) = (Some b, pm, oid)"
  defines "s1 \<equiv> (en_sched e)\<lparr>sd_pm := pm, sd_next_oid := oid\<rparr>"
  obtains e2 e3 reqs where "post_batch Prefill eos ign tok (bt_reqs b) (e\<lparr>en_sched := s1\<rparr>) = Inr (reqs, e2)"
    "commit_all clk (filter (\<lambda>r. \<not> rq_chunked r \<and> rq_aborted r) reqs) e2 = Inr e3" "eng_inv (complete_step reqs e3)"
proof -
  let ?s = "en_sched e" and ?g = "post_sample Prefill (en_anchor_id e) eos ign tok"
  let ?N = "filter (\<lambda>r. \<not> rq_chunked r) (bt_reqs b)" and ?run = "dm_running (sd_dm (en_sched e))"
  have S: "sched_inv ?s" "\<forall>p \<in> set (pm_pending (sd_pm ?s)). pending_ok p" "distinct (map pd_id (pm_pending (sd_pm ?s)))"
    and mx: "sd_max_running ?s \<le> length (en_pt e)" and lin: "en_lin e = None"
    and pend: "\<forall>p \<in> set (pm_pending (sd_pm ?s)). waiting_ok e p"
    and run: "\<forall>r \<in> set ?run. can_decode r \<and> full_ok e r"
    using inv by (auto simp: eng_inv_def sched_inv_def)
  obtain r X where K: "kv_core (tickets e) r X e" using inv by (auto simp: eng_inv_def)
  note M = prefill_members [OF pb S(2,3)]
  have part: "mset (map pending_ticket (pm_pending (sd_pm ?s))) =
      mset (map pending_ticket (pm_pending pm)) + mset (map prompt_ticket ?N)"
    by (rule prefill_partition [OF pb S(2,3)]) (simp_all add: pending_ticket_def slice_ticket [unfolded pending_ticket_def])
  have "kv_core (map prompt_ticket ?N @ map pending_ticket (pm_pending pm) @ map (running_ticket e) ?run) r X e"
    by (rule kv_core_perm [OF K]) (use part in \<open>simp add: tickets_def\<close>)
  then have K1: "kv_core (map prompt_ticket ?N @ map pending_ticket (pm_pending pm) @ map (running_ticket e) ?run) r X (e\<lparr>en_sched := s1\<rparr>)"
    by (rule kv_core_fields) simp_all
  have dN: "distinct (map rq_table ?N)" "set (map rq_table ?N) \<inter> set (map rq_table ?run) = {}"
    using kv_coreD(6) [OF K1] by (auto simp: prompt_ticket_def comp_def)
  obtain F where F: "post_batch Prefill eos ign tok (bt_reqs b) (e\<lparr>en_sched := s1\<rparr>) =
        Inr (map ?g (bt_reqs b), e\<lparr>en_sched := s1, en_full := F\<rparr>)"
      "\<forall>q \<in> set (bt_reqs b). \<not> rq_chunked q \<longrightarrow> F (rq_table q) = Some (rq_input q @ [tok q])"
      "\<forall>t. t \<notin> rq_table ` set ?N \<longrightarrow> F t = en_full e t"
    using post_batch_eff [of "e\<lparr>en_sched := s1\<rparr>" "bt_reqs b" Prefill eos ign tok] lin kv_coreD(2) [OF K] dN(1)
    by (auto simp: longer_def)
  define e2 where "e2 = e\<lparr>en_sched := s1, en_full := F\<rparr>"
  have e2: "en_sched e2 = s1" "en_full e2 = F" "en_max_seq e2 = en_max_seq e" "en_pt e2 = en_pt e" "en_lin e2 = None"
    "en_next_pid e2 = en_next_pid e" "en_adm e2 = en_adm e" by (simp_all add: e2_def lin)
  have old: "running_ticket e2 q = running_ticket e q" "full_ok e2 q = full_ok e q" if "q \<in> set ?run" for q
  proof -
    have "F (rq_table q) = en_full e (rq_table q)" using F(3) dN(2) that by auto
    then show "running_ticket e2 q = running_ticket e q" "full_ok e2 q = full_ok e q"
      by (simp_all add: running_ticket_def full_ok_def e2)
  qed
  have new: "full_ok e2 (?g q) \<and> rq_device_len (?g q) \<le> int (en_max_seq e) \<and> grown (prompt_ticket q) (running_ticket e2 (?g q))"
    if q: "q \<in> set ?N" for q
  proof -
    obtain p where p: "p \<in> set (pm_pending (sd_pm ?s))" "slice_of p q" using M(2) q by auto
    have f: "F (rq_table q) = Some (rq_input q @ [tok q])" using F(2) q by simp
    have "waiting_ok e p" using pend p(1) by blast
    then show ?thesis
      using p(2) q f by (auto simp: full_ok_def e2 waiting_ok_def slice_of_def input_len_def grown_def prompt_ticket_def running_ticket_def)
  qed
  have K2: "kv_core (map (running_ticket e2 \<circ> ?g) ?N @ map pending_ticket (pm_pending pm) @ map (running_ticket e2) ?run) r X e2"
  proof (rule kv_core_grown [OF kv_core_fields [OF K1]])
    have "list_all2 grown (map prompt_ticket ?N) (map (running_ticket e2 \<circ> ?g) ?N)"
      using new unfolding list_all2_map1 list_all2_map2 comp_def by (intro list.rel_refl_strong) blast
    moreover have "list_all2 grown (map pending_ticket (pm_pending pm)) (map pending_ticket (pm_pending pm))"
      by (simp add: grown_def list.rel_refl_strong)
    moreover have "list_all2 grown (map (running_ticket e) ?run) (map (running_ticket e2) ?run)"
      using old(1) by (simp add: grown_def list_all2_map1 list_all2_map2 list.rel_refl_strong)
    ultimately show "list_all2 grown (map prompt_ticket ?N @ map pending_ticket (pm_pending pm) @ map (running_ticket e) ?run)
       (map (running_ticket e2 \<circ> ?g) ?N @ map pending_ticket (pm_pending pm) @ map (running_ticket e2) ?run)"
      by (intro list_all2_appendI)
  qed (simp_all add: e2_def)
  let ?fin = "filter (\<lambda>r. \<not> rq_chunked r \<and> rq_aborted r) (map ?g (bt_reqs b))"
  let ?cont = "filter (\<lambda>r. can_decode (?g r)) ?N"
  have fin: "?fin = map ?g (filter (\<lambda>r. \<not> can_decode (?g r)) ?N)" by (rule finished_split) (simp_all add: post_sample_aborted)
  let ?W = "map (running_ticket e2 \<circ> ?g) ?cont @ map pending_ticket (pm_pending pm) @ map (running_ticket e2) ?run"
  have K3: "kv_core (map (running_ticket e2) ?fin @ ?W) r X e2"
    by (rule kv_core_perm [OF K2])
      (use map_split [of "running_ticket e2 \<circ> ?g" ?N "\<lambda>r. can_decode (?g r)"] in \<open>simp add: fin comp_def del: filter_filter\<close>)
  note C = prefill_complete_running [OF S(1) pb post_sample_exec_ok, of Prefill "en_anchor_id e" eos ign tok, folded s1_def]
  have "filter can_decode ?run = ?run" using run by (simp add: filter_id_conv)
  then have R: "dm_running (sd_dm (sched_complete (map ?g (bt_reqs b)) s1)) = ?run @ map ?g ?cont" using C(1) by (simp del: filter_filter)
  have Si: "sched_inv (sched_complete (map ?g (bt_reqs b)) s1)"
    using step_prefill_inv [OF S(1) pb post_sample_exec_ok] by (simp add: s1_def)
  have Sm: "sd_max_running (sched_complete (map ?g (bt_reqs b)) s1) \<le> length (en_pt e)"
    using mx by (simp add: sched_complete_def Let_def s1_def)
  obtain e3 where "commit_all clk ?fin e2 = Inr e3" "eng_inv (complete_step (map ?g (bt_reqs b)) e3)"
  proof (rule finish_step [OF K3, where reqs = "map ?g (bt_reqs b)" and clk = clk])
    show "full_ok e2 q \<and> rq_device_len q \<le> int (en_max_seq e2)" if "q \<in> set ?fin" for q
      using that new e2(3) unfolding fin by auto
    show "sched_inv (sched_complete (map ?g (bt_reqs b)) (en_sched e2))"
      "sd_max_running (sched_complete (map ?g (bt_reqs b)) (en_sched e2)) \<le> length (en_pt e2)" using Si Sm by (simp_all add: e2)
    show "mset ?W = mset (map pending_ticket (pm_pending (sd_pm (sched_complete (map ?g (bt_reqs b)) (en_sched e2))))) +
       mset (map (running_ticket e2) (dm_running (sd_dm (sched_complete (map ?g (bt_reqs b)) (en_sched e2)))))"
      unfolding e2(1) R C(2) by simp
    show "can_decode q \<and> full_ok e2 q" if "q \<in> set (dm_running (sd_dm (sched_complete (map ?g (bt_reqs b)) (en_sched e2))))" for q
      using that run old(2) new unfolding e2(1) R by auto
    show "waiting_ok e2 p"
      if "p \<in> set (pm_pending (sd_pm (sched_complete (map ?g (bt_reqs b)) (en_sched e2))))" for p
      using that pend M(1) waiting_requeued waiting_fields [of e _ e2] e2 unfolding e2(1) C(2) by fastforce
  qed (simp_all add: e2)
  then show ?thesis using that F(1) unfolding e2_def by blast
qed

section \<open>A decode step\<close>

lemma eng_decode:
  assumes inv: "eng_inv e" and b: "decode_batch (sd_dm (en_sched e)) = Some b"
  obtains e2 e3 reqs where "post_batch Decode eos ign tok (bt_reqs b) e = Inr (reqs, e2)"
    "commit_all clk (filter (\<lambda>r. \<not> rq_chunked r \<and> rq_aborted r) reqs) e2 = Inr e3" "eng_inv (complete_step reqs e3)"
proof -
  let ?s = "en_sched e" and ?g = "post_sample Decode (en_anchor_id e) eos ign tok"
  let ?run = "dm_running (sd_dm (en_sched e))" and ?P = "pm_pending (sd_pm (en_sched e))"
  have S: "sched_inv ?s" and ch: "\<forall>r \<in> set ?run. \<not> rq_chunked r"
    and mx: "sd_max_running ?s \<le> length (en_pt e)" and lin: "en_lin e = None"
    and pend: "\<forall>p \<in> set ?P. waiting_ok e p"
    and run: "\<forall>r \<in> set ?run. can_decode r \<and> full_ok e r"
    using inv by (auto simp: eng_inv_def sched_inv_def)
  obtain r X where K: "kv_core (tickets e) r X e" using inv by (auto simp: eng_inv_def)
  note D = decode_sync(1) [OF S b post_sample_exec_ok]
  have nc: "filter (\<lambda>r. \<not> rq_chunked r) (bt_reqs b) = bt_reqs b" using ch by (auto simp: D filter_id_conv)
  have drun: "distinct (map rq_table ?run)" using kv_coreD(6) [OF K] by (simp add: tickets_def comp_def)
  then have db: "distinct (map rq_table (bt_reqs b))"
    using mset_eq_distinct [of "map rq_table (bt_reqs b)" "map rq_table ?run"] by (simp add: D)
  have sb: "set (bt_reqs b) = set ?run" by (simp add: D)
  obtain F where F: "post_batch Decode eos ign tok (bt_reqs b) e = Inr (map ?g (bt_reqs b), e\<lparr>en_full := F\<rparr>)"
      "\<forall>q \<in> set ?run. F (rq_table q) = Some (the (en_full e (rq_table q)) @ [tok q])"
  proof -
    have f: "\<And>q. q \<in> set (bt_reqs b) \<Longrightarrow> en_full e (rq_table q) \<noteq> None" using run unfolding sb full_ok_def by auto
    show ?thesis
      by (rule post_batch_eff [of e "bt_reqs b" Decode eos ign tok])
        (use that lin kv_coreD(2) [OF K] db nc f ch sb in \<open>auto simp: longer_def\<close>)
  qed
  define e2 where "e2 = e\<lparr>en_full := F\<rparr>"
  have e2: "en_sched e2 = ?s" "en_full e2 = F" "en_max_seq e2 = en_max_seq e" "en_pt e2 = en_pt e" "en_lin e2 = None"
    "en_next_pid e2 = en_next_pid e" "en_adm e2 = en_adm e" by (simp_all add: e2_def lin)
  have new: "full_ok e2 (?g q) \<and> rq_device_len (?g q) \<le> int (en_max_seq e) \<and> grown (running_ticket e q) (running_ticket e2 (?g q))"
    if q: "q \<in> set ?run" for q
  proof -
    obtain f where f: "en_full e (rq_table q) = Some f" "int (length f) = rq_device_len q" "rq_handle q \<noteq> None"
      "rq_max_device_len q \<le> int (en_max_seq e)" using run q by (auto simp: full_ok_def)
    have "F (rq_table q) = Some (f @ [tok q])" using F(2) q f(1) by simp
    moreover have "rq_device_len q < rq_max_device_len q" using run q ch by (auto simp: can_decode_def remain_len_def)
    ultimately show ?thesis using f ch q by (auto simp: full_ok_def e2 grown_def running_ticket_def)
  qed
  have K2: "kv_core (map pending_ticket ?P @ map (running_ticket e2 \<circ> ?g) ?run) r X e2"
  proof (rule kv_core_grown [OF kv_core_fields [OF K]])
    have "list_all2 grown (map (running_ticket e) ?run) (map (running_ticket e2 \<circ> ?g) ?run)"
      using new unfolding list_all2_map1 list_all2_map2 comp_def by (intro list.rel_refl_strong) blast
    then show "list_all2 grown (tickets e) (map pending_ticket ?P @ map (running_ticket e2 \<circ> ?g) ?run)"
      unfolding tickets_def by (intro list_all2_appendI) (simp_all add: grown_def list.rel_refl_strong)
  qed (simp_all add: e2_def)
  let ?fin = "filter (\<lambda>r. \<not> rq_chunked r \<and> rq_aborted r) (map ?g (bt_reqs b))"
  let ?cont = "filter (\<lambda>r. can_decode (?g r)) ?run"
  have fin: "?fin = map ?g (filter (\<lambda>r. \<not> can_decode (?g r)) (bt_reqs b))"
    using finished_split [of ?g "bt_reqs b"] nc by (simp add: post_sample_aborted del: filter_filter)
  let ?W = "map pending_ticket ?P @ map (running_ticket e2 \<circ> ?g) ?cont"
  have "mset (map (running_ticket e2) ?fin) = mset (map (running_ticket e2 \<circ> ?g) (filter (\<lambda>r. \<not> can_decode (?g r)) ?run))"
    unfolding fin by (simp add: D)
  then have K3: "kv_core (map (running_ticket e2) ?fin @ ?W) r X e2"
    by (intro kv_core_perm [OF K2])
      (use map_split [of "running_ticket e2 \<circ> ?g" ?run "\<lambda>r. can_decode (?g r)"] in simp)
  note C = decode_complete_running [OF S b post_sample_exec_ok, of Decode "en_anchor_id e" eos ign tok]
  have R: "dm_running (sd_dm (sched_complete (map ?g (bt_reqs b)) ?s)) = map ?g ?cont" using C(1) by (simp add: filter_map comp_def)
  have Si: "sched_inv (sched_complete (map ?g (bt_reqs b)) ?s)" using step_decode_inv [OF S b post_sample_exec_ok] .
  have Sm: "sd_max_running (sched_complete (map ?g (bt_reqs b)) ?s) \<le> length (en_pt e)"
    using mx by (simp add: sched_complete_def Let_def)
  obtain e3 where "commit_all clk ?fin e2 = Inr e3" "eng_inv (complete_step (map ?g (bt_reqs b)) e3)"
  proof (rule finish_step [OF K3, where reqs = "map ?g (bt_reqs b)" and clk = clk])
    show "full_ok e2 q \<and> rq_device_len q \<le> int (en_max_seq e2)" if "q \<in> set ?fin" for q
      using that new e2(3) unfolding fin by (auto simp: D)
    show "sched_inv (sched_complete (map ?g (bt_reqs b)) (en_sched e2))"
      "sd_max_running (sched_complete (map ?g (bt_reqs b)) (en_sched e2)) \<le> length (en_pt e2)" using Si Sm by (simp_all add: e2)
    show "mset ?W = mset (map pending_ticket (pm_pending (sd_pm (sched_complete (map ?g (bt_reqs b)) (en_sched e2))))) +
       mset (map (running_ticket e2) (dm_running (sd_dm (sched_complete (map ?g (bt_reqs b)) (en_sched e2)))))"
      unfolding e2(1) R C(2) by simp
    show "can_decode q \<and> full_ok e2 q" if "q \<in> set (dm_running (sd_dm (sched_complete (map ?g (bt_reqs b)) (en_sched e2))))" for q
      using that new unfolding e2(1) R by auto
    show "waiting_ok e2 p"
      if "p \<in> set (pm_pending (sd_pm (sched_complete (map ?g (bt_reqs b)) (en_sched e2))))" for p
      using that pend waiting_fields [of e _ e2] e2 unfolding e2(1) C(2) by auto
  qed (simp_all add: e2)
  then show ?thesis using that F(1) unfolding e2_def by blast
qed

section \<open>A step\<close>

lemma eng_inv_oid:
  assumes "eng_inv e" "sd_next_oid (en_sched e) \<le> oid"
  shows "eng_inv (e\<lparr>en_sched := (en_sched e)\<lparr>sd_next_oid := oid\<rparr>\<rparr>)"
proof -
  let ?e = "e\<lparr>en_sched := (en_sched e)\<lparr>sd_next_oid := oid\<rparr>\<rparr>"
  have "sched_inv (en_sched ?e)" using assms by (auto simp: eng_inv_def sched_inv_def)
  moreover have "tickets ?e = tickets e" by (simp add: tickets_def running_ticket_def)
  moreover have "kv_core (tickets e) r X e \<Longrightarrow> kv_core (tickets e) r X ?e" for r X by (rule kv_core_fields) simp_all
  moreover have "full_ok ?e q = full_ok e q" for q by (simp add: full_ok_def)
  moreover have "waiting_ok ?e p = waiting_ok e p" for p by (simp add: waiting_ok_def)
  ultimately show ?thesis using assms unfolding eng_inv_def by auto
qed

lemma engine_step_core:
  assumes inv: "eng_inv e"
  obtains out e' where "engine_step clk eos ign tok e = Inr (out, e')" "eng_inv e'"
proof -
  let ?s = "en_sched e"
  obtain ob pm oid where pb: "prefill_batch (sd_max_extend ?s) (sd_dm ?s) (sd_next_oid ?s) (sd_pm ?s) = (ob, pm, oid)"
    by (metis prod_cases3)
  have lin: "en_lin e = None" using inv by (simp add: eng_inv_def)
  let ?e1 = "e\<lparr>en_sched := ?s\<lparr>sd_pm := pm, sd_next_oid := oid\<rparr>\<rparr>"
  have restore: "restore_batch rs ?e1 = Inr (rs, ?e1)" for rs using lin by (simp add: restore_batch_def)
  show ?thesis
  proof (cases ob)
    case (Some b)
    have ph: "bt_phase b = Prefill" using pb Some by (auto simp: prefill_batch_def Let_def split: if_splits prod.splits)
    show ?thesis
      by (rule eng_prefill [OF inv pb [unfolded Some], where eos = eos and ign = ign and tok = tok and clk = clk])
        (rule that, use pb Some ph restore in \<open>simp_all add: engine_step_def sched_schedule_def Let_def\<close>)
  next
    case None
    have k: "pm = sd_pm ?s" "sd_next_oid ?s \<le> oid" using prefill_none pb None by auto
    have inv1: "eng_inv ?e1" using eng_inv_oid [OF inv k(2)] k(1) by simp
    show ?thesis
    proof (cases "decode_batch (sd_dm ?s)")
      case None
      then show ?thesis using that [of None ?e1] inv1 pb \<open>ob = None\<close> by (simp add: engine_step_def sched_schedule_def)
    next
      case (Some b)
      then have ph: "bt_phase b = Decode" by (auto simp: decode_batch_def split: if_splits)
      have b1: "decode_batch (sd_dm (en_sched ?e1)) = Some b" using Some by simp
      show ?thesis
        by (rule eng_decode [OF inv1 b1, where eos = eos and ign = ign and tok = tok and clk = clk])
          (rule that, use pb \<open>ob = None\<close> Some ph restore in \<open>simp_all add: engine_step_def sched_schedule_def Let_def\<close>)
    qed
  qed
qed

end
