(* ===== verification/Engine_Requests.thy ===== *)
theory Engine_Requests
  imports Engine_Step
begin

text \<open>
  Admission and cancellation keep the engine consistent: a request that is admitted gets a row
  of its own, one that is refused for want of a row changes nothing, one that is cancelled gives
  its row, its slots and its lock back.
\<close>


section \<open>Admission\<close>

lemma ticket_rows:
  "fst ` set (map pending_ticket P @ map (running_ticket e) R) = pd_table ` set P \<union> rq_table ` set R"
  by (simp add: image_Un image_image)

lemma ticket_row_taken:
  assumes inv: "eng_inv e" and t: "t \<in> set (sd_free (en_sched e))"
  shows "t \<notin> fst ` set (tickets e)" "t < length (en_pt e)"
proof -
  have S: "sched_inv (en_sched e)" "sd_max_running (en_sched e) \<le> length (en_pt e)" using inv by (simp_all add: eng_inv_def)
  show "t \<notin> fst ` set (tickets e)" using sched_rows_distinct(1) [OF S(1)] t by (auto simp: tickets_def)
  have "t \<in> {..<sd_max_running (en_sched e)}" unfolding sched_rows_distinct(2) [OF S(1), symmetric] using t by auto
  then show "t < length (en_pt e)" using S(2) by simp
qed

lemma waiting_later:
  "waiting_ok e p \<Longrightarrow> en_max_seq e' = en_max_seq e \<Longrightarrow> en_next_pid e \<le> en_next_pid e' \<Longrightarrow>
   en_adm e' (pd_table p) = en_adm e (pd_table p) \<Longrightarrow> waiting_ok e' p"
  by (simp add: waiting_ok_def)

lemma eng_add:
  assumes inv: "eng_inv e" and q: "rq_input q \<noteq> []" "1 \<le> mt" "int (length (rq_input q)) + mt \<le> int (en_max_seq e)"
    and ad: "add_request tic q mt e = (Inr (uid, row), e')"
  shows "eng_inv e'"
proof -
  let ?s = "en_sched e"
  obtain r X where K: "kv_core (tickets e) r X e" using inv by (auto simp: eng_inv_def)
  have S: "sched_inv ?s" "sd_max_running ?s \<le> length (en_pt e)" "en_lin e = None" using inv by (simp_all add: eng_inv_def)
  have ne: "sd_free ?s \<noteq> []"
  proof
    assume "sd_free ?s = []"
    then show False using add_request_refused [OF K q(1) _ ad] by auto
  qed
  then obtain t ts where t: "sd_free ?s = t # ts" by (cases "sd_free ?s") auto
  then have tin: "t \<in> set (sd_free ?s)" by simp
  note T = ticket_row_taken [OF inv tin]
  have len: "length (rq_input q) \<le> en_max_seq e" using q(2,3) by linarith
  obtain h p r' X' where A: "row = t" "kv_core ((t, snd h, rq_input q) # tickets e) r' X' e'"
    "sched_add p ?s = Inr (uid, en_sched e')"
    "pd_id p = en_next_pid e" "pd_uid p = rq_uid q" "pd_input p = rq_input q" "pd_chunk p = None"
    "pd_output_len p = mt" "pd_handle p = Some h"
    "0 \<le> pd_cached_len p" "pd_cached_len p < input_len p"
    "en_adm e' = (en_adm e)(t \<mapsto> pd_cached_len p)" "en_full e' = en_full e"
    "en_next_pid e' = en_next_pid e + 1" "en_max_seq e' = en_max_seq e" "length (en_pt e') = length (en_pt e)"
    "en_lin e' = None"
    by (rule add_request_core [OF K q(1) len t T(2,1) ad]) (rule that, (assumption | simp add: S(3))+)
  let ?p = "p\<lparr>pd_table := t, pd_next_table := - 1\<rparr>"
  have s': "pm_pending (sd_pm (en_sched e')) = pm_pending (sd_pm ?s) @ [?p]" "sd_dm (en_sched e') = sd_dm ?s"
    "sd_max_running (en_sched e') = sd_max_running ?s"
  proof -
    have "en_sched e' = ?s\<lparr>sd_free := ts, sd_pm := pm_add ?p (sd_pm ?s), sd_next_uid := max (sd_next_uid ?s) (pd_uid p + 1)\<rparr>"
      using A(3) t by (auto simp: sched_add_def)
    then show "pm_pending (sd_pm (en_sched e')) = pm_pending (sd_pm ?s) @ [?p]" "sd_dm (en_sched e') = sd_dm ?s"
      "sd_max_running (en_sched e') = sd_max_running ?s" by (simp_all add: pm_add_def)
  qed
  have fresh: "pd_id p \<notin> pd_id ` set (pm_pending (sd_pm ?s))"
    using inv A(4) by (auto simp: eng_inv_def waiting_ok_def)
  have ok: "pending_ok p" using A(7,8,10,11) q(2) by (simp add: pending_ok_def)
  have S': "sched_inv (en_sched e')" by (rule sched_add_inv [OF S(1) A(3) ok A(7) fresh])
  have tk: "pending_ticket ?p = (t, snd h, rq_input q)" by (simp add: pending_ticket_def A(6,9))
  have old: "running_ticket e' = running_ticket e" "full_ok e' = full_ok e"
    by (simp_all add: running_ticket_def full_ok_def A(13,15) fun_eq_iff)
  have "mset ((t, snd h, rq_input q) # tickets e) = mset (tickets e')"
    unfolding tickets_def s' by (simp add: tk old(1))
  then have K': "kv_core (tickets e') r' X' e'" by (rule kv_core_perm [OF A(2)])
  have wp: "waiting_ok e' ?p"
    using A(4,6-9,12,14,15) q(2,3) by (simp add: waiting_ok_def input_len_def resume_at_def)
  have wo: "waiting_ok e' x" if x: "x \<in> set (pm_pending (sd_pm ?s))" for x
  proof -
    have "pd_table x \<noteq> t" using T(1) x unfolding tickets_def ticket_rows by auto
    moreover have "waiting_ok e x" using inv x by (auto simp: eng_inv_def)
    ultimately show ?thesis by (auto intro: waiting_later simp: A(12,14,15))
  qed
  show ?thesis
    using S' S K' wp wo inv unfolding eng_inv_def s' by (auto simp: s' A(16,17) old(2))
qed

text \<open>A full house: the request is refused, and nothing else changes.\<close>

lemma eng_refuse:
  assumes inv: "eng_inv e" and q: "rq_input q \<noteq> []" and t: "sd_free (en_sched e) = []"
    and ad: "add_request tic q mt e = (res, e')"
  shows "eng_inv e'" "\<exists>err. res = Inl err" "en_sched e' = en_sched e"
proof -
  obtain r X where K: "kv_core (tickets e) r X e" using inv by (auto simp: eng_inv_def)
  have lin: "en_lin e = None" using inv by (simp add: eng_inv_def)
  obtain err r' X' where A: "res = Inl err" "kv_core (tickets e) r' X' e'" "en_sched e' = en_sched e" "en_adm e' = en_adm e"
    "en_full e' = en_full e" "en_next_pid e \<le> en_next_pid e'" "en_max_seq e' = en_max_seq e"
    "length (en_pt e') = length (en_pt e)" "en_lin e' = None"
    by (rule add_request_refused [OF K q t ad]) (rule that, (assumption | simp add: lin)+)
  have "tickets e' = tickets e" by (simp add: tickets_def running_ticket_def A)
  moreover have "full_ok e' x = full_ok e x" for x by (simp add: full_ok_def A)
  moreover have "waiting_ok e x \<Longrightarrow> waiting_ok e' x" for x by (auto intro: waiting_later simp: A)
  ultimately show "eng_inv e'" using inv A unfolding eng_inv_def by auto
  show "\<exists>err. res = Inl err" "en_sched e' = en_sched e" using A by auto
qed


section \<open>Cancellation\<close>

lemma pop_pending_find:
  "pop_pending uid ps = None \<Longrightarrow> find (\<lambda>p. pd_uid p = uid) ps = None"
  "pop_pending uid ps = Some (p, ps') \<Longrightarrow> find (\<lambda>p. pd_uid p = uid) ps = Some p"
  by (induction ps arbitrary: ps') auto

lemma pop_uid_find:
  "pop_uid uid rs = None \<Longrightarrow> find (\<lambda>r. rq_uid r = uid) rs = None"
  "pop_uid uid rs = Some (r, rs') \<Longrightarrow> find (\<lambda>r. rq_uid r = uid) rs = Some r"
  by (induction rs arbitrary: rs') auto

lemma newly_free_one: "t \<notin> set (sd_free s) \<Longrightarrow> sd_free s' = sort (sd_free s @ [t]) \<Longrightarrow> newly_free s s' = [t]"
  by (simp add: newly_free_def filter_sort)

lemma kv_core_unlock:
  assumes K: "kv_core W r (add_mset h X) e"
  obtains c where "cm_unlock (m, h) r = Inr c" "kv_core W c X (e\<lparr>en_cm := Some c\<rparr>)"
proof -
  note I = kv_coreD [OF K]
  let ?L = "mset (map (\<lambda>w. fst (snd w)) W) + X"
  have T: "tree_ok (add_mset h ?L) r (en_kv e)" using I(3) by simp
  obtain c where c: "cm_unlock (m, h) r = Inr c" "radix_inv ?L c" "tree_slots c = tree_slots r"
    "rx_page c = rx_page r" "spans_kept UNIV r c"
    by (rule unlock_slots [OF tree_okD(1) [OF T], where n = m])
  show ?thesis by (rule that [OF c(1)]) (rule kv_core_lock [OF K tree_ok_same [OF T c(2,3,4)] c(5)])
qed

lemma kv_core_forget:
  assumes K: "kv_core W r X e" and t: "t \<notin> fst ` set W"
  shows "kv_core W r X (e\<lparr>en_full := F, en_adm := en_adm e |` (- {t})\<rparr>)"
proof -
  have "row_ok (e\<lparr>en_full := F, en_adm := en_adm e |` (- {t})\<rparr>) r w" if w: "w \<in> set W" for w
  proof -
    have "fst w \<noteq> t" using t w by (auto simp: image_iff)
    moreover have "row_ok e r w" using kv_coreD(5) [OF K] w by blast
    ultimately show ?thesis by (auto simp: row_ok_def split: prod.splits)
  qed
  then show ?thesis using K by (simp add: kv_core_def)
qed

text \<open>The request of one ticket goes away.\<close>

lemma eng_release:
  assumes inv: "eng_inv e" and S: "sched_inv s'" "sd_max_running s' = sd_max_running (en_sched e)"
    and part: "mset (tickets e) = add_mset w (mset (map pending_ticket (pm_pending (sd_pm s'))) + mset (map (running_ticket e) (dm_running (sd_dm s'))))"
    and sub: "set (pm_pending (sd_pm s')) \<subseteq> set (pm_pending (sd_pm (en_sched e)))"
      "set (dm_running (sd_dm s')) \<subseteq> set (dm_running (sd_dm (en_sched e)))"
  obtains c c1 where "en_cm e = Some c" "cm_unlock (m, fst (snd w)) c = Inr c1"
    "eng_inv (e\<lparr>en_cm := Some c1, en_sched := s', en_kv := release_rows [fst w] (en_kv e),
        en_full := en_full e |` (- {fst w}), en_adm := en_adm e |` (- {fst w})\<rparr>)"
proof -
  obtain r X where K: "kv_core (tickets e) r X e" using inv by (auto simp: eng_inv_def)
  let ?W = "map pending_ticket (pm_pending (sd_pm s')) @ map (running_ticket e) (dm_running (sd_dm s'))"
  have K1: "kv_core (w # ?W) r X e" by (rule kv_core_perm [OF K]) (simp add: part)
  have away: "fst w \<notin> fst ` set ?W" using kv_coreD(6) [OF K1] unfolding list.map distinct.simps set_map by blast
  obtain c1 where c1: "cm_unlock (m, fst (snd w)) r = Inr c1"
    "kv_core ?W c1 X (e\<lparr>en_kv := mha_free (int (fst w)) (en_kv e), en_cm := Some c1\<rparr>)"
    by (rule kv_core_unlock [OF kv_core_release [OF K1], where m = m]) (simp add: that)
  define e' where "e' = e\<lparr>en_cm := Some c1, en_sched := s', en_kv := release_rows [fst w] (en_kv e),
        en_full := en_full e |` (- {fst w}), en_adm := en_adm e |` (- {fst w})\<rparr>"
  have K2: "kv_core ?W c1 X e'"
    by (rule kv_core_fields [OF kv_core_forget [OF c1(2) away, where F = "en_full e"]]) (simp_all add: e'_def release_rows_def)
  have row: "rq_table q \<noteq> fst w" if "q \<in> set (dm_running (sd_dm s'))" for q
    using away that unfolding ticket_rows by force
  have old: "running_ticket e' q = running_ticket e q \<and> full_ok e' q = full_ok e q" if "q \<in> set (dm_running (sd_dm s'))" for q
    using row [OF that] by (simp add: running_ticket_def full_ok_def e'_def)
  have wait: "waiting_ok e' p" if p: "p \<in> set (pm_pending (sd_pm s'))" for p
  proof -
    have "pd_table p \<noteq> fst w" using away p unfolding ticket_rows by force
    moreover have "waiting_ok e p" using inv sub p by (auto simp: eng_inv_def)
    ultimately show ?thesis by (auto intro: waiting_later simp: e'_def)
  qed
  have "tickets e' = ?W" using old by (simp add: tickets_def e'_def cong: map_cong)
  then have "kv_core (tickets e') c1 X e'" using K2 by simp
  then have "eng_inv e'"
    using inv S wait old sub unfolding eng_inv_def by (auto simp: e'_def)
  then show ?thesis using that kv_coreD(2) [OF K] c1(1) unfolding e'_def by blast
qed


lemma eng_abort:
  assumes inv: "eng_inv e"
  obtains found e' where "abort_request uid e = (Inr found, e')" "eng_inv e'"
    "found \<longleftrightarrow> (\<exists>p \<in> set (pm_pending (sd_pm (en_sched e))). pd_uid p = uid) \<or> (\<exists>r \<in> set (dm_running (sd_dm (en_sched e))). rq_uid r = uid)"
proof -
  let ?s = "en_sched e"
  obtain r0 X where K: "kv_core (tickets e) r0 X e" using inv by (auto simp: eng_inv_def)
  have S: "sched_inv ?s" and lin: "en_lin e = None" using inv by (simp_all add: eng_inv_def)
  obtain found s' where ab: "sched_abort uid ?s = (found, s')" by (cases "sched_abort uid ?s")
  have S': "sched_inv s'" using sched_abort_inv [OF S ab] .
  show ?thesis
  proof (cases "pop_pending uid (pm_pending (sd_pm ?s))")
    case (Some pq)
    obtain p ps where pq: "pop_pending uid (pm_pending (sd_pm ?s)) = Some (p, ps)" using Some by (cases pq) auto
    obtain xs ys where l: "pm_pending (sd_pm ?s) = xs @ p # ys" "ps = xs @ ys" "pd_uid p = uid"
      using pop_pending_Some [OF pq] by blast
    have ok: "pending_ok p" "waiting_ok e p" using inv S l(1) by (auto simp: sched_inv_def eng_inv_def)
    obtain m h where h: "pd_handle p = Some (m, h)" using ok(2) by (auto simp: waiting_ok_def)
    have hd: "find_cache_handle uid ?s = Some (m, h)"
      using ok(1) h by (auto simp: find_cache_handle_def pop_pending_find(2) [OF pq] pending_ok_def split: option.splits)
    have s': "found" "s' = ?s\<lparr>sd_pm := (sd_pm ?s)\<lparr>pm_pending := ps\<rparr>, sd_free := sort (sd_free ?s @ [pd_table p])\<rparr>"
      using ab pq pending_row_ok [OF ok(1)] by (auto simp: sched_abort_def)
    have nf: "newly_free ?s s' = [pd_table p]"
      by (rule newly_free_one) (use sched_rows_distinct(1) [OF S] l(1) in \<open>auto simp: s'(2)\<close>)
    obtain c c1 where R: "en_cm e = Some c" "cm_unlock (m, fst (snd (pending_ticket p))) c = Inr c1"
      "eng_inv (e\<lparr>en_cm := Some c1, en_sched := s', en_kv := release_rows [fst (pending_ticket p)] (en_kv e),
        en_full := en_full e |` (- {fst (pending_ticket p)}), en_adm := en_adm e |` (- {fst (pending_ticket p)})\<rparr>)"
      by (rule eng_release [OF inv S', of "pending_ticket p"]) (auto simp: s'(2) l tickets_def)
    have "abort_request uid e = (Inr True, e\<lparr>en_cm := Some c1, en_sched := s', en_kv := release_rows [pd_table p] (en_kv e),
        en_full := en_full e |` (- {pd_table p}), en_adm := en_adm e |` (- {pd_table p})\<rparr>)"
      using R(1,2) hd h lin ab s'(1) nf by (simp add: abort_request_def pending_ticket_def Let_def)
    then show ?thesis by (rule that) (use R(3) l in auto)
  next
    case noP: None
    then have fp: "find (\<lambda>p. pd_uid p = uid) (pm_pending (sd_pm ?s)) = None" by (rule pop_pending_find(1))
    show ?thesis
    proof (cases "pop_uid uid (dm_running (sd_dm ?s))")
      case (Some rq)
      obtain r rs where rq: "pop_uid uid (dm_running (sd_dm ?s)) = Some (r, rs)" using Some by (cases rq) auto
      obtain xs ys where l: "dm_running (sd_dm ?s) = xs @ r # ys" "rs = xs @ ys" "rq_uid r = uid"
        using pop_uid_Some [OF rq] by blast
      have ok: "full_ok e r" using inv l(1) by (auto simp: eng_inv_def)
      obtain m h where h: "rq_handle r = Some (m, h)" using ok by (auto simp: full_ok_def)
      have hd: "find_cache_handle uid ?s = Some (m, h)"
        using h by (simp add: find_cache_handle_def fp pop_uid_find(2) [OF rq])
      have s': "found" "s' = ?s\<lparr>sd_dm := (sd_dm ?s)\<lparr>dm_running := rs\<rparr>, sd_free := sort (sd_free ?s @ [rq_table r])\<rparr>"
        using ab noP rq by (auto simp: sched_abort_def decode_abort_def)
      have nf: "newly_free ?s s' = [rq_table r]"
        by (rule newly_free_one) (use sched_rows_distinct(1) [OF S] l(1) in \<open>auto simp: s'(2)\<close>)
      obtain c c1 where R: "en_cm e = Some c" "cm_unlock (m, fst (snd (running_ticket e r))) c = Inr c1"
        "eng_inv (e\<lparr>en_cm := Some c1, en_sched := s', en_kv := release_rows [fst (running_ticket e r)] (en_kv e),
          en_full := en_full e |` (- {fst (running_ticket e r)}), en_adm := en_adm e |` (- {fst (running_ticket e r)})\<rparr>)"
        by (rule eng_release [OF inv S', of "running_ticket e r"]) (auto simp: s'(2) l tickets_def)
      have "abort_request uid e = (Inr True, e\<lparr>en_cm := Some c1, en_sched := s', en_kv := release_rows [rq_table r] (en_kv e),
          en_full := en_full e |` (- {rq_table r}), en_adm := en_adm e |` (- {rq_table r})\<rparr>)"
        using R(1,2) hd h lin ab s'(1) nf by (simp add: abort_request_def running_ticket_def Let_def)
      then show ?thesis by (rule that) (use R(3) l in auto)
    next
      case None
      then have fr: "find (\<lambda>r. rq_uid r = uid) (dm_running (sd_dm ?s)) = None" by (rule pop_uid_find(1))
      have "sched_abort uid ?s = (False, ?s)" using noP None by (simp add: sched_abort_def decode_abort_def)
      then have "abort_request uid e = (Inr False, e)"
        using lin fp fr by (simp add: abort_request_def find_cache_handle_def release_rows_def restrict_map_def split: option.splits)
      moreover have "\<not> (\<exists>p \<in> set (pm_pending (sd_pm ?s)). pd_uid p = uid)" "\<not> (\<exists>r \<in> set (dm_running (sd_dm ?s)). rq_uid r = uid)"
        using fp fr unfolding List.find_None_iff by blast+
      ultimately show ?thesis using that [of False e] inv by blast
    qed
  qed
qed

end
