(* ===== verification/Engine_Histories.thy ===== *)
theory Engine_Histories
  imports Engine_Requests
begin

text \<open>
  The histories of the engine and what holds in each of them: a step never raises, the slots it
  writes belong to nobody else, every slot of the pool has one owner, and a reused prefix reads
  the slots the prefix tree keeps for the request's own first tokens.
\<close>

section \<open>Histories\<close>

text \<open>What the engine goes through: admissions that succeed, admissions refused for want of a row,
  cancellations and steps, with any clock readings and any sampled tokens.\<close>

inductive eng_run :: "'v engine \<Rightarrow> bool" where
  start: "eng_run (engine_init 1 max_seq max_running num_pages max_extend True tic None)"
| admit: "eng_run e \<Longrightarrow> rq_input q \<noteq> [] \<Longrightarrow> 1 \<le> mt \<Longrightarrow> int (length (rq_input q)) + mt \<le> int (en_max_seq e) \<Longrightarrow>
     add_request tic q mt e = (Inr uid_row, e') \<Longrightarrow> eng_run e'"
| refuse: "eng_run e \<Longrightarrow> rq_input q \<noteq> [] \<Longrightarrow> sd_free (en_sched e) = [] \<Longrightarrow>
     add_request tic q mt e = (res, e') \<Longrightarrow> eng_run e'"
| cancel: "eng_run e \<Longrightarrow> abort_request uid e = (found, e') \<Longrightarrow> eng_run e'"
| step: "eng_run e \<Longrightarrow> engine_step clk eos ign tok e = Inr (out, e') \<Longrightarrow> eng_run e'"

inductive_cases eng_runE: "eng_run e"

lemma eng_init_inv: "eng_inv (engine_init 1 max_seq max_running num_pages max_extend True tic None :: 'v engine)"
proof -
  let ?e = "engine_init 1 max_seq max_running num_pages max_extend True tic None :: 'v engine"
  let ?r = "cm_init 1 tic"
  have s: "sched_inv (en_sched ?e)" unfolding engine_init_def by (simp add: sched_init_inv)
  have ts: "tree_slots ?r = {#}" "rx_page ?r = 1" "radix_inv {#} ?r"
    using radix_init_inv [of 1 0 tic] by (simp_all add: cm_init_def tree_slots_def radix_init_def new_root_def)
  have "mha_inv {} (mha_init 1 num_pages)" by (rule mha_init_inv)
  then have "tree_ok {#} ?r (mha_init 1 num_pages)"
    using ts unfolding tree_ok_def ts by (simp add: mha_init_def)
  then have "kv_core [] ?r {#} ?e"
    unfolding kv_core_def by (auto simp: engine_init_def) (simp add: mha_init_def)
  moreover have "tickets ?e = []" by (simp add: tickets_def engine_init_def sched_init_def)
  ultimately have "\<exists>r X. kv_core (tickets ?e) r X ?e" by auto
  then show ?thesis using s unfolding eng_inv_def by (simp add: engine_init_def sched_init_def)
qed

lemma eng_run_inv: "eng_run e \<Longrightarrow> eng_inv e"
proof (induction rule: eng_run.induct)
  case (start max_seq max_running num_pages max_extend tic)
  show ?case by (rule eng_init_inv)
next
  case (admit e q mt tic uid_row e')
  then show ?case by (cases uid_row) (auto intro: eng_add)
next
  case (refuse e q tic mt res e')
  then show ?case by (auto intro: eng_refuse(1))
next
  case (cancel e uid found e')
  then show ?case by (metis eng_abort Pair_inject)
next
  case (step e clk eos ign tok out e')
  then show ?case by (metis engine_step_core Pair_inject sum.inject(2))
qed

section \<open>Reading the invariant\<close>

definition live_rows :: "'v engine \<Rightarrow> nat list" where
  "live_rows e = map pd_table (pm_pending (sd_pm (en_sched e))) @ map rq_table (dm_running (sd_dm (en_sched e)))"

lemma fst_tickets: "map fst (tickets e) = live_rows e"
  by (simp add: tickets_def live_rows_def comp_def)

lemma vals_distinct: "mset V \<subseteq># M \<Longrightarrow> \<forall>s. count M s \<le> 1 \<Longrightarrow> distinct V"
proof -
  assume a: "mset V \<subseteq># M" "\<forall>s. count M s \<le> 1"
  have "count (mset V) s \<le> 1" for s using a by (meson le_trans mset_subset_eq_count)
  then have "\<forall>s. count (mset V + {#}) s \<le> 1" by simp
  then show ?thesis using single_distinct [of V "{#}"] by blast
qed

lemma row_facts:
  assumes K: "kv_core W r X e" and w: "(t, h, L) \<in> set W"
  obtains a where "en_adm e t = Some (int a)" "a < length L" "t < length (en_pt e)" "length (en_pt e ! t) = en_max_seq e"
    "distinct (en_pt e ! t)" "set (take a (en_pt e ! t)) \<subseteq> set_mset (tree_slots r)"
    "set (drop a (en_pt e ! t)) \<inter> set_mset (tree_slots r) = {}" "mp_alloc (en_kv e) (int t) = Some (drop a (en_pt e ! t))"
    "\<exists>V. (take (length V) L, V) \<in> cached r \<and> a \<le> length V \<and> take a V = take a (en_pt e ! t)"
proof -
  note I = kv_coreD [OF K]
  obtain a V own where R: "t < length (en_pt e)" "en_adm e t = Some (int a)" "a \<le> length V" "a < length L"
    "length V \<le> length L" "span_of h r = Some (take (length V) L, V)" "mp_alloc (en_kv e) (int t) = Some own"
    "a + length own = en_max_seq e" "en_pt e ! t = take a V @ own"
    using I(5) w by (auto simp: row_ok_def)
  have V: "mset V \<subseteq># tree_slots r" "distinct V"
    using span_slots [OF R(6)] vals_distinct tree_okD(5) [OF I(3)] by blast+
  have sub: "set (take a V) \<subseteq> set_mset (tree_slots r)"
    using set_mset_mono [OF V(1)] set_take_subset [of a V] by auto
  note J = mha_invD [OF tree_okD(4) [OF I(3)]]
  have o: "distinct own" "set own \<inter> set_mset (tree_slots r) = {}" using J(3,5) [OF R(7)] by auto
  have c: "(take (length V) L, V) \<in> cached r" by (rule span_cached [OF tree_okD(1) [OF I(3)] R(6)])
  show ?thesis
  proof (rule that [OF R(2,4,1)])
    show "distinct (en_pt e ! t)" using V(2) o sub by (auto simp: R(9))
  qed (use R o sub c in \<open>auto simp: R(9)\<close>)
qed

lemma rows_apart:
  assumes K: "kv_core W r X e" and w: "(t, h, L) \<in> set W" "(t', h', L') \<in> set W" "t \<noteq> t'" and a: "en_adm e t = Some (int a)"
  shows "set (drop a (en_pt e ! t)) \<inter> set (en_pt e ! t') = {}"
proof -
  note I = kv_coreD [OF K]
  obtain b where b: "en_adm e t = Some (int b)" "mp_alloc (en_kv e) (int t) = Some (drop b (en_pt e ! t))"
    "set (drop b (en_pt e ! t)) \<inter> set_mset (tree_slots r) = {}"
    by (rule row_facts [OF K w(1)])
  obtain c where c: "mp_alloc (en_kv e) (int t') = Some (drop c (en_pt e ! t'))" "set (take c (en_pt e ! t')) \<subseteq> set_mset (tree_slots r)"
    by (rule row_facts [OF K w(2)])
  have ab: "a = b" using a b(1) by simp
  have "set (drop a (en_pt e ! t)) \<inter> set (drop c (en_pt e ! t')) = {}"
    using mha_invD(6) [OF tree_okD(4) [OF I(3)] b(2) c(1)] w(3) ab by auto
  moreover have "set (en_pt e ! t') = set (take c (en_pt e ! t')) \<union> set (drop c (en_pt e ! t'))"
    by (metis append_take_drop_id set_append)
  ultimately show ?thesis using b(3) c(2) ab by auto
qed

section \<open>The slots a batch writes\<close>

text \<open>\<open>BaseKVCachePool.write_kv\<close> and \<open>read_kv\<close> on one layer's buffer, and the slots the attention
  layers pass: the page table read at the step's positions.\<close>

definition write_kv :: "slot list \<Rightarrow> 'b list \<Rightarrow> (slot \<Rightarrow> 'b) \<Rightarrow> slot \<Rightarrow> 'b" where
  "write_kv locs vs buf = foldl (\<lambda>f (s, v). f(s := v)) buf (zip locs vs)"

definition read_kv :: "slot list list \<Rightarrow> nat \<Rightarrow> nat list \<Rightarrow> (slot \<Rightarrow> 'b) \<Rightarrow> 'b list" where
  "read_kv pt t pos buf = map (\<lambda>p. buf (pt ! t ! p)) pos"

definition out_locs :: "slot list list \<Rightarrow> phase \<Rightarrow> req \<Rightarrow> slot list" where
  "out_locs pt ph r = map (\<lambda>(tok, pos). pt ! rq_table r ! nat pos) (req_inputs ph r)"

definition batch_locs :: "slot list list \<Rightarrow> batch \<Rightarrow> slot list" where
  "batch_locs pt b = concat (map (out_locs pt (bt_phase b)) (bt_reqs b))"

lemma write_kv_other: "s \<notin> set locs \<Longrightarrow> write_kv locs vs buf s = buf s"
  unfolding write_kv_def
proof (induction locs arbitrary: vs buf)
  case (Cons l ls)
  then show ?case by (cases vs) auto
qed simp

lemma write_kv_at: "distinct locs \<Longrightarrow> length vs = length locs \<Longrightarrow> map (write_kv locs vs buf) locs = vs"
proof (induction locs arbitrary: vs buf)
  case (Cons l ls)
  obtain v vs' where v: "vs = v # vs'" using Cons.prems(2) by (cases vs) auto
  have "write_kv (l # ls) vs buf = write_kv ls vs' (buf(l := v))" by (simp add: write_kv_def v)
  moreover have "write_kv ls vs' (buf(l := v)) l = v" using write_kv_other [of l ls vs' "buf(l := v)"] Cons.prems(1) by simp
  moreover have "map (write_kv ls vs' (buf(l := v))) ls = vs'" 
    by (rule Cons.IH) (use Cons.prems v in simp_all)
  ultimately show ?case by (simp only: v list.map)
qed simp

text \<open>Where a request's step starts and ends.\<close>

definition first_pos :: "phase \<Rightarrow> req \<Rightarrow> nat" where
  "first_pos ph r = nat (case ph of Prefill \<Rightarrow> rq_cached_len r | Decode \<Rightarrow> rq_device_len r - 1)"

definition end_pos :: "req \<Rightarrow> nat" where
  "end_pos r = nat (rq_device_len r)"

lemma req_positions:
  assumes "ph = Prefill \<Longrightarrow> 0 \<le> rq_cached_len r \<and> 0 < extend_len r" "ph = Decode \<Longrightarrow> 1 \<le> rq_device_len r"
  shows "map (nat \<circ> snd) (req_inputs ph r) = [first_pos ph r..<end_pos r]"
proof (cases ph)
  case Prefill
  have "nat (rq_cached_len r) + nat (extend_len r) = nat (rq_device_len r)"
    using assms(1) [OF Prefill] unfolding extend_len_def by linarith
  moreover have "map (\<lambda>t. nat (rq_cached_len r + int t)) [0..<nat (extend_len r)]
    = map (\<lambda>t. nat (rq_cached_len r) + t) [0..<nat (extend_len r)]" using assms(1) [OF Prefill] by auto
  ultimately show ?thesis
    by (simp add: Prefill req_inputs_def first_pos_def end_pos_def comp_def map_add_upt add.commute)
next
  case Decode
  have "[nat (rq_device_len r - 1)..<nat (rq_device_len r)] = [nat (rq_device_len r - 1)]"
    using assms(2) [OF Decode] by (simp add: upt_rec nat_diff_distrib)
  then show ?thesis by (simp add: Decode req_inputs_def first_pos_def end_pos_def)
qed

lemma out_locs_slice:
  assumes "map (nat \<circ> snd) (req_inputs ph r) = [i..<j]" "j \<le> length (pt ! rq_table r)"
  shows "out_locs pt ph r = take (j - i) (drop i (pt ! rq_table r))"
proof -
  have "out_locs pt ph r = map (\<lambda>p. pt ! rq_table r ! p) (map (nat \<circ> snd) (req_inputs ph r))"
    by (simp add: out_locs_def comp_def split_beta)
  also have "\<dots> = map ((!) (pt ! rq_table r)) [i..<j]" by (simp add: assms(1))
  also have "\<dots> = take (j - i) (drop i (pt ! rq_table r))" using assms(2)
    by (intro nth_equalityI) auto
  finally show ?thesis .
qed

text \<open>Every request of a batch holds a row of its own and stays within the row's own part.\<close>

definition in_own_part :: "'v engine \<Rightarrow> phase \<Rightarrow> req \<Rightarrow> bool" where
  "in_own_part e ph r \<longleftrightarrow> (\<exists>a. en_adm e (rq_table r) = Some (int a) \<and> a \<le> first_pos ph r \<and> first_pos ph r < end_pos r \<and>
     end_pos r \<le> en_max_seq e \<and> map (nat \<circ> snd) (req_inputs ph r) = [first_pos ph r..<end_pos r])"

lemma prefill_tables:
  assumes pb: "prefill_batch budget dm oid m = (Some b, m', oid')"
    and ok: "\<forall>p \<in> set (pm_pending m). pending_ok p" and d: "distinct (map pd_id (pm_pending m))"
    and t: "distinct (map pd_table (pm_pending m))"
  shows "distinct (map rq_table (bt_reqs b))" "\<forall>r \<in> set (bt_reqs b). \<exists>p \<in> set (pm_pending m). slice_of p r \<and> rq_table r = pd_table p"
proof -
  obtain sub rs a' where s: "bt_reqs b = rs"
    "pass_ok (pm_pending m) (init_adder budget dm m oid) sub rs (bt_new_tokens b) a'"
    using prefill_batch_Some [OF pb ok d] by metis
  have P: "subseq sub (pm_pending m)" "list_all2 (\<lambda>p r. slice_of p r \<and> rq_table r = pd_table p) sub rs"
    using s(2) by (auto simp: pass_ok_def)
  have "map rq_table rs = map pd_table sub" using P(2) by (induction rule: list_all2_induct) auto
  moreover have "subseq (map pd_table sub) (map pd_table (pm_pending m))" using P(1) by (rule subseq_map)
  ultimately show "distinct (map rq_table (bt_reqs b))" 
    using subseqs_distinctD [of "map pd_table sub" "map pd_table (pm_pending m)"] t s(1) by simp
  have "\<exists>p \<in> set (pm_pending m). slice_of p r \<and> rq_table r = pd_table p" if rin: "r \<in> set rs" for r
  proof -
    obtain i where i: "i < length rs" "rs ! i = r" using rin by (auto simp: in_set_conv_nth)
    then have "slice_of (sub ! i) r \<and> rq_table r = pd_table (sub ! i)" "sub ! i \<in> set sub"
      using list_all2_nthD2 [OF P(2) i(1)] list_all2_lengthD [OF P(2)] by auto
    then show ?thesis using subseq_subset [OF P(1)] by blast
  qed
  then show "\<forall>r \<in> set (bt_reqs b). \<exists>p \<in> set (pm_pending m). slice_of p r \<and> rq_table r = pd_table p" using s(1) by blast
qed

lemma batch_members:
  assumes inv: "eng_inv e" and sc: "sched_schedule (en_sched e) = (Some b, s')"
  shows "distinct (map rq_table (bt_reqs b))" "\<forall>r \<in> set (bt_reqs b). rq_table r \<in> set (live_rows e) \<and> in_own_part e (bt_phase b) r"
proof -
  let ?s = "en_sched e"
  have S: "sched_inv ?s" and pend: "\<forall>p \<in> set (pm_pending (sd_pm ?s)). waiting_ok e p"
    and run: "\<forall>r \<in> set (dm_running (sd_dm ?s)). can_decode r \<and> full_ok e r"
    using inv by (auto simp: eng_inv_def)
  obtain r X where K: "kv_core (tickets e) r X e" using inv by (auto simp: eng_inv_def)
  have dl: "distinct (live_rows e)" using kv_coreD(6) [OF K] by (simp add: fst_tickets)
  obtain ob pm oid where pb: "prefill_batch (sd_max_extend ?s) (sd_dm ?s) (sd_next_oid ?s) (sd_pm ?s) = (ob, pm, oid)"
    by (metis prod_cases3)
  have "distinct (map rq_table (bt_reqs b)) \<and> (\<forall>r \<in> set (bt_reqs b). rq_table r \<in> set (live_rows e) \<and> in_own_part e (bt_phase b) r)"
  proof (cases ob)
    case (Some b1)
    have b: "b1 = b" "bt_phase b = Prefill"
      using sc pb Some by (auto simp: sched_schedule_def prefill_batch_def Let_def split: if_splits prod.splits)
    note T = prefill_tables [OF pb [unfolded Some b]]
    have ok: "\<forall>p \<in> set (pm_pending (sd_pm ?s)). pending_ok p" "distinct (map pd_id (pm_pending (sd_pm ?s)))"
      "distinct (map pd_table (pm_pending (sd_pm ?s)))" using S dl by (auto simp: sched_inv_def live_rows_def)
    have "rq_table q \<in> set (live_rows e) \<and> in_own_part e Prefill q" if q: "q \<in> set (bt_reqs b)" for q
    proof -
      obtain p where p: "p \<in> set (pm_pending (sd_pm ?s))" "slice_of p q" "rq_table q = pd_table p" using T(2) [OF ok] q by blast
      have W: "waiting_ok e p" "pending_ok p" using p(1) pend ok(1) by auto
      have c: "0 \<le> pd_cached_len p" "pd_cached_len p \<le> rq_cached_len q" "0 < extend_len q" "rq_device_len q \<le> input_len p"
        "en_adm e (rq_table q) = Some (pd_cached_len p)" "input_len p \<le> int (en_max_seq e)"
        using W p(2,3) by (auto simp: waiting_ok_def slice_of_def pending_ok_def)
      have pos: "map (nat \<circ> snd) (req_inputs Prefill q) = [first_pos Prefill q..<end_pos q]"
        by (rule req_positions) (use c in auto)
      have "in_own_part e Prefill q" unfolding in_own_part_def
        by (intro exI [of _ "nat (pd_cached_len p)"]) (use c pos in \<open>auto simp: first_pos_def end_pos_def extend_len_def nat_le_iff\<close>)
      then show ?thesis using p(1,3) by (auto simp: live_rows_def)
    qed
    then show ?thesis using T(1) [OF ok] b(2) by simp
  next
    case None
    then have db: "decode_batch (sd_dm ?s) = Some b" using sc pb by (auto simp: sched_schedule_def)
    then have b: "bt_phase b = Decode" by (auto simp: decode_batch_def split: if_splits)
    note D = decode_sync(1) [OF S db post_sample_exec_ok]
    have "mset (map rq_table (bt_reqs b)) = mset (map rq_table (dm_running (sd_dm ?s)))" by (simp add: D)
    then have "distinct (map rq_table (bt_reqs b)) = distinct (map rq_table (dm_running (sd_dm ?s)))" by (rule mset_eq_distinct)
    moreover have "distinct (map rq_table (dm_running (sd_dm ?s)))" using dl by (simp add: live_rows_def)
    moreover have "rq_table q \<in> set (live_rows e) \<and> in_own_part e Decode q" if "q \<in> set (bt_reqs b)" for q
    proof -
      have q: "q \<in> set (dm_running (sd_dm ?s))" using that by (simp add: D)
      obtain f where f: "en_full e (rq_table q) = Some f" "int (length f) = rq_device_len q"
        "rq_max_device_len q \<le> int (en_max_seq e)" "can_decode q" using run q by (auto simp: full_ok_def)
      have tk: "(rq_table q, snd (the (rq_handle q)), f) \<in> set (tickets e)"
        using q f(1) by (force simp: tickets_def running_ticket_def)
      obtain a where a: "en_adm e (rq_table q) = Some (int a)" "a < length f" by (rule row_facts [OF K tk])
      have d: "int a < rq_device_len q" "rq_device_len q < int (en_max_seq e)"
        using a f by (auto simp: can_decode_def remain_len_def split: if_splits)
      have pos: "map (nat \<circ> snd) (req_inputs Decode q) = [first_pos Decode q..<end_pos q]"
        by (rule req_positions) (use d in auto)
      have "in_own_part e Decode q" unfolding in_own_part_def
        by (intro exI [of _ a]) (use a d pos in \<open>auto simp: first_pos_def end_pos_def nat_le_iff\<close>)
      then show ?thesis using q by (auto simp: live_rows_def)
    qed
    ultimately show ?thesis using b by simp
  qed
  then show "distinct (map rq_table (bt_reqs b))" "\<forall>r \<in> set (bt_reqs b). rq_table r \<in> set (live_rows e) \<and> in_own_part e (bt_phase b) r"
    by blast+
qed

section \<open>Isolation of the key/value slots\<close>

lemma row_ticket: "t \<in> set (live_rows e) \<Longrightarrow> \<exists>h L. (t, h, L) \<in> set (tickets e)"
proof -
  assume "t \<in> set (live_rows e)"
  then obtain w where "w \<in> set (tickets e)" "fst w = t" unfolding fst_tickets [symmetric] by auto
  then show ?thesis by (metis prod.collapse)
qed

lemma pref_slots: "(K, V) \<in> pref p x \<Longrightarrow> set V \<subseteq> set_mset (nsum vmset x)"
proof (induction x arbitrary: K V)
  case (RNode d ks)
  consider n where "V = take n (nd_val d)" | x K' V' where "x \<in> set ks" "(K', V') \<in> pref p x" "V = nd_val d @ V'"
    using RNode.prems unfolding pref.simps by auto
  then show ?case
  proof cases
    case 1
    then show ?thesis using set_take_subset [of n "nd_val d"] by (auto simp: vmset_def)
  next
    case 2
    have "set V' \<subseteq> set_mset (nsum vmset x)" using RNode.IH 2 by blast
    moreover have "set_mset (nsum vmset x) \<subseteq> set_mset (ksum vmset ks)" using 2(1) by (auto simp: ksum_map)
    moreover have "set_mset (nsum vmset (RNode d ks)) = set (nd_val d) \<union> set_mset (ksum vmset ks)" by (simp add: vmset_def [of d])
    ultimately show ?thesis using 2(3) by auto
  qed
qed

lemma cached_slots: "(K, V) \<in> cached r \<Longrightarrow> set V \<subseteq> set_mset (tree_slots r)"
  using pref_slots by (fastforce simp: cached_def prefs_def tree_slots_def ksum_map)

lemma batch_slots:
  assumes inv: "eng_inv e" and sc: "sched_schedule (en_sched e) = (Some b, s')" and K: "kv_core (tickets e) r X e"
  shows "distinct (batch_locs (en_pt e) b)" "set (batch_locs (en_pt e) b) \<inter> set_mset (tree_slots r) = {}"
    "\<And>q. q \<in> set (bt_reqs b) \<Longrightarrow> set (batch_locs (en_pt e) b) \<inter> set (take (first_pos (bt_phase b) q) (en_pt e ! rq_table q)) = {}"
    "\<And>t. t \<in> set (live_rows e) \<Longrightarrow> t \<notin> rq_table ` set (bt_reqs b) \<Longrightarrow> set (batch_locs (en_pt e) b) \<inter> set (en_pt e ! t) = {}"
proof -
  let ?ph = "bt_phase b" and ?pt = "en_pt e"
  note B = batch_members [OF inv sc]
  have own: "\<exists>a. out_locs ?pt ?ph q = take (end_pos q - first_pos ?ph q) (drop (first_pos ?ph q) (?pt ! rq_table q)) \<and>
      en_adm e (rq_table q) = Some (int a) \<and> a \<le> first_pos ?ph q \<and> distinct (?pt ! rq_table q) \<and>
      set (drop a (?pt ! rq_table q)) \<inter> set_mset (tree_slots r) = {} \<and>
      (\<forall>t \<in> set (live_rows e). t \<noteq> rq_table q \<longrightarrow> set (drop a (?pt ! rq_table q)) \<inter> set (?pt ! t) = {})"
    if q: "q \<in> set (bt_reqs b)" for q
  proof -
    have q1: "rq_table q \<in> set (live_rows e)" "in_own_part e ?ph q" using B(2) q by auto
    obtain h L where w: "(rq_table q, h, L) \<in> set (tickets e)" using row_ticket [OF q1(1)] by blast
    obtain a where a: "en_adm e (rq_table q) = Some (int a)" "length (?pt ! rq_table q) = en_max_seq e" "distinct (?pt ! rq_table q)"
      "set (drop a (?pt ! rq_table q)) \<inter> set_mset (tree_slots r) = {}"
      by (rule row_facts [OF K w])
    have p: "a \<le> first_pos ?ph q" "end_pos q \<le> en_max_seq e" "map (nat \<circ> snd) (req_inputs ?ph q) = [first_pos ?ph q..<end_pos q]"
      using q1(2) a(1) by (auto simp: in_own_part_def)
    have "set (drop a (?pt ! rq_table q)) \<inter> set (?pt ! t) = {}" if t: "t \<in> set (live_rows e)" "t \<noteq> rq_table q" for t
    proof -
      obtain h' L' where w': "(t, h', L') \<in> set (tickets e)" using row_ticket [OF t(1)] by blast
      show ?thesis by (rule rows_apart [OF K w w' _ a(1)]) (use t(2) in simp)
    qed
    then show ?thesis using out_locs_slice [OF p(3)] p(1,2) a by (intro exI [of _ a]) simp
  qed
  have sub: "set (out_locs ?pt ?ph q) \<subseteq> set (drop (first_pos ?ph q) (?pt ! rq_table q))" if "q \<in> set (bt_reqs b)" for q
    using own [OF that] set_take_subset by fastforce
  have subt: "set (out_locs ?pt ?ph q) \<subseteq> set (?pt ! rq_table q)" if "q \<in> set (bt_reqs b)" for q
    using sub [OF that] set_drop_subset by fastforce
  have apart: "set (out_locs ?pt ?ph q) \<inter> set (?pt ! t) = {}"
    if q: "q \<in> set (bt_reqs b)" and t: "t \<in> set (live_rows e)" "t \<noteq> rq_table q" for q t
  proof -
    obtain a where a: "a \<le> first_pos ?ph q" "set (drop a (?pt ! rq_table q)) \<inter> set (?pt ! t) = {}" using own [OF q] t by blast
    have "set (drop (first_pos ?ph q) (?pt ! rq_table q)) \<subseteq> set (drop a (?pt ! rq_table q))"
      by (rule set_drop_subset_set_drop [OF a(1)])
    then show ?thesis using a(2) sub [OF q] by blast
  qed
  have disj: "set (out_locs ?pt ?ph q) \<inter> set (out_locs ?pt ?ph q') = {}"
    if "q \<in> set (bt_reqs b)" "q' \<in> set (bt_reqs b)" "rq_table q \<noteq> rq_table q'" for q q'
    using apart [OF that(1), of "rq_table q'"] B(2) that subt [OF that(2)] by auto
  have dq: "distinct (out_locs ?pt ?ph q)" if "q \<in> set (bt_reqs b)" for q using own [OF that] by auto
  have "distinct (concat (map (out_locs ?pt ?ph) qs))" if "set qs \<subseteq> set (bt_reqs b)" "distinct (map rq_table qs)" for qs
    using that
  proof (induction qs)
    case (Cons q qs)
    have "set (out_locs ?pt ?ph q) \<inter> set (out_locs ?pt ?ph q') = {}" if "q' \<in> set qs" for q'
      using disj [of q q'] Cons.prems that by (auto simp: image_iff)
    then show ?case using Cons dq [of q] by auto
  qed simp
  then show "distinct (batch_locs ?pt b)" unfolding batch_locs_def using B(1) by blast
  have s: "set (batch_locs ?pt b) = (\<Union>q \<in> set (bt_reqs b). set (out_locs ?pt ?ph q))" by (simp add: batch_locs_def)
  have "set (out_locs ?pt ?ph q) \<inter> set_mset (tree_slots r) = {}" if q: "q \<in> set (bt_reqs b)" for q
  proof -
    obtain a where a: "a \<le> first_pos ?ph q" "set (drop a (?pt ! rq_table q)) \<inter> set_mset (tree_slots r) = {}" using own [OF q] by blast
    have "set (drop (first_pos ?ph q) (?pt ! rq_table q)) \<subseteq> set (drop a (?pt ! rq_table q))"
      by (rule set_drop_subset_set_drop [OF a(1)])
    then show ?thesis using a(2) sub [OF q] by blast
  qed
  then show "set (batch_locs ?pt b) \<inter> set_mset (tree_slots r) = {}" unfolding s by blast
  show "set (batch_locs ?pt b) \<inter> set (?pt ! t) = {}" if "t \<in> set (live_rows e)" "t \<notin> rq_table ` set (bt_reqs b)" for t
  proof -
    have "set (out_locs ?pt ?ph q) \<inter> set (?pt ! t) = {}" if "q \<in> set (bt_reqs b)" for q
      by (rule apart [OF that \<open>t \<in> set (live_rows e)\<close>]) (use \<open>t \<notin> rq_table ` set (bt_reqs b)\<close> that in blast)
    then show ?thesis unfolding s by blast
  qed
  show "set (batch_locs ?pt b) \<inter> set (take (first_pos ?ph q) (?pt ! rq_table q)) = {}" if q: "q \<in> set (bt_reqs b)" for q
  proof -
    have "set (out_locs ?pt ?ph q') \<inter> set (take (first_pos ?ph q) (?pt ! rq_table q)) = {}" if q': "q' \<in> set (bt_reqs b)" for q'
    proof (cases "q' = q")
      case True
      have "distinct (?pt ! rq_table q)" using own [OF q] by blast
      then have "set (drop (first_pos ?ph q) (?pt ! rq_table q)) \<inter> set (take (first_pos ?ph q) (?pt ! rq_table q)) = {}"
        using set_take_disj_set_drop_if_distinct [of "?pt ! rq_table q" "first_pos ?ph q" "first_pos ?ph q"] by blast
      then show ?thesis using sub [OF q] True by blast
    next
      case False
      then have "rq_table q \<noteq> rq_table q'" using B(1) q q' by (auto simp: distinct_map inj_on_def)
      then show ?thesis using apart [OF q', of "rq_table q"] B(2) q set_take_subset [of "first_pos ?ph q" "?pt ! rq_table q"] by blast
    qed
    then show ?thesis unfolding s by blast
  qed
qed


end
