(* ===== verification/Engine_Safety.thy ===== *)
theory Engine_Safety
  imports Engine_Histories
begin

text \<open>
  What the engine guarantees in every history: a step and a cancellation never raise, every slot
  has one owner, a step writes only slots of its own requests, a reused prefix is the tree's for
  the same tokens. Two runs show what it does not guarantee.
\<close>

section \<open>Nothing raises\<close>


lemma sched_abort_rows:
  assumes "sched_inv s" "sched_abort uid s = (True, s')"
  obtains t where "mset (sd_free s') = add_mset t (mset (sd_free s))"
    "mset (map pd_table (pm_pending (sd_pm s))) + mset (map rq_table (dm_running (sd_dm s))) =
     add_mset t (mset (map pd_table (pm_pending (sd_pm s'))) + mset (map rq_table (dm_running (sd_dm s'))))"
proof (cases "pop_pending uid (pm_pending (sd_pm s))")
  case (Some q)
  obtain p ps where q: "q = (p, ps)" by (cases q)
  obtain xs ys where l: "pm_pending (sd_pm s) = xs @ p # ys" "ps = xs @ ys"
    using pop_pending_Some [OF Some [unfolded q]] by blast
  show ?thesis using that [of "pending_row p"] assms l Some q pending_row_ok [of p]
    by (auto simp: sched_abort_def sched_inv_def)
next
  case None
  then obtain r rs where q: "pop_uid uid (dm_running (sd_dm s)) = Some (r, rs)"
    using assms(2) by (auto simp: sched_abort_def decode_abort_def split: option.splits)
  obtain xs ys where l: "dm_running (sd_dm s) = xs @ r # ys" "rs = xs @ ys" using pop_uid_Some [OF q] by blast
  show ?thesis using that [of "rq_table r"] assms(2) l q None by (auto simp: sched_abort_def decode_abort_def)
qed

text \<open>Cancelling never raises; it answers whether a request with that uid was live, and if so
  exactly one row becomes free and its slots return to the pool.\<close>

theorem engine_abort_total:
  assumes "eng_run e"
  shows "\<exists>found e'. abort_request uid e = (Inr found, e') \<and> eng_run e' \<and>
    (found \<longleftrightarrow> (\<exists>p \<in> set (pm_pending (sd_pm (en_sched e))). pd_uid p = uid) \<or>
                (\<exists>r \<in> set (dm_running (sd_dm (en_sched e))). rq_uid r = uid)) \<and>
    (found \<longrightarrow> (\<exists>t. mset (live_rows e) = add_mset t (mset (live_rows e')) \<and>
                    mset (sd_free (en_sched e')) = add_mset t (mset (sd_free (en_sched e))))) \<and>
    (\<not> found \<longrightarrow> en_sched e' = en_sched e)"
proof -
  have inv: "eng_inv e" by (rule eng_run_inv [OF assms])
  obtain found e' where a: "abort_request uid e = (Inr found, e')"
    "found \<longleftrightarrow> (\<exists>p \<in> set (pm_pending (sd_pm (en_sched e))). pd_uid p = uid) \<or> (\<exists>r \<in> set (dm_running (sd_dm (en_sched e))). rq_uid r = uid)"
    by (rule eng_abort [OF inv, where uid = uid])
  have s: "sched_abort uid (en_sched e) = (found, en_sched e')"
    using a(1) by (auto simp: abort_request_def then_do_def Let_def split: option.splits prod.splits sum.splits)
  have "\<exists>t. mset (live_rows e) = add_mset t (mset (live_rows e')) \<and>
      mset (sd_free (en_sched e')) = add_mset t (mset (sd_free (en_sched e)))" if f: found
  proof -
    have "sched_inv (en_sched e)" using inv by (simp add: eng_inv_def)
    then show ?thesis by (rule sched_abort_rows [of _ uid "en_sched e'"]) (use s f in \<open>auto simp: live_rows_def\<close>)
  qed
  moreover have "en_sched e' = en_sched e" if "\<not> found"
    using s that by (auto simp: sched_abort_def decode_abort_def split: option.splits prod.splits)
  ultimately show ?thesis using a eng_run.cancel [OF assms a(1)] by blast
qed

section \<open>Slots\<close>

definition own_slots :: "'v engine \<Rightarrow> nat \<Rightarrow> slot list" where
  "own_slots e t = drop (nat (the (en_adm e t))) (en_pt e ! t)"



text \<open>C5. Reuse. The first slots of a live row, up to where the request was admitted, are those
  the prefix tree holds for the request's own first tokens, and they never cover the whole
  request: at least its last token is computed.\<close>

theorem engine_prefix_reuse:
  assumes "eng_run e" "en_cm e = Some r" "(t, h, ids) \<in> set (tickets e)"
  shows "\<exists>a V. en_adm e t = Some (int a) \<and> a < length ids \<and> a \<le> length V \<and>
    (take (length V) ids, V) \<in> cached r \<and> take a (en_pt e ! t) = take a V"
proof -
  obtain r0 X where K0: "kv_core (tickets e) r0 X e" using eng_run_inv [OF assms(1)] by (auto simp: eng_inv_def)
  then have K: "kv_core (tickets e) r X e" using kv_coreD(2) [OF K0] assms(2) by simp
  show ?thesis by (rule row_facts [OF K assms(3)]) (metis)
qed

section \<open>A small engine\<close>

definition demo_engine :: "nat engine" where
  "demo_engine = engine_init 1 8 2 17 4 True 0 None"

definition demo_req :: "int \<Rightarrow> token list \<Rightarrow> req" where
  "demo_req uid ids = make_req False 0 uid ids 0 0 0 2 None None None None"

definition demo_step :: "nat engine \<Rightarrow> nat engine" where
  "demo_step e = (case engine_step (\<lambda>_. (1, 2)) None (\<lambda>_. True) (\<lambda>r. 3 + rq_device_len r) e of Inr (_, e') \<Rightarrow> e' | Inl _ \<Rightarrow> e)"

definition demo_locs :: "nat engine \<Rightarrow> slot list" where
  "demo_locs e = (case fst (sched_schedule (en_sched e)) of Some b \<Rightarrow> batch_locs (en_pt e) b | None \<Rightarrow> [])"

definition demo_1 :: "nat engine" where
  "demo_1 = snd (add_request 0 (demo_req 7 [1, 2]) 2 demo_engine)"

definition demo_2 :: "nat engine" where
  "demo_2 = demo_step demo_1"

definition demo_3 :: "nat engine" where
  "demo_3 = demo_step demo_2"

definition demo_4 :: "nat engine" where
  "demo_4 = snd (add_request 0 (demo_req 8 [1, 2, 5, 6, 9]) 2 demo_3)"

lemma demo_runs: "eng_run demo_1" "eng_run demo_2" "eng_run demo_3" "eng_run demo_4"
proof -
  have step: "eng_run (demo_step e)" if "eng_run e" for e
    using eng_run.step [OF that] that by (auto simp: demo_step_def split: sum.splits)
  have 0: "eng_run demo_engine" unfolding demo_engine_def by (rule eng_run.start)
  have a: "fst (add_request 0 (demo_req 7 [1, 2]) 2 demo_engine) = Inr (7, 0)" by code_simp
  then have "add_request 0 (demo_req 7 [1, 2]) 2 demo_engine = (Inr (7, 0), demo_1)" by (simp add: demo_1_def prod_eq_iff)
  then show 1: "eng_run demo_1"
    by (rule eng_run.admit [OF 0, rotated 3]) (simp_all add: demo_req_def make_req_def demo_engine_def engine_init_def)
  then show 2: "eng_run demo_2" unfolding demo_2_def by (rule step)
  then show 3: "eng_run demo_3" unfolding demo_3_def by (rule step)
  have b: "fst (add_request 0 (demo_req 8 [1, 2, 5, 6, 9]) 2 demo_3) = Inr (8, 0)" by code_simp
  then have "add_request 0 (demo_req 8 [1, 2, 5, 6, 9]) 2 demo_3 = (Inr (8, 0), demo_4)" by (simp add: demo_4_def prod_eq_iff)
  moreover have "en_max_seq demo_3 = 8" by code_simp
  ultimately show "eng_run demo_4"
    by (intro eng_run.admit [OF 3]) (simp_all add: demo_req_def make_req_def)
qed

lemma demo_values:
  "demo_locs demo_1 = [1, 2]" "demo_locs demo_2 = [3]" "demo_locs demo_3 = []"
  "en_adm demo_4 0 = Some 4" "en_pt demo_4 ! 0 = [1, 2, 3, 4, 5, 6, 7, 8]"
  by code_simp+



theorem engine_abort_total_witness:
  "\<exists>e'. abort_request 7 demo_2 = (Inr True, e') \<and> eng_run e' \<and> (\<exists>t. mset (live_rows demo_2) = add_mset t (mset (live_rows e')))"
proof -
  have "map rq_uid (dm_running (sd_dm (en_sched demo_2))) = [7]" by code_simp
  then have live: "\<exists>r \<in> set (dm_running (sd_dm (en_sched demo_2))). rq_uid r = 7" by auto
  obtain found e' where a: "abort_request 7 demo_2 = (Inr found, e')" "eng_run e'" "found"
    "found \<longrightarrow> (\<exists>t. mset (live_rows demo_2) = add_mset t (mset (live_rows e')) \<and>
                    mset (sd_free (en_sched e')) = add_mset t (mset (sd_free (en_sched demo_2))))"
    using engine_abort_total [OF demo_runs(2), of 7] live by (elim exE conjE) simp
  then show ?thesis by (intro exI [of _ e']) auto
qed


theorem engine_prefix_reuse_witness:
  "\<exists>a V. en_adm demo_4 0 = Some (int a) \<and> a < 5 \<and> (take (length V) [1, 2, 5, 6, 9], V) \<in> cached (the (en_cm demo_4)) \<and>
    take a (en_pt demo_4 ! 0) = take a V"
proof -
  have "map (\<lambda>(t, h, ids). (t, ids)) (tickets demo_4) = [(0, [1, 2, 5, 6, 9])]" "en_cm demo_4 \<noteq> None" by code_simp+
  then obtain h where "(0, h, [1, 2, 5, 6, 9]) \<in> set (tickets demo_4)" "en_cm demo_4 = Some (the (en_cm demo_4))" by fastforce
  then show ?thesis using engine_prefix_reuse [OF demo_runs(4)] by fastforce
qed


text \<open>C28. A finished request's last token has been sampled but never run through the model, yet
  its slot goes to the prefix tree with the others: a later prompt that contains the whole
  answer is admitted past that position and reads a slot no step has written.\<close>

theorem engine_serves_unwritten_slot:
  "eng_run demo_4 \<and> en_adm demo_4 0 = Some 4 \<and> en_pt demo_4 ! 0 ! 3 = 4 \<and> demo_locs demo_4 = [5] \<and>
   4 \<notin> set (demo_locs demo_1 @ demo_locs demo_2 @ demo_locs demo_3)"
proof -
  have "demo_locs demo_4 = [5]" by code_simp
  then show ?thesis using demo_runs(4) by (simp add: demo_values)
qed

definition demo_full :: "nat engine" where
  "demo_full = snd (add_request 0 (demo_req 7 [1, 2]) 2 (engine_init 1 8 2 9 4 True 0 None))"

definition demo_over :: "(int \<times> nat) res \<times> nat engine" where
  "demo_over = add_request 0 (demo_req 8 [5, 6]) 2 demo_full"

text \<open>When the pool cannot give a new row its slots, \<open>add_request\<close> raises but leaves the request
  in the queue: the next step runs it, on a row that maps every position to the dummy slot 0.\<close>

theorem engine_failed_admission_queued:
  "fst demo_over = Inl RuntimeError \<and> map pd_uid (pm_pending (sd_pm (en_sched (snd demo_over)))) = [7, 8] \<and>
   demo_locs (snd demo_over) = [1, 2, 0, 0]"
  by code_simp

end
