(* ===== verification/Scheduler_Drain.thy ===== *)
theory Scheduler_Drain
  imports Engine_Safety
begin

text \<open>
  Work runs out. The steps a queue is worth, counted as \<open>Engine.generate\<close> counts its budget,
  strictly decrease with every batch the scheduler forms, so without new requests the engine
  comes to rest; the engine's step is the scheduler's step on the scheduler's state.
\<close>

section \<open>Systems that spend\<close>

text \<open>Every step taken while there is work spends some of it.\<close>

locale spending =
  fixes inv :: "'s \<Rightarrow> bool" and busy :: "'s \<Rightarrow> bool" and work :: "'s \<Rightarrow> nat" and step :: "'s \<Rightarrow> 's \<Rightarrow> bool"
  assumes keeps: "inv s \<Longrightarrow> step s s' \<Longrightarrow> inv s'"
    and spends: "inv s \<Longrightarrow> busy s \<Longrightarrow> step s s' \<Longrightarrow> work s' < work s"
begin

lemma step_wf: "wf {(s', s). inv s \<and> busy s \<and> step s s'}"
  by (rule wf_subset [OF wf_measure [of work]]) (use spends in auto)

lemma run_inv: "inv (f 0) \<Longrightarrow> (\<And>k. step (f k) (f (Suc k))) \<Longrightarrow> inv (f k)"
  by (induction k) (auto intro: keeps)

lemma rests:
  assumes "inv (f 0)" "\<And>k. step (f k) (f (Suc k))"
  shows "\<exists>k \<le> work (f 0). \<not> busy (f k)"
proof (rule ccontr)
  assume a: "\<not> (\<exists>k \<le> work (f 0). \<not> busy (f k))"
  have "work (f k) + k \<le> work (f 0)" if "k \<le> Suc (work (f 0))" for k
    using that
  proof (induction k)
    case (Suc k)
    have "work (f (Suc k)) < work (f k)" using spends [OF run_inv [of f, OF assms] _ assms(2)] a Suc.prems by simp
    then show ?case using Suc by simp
  qed simp
  from this [of "Suc (work (f 0))"] show False by simp
qed

end

section \<open>The steps a queue is worth\<close>

text \<open>The steps the rest of a prompt takes when nobody shares them, as \<open>generate\<close> counts them.\<close>

definition prefill_steps :: "int \<Rightarrow> int \<Rightarrow> int" where
  "prefill_steps me n = - ((- n) div me)"

definition pending_work :: "int \<Rightarrow> pending \<Rightarrow> int" where
  "pending_work me p = prefill_steps me (input_len p - resume_at p) + pd_output_len p"

definition sched_work :: "scheduler \<Rightarrow> int" where
  "sched_work s = sum_list (map (pending_work (sd_max_extend s)) (pm_pending (sd_pm s)))
     + sum_list (map remain_len (dm_running (sd_dm s)))"

lemma prefill_steps_pos: "1 \<le> me \<Longrightarrow> 0 < n \<Longrightarrow> 1 \<le> prefill_steps me n"
  by (simp add: prefill_steps_def) (smt (verit) div_neg_pos_less0)

lemma prefill_steps_mono: "1 \<le> me \<Longrightarrow> m \<le> n \<Longrightarrow> prefill_steps me m \<le> prefill_steps me n"
  by (simp add: prefill_steps_def zdiv_mono1)

lemma prefill_steps_minus: "1 \<le> me \<Longrightarrow> prefill_steps me (n - me) = prefill_steps me n - 1"
proof -
  assume "1 \<le> me"
  then have "(- n + me) div me = (- n) div me + 1" by (intro div_add_self2) simp
  moreover have "- (n - me) = - n + me" by simp
  ultimately show ?thesis by (simp only: prefill_steps_def)
qed

text \<open>One entry of a pass: what its request still costs.\<close>

definition after_pass :: "int \<Rightarrow> pending \<Rightarrow> req \<Rightarrow> int" where
  "after_pass me p r = (if rq_chunked r then pending_work me (requeued p r) else pd_output_len p)"

lemma after_pass_le:
  assumes "1 \<le> me" "pending_ok p" "slice_of p r"
  shows "after_pass me p r \<le> pending_work me p"
proof -
  have b: "resume_at p < input_len p" using resume_bounds [OF assms(2)] by simp
  show ?thesis
  proof (cases "rq_chunked r")
    case True
    have "resume_at p \<le> resume_at (requeued p r)" using resume_requeued [OF assms(3) True] assms(3) by (simp add: slice_of_def)
    then show ?thesis using True prefill_steps_mono [OF assms(1)] by (simp add: after_pass_def pending_work_def)
  next
    case False
    then show ?thesis using prefill_steps_pos [OF assms(1), of "input_len p - resume_at p"] b by (simp add: after_pass_def pending_work_def)
  qed
qed

lemma after_pass_less:
  assumes "1 \<le> me" "pending_ok p" "slice_of p r" "extend_len r = min me (input_len p - resume_at p)"
  shows "after_pass me p r < pending_work me p"
proof -
  have b: "resume_at p < input_len p" using resume_bounds [OF assms(2)] by simp
  show ?thesis
  proof (cases "rq_chunked r")
    case True
    have "extend_len r < input_len p - resume_at p" using assms(3) True by (simp add: slice_of_def extend_len_def)
    then have "extend_len r = me" using assms(4) by simp
    then show ?thesis using True resume_requeued [OF assms(3) True] prefill_steps_minus [OF assms(1), of "input_len p - resume_at p"]
      by (simp add: after_pass_def pending_work_def algebra_simps)
  next
    case False
    then show ?thesis using prefill_steps_pos [OF assms(1), of "input_len p - resume_at p"] b by (simp add: after_pass_def pending_work_def)
  qed
qed

text \<open>The first request of a pass gets the whole step budget.\<close>

lemma try_add_first:
  assumes "try_add_one p a = (Some r, a1)" "pending_ok p" "ad_token_budget a = ad_step_budget a"
  shows "extend_len r = min (ad_token_budget a) (input_len p - resume_at p)"
proof -
  have t: "0 < ad_token_budget a" using assms(1) by (auto simp: try_add_one_def split: if_splits)
  have R: "0 \<le> resume_at p" "resume_at p < input_len p" using resume_bounds [OF assms(2)] by simp_all
  show ?thesis
  proof (cases "pd_chunk p")
    case (Some c)
    then have "add_one_req p (rq_table c) (resume_at p) (rq_next_table c) (rq_handle c) True a = Some (r, a1)"
      using assms(1) t by (auto simp: try_add_one_def resume_at_def split: option.splits prod.splits)
    from add_one_req_Some(14) [OF this R t] show ?thesis by simp
  next
    case None
    obtain a2 where a2: "try_allocate_one p a = Some (pd_cached_len p, a2)"
      "add_one_req p (pd_table p) (resume_at p) (pd_next_table p) (pd_handle p) (ad_token_budget a2 = ad_step_budget a2) a2 = Some (r, a1)"
      using assms(1) t None
      by (auto simp: try_add_one_def Let_def try_allocate_one_def resume_at_def split: option.splits prod.splits if_splits)
    have b: "ad_token_budget a2 = ad_token_budget a" "ad_step_budget a2 = ad_step_budget a"
      using a2(1) by (auto simp: try_allocate_one_def split: if_splits)
    have "ad_token_budget a2 = ad_step_budget a2" "0 < ad_token_budget a2" using b assms(3) t by simp_all
    from add_one_req_Some(14) [OF a2(2) R this(2) this(1)] show ?thesis by (simp add: b)
  qed
qed

lemma admit_first:
  assumes "admit ps a = (adm, n, adms, a')" "adm \<noteq> []" "\<forall>p \<in> set ps. pending_ok p" "ad_token_budget a = ad_step_budget a"
  shows "\<exists>p \<in> set ps. rq_table (snd (hd adm)) = pd_table p \<and>
    extend_len (snd (hd adm)) = min (ad_token_budget a) (input_len p - resume_at p)"
  using assms
proof (induction ps arbitrary: a adm n adms)
  case (Cons p ps)
  obtain o1 a1 where t: "try_add_one p a = (o1, a1)" by (cases "try_add_one p a")
  have okp: "pending_ok p" using Cons.prems(3) by simp
  show ?case
  proof (cases o1)
    case None
    have a1: "a1 = a" using try_add_one_None t None by blast
    then have "admit ps a = (adm, n, adms, a')" using Cons.prems(1,2) t None by (auto split: if_splits)
    then show ?thesis using Cons.IH [of a adm n adms] Cons.prems(2-4) by auto
  next
    case (Some r)
    have h: "hd adm = (requeued p r, r)"
      using Cons.prems(1) t Some by (auto simp: Let_def requeued_def split: prod.splits)
    have "rq_table r = pd_table p" using try_add_one_Some t Some okp by (auto simp: admitted_def)
    then show ?thesis using try_add_first [OF _ okp Cons.prems(4)] t Some h by auto
  qed
qed simp


lemma prefill_first:
  assumes "prefill_batch me dm oid m = (Some b, m', oid')" "\<forall>p \<in> set (pm_pending m). pending_ok p"
  shows "\<exists>p \<in> set (pm_pending m). rq_table (hd (bt_reqs b)) = pd_table p \<and>
    extend_len (hd (bt_reqs b)) = min me (input_len p - resume_at p)"
proof -
  obtain adm n lg a where ad: "admit (pm_pending m) (init_adder me dm m oid) = (adm, n, lg, a)" by (metis prod_cases4)
  have b: "adm \<noteq> []" "bt_reqs b = map snd adm"
    using assms(1) ad by (auto simp: prefill_batch_def Let_def split: if_splits)
  have "hd (bt_reqs b) = snd (hd adm)" using b by (simp add: list.map_sel)
  then show ?thesis using admit_first [OF ad b(1) assms(2)] by (simp add: init_adder_def)
qed

lemma sum_filter_le:
  fixes f g :: "'a \<Rightarrow> int"
  assumes "\<And>x. x \<in> set xs \<Longrightarrow> P x \<Longrightarrow> f x \<le> g x" "\<And>x. x \<in> set xs \<Longrightarrow> 0 \<le> g x"
  shows "sum_list (map f (filter P xs)) \<le> sum_list (map g xs)"
  using assms
proof (induction xs)
  case (Cons x xs)
  have "sum_list (map f (filter P xs)) \<le> sum_list (map g xs)" using Cons by simp
  moreover have "P x \<Longrightarrow> f x \<le> g x" "0 \<le> g x" using Cons.prems by simp_all
  ultimately show ?case by (cases "P x") simp_all
qed simp

text \<open>What a pass leaves of the queue, with what its finished prompts still cost, is less than the
  queue before.\<close>

lemma pass_work:
  assumes pb: "prefill_batch me dm oid m = (Some b, m', oid')" and me: "1 \<le> me"
    and ok: "\<forall>p \<in> set (pm_pending m). pending_ok p" and d: "distinct (map pd_id (pm_pending m))"
    and t: "distinct (map pd_table (pm_pending m))"
  shows "sum_list (map (pending_work me) (pm_pending m')) + sum_list (map remain_len (filter (\<lambda>r. \<not> rq_chunked r) (bt_reqs b)))
    < sum_list (map (pending_work me) (pm_pending m))"
    "\<forall>r \<in> set (bt_reqs b). 0 \<le> remain_len r"
proof -
  let ?ps = "pm_pending m" and ?w = "pending_work me"
  obtain sub rs a' where s: "bt_reqs b = rs" "rs \<noteq> []"
    "pass_ok ?ps (init_adder me dm m oid) sub rs (bt_new_tokens b) a'"
    "pm_pending m' = map2 requeued (map fst (filter (\<lambda>(p, r). rq_chunked r) (zip sub rs)))
                                   (map snd (filter (\<lambda>(p, r). rq_chunked r) (zip sub rs)))
                     @ filter (\<lambda>p. p \<notin> set sub) ?ps"
    using prefill_batch_Some [OF pb ok d] by metis
  have P: "subseq sub ?ps" "list_all2 (\<lambda>p r. slice_of p r \<and> rq_table r = pd_table p) sub rs"
    using s(3) by (auto simp: pass_ok_def)
  have oks: "\<forall>p \<in> set sub. pending_ok p" using ok subseq_subset [OF P(1)] by blast
  have len: "length sub = length rs" using list_all2_lengthD [OF P(2)] .
  obtain p0 sub' r0 rs' where c: "sub = p0 # sub'" "rs = r0 # rs'" using s(2) len by (cases sub; cases rs) auto
  have rem: "remain_len r = pd_output_len p" if "pending_ok p" "slice_of p r" for p r
    using that by (simp add: slice_of_def remain_len_def pending_ok_def)
  have split: "sum_list (map ?w (map2 requeued (map fst (filter (\<lambda>(p, r). rq_chunked r) (zip xs ys))) (map snd (filter (\<lambda>(p, r). rq_chunked r) (zip xs ys)))))
      + sum_list (map remain_len (filter (\<lambda>r. \<not> rq_chunked r) ys)) = sum_list (map (\<lambda>(p, r). after_pass me p r) (zip xs ys))"
    if "list_all2 (\<lambda>p r. slice_of p r \<and> rq_table r = pd_table p) xs ys" "\<forall>p \<in> set xs. pending_ok p" for xs ys
    using that by (induction rule: list_all2_induct) (auto simp: after_pass_def rem)
  have le: "sum_list (map (\<lambda>(p, r). after_pass me p r) (zip xs ys)) \<le> sum_list (map ?w xs)"
    if "list_all2 (\<lambda>p r. slice_of p r \<and> rq_table r = pd_table p) xs ys" "\<forall>p \<in> set xs. pending_ok p" for xs ys
    using that by (induction rule: list_all2_induct) (auto intro!: add_mono after_pass_le [OF me])
  have "after_pass me p0 r0 < ?w p0"
  proof (rule after_pass_less [OF me])
    show p0: "pending_ok p0" "slice_of p0 r0" using oks P(2) c by auto
    obtain p where p: "p \<in> set ?ps" "rq_table r0 = pd_table p" "extend_len r0 = min me (input_len p - resume_at p)"
      using prefill_first [OF pb ok] by (auto simp: s(1) c)
    have "p0 \<in> set ?ps" "pd_table p0 = pd_table p" using subseq_subset [OF P(1)] P(2) c p(2) by auto
    then have "p = p0" using t p(1) by (auto simp: distinct_map inj_on_def)
    then show "extend_len r0 = min me (input_len p0 - resume_at p0)" using p(3) by simp
  qed
  moreover have "sum_list (map (\<lambda>(p, r). after_pass me p r) (zip sub' rs')) \<le> sum_list (map ?w sub')"
    by (rule le) (use P(2) oks c in auto)
  ultimately have lt: "sum_list (map (\<lambda>(p, r). after_pass me p r) (zip sub rs)) < sum_list (map ?w sub)" by (simp add: c)
  have dps: "distinct ?ps" using d by (simp add: distinct_map)
  have "filter (\<lambda>p. p \<in> set sub) ?ps = sub" using subseq_filter_mem [OF P(1) dps] .
  then have "mset ?ps = mset sub + mset (filter (\<lambda>p. p \<notin> set sub) ?ps)" by (metis (no_types) mset_filter multiset_partition)
  then have "sum_mset (image_mset ?w (mset ?ps)) = sum_mset (image_mset ?w (mset sub)) + sum_mset (image_mset ?w (mset (filter (\<lambda>p. p \<notin> set sub) ?ps)))"
    by (metis image_mset_union sum_mset.union)
  then have "sum_list (map ?w ?ps) = sum_list (map ?w sub) + sum_list (map ?w (filter (\<lambda>p. p \<notin> set sub) ?ps))"
    by (simp only: flip: sum_mset_sum_list mset_map)
  then show "sum_list (map (pending_work me) (pm_pending m')) + sum_list (map remain_len (filter (\<lambda>r. \<not> rq_chunked r) (bt_reqs b)))
    < sum_list (map (pending_work me) (pm_pending m))"
    using lt split [OF P(2) oks] unfolding s(1,4) map_append sum_list_append by linarith
  show "\<forall>r \<in> set (bt_reqs b). 0 \<le> remain_len r"
  proof
    fix r assume "r \<in> set (bt_reqs b)"
    then obtain i where i: "i < length rs" "rs ! i = r" using s(1) by (auto simp: in_set_conv_nth)
    then have "slice_of (sub ! i) r" "pending_ok (sub ! i)" using list_all2_nthD2 [OF P(2) i(1)] oks len by auto
    then show "0 \<le> remain_len r" using rem by (auto simp: pending_ok_def)
  qed
qed


section \<open>The scheduler spends\<close>

definition sched_ready :: "scheduler \<Rightarrow> bool" where
  "sched_ready s \<longleftrightarrow> sched_inv s \<and> (\<forall>r \<in> set (dm_running (sd_dm s)). can_decode r) \<and> 1 \<le> sd_max_extend s"

lemma post_sample_remain:
  "\<not> rq_chunked r \<Longrightarrow> remain_len (post_sample ph an eos ign tok r) = remain_len r - 1"
  by (simp add: remain_len_def)

lemma sched_complete_keeps [simp]:
  "sd_max_extend (sched_complete reqs s) = sd_max_extend s" "sd_pm (sched_complete reqs s) = sd_pm s"
  by (simp_all add: sched_complete_def Let_def)

lemma sched_step_ready:
  assumes R: "sched_ready s"
  shows "sched_ready (sched_step a e i t s)" "fst (sched_schedule s) \<noteq> None \<Longrightarrow> sched_work (sched_step a e i t s) < sched_work s"
    "0 \<le> sched_work s"
proof -
  have I: "sched_inv s" "\<forall>r \<in> set (dm_running (sd_dm s)). can_decode r" "1 \<le> sd_max_extend s" using R by (auto simp: sched_ready_def)
  have S: "\<forall>p \<in> set (pm_pending (sd_pm s)). pending_ok p" "distinct (map pd_id (pm_pending (sd_pm s)))"
    "distinct (map pd_table (pm_pending (sd_pm s)))" "\<forall>r \<in> set (dm_running (sd_dm s)). \<not> rq_chunked r"
    using I(1) sched_rows_distinct(1) [OF I(1)] by (auto simp: sched_inv_def)
  let ?run = "dm_running (sd_dm s)"
  have rp: "0 \<le> remain_len r" if "r \<in> set ?run" for r using I(2) that by (auto simp: can_decode_def split: if_splits)
  have pp: "0 \<le> pending_work (sd_max_extend s) p" if "p \<in> set (pm_pending (sd_pm s))" for p
  proof -
    have "pending_ok p" using S(1) that by blast
    then show ?thesis using resume_bounds [of p] prefill_steps_pos [OF I(3), of "input_len p - resume_at p"]
      by (simp add: pending_work_def pending_ok_def)
  qed
  show "0 \<le> sched_work s" unfolding sched_work_def using rp pp by (intro add_nonneg_nonneg sum_list_nonneg) auto
  obtain ob pm oid where pb: "prefill_batch (sd_max_extend s) (sd_dm s) (sd_next_oid s) (sd_pm s) = (ob, pm, oid)"
    by (metis prod_cases3)
  have inv': "sched_inv (sched_step a e i t s)" by (rule sched_step_inv [OF I(1)])
  have "sched_ready (sched_step a e i t s) \<and> (fst (sched_schedule s) \<noteq> None \<longrightarrow> sched_work (sched_step a e i t s) < sched_work s)"
  proof (cases ob)
    case (Some b)
    have ph: "bt_phase b = Prefill" using pb Some by (auto simp: prefill_batch_def Let_def split: if_splits prod.splits)
    let ?g = "post_sample Prefill a e i t" and ?N = "filter (\<lambda>r. \<not> rq_chunked r) (bt_reqs b)"
    have st: "sched_step a e i t s = sched_complete (map ?g (bt_reqs b)) (s\<lparr>sd_pm := pm, sd_next_oid := oid\<rparr>)"
      using pb Some ph by (simp add: sched_step_def sched_schedule_def)
    note C = prefill_complete_running [OF I(1) pb [unfolded Some] post_sample_exec_ok, of Prefill a e i t]
    have "filter can_decode ?run = ?run" using I(2) by (simp add: filter_id_conv)
    then have run': "dm_running (sd_dm (sched_step a e i t s)) = ?run @ map ?g (filter (\<lambda>r. can_decode (?g r)) ?N)"
      using C(1) by (simp add: st del: filter_filter)
    note W = pass_work [OF pb [unfolded Some] I(3) S(1-3)]
    have "sum_list (map (\<lambda>r. remain_len (?g r)) (filter (\<lambda>r. can_decode (?g r)) ?N)) \<le> sum_list (map remain_len ?N)"
      by (rule sum_filter_le) (use W(2) in \<open>auto simp: post_sample_remain\<close>)
    then have "sum_list (map remain_len (map ?g (filter (\<lambda>r. can_decode (?g r)) ?N))) \<le> sum_list (map remain_len ?N)"
      by (simp add: comp_def del: filter_filter)
    then have "sched_work (sched_step a e i t s) < sched_work s"
      using W(1) unfolding sched_work_def run' by (simp add: st del: filter_filter)
    moreover have "\<forall>r \<in> set (dm_running (sd_dm (sched_step a e i t s))). can_decode r" unfolding run' using I(2) by auto
    moreover have "sd_max_extend (sched_step a e i t s) = sd_max_extend s" by (simp add: st)
    ultimately show ?thesis using inv' I(3) by (simp add: sched_ready_def)
  next
    case None
    have k: "pm = sd_pm s" "sd_next_oid s \<le> oid" using prefill_none pb None by auto
    let ?s1 = "s\<lparr>sd_pm := pm, sd_next_oid := oid\<rparr>"
    have i1: "sched_inv ?s1" using I(1) k by (auto simp: sched_inv_def)
    show ?thesis
    proof (cases "decode_batch (sd_dm s)")
      case None
      then have "sched_step a e i t s = ?s1" "fst (sched_schedule s) = None"
        using pb \<open>ob = None\<close> by (simp_all add: sched_step_def sched_schedule_def)
      then show ?thesis using i1 I by (simp add: sched_ready_def)
    next
      case (Some b)
      have ph: "bt_phase b = Decode" and ne: "?run \<noteq> []" using Some by (auto simp: decode_batch_def split: if_splits)
      let ?g = "post_sample Decode a e i t"
      have b1: "decode_batch (sd_dm ?s1) = Some b" using Some by simp
      have st: "sched_step a e i t s = sched_complete (map ?g (bt_reqs b)) ?s1"
        using pb \<open>ob = None\<close> Some ph by (simp add: sched_step_def sched_schedule_def)
      have run': "dm_running (sd_dm (sched_step a e i t s)) = map ?g (filter (\<lambda>r. can_decode (?g r)) ?run)"
        using decode_complete_running(1) [OF i1 b1 post_sample_exec_ok, of Decode a e i t] by (simp add: st filter_map comp_def)
      have "sum_list (map (\<lambda>r. remain_len (?g r)) (filter (\<lambda>r. can_decode (?g r)) ?run)) \<le> sum_list (map (\<lambda>r. remain_len r - 1) ?run)"
        by (rule sum_filter_le) (use S(4) I(2) in \<open>auto simp: post_sample_remain can_decode_def\<close>)
      also have "\<dots> < sum_list (map remain_len ?run)"
      proof -
        have "sum_list (map (\<lambda>r. remain_len r - 1) xs) = sum_list (map remain_len xs) - int (length xs)" for xs
          by (induction xs) simp_all
        then show ?thesis using ne by simp
      qed
      finally have "sched_work (sched_step a e i t s) < sched_work s"
        unfolding sched_work_def run' by (simp add: st k(1) comp_def)
      moreover have "\<forall>r \<in> set (dm_running (sd_dm (sched_step a e i t s))). can_decode r" unfolding run' by auto
      moreover have "sd_max_extend (sched_step a e i t s) = sd_max_extend s" by (simp add: st)
      ultimately show ?thesis using inv' I(3) by (simp add: sched_ready_def)
    qed
  qed
  then show "sched_ready (sched_step a e i t s)" "fst (sched_schedule s) \<noteq> None \<Longrightarrow> sched_work (sched_step a e i t s) < sched_work s"
    by blast+
qed

interpretation sw: spending sched_ready "\<lambda>s. fst (sched_schedule s) \<noteq> None" "\<lambda>s. nat (sched_work s)"
  "\<lambda>s s'. \<exists>a e i t. s' = sched_step a e i t s"
proof (unfold_locales, goal_cases)
  case (1 s s')
  then show ?case using sched_step_ready(1) by blast
next
  case (2 s s')
  then obtain a e i t where s': "s' = sched_step a e i t s" by blast
  have "sched_work s' < sched_work s" unfolding s' using 2 by (intro sched_step_ready(2))
  moreover have "0 \<le> sched_work s'" unfolding s' using 2 by (intro sched_step_ready)
  ultimately show ?case by (simp add: nat_less_eq_zless)
qed


section \<open>The engine's step is the scheduler's\<close>

lemma track_full_sched: "track_full ph tok r e = Inr e' \<Longrightarrow> en_sched e' = en_sched e \<and> en_lin e' = en_lin e \<and> en_anchor_id e' = en_anchor_id e"
  by (auto simp: track_full_def split: if_splits phase.splits option.splits)

lemma post_one_sched:
  assumes "post_one ph eos ign tok r e = Inr (r', e')" "en_lin e = None"
  shows "r' = post_sample ph (en_anchor_id e) eos ign tok r" "en_sched e' = en_sched e" "en_lin e' = None" "en_anchor_id e' = en_anchor_id e"
  using assms track_full_sched
  by (fastforce simp: post_one_def post_sample_def Let_def track_anchor_def bind_res_def split: if_splits sum.splits)+

lemma post_batch_sched:
  assumes "post_batch ph eos ign tok rs e = Inr (rs', e')" "en_lin e = None"
  shows "rs' = map (post_sample ph (en_anchor_id e) eos ign tok) rs \<and> en_sched e' = en_sched e"
  using assms
proof (induction rs arbitrary: e rs')
  case (Cons r rs)
  obtain r1 e1 rs1 where o: "post_one ph eos ign tok r e = Inr (r1, e1)" "post_batch ph eos ign tok rs e1 = Inr (rs1, e')" "rs' = r1 # rs1"
    using Cons.prems(1) by (auto simp: bind_res_def split: sum.splits)
  note P = post_one_sched [OF o(1) Cons.prems(2)]
  show ?case using Cons.IH [OF o(2) P(3)] P o(3) by simp
qed simp

lemma commit_one_sched: "commit_one clk r e = Inr e' \<Longrightarrow> en_sched e' = en_sched e"
  by (auto simp: commit_one_def commit_slots_def bind_res_def Let_def split: option.splits sum.splits if_splits prod.splits)

lemma commit_all_sched: "commit_all clk rs e = Inr e' \<Longrightarrow> en_sched e' = en_sched e"
  by (induction rs arbitrary: e) (auto simp: bind_res_def commit_one_sched split: sum.splits)

lemma engine_step_sched:
  assumes "engine_step clk eos ign tok e = Inr (out, e')" "en_lin e = None"
  shows "en_sched e' = sched_step (en_anchor_id e) eos ign tok (en_sched e)"
    "out = None \<longleftrightarrow> fst (sched_schedule (en_sched e)) = None"
proof -
  obtain ob s where sc: "sched_schedule (en_sched e) = (ob, s)" by (cases "sched_schedule (en_sched e)")
  have "en_sched e' = sched_step (en_anchor_id e) eos ign tok (en_sched e) \<and> (out = None \<longleftrightarrow> fst (sched_schedule (en_sched e)) = None)"
  proof (cases ob)
    case None
    then show ?thesis using assms sc by (auto simp: engine_step_def sched_step_def)
  next
    case (Some b)
    have rb: "restore_batch (bt_reqs b) (e\<lparr>en_sched := s\<rparr>) = Inr (bt_reqs b, e\<lparr>en_sched := s\<rparr>)"
      using assms(2) by (simp add: restore_batch_def)
    obtain reqs e2 e3 where o: "post_batch (bt_phase b) eos ign tok (bt_reqs b) (e\<lparr>en_sched := s\<rparr>) = Inr (reqs, e2)"
      "commit_all clk (filter (\<lambda>r. \<not> rq_chunked r \<and> rq_aborted r) reqs) e2 = Inr e3" "e' = complete_step reqs e3" "out \<noteq> None"
      using assms(1) sc Some rb by (auto simp: engine_step_def bind_res_def Let_def split: sum.splits)
    have "reqs = map (post_sample (bt_phase b) (en_anchor_id e) eos ign tok) (bt_reqs b) \<and> en_sched e2 = s"
      using post_batch_sched [OF o(1)] assms(2) by simp
    then show ?thesis using commit_all_sched [OF o(2)] o(3,4) sc Some by (simp add: sched_step_def)
  qed
  then show "en_sched e' = sched_step (en_anchor_id e) eos ign tok (en_sched e)"
    "out = None \<longleftrightarrow> fst (sched_schedule (en_sched e)) = None" by blast+
qed

end
