(* ===== verification/Engine_Generate.thy ===== *)
theory Engine_Generate
  imports Scheduler_Drain
begin

text \<open>
  The engine comes to rest: stepped in any way it runs out of batches within the number of steps
  its queue is worth, and \<open>generate\<close> with its default budget completes every queued request.
\<close>

section \<open>Rest means empty\<close>

definition queue_fits :: "scheduler \<Rightarrow> bool" where
  "queue_fits s \<longleftrightarrow> 1 \<le> pm_max_running (sd_pm s) \<and>
     (\<forall>p \<in> set (pm_pending (sd_pm s)). footprint p \<le> pm_cache_budget (sd_pm s))"

lemma first_admitted:
  assumes "pending_ok p" "1 \<le> me" "dm_running dm = []" "footprint p \<le> pm_cache_budget m" "1 \<le> pm_max_running m"
  shows "fst (try_add_one p (init_adder me dm m oid)) \<noteq> None"
proof -
  have R: "0 \<le> resume_at p" "resume_at p < input_len p" using resume_bounds [OF assms(1)] by simp_all
  have one: "add_one_req p tb (resume_at p) nt h True a \<noteq> None" if "0 < ad_token_budget a" for tb nt h a
    using that R by (simp add: add_one_req_def Let_def)
  show ?thesis
  proof (cases "pd_chunk p")
    case (Some c)
    then show ?thesis using one [of "init_adder me dm m oid" "rq_table c" "rq_next_table c" "rq_handle c"] assms(2)
      by (auto simp: try_add_one_def resume_at_def init_adder_def split: option.splits)
  next
    case None
    let ?a = "init_adder me dm m oid"
    let ?a1 = "?a\<lparr>ad_reserved := ad_reserved ?a + footprint p, ad_running := ad_running ?a + 1\<rparr>"
    have al: "try_allocate_one p ?a = Some (resume_at p, ?a1)"
      using assms(3-5) None by (simp add: try_allocate_one_def init_adder_def inflight_tokens_def resume_at_def)
    obtain r a2 where o: "add_one_req p (pd_table p) (resume_at p) (pd_next_table p) (pd_handle p) True ?a1 = Some (r, a2)"
      using one [of ?a1 "pd_table p" "pd_next_table p" "pd_handle p"] assms(2) by (auto simp: init_adder_def)
    have "ad_token_budget ?a1 = ad_step_budget ?a1" "\<not> ad_token_budget ?a \<le> 0" using assms(2) by (simp_all add: init_adder_def)
    then show ?thesis using al o None by (simp add: try_add_one_def)
  qed
qed

lemma rest_empty:
  assumes R: "sched_ready s" and F: "queue_fits s" and none: "fst (sched_schedule s) = None"
  shows "pm_pending (sd_pm s) = []" "dm_running (sd_dm s) = []"
proof -
  obtain pm oid where pb: "prefill_batch (sd_max_extend s) (sd_dm s) (sd_next_oid s) (sd_pm s) = (None, pm, oid)" "decode_batch (sd_dm s) = None"
    using none by (auto simp: sched_schedule_def Let_def split: prod.splits option.splits)
  show run: "dm_running (sd_dm s) = []" using pb(2) by (auto simp: decode_batch_def split: if_splits)
  show "pm_pending (sd_pm s) = []"
  proof (cases "pm_pending (sd_pm s)")
    case (Cons p ps)
    have "pending_ok p" using R Cons by (auto simp: sched_ready_def sched_inv_def)
    then have "fst (try_add_one p (init_adder (sd_max_extend s) (sd_dm s) (sd_pm s) (sd_next_oid s))) \<noteq> None"
      by (rule first_admitted) (use R F run Cons in \<open>auto simp: sched_ready_def queue_fits_def\<close>)
    then have "fst (admit (p # ps) (init_adder (sd_max_extend s) (sd_dm s) (sd_pm s) (sd_next_oid s))) \<noteq> []"
      by (auto simp: Let_def split: prod.splits option.splits)
    then show ?thesis using pb(1) Cons by (auto simp: prefill_batch_def Let_def split: prod.splits if_splits)
  qed
qed

lemma sched_step_fits:
  assumes I: "sched_inv s" and F: "queue_fits s"
  shows "queue_fits (sched_step a e i t s)"
proof -
  obtain ob pm oid where pb: "prefill_batch (sd_max_extend s) (sd_dm s) (sd_next_oid s) (sd_pm s) = (ob, pm, oid)"
    by (metis prod_cases3)
  have p1: "sd_pm (sched_step a e i t s) = pm" using pb by (auto simp: sched_step_def sched_schedule_def Let_def split: option.splits)
  have p2: "pm_max_running pm = pm_max_running (sd_pm s)" "pm_cache_budget pm = pm_cache_budget (sd_pm s)"
    using pb by (auto simp: prefill_batch_def Let_def split: if_splits prod.splits)
  have p3: "\<exists>p \<in> set (pm_pending (sd_pm s)). footprint p' = footprint p" if "p' \<in> set (pm_pending pm)" for p'
  proof (cases ob)
    case None
    then have "pm = sd_pm s" using prefill_none pb by blast
    then show ?thesis using that by blast
  next
    case (Some b)
    have ok: "\<forall>p \<in> set (pm_pending (sd_pm s)). pending_ok p" "distinct (map pd_id (pm_pending (sd_pm s)))"
      using I by (auto simp: sched_inv_def)
    have fp: "footprint (requeued p r) = footprint p" for p r by (simp add: footprint_def)
    from bspec [OF prefill_members(1) [OF pb [unfolded Some] ok] that] obtain p where
      "p \<in> set (pm_pending (sd_pm s))" "p' = p \<or> (\<exists>r. p' = requeued p r \<and> slice_of p r)" by (rule bexE)
    then show ?thesis using fp by (intro bexI [of _ p]) auto
  qed
  have "footprint p \<le> pm_cache_budget (sd_pm s)" if p: "p \<in> set (pm_pending pm)" for p
  proof -
    obtain q where "q \<in> set (pm_pending (sd_pm s))" "footprint p = footprint q" using p3 [OF p] by blast
    then show ?thesis using F by (simp add: queue_fits_def)
  qed
  then show ?thesis using F by (simp add: queue_fits_def p1 p2)
qed

lemma eng_ready: "eng_run e \<Longrightarrow> 1 \<le> sd_max_extend (en_sched e) \<Longrightarrow> sched_ready (en_sched e)"
  using eng_run_inv [of e] by (simp add: sched_ready_def eng_inv_def)

lemma eng_lin: "eng_run e \<Longrightarrow> en_lin e = None"
  using eng_run_inv by (auto simp: eng_inv_def)


text \<open>C11. Termination. However the engine is stepped, with any sampled tokens, it runs out of
  batches within the number of steps its queue is worth.\<close>

theorem engine_comes_to_rest:
  assumes "eng_run (f 0)" "1 \<le> sd_max_extend (en_sched (f 0))"
    and "\<forall>k. \<exists>clk eos ign tok out. engine_step clk eos ign tok (f k) = Inr (out, f (Suc k))"
  shows "\<exists>k. int k \<le> sched_work (en_sched (f 0)) \<and> fst (sched_schedule (en_sched (f k))) = None"
proof -
  have run: "eng_run (f k)" for k
    using assms(1,3) by (induction k) (auto intro: eng_run.step)
  have step: "\<exists>a e i t. en_sched (f (Suc k)) = sched_step a e i t (en_sched (f k))" for k
    using assms(3) engine_step_sched(1) eng_lin [OF run] by meson
  obtain k where k: "k \<le> nat (sched_work (en_sched (f 0)))" "fst (sched_schedule (en_sched (f k))) = None"
    using sw.rests [of "\<lambda>k. en_sched (f k)", OF eng_ready [OF assms(1,2)] step] by auto
  have "0 \<le> sched_work (en_sched (f 0))" by (rule sched_step_ready(3) [OF eng_ready [OF assms(1,2)]])
  then show ?thesis using k by (intro exI [of _ k]) auto
qed

section \<open>\<open>generate\<close>\<close>

lemma work_le_budget:
  assumes "sched_ready s" "dm_running (sd_dm s) = []"
  shows "sched_work s \<le> generate_budget s"
proof -
  have me: "1 \<le> sd_max_extend s" using assms by (simp add: sched_ready_def)
  have "pending_work (sd_max_extend s) p \<le> - ((- input_len p) div max 1 (sd_max_extend s)) + pd_output_len p"
    if "p \<in> set (pm_pending (sd_pm s))" for p
  proof -
    have "pending_ok p" using assms(1) that by (auto simp: sched_ready_def sched_inv_def)
    then have "input_len p - resume_at p \<le> input_len p" using resume_bounds by fastforce
    from prefill_steps_mono [OF me this] show ?thesis using me by (simp add: pending_work_def prefill_steps_def)
  qed
  then have "sum_list (map (pending_work (sd_max_extend s)) (pm_pending (sd_pm s)))
    \<le> sum_list (map (\<lambda>p. - ((- input_len p) div max 1 (sd_max_extend s)) + pd_output_len p) (pm_pending (sd_pm s)))"
    by (intro sum_list_mono)
  then show ?thesis by (simp add: sched_work_def generate_budget_def assms(2))
qed

lemma gen_loop_done:
  assumes "eng_run e" "sched_ready (en_sched e)" "queue_fits (en_sched e)" "sched_work (en_sched e) \<le> int fuel"
  obtains d' e' where "gen_loop fuel k clk eos ign toks d e = Inr (d', e')" "eng_run e'" "live_rows e' = []"
proof -
  have "\<exists>d' e'. gen_loop fuel k clk eos ign toks d e = Inr (d', e') \<and> eng_run e' \<and> live_rows e' = []"
    using assms
  proof (induction fuel arbitrary: k d e)
    case 0
    have "fst (sched_schedule (en_sched e)) = None"
    proof (rule ccontr)
      assume "fst (sched_schedule (en_sched e)) \<noteq> None"
      from sched_step_ready(2) [OF 0(2) this, of None None "\<lambda>_. True" "\<lambda>_. 0"]
      have "sched_work (sched_step None None (\<lambda>_. True) (\<lambda>_. 0) (en_sched e)) < 0" using 0(4) by simp
      then show False using sched_step_ready(3) [OF sched_step_ready(1) [OF 0(2)]] by (meson not_less)
    qed
    from rest_empty [OF 0(2,3) this] show ?case using 0(1) by (simp add: live_rows_def)
  next
    case (Suc fuel)
    obtain out e1 where s: "engine_step (clk k) eos ign (toks k) e = Inr (out, e1)"
      using engine_step_core [OF eng_run_inv [OF Suc.prems(1)]] by metis
    note S = engine_step_sched [OF s eng_lin [OF Suc.prems(1)]]
    have r1: "eng_run e1" by (rule eng_run.step [OF Suc.prems(1) s])
    have ready1: "sched_ready (en_sched e1)" unfolding S(1) by (rule sched_step_ready(1) [OF Suc.prems(2)])
    have fits1: "queue_fits (en_sched e1)" unfolding S(1)
      by (rule sched_step_fits) (use Suc.prems(2,3) in \<open>simp_all add: sched_ready_def\<close>)
    show ?case
    proof (cases out)
      case None
      then have n: "fst (sched_schedule (en_sched e)) = None" using S(2) by simp
      then obtain s2 where s2: "sched_schedule (en_sched e) = (None, s2)" by (cases "sched_schedule (en_sched e)") auto
      have e1: "e1 = e\<lparr>en_sched := s2\<rparr>" using s None s2 by (simp add: engine_step_def)
      have "sd_dm s2 = sd_dm (en_sched e)" "sd_pm s2 = sd_pm (en_sched e)"
        using s2 prefill_none by (auto simp: sched_schedule_def Let_def split: prod.splits option.splits)
      then have "live_rows e1 = []" using rest_empty [OF Suc.prems(2,3) n] by (simp add: live_rows_def e1)
      then show ?thesis using s None r1 by simp
    next
      case (Some x)
      obtain b y where x: "x = (b, y)" by (cases x)
      have "fst (sched_schedule (en_sched e)) \<noteq> None" using S(2) Some by simp
      then have "sched_work (en_sched e1) < sched_work (en_sched e)" unfolding S(1) by (rule sched_step_ready(2) [OF Suc.prems(2)])
      then have "sched_work (en_sched e1) \<le> int fuel" using Suc.prems(4) by simp
      from Suc.IH [OF r1 ready1 fits1 this] show ?thesis using s Some x by auto
    qed
  qed
  then show ?thesis using that by blast
qed



theorem engine_comes_to_rest_witness:
  "\<exists>f. f 0 = demo_1 \<and> (\<exists>k. int k \<le> 3 \<and> fst (sched_schedule (en_sched (f k))) = None)"
proof -
  let ?f = "rec_nat demo_1 (\<lambda>_. demo_step)"
  have run: "eng_run (?f k)" for k
    by (induction k) (use demo_runs(1) in \<open>auto simp: demo_step_def intro: eng_run.step split: sum.splits prod.splits\<close>)
  have step: "\<forall>k. \<exists>clk eos ign tok out. engine_step clk eos ign tok (?f k) = Inr (out, ?f (Suc k))"
  proof
    fix k
    obtain out e' where s: "engine_step (\<lambda>_. (1, 2)) None (\<lambda>_. True) (\<lambda>r. 3 + rq_device_len r) (?f k) = Inr (out, e')"
      using engine_step_core [OF eng_run_inv [OF run]] by metis
    then have "?f (Suc k) = e'" by (simp add: demo_step_def)
    then show "\<exists>clk eos ign tok out. engine_step clk eos ign tok (?f k) = Inr (out, ?f (Suc k))" using s by blast
  qed
  have w: "sched_work (en_sched demo_1) = 3" "1 \<le> sd_max_extend (en_sched demo_1)" by code_simp+
  show ?thesis using engine_comes_to_rest [of ?f, OF _ _ step] demo_runs(1) w by (intro exI [of _ ?f]) simp
qed


end
