(* ===== verification/Cache_Budget.thy ===== *)
theory Cache_Budget
  imports Complex_Main Slot_Pools
begin

text \<open>
  \<open>engine/cache_budget.py\<close> and the sizing code of \<open>engine/engine.py\<close> that calls it: how the
  device's memory is split between the MoE expert slots and the paged KV pool, and how many
  pages the pool gets. Sizes are Python integers. A Python float is a real and the rounding
  of a float operation is the parameter \<open>rnd\<close>; no theorem but the witnesses fixes it.
\<close>

section \<open>\<open>engine/cache_budget.py\<close>\<close>

record cache_budget =
  cb_budget_bytes :: int
  cb_moe_cache_bytes :: int
  cb_kv_bytes :: int
  cb_moe_cache_size :: int
  cb_kv_num_pages :: int
  cb_kv_is_floored :: bool

text \<open>\<open>int(n * f)\<close> for an integer \<open>n\<close> and a float \<open>f\<close>: \<open>n\<close> is converted, the product
  rounded, the fraction dropped.\<close>

definition py_int :: "real \<Rightarrow> int" where
  "py_int x = (if x < 0 then \<lceil>x\<rceil> else \<lfloor>x\<rfloor>)"

definition int_scaled :: "(real \<Rightarrow> real) \<Rightarrow> int \<Rightarrow> real \<Rightarrow> int" where
  "int_scaled rnd n f = py_int (rnd (rnd (real_of_int n) * f))"

definition bytes_per_expert_slot :: "int \<Rightarrow> int \<Rightarrow> int \<Rightarrow> int \<Rightarrow> int res" where
  "bytes_per_expert_slot num_experts moe_intermediate hidden dtype_bytes =
     (if moe_intermediate \<le> 0 \<or> hidden \<le> 0 \<or> dtype_bytes \<le> 0 then Inl ValueError
      else Inr ((2 * moe_intermediate * hidden + hidden * moe_intermediate) * dtype_bytes))"

definition bytes_per_kv_token :: "int \<Rightarrow> int \<Rightarrow> int \<Rightarrow> int \<Rightarrow> int res" where
  "bytes_per_kv_token num_layers num_kv_heads head_dim dtype_bytes =
     (if num_layers \<le> 0 \<or> num_kv_heads \<le> 0 \<or> head_dim \<le> 0 \<or> dtype_bytes \<le> 0 then Inl ValueError
      else Inr (2 * num_layers * num_kv_heads * head_dim * dtype_bytes))"

definition slot_bytes :: "int option \<Rightarrow> int \<Rightarrow> int \<Rightarrow> int \<Rightarrow> int \<Rightarrow> int res" where
  "slot_bytes override num_experts moe_intermediate hidden dtype_bytes =
     (case override of
        Some b \<Rightarrow> if b \<le> 0 then Inl ValueError else Inr b
      | None \<Rightarrow> bytes_per_expert_slot num_experts moe_intermediate hidden dtype_bytes)"

text \<open>The keyword arguments of \<open>plan_cache_budget\<close>.\<close>

record plan_args =
  pa_total_vram :: int
  pa_memory_ratio :: real
  pa_kv_reserve :: int
  pa_num_experts :: int
  pa_moe_intermediate :: int
  pa_hidden :: int
  pa_num_moe_layers :: int
  pa_num_layers :: int
  pa_num_kv_heads :: int
  pa_head_dim :: int
  pa_dtype_bytes :: int
  pa_min_moe :: "int option"
  pa_moe_fraction :: "real option"
  pa_slot_override :: "int option"

definition min_slots :: "plan_args \<Rightarrow> int" where
  "min_slots a = (case pa_min_moe a of Some m \<Rightarrow> m | None \<Rightarrow> pa_num_experts a)"

definition plan_args_ok :: "plan_args \<Rightarrow> bool" where
  "plan_args_ok a \<longleftrightarrow>
     \<not> (pa_memory_ratio a \<le> 0 \<or> pa_memory_ratio a > 1) \<and> \<not> pa_total_vram a \<le> 0 \<and>
     \<not> pa_kv_reserve a \<le> 0 \<and> \<not> (pa_num_experts a \<le> 0 \<or> pa_num_moe_layers a \<le> 0) \<and>
     (case pa_moe_fraction a of None \<Rightarrow> True | Some f \<Rightarrow> \<not> (f \<le> 0 \<or> f > 1))"

definition split_budget :: "(real \<Rightarrow> real) \<Rightarrow> plan_args \<Rightarrow> int \<Rightarrow> int \<Rightarrow> int \<Rightarrow> cache_budget res" where
  "split_budget rnd a budget per_slot per_token =
     (let kv_floor = pa_kv_reserve a * per_token;
          slots = min_slots a
      in if budget < kv_floor + slots * per_slot then Inl ValueError
         else
           let available = budget - kv_floor;
               available = (case pa_moe_fraction a of
                  None \<Rightarrow> available
                | Some f \<Rightarrow> min available (int_scaled rnd budget f));
               size = max slots (available div per_slot);
               moe_bytes = size * per_slot;
               kv_bytes = budget - moe_bytes;
               pages = max (pa_kv_reserve a) (kv_bytes div per_token)
           in Inr \<lparr> cb_budget_bytes = budget, cb_moe_cache_bytes = moe_bytes, cb_kv_bytes = kv_bytes,
                    cb_moe_cache_size = size, cb_kv_num_pages = pages,
                    cb_kv_is_floored = (pages = pa_kv_reserve a) \<rparr>)"

definition plan_cache_budget :: "(real \<Rightarrow> real) \<Rightarrow> plan_args \<Rightarrow> cache_budget res" where
  "plan_cache_budget rnd a =
     (if \<not> plan_args_ok a then Inl ValueError
      else
        let budget = int_scaled rnd (pa_total_vram a) (pa_memory_ratio a)
        in bind_res (slot_bytes (pa_slot_override a) (pa_num_experts a) (pa_moe_intermediate a)
                       (pa_hidden a) (pa_dtype_bytes a)) (\<lambda>per_slot.
           bind_res (bytes_per_kv_token (pa_num_layers a) (pa_num_kv_heads a) (pa_head_dim a)
                       (pa_dtype_bytes a)) (\<lambda>per_token.
           if per_token \<le> 0 then Inl ValueError
           else split_budget rnd a budget per_slot per_token)))"

text \<open>The reason a cap is logged, with the numbers its message carries.\<close>

datatype cap_reason =
    AutoPlanCap int int
  | PinnedCap int int int int int int

definition resolve_served_context_len :: "int \<Rightarrow> int option \<Rightarrow> int \<times> cap_reason option" where
  "resolve_served_context_len max_seq_len planned_kv_pages =
     (case planned_kv_pages of
        None \<Rightarrow> (max_seq_len, None)
      | Some p \<Rightarrow> if p \<ge> max_seq_len then (max_seq_len, None) else (p, Some (AutoPlanCap p max_seq_len)))"

record fit_args =
  fa_total_vram :: "int option"
  fa_memory_ratio :: real
  fa_moe_cache_size :: int
  fa_num_layers :: int
  fa_num_kv_heads :: int
  fa_head_dim :: int
  fa_dtype_bytes :: int
  fa_requested :: int
  fa_moe_intermediate :: int
  fa_hidden :: int
  fa_slot_override :: "int option"
  fa_reserved :: int

definition pinned_moe_bytes :: "fit_args \<Rightarrow> int res" where
  "pinned_moe_bytes a =
     (if fa_moe_cache_size a > 0
      then bind_res (slot_bytes (fa_slot_override a) (fa_moe_cache_size a) (fa_moe_intermediate a)
                       (fa_hidden a) (fa_dtype_bytes a)) (\<lambda>b. Inr (fa_moe_cache_size a * b))
      else Inr 0)"

definition check_pinned_kv_fit :: "(real \<Rightarrow> real) \<Rightarrow> fit_args \<Rightarrow> (int \<times> cap_reason option) res" where
  "check_pinned_kv_fit rnd a =
     (case fa_total_vram a of
        None \<Rightarrow> Inr (fa_requested a, None)
      | Some vram \<Rightarrow>
          if fa_memory_ratio a \<le> 0 \<or> fa_memory_ratio a > 1 then Inl ValueError
          else if fa_requested a \<le> 0 then Inl ValueError
          else if fa_reserved a < 0 then Inl ValueError
          else
            let budget = int_scaled rnd vram (fa_memory_ratio a)
            in bind_res (pinned_moe_bytes a) (\<lambda>moe.
               bind_res (bytes_per_kv_token (fa_num_layers a) (fa_num_kv_heads a) (fa_head_dim a)
                           (fa_dtype_bytes a)) (\<lambda>per_token.
               let fit = max 0 (budget - moe) div per_token - fa_reserved a
               in if fit \<le> 0 then Inl ValueError
                  else if fit \<ge> fa_requested a then Inr (fa_requested a, None)
                  else Inr (fit, Some (PinnedCap (fa_requested a) fit budget (fa_moe_cache_size a) moe
                                         (fa_reserved a))))))"

section \<open>The split fits the budget\<close>

lemma slot_bytes_pos: "slot_bytes ov n i h d = Inr b \<Longrightarrow> b > 0"
  by (auto simp: slot_bytes_def bytes_per_expert_slot_def split: option.splits if_splits)

lemma bytes_per_kv_token_pos: "bytes_per_kv_token l k h d = Inr b \<Longrightarrow> b > 0"
  by (auto simp: bytes_per_kv_token_def split: if_splits)

lemma div_mult_le: "(b::int) > 0 \<Longrightarrow> a div b * b \<le> a"
  by (simp add: minus_mod_eq_div_mult [symmetric])

lemma lt_div_mult: "(b::int) > 0 \<Longrightarrow> a < (a div b + 1) * b"
  by (metis add.commute distrib_right less_add_one mult_1 not_le pos_mod_bound div_mult_mod_eq
      add_less_cancel_left add.assoc)

lemma split_budget_fits:
  assumes s: "split_budget rnd a budget ps pt = Inr c" and ps: "ps > 0" and pt: "pt > 0"
  shows "cb_moe_cache_bytes c = cb_moe_cache_size c * ps"
    and "cb_moe_cache_bytes c + cb_kv_bytes c = budget"
    and "cb_kv_num_pages c * pt \<le> cb_kv_bytes c"
    and "pa_kv_reserve a \<le> cb_kv_num_pages c"
    and "min_slots a \<le> cb_moe_cache_size c"
    and "cb_kv_bytes c < (cb_kv_num_pages c + 1) * pt"
proof -
  let ?av = "case pa_moe_fraction a of None \<Rightarrow> budget - pa_kv_reserve a * pt
     | Some f \<Rightarrow> min (budget - pa_kv_reserve a * pt) (int_scaled rnd budget f)"
  let ?size = "max (min_slots a) (?av div ps)"
  have fit: "pa_kv_reserve a * pt + min_slots a * ps \<le> budget"
    and c: "c = \<lparr> cb_budget_bytes = budget, cb_moe_cache_bytes = ?size * ps,
              cb_kv_bytes = budget - ?size * ps, cb_moe_cache_size = ?size,
              cb_kv_num_pages = max (pa_kv_reserve a) ((budget - ?size * ps) div pt),
              cb_kv_is_floored = (max (pa_kv_reserve a) ((budget - ?size * ps) div pt) = pa_kv_reserve a) \<rparr>"
    using s by (auto simp: split_budget_def Let_def split: if_splits)
  have "?av div ps * ps \<le> ?av" using ps by (rule div_mult_le)
  also have "?av \<le> budget - pa_kv_reserve a * pt" by (auto split: option.splits)
  finally have size: "?size * ps \<le> budget - pa_kv_reserve a * pt"
    using fit by (auto simp: max_def algebra_simps)
  then have "pa_kv_reserve a * pt \<le> budget - ?size * ps" by linarith
  then have fl: "pa_kv_reserve a \<le> (budget - ?size * ps) div pt"
    using pt zdiv_mono1 [of "pa_kv_reserve a * pt" "budget - ?size * ps" pt] by simp
  then have mx: "max (pa_kv_reserve a) ((budget - ?size * ps) div pt) = (budget - ?size * ps) div pt" by simp
  show "cb_moe_cache_bytes c = cb_moe_cache_size c * ps" "cb_moe_cache_bytes c + cb_kv_bytes c = budget"
    "min_slots a \<le> cb_moe_cache_size c" using c by simp_all
  show "pa_kv_reserve a \<le> cb_kv_num_pages c" using c by simp
  show "cb_kv_num_pages c * pt \<le> cb_kv_bytes c" unfolding c cache_budget.simps mx using pt by (rule div_mult_le)
  show "cb_kv_bytes c < (cb_kv_num_pages c + 1) * pt" unfolding c cache_budget.simps mx using pt by (rule lt_div_mult)
qed

lemma plan_cache_budget_Inr:
  "plan_cache_budget rnd a = Inr c \<longleftrightarrow>
     plan_args_ok a \<and>
     (\<exists>ps pt. slot_bytes (pa_slot_override a) (pa_num_experts a) (pa_moe_intermediate a) (pa_hidden a)
                (pa_dtype_bytes a) = Inr ps \<and>
              bytes_per_kv_token (pa_num_layers a) (pa_num_kv_heads a) (pa_head_dim a) (pa_dtype_bytes a) = Inr pt \<and>
              split_budget rnd a (int_scaled rnd (pa_total_vram a) (pa_memory_ratio a)) ps pt = Inr c)"
  by (auto simp: plan_cache_budget_def Let_def bind_res_Inr split: if_splits) (metis bytes_per_kv_token_pos not_le)

lemma split_budget_Inr:
  "(\<exists>c. split_budget rnd a budget ps pt = Inr c) \<longleftrightarrow> pa_kv_reserve a * pt + min_slots a * ps \<le> budget"
  by (auto simp: split_budget_def Let_def)

text \<open>C24. A plan never over-commits: the expert slots and the KV pages it hands out fit the
  budget of \<open>memory_ratio\<close> of the memory together, the KV pool keeps its reserve, the expert
  cache its minimum, the slots are whole, less than one page of the budget is left unused, and
  the floor flag tells whether the pool got its reserve only. The rounding of float operations
  does not matter.\<close>

theorem plan_fits_budget:
  assumes plan: "plan_cache_budget rnd a = Inr c"
  shows "\<exists>per_slot per_token.
     slot_bytes (pa_slot_override a) (pa_num_experts a) (pa_moe_intermediate a) (pa_hidden a) (pa_dtype_bytes a)
        = Inr per_slot
   \<and> bytes_per_kv_token (pa_num_layers a) (pa_num_kv_heads a) (pa_head_dim a) (pa_dtype_bytes a) = Inr per_token
   \<and> cb_budget_bytes c = int_scaled rnd (pa_total_vram a) (pa_memory_ratio a)
   \<and> cb_moe_cache_size c * per_slot + cb_kv_num_pages c * per_token \<le> cb_budget_bytes c
   \<and> cb_budget_bytes c < cb_moe_cache_size c * per_slot + (cb_kv_num_pages c + 1) * per_token
   \<and> pa_kv_reserve a \<le> cb_kv_num_pages c \<and> min_slots a \<le> cb_moe_cache_size c
   \<and> (cb_kv_is_floored c \<longleftrightarrow> cb_kv_num_pages c = pa_kv_reserve a)"
proof -
  obtain ps pt where
      sb: "slot_bytes (pa_slot_override a) (pa_num_experts a) (pa_moe_intermediate a) (pa_hidden a) (pa_dtype_bytes a) = Inr ps"
    and kb: "bytes_per_kv_token (pa_num_layers a) (pa_num_kv_heads a) (pa_head_dim a) (pa_dtype_bytes a) = Inr pt"
    and sp: "split_budget rnd a (int_scaled rnd (pa_total_vram a) (pa_memory_ratio a)) ps pt = Inr c"
    using plan by (auto simp: plan_cache_budget_Inr)
  note fits = split_budget_fits [OF sp slot_bytes_pos [OF sb] bytes_per_kv_token_pos [OF kb]]
  have "cb_budget_bytes c = int_scaled rnd (pa_total_vram a) (pa_memory_ratio a)"
    "cb_kv_is_floored c \<longleftrightarrow> cb_kv_num_pages c = pa_kv_reserve a"
    using sp by (auto simp: split_budget_def Let_def split: if_splits)
  with fits sb kb show ?thesis by (intro exI [of _ ps] exI [of _ pt]) auto
qed

definition demo_plan :: plan_args where
  "demo_plan = \<lparr>pa_total_vram = 1000, pa_memory_ratio = 9 / 10, pa_kv_reserve = 10, pa_num_experts = 4,
     pa_moe_intermediate = 2, pa_hidden = 3, pa_num_moe_layers = 2, pa_num_layers = 2, pa_num_kv_heads = 1,
     pa_head_dim = 2, pa_dtype_bytes = 2, pa_min_moe = None, pa_moe_fraction = None, pa_slot_override = None\<rparr>"

lemmas plan_eval = plan_cache_budget_def plan_args_ok_def slot_bytes_def bytes_per_expert_slot_def
  bytes_per_kv_token_def split_budget_def min_slots_def int_scaled_def py_int_def

lemma demo_plan_ok: "plan_cache_budget id demo_plan
    = Inr \<lparr> cb_budget_bytes = 900, cb_moe_cache_bytes = 720, cb_kv_bytes = 180, cb_moe_cache_size = 20,
           cb_kv_num_pages = 11, cb_kv_is_floored = False \<rparr>"
  by (simp add: plan_eval demo_plan_def)

lemma plan_fits_budget_witness:
  "\<exists>c. plan_cache_budget id demo_plan = Inr c \<and> pa_kv_reserve demo_plan \<le> cb_kv_num_pages c \<and> cb_kv_num_pages c = 11"
  using plan_fits_budget [OF demo_plan_ok] demo_plan_ok by auto

lemma budget_errors:
  "slot_bytes ov n i h d = Inl e \<Longrightarrow> e = ValueError"
  "bytes_per_kv_token l k h d = Inl e \<Longrightarrow> e = ValueError"
  "split_budget rnd a b ps pt = Inl e \<Longrightarrow> e = ValueError"
  by (simp_all add: slot_bytes_def bytes_per_expert_slot_def bytes_per_kv_token_def split_budget_def Let_def
      split: option.splits if_splits)

lemma bind_res_Inl: "bind_res r f = Inl e \<longleftrightarrow> r = Inl e \<or> (\<exists>x. r = Inr x \<and> f x = Inl e)"
  by (cases r) auto

text \<open>Planning fails exactly when an argument is out of range or the KV reserve and the
  minimum expert cache do not fit the budget together; it never fails for another reason.\<close>

theorem plan_fails_iff:
  "plan_cache_budget rnd a = Inl e \<longleftrightarrow>
     e = ValueError \<and>
     \<not> (plan_args_ok a \<and>
        (\<exists>ps pt. slot_bytes (pa_slot_override a) (pa_num_experts a) (pa_moe_intermediate a) (pa_hidden a)
                   (pa_dtype_bytes a) = Inr ps \<and>
                 bytes_per_kv_token (pa_num_layers a) (pa_num_kv_heads a) (pa_head_dim a) (pa_dtype_bytes a) = Inr pt \<and>
                 pa_kv_reserve a * pt + min_slots a * ps
                   \<le> int_scaled rnd (pa_total_vram a) (pa_memory_ratio a)))"
proof -
  have "plan_cache_budget rnd a = Inl e' \<Longrightarrow> e' = ValueError" for e'
    by (auto simp: plan_cache_budget_def bind_res_Inl Let_def split: if_splits dest: budget_errors)
  moreover have "(\<exists>c. plan_cache_budget rnd a = Inr c) \<longleftrightarrow> plan_args_ok a \<and>
        (\<exists>ps pt. slot_bytes (pa_slot_override a) (pa_num_experts a) (pa_moe_intermediate a) (pa_hidden a)
                   (pa_dtype_bytes a) = Inr ps \<and>
                 bytes_per_kv_token (pa_num_layers a) (pa_num_kv_heads a) (pa_head_dim a) (pa_dtype_bytes a) = Inr pt \<and>
                 pa_kv_reserve a * pt + min_slots a * ps
                   \<le> int_scaled rnd (pa_total_vram a) (pa_memory_ratio a))"
    by (subst split_budget_Inr [symmetric, where rnd = rnd]) (auto simp: plan_cache_budget_Inr)
  ultimately show ?thesis by (cases "plan_cache_budget rnd a") (auto)
qed

text \<open>The pinned pool is capped to what fits: with a device to measure, the returned page
  count is at least one and at most the request, fits the budget together with the pinned expert
  cache and the pages the caller adds, is the largest such count, and a reason is given exactly
  when the request was cut.\<close>

theorem pinned_fit_caps:
  assumes r: "check_pinned_kv_fit rnd a = Inr (n, why)" and v: "fa_total_vram a = Some vram"
  shows "\<exists>moe per_token.
     pinned_moe_bytes a = Inr moe
   \<and> bytes_per_kv_token (fa_num_layers a) (fa_num_kv_heads a) (fa_head_dim a) (fa_dtype_bytes a) = Inr per_token
   \<and> 0 < n \<and> n \<le> fa_requested a
   \<and> moe + (n + fa_reserved a) * per_token \<le> int_scaled rnd vram (fa_memory_ratio a)
   \<and> (n < fa_requested a \<longrightarrow>
        int_scaled rnd vram (fa_memory_ratio a) < moe + (n + 1 + fa_reserved a) * per_token)
   \<and> (why = None \<longleftrightarrow> n = fa_requested a)"
proof -
  let ?B = "int_scaled rnd vram (fa_memory_ratio a)"
  obtain moe pt where m: "pinned_moe_bytes a = Inr moe"
    and k: "bytes_per_kv_token (fa_num_layers a) (fa_num_kv_heads a) (fa_head_dim a) (fa_dtype_bytes a) = Inr pt"
    and fit: "max 0 (?B - moe) div pt - fa_reserved a > 0"
    and req: "fa_requested a > 0" "fa_reserved a \<ge> 0"
    and n: "n = min (fa_requested a) (max 0 (?B - moe) div pt - fa_reserved a)"
    and why: "why = None \<longleftrightarrow> fa_requested a \<le> max 0 (?B - moe) div pt - fa_reserved a"
    using r v by (auto simp: check_pinned_kv_fit_def bind_res_Inr Let_def split: if_splits)
  have pt: "pt > 0" using k by (rule bytes_per_kv_token_pos)
  have pos: "max 0 (?B - moe) = ?B - moe" using fit req(2) pt
    by (auto simp: max_def split: if_splits)
  define q where "q = (?B - moe) div pt"
  have q: "q * pt \<le> ?B - moe" "?B - moe < (q + 1) * pt"
    unfolding q_def using pt by (rule div_mult_le, intro lt_div_mult)
  have nq: "n + fa_reserved a \<le> q" using n unfolding pos q_def by simp
  then have "(n + fa_reserved a) * pt \<le> q * pt" using pt by (simp add: mult_right_mono)
  moreover have "n < fa_requested a \<Longrightarrow> n + fa_reserved a = q" using n unfolding pos q_def by simp
  then have "n < fa_requested a \<Longrightarrow> ?B < moe + (n + 1 + fa_reserved a) * pt"
    using q(2) by (simp add: add_ac)
  moreover have "why = None \<longleftrightarrow> n = fa_requested a" using n why by linarith
  ultimately show ?thesis using m k n q(1) fit req by (intro exI [of _ moe] exI [of _ pt]) auto
qed

definition demo_fit :: fit_args where
  "demo_fit = \<lparr>fa_total_vram = Some 1000, fa_memory_ratio = 9 / 10, fa_moe_cache_size = 20, fa_num_layers = 2,
     fa_num_kv_heads = 1, fa_head_dim = 2, fa_dtype_bytes = 2, fa_requested = 40, fa_moe_intermediate = 2,
     fa_hidden = 3, fa_slot_override = None, fa_reserved = 1\<rparr>"

lemma demo_fit_ok: "check_pinned_kv_fit id demo_fit = Inr (10, Some (PinnedCap 40 10 900 20 720 1))"
  by (simp add: check_pinned_kv_fit_def pinned_moe_bytes_def demo_fit_def plan_eval)

lemma pinned_fit_caps_witness:
  "\<exists>n why. check_pinned_kv_fit id demo_fit = Inr (n, why) \<and> 0 < n \<and> n \<le> 40 \<and> why \<noteq> None"
proof -
  have "fa_total_vram demo_fit = Some 1000" by (simp add: demo_fit_def)
  from pinned_fit_caps [OF demo_fit_ok this] show ?thesis
    using demo_fit_ok by (auto simp: demo_fit_def)
qed

section \<open>The engine's sizing\<close>

text \<open>The fields of the parsed model configuration the planner reads; an attribute that is
  missing or \<open>None\<close> is read as 0.\<close>

record model_dims =
  md_num_experts :: int
  md_num_moe_layers :: int
  md_num_layers :: int
  md_first_k_dense :: int
  md_num_kv_heads :: int
  md_head_dim :: int
  md_hidden :: int
  md_num_heads :: int
  md_moe_intermediate :: int

text \<open>The fields of \<open>EngineConfig\<close> the sizing reads.\<close>

record engine_config =
  ec_max_running :: nat
  ec_moe_cache_size :: int
  ec_moe_cache_rate :: "real option"
  ec_moe_cache_auto :: bool
  ec_kv_reserve :: int
  ec_memory_ratio :: real
  ec_page_size :: nat
  ec_enable_prefix_cache :: bool
  ec_num_page_override :: "int option"
  ec_max_seq_override :: "int option"
  ec_moe_hybrid_max_fetch :: int

definition config_post_init :: "engine_config \<Rightarrow> engine_config" where
  "config_post_init c =
     (if ec_moe_cache_size c \<noteq> 0 \<and> \<not> ec_moe_cache_auto c then c
      else if ec_moe_cache_size c \<noteq> 0 \<and> ec_moe_cache_auto c then c\<lparr>ec_moe_cache_auto := False\<rparr>
      else c)"

text \<open>\<open>EngineConfig.max_seq_len\<close>: the override, else the rotary configuration's limit, else
  the model's.\<close>

definition config_max_seq_len :: "int option \<Rightarrow> int \<Rightarrow> engine_config \<Rightarrow> int" where
  "config_max_seq_len rotary_max model_max c =
     (case ec_max_seq_override c of
        Some n \<Rightarrow> n
      | None \<Rightarrow> (case rotary_max of Some r \<Rightarrow> if r \<noteq> 0 then r else model_max | None \<Rightarrow> model_max))"

text \<open>Python's \<open>x or d\<close> on integers.\<close>

definition py_or :: "int \<Rightarrow> int \<Rightarrow> int" where
  "py_or x d = (if x \<noteq> 0 then x else d)"

definition moe_layers_of :: "model_dims \<Rightarrow> int" where
  "moe_layers_of md = py_or (md_num_moe_layers md) (md_num_layers md - md_first_k_dense md)"

definition head_dim_of :: "model_dims \<Rightarrow> int" where
  "head_dim_of md = py_or (md_head_dim md) (md_hidden md div max 1 (md_num_heads md))"

definition ratio_of :: "engine_config \<Rightarrow> real" where
  "ratio_of c = (if ec_memory_ratio c \<noteq> 0 then ec_memory_ratio c else 9 / 10)"

definition engine_plan_args :: "int \<Rightarrow> int \<Rightarrow> engine_config \<Rightarrow> model_dims \<Rightarrow> plan_args" where
  "engine_plan_args vram dtype_bytes c md =
     \<lparr>pa_total_vram = vram, pa_memory_ratio = ratio_of c, pa_kv_reserve = py_or (ec_kv_reserve c) 8192,
      pa_num_experts = md_num_experts md, pa_moe_intermediate = md_moe_intermediate md,
      pa_hidden = md_hidden md, pa_num_moe_layers = moe_layers_of md, pa_num_layers = md_num_layers md,
      pa_num_kv_heads = md_num_kv_heads md, pa_head_dim = head_dim_of md,
      pa_dtype_bytes = py_or dtype_bytes 2, pa_min_moe = None,
      pa_moe_fraction = (case ec_moe_cache_rate c of Some f \<Rightarrow> if f \<noteq> 0 then Some f else None | None \<Rightarrow> None),
      pa_slot_override = None\<rparr>"

text \<open>\<open>Engine._plan_cache_budget\<close>; \<open>vram\<close> is \<open>xpu_total_memory()\<close>.\<close>

definition plan_cache ::
  "(real \<Rightarrow> real) \<Rightarrow> int option \<Rightarrow> int \<Rightarrow> engine_config \<Rightarrow> model_dims \<Rightarrow> (int option \<times> int option) res" where
  "plan_cache rnd vram dtype_bytes c md =
     (if \<not> ec_moe_cache_auto c
      then Inr (if ec_moe_cache_size c \<noteq> 0 then Some (ec_moe_cache_size c) else None, None)
      else case vram of
        None \<Rightarrow> Inr (None, None)
      | Some v \<Rightarrow>
          if md_num_experts md = 0 \<or> moe_layers_of md = 0 then Inr (None, None)
          else bind_res (plan_cache_budget rnd (engine_plan_args v dtype_bytes c md))
                 (\<lambda>b. Inr (Some (cb_moe_cache_size b), Some (cb_kv_num_pages b))))"

text \<open>\<open>Engine._check_pinned_kv_fit\<close>.\<close>

definition pinned_cache_size :: "int option \<Rightarrow> model_dims \<Rightarrow> int" where
  "pinned_cache_size planned md =
     (if planned \<noteq> None \<and> the planned \<noteq> 0 \<and> md_num_experts md \<noteq> 0 \<and> the planned \<ge> md_num_experts md
      then the planned
      else if md_num_experts md \<noteq> 0 \<and> moe_layers_of md \<noteq> 0
      then md_num_experts md + max 2 (moe_layers_of md)
      else 0)"

definition engine_pinned_fit ::
  "(real \<Rightarrow> real) \<Rightarrow> int option \<Rightarrow> int \<Rightarrow> engine_config \<Rightarrow> model_dims \<Rightarrow> int option \<Rightarrow> int
     \<Rightarrow> (int \<times> cap_reason option) res" where
  "engine_pinned_fit rnd vram dtype_bytes c md planned requested =
     (case vram of
        None \<Rightarrow> Inr (requested, None)
      | Some v \<Rightarrow> check_pinned_kv_fit rnd
          \<lparr>fa_total_vram = Some v, fa_memory_ratio = ratio_of c,
           fa_moe_cache_size = pinned_cache_size planned md, fa_num_layers = md_num_layers md,
           fa_num_kv_heads = md_num_kv_heads md, fa_head_dim = head_dim_of md,
           fa_dtype_bytes = py_or dtype_bytes 2, fa_requested = requested,
           fa_moe_intermediate = md_moe_intermediate md, fa_hidden = md_hidden md,
           fa_slot_override = None, fa_reserved = 1\<rparr>)"

text \<open>\<open>Engine.__init__\<close>, the sizing of the pool: the served context and the page count.\<close>

definition asked_pages :: "engine_config \<Rightarrow> int \<Rightarrow> int" where
  "asked_pages c msl =
     (let default = int (ec_max_running c) * msl
      in case ec_num_page_override c of
           Some k \<Rightarrow> if k \<noteq> 0 then max k default else default
         | None \<Rightarrow> default)"

definition size_kv_pool ::
  "(real \<Rightarrow> real) \<Rightarrow> int option \<Rightarrow> int \<Rightarrow> engine_config \<Rightarrow> model_dims \<Rightarrow> int
     \<Rightarrow> (int option \<times> int \<times> int) res" where
  "size_kv_pool rnd vram dtype_bytes c md max_seq =
     bind_res (plan_cache rnd vram dtype_bytes c md) (\<lambda>(planned_size, planned_pages).
       let msl = fst (resolve_served_context_len max_seq planned_pages)
       in case planned_pages of
            Some p \<Rightarrow> Inr (planned_size, msl, p + 1)
          | None \<Rightarrow>
              bind_res (engine_pinned_fit rnd vram dtype_bytes c md planned_size (asked_pages c msl)) (\<lambda>(n, why).
                   Inr (planned_size,
                        (if why \<noteq> None \<and> n < msl then fst (resolve_served_context_len msl (Some n)) else msl),
                        n + 1)))"

text \<open>The operator's cap on fetched experts as \<open>__init__\<close> stores it on the model.\<close>

definition hybrid_max_fetch :: "engine_config \<Rightarrow> int" where
  "hybrid_max_fetch c = py_or (ec_moe_hybrid_max_fetch c) (- 1)"

text \<open>\<open>Engine.rebuild_cache\<close>: what is rebuilt, for a live expert cache of \<open>cache_size\<close> slots and
  a pool of \<open>pool_pages\<close> pages: the new slot count and the new page count, where one is.\<close>

definition rebuild_cache ::
  "(real \<Rightarrow> real) \<Rightarrow> int option \<Rightarrow> int \<Rightarrow> engine_config \<Rightarrow> model_dims \<Rightarrow> int option \<Rightarrow> int
     \<Rightarrow> (int option \<times> int option) res" where
  "rebuild_cache rnd vram dtype_bytes c md moe_cache pool_pages =
     (case (moe_cache, vram) of
        (Some cache_size, Some v) \<Rightarrow>
          bind_res (plan_cache rnd vram dtype_bytes c md) (\<lambda>(new_size, new_pages).
            Inr (case new_size of Some s \<Rightarrow> if s \<noteq> 0 \<and> s \<noteq> cache_size then Some s else None | None \<Rightarrow> None,
                 case new_pages of Some p \<Rightarrow> if p \<noteq> 0 \<and> p \<noteq> pool_pages then Some (p + 1) else None | None \<Rightarrow> None))
      | _ \<Rightarrow> Inr (None, None))"

lemma split_pages_pos:
  assumes "plan_cache rnd vram d c md = Inr (s, Some p)"
  shows "p > 0"
proof -
  from assms obtain v b where "vram = Some v"
    and b: "plan_cache_budget rnd (engine_plan_args v d c md) = Inr b" and p: "p = cb_kv_num_pages b"
    by (auto simp: plan_cache_def bind_res_Inr split: if_splits option.splits)
  have "pa_kv_reserve (engine_plan_args v d c md) > 0"
    using b by (auto simp: plan_cache_budget_Inr plan_args_ok_def)
  moreover have "pa_kv_reserve (engine_plan_args v d c md) \<le> cb_kv_num_pages b"
    using b split_budget_fits(4) bytes_per_kv_token_pos slot_bytes_pos unfolding plan_cache_budget_Inr by blast
  ultimately show ?thesis using p by simp
qed

lemma check_pinned_small: "check_pinned_kv_fit rnd a = Inr (n, why) \<Longrightarrow> why = None \<Longrightarrow> n = fa_requested a"
  by (auto simp: check_pinned_kv_fit_def bind_res_Inr Let_def split: option.splits if_splits)

lemma check_pinned_pos: "check_pinned_kv_fit rnd a = Inr (n, why) \<Longrightarrow> fa_total_vram a \<noteq> None \<Longrightarrow> n > 0"
  by (auto simp: check_pinned_kv_fit_def bind_res_Inr Let_def split: option.splits if_splits)

lemma engine_pinned_fit_cases:
  assumes "engine_pinned_fit rnd vram d c md planned asked = Inr (n, why)"
  shows "(why = None \<and> n = asked) \<or> (why \<noteq> None \<and> n > 0)"
  using assms check_pinned_small check_pinned_pos
  by (auto simp: engine_pinned_fit_def split: option.splits) (fastforce+)

lemma size_kv_pool_context:
  assumes s: "size_kv_pool rnd vram d c md max_seq = Inr (slots0, msl, pages)"
    and c: "ec_max_running c \<ge> 1" "max_seq \<ge> 0"
  shows "0 \<le> msl \<and> msl \<le> max_seq \<and> msl < pages"
proof -
  obtain ps pp where pl: "plan_cache rnd vram d c md = Inr (ps, pp)"
    using s by (auto simp: size_kv_pool_def bind_res_Inr)
  show ?thesis
  proof (cases pp)
    case (Some p)
    then show ?thesis using s pl c(2) split_pages_pos [of rnd vram d c md ps p]
      by (auto simp: size_kv_pool_def resolve_served_context_len_def Let_def)
  next
    case None
    have big: "max_seq \<le> int (ec_max_running c) * max_seq" using c by (simp add: mult_le_cancel_right1)
    have a: "asked_pages c max_seq \<ge> int (ec_max_running c) * max_seq"
      by (auto simp: asked_pages_def Let_def split: option.splits)
    from s pl None obtain n why where f: "engine_pinned_fit rnd vram d c md ps (asked_pages c max_seq) = Inr (n, why)"
      and m: "msl = (if why \<noteq> None \<and> n < max_seq then fst (resolve_served_context_len max_seq (Some n)) else max_seq)"
        "pages = n + 1"
      by (auto simp: size_kv_pool_def resolve_served_context_len_def bind_res_Inr Let_def simp del: not_None_eq cong: if_cong)
    have m1: "msl = (if why \<noteq> None \<and> n < max_seq then n else max_seq)"
      using m(1) by (simp add: resolve_served_context_len_def)
    from engine_pinned_fit_cases [OF f] show ?thesis using a m1 m(2) c(2) big by auto
  qed
qed

text \<open>C26. The served context can be admitted. Whatever the memory and the configuration, the
  pool the engine builds holds a whole served context: allocating the pages of
  \<open>max_seq_len\<close> tokens for a first request succeeds on the fresh pool, and the context is never
  above the model's.\<close>

theorem served_context_admits:
  assumes s: "size_kv_pool rnd vram d c md max_seq = Inr (slots0, msl, pages)"
    and c: "ec_max_running c \<ge> 1" "max_seq \<ge> 0" and ps: "page_size > 0"
  shows "msl \<le> max_seq
    \<and> (\<exists>slots pool. mha_allocate row (Some ((nat msl + page_size - 1) div page_size))
                      (mha_init page_size (nat pages)) = Inr (slots, pool)
         \<and> length slots \<ge> nat msl)"
proof -
  let ?np = "(nat msl + page_size - 1) div page_size"
  have b: "0 \<le> msl" "msl \<le> max_seq" "nat msl + 1 \<le> nat pages"
    using size_kv_pool_context [OF s c] by auto
  have np: "nat msl \<le> ?np * page_size" "?np * page_size \<le> nat msl + page_size - 1"
    using nalign_lt [OF ps, of "nat msl + page_size - 1"] ps by (auto simp: nalign_def)
  have "nat msl + page_size - 1 \<le> (nat msl + 1) * page_size - 1"
    using ps by (simp add: algebra_simps) (cases page_size; simp)
  also have "\<dots> \<le> nat pages * page_size - 1" using b(3) by (intro diff_le_mono mult_le_mono1) auto
  finally have "?np * page_size \<le> nat pages * page_size - 1" using np(2) by linarith
  then show ?thesis using b np(1) by (auto simp: mha_allocate_def mha_init_def Let_def)
qed

text \<open>Re-planning never leaves the pool alone. For an engine built in auto mode,
  \<open>rebuild_cache\<close> on the same memory plans the same page count, compares it with the pool's,
  which holds one page more (the reserved slot's), finds them different, and replaces the live
  pool by an empty one of the same size; the expert cache is left alone.\<close>

theorem rebuild_replaces_unchanged_pool:
  assumes s: "size_kv_pool rnd vram d c md max_seq = Inr (Some slots0, msl, pages)"
    and auto: "ec_moe_cache_auto c" and v: "vram \<noteq> None"
  shows "rebuild_cache rnd vram d c md (Some slots0) pages = Inr (None, Some pages)"
proof -
  obtain p where pl: "plan_cache rnd vram d c md = Inr (Some slots0, Some p)" and pg: "pages = p + 1"
    using s auto v by (auto simp: size_kv_pool_def plan_cache_def bind_res_Inr Let_def split: option.splits if_splits)
  have "p > 0" using split_pages_pos [OF pl] .
  then show ?thesis using pl pg v by (auto simp: rebuild_cache_def)
qed

definition demo_dims :: model_dims where
  "demo_dims = \<lparr>md_num_experts = 4, md_num_moe_layers = 2, md_num_layers = 2, md_first_k_dense = 0,
     md_num_kv_heads = 1, md_head_dim = 2, md_hidden = 3, md_num_heads = 1, md_moe_intermediate = 2\<rparr>"

definition demo_cfg :: engine_config where
  "demo_cfg = \<lparr>ec_max_running = 2, ec_moe_cache_size = 0, ec_moe_cache_rate = None, ec_moe_cache_auto = True,
     ec_kv_reserve = 10, ec_memory_ratio = 9 / 10, ec_page_size = 1, ec_enable_prefix_cache = True,
     ec_num_page_override = None, ec_max_seq_override = None, ec_moe_hybrid_max_fetch = 0\<rparr>"

lemma demo_size: "size_kv_pool id (Some 1000) 2 demo_cfg demo_dims 40 = Inr (Some 20, 11, 12)"
  by (simp add: size_kv_pool_def plan_cache_def demo_cfg_def demo_dims_def engine_plan_args_def moe_layers_of_def
      head_dim_of_def ratio_of_def py_or_def plan_eval asked_pages_def resolve_served_context_len_def)

lemma served_context_admits_witness:
  "\<exists>slots pool. mha_allocate 0 (Some 11) (mha_init 1 12) = Inr (slots, pool) \<and> length slots \<ge> 11"
  using served_context_admits [OF demo_size, of 1 0] by (auto simp: demo_cfg_def)

lemma rebuild_replaces_unchanged_pool_witness:
  "rebuild_cache id (Some 1000) 2 demo_cfg demo_dims (Some 20) 12 = Inr (None, Some 12)"
  by (rule rebuild_replaces_unchanged_pool [OF demo_size]) (simp_all add: demo_cfg_def)

text \<open>The reserved page is outside the plan. The pinned path counts the page the engine
  adds for the reserved slot; the auto path does not, so the pool it builds can exceed the
  memory budget: here 20 slots of 36 bytes and 12 pages of 16 bytes against a budget of 900.\<close>

theorem auto_pool_exceeds_budget:
  "\<exists>slots0 msl pages b. size_kv_pool id (Some 1000) 2 demo_cfg demo_dims 40 = Inr (Some slots0, msl, pages)
     \<and> plan_cache_budget id (engine_plan_args 1000 2 demo_cfg demo_dims) = Inr b
     \<and> bytes_per_expert_slot 4 2 3 2 = Inr 36 \<and> bytes_per_kv_token 2 1 2 2 = Inr 16
     \<and> cb_budget_bytes b < slots0 * 36 + pages * 16"
  unfolding demo_size
  by (simp add: demo_cfg_def demo_dims_def engine_plan_args_def moe_layers_of_def
      head_dim_of_def ratio_of_def py_or_def plan_eval)

end
