(* ===== verification/Hybrid_Cache.thy ===== *)
theory Hybrid_Cache
  imports Radix_Laws
begin

text \<open>
  \<open>kvcache/hybrid_radix_cache.py\<close>: the radix tree with a second currency. A node may own
  the slot of a recurrent-state snapshot (\<open>nd_mamba\<close>) with its own lock count
  (\<open>nd_mref\<close>) and its own eviction. The tree, its walk and the full-attention counters
  are those of \<open>Radix_Cache\<close>, whose node class the code reuses: \<open>hy_kv\<close> holds \<open>root\<close>,
  \<open>page_size\<close>, \<open>full_evictable\<close> and \<open>full_protected\<close>.
\<close>

section \<open>The cache object\<close>

record hybrid =
  hy_kv :: radix
  hy_mev :: int
  hy_mpr :: int

abbreviation rn_mamba where "rn_mamba x \<equiv> nd_mamba (rn_data x)"
abbreviation rn_mref where "rn_mref x \<equiv> nd_mref (rn_data x)"
abbreviation hy_root where "hy_root h \<equiv> rx_root (hy_kv h)"

definition hy_init :: "nat \<Rightarrow> nat \<Rightarrow> nat \<Rightarrow> hybrid" where
  "hy_init page c tic = \<lparr> hy_kv = radix_init page c tic, hy_mev = 0, hy_mpr = 0 \<rparr>"

definition set_root :: "rnode \<Rightarrow> hybrid \<Rightarrow> hybrid" where
  "set_root t h = h\<lparr>hy_kv := (hy_kv h)\<lparr>rx_root := t\<rparr>\<rparr>"

definition add_full_evictable :: "int \<Rightarrow> hybrid \<Rightarrow> hybrid" where
  "add_full_evictable a h = h\<lparr>hy_kv := (hy_kv h)\<lparr>rx_evictable := rx_evictable (hy_kv h) + a\<rparr>\<rparr>"

text \<open>A write to the snapshot fields of the node named \<open>i\<close>.\<close>

fun node_map :: "(ndata \<Rightarrow> ndata) \<Rightarrow> rnode \<Rightarrow> rnode" where
  "node_map f (RNode d ks) = RNode (f d) (map (node_map f) ks)"

definition at_node :: "nat \<Rightarrow> (ndata \<Rightarrow> ndata) \<Rightarrow> ndata \<Rightarrow> ndata" where
  "at_node i f d = (if nd_id d = i then f d else d)"

definition upd_node :: "nat \<Rightarrow> (ndata \<Rightarrow> ndata) \<Rightarrow> hybrid \<Rightarrow> hybrid" where
  "upd_node i f h = set_root (node_map (at_node i f) (hy_root h)) h"

section \<open>Match and insert\<close>

text \<open>\<open>_path_len\<close> and \<open>_collect_kv\<close>: the nodes from below the root down to node \<open>i\<close>.\<close>

definition below_root :: "nat \<Rightarrow> hybrid \<Rightarrow> ndata list" where
  "below_root i h = (case node_path i (hy_root h) of None \<Rightarrow> [] | Some ds \<Rightarrow> tl ds)"

definition path_len :: "nat \<Rightarrow> hybrid \<Rightarrow> nat" where
  "path_len i h = sum_list (map (\<lambda>d. length (nd_key d)) (below_root i h))"

definition collect_kv :: "nat \<Rightarrow> hybrid \<Rightarrow> slot list" where
  "collect_kv i h = concat (map nd_val (below_root i h))"

record hmatch =
  hm_kv :: "slot list"
  hm_len :: nat
  hm_mamba :: "slot option"
  hm_node :: nat

definition hy_walk :: "nat \<Rightarrow> token list \<Rightarrow> hybrid \<Rightarrow> (nat \<times> nat) \<times> hybrid" where
  "hy_walk tic ids h =
     (let (t, i, n, c) = walk (rx_page (hy_kv h)) tic (rx_counter (hy_kv h)) ids (hy_root h)
      in ((i, n), h\<lparr>hy_kv := (hy_kv h)\<lparr>rx_root := t, rx_counter := c\<rparr>\<rparr>))"

text \<open>The loop of \<open>match_prefix\<close> up the parents: the nodes still to visit, deepest first,
  and \<open>end_len\<close>.\<close>

fun climb :: "ndata list \<Rightarrow> nat \<Rightarrow> (ndata \<times> nat) option" where
  "climb [] n = None"
| "climb (d # ds) n = (if nd_mamba d \<noteq> None then Some (d, n) else climb ds (n - length (nd_key d)))"

definition hy_match :: "nat \<Rightarrow> token list \<Rightarrow> hybrid \<Rightarrow> hmatch \<times> hybrid" where
  "hy_match tic ids h =
     (let ((i, _), h1) = hy_walk tic ids h in
      case climb (rev (below_root i h1)) (path_len i h1) of
        Some (d, n) \<Rightarrow>
          (\<lparr> hm_kv = collect_kv (nd_id d) h1, hm_len = n, hm_mamba = nd_mamba d, hm_node = nd_id d \<rparr>, h1)
      | None \<Rightarrow> (\<lparr> hm_kv = [], hm_len = 0, hm_mamba = None, hm_node = rn_id (hy_root h1) \<rparr>, h1))"

text \<open>\<open>insert\<close>: the tree part is the code of \<open>RadixPrefixCache.insert_prefix\<close>, word for
  word; then the snapshot is attached to the boundary node, unless it has one.\<close>

definition hy_insert ::
  "nat \<Rightarrow> nat \<Rightarrow> token list \<Rightarrow> slot list \<Rightarrow> slot \<Rightarrow> hybrid \<Rightarrow> ((nat \<times> bool) \<times> hybrid) res" where
  "hy_insert tic now ids idx s h =
     bind_res (insert_prefix tic now ids idx (hy_kv h)) (\<lambda>((n, (_, i)), r).
       let h1 = h\<lparr>hy_kv := r\<rparr> in
       if i = rn_id (rx_root r) then Inr ((n, True), h1)
       else case find_node i (rx_root r) of
         None \<Rightarrow> Inl KeyError
       | Some x \<Rightarrow>
           if rn_mamba x \<noteq> None then Inr ((n, True), h1)
           else let h2 = upd_node i (\<lambda>d. d\<lparr>nd_mamba := Some s\<rparr>) h1
                in Inr ((n, False), if rn_mref x = 0 then h2\<lparr>hy_mev := hy_mev h2 + 1\<rparr> else h2))"

section \<open>The two locks\<close>

text \<open>The lock loop over the path is that of \<open>RadixPrefixCache.lock_handle\<close>. A node that is
  not in the tree is outside the model (\<open>Inl KeyError\<close>).\<close>

definition inc_lock :: "nat \<Rightarrow> hybrid \<Rightarrow> hybrid res" where
  "inc_lock i h =
     (case find_node i (hy_root h) of
        None \<Rightarrow> Inl KeyError
      | Some x \<Rightarrow>
          let h1 = (if rn_mamba x \<noteq> None then
                      (let h0 = (if rn_mref x = 0
                                 then h\<lparr>hy_mev := hy_mev h - 1, hy_mpr := hy_mpr h + 1\<rparr> else h)
                       in upd_node i (\<lambda>d. d\<lparr>nd_mref := nd_mref d + 1\<rparr>) h0)
                    else h)
          in bind_res (lock_handle (0, i) False (hy_kv h1)) (\<lambda>r. Inr (h1\<lparr>hy_kv := r\<rparr>)))"

definition dec_lock :: "nat \<Rightarrow> hybrid \<Rightarrow> hybrid res" where
  "dec_lock i h =
     (case find_node i (hy_root h) of
        None \<Rightarrow> Inl KeyError
      | Some x \<Rightarrow>
          let h1 = (if rn_mamba x \<noteq> None \<and> rn_mref x > 0 then
                      (let h0 = upd_node i (\<lambda>d. d\<lparr>nd_mref := nd_mref d - 1\<rparr>) h
                       in if rn_mref x - 1 = 0
                          then h0\<lparr>hy_mev := hy_mev h0 + 1, hy_mpr := hy_mpr h0 - 1\<rparr> else h0)
                    else h)
          in bind_res (lock_handle (0, i) True (hy_kv h1)) (\<lambda>r. Inr (h1\<lparr>hy_kv := r\<rparr>)))"

section \<open>Eviction\<close>

text \<open>\<open>_leaves\<close> and \<open>_snapshot_nodes\<close> visit the tree with a stack, so the last child first.\<close>

fun leaf_nodes :: "rnode \<Rightarrow> ndata list" where
  "leaf_nodes (RNode d ks) = (if ks = [] then [d] else concat (map leaf_nodes (rev ks)))"

fun snap_nodes :: "rnode \<Rightarrow> ndata list" where
  "snap_nodes (RNode d ks) =
     (if nd_mamba d \<noteq> None then [d] else []) @ concat (map snap_nodes (rev ks))"

definition hy_leaves :: "hybrid \<Rightarrow> ndata list" where
  "hy_leaves h = concat (map leaf_nodes (rev (rn_kids (hy_root h))))"

definition hy_snapshots :: "hybrid \<Rightarrow> ndata list" where
  "hy_snapshots h = concat (map snap_nodes (rev (rn_kids (hy_root h))))"

definition check_integrity :: "hybrid \<Rightarrow> bool" where
  "check_integrity h =
     (\<forall>d \<in> set (hy_snapshots h). nd_mamba d \<noteq> None \<and> 0 \<le> nd_mref d \<and> 0 \<le> nd_ref d)"

definition free_node_mamba :: "nat \<Rightarrow> slot list \<Rightarrow> hybrid \<Rightarrow> slot list \<times> hybrid" where
  "free_node_mamba i out h =
     (case find_node i (hy_root h) of
        None \<Rightarrow> (out, h)
      | Some x \<Rightarrow>
          (case rn_mamba x of
             None \<Rightarrow> (out, h)
           | Some s \<Rightarrow>
               (out @ [s],
                let h1 = upd_node i (\<lambda>d. d\<lparr>nd_mamba := None\<rparr>) h
                in if rn_mref x = 0 then h1\<lparr>hy_mev := hy_mev h1 - 1\<rparr> else h1)))"

definition unlink :: "nat \<Rightarrow> hybrid \<Rightarrow> hybrid" where
  "unlink i h = set_root (del_node i (hy_root h)) h"

lemma hy_root_simps [simp]:
  "hy_root (set_root t h) = t" "hy_root (add_full_evictable a h) = hy_root h"
  "hy_root (unlink i h) = del_node i (hy_root h)"
  "hy_root (upd_node i f h) = node_map (at_node i f) (hy_root h)"
  by (simp_all add: set_root_def add_full_evictable_def unlink_def upd_node_def)

text \<open>\<open>_cascade_tombstone_leaves\<close>: deletes unreferenced leaves without a snapshot, upwards
  from node \<open>q\<close>; each round deletes one node, so it ends.\<close>

function (sequential) cascade ::
  "nat \<Rightarrow> slot list \<Rightarrow> nat \<Rightarrow> hybrid \<Rightarrow> nat \<times> slot list \<times> nat \<times> hybrid" where
  "cascade q kv freed h =
     (case find_node q (hy_root h) of
        None \<Rightarrow> (q, kv, freed, h)
      | Some x \<Rightarrow>
          if rn_mamba x = None \<and> is_leaf x \<and> rn_ref x = 0 \<and> q \<noteq> rn_id (hy_root h) then
            (case parent_of q (hy_root h) of
               None \<Rightarrow> (q, kv, freed, h)
             | Some q' \<Rightarrow>
                 cascade q' (kv @ rn_val x) (freed + length (rn_key x))
                   (unlink q (add_full_evictable (- int (length (rn_key x))) h)))
          else (q, kv, freed, h))"
  by pat_completeness auto
termination
  by (relation "measure (\<lambda>(q, kv, freed, h). length (nids (hy_root h)))")
     (auto simp: del_node_shrinks)

declare cascade.simps [simp del]

text \<open>One unreferenced leaf \<open>x\<close> named \<open>i\<close> goes, with its snapshot and the tombstones above.\<close>

definition drop_leaf ::
  "nat \<Rightarrow> rnode \<Rightarrow> nat \<Rightarrow> slot list \<Rightarrow> slot list \<Rightarrow> hybrid \<Rightarrow> nat \<times> slot list \<times> nat \<times> slot list \<times> hybrid" where
  "drop_leaf i x q kv mam h =
     (let (mam', h1) = free_node_mamba i mam (add_full_evictable (- int (length (rn_key x))) h);
          (hi, kv', casc, h2) = cascade q (kv @ rn_val x) 0 (unlink i h1)
      in (hi, kv', casc, mam', h2))"

section \<open>Writes to the snapshot fields\<close>

text \<open>A write that keeps identity, key, value, reference count and clock of every node
  is invisible to the tree's own operations.\<close>

definition quiet :: "(ndata \<Rightarrow> ndata) \<Rightarrow> bool" where
  "quiet f \<longleftrightarrow> (\<forall>d. nd_id (f d) = nd_id d \<and> nd_key (f d) = nd_key d \<and> nd_val (f d) = nd_val d \<and>
     nd_ref (f d) = nd_ref d \<and> nd_time (f d) = nd_time d)"

lemma quietD: "quiet f \<Longrightarrow> nd_id (f d) = nd_id d" "quiet f \<Longrightarrow> nd_key (f d) = nd_key d"
  "quiet f \<Longrightarrow> nd_val (f d) = nd_val d" "quiet f \<Longrightarrow> nd_ref (f d) = nd_ref d" "quiet f \<Longrightarrow> nd_time (f d) = nd_time d"
  by (simp_all add: quiet_def)

lemma quiet_at [simp]:
  "quiet f \<Longrightarrow> quiet (at_node i f)" "quiet (\<lambda>d. d\<lparr>nd_mamba := m\<rparr>)" "quiet (\<lambda>d. d\<lparr>nd_mref := g d\<rparr>)"
  by (simp_all add: quiet_def at_node_def)

lemma node_map_eta: "node_map f x = RNode (f (rn_data x)) (map (node_map f) (rn_kids x))"
  by (cases x) simp

lemma node_map_sel [simp]: "rn_data (node_map f x) = f (rn_data x)" "rn_kids (node_map f x) = map (node_map f) (rn_kids x)"
  by (simp_all add: node_map_eta)

lemma is_leaf_map [simp]: "is_leaf (node_map f x) = is_leaf x"
  by (simp add: is_leaf_def)

lemma datas_map: "datas (node_map f t) = map f (datas t)" "kdatas (map (node_map f) ks) = map f (kdatas ks)"
proof -
  show a: "datas (node_map f t) = map f (datas t)" for t
    by (induction t) (auto simp: map_concat comp_def intro: arg_cong [of _ _ concat])
  show "kdatas (map (node_map f) ks) = map f (kdatas ks)"
    by (induction ks) (simp_all add: a)
qed

lemma datas_map_comp: "concat (map (datas \<circ> node_map f) ks) = map f (kdatas ks)"
  using datas_map(2) [of f ks] by simp

lemma nids_map: "quiet f \<Longrightarrow> nids (node_map f t) = nids t" "quiet f \<Longrightarrow> kids_ids (map (node_map f) ks) = kids_ids ks"
  by (simp_all add: nids_def kids_ids_def datas_map datas_map_comp quietD)

lemma ksum_node_map: "ksum g (map (node_map f) ks) = ksum (g \<circ> f) ks" "nsum g (node_map f t) = nsum (g \<circ> f) t"
  by (simp_all add: ksum_def nsum_def datas_map datas_map_comp)

lemma wf_map: "quiet f \<Longrightarrow> wf_node p (node_map f x) = wf_node p x"
  by (induction x) (simp add: quietD comp_def wf_kids_def)

lemma wf_kids_map: "quiet f \<Longrightarrow> wf_kids p (map (node_map f) ks) = wf_kids p ks"
  by (simp add: wf_kids_def wf_map comp_def quietD)

lemma pref_map: "quiet f \<Longrightarrow> pref p (node_map f x) = pref p x"
  by (induction x) (simp add: quietD pref.simps)

lemma prefs_map: "quiet f \<Longrightarrow> prefs p (map (node_map f) ks) = prefs p ks"
  by (simp add: prefs_def pref_map)

lemma ref_ok_map: "quiet f \<Longrightarrow> ref_ok L (node_map f x) = ref_ok L x"
  by (induction x) (simp add: quietD comp_def ref_ok_RNode refs_ok_def)

lemma refs_ok_map: "quiet f \<Longrightarrow> refs_ok L (map (node_map f) ks) = refs_ok L ks"
  by (simp add: refs_ok_def ref_ok_map)

lemma path_map:
  "quiet f \<Longrightarrow> node_path i (node_map f x) = map_option (map f) (node_path i x)"
  "quiet f \<Longrightarrow> kids_path i (map (node_map f) ks) = map_option (map f) (kids_path i ks)"
  by (induction i x and i ks rule: node_path_kids_path.induct)
     (auto simp: quietD option.map_comp comp_def split: option.splits)

lemma find_map:
  "quiet f \<Longrightarrow> find_node i (node_map f x) = map_option (node_map f) (find_node i x)"
  "quiet f \<Longrightarrow> find_kids i (map (node_map f) ks) = map_option (node_map f) (find_kids i ks)"
  by (induction i x and i ks rule: find_node_find_kids.induct) (auto simp: quietD split: option.splits)

lemma parent_map:
  "quiet f \<Longrightarrow> parent_of i (node_map f x) = parent_of i x"
  "quiet f \<Longrightarrow> parent_kids i (map (node_map f) ks) = parent_kids i ks"
  by (induction i x and i ks rule: parent_of_parent_kids.induct)
     (auto simp: quietD image_iff split: option.splits)

lemma collect_map: "quiet f \<Longrightarrow> collect (node_map f x) = collect x"
proof (induction x)
  case (RNode d ks)
  then have "map (collect \<circ> node_map f) ks = map collect ks" by simp
  then have "concat (map (collect \<circ> node_map f) ks) = concat (map collect ks)" by (rule arg_cong)
  then show ?case using RNode.prems by (simp add: collect.simps quietD)
qed

lemma radix_inv_map:
  assumes "quiet f" shows "radix_inv L (r\<lparr>rx_root := node_map f t\<rparr>) = radix_inv L (r\<lparr>rx_root := t\<rparr>)"
proof -
  have "esz \<circ> f = esz" "psz \<circ> f = psz" by (simp_all add: fun_eq_iff esz_def psz_def quietD assms)
  then show ?thesis
    using assms by (simp add: radix_inv_def wf_kids_map nids_map refs_ok_map ksum_node_map quietD)
qed

lemma parent_of_some: "parent_of i t = Some q \<Longrightarrow> \<exists>x. find_node i t = Some x"
  using parent_of_None [of i t] find_None_iff(1) [of i t] by (cases "find_node i t") auto

lemma cascade_length: "cascade q kv n h = (q', kv', n', h') \<Longrightarrow> length (nids (hy_root h')) \<le> length (nids (hy_root h))"
proof (induction q kv n h rule: cascade.induct)
  case (1 q kv n h)
  show ?case
  proof (cases "find_node q (hy_root h)")
    case None
    then show ?thesis using "1.prems" by (simp add: cascade.simps)
  next
    case (Some x)
    show ?thesis
    proof (cases "rn_mamba x = None \<and> is_leaf x \<and> rn_ref x = 0 \<and> q \<noteq> rn_id (hy_root h)")
      case False
      then show ?thesis using "1.prems" Some by (subst (asm) cascade.simps) auto
    next
      case True
      show ?thesis
      proof (cases "parent_of q (hy_root h)")
        case None
        then show ?thesis using "1.prems" Some True by (simp add: cascade.simps)
      next
        case p: (Some p)
        then have "length (nids (hy_root h')) \<le> length (nids (del_node q (hy_root h)))"
          using "1.IH" [OF Some True p] "1.prems" Some True by (subst (asm) cascade.simps) auto
        then show ?thesis using del_node_length [of q "hy_root h"] by simp
      qed
    qed
  qed
qed

lemma free_node_mamba_length:
  "free_node_mamba i out h = (out', h') \<Longrightarrow> nids (hy_root h') = nids (hy_root h)"
  by (auto simp: free_node_mamba_def Let_def nids_map split: option.splits if_splits)

lemma drop_leaf_shrinks:
  assumes p: "parent_of i (hy_root h) = Some q" and d: "drop_leaf i x q kv mam h = (hi, kv', casc, mam', h')"
  shows "length (nids (hy_root h')) < length (nids (hy_root h))"
proof -
  let ?h0 = "add_full_evictable (- int (length (rn_key x))) h"
  obtain m1 h1 where f: "free_node_mamba i mam ?h0 = (m1, h1)" by (cases "free_node_mamba i mam ?h0")
  have c: "cascade q (kv @ rn_val x) 0 (unlink i h1) = (hi, kv', casc, h')"
    using d f by (auto simp: drop_leaf_def split: prod.splits)
  have "parent_of i (hy_root h1) = Some q"
    using f p by (auto simp: free_node_mamba_def Let_def parent_map split: option.splits if_splits)
  then have "length (nids (del_node i (hy_root h1))) < length (nids (hy_root h1))"
    by (rule del_node_shrinks)
  then show ?thesis using cascade_length [OF c] free_node_mamba_length [OF f] by simp
qed

section \<open>The eviction loops\<close>

text \<open>The heap holds nodes by timestamp; \<open>heap_pop\<close> stands for \<open>heappop\<close>. A node that has
  left the tree has lost its snapshot and its entry; the loops skip it.\<close>

definition heap_entry :: "ndata \<Rightarrow> nat \<times> nat" where
  "heap_entry d = (nd_time d, nd_id d)"

lemma heap_pop_length: "heap_pop xs = Some (y, ys) \<Longrightarrow> length xs = Suc (length ys)"
  using heap_pop_Some [of xs y ys] by (metis size_add_mset size_mset)

function (sequential) evict_full_loop ::
  "nat \<Rightarrow> (nat \<times> nat) list \<Rightarrow> slot list \<Rightarrow> slot list \<Rightarrow> nat \<Rightarrow> hybrid \<Rightarrow> (slot list \<times> slot list) \<times> hybrid" where
  "evict_full_loop need heap kv mam freed h =
     (if need \<le> freed then ((kv, mam), h)
      else case heap_pop heap of
        None \<Rightarrow> ((kv, mam), h)
      | Some (e, heap') \<Rightarrow>
          (case (find_node (snd e) (hy_root h), parent_of (snd e) (hy_root h)) of
             (Some x, Some q) \<Rightarrow>
               if rn_ref x \<noteq> 0 \<or> \<not> is_leaf x then evict_full_loop need heap' kv mam freed h
               else
                 (case drop_leaf (snd e) x q kv mam h of (hi, kv', casc, mam', h') \<Rightarrow>
                   evict_full_loop need
                     (case find_node hi (hy_root h') of
                        None \<Rightarrow> heap'
                      | Some y \<Rightarrow> if is_leaf y \<and> rn_ref y = 0 \<and> hi \<noteq> rn_id (hy_root h')
                                  then heap_entry (rn_data y) # heap' else heap')
                     kv' mam' (freed + length (rn_key x) + casc) h')
           | _ \<Rightarrow> evict_full_loop need heap' kv mam freed h))"
  by pat_completeness auto
termination
  by (relation "measures [\<lambda>(need, heap, kv, mam, freed, h). length (nids (hy_root h)),
                          \<lambda>(need, heap, kv, mam, freed, h). length heap]")
     (auto dest: heap_pop_length drop_leaf_shrinks [OF sym sym])

definition evict_full :: "nat \<Rightarrow> hybrid \<Rightarrow> (slot list \<times> slot list) \<times> hybrid" where
  "evict_full need h =
     evict_full_loop need (map heap_entry (filter (\<lambda>d. nd_ref d = 0) (hy_leaves h))) [] [] 0 h"

function (sequential) evict_mamba_loop ::
  "nat \<Rightarrow> (nat \<times> nat) list \<Rightarrow> slot list \<Rightarrow> slot list \<Rightarrow> nat \<Rightarrow> hybrid \<Rightarrow> (slot list \<times> slot list) \<times> hybrid" where
  "evict_mamba_loop num heap kv mam freed h =
     (if num \<le> freed then ((kv, mam), h)
      else case heap_pop heap of
        None \<Rightarrow> ((kv, mam), h)
      | Some (e, heap') \<Rightarrow>
          (case (find_node (snd e) (hy_root h), parent_of (snd e) (hy_root h)) of
             (Some x, Some q) \<Rightarrow>
               if rn_mamba x = None \<or> rn_mref x \<noteq> 0 then evict_mamba_loop num heap' kv mam freed h
               else if is_leaf x \<and> rn_ref x = 0 then
                 (case drop_leaf (snd e) x q kv mam h of (hi, kv', casc, mam', h') \<Rightarrow>
                   evict_mamba_loop num heap' kv' mam' (freed + 1) h')
               else
                 (case free_node_mamba (snd e) mam h of (mam', h') \<Rightarrow>
                   evict_mamba_loop num heap' kv mam' (freed + 1) h')
           | _ \<Rightarrow> evict_mamba_loop num heap' kv mam freed h))"
  by pat_completeness auto
termination
  by (relation "measure (\<lambda>(num, heap, kv, mam, freed, h). length heap)")
     (auto dest: heap_pop_length)

definition evict_mamba :: "nat \<Rightarrow> hybrid \<Rightarrow> (slot list \<times> slot list) \<times> hybrid" where
  "evict_mamba num h =
     evict_mamba_loop num (map heap_entry (filter (\<lambda>d. nd_mref d = 0) (hy_snapshots h))) [] [] 0 h"

declare evict_full_loop.simps [simp del]
declare evict_mamba_loop.simps [simp del]

end
