(* ===== verification/Hybrid_Laws.thy ===== *)
theory Hybrid_Laws
  imports Hybrid_Cache
begin


text \<open>
  What the hybrid cache keeps: the invariant of the tree, of the snapshot locks and of the
  two pairs of counters, and the conservation of key/value slots and snapshot slots.
\<close>

section \<open>The invariant\<close>

definition snaps :: "ndata \<Rightarrow> slot multiset" where
  "snaps d = (case nd_mamba d of None \<Rightarrow> {#} | Some s \<Rightarrow> {#s#})"

definition mfree :: "ndata \<Rightarrow> int" where
  "mfree d = (if nd_mamba d \<noteq> None \<and> nd_mref d = 0 then 1 else 0)"

definition mheld :: "ndata \<Rightarrow> int" where
  "mheld d = (if nd_mamba d \<noteq> None \<and> nd_mref d \<noteq> 0 then 1 else 0)"

lemma split_additive_snaps [simp]: "split_additive snaps" "split_additive mfree" "split_additive mheld"
  by (simp_all add: split_additive_def snaps_def mfree_def mheld_def)

text \<open>Every leaf outside \<open>X\<close> has a snapshot.\<close>

fun live :: "nat set \<Rightarrow> rnode \<Rightarrow> bool" where
  "live X (RNode d ks) \<longleftrightarrow> (ks = [] \<longrightarrow> nd_mamba d \<noteq> None \<or> nd_id d \<in> X) \<and> (\<forall>x \<in> set ks. live X x)"

text \<open>\<open>L\<close> holds the locked nodes, one entry per lock: only a node with a snapshot is locked.\<close>

definition lock_ok :: "nat multiset \<Rightarrow> ndata \<Rightarrow> bool" where
  "lock_ok L d \<longleftrightarrow> nd_mref d = int (count L (nd_id d)) \<and> (nd_mamba d = None \<longrightarrow> count L (nd_id d) = 0)"

definition hy_nodes :: "hybrid \<Rightarrow> ndata multiset" where
  "hy_nodes h = mset (kdatas (rn_kids (hy_root h)))"

lemma hy_nodes_upd [simp]: "hy_nodes (h\<lparr>hy_mev := a\<rparr>) = hy_nodes h" "hy_nodes (h\<lparr>hy_mpr := a\<rparr>) = hy_nodes h"
  by (simp_all add: hy_nodes_def)

definition kv_slots :: "hybrid \<Rightarrow> slot multiset" where
  "kv_slots h = (\<Sum>d \<in># hy_nodes h. vmset d)"

definition snap_slots :: "hybrid \<Rightarrow> slot multiset" where
  "snap_slots h = (\<Sum>d \<in># hy_nodes h. snaps d)"

definition hy_core :: "nat multiset \<Rightarrow> nat set \<Rightarrow> hybrid \<Rightarrow> bool" where
  "hy_core L X h \<longleftrightarrow>
     radix_inv L (hy_kv h) \<and> rn_mamba (hy_root h) = None \<and> (\<forall>d \<in># hy_nodes h. lock_ok L d) \<and>
     live (insert (rn_id (hy_root h)) X) (hy_root h) \<and>
     hy_mev h = (\<Sum>d \<in># hy_nodes h. mfree d) \<and> hy_mpr h = (\<Sum>d \<in># hy_nodes h. mheld d)"

abbreviation hy_inv :: "nat multiset \<Rightarrow> hybrid \<Rightarrow> bool" where
  "hy_inv L h \<equiv> hy_core L {} h"

lemma ksum_mset: "ksum g ks = (\<Sum>d \<in># mset (kdatas ks). g d)"
  unfolding ksum_def by (metis mset_map sum_mset_sum_list)

lemma hy_coreD:
  assumes "hy_core L X h"
  shows "radix_inv L (hy_kv h)" "rn_mamba (hy_root h) = None" "\<forall>d \<in># hy_nodes h. lock_ok L d"
    "live (insert (rn_id (hy_root h)) X) (hy_root h)"
    "hy_mev h = (\<Sum>d \<in># hy_nodes h. mfree d)" "hy_mpr h = (\<Sum>d \<in># hy_nodes h. mheld d)"
  using assms by (simp_all add: hy_core_def)

lemma hy_init_inv: "0 < p \<Longrightarrow> hy_inv {#} (hy_init p c tic)"
  by (simp add: hy_core_def hy_init_def radix_init_inv hy_nodes_def) (simp add: radix_init_def new_root_def)

lemma live_mono: "live X t \<Longrightarrow> X \<subseteq> Y \<Longrightarrow> live Y t"
  by (induction t) auto

lemma lives_other: "live (insert q X) t \<Longrightarrow> q \<notin> set (nids t) \<Longrightarrow> live X t"
proof (induction t)
  case (RNode d ks)
  have "q \<notin> set (nids x)" if "x \<in> set ks" for x
    using RNode.prems(2) that by (auto simp: kids_ids_def nids_def)
  then show ?case using RNode by auto
qed

lemma live_remove:
  assumes "live (insert q X) t" "distinct (nids t)"
    "\<And>x. find_node q t = Some x \<Longrightarrow> is_leaf x \<Longrightarrow> rn_mamba x \<noteq> None"
  shows "live X t"
  using assms
proof (induction t)
  case (RNode d ks)
  show ?case
  proof (cases "nd_id d = q")
    case True
    have "q \<notin> set (nids x)" if "x \<in> set ks" for x
      using RNode.prems(2) that True by (auto simp: kids_ids_def nids_def)
    moreover have "ks = [] \<Longrightarrow> nd_mamba d \<noteq> None" using RNode.prems(3) [of "RNode d ks"] True by (simp add: is_leaf_def)
    ultimately show ?thesis using RNode.prems(1) lives_other by auto
  next
    case False
    have "live X x" if x: "x \<in> set ks" for x
    proof -
      obtain as bs where ks: "ks = as @ x # bs" using split_list [OF x] by blast
      show ?thesis
      proof (cases "q \<in> set (nids x)")
        case True
        then have "find_kids q as = None" using RNode.prems(2) ks find_None_iff(2) [of q as] by auto
        then have f: "find_node q (RNode d ks) = find_node q x"
          using False True find_None_iff(1) [of q x] by (auto simp: ks find_kids_append)
        show ?thesis using RNode.IH [OF x] RNode.prems x f by (auto simp: ks)
      next
        case False
        then show ?thesis using RNode.prems(1) x lives_other by auto
      qed
    qed
    then show ?thesis using RNode.prems(1) False by auto
  qed
qed

section \<open>The walk\<close>

definition walk_stable :: "nat \<Rightarrow> (ndata \<Rightarrow> bool) \<Rightarrow> bool" where
  "walk_stable c P \<longleftrightarrow> (\<forall>d t. P d \<longrightarrow> P (d\<lparr>nd_time := t\<rparr>)) \<and>
     (\<forall>d k v. P d \<longrightarrow> P (d\<lparr>nd_key := k, nd_val := v\<rparr>)) \<and> (\<forall>k v r t. P (new_ndata c k v r t))"

lemma walk_all:
  "walk p tic c ids x = (x', h, n, c') \<Longrightarrow> walk_stable c P \<Longrightarrow> \<forall>d \<in> set (kdatas (rn_kids x)). P d \<Longrightarrow>
     \<forall>d \<in> set (kdatas (rn_kids x')). P d"
  "walk_kids p tic c ids ks = Some (ks', h, n, c') \<Longrightarrow> walk_stable c P \<Longrightarrow> \<forall>d \<in> set (kdatas ks). P d \<Longrightarrow>
     \<forall>d \<in> set (kdatas ks'). P d"
proof (induction p tic c ids x and p tic c ids ks arbitrary: x' h n c' and ks' h n c'
    rule: walk_walk_kids.induct)
  case (1 p tic c ids d ks)
  then show ?case by (auto split: if_splits option.splits)
next
  case (3 p tic c ids x xs)
  have st: "P d \<Longrightarrow> P (d\<lparr>nd_time := t\<rparr>)" "P d \<Longrightarrow> P (d\<lparr>nd_key := k, nd_val := v\<rparr>)"
    "P (new_ndata c k v r t)" "P (new_ndata c k v r t\<lparr>nd_time := t'\<rparr>)" for d t t' k v r
    using "3.prems"(2) by (auto simp: walk_stable_def)
  have px: "P (rn_data x)" "\<forall>d \<in> set (kdatas (rn_kids x)). P d" "\<forall>d \<in> set (kdatas xs). P d"
    using "3.prems"(3) by (cases x; auto)+
  show ?case
  proof (cases "key_fn p (rn_key x) = key_fn p ids")
    case False
    then obtain ks2 where "walk_kids p tic c ids xs = Some (ks2, h, n, c')" "ks' = x # ks2"
      using "3.prems"(1) by auto
    then show ?thesis using "3.IH"(2) [OF False _ "3.prems"(2) px(3)] "3.prems"(3) by auto
  next
    case True
    define m where "m = nalign (fast_compare_key (rn_key x) ids) p"
    show ?thesis
    proof (cases "m = length (rn_key x)")
      case False
      then have "ks' = touch tic (split_at c m x) # xs" using True "3.prems"(1) by (auto simp: m_def [symmetric] Let_def)
      then show ?thesis using px st by (auto simp: touch_def split_at_def Let_def)
    next
      case eq: True
      obtain y n2 where w: "walk p tic c (drop m ids) x = (y, h, n2, c')" "ks' = touch tic y # xs"
        using "3.prems"(1) True eq by (auto simp: m_def [symmetric] Let_def split: prod.splits)
      have "rn_data y = rn_data x" using walk_keeps_data [OF w(1)] .
      moreover have "\<forall>d \<in> set (kdatas (rn_kids y)). P d"
        using "3.IH"(1) [OF True m_def _ w(1) "3.prems"(2)] eq px(2) by blast
      ultimately show ?thesis using w(2) px st by (cases y) (auto simp: touch_def)
    qed
  qed
qed simp

lemma walk_live:
  "walk p tic c ids x = (x', h, n, c') \<Longrightarrow> live X x \<Longrightarrow> live X x'"
  "walk_kids p tic c ids ks = Some (ks', h, n, c') \<Longrightarrow> \<forall>x \<in> set ks. live X x \<Longrightarrow> ks \<noteq> [] \<and> ks' \<noteq> [] \<and> (\<forall>x \<in> set ks'. live X x)"
proof (induction p tic c ids x and p tic c ids ks arbitrary: x' h n c' and ks' h n c'
    rule: walk_walk_kids.induct)
  case (1 p tic c ids d ks)
  then show ?case by (auto split: if_splits option.splits)
next
  case (3 p tic c ids x xs)
  have t: "live X (touch tic y) = live X y" for y by (cases y) (simp add: touch_def)
  have s: "live X x \<Longrightarrow> live X (split_at c m x)" for m by (cases x) (simp add: split_at_def Let_def)
  show ?case
    using 3 t s by (cases "key_fn p (rn_key x) = key_fn p ids")
      (auto simp: Let_def split: if_splits prod.splits)
qed simp

lemma hy_core_step:
  assumes C: "hy_core L X h" and I: "radix_inv L r" and id: "rn_id (rx_root r) = rn_id (hy_root h)"
    and m: "rn_mamba (rx_root r) = None" and l: "\<forall>d \<in> set (kdatas (rn_kids (rx_root r))). lock_ok L d"
    and v: "live (insert (rn_id (hy_root h)) Y) (rx_root r)"
    and s: "(\<Sum>d \<in># mset (kdatas (rn_kids (rx_root r))). mfree d) = (\<Sum>d \<in># hy_nodes h. mfree d)"
      "(\<Sum>d \<in># mset (kdatas (rn_kids (rx_root r))). mheld d) = (\<Sum>d \<in># hy_nodes h. mheld d)"
  shows "hy_core L Y (h\<lparr>hy_kv := r\<rparr>)"
  using assms by (simp add: hy_core_def hy_nodes_def)

lemma walk_stable_lock: "count L c = 0 \<Longrightarrow> walk_stable c (lock_ok L)"
  by (simp add: walk_stable_def lock_ok_def)

lemma hy_walk_core:
  assumes C: "hy_core L X h" and w: "hy_walk tic ids h = ((i, n), h')"
  obtains t c where "walk (rx_page (hy_kv h)) tic (rx_counter (hy_kv h)) ids (hy_root h) = (t, i, n, c)"
    "h' = h\<lparr>hy_kv := (hy_kv h)\<lparr>rx_root := t, rx_counter := c\<rparr>\<rparr>" "hy_core L X h'"
    "kv_slots h' = kv_slots h" "snap_slots h' = snap_slots h"
proof -
  note D = hy_coreD [OF C]
  obtain t c where W: "walk (rx_page (hy_kv h)) tic (rx_counter (hy_kv h)) ids (hy_root h) = (t, i, n, c)"
    "h' = h\<lparr>hy_kv := (hy_kv h)\<lparr>rx_root := t, rx_counter := c\<rparr>\<rparr>"
    using w by (auto simp: hy_walk_def split: prod.splits)
  note I = radix_invD [OF D(1)]
  have d: "rn_data t = rn_data (hy_root h)" using walk_keeps_data [OF W(1)] .
  have s: "(\<Sum>d \<in># mset (kdatas (rn_kids t)). g d) = (\<Sum>d \<in># hy_nodes h. g d)" if "split_additive g"
    for g :: "ndata \<Rightarrow> 'm::cancel_comm_monoid_add"
    using walk_sum(1) [OF W(1) that I(4,1)] d by (simp add: nsum_rn ksum_mset hy_nodes_def)
  have l: "\<forall>d \<in> set (kdatas (rn_kids t)). lock_ok L d"
    using walk_all(1) [OF W(1) walk_stable_lock [OF fresh_count [OF D(1)]]] D(3) by (simp add: hy_nodes_def)
  have "hy_core L X (h\<lparr>hy_kv := (hy_kv h)\<lparr>rx_root := t, rx_counter := c\<rparr>\<rparr>)"
    by (rule hy_core_step [OF C walk_root(1) [OF D(1) W(1)]])
       (use d D(2) l walk_live(1) [OF W(1) D(4)] s [of mfree] s [of mheld] in simp_all)
  moreover have "kv_slots h' = kv_slots h" "snap_slots h' = snap_slots h"
    using s [of vmset] s [of snaps] by (simp_all add: W(2) kv_slots_def snap_slots_def hy_nodes_def)
  ultimately show ?thesis using that W by metis
qed

section \<open>Writing one node\<close>

lemma mset_at_node:
  assumes "d \<in> set ds" "distinct (map nd_id ds)"
  obtains M where "mset ds = add_mset d M" "mset (map (at_node (nd_id d) f) ds) = add_mset (f d) M"
    "\<forall>e \<in># M. nd_id e \<noteq> nd_id d"
proof -
  obtain as bs where ds: "ds = as @ d # bs" using split_list [OF assms(1)] by blast
  have o: "\<forall>e \<in> set (as @ bs). nd_id e \<noteq> nd_id d" using assms(2) by (fastforce simp: ds image_iff)
  then have m: "map (at_node (nd_id d) f) as = as" "map (at_node (nd_id d) f) bs = bs"
    by (auto simp: at_node_def intro: map_idI)
  show ?thesis
    by (rule that [of "mset (as @ bs)"]) (use o m in \<open>auto simp: ds at_node_def\<close>)
qed

lemma find_data: "find_node i t = Some x \<Longrightarrow> rn_data x \<in> set (datas t)" "find_kids i ks = Some x \<Longrightarrow> rn_data x \<in> set (kdatas ks)"
  by (induction i t and i ks rule: find_node_find_kids.induct) (auto split: if_splits option.splits)

lemma hy_find:
  assumes "hy_core L X h" "find_node i (hy_root h) = Some x" "i \<noteq> rn_id (hy_root h)"
  shows "rn_data x \<in># hy_nodes h" "rn_id x = i" "lock_ok L (rn_data x)"
proof -
  have "find_kids i (rn_kids (hy_root h)) = Some x" using assms(2,3) by (cases "hy_root h") auto
  then show "rn_data x \<in># hy_nodes h" unfolding hy_nodes_def using find_data(2) by (metis set_mset_mset)
  then show "lock_ok L (rn_data x)" using hy_coreD(3) [OF assms(1)] by blast
  show "rn_id x = i" using find_id(1) [OF assms(2)] .
qed

lemma kids_distinct: "radix_inv L r \<Longrightarrow> distinct (map nd_id (kdatas (rn_kids (rx_root r))))"
  using radix_invD(5) [of L r] by (cases "rx_root r") (simp add: nids_def)

lemma hy_upd_nodes:
  assumes C: "hy_core L X h" and f: "find_node i (hy_root h) = Some x" "i \<noteq> rn_id (hy_root h)"
  obtains M where "hy_nodes h = add_mset (rn_data x) M" "hy_nodes (upd_node i f h) = add_mset (f (rn_data x)) M"
    "\<forall>e \<in># M. nd_id e \<noteq> i"
proof -
  have m: "rn_data x \<in> set (kdatas (rn_kids (hy_root h)))" "nd_id (rn_data x) = i" using hy_find [OF C f] by (simp_all add: hy_nodes_def)
  obtain M where "hy_nodes h = add_mset (rn_data x) M"
    "mset (map (at_node i f) (kdatas (rn_kids (hy_root h)))) = add_mset (f (rn_data x)) M" "\<forall>e \<in># M. nd_id e \<noteq> i"
    using mset_at_node [OF m(1) kids_distinct [OF hy_coreD(1) [OF C]], of f] m(2) unfolding hy_nodes_def by metis
  then show ?thesis using that [of M] by (simp add: datas_map_comp hy_nodes_def)
qed

lemma live_map:
  assumes "live X t" "quiet f" "\<And>d. nd_mamba d \<noteq> None \<or> nd_id d \<in> X \<Longrightarrow> nd_mamba (f d) \<noteq> None \<or> nd_id d \<in> Y"
  shows "live Y (node_map f t)"
  using assms(1) by (induction t) (use assms(2,3) in \<open>auto simp: quietD\<close>)

lemma upd_radix: "quiet f \<Longrightarrow> radix_inv L (hy_kv (upd_node i f h)) = radix_inv L (hy_kv h)"
  using radix_inv_map [of "at_node i f" L "hy_root h" "hy_kv h"] by (simp add: upd_node_def set_root_def)

lemma upd_same [simp]:
  "hy_mev (upd_node i f h) = hy_mev h" "hy_mpr (upd_node i f h) = hy_mpr h"
  by (simp_all add: upd_node_def set_root_def)

text \<open>Deleting an unreferenced leaf that has lost its snapshot.\<close>

definition kv_kept :: "hybrid \<Rightarrow> slot list \<Rightarrow> hybrid \<Rightarrow> bool" where
  "kv_kept h out h' \<longleftrightarrow>
     cached (hy_kv h') \<subseteq> cached (hy_kv h) \<and> kv_slots h = mset out + kv_slots h' \<and>
     rx_evictable (hy_kv h') = rx_evictable (hy_kv h) - int (length out) \<and>
     rx_protected (hy_kv h') = rx_protected (hy_kv h) \<and> rx_page (hy_kv h') = rx_page (hy_kv h) \<and>
     rn_id (hy_root h') = rn_id (hy_root h) \<and> set (nids (hy_root h')) \<subseteq> set (nids (hy_root h)) \<and>
     (\<forall>g \<in> set (nids (hy_root h')). get_matched_indices (0, g) (hy_kv h') = get_matched_indices (0, g) (hy_kv h))"

lemma kv_kept_refl: "kv_kept h [] h"
  by (simp add: kv_kept_def)

lemma kv_kept_trans: "kv_kept h xs h1 \<Longrightarrow> kv_kept h1 ys h2 \<Longrightarrow> kv_kept h (xs @ ys) h2"
  unfolding kv_kept_def by auto

lemma lives_minus: "live X t \<Longrightarrow> i \<notin> set (nids t) \<Longrightarrow> live (insert q (X - {i})) t"
  by (rule live_mono [OF lives_other [of i "X - {i}"]]) (auto elim: live_mono)

lemma del_live:
  "live X t \<Longrightarrow> parent_of i t = Some q \<Longrightarrow> distinct (nids t) \<Longrightarrow> live (insert q (X - {i})) (del_node i t)"
proof (induction t)
  case (RNode d ks)
  have lv: "\<forall>y \<in> set ks. live X y" "ks = [] \<longrightarrow> nd_mamba d \<noteq> None \<or> nd_id d \<in> X" using RNode.prems(1) by auto
  have ik: "i \<in> set (kids_ids ks)"
    using parent_of_None [of i "RNode d ks"] parent_kids_None [of i ks] RNode.prems(2) kid_id_in
    by (auto split: if_splits)
  obtain as y bs where ks: "ks = as @ y # bs" and iy: "i \<in> set (nids y)" using kid_of_id [OF ik] by blast
  have o: "i \<notin> set (kids_ids as)" "i \<notin> set (kids_ids bs)" using RNode.prems(3) ks iy by auto
  have rest: "live (insert q (X - {i})) z" if "z \<in> set as \<union> set bs" for z
  proof (rule lives_minus)
    show "live X z" using lv that ks by auto
    show "i \<notin> set (nids z)" using o that by (auto simp: kids_ids_def nids_def)
  qed
  note dk = del_kids_other [OF o(1)] del_kids_other [OF o(2)]
  show ?case
  proof (cases "rn_id y = i")
    case True
    then have "nd_id d = q" using RNode.prems(2) ks by (auto split: if_splits)
    moreover have "del_node i (RNode d ks) = RNode d (as @ bs)" using dk True by (simp add: ks)
    ultimately show ?thesis using rest by auto
  next
    case False
    have dl: "del_node i (RNode d ks) = RNode d (as @ del_node i y # bs)" using dk False by (simp add: ks)
    have "i \<notin> rn_id ` set ks" using o kid_id_in False by (fastforce simp: ks)
    then have "parent_of i y = Some q"
      using RNode.prems(2) parent_kids_None [OF o(1)] parent_kids_None [OF o(2)]
      by (simp add: ks parent_kids_append split: option.splits)
    then have "live (insert q (X - {i})) (del_node i y)"
      using RNode.IH [of y] lv RNode.prems(3) by (auto simp: ks)
    then show ?thesis unfolding dl using rest by auto
  qed
qed

lemma unlink_core:
  assumes C: "hy_core L {i} h" and f: "find_node i (hy_root h) = Some x" "rn_ref x = 0" "is_leaf x"
      "parent_of i (hy_root h) = Some q" "rn_mamba x = None"
    and h': "h' = unlink i (add_full_evictable (- int (length (rn_key x))) h)"
  shows "hy_core L {q} h'" "kv_kept h (rn_val x) h'" "snap_slots h' = snap_slots h" "hy_mev h' = hy_mev h"
    "length (rn_val x) = length (rn_key x)" "q \<in> set (nids (hy_root h'))"
    "add_mset (heap_entry (rn_data x)) (mset (collect (hy_root h'))) = now_free q (hy_root h') + mset (collect (hy_root h))"
    "hy_nodes h = add_mset (rn_data x) (hy_nodes h')"
proof -
  note D = hy_coreD [OF C]
  have eta: "radix_inv L ((hy_kv h)\<lparr>rx_root := hy_root h, rx_evictable := rx_evictable (hy_kv h)\<rparr>)"
    using D(1) by simp
  note E = evict_step [OF eta f(1-4)]
  note I = radix_invD [OF D(1)]
  let ?t = "del_node i (hy_root h)"
  have k: "hy_kv h' = (hy_kv h)\<lparr>rx_root := ?t, rx_evictable := rx_evictable (hy_kv h) - int (length (rn_key x))\<rparr>"
    and ms: "hy_mev h' = hy_mev h" "hy_mpr h' = hy_mpr h"
    by (simp_all add: h' unlink_def set_root_def add_full_evictable_def)
  have hx: "rn_id x = i" using find_id(1) [OF f(1)] .
  have dc: "del_ok (rx_page (hy_kv h)) x q (hy_root h) ?t"
    using del_correct [OF f(1,4) I(5,4) f(2,3)] by simp
  have "mset (datas (hy_root h)) = add_mset (rn_data x) (mset (datas ?t))" using dc by (simp add: del_ok_def)
  moreover have "datas t = rn_data t # kdatas (rn_kids t)" for t by (cases t) simp
  ultimately show N: "hy_nodes h = add_mset (rn_data x) (hy_nodes h')"
    by (simp add: k hy_nodes_def del: datas.simps)
  show "length (rn_val x) = length (rn_key x)" using E(2) by (simp add: evicted_def)
  show "snap_slots h' = snap_slots h" "hy_mev h' = hy_mev h"
    using f(5) by (simp_all add: snap_slots_def N ms snaps_def)
  show "q \<in> set (nids (hy_root h'))" using del_correct [OF f(1,4) I(5,4) f(2,3)] by (simp add: k)
  have "live (insert q (insert (rn_id (hy_root h)) {i} - {i})) ?t"
    by (rule del_live [OF D(4) f(4) I(5)])
  then have "live (insert (rn_id (hy_root h)) {q}) ?t" by (rule live_mono) auto
  moreover have "mfree (rn_data x) = 0" "mheld (rn_data x) = 0" using f(5) by (simp_all add: mfree_def mheld_def)
  ultimately show "hy_core L {q} h'"
    using D(2,3,5,6) E(1) unfolding hy_core_def N by (simp add: k ms)
  show "kv_kept h (rn_val x) h'"
    using E(2) unfolding kv_kept_def evicted_def
    by (auto simp: k cached_def kv_slots_def hy_nodes_def ksum_mset get_matched_indices_def)
  show "add_mset (heap_entry (rn_data x)) (mset (collect (hy_root h'))) = now_free q (hy_root h') + mset (collect (hy_root h))"
    using E(3) hx by (simp add: k heap_entry_def)
qed

text \<open>What a deletion leaves of the snapshots: nodes that own none go.\<close>

definition bare_gone :: "hybrid \<Rightarrow> hybrid \<Rightarrow> bool" where
  "bare_gone h h' \<longleftrightarrow> snap_slots h' = snap_slots h \<and> hy_mev h' = hy_mev h \<and>
     (\<exists>D. hy_nodes h = D + hy_nodes h' \<and> (\<forall>d \<in># D. nd_mamba d = None))"

lemma bare_gone_refl: "bare_gone h h"
  by (simp add: bare_gone_def)

lemma bare_gone_trans: "bare_gone h h1 \<Longrightarrow> bare_gone h1 h2 \<Longrightarrow> bare_gone h h2"
proof -
  assume a: "bare_gone h h1" "bare_gone h1 h2"
  obtain D1 where "hy_nodes h = D1 + hy_nodes h1" "\<forall>d \<in># D1. nd_mamba d = None"
    using a(1) unfolding bare_gone_def by blast
  moreover obtain D2 where "hy_nodes h1 = D2 + hy_nodes h2" "\<forall>d \<in># D2. nd_mamba d = None"
    using a(2) unfolding bare_gone_def by blast
  ultimately have "\<exists>D. hy_nodes h = D + hy_nodes h2 \<and> (\<forall>d \<in># D. nd_mamba d = None)"
    by (intro exI [of _ "D1 + D2"]) auto
  then show "bare_gone h h2" using a unfolding bare_gone_def by simp
qed

lemma live_settle:
  assumes C: "hy_core L {q} h" and q: "q \<noteq> rn_id (hy_root h) \<longrightarrow> (\<exists>x. find_node q (hy_root h) = Some x \<and> (is_leaf x \<longrightarrow> rn_mamba x \<noteq> None))"
  shows "hy_inv L h"
proof -
  note D = hy_coreD [OF C]
  have "live {rn_id (hy_root h)} (hy_root h)"
  proof (cases "q = rn_id (hy_root h)")
    case True
    then show ?thesis using D(4) by simp
  next
    case False
    then show ?thesis
      using live_remove [of q "{rn_id (hy_root h)}" "hy_root h"] D(4) q radix_invD(5) [OF D(1)]
      by (auto simp: insert_commute)
  qed
  then show ?thesis using C by (simp add: hy_core_def)
qed

lemma root_not_free: "radix_inv L r \<Longrightarrow> now_free (rn_id (rx_root r)) (rx_root r) = {#}"
  using radix_invD(11) [of L r] by (simp add: now_free_def)

lemma locked_ref:
  assumes I: "radix_inv L r" and f: "find_node i (rx_root r) = Some x" "i \<noteq> rn_id (rx_root r)" and z: "rn_ref x = 0"
  shows "count L i = 0"
proof -
  have "find_kids i (rn_kids (rx_root r)) = Some x" using f by (cases "rx_root r") auto
  then have "ref_ok L x" using find_sub(2) radix_invD(8) [OF I] by blast
  moreover have "rn_id x = i" using find_id(1) [OF f(1)] .
  ultimately show ?thesis using z refs_nonneg [of L "rn_kids x"] by (cases x) (auto simp: ref_ok_RNode)
qed

lemma parent_exists:
  "i \<in> set (nids t) \<Longrightarrow> i \<noteq> rn_id t \<Longrightarrow> \<exists>q. parent_of i t = Some q"
  "i \<in> set (kids_ids ks) \<Longrightarrow> i \<notin> rn_id ` set ks \<Longrightarrow> \<exists>q. parent_kids i ks = Some q"
  by (induction i t and i ks rule: parent_of_parent_kids.induct) (auto split: option.splits)

lemma bare_leaf_unlocked:
  assumes C: "hy_core L X h" and f: "find_node i (hy_root h) = Some x" "i \<noteq> rn_id (hy_root h)"
    and x: "is_leaf x" "rn_mamba x = None \<or> rn_mref x = 0"
  shows "rn_ref x = 0"
proof -
  have "find_kids i (rn_kids (hy_root h)) = Some x" using f by (cases "hy_root h") auto
  then have "ref_ok L x" using find_sub(2) radix_invD(8) [OF hy_coreD(1) [OF C]] by blast
  then show ?thesis using hy_find(3) [OF C f] x by (cases x) (auto simp: ref_ok_RNode is_leaf_def lock_ok_def)
qed

lemma cascade_core:
  assumes "cascade q kv n h = (q', kv', n', h')" "hy_core L {q} h" "q \<in> set (nids (hy_root h))"
    "mset (collect (hy_root h)) = now_free q (hy_root h) + Z"
  shows "\<exists>out. kv' = kv @ out \<and> n' = n + length out \<and> hy_inv L h' \<and> kv_kept h out h' \<and> bare_gone h h' \<and>
     q' \<in> set (nids (hy_root h')) \<and> mset (collect (hy_root h')) = now_free q' (hy_root h') + Z"
  using assms
proof (induction q kv n h rule: cascade.induct)
  case (1 q kv n h)
  obtain x where f: "find_node q (hy_root h) = Some x"
    using "1.prems"(3) find_None_iff(1) [of q "hy_root h"] by auto
  note D = hy_coreD [OF "1.prems"(2)]
  show ?case
  proof (cases "rn_mamba x = None \<and> is_leaf x \<and> rn_ref x = 0 \<and> q \<noteq> rn_id (hy_root h)")
    case False
    then have r: "q' = q" "kv' = kv" "n' = n" "h' = h"
      using "1.prems"(1) f by (subst (asm) cascade.simps; auto)+
    have "hy_inv L h"
    proof (rule live_settle [OF "1.prems"(2)], intro impI exI conjI)
      show "find_node q (hy_root h) = Some x" using f .
      assume "q \<noteq> rn_id (hy_root h)" "is_leaf x"
      then show "rn_mamba x \<noteq> None"
        using False bare_leaf_unlocked [OF "1.prems"(2) f] by (cases "rn_mamba x") auto
    qed
    then show ?thesis using r "1.prems" kv_kept_refl bare_gone_refl by auto
  next
    case True
    obtain p where p: "parent_of q (hy_root h) = Some p" using parent_exists(1) "1.prems"(3) True by blast
    define h1 where "h1 = unlink q (add_full_evictable (- int (length (rn_key x))) h)"
    note U = unlink_core [OF "1.prems"(2) f _ _ p _ h1_def]
    have x: "rn_ref x = 0" "is_leaf x" "rn_mamba x = None" using True by auto
    have e: "heap_entry (rn_data x) = (rn_time x, q)" using find_id(1) [OF f] by (simp add: heap_entry_def)
    have "now_free q (hy_root h) = {#(rn_time x, q)#}" using f x by (simp add: now_free_def)
    then have c1: "mset (collect (hy_root h1)) = now_free p (hy_root h1) + Z"
      using U(7) [OF x] "1.prems"(4) e by simp
    have cs: "cascade p (kv @ rn_val x) (n + length (rn_key x)) h1 = (q', kv', n', h')"
      using "1.prems"(1) f p True by (subst (asm) cascade.simps) (simp add: h1_def)
    obtain out where o: "kv' = (kv @ rn_val x) @ out" "n' = n + length (rn_key x) + length out" "hy_inv L h'"
      "kv_kept h1 out h'" "bare_gone h1 h'" "q' \<in> set (nids (hy_root h'))"
      "mset (collect (hy_root h')) = now_free q' (hy_root h') + Z"
      using "1.IH" [OF f True p] cs U(1) [OF x] U(6) [OF x] c1 by (auto simp: h1_def)
    have "bare_gone h h1" using U(3,4,8) [OF x] x(3) by (auto simp: bare_gone_def)
    then have "bare_gone h h'" using bare_gone_trans o(5) by blast
    moreover have "kv_kept h (rn_val x @ out) h'" using kv_kept_trans [OF U(2) [OF x] o(4)] .
    ultimately show ?thesis using o U(5) [OF x] by (intro exI [of _ "rn_val x @ out"]) simp
  qed
qed

section \<open>Freeing a snapshot\<close>

lemma count_locked: "hy_core L X h \<Longrightarrow> find_node i (hy_root h) = Some x \<Longrightarrow> i \<noteq> rn_id (hy_root h) \<Longrightarrow> rn_mref x = 0 \<Longrightarrow> count L i = 0"
  using hy_find(2,3) [of L X h i x] by (simp add: lock_ok_def)

lemma upd_kept:
  assumes "quiet f"
  shows "kv_kept h [] (upd_node i f h)" "collect (hy_root (upd_node i f h)) = collect (hy_root h)"
proof -
  have q: "quiet (at_node i f)" using assms by simp
  have v: "vmset \<circ> at_node i f = vmset" using q by (simp add: fun_eq_iff vmset_def quietD)
  have "kv_slots (upd_node i f h) = kv_slots h"
    unfolding kv_slots_def hy_nodes_def ksum_mset [symmetric] by (simp add: ksum_node_map v)
  moreover have "get_matched_indices (0, g) (hy_kv (upd_node i f h)) = get_matched_indices (0, g) (hy_kv h)" for g
    by (simp add: upd_node_def set_root_def get_matched_indices_def path_map [OF q] option.map_comp comp_def map_tl quietD [OF q])
  ultimately show "kv_kept h [] (upd_node i f h)"
    by (simp add: kv_kept_def nids_map [OF q] quietD [OF q])
      (simp add: upd_node_def set_root_def cached_def prefs_map [OF q])
  show "collect (hy_root (upd_node i f h)) = collect (hy_root h)" by (simp add: collect_map [OF q])
qed

lemma free_core:
  assumes C: "hy_core L X h" and f: "find_node i (hy_root h) = Some x" "i \<noteq> rn_id (hy_root h)"
    and s: "rn_mamba x = Some s" "rn_mref x = 0"
  defines "g \<equiv> at_node i (\<lambda>d. d\<lparr>nd_mamba := None\<rparr>)"
  obtains h' where "free_node_mamba i out h = (out @ [s], h')" "hy_core L (insert i X) h'"
    "kv_kept h [] h'" "snap_slots h = add_mset s (snap_slots h')" "hy_mev h' = hy_mev h - 1"
    "hy_root h' = node_map g (hy_root h)" "hy_kv h' = (hy_kv h)\<lparr>rx_root := node_map g (hy_root h)\<rparr>"
    "\<exists>M. hy_nodes h = add_mset (rn_data x) M \<and> hy_nodes h' = add_mset ((rn_data x)\<lparr>nd_mamba := None\<rparr>) M \<and>
       (\<forall>e \<in># M. nd_id e \<noteq> i)"
    "\<And>a. free_node_mamba i out (add_full_evictable a h) = (out @ [s], add_full_evictable a h')"
proof -
  let ?f = "\<lambda>d. d\<lparr>nd_mamba := None\<rparr>"
  let ?h1 = "upd_node i ?f h"
  let ?h' = "?h1\<lparr>hy_mev := hy_mev h - 1\<rparr>"
  note D = hy_coreD [OF C]
  have q: "quiet g" by (simp add: g_def)
  obtain M where M: "hy_nodes h = add_mset (rn_data x) M" "hy_nodes ?h1 = add_mset ((rn_data x)\<lparr>nd_mamba := None\<rparr>) M"
    "\<forall>e \<in># M. nd_id e \<noteq> i"
    using hy_upd_nodes [OF C f, of ?f] by metis
  have d: "rn_mamba x = Some s" "mfree (rn_data x) = 1" "mheld (rn_data x) = 0"
    using s by (simp_all add: mfree_def mheld_def)
  have z: "mfree ((rn_data x)\<lparr>nd_mamba := None\<rparr>) = 0" "mheld ((rn_data x)\<lparr>nd_mamba := None\<rparr>) = 0"
    "snaps ((rn_data x)\<lparr>nd_mamba := None\<rparr>) = {#}" "snaps (rn_data x) = {#s#}"
    using s by (simp_all add: mfree_def mheld_def snaps_def)
  have l: "lock_ok L ((rn_data x)\<lparr>nd_mamba := None\<rparr>)"
    using hy_find(2,3) [OF C f] count_locked [OF C f s(2)] by (simp add: lock_ok_def)
  have "live (insert (rn_id (hy_root h)) (insert i X)) (node_map g (hy_root h))"
    by (rule live_map [OF D(4) q]) (auto simp: g_def at_node_def)
  moreover have "rn_mamba (hy_root ?h1) = None" using D(2) f(2) by (simp add: at_node_def)
  ultimately have "hy_core L (insert i X) ?h'"
    using D(3,5,6) l z d M quietD(1) [OF q] unfolding hy_core_def by (simp add: upd_radix D(1) g_def [symmetric])
  moreover have "kv_kept h [] ?h'" using upd_kept(1) [of ?f h i] by (simp add: kv_kept_def kv_slots_def)
  moreover have "snap_slots h = add_mset s (snap_slots ?h')" using z by (simp add: snap_slots_def M(1,2))
  moreover have "free_node_mamba i out h = (out @ [s], ?h')" using f s by (simp add: free_node_mamba_def Let_def)
  moreover have "free_node_mamba i out (add_full_evictable a h) = (out @ [s], add_full_evictable a ?h')" for a
    using f s by (simp add: free_node_mamba_def Let_def) (simp add: add_full_evictable_def upd_node_def set_root_def)
  ultimately show ?thesis
    using that [of ?h'] M(1,3) M(2)
    by (auto simp: g_def) (simp add: upd_node_def set_root_def)
qed

section \<open>Dropping a leaf\<close>

lemma filter_mset_none: "\<forall>d \<in># D. \<not> P d \<Longrightarrow> filter_mset P D = {#}"
  by (induction D) auto

definition bearers :: "hybrid \<Rightarrow> ndata multiset" where
  "bearers h = filter_mset (\<lambda>d. nd_mamba d \<noteq> None) (hy_nodes h)"

lemma leaf_live:
  "find_node i t = Some x \<Longrightarrow> live X t \<Longrightarrow> is_leaf x \<Longrightarrow> rn_mamba x \<noteq> None \<or> i \<in> X"
  "find_kids i ks = Some x \<Longrightarrow> \<forall>y \<in> set ks. live X y \<Longrightarrow> is_leaf x \<Longrightarrow> rn_mamba x \<noteq> None \<or> i \<in> X"
  by (induction i t and i ks rule: find_node_find_kids.induct)
     (auto simp: is_leaf_def split: if_splits option.splits)

lemma leaf_collected:
  "find_node i t = Some x \<Longrightarrow> is_leaf x \<Longrightarrow> rn_ref x = 0 \<Longrightarrow> heap_entry (rn_data x) \<in> set (collect t)"
  "find_kids i ks = Some x \<Longrightarrow> is_leaf x \<Longrightarrow> rn_ref x = 0 \<Longrightarrow> heap_entry (rn_data x) \<in> set (concat (map collect ks))"
proof (induction i t and i ks rule: find_node_find_kids.induct)
  case (1 h d ks)
  show ?case
  proof (cases "nd_id d = h")
    case True
    then show ?thesis using 1 by (auto simp: is_leaf_def collect_leaf heap_entry_def)
  next
    case False
    then have "ks \<noteq> []" using "1.prems"(1) by auto
    then show ?thesis using 1 False by (simp add: collect_ne)
  qed
qed (auto split: option.splits)

lemma drop_leaf_core:
  assumes C: "hy_inv L h" and f: "find_node i (hy_root h) = Some x" "rn_ref x = 0" "is_leaf x"
      "parent_of i (hy_root h) = Some q"
    and d: "drop_leaf i x q kv mam h = (hi, kv', casc, mam', h')"
  obtains out s where "rn_mamba x = Some s" "kv' = kv @ out" "length (rn_key x) + casc = length out" "mam' = mam @ [s]"
    "hy_inv L h'" "kv_kept h out h'" "snap_slots h = add_mset s (snap_slots h')" "hy_mev h' = hy_mev h - 1"
    "hi \<in> set (nids (hy_root h'))"
    "add_mset (heap_entry (rn_data x)) (mset (collect (hy_root h'))) = now_free hi (hy_root h') + mset (collect (hy_root h))"
    "bearers h = add_mset (rn_data x) (bearers h')"
proof -
  note D = hy_coreD [OF C]
  have ni: "i \<noteq> rn_id (hy_root h)" using f(1,2) radix_invD(11) [OF D(1)] by (cases "hy_root h") auto
  have "rn_mamba x \<noteq> None" using leaf_live(1) [OF f(1) D(4) f(3)] ni by simp
  then obtain s where s: "rn_mamba x = Some s" by blast
  have mr: "rn_mref x = 0" using locked_ref [OF D(1) f(1) ni f(2)] hy_find(2,3) [OF C f(1) ni] by (simp add: lock_ok_def)
  let ?g = "at_node i (\<lambda>d. d\<lparr>nd_mamba := None\<rparr>)" and ?a = "- int (length (rn_key x))"
  have g: "quiet ?g" by simp
  obtain h1 M where F: "hy_core L {i} h1" "kv_kept h [] h1" "snap_slots h = add_mset s (snap_slots h1)"
    "hy_mev h1 = hy_mev h - 1" "hy_root h1 = node_map ?g (hy_root h)"
    "free_node_mamba i mam (add_full_evictable ?a h) = (mam @ [s], add_full_evictable ?a h1)"
    "hy_nodes h = add_mset (rn_data x) M" "hy_nodes h1 = add_mset ((rn_data x)\<lparr>nd_mamba := None\<rparr>) M" "\<forall>e \<in># M. nd_id e \<noteq> i"
    using free_core [OF C f(1) ni s mr, where out = mam] by metis
  let ?x = "node_map ?g x"
  have ix: "rn_id x = i" using find_id(1) [OF f(1)] .
  have dx: "rn_data ?x = (rn_data x)\<lparr>nd_mamba := None\<rparr>" using ix by (simp add: at_node_def)
  have f1: "find_node i (hy_root h1) = Some ?x" "rn_ref ?x = 0" "is_leaf ?x" "parent_of i (hy_root h1) = Some q" "rn_mamba ?x = None"
    using f dx by (simp_all add: F(5) find_map [OF g] parent_map [OF g])
  define h2 where "h2 = unlink i (add_full_evictable ?a h1)"
  have lk: "rn_key ?x = rn_key x" "rn_val ?x = rn_val x" "rn_time ?x = rn_time x" "rn_id ?x = rn_id x" using dx by simp_all
  note U = unlink_core [OF F(1) f1 h2_def [folded lk(1)], unfolded lk(1,2)]
  have he: "heap_entry (rn_data ?x) = heap_entry (rn_data x)" using lk by (simp add: heap_entry_def)
  obtain Z where Z: "mset (collect (hy_root h2)) = now_free q (hy_root h2) + Z" "mset (collect (hy_root h)) = add_mset (heap_entry (rn_data x)) Z"
  proof -
    have "heap_entry (rn_data x) \<in># mset (collect (hy_root h))" using leaf_collected(1) [OF f(1,3,2)] by simp
    then obtain Z where "mset (collect (hy_root h)) = add_mset (heap_entry (rn_data x)) Z"
      by (metis multi_member_split)
    moreover have "collect (hy_root h1) = collect (hy_root h)" by (simp add: F(5) collect_map [OF g])
    ultimately show ?thesis using that [of Z] U(7) [unfolded he] by simp
  qed
  have cs: "cascade q (kv @ rn_val x) 0 h2 = (hi, kv', casc, h')" and m': "mam' = mam @ [s]"
    using d F(6) by (auto simp: drop_leaf_def h2_def split: prod.splits)
  obtain out where O: "kv' = (kv @ rn_val x) @ out" "casc = length out" "hy_inv L h'" "kv_kept h2 out h'" "bare_gone h2 h'"
    "hi \<in> set (nids (hy_root h'))" "mset (collect (hy_root h')) = now_free hi (hy_root h') + Z"
    using cascade_core [OF cs U(1,6) Z(1)] by auto
  have "kv_kept h (rn_val x @ out) h'"
    using kv_kept_trans [OF kv_kept_trans [OF F(2) U(2)] O(4)] by simp
  moreover have "bearers h = add_mset (rn_data x) (bearers h')"
  proof -
    have M2: "hy_nodes h2 = M" using U(8) F(8) dx by simp
    obtain D where D: "M = D + hy_nodes h'" "\<forall>d \<in># D. nd_mamba d = None"
      using O(5) unfolding bare_gone_def M2 by blast
    have "filter_mset (\<lambda>d. nd_mamba d \<noteq> None) D = {#}" using filter_mset_none D(2) by simp
    then show ?thesis using s by (simp add: bearers_def F(7) D(1))
  qed
  ultimately show ?thesis
    using that [of s "rn_val x @ out"] s O(1-3,5-7) m' F(3,4) U(3-5) Z(2) by (simp add: bare_gone_def)
qed

section \<open>Evicting key/value slots\<close>

text \<open>The evicted snapshots leave the tree with the key/value slots.\<close>

definition hy_evicted :: "hybrid \<Rightarrow> slot list \<Rightarrow> slot list \<Rightarrow> hybrid \<Rightarrow> bool" where
  "hy_evicted h kv mam h' \<longleftrightarrow>
     kv_kept h kv h' \<and> snap_slots h = mset mam + snap_slots h' \<and> hy_mev h' = hy_mev h - int (length mam) \<and>
     bearers h' \<subseteq># bearers h"

lemma hy_evicted_refl: "hy_evicted h [] [] h"
  by (simp add: hy_evicted_def kv_kept_refl)

lemma hy_evicted_trans: "hy_evicted h kv mam h1 \<Longrightarrow> hy_evicted h1 kv2 mam2 h2 \<Longrightarrow> hy_evicted h (kv @ kv2) (mam @ mam2) h2"
  by (auto simp: hy_evicted_def intro: kv_kept_trans)

lemma heap_pop_in: "heap_pop xs = Some (e, ys) \<Longrightarrow> e \<in> set xs \<and> mset xs = add_mset e (mset ys)"
  using heap_pop_Some [of xs e ys] by (metis set_mset_mset union_single_eq_member)

lemma evict_full_loop_core:
  assumes "evict_full_loop need heap kv mam freed h = ((kv', mam'), h')" "hy_inv L h"
    "mset heap = mset (collect (hy_root h))"
  shows "\<exists>out mout. kv' = kv @ out \<and> mam' = mam @ mout \<and> hy_inv L h' \<and> hy_evicted h out mout h' \<and>
     (need \<le> freed + length out \<or> rx_evictable (hy_kv h') = 0)"
  using assms
proof (induction need heap kv mam freed h rule: evict_full_loop.induct)
  case (1 need heap kv mam freed h)
  note D = hy_coreD [OF "1.prems"(2)] and unf = evict_full_loop.simps [of need heap kv mam freed h]
  show ?case
  proof (cases "need \<le> freed")
    case True
    then show ?thesis using "1.prems" hy_evicted_refl by (auto simp: unf)
  next
    case nf: False
    show ?thesis
    proof (cases "heap_pop heap")
      case None
      then have "collect (hy_root h) = []" using "1.prems"(3) by (simp add: heap_pop_None)
      then have "\<not> 0 < rx_evictable (hy_kv h)"
        using collect_root [of "hy_root h" L] radix_invD(8,9,11) [OF D(1)] by auto
      moreover have "0 \<le> rx_evictable (hy_kv h)"
        unfolding radix_invD(9) [OF D(1)] ksum_def by (rule sum_list_nonneg) (auto simp: esz_def)
      moreover have "kv' = kv" "mam' = mam" "h' = h" using "1.prems"(1) None nf by (simp_all add: unf)
      ultimately show ?thesis using "1.prems"(2) hy_evicted_refl by auto
    next
      case (Some r)
      obtain ts i heap' where r: "r = ((ts, i), heap')" by (metis prod.exhaust)
      note hp = heap_pop_in [OF Some [unfolded r]]
      have ein: "(ts, i) \<in> set (collect (hy_root h))" using hp "1.prems"(3) by (metis set_mset_mset)
      obtain x where x: "find_node i (hy_root h) = Some x" "rn_ref x = 0" "is_leaf x" "ts = rn_time x"
          "x = hy_root h \<or> (\<exists>q. parent_of i (hy_root h) = Some q)"
        using collect_entry [OF ein radix_invD(5) [OF D(1)]] by blast
      then obtain q where q: "parent_of i (hy_root h) = Some q" using radix_invD(11) [OF D(1)] by auto
      obtain hi kv1 casc mam1 h1 where dl: "drop_leaf i x q kv mam h = (hi, kv1, casc, mam1, h1)"
        by (metis prod_cases5)
      obtain out s where O: "kv1 = kv @ out" "length (rn_key x) + casc = length out" "mam1 = mam @ [s]"
        "hy_inv L h1" "kv_kept h out h1" "snap_slots h = add_mset s (snap_slots h1)" "hy_mev h1 = hy_mev h - 1"
        "hi \<in> set (nids (hy_root h1))"
        "add_mset (heap_entry (rn_data x)) (mset (collect (hy_root h1))) = now_free hi (hy_root h1) + mset (collect (hy_root h))"
        "bearers h = add_mset (rn_data x) (bearers h1)"
        by (rule drop_leaf_core [OF "1.prems"(2) x(1-3) q dl])
      define heap1 where "heap1 = (case find_node hi (hy_root h1) of None \<Rightarrow> heap'
         | Some y \<Rightarrow> if is_leaf y \<and> rn_ref y = 0 \<and> hi \<noteq> rn_id (hy_root h1) then heap_entry (rn_data y) # heap' else heap')"
      have step: "evict_full_loop need heap1 kv1 mam1 (freed + length (rn_key x) + casc) h1 = ((kv', mam'), h')"
        using "1.prems"(1) nf Some r x q dl by (simp add: unf heap1_def)
      have m1: "mset heap1 = now_free hi (hy_root h1) + mset heap'"
      proof (cases "hi = rn_id (hy_root h1)")
        case True
        then have "heap1 = heap'" by (auto simp: heap1_def split: option.splits)
        then show ?thesis using True root_not_free [OF hy_coreD(1) [OF O(4)]] by simp
      next
        case False
        obtain y where "find_node hi (hy_root h1) = Some y" using O(8) find_None_iff(1) [of hi "hy_root h1"] by auto
        moreover have "heap_entry (rn_data y) = (rn_time y, hi)"
          using find_id(1) calculation by (simp add: heap_entry_def)
        ultimately show ?thesis using False by (simp add: heap1_def now_free_def)
      qed
      have "add_mset (ts, i) (mset heap1) = add_mset (ts, i) (mset (collect (hy_root h1)))"
        using m1 O(9) hp "1.prems"(3) x(4) find_id(1) [OF x(1)] by (simp add: heap_entry_def)
      then have mh: "mset heap1 = mset (collect (hy_root h1))" by simp
      have xs: "find_node (snd (ts, i)) (hy_root h) = Some x" "parent_of (snd (ts, i)) (hy_root h) = Some q"
        and dl': "(hi, kv1, casc, mam1, h1) = drop_leaf (snd (ts, i)) x q kv mam h"
        using x(1) q dl by simp_all
      have ev1: "hy_evicted h out [s] h1" using O(5-7,10) by (simp add: hy_evicted_def)
      have "\<exists>out2 mout. kv' = kv1 @ out2 \<and> mam' = mam1 @ mout \<and> hy_inv L h' \<and> hy_evicted h1 out2 mout h' \<and>
          (need \<le> freed + length (rn_key x) + casc + length out2 \<or> rx_evictable (hy_kv h') = 0)"
        by (rule "1.IH"(4) [OF nf Some r [symmetric] refl xs _ dl' refl refl refl step [unfolded heap1_def] O(4) mh [unfolded heap1_def]])
          (use x in simp)
      then obtain out2 mout where P: "kv' = kv1 @ out2" "mam' = mam1 @ mout" "hy_inv L h'" "hy_evicted h1 out2 mout h'"
          "need \<le> freed + length (rn_key x) + casc + length out2 \<or> rx_evictable (hy_kv h') = 0" by blast
      have "hy_evicted h (out @ out2) ([s] @ mout) h'" using hy_evicted_trans [OF ev1 P(4)] .
      then show ?thesis using P O(1-3) by (intro exI [of _ "out @ out2"] exI [of _ "[s] @ mout"]) auto
    qed
  qed
qed

section \<open>Evicting snapshots\<close>

definition cands :: "hybrid \<Rightarrow> (nat \<times> nat) multiset" where
  "cands h = image_mset heap_entry (filter_mset (\<lambda>d. nd_mref d = 0) (bearers h))"

lemma mfree_size: "(\<Sum>d \<in># M. mfree d) = int (size (filter_mset (\<lambda>d. nd_mref d = 0) (filter_mset (\<lambda>d. nd_mamba d \<noteq> None) M)))"
  by (induction M) (simp_all add: mfree_def)

lemma cands_size: "hy_core L X h \<Longrightarrow> hy_mev h = int (size (cands h))"
  by (simp add: hy_core_def mfree_size cands_def bearers_def)

lemma find_of_data:
  assumes C: "hy_core L X h" and d: "d \<in># hy_nodes h"
  obtains x where "find_node (nd_id d) (hy_root h) = Some x" "rn_data x = d" "nd_id d \<noteq> rn_id (hy_root h)"
proof -
  note I = radix_invD(5) [OF hy_coreD(1) [OF C]]
  have k: "d \<in> set (kdatas (rn_kids (hy_root h)))" using d by (simp add: hy_nodes_def)
  have i: "nd_id d \<in> set (kids_ids (rn_kids (hy_root h)))" using k by (simp add: kids_ids_def)
  have ne: "nd_id d \<noteq> rn_id (hy_root h)" using I i by (auto simp: nids_eta [of "hy_root h"])
  obtain x where x: "find_node (nd_id d) (hy_root h) = Some x"
    using i find_None_iff(1) [of "nd_id d" "hy_root h"] by (auto simp: nids_eta [of "hy_root h"])
  have "rn_data x \<in> set (kdatas (rn_kids (hy_root h)))" "rn_id x = nd_id d"
    using hy_find(1,2) [OF C x ne] by (simp_all add: hy_nodes_def)
  then have "rn_data x = d"
    using k kids_distinct [OF hy_coreD(1) [OF C]] by (auto simp: distinct_map dest: inj_onD)
  then show ?thesis using that x ne by blast
qed

lemma evict_mamba_loop_core:
  assumes "evict_mamba_loop num heap kv mam freed h = ((kv', mam'), h')" "hy_inv L h" "mset heap = cands h"
  shows "\<exists>out mout. kv' = kv @ out \<and> mam' = mam @ mout \<and> hy_inv L h' \<and> hy_evicted h out mout h' \<and>
     length mout = min (num - freed) (length heap)"
  using assms
proof (induction num heap kv mam freed h rule: evict_mamba_loop.induct)
  case (1 num heap kv mam freed h)
  note D = hy_coreD [OF "1.prems"(2)] and unf = evict_mamba_loop.simps [of num heap kv mam freed h]
  show ?case
  proof (cases "num \<le> freed \<or> heap_pop heap = None")
    case True
    then have "kv' = kv" "mam' = mam" "h' = h" "num \<le> freed \<or> heap = []"
      using "1.prems"(1) by (auto simp: unf heap_pop_None split: if_splits)
    then show ?thesis using "1.prems"(2) hy_evicted_refl by auto
  next
    case False
    then obtain ts i heap' where nf: "\<not> num \<le> freed" and hp: "heap_pop heap = Some ((ts, i), heap')" by force
    note hi = heap_pop_in [OF hp]
    have "(ts, i) \<in># cands h" using hi "1.prems"(3) by (metis set_mset_mset)
    then obtain d where d: "d \<in># hy_nodes h" "nd_mamba d \<noteq> None" "nd_mref d = 0" "(ts, i) = heap_entry d"
      by (auto simp: cands_def bearers_def)
    obtain x where x: "find_node i (hy_root h) = Some x" "rn_data x = d" "i \<noteq> rn_id (hy_root h)"
      using find_of_data [OF "1.prems"(2) d(1)] d(4) by (auto simp: heap_entry_def)
    have "i \<in> set (nids (hy_root h))" using x(1) find_None_iff(1) [of i "hy_root h"] by auto
    then obtain q where q: "parent_of i (hy_root h) = Some q" using parent_exists(1) x(3) by blast
    obtain s where s: "rn_mamba x = Some s" "rn_mref x = 0" using d x(2) by auto
    have cd: "mset heap' = cands h1" if "bearers h = add_mset (rn_data x) (bearers h1)" for h1
      using that hi "1.prems"(3) d(3,4) x(2) by (simp add: cands_def)
    have xs: "find_node (snd (ts, i)) (hy_root h) = Some x" "parent_of (snd (ts, i)) (hy_root h) = Some q"
      and ns: "\<not> (rn_mamba x = None \<or> rn_mref x \<noteq> 0)"
      using x(1) q s by simp_all
    have lh: "length heap = Suc (length heap')" using heap_pop_length [OF hp] .
    show ?thesis
    proof (cases "is_leaf x \<and> rn_ref x = 0")
      case lf: True
      obtain hi kv1 casc mam1 h1 where dl: "(hi, kv1, casc, mam1, h1) = drop_leaf (snd (ts, i)) x q kv mam h"
        by (metis prod_cases5)
      obtain out where O: "kv1 = kv @ out" "mam1 = mam @ [s]"
        "hy_inv L h1" "kv_kept h out h1" "snap_slots h = add_mset s (snap_slots h1)" "hy_mev h1 = hy_mev h - 1"
        "bearers h = add_mset (rn_data x) (bearers h1)"
        using lf s drop_leaf_core [OF "1.prems"(2) x(1) _ _ q, of kv mam hi kv1 casc mam1 h1] dl
        by (metis option.inject snd_conv)
      have step: "evict_mamba_loop num heap' kv1 mam1 (freed + 1) h1 = ((kv', mam'), h')"
        using "1.prems"(1) nf hp xs s lf dl [symmetric] by (simp add: unf)
      have ev1: "hy_evicted h out [s] h1" using O(4-7) by (simp add: hy_evicted_def)
      obtain out2 mout where P: "kv' = kv1 @ out2" "mam' = mam1 @ mout" "hy_inv L h'" "hy_evicted h1 out2 mout h'"
          "length mout = min (num - (freed + 1)) (length heap')"
        using "1.IH"(4) [OF nf hp refl refl xs ns lf dl refl refl refl step O(3) cd [OF O(7)]] by blast
      have "hy_evicted h (out @ out2) ([s] @ mout) h'" using hy_evicted_trans [OF ev1 P(4)] .
      then show ?thesis using P O(1,2) nf lh by (intro exI [of _ "out @ out2"] exI [of _ "[s] @ mout"]) auto
    next
      case lf: False
      obtain h1 where F: "free_node_mamba i mam h = (mam @ [s], h1)" "hy_core L {i} h1"
        "kv_kept h [] h1" "snap_slots h = add_mset s (snap_slots h1)" "hy_mev h1 = hy_mev h - 1"
        "bearers h = add_mset (rn_data x) (bearers h1)"
        "find_node i (hy_root h1) = Some (node_map (at_node i (\<lambda>d. d\<lparr>nd_mamba := None\<rparr>)) x)"
      proof -
        obtain h1 where F: "free_node_mamba i mam h = (mam @ [s], h1)" "hy_core L {i} h1"
          "kv_kept h [] h1" "snap_slots h = add_mset s (snap_slots h1)" "hy_mev h1 = hy_mev h - 1"
          "hy_root h1 = node_map (at_node i (\<lambda>d. d\<lparr>nd_mamba := None\<rparr>)) (hy_root h)"
          "\<exists>M. hy_nodes h = add_mset (rn_data x) M \<and> hy_nodes h1 = add_mset ((rn_data x)\<lparr>nd_mamba := None\<rparr>) M \<and>
            (\<forall>e \<in># M. nd_id e \<noteq> i)"
          using free_core [OF "1.prems"(2) x(1,3) s, where out = mam] by metis
        have "bearers h = add_mset (rn_data x) (bearers h1)" using F(7) s by (auto simp: bearers_def)
        then show ?thesis using that F(1-6) x(1) by (simp add: find_map)
      qed
      have "\<not> is_leaf x" using lf bare_leaf_unlocked [OF "1.prems"(2) x(1,3)] s by blast
      then have I1: "hy_inv L h1" using live_settle [OF F(2)] F(7) by simp
      have step: "evict_mamba_loop num heap' kv (mam @ [s]) (freed + 1) h1 = ((kv', mam'), h')"
        using "1.prems"(1) nf hp xs s lf F(1) by (auto simp: unf)
      have ev1: "hy_evicted h [] [s] h1" using F(3-6) by (simp add: hy_evicted_def)
      obtain out2 mout where P: "kv' = kv @ out2" "mam' = (mam @ [s]) @ mout" "hy_inv L h'" "hy_evicted h1 out2 mout h'"
          "length mout = min (num - (freed + 1)) (length heap')"
        using "1.IH"(5) [OF nf hp refl refl xs ns lf _ step I1 cd [OF F(6)]] F(1) by auto
      have "hy_evicted h ([] @ out2) ([s] @ mout) h'" using hy_evicted_trans [OF ev1 P(4)] .
      then show ?thesis using P nf lh by (intro exI [of _ out2] exI [of _ "[s] @ mout"]) auto
    qed
  qed
qed

section \<open>The two evictions\<close>

lemma snap_nodes_mset:
  "mset (snap_nodes t) = filter_mset (\<lambda>d. nd_mamba d \<noteq> None) (mset (datas t))"
  "mset (concat (map snap_nodes ks)) = filter_mset (\<lambda>d. nd_mamba d \<noteq> None) (mset (kdatas ks))"
proof -
  show t: "mset (snap_nodes t) = filter_mset (\<lambda>d. nd_mamba d \<noteq> None) (mset (datas t))" for t
  proof (induction t)
    case (RNode d ks)
    have "mset (concat (map snap_nodes (rev ks))) = filter_mset (\<lambda>d. nd_mamba d \<noteq> None) (mset (kdatas ks))"
      using RNode by (induction ks) auto
    then show ?case by simp
  qed
  show "mset (concat (map snap_nodes ks)) = filter_mset (\<lambda>d. nd_mamba d \<noteq> None) (mset (kdatas ks))"
    by (induction ks) (simp_all add: t)
qed

lemma concat_map_rev: "mset (concat (map f (rev ks))) = mset (concat (map f ks))"
  by (induction ks) auto

lemma hy_snapshots_bearers: "mset (hy_snapshots h) = bearers h"
  by (simp add: hy_snapshots_def concat_map_rev snap_nodes_mset bearers_def hy_nodes_def)

definition unref :: "ndata list \<Rightarrow> (nat \<times> nat) multiset" where
  "unref ds = mset (map heap_entry (filter (\<lambda>d. nd_ref d = 0) ds))"

lemma unref_concat: "unref (concat (map f (rev ks))) = unref (concat (map f ks))"
  by (induction ks) (auto simp: unref_def)

lemma leaf_nodes_collect: "unref (leaf_nodes t) = mset (collect t)"
proof (induction t)
  case (RNode d ks)
  show ?case
  proof (cases "ks = []")
    case True
    then show ?thesis by (simp add: collect_leaf unref_def heap_entry_def)
  next
    case False
    have "unref (concat (map leaf_nodes ks)) = mset (concat (map collect ks))"
      using RNode by (induction ks) (auto simp: unref_def)
    then show ?thesis using False unref_concat [of leaf_nodes ks] by (simp add: collect_ne)
  qed
qed

lemma hy_leaves_collect:
  assumes "rn_ref (hy_root h) = 1"
  shows "unref (hy_leaves h) = mset (collect (hy_root h))"
proof (cases "rn_kids (hy_root h) = []")
  case True
  then show ?thesis using assms by (cases "hy_root h") (simp add: hy_leaves_def unref_def collect_leaf)
next
  case False
  then have "unref (hy_leaves h) = unref (leaf_nodes (hy_root h))"
    by (cases "hy_root h") (simp add: hy_leaves_def)
  then show ?thesis by (simp add: leaf_nodes_collect)
qed

lemma evict_full_core:
  assumes C: "hy_inv L h" and e: "evict_full need h = ((kv, mam), h')"
  shows "hy_inv L h'" "hy_evicted h kv mam h'" "need \<le> length kv \<or> rx_evictable (hy_kv h') = 0"
proof -
  have "mset (map heap_entry (filter (\<lambda>d. nd_ref d = 0) (hy_leaves h))) = mset (collect (hy_root h))"
    using hy_leaves_collect [of h] radix_invD(11) [OF hy_coreD(1) [OF C]] by (simp add: unref_def)
  then show "hy_inv L h'" "hy_evicted h kv mam h'" "need \<le> length kv \<or> rx_evictable (hy_kv h') = 0"
    using evict_full_loop_core [OF e [unfolded evict_full_def] C] by auto
qed

lemma evict_mamba_core:
  assumes C: "hy_inv L h" and e: "evict_mamba num h = ((kv, mam), h')"
  shows "hy_inv L h'" "hy_evicted h kv mam h'" "length mam = min num (nat (hy_mev h))"
proof -
  have m: "mset (map heap_entry (filter (\<lambda>d. nd_mref d = 0) (hy_snapshots h))) = cands h"
    by (simp add: cands_def hy_snapshots_bearers [symmetric])
  have "nat (hy_mev h) = length (map heap_entry (filter (\<lambda>d. nd_mref d = 0) (hy_snapshots h)))"
    using cands_size [OF C] m by (metis nat_int size_mset)
  then show "hy_inv L h'" "hy_evicted h kv mam h'" "length mam = min num (nat (hy_mev h))"
    using evict_mamba_loop_core [OF e [unfolded evict_mamba_def] C m] by auto
qed

section \<open>Locks\<close>

lemma erase_node_map: "erase x = node_map (\<lambda>d. d\<lparr>nd_ref := 0\<rparr>) x"
  by (induction x) simp

lemma erase_image:
  assumes "map erase ks' = map erase ks" "\<And>d. g (d\<lparr>nd_ref := 0\<rparr>) = g d"
  shows "image_mset g (mset (kdatas ks')) = image_mset g (mset (kdatas ks))"
proof -
  have "map (\<lambda>d. d\<lparr>nd_ref := 0\<rparr>) (kdatas ks') = map (\<lambda>d. d\<lparr>nd_ref := 0\<rparr>) (kdatas ks)"
    using assms(1) unfolding erase_node_map [abs_def] by (metis datas_map(2))
  then have "map g (map (\<lambda>d. d\<lparr>nd_ref := 0\<rparr>) (kdatas ks')) = map g (map (\<lambda>d. d\<lparr>nd_ref := 0\<rparr>) (kdatas ks))"
    by (rule arg_cong)
  then have "map g (kdatas ks') = map g (kdatas ks)" by (simp add: comp_def assms(2))
  then show ?thesis by (metis mset_map)
qed

lemma live_erase: "live X (erase x) = live X x"
  by (induction x) auto

definition hy_side :: "nat multiset \<Rightarrow> hybrid \<Rightarrow> bool" where
  "hy_side L h \<longleftrightarrow> rn_mamba (hy_root h) = None \<and> (\<forall>d \<in># hy_nodes h. lock_ok L d) \<and>
     live {rn_id (hy_root h)} (hy_root h) \<and>
     hy_mev h = (\<Sum>d \<in># hy_nodes h. mfree d) \<and> hy_mpr h = (\<Sum>d \<in># hy_nodes h. mheld d)"

lemma hy_inv_side: "hy_inv L h \<longleftrightarrow> radix_inv L (hy_kv h) \<and> hy_side L h"
  by (auto simp: hy_core_def hy_side_def)

lemma hy_side_erase:
  assumes S: "hy_side L h" and e: "erase (rx_root r) = erase (hy_root h)"
  shows "hy_side L (h\<lparr>hy_kv := r\<rparr>)" "kv_slots (h\<lparr>hy_kv := r\<rparr>) = kv_slots h"
    "snap_slots (h\<lparr>hy_kv := r\<rparr>) = snap_slots h" "rn_id (rx_root r) = rn_id (hy_root h)"
proof -
  have k: "map erase (rn_kids (rx_root r)) = map erase (rn_kids (hy_root h))"
    and d: "(rn_data (rx_root r))\<lparr>nd_ref := 0\<rparr> = (rn_data (hy_root h))\<lparr>nd_ref := 0\<rparr>"
    using e by (simp_all add: erase_eta)
  have I: "image_mset g (hy_nodes (h\<lparr>hy_kv := r\<rparr>)) = image_mset g (hy_nodes h)"
    if "\<And>d. g (d\<lparr>nd_ref := 0\<rparr>) = g d" for g :: "ndata \<Rightarrow> 'b"
    using erase_image [OF k, of g] that by (simp add: hy_nodes_def)
  have f: "nd_mamba (rn_data (rx_root r)) = nd_mamba (rn_data (hy_root h))"
    using arg_cong [OF d, of nd_mamba] by simp
  show i: "rn_id (rx_root r) = rn_id (hy_root h)" using arg_cong [OF d, of nd_id] by simp
  have "set_mset (image_mset (lock_ok L) (hy_nodes (h\<lparr>hy_kv := r\<rparr>))) = set_mset (image_mset (lock_ok L) (hy_nodes h))"
    by (subst I) (simp_all add: lock_ok_def)
  then have l: "\<forall>d \<in># hy_nodes (h\<lparr>hy_kv := r\<rparr>). lock_ok L d" using S by (force simp: hy_side_def)
  have "live {rn_id (hy_root h)} (rx_root r)" using S live_erase e unfolding hy_side_def by metis
  moreover have "image_mset mfree (hy_nodes (h\<lparr>hy_kv := r\<rparr>)) = image_mset mfree (hy_nodes h)"
    "image_mset mheld (hy_nodes (h\<lparr>hy_kv := r\<rparr>)) = image_mset mheld (hy_nodes h)"
    by (rule I, simp add: mfree_def mheld_def)+
  ultimately show "hy_side L (h\<lparr>hy_kv := r\<rparr>)"
    using S l f i unfolding hy_side_def by simp
  have "image_mset vmset (hy_nodes (h\<lparr>hy_kv := r\<rparr>)) = image_mset vmset (hy_nodes h)"
    "image_mset snaps (hy_nodes (h\<lparr>hy_kv := r\<rparr>)) = image_mset snaps (hy_nodes h)"
    by (rule I, simp add: vmset_def snaps_def)+
  then show "kv_slots (h\<lparr>hy_kv := r\<rparr>) = kv_slots h" "snap_slots (h\<lparr>hy_kv := r\<rparr>) = snap_slots h"
    by (simp_all add: kv_slots_def snap_slots_def)
qed

lemma lock_erase: "lock_handle hnd u r = Inr r' \<Longrightarrow> erase (rx_root r') = erase (rx_root r)"
  by (cases "rx_root r") (auto simp: lock_handle_def bind_res_Inr erase_eta split: if_splits option.splits dest!: up_erase(2))

text \<open>Moving a node from one lock count to the next.\<close>

lemma hy_side_move:
  assumes S: "hy_side L h" and I: "radix_inv L0 (hy_kv h)" and f: "find_node i (hy_root h) = Some x" "i \<noteq> rn_id (hy_root h)"
    and m: "rn_mamba x = Some s"
    and L: "\<And>j. j \<noteq> i \<Longrightarrow> count L' j = count L j" "int (count L' i) = v"
    and h1: "h1 = (upd_node i (\<lambda>d. d\<lparr>nd_mref := g d\<rparr>) h)\<lparr>hy_mev := hy_mev h + (if v = 0 then 1 else 0) - (if rn_mref x = 0 then 1 else 0),
        hy_mpr := hy_mpr h + (if v = 0 then 0 else 1) - (if rn_mref x = 0 then 0 else 1)\<rparr>"
    and g: "g (rn_data x) = v"
  shows "hy_side L' h1" "kv_slots h1 = kv_slots h" "snap_slots h1 = snap_slots h"
proof -
  let ?f = "\<lambda>d. d\<lparr>nd_mref := g d\<rparr>" and ?g = "at_node i (\<lambda>d. d\<lparr>nd_mref := g d\<rparr>)"
  have fk: "find_kids i (rn_kids (hy_root h)) = Some x" using f by (cases "hy_root h") auto
  note m' = find_data(2) [OF fk] find_id(1) [OF f(1)]
  obtain M where M: "hy_nodes h = add_mset (rn_data x) M"
    "mset (map ?g (kdatas (rn_kids (hy_root h)))) = add_mset (?f (rn_data x)) M" "\<forall>e \<in># M. nd_id e \<noteq> i"
    using mset_at_node [OF m'(1) kids_distinct [OF I], of ?f, unfolded m'(2)] unfolding hy_nodes_def by blast
  have M1: "hy_nodes h1 = add_mset (?f (rn_data x)) M" using M(2) by (simp add: h1 hy_nodes_def datas_map_comp)
  have l: "\<forall>d \<in># hy_nodes h. lock_ok L d" "rn_mamba (hy_root h) = None" "live {rn_id (hy_root h)} (hy_root h)"
    using S by (auto simp: hy_side_def)
  have "\<forall>d \<in># M. lock_ok L' d" using l(1) M(1,3) L(1) by (auto simp: lock_ok_def)
  moreover have "lock_ok L' (?f (rn_data x))" using m'(2) m L(2) g by (simp add: lock_ok_def)
  moreover have "live {rn_id (hy_root h)} (node_map ?g (hy_root h))"
    by (rule live_map [OF l(3)]) (auto simp: at_node_def)
  moreover have r: "hy_root h1 = node_map ?g (hy_root h)" by (simp add: h1 upd_node_def set_root_def)
  moreover have "rn_mamba (hy_root h1) = None" "rn_id (hy_root h1) = rn_id (hy_root h)"
    using l(2) f(2) unfolding r by (simp_all add: at_node_def)
  moreover have "hy_mev h1 = (\<Sum>d \<in># hy_nodes h1. mfree d)" "hy_mpr h1 = (\<Sum>d \<in># hy_nodes h1. mheld d)"
  proof -
    have "mfree (rn_data x) = (if rn_mref x = 0 then 1 else 0)" "mfree (?f (rn_data x)) = (if v = 0 then 1 else 0)"
      "mheld (rn_data x) = (if rn_mref x = 0 then 0 else 1)" "mheld (?f (rn_data x)) = (if v = 0 then 0 else 1)"
      using m g by (simp_all add: mfree_def mheld_def)
    moreover have "hy_mev h = (\<Sum>d \<in># hy_nodes h. mfree d)" "hy_mpr h = (\<Sum>d \<in># hy_nodes h. mheld d)"
      using S by (simp_all add: hy_side_def)
    ultimately show "hy_mev h1 = (\<Sum>d \<in># hy_nodes h1. mfree d)" "hy_mpr h1 = (\<Sum>d \<in># hy_nodes h1. mheld d)"
      unfolding M1 M(1) by (simp_all add: h1)
  qed
  ultimately show "hy_side L' h1" unfolding hy_side_def M1 by (simp add: r)
  show "kv_slots h1 = kv_slots h" "snap_slots h1 = snap_slots h"
    by (simp_all add: kv_slots_def snap_slots_def M1 M(1) vmset_def snaps_def)
qed

text \<open>What a lock operation leaves alone.\<close>

definition content_kept :: "hybrid \<Rightarrow> hybrid \<Rightarrow> bool" where
  "content_kept h h' \<longleftrightarrow> kv_slots h' = kv_slots h \<and> snap_slots h' = snap_slots h \<and>
     cached (hy_kv h') = cached (hy_kv h) \<and> rx_page (hy_kv h') = rx_page (hy_kv h) \<and>
     set (nids (hy_root h')) = set (nids (hy_root h)) \<and> rn_id (hy_root h') = rn_id (hy_root h)"

lemma lock_kv:
  assumes "hy_side L h" "lock_handle hnd u (hy_kv h) = Inr r" "lock_keeps (hy_kv h) r" "radix_inv L r"
  shows "hy_inv L (h\<lparr>hy_kv := r\<rparr>)" "content_kept h (h\<lparr>hy_kv := r\<rparr>)"
proof -
  have e: "erase (rx_root r) = erase (hy_root h)" using lock_erase [OF assms(2)] .
  note S = hy_side_erase [OF assms(1) e]
  show "hy_inv L (h\<lparr>hy_kv := r\<rparr>)" using S(1) assms(4) by (simp add: hy_inv_side)
  have "nids (rx_root r) = nids (hy_root h)" using e nids_erase by metis
  then show "content_kept h (h\<lparr>hy_kv := r\<rparr>)"
    using S(2-4) assms(3) by (simp add: content_kept_def lock_keeps_def)
qed

lemma content_kept_upd: "quiet f \<Longrightarrow> cached (hy_kv (upd_node i f h)) = cached (hy_kv h) \<and>
    rx_page (hy_kv (upd_node i f h)) = rx_page (hy_kv h) \<and> nids (hy_root (upd_node i f h)) = nids (hy_root h) \<and>
    rn_id (hy_root (upd_node i f h)) = rn_id (hy_root h)"
  by (simp add: upd_node_def set_root_def cached_def prefs_map nids_map quietD)

lemma inc_lock_core:
  assumes C: "hy_inv L h" and x: "find_node i (hy_root h) = Some x" "i \<noteq> rn_id (hy_root h) \<longrightarrow> rn_mamba x \<noteq> None"
  obtains h' where "inc_lock i h = Inr h'" "hy_inv (add_mset i L) h'" "content_kept h h'"
proof -
  note D = hy_coreD [OF C]
  have S: "hy_side L h" and I: "radix_inv L (hy_kv h)" using C by (simp_all add: hy_inv_side)
  have ix: "i \<in> set (nids (hy_root h))" using x(1) find_None_iff(1) [of i "hy_root h"] by auto
  show ?thesis
  proof (cases "i = rn_id (hy_root h)")
    case True
    then have "x = hy_root h" using x(1) by (cases "hy_root h") auto
    then have m: "rn_mamba x = None" using D(2) by simp
    obtain r where r: "lock_handle (0, i) False (hy_kv h) = Inr r" "radix_inv (add_mset i L) r" "lock_keeps (hy_kv h) r"
      using lock_handle_correct [OF I ix] by metis
    have "nd_id d \<noteq> i" if "d \<in># hy_nodes h" for d
      using find_of_data [OF C that] True by metis
    then have "hy_side (add_mset i L) h" using S by (auto simp: hy_side_def lock_ok_def)
    then show ?thesis using that [of "h\<lparr>hy_kv := r\<rparr>"] lock_kv [OF _ r(1,3,2)] r(1) x(1) m by (simp add: inc_lock_def)
  next
    case False
    then obtain s where s: "rn_mamba x = Some s" using x(2) by blast
    let ?f = "\<lambda>d. d\<lparr>nd_mref := nd_mref d + 1\<rparr>"
    let ?h0 = "if rn_mref x = 0 then h\<lparr>hy_mev := hy_mev h - 1, hy_mpr := hy_mpr h + 1\<rparr> else h"
    define h1 where "h1 = upd_node i ?f ?h0"
    have mr: "rn_mref x = int (count L i)" using hy_find(2,3) [OF C x(1) False] by (simp add: lock_ok_def)
    have h1: "h1 = (upd_node i ?f h)\<lparr>hy_mev := hy_mev h + (if rn_mref x + 1 = 0 then 1 else 0) - (if rn_mref x = 0 then 1 else 0),
        hy_mpr := hy_mpr h + (if rn_mref x + 1 = 0 then 0 else 1) - (if rn_mref x = 0 then 0 else 1)\<rparr>"
      using mr by (simp add: h1_def upd_node_def set_root_def)
    have v: "int (count (add_mset i L) i) = rn_mref x + 1" using mr by simp
    have S1: "hy_side (add_mset i L) h1" "kv_slots h1 = kv_slots h" "snap_slots h1 = snap_slots h"
      using hy_side_move [OF S I x(1) False s _ v h1 refl] by simp_all
    have c: "cached (hy_kv h1) = cached (hy_kv h)" "rx_page (hy_kv h1) = rx_page (hy_kv h)"
      "nids (hy_root h1) = nids (hy_root h)" "rn_id (hy_root h1) = rn_id (hy_root h)" "radix_inv L (hy_kv h1)"
      using content_kept_upd [of ?f i ?h0] upd_radix [of ?f L i ?h0] I unfolding h1_def by simp_all
    obtain r where r: "lock_handle (0, i) False (hy_kv h1) = Inr r" "radix_inv (add_mset i L) r" "lock_keeps (hy_kv h1) r"
      using lock_handle_correct [OF c(5)] ix c(3) by metis
    note K = lock_kv [OF S1(1) r(1,3,2)]
    have "inc_lock i h = Inr (h1\<lparr>hy_kv := r\<rparr>)" using r(1) x(1) s by (simp add: inc_lock_def h1_def)
    moreover have "content_kept h (h1\<lparr>hy_kv := r\<rparr>)" using K(2) S1(2,3) c(1-4) by (simp add: content_kept_def)
    ultimately show ?thesis using that K(1) by blast
  qed
qed

lemma dec_lock_core:
  assumes C: "hy_inv (add_mset i L) h"
  obtains h' where "dec_lock i h = Inr h'" "hy_inv L h'" "content_kept h h'"
proof -
  note D = hy_coreD [OF C]
  have S: "hy_side (add_mset i L) h" and I: "radix_inv (add_mset i L) (hy_kv h)" using C by (simp_all add: hy_inv_side)
  have ix: "i \<in> set (nids (hy_root h))" using radix_invD(7) [OF I] by simp
  then obtain x where x: "find_node i (hy_root h) = Some x" using find_None_iff(1) [of i "hy_root h"] by auto
  show ?thesis
  proof (cases "i = rn_id (hy_root h)")
    case True
    then have "x = hy_root h" using x(1) by (cases "hy_root h") auto
    then have m: "rn_mamba x = None" using D(2) by simp
    obtain r where r: "lock_handle (0, i) True (hy_kv h) = Inr r" "radix_inv L r" "lock_keeps (hy_kv h) r"
      using unlock_handle_correct [OF I] by metis
    have "nd_id d \<noteq> i" if "d \<in># hy_nodes h" for d
      using find_of_data [OF C that] True by metis
    then have "hy_side L h" using S by (auto simp: hy_side_def lock_ok_def)
    then show ?thesis using that [of "h\<lparr>hy_kv := r\<rparr>"] lock_kv [OF _ r(1,3,2)] r(1) x(1) m by (simp add: dec_lock_def)
  next
    case False
    have lk: "lock_ok (add_mset i L) (rn_data x)" "rn_id x = i" using hy_find(2,3) [OF C x(1) False] by auto
    then have mr: "rn_mref x = int (count L i) + 1" and "rn_mamba x \<noteq> None" by (auto simp: lock_ok_def)
    then obtain s where s: "rn_mamba x = Some s" by blast
    let ?f = "\<lambda>d. d\<lparr>nd_mref := nd_mref d - 1\<rparr>"
    let ?h0 = "upd_node i ?f h"
    define h1 where "h1 = (if rn_mref x - 1 = 0 then ?h0\<lparr>hy_mev := hy_mev ?h0 + 1, hy_mpr := hy_mpr ?h0 - 1\<rparr> else ?h0)"
    have h1: "h1 = ?h0\<lparr>hy_mev := hy_mev h + (if rn_mref x - 1 = 0 then 1 else 0) - (if rn_mref x = 0 then 1 else 0),
        hy_mpr := hy_mpr h + (if rn_mref x - 1 = 0 then 0 else 1) - (if rn_mref x = 0 then 0 else 1)\<rparr>"
      using mr by (simp add: h1_def upd_node_def set_root_def)
    have v: "int (count L i) = rn_mref x - 1" using mr by simp
    have S1: "hy_side L h1" "kv_slots h1 = kv_slots h" "snap_slots h1 = snap_slots h"
      using hy_side_move [OF S I x(1) False s _ v h1 refl] by simp_all
    have k: "hy_kv h1 = hy_kv ?h0" by (simp add: h1_def)
    have c: "cached (hy_kv h1) = cached (hy_kv h)" "rx_page (hy_kv h1) = rx_page (hy_kv h)"
      "nids (hy_root h1) = nids (hy_root h)" "rn_id (hy_root h1) = rn_id (hy_root h)" "radix_inv (add_mset i L) (hy_kv h1)"
      unfolding k using content_kept_upd [of ?f i h] upd_radix [of ?f "add_mset i L" i h] I by simp_all
    obtain r where r: "lock_handle (0, i) True (hy_kv h1) = Inr r" "radix_inv L r" "lock_keeps (hy_kv h1) r"
      using unlock_handle_correct [OF c(5)] by metis
    note K = lock_kv [OF S1(1) r(1,3,2)]
    have "dec_lock i h = bind_res (lock_handle (0, i) True (hy_kv h1)) (\<lambda>r. Inr (h1\<lparr>hy_kv := r\<rparr>))"
      unfolding dec_lock_def h1_def Let_def using x(1) s mr by simp
    then have "dec_lock i h = Inr (h1\<lparr>hy_kv := r\<rparr>)" using r(1) by simp
    moreover have "content_kept h (h1\<lparr>hy_kv := r\<rparr>)" using K(2) S1(2,3) c(1-4) unfolding content_kept_def by simp
    ultimately show ?thesis using that K(1) by blast
  qed
qed

section \<open>Insert\<close>

lemma set_child_set: "set (set_child p x ks) \<subseteq> insert x (set ks) \<and> set_child p x ks \<noteq> []"
  by (induction ks) auto

lemma attach_live:
  assumes "live X t" "nd_id ld \<in> X"
  shows "live X (attach p i (RNode ld []) t)"
  using assms(1)
proof (induction t)
  case (RNode d ks)
  then show ?case using set_child_set [of p "RNode ld []" ks] assms(2) by auto
qed

lemma hy_insert_tree:
  assumes C: "hy_inv L h" and ins: "insert_prefix tic now ids0 idx0 (hy_kv h) = Inr ((n, (m, i)), r)"
  shows "hy_core L {i} (h\<lparr>hy_kv := r\<rparr>)" "kv_slots (h\<lparr>hy_kv := r\<rparr>) = kv_slots h + mset (drop n (take m idx0))"
    "snap_slots (h\<lparr>hy_kv := r\<rparr>) = snap_slots h" "rn_id (rx_root r) = rn_id (hy_root h)"
proof -
  note I = hy_coreD(1) [OF C]
  let ?p = "rx_page (hy_kv h)"
  let ?m = "nalign (length ids0) ?p"
  let ?ids = "take ?m ids0" and ?idx = "take ?m idx0"
  have lm: "length ?ids = ?m" by simp
  obtain t i1 n1 c where w: "walk ?p tic (rx_counter (hy_kv h)) ?ids (hy_root h) = (t, i1, n1, c)"
    by (metis prod_cases4)
  define h1 where "h1 = h\<lparr>hy_kv := (hy_kv h)\<lparr>rx_root := t, rx_counter := c\<rparr>\<rparr>"
  have hw: "hy_walk tic ?ids h = ((i1, n1), h1)" using w by (simp add: hy_walk_def h1_def)
  have W: "hy_inv L h1" "kv_slots h1 = kv_slots h" "snap_slots h1 = snap_slots h"
    using hy_walk_core [OF C hw] by metis+
  have d: "rn_data t = rn_data (hy_root h)" using walk_keeps_data [OF w] .
  have mn: "m = ?m" "n = n1" using ins w by (auto simp: insert_prefix_def Let_def split: if_splits)
  have R: "radix_inv L r" using insert_prefix_correct(1) [OF I ins] .
  have "hy_core L {i} (h\<lparr>hy_kv := r\<rparr>) \<and> kv_slots (h\<lparr>hy_kv := r\<rparr>) = kv_slots h + mset (drop n (take m idx0)) \<and>
    snap_slots (h\<lparr>hy_kv := r\<rparr>) = snap_slots h \<and> rn_id (rx_root r) = rn_id (hy_root h)"
  proof (cases "n1 = ?m")
    case True
    then have r: "h\<lparr>hy_kv := r\<rparr> = h1" "rx_root r = t" using ins w by (auto simp: insert_prefix_def Let_def h1_def)
    have "live (insert (rn_id (hy_root h1)) {i}) (hy_root h1)" using hy_coreD(4) [OF W(1)] by (rule live_mono) auto
    then have "hy_core L {i} h1" using W(1) by (simp add: hy_core_def)
    then show ?thesis using True W r d mn by simp
  next
    case False
    have wk: "walked ?ids (hy_kv h) t i1 n1 c" using walk_root(2) [OF I w] .
    then obtain base where base: "(take n1 ?ids, base) \<in> cached (hy_kv h)" and le: "n1 \<le> length ?ids"
      by (auto simp: walked_def)
    have lt: "n1 < length ?ids" using False le by simp
    define ld where "ld = new_ndata c (drop n1 ?ids) (drop n1 ?idx) 0 now"
    have r: "i = c" "r = (hy_kv h)\<lparr>rx_root := attach ?p i1 (RNode ld []) t, rx_counter := c + 1,
          rx_evictable := rx_evictable (hy_kv h) + int (length (nd_key ld))\<rparr>"
      and len: "length (drop n1 ?idx) = length ?ids - n1"
      using ins w False by (auto simp: insert_prefix_def Let_def ld_def split: if_splits)
    have al: "?p dvd length ?ids" unfolding lm by simp
    have N: "hy_nodes (h\<lparr>hy_kv := r\<rparr>) = add_mset ld (hy_nodes h1)"
      using attach_root(7) [OF I w al lt len ld_def r(2) base] by (simp add: hy_nodes_def h1_def)
    have "count L c = 0" using fresh_count [OF hy_coreD(1) [OF W(1)]] by (simp add: h1_def)
    then have l: "lock_ok L ld" "mfree ld = 0" "mheld ld = 0" "snaps ld = {#}" "vmset ld = mset (drop n1 ?idx)"
      by (simp_all add: lock_ok_def ld_def mfree_def mheld_def snaps_def vmset_def)
    have h1s: "hy_mev h1 = hy_mev h" "hy_mpr h1 = hy_mpr h" "hy_root h1 = t" by (simp_all add: h1_def)
    have "live (insert (rn_id t) {c}) t" using hy_coreD(4) [OF W(1)] unfolding h1s(3) by (rule live_mono) auto
    then have "live (insert (rn_id t) {c}) (attach ?p i1 (RNode ld []) t)" by (rule attach_live) (simp add: ld_def)
    moreover have "rx_root r = attach ?p i1 (RNode ld []) t" by (simp add: r(2))
    ultimately have "hy_core L {i} (h\<lparr>hy_kv := r\<rparr>)"
      using hy_coreD(2,3,5,6) [OF W(1)] R l r(1) unfolding hy_core_def N by (simp add: h1s)
    moreover have "kv_slots (h\<lparr>hy_kv := r\<rparr>) = kv_slots h + mset (drop n1 ?idx)" "snap_slots (h\<lparr>hy_kv := r\<rparr>) = snap_slots h"
      using W(2,3) l by (simp_all add: kv_slots_def snap_slots_def N)
    ultimately show ?thesis using d mn by (simp add: r(2))
  qed
  then show "hy_core L {i} (h\<lparr>hy_kv := r\<rparr>)" "kv_slots (h\<lparr>hy_kv := r\<rparr>) = kv_slots h + mset (drop n (take m idx0))"
    "snap_slots (h\<lparr>hy_kv := r\<rparr>) = snap_slots h" "rn_id (rx_root r) = rn_id (hy_root h)"
    by blast+
qed

lemma set_core:
  assumes C: "hy_core L {i} h" and f: "find_node i (hy_root h) = Some x" "i \<noteq> rn_id (hy_root h)" "rn_mamba x = None"
    and h': "h' = (upd_node i (\<lambda>d. d\<lparr>nd_mamba := Some s\<rparr>) h)\<lparr>hy_mev := hy_mev h + 1\<rparr>"
  shows "hy_inv L h'" "kv_kept h [] h'" "snap_slots h' = add_mset s (snap_slots h)" "rn_mref x = 0"
    "cached (hy_kv h') = cached (hy_kv h)"
proof -
  let ?f = "\<lambda>d. d\<lparr>nd_mamba := Some s\<rparr>" and ?g = "at_node i (\<lambda>d. d\<lparr>nd_mamba := Some s\<rparr>)"
  note D = hy_coreD [OF C]
  obtain M where M: "hy_nodes h = add_mset (rn_data x) M" "hy_nodes (upd_node i ?f h) = add_mset (?f (rn_data x)) M"
    "\<forall>e \<in># M. nd_id e \<noteq> i"
    using hy_upd_nodes [OF C f(1,2), of ?f] by blast
  have N: "hy_nodes h' = add_mset (?f (rn_data x)) M" using M(2) by (simp add: h')
  have lx: "lock_ok L (rn_data x)" using hy_find(3) [OF C f(1,2)] .
  then show mr: "rn_mref x = 0" using f(3) by (simp add: lock_ok_def)
  have l: "lock_ok L (?f (rn_data x))" using lx f(3) by (simp add: lock_ok_def)
  have z: "mfree (rn_data x) = 0" "mheld (rn_data x) = 0" "mfree (?f (rn_data x)) = 1" "mheld (?f (rn_data x)) = 0"
    "snaps (rn_data x) = {#}" "snaps (?f (rn_data x)) = {#s#}"
    using f(3) mr by (simp_all add: mfree_def mheld_def snaps_def)
  have "live (insert (rn_id (hy_root h)) {}) (node_map ?g (hy_root h))"
    by (rule live_map [OF D(4)]) (auto simp: at_node_def)
  moreover have "rx_root (hy_kv h') = node_map ?g (hy_root h)" "hy_mpr h' = hy_mpr h" "hy_mev h' = hy_mev h + 1"
    "hy_kv h' = hy_kv (upd_node i ?f h)"
    by (simp_all add: h')
  moreover have "rn_mamba (node_map ?g (hy_root h)) = None" "rn_id (node_map ?g (hy_root h)) = rn_id (hy_root h)"
    using D(2) f(2) by (simp_all add: at_node_def)
  ultimately show "hy_inv L h'"
    using D(3,5,6) l z unfolding hy_core_def N M(1) by (simp add: upd_radix D(1))
  show "kv_kept h [] h'" using upd_kept(1) [of ?f h i] by (simp add: h' kv_kept_def kv_slots_def)
  show "snap_slots h' = add_mset s (snap_slots h)" using z by (simp add: snap_slots_def N M(1))
  show "cached (hy_kv h') = cached (hy_kv h)" using content_kept_upd [of ?f i h] by (simp add: h')
qed

lemma insert_core:
  assumes C: "hy_inv L h" and ins: "hy_insert tic now ids0 idx0 s h = Inr ((n, ex), h')"
  obtains m i r where "insert_prefix tic now ids0 idx0 (hy_kv h) = Inr ((n, (m, i)), r)" "hy_inv L h'"
    "kv_slots h' = kv_slots h + mset (drop n (take m idx0))"
    "snap_slots h' = (if ex then snap_slots h else add_mset s (snap_slots h))"
    "cached (hy_kv h') = cached r" "rn_id (hy_root h') = rn_id (hy_root h)"
    "\<not> ex \<longrightarrow> (\<exists>y. find_node i (hy_root h') = Some y \<and> rn_mamba y = Some s)"
    "i = rn_id (hy_root h') \<or> (\<exists>y. find_node i (hy_root h') = Some y \<and> rn_mamba y \<noteq> None)"
    "\<exists>ds. node_path i (hy_root h') = Some (rn_data (hy_root h') # ds) \<and> keys_of ds = take m ids0 \<and>
       get_matched_indices (m, i) r = Some (vals_of ds)"
proof -
  obtain m i r where P: "insert_prefix tic now ids0 idx0 (hy_kv h) = Inr ((n, (m, i)), r)"
    using ins by (auto simp: hy_insert_def bind_res_Inr Let_def split: prod.splits if_splits option.splits)
  note T = hy_insert_tree [OF C P]
  obtain ds where "node_path i (rx_root r) = Some (rn_data (rx_root r) # ds)" "keys_of ds = take m ids0"
    using insert_prefix_correct(3) [OF hy_coreD(1) [OF C] P] by blast
  then have Q: "\<exists>ds. node_path i (rx_root r) = Some (rn_data (rx_root r) # ds) \<and> keys_of ds = take m ids0 \<and>
      get_matched_indices (m, i) r = Some (vals_of ds)"
    by (simp add: get_matched_indices_def vals_of_def)
  let ?h1 = "h\<lparr>hy_kv := r\<rparr>"
  show ?thesis
  proof (cases "i = rn_id (rx_root r)")
    case True
    then have e: "ex" "h' = ?h1" using ins P by (simp_all add: hy_insert_def Let_def)
    have "hy_inv L ?h1" using T(1,4) True by (simp add: hy_core_def)
    then show ?thesis using that [OF P] T e True Q by simp
  next
    case False
    obtain x where x: "find_node i (rx_root r) = Some x"
      using ins P False by (auto simp: hy_insert_def Let_def split: option.splits)
    show ?thesis
    proof (cases "rn_mamba x = None")
      case old: False
      then have e: "ex" "h' = ?h1" using ins P False x by (simp_all add: hy_insert_def Let_def)
      have "hy_inv L ?h1" by (rule live_settle [OF T(1)]) (use x old in auto)
      then show ?thesis using that [OF P] T e x old Q by simp
    next
      case True
      let ?h2 = "(upd_node i (\<lambda>d. d\<lparr>nd_mamba := Some s\<rparr>) ?h1)\<lparr>hy_mev := hy_mev ?h1 + 1\<rparr>"
      have fx: "find_node i (hy_root ?h1) = Some x" "i \<noteq> rn_id (hy_root ?h1)" using x False by simp_all
      note S = set_core [OF T(1) fx True refl]
      have e: "\<not> ex" "h' = ?h2" using ins P False x True S(4) by (simp_all add: hy_insert_def Let_def upd_node_def set_root_def)
      have "find_node i (hy_root ?h2) = Some (node_map (at_node i (\<lambda>d. d\<lparr>nd_mamba := Some s\<rparr>)) x)"
        using x by (simp add: find_map)
      moreover have "rn_mamba (node_map (at_node i (\<lambda>d. d\<lparr>nd_mamba := Some s\<rparr>)) x) = Some s"
        using find_id(1) [OF x] by (simp add: at_node_def)
      ultimately have f2: "\<exists>y. find_node i (hy_root h') = Some y \<and> rn_mamba y = Some s" using e(2) by auto
      have kk: "kv_slots h' = kv_slots ?h1" "rn_id (hy_root h') = rn_id (hy_root ?h1)"
        using S(2) unfolding e(2) kv_kept_def by simp_all
      have "\<exists>ds. node_path i (hy_root h') = Some (rn_data (hy_root h') # ds) \<and> keys_of ds = take m ids0 \<and>
         get_matched_indices (m, i) r = Some (vals_of ds)"
        using Q by (auto simp: e(2) path_map keys_of_def vals_of_def comp_def quietD)
      then show ?thesis
        by (intro that [OF P]) (use T S(1,3,5) e f2 kk in auto)
    qed
  qed
qed

end
