(* ===== verification/Hybrid_Match.thy ===== *)
theory Hybrid_Match
  imports Hybrid_Laws
begin

text \<open>
  What a match of the hybrid cache returns, and the properties of the cache as a whole.
\<close>

section \<open>Matching\<close>

text \<open>A boundary: the tokens and slots on the way to a node that owns a snapshot.\<close>

definition boundary :: "hybrid \<Rightarrow> token list \<Rightarrow> slot list \<Rightarrow> slot \<Rightarrow> bool" where
  "boundary h K V s \<longleftrightarrow>
     (\<exists>i ds. node_path i (hy_root h) = Some (rn_data (hy_root h) # ds) \<and> ds \<noteq> [] \<and>
        nd_mamba (last ds) = Some s \<and> K = keys_of ds \<and> V = vals_of ds)"

lemma climb_Some:
  "climb (rev ds) (length (keys_of ds)) = Some (d, n) \<Longrightarrow>
   \<exists>as bs. ds = as @ d # bs \<and> nd_mamba d \<noteq> None \<and> n = length (keys_of (as @ [d])) \<and> (\<forall>b \<in> set bs. nd_mamba b = None)"
proof (induction ds rule: rev_induct)
  case (snoc e ds)
  show ?case
  proof (cases "nd_mamba e = None")
    case True
    then obtain as bs where "ds = as @ d # bs" "nd_mamba d \<noteq> None" "n = length (keys_of (as @ [d]))" "\<forall>b \<in> set bs. nd_mamba b = None"
      using snoc by (auto simp: keys_of_def)
    then show ?thesis using True by (intro exI [of _ as] exI [of _ "bs @ [e]"]) auto
  next
    case False
    then show ?thesis using snoc.prems by (intro exI [of _ ds] exI [of _ "[]"]) (auto simp: keys_of_def)
  qed
qed simp

lemma climb_None: "climb ds n = None \<longleftrightarrow> (\<forall>d \<in> set ds. nd_mamba d = None)"
  by (induction ds n rule: climb.induct) auto

lemma path_part:
  "node_path i x = Some (as @ d # bs) \<Longrightarrow> distinct (nids x) \<Longrightarrow> node_path (nd_id d) x = Some (as @ [d])"
  "kids_path i ks = Some (as @ d # bs) \<Longrightarrow> distinct (kids_ids ks) \<Longrightarrow> kids_path (nd_id d) ks = Some (as @ [d])"
proof (induction i x and i ks arbitrary: as and as rule: node_path_kids_path.induct)
  case (1 h e ks)
  show ?case
  proof (cases as)
    case Nil
    then show ?thesis using "1.prems"(1) by (auto split: if_splits)
  next
    case (Cons a as')
    then have k: "nd_id e \<noteq> h" "a = e" "kids_path h ks = Some (as' @ d # bs)"
      using "1.prems"(1) by (auto split: if_splits)
    then have p: "kids_path (nd_id d) ks = Some (as' @ [d])" using "1.IH" "1.prems"(2) by auto
    then have "nd_id d \<in> set (kids_ids ks)" using path_None_iff(2) [of "nd_id d" ks] by auto
    then have "nd_id e \<noteq> nd_id d" using "1.prems"(2) by auto
    then show ?thesis using p k(2) Cons by simp
  qed
next
  case (3 h x xs)
  show ?case
  proof (cases "node_path h x")
    case None
    then have p: "kids_path (nd_id d) xs = Some (as @ [d])" using "3.IH"(2) [OF None] "3.prems" by auto
    then have "nd_id d \<in> set (kids_ids xs)" using path_None_iff(2) [of "nd_id d" xs] by auto
    then have "nd_id d \<notin> set (nids x)" using "3.prems"(2) by auto
    then show ?thesis using p by (simp add: node_path_other)
  next
    case (Some r)
    then show ?thesis using "3.IH"(1) [of as] "3.prems" by auto
  qed
qed simp

lemma kids_path_hd_ex:
  "kids_path g ks = Some es \<Longrightarrow> \<exists>y es'. y \<in> set ks \<and> node_path g y = Some es \<and> es = rn_data y # es'"
proof (induction ks)
  case (Cons x xs)
  show ?case
  proof (cases "node_path g x")
    case None
    then show ?thesis using Cons by auto
  next
    case (Some r)
    then show ?thesis using Cons.prems node_path_hd [OF Some] by auto
  qed
qed simp

lemma kids_path_hd:
  assumes "kids_path g ks = Some es"
  obtains y es' where "y \<in> set ks" "node_path g y = Some es" "es = rn_data y # es'"
  using kids_path_hd_ex [OF assms] by blast

lemma keys_first_page:
  assumes "wf_node p y" "0 < p" "node_path g y = Some (rn_data y # es)"
  shows "key_fn p (keys_of (rn_data y # es)) = key_fn p (rn_key y)" "keys_of (rn_data y # es) \<noteq> []"
proof -
  have k: "rn_key y \<noteq> []" "p dvd length (rn_key y)" using assms(1) by (cases y; simp)+
  then have "p \<le> length (rn_key y)" by (simp add: dvd_imp_le)
  then show "key_fn p (keys_of (rn_data y # es)) = key_fn p (rn_key y)" "keys_of (rn_data y # es) \<noteq> []"
    using k by (simp_all add: key_fn_append assms(2))
qed

lemma path_unique:
  "kids_path g ks = Some es \<Longrightarrow> kids_path i ks = Some ds \<Longrightarrow> wf_kids p ks \<Longrightarrow> 0 < p \<Longrightarrow>
   prefix (keys_of es) (keys_of ds) \<Longrightarrow> prefix es ds"
proof (induction es arbitrary: ks ds)
  case (Cons e es)
  obtain y where y: "y \<in> set ks" "node_path g y = Some (e # es)" "e = rn_data y"
    using kids_path_hd [OF Cons.prems(1)] by blast
  have wy: "wf_node p y" using y Cons.prems(3) by (auto simp: wf_kids_def)
  note Y = keys_first_page [OF wy Cons.prems(4), of g es]
  have "ds \<noteq> []" using Cons.prems(5) Y(2) y by auto
  then obtain z ds' where z: "z \<in> set ks" "node_path i z = Some (rn_data z # ds')" "ds = rn_data z # ds'"
    using kids_path_hd [OF Cons.prems(2)] by metis
  have wz: "wf_node p z" using z Cons.prems(3) by (auto simp: wf_kids_def)
  note Z = keys_first_page [OF wz Cons.prems(4) z(2)]
  have "key_fn p (keys_of (e # es)) = key_fn p (keys_of ds)"
  proof -
    have "p \<le> length (rn_key y)" using wy Cons.prems(4) by (cases y) (auto simp: dvd_imp_le)
    then have "p \<le> length (keys_of (e # es))" using y(3) by simp
    then show ?thesis using Cons.prems(4,5) key_fn_append unfolding prefix_def by metis
  qed
  then have "key_fn p (rn_key y) = key_fn p (rn_key z)" using Y(1) Z(1) y z(3) by simp
  then have yz: "y = z" using Cons.prems(3) y(1) z(1) unfolding wf_kids_def distinct_map by (auto dest: inj_onD)
  have "prefix es ds'"
  proof (cases "es = []")
    case False
    obtain d ls where yl: "y = RNode d ls" by (cases y)
    have g: "kids_path g ls = Some es" using y(2) False yl by (auto split: if_splits)
    have "prefix (keys_of es) (keys_of ds')" using Cons.prems(5) yz y(3) z(3) by simp
    moreover from this have "ds' \<noteq> []"
    proof -
      obtain y2 where "y2 \<in> set ls" "node_path g y2 = Some es" "es = rn_data y2 # tl es"
        using kids_path_hd [OF g] by (metis list.sel(3))
      then have "keys_of es \<noteq> []" using keys_first_page(2) [of p y2 g "tl es"] wy yl Cons.prems(4) by (auto simp: wf_kids_def)
      then show ?thesis using Cons.prems(5) yz y(3) z(3) by auto
    qed
    moreover have "kids_path i ls = Some ds'" using z(2) yz yl \<open>ds' \<noteq> []\<close> by (auto split: if_splits)
    ultimately show ?thesis using Cons.IH [OF g] wy yl Cons.prems(4) by (simp add: wf_node_RNode)
  qed simp
  then show ?case using y(3) yz z(3) by simp
qed simp

lemma path_last:
  "node_path i x = Some ds \<Longrightarrow> ds \<noteq> [] \<and> nd_id (last ds) = i \<and> set ds \<subseteq> set (datas x)"
  "kids_path i ks = Some ds \<Longrightarrow> ds \<noteq> [] \<and> nd_id (last ds) = i \<and> set ds \<subseteq> set (kdatas ks)"
  by (induction i x and i ks arbitrary: ds and ds rule: node_path_kids_path.induct)
     (fastforce split: if_splits option.splits)+

lemma kids_path_last: "kids_path i ks = Some ds \<Longrightarrow> last ds \<in> set (kdatas ks) \<and> nd_id (last ds) = i"
  using path_last(2) [of i ks ds] last_in_set by blast

text \<open>The snapshots with the nodes that own them.\<close>

definition tag :: "ndata \<Rightarrow> (nat \<times> slot) multiset" where
  "tag d = (case nd_mamba d of None \<Rightarrow> {#} | Some s \<Rightarrow> {#(nd_id d, s)#})"

definition tags :: "hybrid \<Rightarrow> (nat \<times> slot) multiset" where
  "tags h = (\<Sum>d \<in># hy_nodes h. tag d)"

lemma in_tags: "(i, s) \<in># tags h \<longleftrightarrow> (\<exists>d \<in># hy_nodes h. nd_id d = i \<and> nd_mamba d = Some s)"
proof -
  have "(i, s) \<in># (\<Sum>d \<in># M. tag d) \<longleftrightarrow> (\<exists>d \<in># M. nd_id d = i \<and> nd_mamba d = Some s)" for M
    by (induction M) (auto simp: tag_def split: option.splits)
  then show ?thesis by (simp add: tags_def)
qed

lemma node_unique:
  assumes "hy_core L X h" "d \<in># hy_nodes h" "e \<in># hy_nodes h" "nd_id d = nd_id e" shows "d = e"
  using assms kids_distinct [OF hy_coreD(1) [OF assms(1)]]
  by (auto simp: hy_nodes_def distinct_map dest: inj_onD)

lemma root_path:
  assumes I: "radix_inv L r" and p: "node_path i (rx_root r) = Some ps"
  obtains ds where "ps = rn_data (rx_root r) # ds" "ds = [] \<longleftrightarrow> i = rn_id (rx_root r)"
    "ds \<noteq> [] \<longrightarrow> kids_path i (rn_kids (rx_root r)) = Some ds"
proof -
  obtain ds where ds: "ps = rn_data (rx_root r) # ds" using node_path_hd [OF p] by blast
  obtain d ks where r: "rx_root r = RNode d ks" by (cases "rx_root r")
  show ?thesis using that [OF ds] p ds path_last(2) [of i ks ds] by (auto simp: r split: if_splits)
qed

lemma boundary_tags:
  assumes C: "hy_core L X h"
  shows "boundary h K V s \<longleftrightarrow>
    (\<exists>i ds. (i, s) \<in># tags h \<and> node_path i (hy_root h) = Some (rn_data (hy_root h) # ds) \<and> K = keys_of ds \<and> V = vals_of ds)"
proof
  assume "boundary h K V s"
  then obtain i ds where d: "node_path i (hy_root h) = Some (rn_data (hy_root h) # ds)" "ds \<noteq> []"
    "nd_mamba (last ds) = Some s" "K = keys_of ds" "V = vals_of ds" by (auto simp: boundary_def)
  obtain ds' where "rn_data (hy_root h) # ds = rn_data (hy_root h) # ds'" "ds' \<noteq> [] \<longrightarrow> kids_path i (rn_kids (hy_root h)) = Some ds'"
    by (rule root_path [OF hy_coreD(1) [OF C] d(1)])
  then have "kids_path i (rn_kids (hy_root h)) = Some ds" using d(2) by simp
  then have "last ds \<in># hy_nodes h" "nd_id (last ds) = i" using kids_path_last by (simp_all add: hy_nodes_def)
  then show "\<exists>i ds. (i, s) \<in># tags h \<and> node_path i (hy_root h) = Some (rn_data (hy_root h) # ds) \<and> K = keys_of ds \<and> V = vals_of ds"
    using d in_tags by blast
next
  assume "\<exists>i ds. (i, s) \<in># tags h \<and> node_path i (hy_root h) = Some (rn_data (hy_root h) # ds) \<and> K = keys_of ds \<and> V = vals_of ds"
  then obtain i ds where d: "(i, s) \<in># tags h" "node_path i (hy_root h) = Some (rn_data (hy_root h) # ds)" "K = keys_of ds" "V = vals_of ds"
    by blast
  obtain e where e: "e \<in># hy_nodes h" "nd_id e = i" "nd_mamba e = Some s" using d(1) in_tags by blast
  then have ne: "i \<noteq> rn_id (hy_root h)" using find_of_data [OF C e(1)] by auto
  obtain ds' where r: "rn_data (hy_root h) # ds = rn_data (hy_root h) # ds'" "ds' = [] \<longleftrightarrow> i = rn_id (hy_root h)"
      "ds' \<noteq> [] \<longrightarrow> kids_path i (rn_kids (hy_root h)) = Some ds'"
    by (rule root_path [OF hy_coreD(1) [OF C] d(2)])
  then have k: "ds \<noteq> []" "kids_path i (rn_kids (hy_root h)) = Some ds" using ne by auto
  then have "last ds \<in># hy_nodes h" "nd_id (last ds) = i" using kids_path_last k by (simp_all add: hy_nodes_def)
  then have "last ds = e" using node_unique [OF C _ e(1)] e(2) by simp
  then show "boundary h K V s" using d k e by (auto simp: boundary_def)
qed

lemma split_additive_tag [simp]: "split_additive tag"
  by (auto simp: split_additive_def tag_def split: option.split)

lemma boundary_kept:
  assumes C: "hy_core L X h" and C': "hy_core L' X' h'" and t: "tags h' = tags h"
    and sp: "\<And>g. same_span (node_path g (hy_root h)) (node_path g (hy_root h'))"
  shows "boundary h' K V s \<longleftrightarrow> boundary h K V s"
proof -
  have one: "\<exists>ds'. node_path i (hy_root h') = Some (rn_data (hy_root h') # ds') \<and> keys_of ds' = keys_of ds \<and> vals_of ds' = vals_of ds"
    if p: "node_path i (hy_root h) = Some (rn_data (hy_root h) # ds)" for i ds
  proof -
    obtain ps where ps: "node_path i (hy_root h') = Some ps" "keys_of ps = keys_of (rn_data (hy_root h) # ds)"
      "vals_of ps = vals_of (rn_data (hy_root h) # ds)" using sp [of i] p by (auto simp: same_span_def)
    obtain ds' where "ps = rn_data (hy_root h') # ds'" using node_path_hd [OF ps(1)] by blast
    then show ?thesis using ps radix_invD(2,3) [OF hy_coreD(1) [OF C]] radix_invD(2,3) [OF hy_coreD(1) [OF C']] by simp
  qed
  show ?thesis unfolding boundary_tags [OF C] boundary_tags [OF C'] t
  proof (intro iffI)
    assume "\<exists>i ds. (i, s) \<in># tags h \<and> node_path i (hy_root h') = Some (rn_data (hy_root h') # ds) \<and> K = keys_of ds \<and> V = vals_of ds"
    then obtain i ds where d: "(i, s) \<in># tags h" "node_path i (hy_root h') = Some (rn_data (hy_root h') # ds)" "K = keys_of ds" "V = vals_of ds"
      by blast
    obtain e where e: "e \<in># hy_nodes h" "nd_id e = i" using d(1) in_tags by blast
    obtain x where "find_node i (hy_root h) = Some x" using find_of_data [OF C e(1)] e(2) by metis
    then have "node_path i (hy_root h) \<noteq> None" using find_None_iff(1) [of i "hy_root h"] path_None_iff(1) [of i "hy_root h"] by auto
    then obtain ps where ps: "node_path i (hy_root h) = Some ps" by blast
    obtain ds0 where ds0: "ps = rn_data (hy_root h) # ds0" using node_path_hd [OF ps] by blast
    show "\<exists>i ds. (i, s) \<in># tags h \<and> node_path i (hy_root h) = Some (rn_data (hy_root h) # ds) \<and> K = keys_of ds \<and> V = vals_of ds"
      using one [OF ps [unfolded ds0]] d ps ds0 by auto
  next
    assume "\<exists>i ds. (i, s) \<in># tags h \<and> node_path i (hy_root h) = Some (rn_data (hy_root h) # ds) \<and> K = keys_of ds \<and> V = vals_of ds"
    then show "\<exists>i ds. (i, s) \<in># tags h \<and> node_path i (hy_root h') = Some (rn_data (hy_root h') # ds) \<and> K = keys_of ds \<and> V = vals_of ds"
      using one by metis
  qed
qed

lemma hy_walk_boundary:
  assumes C: "hy_core L X h" and w: "hy_walk tic ids h = ((i, n), h')"
  shows "hy_core L X h'" "boundary h' K V s \<longleftrightarrow> boundary h K V s"
    "kv_slots h' = kv_slots h" "snap_slots h' = snap_slots h" "cached (hy_kv h') = cached (hy_kv h)"
    "rx_page (hy_kv h') = rx_page (hy_kv h)" "rn_data (hy_root h') = rn_data (hy_root h)"
    "n \<le> length ids" "\<And>K V. (K, V) \<in> cached (hy_kv h) \<Longrightarrow> prefix K ids \<Longrightarrow> length K \<le> n"
    "\<exists>ds. node_path i (hy_root h') = Some (rn_data (hy_root h') # ds) \<and> keys_of ds = take n ids"
proof -
  obtain t c where W: "walk (rx_page (hy_kv h)) tic (rx_counter (hy_kv h)) ids (hy_root h) = (t, i, n, c)"
    "h' = h\<lparr>hy_kv := (hy_kv h)\<lparr>rx_root := t, rx_counter := c\<rparr>\<rparr>" "hy_core L X h'"
    "kv_slots h' = kv_slots h" "snap_slots h' = snap_slots h"
    by (rule hy_walk_core [OF C w])
  note D = hy_coreD [OF C]
  note I = radix_invD [OF D(1)]
  have d: "rn_data t = rn_data (hy_root h)" using walk_keeps_data [OF W(1)] .
  have t: "tags h' = tags h"
    using walk_sum(1) [OF W(1) split_additive_tag I(4,1)] d by (simp add: nsum_rn ksum_mset tags_def hy_nodes_def W(2))
  have wk: "walked ids (hy_kv h) t i n c" using walk_root(2) [OF D(1) W(1)] .
  show "hy_core L X h'" "kv_slots h' = kv_slots h" "snap_slots h' = snap_slots h" using W by simp_all
  show "boundary h' K V s \<longleftrightarrow> boundary h K V s"
    by (rule boundary_kept [OF C W(3) t]) (use wk in \<open>simp add: walked_def W(2)\<close>)
  show "cached (hy_kv h') = cached (hy_kv h)" "rx_page (hy_kv h') = rx_page (hy_kv h)" "rn_data (hy_root h') = rn_data (hy_root h)"
    "n \<le> length ids" "\<And>K V. (K, V) \<in> cached (hy_kv h) \<Longrightarrow> prefix K ids \<Longrightarrow> length K \<le> n"
    "\<exists>ds. node_path i (hy_root h') = Some (rn_data (hy_root h') # ds) \<and> keys_of ds = take n ids"
    using wk d by (auto simp: walked_def W(2))
qed

lemma boundary_cached:
  assumes C: "hy_core L X h" and b: "boundary h K V s"
  shows "(K, V) \<in> cached (hy_kv h)" "K \<noteq> []"
proof -
  obtain i ds where d: "node_path i (hy_root h) = Some (rn_data (hy_root h) # ds)" "ds \<noteq> []" "K = keys_of ds" "V = vals_of ds"
    using b by (auto simp: boundary_def)
  note I = radix_invD [OF hy_coreD(1) [OF C]]
  have k: "kids_path i (rn_kids (hy_root h)) = Some ds"
    using root_path [OF hy_coreD(1) [OF C] d(1)] d(2) by (metis list.inject)
  show "(K, V) \<in> cached (hy_kv h)" using path_in_prefs(2) [OF k] I(4) d by (simp add: cached_def)
  obtain y es where "y \<in> set (rn_kids (hy_root h))" "node_path i y = Some (rn_data y # es)" "ds = rn_data y # es"
    using kids_path_hd [OF k] by metis
  then show "K \<noteq> []" using keys_first_page(2) I(1,4) d(3) by (auto simp: wf_kids_def)
qed

lemma boundary_below:
  assumes C: "hy_core L X h" and b: "boundary h K V s"
    and p: "node_path i (hy_root h) = Some (rn_data (hy_root h) # ds)" and pr: "prefix K (keys_of ds)"
  shows "\<exists>as d bs. ds = as @ d # bs \<and> nd_mamba d = Some s \<and> K = keys_of (as @ [d]) \<and> V = vals_of (as @ [d])"
proof -
  obtain g es where d: "node_path g (hy_root h) = Some (rn_data (hy_root h) # es)" "es \<noteq> []"
    "nd_mamba (last es) = Some s" "K = keys_of es" "V = vals_of es" using b by (auto simp: boundary_def)
  note I = radix_invD [OF hy_coreD(1) [OF C]]
  have k: "kids_path g (rn_kids (hy_root h)) = Some es"
    using root_path [OF hy_coreD(1) [OF C] d(1)] d(2) by (metis list.inject)
  have "ds \<noteq> []" using pr d(4) boundary_cached(2) [OF C b] by auto
  then have k2: "kids_path i (rn_kids (hy_root h)) = Some ds"
    using root_path [OF hy_coreD(1) [OF C] p] by (metis list.inject)
  have "prefix es ds" by (rule path_unique [OF k k2 I(4,1)]) (use pr d(4) in simp)
  then obtain bs where "ds = es @ bs" by (auto simp: prefix_def)
  then show ?thesis using d by (intro exI [of _ "butlast es"] exI [of _ "last es"] exI [of _ bs]) simp
qed

lemma keys_prefix: "prefix xs ys \<Longrightarrow> length (keys_of xs) \<le> length (keys_of ys)"
  by (auto simp: prefix_def keys_of_def)

lemma hy_match_core:
  assumes C: "hy_inv L h" and m: "hy_match tic ids h = (m, h')"
  shows "hy_inv L h'" "kv_slots h' = kv_slots h" "snap_slots h' = snap_slots h"
    "\<And>K V s. boundary h' K V s \<longleftrightarrow> boundary h K V s"
    "case hm_mamba m of
       None \<Rightarrow> hm_kv m = [] \<and> hm_len m = 0 \<and> hm_node m = rn_id (hy_root h') \<and>
         (\<forall>K V s. boundary h K V s \<longrightarrow> \<not> prefix K ids)
     | Some s \<Rightarrow> hm_len m \<le> length ids \<and> boundary h (take (hm_len m) ids) (hm_kv m) s \<and>
         (\<forall>K V s. boundary h K V s \<longrightarrow> prefix K ids \<longrightarrow> length K \<le> hm_len m)"
    "\<exists>x. find_node (hm_node m) (hy_root h') = Some x \<and> rn_mamba x = hm_mamba m \<and>
       (hm_node m \<noteq> rn_id (hy_root h') \<longrightarrow> hm_mamba m \<noteq> None)"
proof -
  obtain i n h1 where w: "hy_walk tic ids h = ((i, n), h1)" by (metis prod.exhaust)
  note W = hy_walk_boundary [OF C w]
  obtain ds where ds: "node_path i (hy_root h1) = Some (rn_data (hy_root h1) # ds)" "keys_of ds = take n ids"
    using W(10) by blast
  have br: "below_root i h1 = ds" using ds(1) by (simp add: below_root_def)
  have pl: "path_len i h1 = length (keys_of ds)" by (simp add: path_len_def br keys_of_def length_concat comp_def)
  have h': "h' = h1" using m w by (auto simp: hy_match_def split: option.splits prod.splits)
  show "hy_inv L h'" "kv_slots h' = kv_slots h" "snap_slots h' = snap_slots h"
    "\<And>K V s. boundary h' K V s \<longleftrightarrow> boundary h K V s"
    using W unfolding h' by simp_all
  have pre: "prefix K (keys_of ds)" if "boundary h K V s" "prefix K ids" for K V s
  proof -
    have "length K \<le> n" using W(9) boundary_cached(1) [OF C that(1)] that(2) by blast
    then have "K = take (length K) ids" "length K \<le> n" using that(2) by (auto simp: prefix_def)
    then show ?thesis unfolding ds(2) by (metis min.absorb1 take_is_prefix take_take)
  qed
  note B = boundary_below [OF W(1) _ ds(1)]
  have "(case hm_mamba m of
       None \<Rightarrow> hm_kv m = [] \<and> hm_len m = 0 \<and> hm_node m = rn_id (hy_root h') \<and>
         (\<forall>K V s. boundary h K V s \<longrightarrow> \<not> prefix K ids)
     | Some s \<Rightarrow> hm_len m \<le> length ids \<and> boundary h (take (hm_len m) ids) (hm_kv m) s \<and>
         (\<forall>K V s. boundary h K V s \<longrightarrow> prefix K ids \<longrightarrow> length K \<le> hm_len m)) \<and>
    (\<exists>x. find_node (hm_node m) (hy_root h') = Some x \<and> rn_mamba x = hm_mamba m \<and>
       (hm_node m \<noteq> rn_id (hy_root h') \<longrightarrow> hm_mamba m \<noteq> None))"
  proof (cases "climb (rev ds) (length (keys_of ds))")
    case None
    then have "m = \<lparr> hm_kv = [], hm_len = 0, hm_mamba = None, hm_node = rn_id (hy_root h1) \<rparr>"
      using m w by (auto simp: hy_match_def br pl)
    moreover have "\<not> prefix K ids" if bk: "boundary h K V s" for K V s
    proof
      assume pk: "prefix K ids"
      have "boundary h1 K V s" using W(2) bk by simp
      then obtain d where "d \<in> set ds" "nd_mamba d = Some s"
        using B [of K V s] pre [OF bk pk] by fastforce
      then show False using None climb_None by (metis set_rev option.distinct(1))
    qed
    ultimately show ?thesis using h' hy_coreD(2) [OF W(1)] by simp
  next
    case (Some r)
    obtain d k where r: "r = (d, k)" by (cases r)
    obtain as bs where S: "ds = as @ d # bs" "nd_mamba d \<noteq> None" "k = length (keys_of (as @ [d]))"
        "\<forall>b \<in> set bs. nd_mamba b = None" using climb_Some [OF Some [unfolded r]] by blast
    obtain s where s: "nd_mamba d = Some s" using S(2) by blast
    have pd: "node_path (nd_id d) (hy_root h1) = Some (rn_data (hy_root h1) # as @ [d])"
      using path_part(1) [of i "hy_root h1" "rn_data (hy_root h1) # as" d bs] ds(1) S(1)
        radix_invD(5) [OF hy_coreD(1) [OF W(1)]] by simp
    have ck: "collect_kv (nd_id d) h1 = vals_of (as @ [d])"
      using pd by (simp add: collect_kv_def below_root_def vals_of_def)
    have mm: "m = \<lparr> hm_kv = vals_of (as @ [d]), hm_len = k, hm_mamba = Some s, hm_node = nd_id d \<rparr>"
      using m w Some r s by (auto simp: hy_match_def br pl ck simp del: keys_vals_simps)
    have "boundary h1 (keys_of (as @ [d])) (vals_of (as @ [d])) s" unfolding boundary_def
      using pd s by (intro exI [of _ "nd_id d"] exI [of _ "as @ [d]"]) simp
    moreover have tk: "keys_of (as @ [d]) = take k ids" "k \<le> length ids"
    proof -
      have "keys_of (as @ [d]) = take k (keys_of ds)" by (simp add: S(1,3) keys_of_def)
      moreover have "k \<le> length (keys_of ds)" by (simp add: S(1,3) keys_of_def)
      ultimately show "keys_of (as @ [d]) = take k ids" "k \<le> length ids" unfolding ds(2) using W(8) by (simp_all add: min_absorb1)
    qed
    moreover have "length K \<le> k" if b: "boundary h K V s" and p: "prefix K ids" for K V s
    proof -
      obtain as' d' bs' where P: "ds = as' @ d' # bs'" "nd_mamba d' = Some s" "K = keys_of (as' @ [d'])"
        using B [of K V s] W(2) b pre [OF b p] by metis
      have "length as' \<le> length as"
      proof (rule ccontr)
        assume "\<not> length as' \<le> length as"
        then have "d' = bs ! (length as' - length as - 1)" "length as' - length as - 1 < length bs"
          using arg_cong [OF P(1), of "\<lambda>l. l ! length as'"] arg_cong [OF P(1), of length] S(1)
          by (auto simp: nth_append)
        then show False using S(4) P(2) by auto
      qed
      then have "as' @ [d'] = take (Suc (length as')) (as @ [d])"
        using P(1) S(1) by (metis (no_types) append.assoc append_Cons append_Nil append_eq_conv_conj length_append_singleton Suc_le_mono min.absorb1 take_take)
      then have "prefix (as' @ [d']) (as @ [d])" using take_is_prefix by metis
      then show ?thesis unfolding P(3) S(3) by (rule keys_prefix)
    qed
    moreover have "\<exists>x. find_node (nd_id d) (hy_root h') = Some x \<and> rn_mamba x = Some s"
    proof -
      have "kids_path i (rn_kids (hy_root h1)) = Some ds"
        using root_path [OF hy_coreD(1) [OF W(1)] ds(1)] S(1) by (metis Nil_is_append_conv list.discI list.inject)
      then have "d \<in># hy_nodes h1" using path_last(2) S(1) by (fastforce simp: hy_nodes_def)
      then show ?thesis using find_of_data [OF W(1)] s h' by metis
    qed
    ultimately show ?thesis using W(2) mm by auto
  qed
  then show "case hm_mamba m of
       None \<Rightarrow> hm_kv m = [] \<and> hm_len m = 0 \<and> hm_node m = rn_id (hy_root h') \<and>
         (\<forall>K V s. boundary h K V s \<longrightarrow> \<not> prefix K ids)
     | Some s \<Rightarrow> hm_len m \<le> length ids \<and> boundary h (take (hm_len m) ids) (hm_kv m) s \<and>
         (\<forall>K V s. boundary h K V s \<longrightarrow> prefix K ids \<longrightarrow> length K \<le> hm_len m)"
    "\<exists>x. find_node (hm_node m) (hy_root h') = Some x \<and> rn_mamba x = hm_mamba m \<and>
       (hm_node m \<noteq> rn_id (hy_root h') \<longrightarrow> hm_mamba m \<noteq> None)"
    by blast+
qed

section \<open>Histories of the cache\<close>

text \<open>\<open>hy_run p L K S h\<close>: some sequence of calls leads to \<open>h\<close>; \<open>L\<close> are the locks taken and not
  released, \<open>K\<close> the key/value slots and \<open>S\<close> the snapshot slots handed to the cache and not
  handed back. A match is followed by the lock of the node it returns, or by none.\<close>

inductive hy_run :: "nat \<Rightarrow> nat multiset \<Rightarrow> slot multiset \<Rightarrow> slot multiset \<Rightarrow> hybrid \<Rightarrow> bool" for p where
  start: "0 < p \<Longrightarrow> hy_run p {#} {#} {#} (hy_init p c tic)"
| probe: "hy_run p L K S h \<Longrightarrow> hy_match tic ids h = (m, h') \<Longrightarrow> hy_run p L K S h'"
| admit: "hy_run p L K S h \<Longrightarrow> hy_match tic ids h = (m, h') \<Longrightarrow> inc_lock (hm_node m) h' = Inr h'' \<Longrightarrow>
    hy_run p (add_mset (hm_node m) L) K S h''"
| release: "hy_run p (add_mset i L) K S h \<Longrightarrow> dec_lock i h = Inr h' \<Longrightarrow> hy_run p L K S h'"
| donate: "hy_run p L K S h \<Longrightarrow> hy_insert tic now ids idx s h = Inr ((n, ex), h') \<Longrightarrow>
    hy_run p L (K + mset (drop n (take (nalign (length ids) p) idx))) (if ex then S else add_mset s S) h'"
| spill_kv: "hy_run p L K S h \<Longrightarrow> evict_full need h = ((kv, mam), h') \<Longrightarrow> hy_run p L (K - mset kv) (S - mset mam) h'"
| spill_snap: "hy_run p L K S h \<Longrightarrow> evict_mamba num h = ((kv, mam), h') \<Longrightarrow> hy_run p L (K - mset kv) (S - mset mam) h'"

lemma hy_match_page: "hy_match tic ids h = (m, h') \<Longrightarrow> rx_page (hy_kv h') = rx_page (hy_kv h)"
  by (auto simp: hy_match_def hy_walk_def split: option.splits prod.splits)

lemma insert_page: "insert_prefix tic now ids idx r = Inr ((n, (m, i)), r') \<Longrightarrow> rx_page r' = rx_page r \<and> m = nalign (length ids) (rx_page r)"
  by (auto simp: insert_prefix_def Let_def split: prod.splits if_splits)

lemma hy_insert_page: "hy_insert tic now ids idx s h = Inr (x, h') \<Longrightarrow> rx_page (hy_kv h') = rx_page (hy_kv h)"
  by (auto simp: hy_insert_def bind_res_Inr Let_def upd_node_def set_root_def dest!: insert_page split: prod.splits if_splits option.splits)

lemma hy_run_inv: "hy_run p L K S h \<Longrightarrow> hy_inv L h \<and> kv_slots h = K \<and> snap_slots h = S \<and> rx_page (hy_kv h) = p"
proof (induction rule: hy_run.induct)
  case (start c tic)
  then show ?case using hy_init_inv [of p c tic]
    by (simp add: kv_slots_def snap_slots_def hy_nodes_def hy_init_def radix_init_def new_root_def)
next
  case (probe L K S h tic ids m h')
  then show ?case using hy_match_core(1-3) hy_match_page by metis
next
  case (admit L K S h tic ids m h' h'')
  have I: "hy_inv L h'" "kv_slots h' = K" "snap_slots h' = S" "rx_page (hy_kv h') = p"
    using hy_match_core(1-3) [OF _ admit.hyps(2)] hy_match_page [OF admit.hyps(2)] admit.IH by auto
  obtain x where x: "find_node (hm_node m) (hy_root h') = Some x" "rn_mamba x = hm_mamba m"
    "hm_node m \<noteq> rn_id (hy_root h') \<longrightarrow> hm_mamba m \<noteq> None"
    using hy_match_core(6) [OF _ admit.hyps(2)] admit.IH by blast
  obtain h2 where "inc_lock (hm_node m) h' = Inr h2" "hy_inv (add_mset (hm_node m) L) h2" "content_kept h' h2"
    using inc_lock_core [OF I(1) x(1)] x(2,3) by metis
  then show ?case using admit.hyps(3) I by (simp add: content_kept_def)
next
  case (release i L K S h h')
  then obtain h2 where "dec_lock i h = Inr h2" "hy_inv L h2" "content_kept h h2"
    using dec_lock_core [of i L h] by metis
  then show ?case using release by (simp add: content_kept_def)
next
  case (donate L K S h tic now ids idx s n ex h')
  obtain m i r where "insert_prefix tic now ids idx (hy_kv h) = Inr ((n, (m, i)), r)" "hy_inv L h'"
    "kv_slots h' = kv_slots h + mset (drop n (take m idx))"
    "snap_slots h' = (if ex then snap_slots h else add_mset s (snap_slots h))"
    using insert_core [OF _ donate.hyps(2)] donate.IH by metis
  moreover have "m = nalign (length ids) p" using insert_page [OF calculation(1)] donate.IH by simp
  ultimately show ?case using donate.IH hy_insert_page [OF donate.hyps(2)] by auto
next
  case (spill_kv L K S h need kv mam h')
  then show ?case using evict_full_core(1,2) [of L h need kv mam h'] by (auto simp: hy_evicted_def kv_kept_def)
next
  case (spill_snap L K S h num kv mam h')
  then show ?case using evict_mamba_core(1,2) [of L h num kv mam h'] by (auto simp: hy_evicted_def kv_kept_def)
qed

lemma leaf_nodes_live: "live X t \<Longrightarrow> d \<in> set (leaf_nodes t) \<Longrightarrow> nd_id d \<notin> X \<Longrightarrow> nd_mamba d \<noteq> None"
  by (induction t) (auto split: if_splits)

lemma leaf_nodes_in: "set (leaf_nodes t) \<subseteq> set (datas t)"
  by (induction t) auto

lemma hy_leaves_live:
  assumes C: "hy_inv L h" and d: "d \<in> set (hy_leaves h)" shows "nd_mamba d \<noteq> None"
proof -
  obtain x where x: "x \<in> set (rn_kids (hy_root h))" "d \<in> set (leaf_nodes x)" using d by (auto simp: hy_leaves_def)
  have "d \<in># hy_nodes h" using x leaf_nodes_in [of x] by (auto simp: hy_nodes_def)
  then have "nd_id d \<noteq> rn_id (hy_root h)" using find_of_data [OF C] by metis
  moreover have "live {rn_id (hy_root h)} x" using hy_coreD(4) [OF C] x(1) by (cases "hy_root h") auto
  ultimately show ?thesis using leaf_nodes_live x(2) by blast
qed

lemma hy_integrity: "hy_inv L h \<Longrightarrow> check_integrity h"
proof -
  assume C: "hy_inv L h"
  have "nd_mamba d \<noteq> None \<and> 0 \<le> nd_mref d \<and> 0 \<le> nd_ref d" if d: "d \<in> set (hy_snapshots h)" for d
  proof -
    have b: "d \<in># hy_nodes h" "nd_mamba d \<noteq> None"
      using d hy_snapshots_bearers [of h] by (metis bearers_def filter_mset_eq_conv mset_subset_eqD multiset_filter_subset set_mset_mset, metis (mono_tags, lifting) bearers_def mem_Collect_eq set_mset_filter set_mset_mset)
    obtain x where x: "find_node (nd_id d) (hy_root h) = Some x" "rn_data x = d" "nd_id d \<noteq> rn_id (hy_root h)"
      using find_of_data [OF C b(1)] by blast
    have "find_kids (nd_id d) (rn_kids (hy_root h)) = Some x" using x(1,3) by (cases "hy_root h") auto
    then have "ref_ok L x" using find_sub(2) radix_invD(8) [OF hy_coreD(1) [OF C]] by blast
    then have "0 \<le> nd_ref d" using ref_nonneg x(2) by blast
    then show ?thesis using b(2) hy_find(3) [OF C x(1,3)] x(2) by (simp add: lock_ok_def)
  qed
  then show ?thesis by (simp add: check_integrity_def)
qed

section \<open>Properties of the hybrid cache\<close>


text \<open>A small history, the example of the witnesses.\<close>

definition demo_h1 :: hybrid where
  "demo_h1 = (case hy_insert 2 3 [1, 2, 3, 4] [11, 12, 13, 14] 5 (hy_init 1 0 1) of Inr (_, h) \<Rightarrow> h | Inl _ \<Rightarrow> hy_init 1 0 1)"

definition demo_h2 :: hybrid where
  "demo_h2 = (case hy_insert 4 5 [1, 2, 7] [11, 12, 21] 6 demo_h1 of Inr (_, h) \<Rightarrow> h | Inl _ \<Rightarrow> demo_h1)"

lemma demo_insert1: "hy_insert 2 3 [1, 2, 3, 4] [11, 12, 13, 14] 5 (hy_init 1 0 1) = Inr ((0, False), demo_h1)"
proof -
  have "map_sum id fst (hy_insert 2 3 [1, 2, 3, 4] [11, 12, 13, 14] 5 (hy_init 1 0 1)) = Inr (0, False)" by code_simp
  then show ?thesis by (auto simp: demo_h1_def split: sum.split)
qed

lemma demo_insert2: "hy_insert 4 5 [1, 2, 7] [11, 12, 21] 6 demo_h1 = Inr ((2, False), demo_h2)"
proof -
  have "map_sum id fst (hy_insert 4 5 [1, 2, 7] [11, 12, 21] 6 demo_h1) = Inr (2, False)" by code_simp
  then show ?thesis by (auto simp: demo_h2_def split: sum.split)
qed

lemma demo_run1: "hy_run 1 {#} {#11, 12, 13, 14#} {#5#} demo_h1"
  using hy_run.donate [OF hy_run.start demo_insert1] by (simp add: add_mset_commute)

lemma demo_run2: "hy_run 1 {#} {#11, 12, 13, 14, 21#} {#5, 6#} demo_h2"
  using hy_run.donate [OF demo_run1 demo_insert2] by (simp add: add_mset_commute numeral_eq_Suc)


text \<open>C10. The deepest live snapshot. A match reuses exactly the longest prefix of the prompt
  that ends at a node owning a snapshot: the slots and the snapshot it returns are those of
  that boundary, no boundary of the prompt is longer, and when the prompt has none the match
  is the cold start (length 0, no slots, no snapshot, the root). Matching moves no boundary.\<close>

theorem hybrid_match_deepest:
  assumes "hy_run p L K S h" "hy_match tic ids h = (m, h')"
  shows "(hm_mamba m = None \<longrightarrow> hm_kv m = [] \<and> hm_len m = 0 \<and> hm_node m = rn_id (hy_root h') \<and>
            (\<forall>A V s. boundary h A V s \<longrightarrow> \<not> prefix A ids))
     \<and> (\<forall>s. hm_mamba m = Some s \<longrightarrow> hm_len m \<le> length ids \<and> boundary h (take (hm_len m) ids) (hm_kv m) s \<and>
            (\<forall>A V s. boundary h A V s \<and> prefix A ids \<longrightarrow> length A \<le> hm_len m))
     \<and> (\<forall>A V s. boundary h' A V s = boundary h A V s)"
proof -
  have C: "hy_inv L h" using hy_run_inv [OF assms(1)] by simp
  show ?thesis using hy_match_core(4,5) [OF C assms(2)] by (auto split: option.splits)
qed

lemma demo_match: "fst (hy_match 6 [1, 2, 3, 4, 9] demo_h2) =
    \<lparr> hm_kv = [11, 12, 13, 14], hm_len = 4, hm_mamba = Some 5, hm_node = 1 \<rparr>"
  by code_simp

lemma hybrid_match_deepest_witness:
  "hm_len (fst (hy_match 6 [1, 2, 3, 4, 9] demo_h2)) = 4 \<and> boundary demo_h2 [1, 2, 3, 4] [11, 12, 13, 14] 5"
proof -
  obtain h' where "hy_match 6 [1, 2, 3, 4, 9] demo_h2 =
     (\<lparr> hm_kv = [11, 12, 13, 14], hm_len = 4, hm_mamba = Some 5, hm_node = 1 \<rparr>, h')"
    using demo_match by (cases "hy_match 6 [1, 2, 3, 4, 9] demo_h2") simp
  then show ?thesis using hybrid_match_deepest [OF demo_run2, of 6 "[1, 2, 3, 4, 9]"] by simp
qed

lemma boundary_unique:
  assumes C: "hy_core L X h" and b: "boundary h A V s" "boundary h A W t"
  shows "V = W \<and> s = t"
proof -
  obtain i ds where d: "node_path i (hy_root h) = Some (rn_data (hy_root h) # ds)" "ds \<noteq> []"
    "nd_mamba (last ds) = Some s" "A = keys_of ds" "V = vals_of ds" using b(1) by (auto simp: boundary_def)
  obtain g es where e: "node_path g (hy_root h) = Some (rn_data (hy_root h) # es)" "es \<noteq> []"
    "nd_mamba (last es) = Some t" "A = keys_of es" "W = vals_of es" using b(2) by (auto simp: boundary_def)
  note I = radix_invD [OF hy_coreD(1) [OF C]]
  have k: "kids_path i (rn_kids (hy_root h)) = Some ds" "kids_path g (rn_kids (hy_root h)) = Some es"
    using root_path [OF hy_coreD(1) [OF C] d(1)] root_path [OF hy_coreD(1) [OF C] e(1)] d(2) e(2) by (metis list.inject)+
  have "prefix ds es" "prefix es ds"
    using path_unique [OF k I(4,1)] path_unique [OF k(2,1) I(4,1)] d(4) e(4) by simp_all
  then have "ds = es" by (rule prefix_order.antisym)
  then show ?thesis using d e by simp
qed

text \<open>Insert then match. After a sequence of at least one page is inserted, a match of
  the same sequence reuses it up to its last full page, with the slots cached for its old
  prefix followed by the inserted ones, and restores a snapshot: the donated one, unless the
  insert reported that the boundary had one.\<close>

theorem hybrid_insert_match:
  assumes run: "hy_run p L K S h" and ins: "hy_insert tic now ids idx s h = Inr ((n, ex), h1)"
    and page: "p \<le> length ids" and mt: "hy_match tic' ids h1 = (m, h2)"
  shows "hm_len m = nalign (length ids) p
     \<and> (\<exists>base. (take n ids, base) \<in> cached (hy_kv h) \<and>
          hm_kv m = base @ drop n (take (nalign (length ids) p) idx))
     \<and> hm_mamba m \<noteq> None \<and> (\<not> ex \<longrightarrow> hm_mamba m = Some s)"
proof -
  have C: "hy_inv L h" and p: "rx_page (hy_kv h) = p" using hy_run_inv [OF run] by auto
  have C1: "hy_inv L h1" and p1: "rx_page (hy_kv h1) = p" using hy_run_inv [OF hy_run.donate [OF run ins]] by auto
  note pos = radix_invD(1) [OF hy_coreD(1) [OF C], unfolded p]
  let ?m = "nalign (length ids) p"
  have mp: "0 < ?m" "?m \<le> length ids" using nalign_pos [OF page pos] pos by auto
  obtain m' i r where P: "insert_prefix tic now ids idx (hy_kv h) = Inr ((n, (m', i)), r)"
    "i = rn_id (hy_root h1) \<or> (\<exists>y. find_node i (hy_root h1) = Some y \<and> rn_mamba y \<noteq> None)"
    "\<not> ex \<longrightarrow> (\<exists>y. find_node i (hy_root h1) = Some y \<and> rn_mamba y = Some s)"
    "\<exists>ds. node_path i (hy_root h1) = Some (rn_data (hy_root h1) # ds) \<and> keys_of ds = take m' ids \<and>
       get_matched_indices (m', i) r = Some (vals_of ds)"
    by (rule insert_core [OF C ins]) blast
  have m': "m' = ?m" using insert_page [OF P(1)] p by simp
  obtain ds where ds: "node_path i (hy_root h1) = Some (rn_data (hy_root h1) # ds)" "keys_of ds = take ?m ids"
    "get_matched_indices (m', i) r = Some (vals_of ds)" using P(4) m' by blast
  have "length (keys_of ds) = ?m" unfolding ds(2) by simp
  then have "ds \<noteq> []" using mp by auto
  then have ni: "i \<noteq> rn_id (hy_root h1)" using root_path [OF hy_coreD(1) [OF C1] ds(1)] by (metis list.inject)
  then obtain y s' where y: "find_node i (hy_root h1) = Some y" "rn_mamba y = Some s'" "\<not> ex \<longrightarrow> s' = s"
    using P(2,3) by auto
  have "(i, s') \<in># tags h1" using hy_find(1,2) [OF C1 y(1) ni] y(2) by (auto simp: in_tags)
  then have b: "boundary h1 (take ?m ids) (vals_of ds) s'"
    using boundary_tags [OF C1] ds(1,2) by metis
  have M: "case hm_mamba m of
       None \<Rightarrow> hm_kv m = [] \<and> hm_len m = 0 \<and> hm_node m = rn_id (hy_root h2) \<and>
         (\<forall>K V s. boundary h1 K V s \<longrightarrow> \<not> prefix K ids)
     | Some s \<Rightarrow> hm_len m \<le> length ids \<and> boundary h1 (take (hm_len m) ids) (hm_kv m) s \<and>
         (\<forall>K V s. boundary h1 K V s \<longrightarrow> prefix K ids \<longrightarrow> length K \<le> hm_len m)"
    using hy_match_core(5) [OF C1 mt] .
  obtain t where t: "hm_mamba m = Some t" using M b take_is_prefix by (cases "hm_mamba m") fastforce+
  have len: "hm_len m \<le> length ids" and bt: "boundary h1 (take (hm_len m) ids) (hm_kv m) t"
    and mx': "\<And>A V s. boundary h1 A V s \<Longrightarrow> prefix A ids \<Longrightarrow> length A \<le> hm_len m"
    using M t by auto
  have mx: "length (take ?m ids) \<le> hm_len m" using mx' [OF b take_is_prefix] .
  have "p dvd length (take (hm_len m) ids)"
    using cached_aligned [OF hy_coreD(1) [OF C1] boundary_cached(1) [OF C1 bt]] p1 by simp
  then have "hm_len m \<le> ?m" using len nalign_greatest by simp
  then have e: "hm_len m = ?m" using mx mp by simp
  have u: "vals_of ds = hm_kv m \<and> s' = t" using boundary_unique [OF C1 b bt [unfolded e]] .
  obtain base where "(take n ids, base) \<in> cached (hy_kv h)"
    "get_matched_indices (m', i) r = Some (base @ drop n (take m' idx))"
    using insert_prefix_correct(2) [OF hy_coreD(1) [OF C] P(1)] by (auto simp: inserted_def)
  then show ?thesis using e u t y(3) ds(3) m' by auto
qed

lemma hybrid_insert_match_witness:
  "\<exists>m h2. hy_match 6 [1, 2, 7] demo_h2 = (m, h2) \<and> hm_len m = 3 \<and> hm_mamba m = Some 6"
proof -
  obtain m h2 where "hy_match 6 [1, 2, 7] demo_h2 = (m, h2)" by (metis prod.exhaust)
  then show ?thesis using hybrid_insert_match [OF demo_run1 demo_insert2] by simp
qed

text \<open>C20. The evictions deliver. \<open>evict_mamba(num)\<close> frees exactly \<open>num\<close> snapshots, or all
  unlocked ones when there are fewer; \<open>evict_full(n)\<close> frees at least \<open>n\<close> key/value slots or
  leaves nothing evictable; and each lowers the two evictable counters by what it returned.\<close>

theorem hybrid_evict_exact:
  assumes "hy_run p L K S h" "evict_mamba num h = ((kv, mam), h1)" "evict_full need h = ((kv', mam'), h2)"
  shows "length mam = min num (nat (hy_mev h))
     \<and> hy_mev h1 = hy_mev h - int (length mam) \<and> rx_evictable (hy_kv h1) = rx_evictable (hy_kv h) - int (length kv)
     \<and> (need \<le> length kv' \<or> rx_evictable (hy_kv h2) = 0)
     \<and> hy_mev h2 = hy_mev h - int (length mam') \<and> rx_evictable (hy_kv h2) = rx_evictable (hy_kv h) - int (length kv')"
proof -
  have C: "hy_inv L h" using hy_run_inv [OF assms(1)] by simp
  show ?thesis using evict_mamba_core [OF C assms(2)] evict_full_core [OF C assms(3)]
    by (simp add: hy_evicted_def kv_kept_def)
qed

lemma hybrid_evict_exact_witness:
  "\<exists>kv mam h1. evict_mamba 1 demo_h2 = ((kv, mam), h1) \<and> length mam = 1 \<and> hy_mev h1 = 1"
proof -
  obtain kv mam h1 where m: "evict_mamba 1 demo_h2 = ((kv, mam), h1)" by (metis prod.exhaust)
  obtain kv' mam' h2 where "evict_full 1 demo_h2 = ((kv', mam'), h2)" by (metis prod.exhaust)
  moreover have "hy_mev demo_h2 = 2" by code_simp
  ultimately show ?thesis using hybrid_evict_exact [OF demo_run2 m] m by simp
qed

lemma locked_bearer:
  assumes C: "hy_inv L h" and C': "hy_inv L h'" and i: "i \<in># L" and sub: "bearers h' \<subseteq># bearers h"
    and id: "rn_id (hy_root h') = rn_id (hy_root h)" and mm: "rn_mamba (hy_root h') = rn_mamba (hy_root h)"
  shows "\<exists>x x'. find_node i (hy_root h) = Some x \<and> find_node i (hy_root h') = Some x' \<and> rn_mamba x' = rn_mamba x"
proof -
  have ex: "\<exists>x. find_node i (hy_root g) = Some x" if "hy_inv L g" for g
    using radix_invD(7) [OF hy_coreD(1) [OF that]] i find_None_iff(1) [of i "hy_root g"] by auto
  obtain x x' where x: "find_node i (hy_root h) = Some x" "find_node i (hy_root h') = Some x'"
    using ex [OF C] ex [OF C'] by blast
  show ?thesis
  proof (cases "i = rn_id (hy_root h)")
    case True
    then have "x = hy_root h" "x' = hy_root h'" using x id by (cases "hy_root h"; cases "hy_root h'"; auto)+
    then show ?thesis using x mm by blast
  next
    case False
    note F = hy_find [OF C x(1) False] and F' = hy_find [OF C' x(2) False [folded id]]
    have "rn_mamba x' \<noteq> None" using F'(2,3) i by (auto simp: lock_ok_def count_eq_zero_iff)
    then have "rn_data x' \<in># bearers h'" using F'(1) by (simp add: bearers_def)
    then have "rn_data x' \<in># hy_nodes h" using sub by (metis bearers_def mset_subset_eqD multiset_filter_subset)
    then have "rn_data x' = rn_data x" using node_unique [OF C _ F(1)] F(2) F'(2) by simp
    then show ?thesis using x by metis
  qed
qed

text \<open>C19. A locked prefix survives. Whatever is evicted, a locked node stays in the tree with
  its snapshot, and its path reads the same slots; the lock can be released afterwards.\<close>

theorem hybrid_locked_survives:
  assumes run: "hy_run p L K S h" and i: "i \<in># L"
    and ev: "evict_full n h = (out, h') \<or> evict_mamba n h = (out, h')"
  shows "\<exists>x x'. find_node i (hy_root h) = Some x \<and> find_node i (hy_root h') = Some x'
     \<and> rn_mamba x' = rn_mamba x \<and> get_matched_indices (0, i) (hy_kv h') = get_matched_indices (0, i) (hy_kv h)
     \<and> ok (dec_lock i h')"
proof -
  have C: "hy_inv L h" using hy_run_inv [OF run] by simp
  have E: "hy_inv L h'" "hy_evicted h (fst out) (snd out) h'"
    using ev evict_full_core(1,2) [OF C, of n "fst out" "snd out" h'] evict_mamba_core(1,2) [OF C, of n "fst out" "snd out" h'] by auto
  have k: "kv_kept h (fst out) h'" "bearers h' \<subseteq># bearers h" using E(2) by (simp_all add: hy_evicted_def)
  have l: "i \<in> set (nids (hy_root h'))" using radix_invD(7) [OF hy_coreD(1) [OF E(1)]] i by auto
  have g: "get_matched_indices (0, i) (hy_kv h') = get_matched_indices (0, i) (hy_kv h)" and r: "rn_id (hy_root h') = rn_id (hy_root h)"
    using k(1) l by (simp_all add: kv_kept_def)
  obtain L' where L': "L = add_mset i L'" using i by (metis multi_member_split)
  obtain h3 where "dec_lock i h' = Inr h3" using dec_lock_core [of i L' h'] E(1) L' by metis
  then show ?thesis
    using locked_bearer [OF C E(1) i k(2) r] g hy_coreD(2) [OF C] hy_coreD(2) [OF E(1)] by auto
qed

lemma hybrid_locked_survives_witness:
  "\<exists>h1 h2 out h3. hy_match 6 [1, 2, 7] demo_h2 = (\<lparr> hm_kv = [11, 12, 21], hm_len = 3, hm_mamba = Some 6, hm_node = 3 \<rparr>, h1)
     \<and> inc_lock 3 h1 = Inr h2 \<and> evict_full 100 h2 = (out, h3)
     \<and> (\<exists>x. find_node 3 (hy_root h3) = Some x) \<and> ok (dec_lock 3 h3)"
proof -
  have f: "fst (hy_match 6 [1, 2, 7] demo_h2) = \<lparr> hm_kv = [11, 12, 21], hm_len = 3, hm_mamba = Some 6, hm_node = 3 \<rparr>"
    by code_simp
  then obtain h1 where h1: "hy_match 6 [1, 2, 7] demo_h2 =
     (\<lparr> hm_kv = [11, 12, 21], hm_len = 3, hm_mamba = Some 6, hm_node = 3 \<rparr>, h1)"
    by (cases "hy_match 6 [1, 2, 7] demo_h2") simp
  have "ok (inc_lock 3 (snd (hy_match 6 [1, 2, 7] demo_h2)))" by code_simp
  then obtain h2 where h2: "inc_lock 3 h1 = Inr h2" using h1 by (cases "inc_lock 3 h1") auto
  have run: "hy_run 1 {#3#} {#11, 12, 13, 14, 21#} {#5, 6#} h2"
    using hy_run.admit [OF demo_run2 h1] h2 by simp
  obtain out h3 where e: "evict_full 100 h2 = (out, h3)" by (metis prod.exhaust)
  show ?thesis using hybrid_locked_survives [OF run _ disjI1 [OF e]] h1 h2 e by auto
qed

end
