(* ===== verification/Expert_Cache.thy ===== *)
theory Expert_Cache
  imports Prelude
begin

text \<open>
  \<open>moe/offload_cache.py\<close>: the pool of device slots that holds the experts of all MoE layers
  under one timestamp LRU, fed from the host banks. Flat identities are
  \<open>layer * num_experts + expert\<close>; \<open>slot_for_id\<close> is kept in its flat view; the sentinel \<open>-1\<close>
  of the two maps is \<open>None\<close>. The staging buffers \<open>evict_slots\<close> and \<open>src_indices\<close> are read only
  below \<open>num_indices\<close>: \<open>mc_plan\<close> is that part, \<open>mc_cap\<close> their length. A row of a bank is a list
  of elements; device placement and data types are not modelled.
\<close>

section \<open>The bank schemas\<close>

definition bank_schemas :: "string \<Rightarrow> string list option" where
  "bank_schemas = map_of
     [(''bf16'', [''gate_up'', ''down'']),
      (''gptq_int4'', [''qweight_gate_up'', ''qzeros_gate_up'', ''scales_gate_up'',
                       ''qweight_down'', ''qzeros_down'', ''scales_down'']),
      (''fp8_block'', [''weight_gate_up'', ''scale_gate_up'', ''weight_down'', ''scale_down'']),
      (''mxfp4'', [''blocks_gate_up'', ''scales_gate_up'', ''blocks_down'', ''scales_down'']),
      (''int8_channel'', [''weight_packed_gate_up'', ''weight_scale_gate_up'',
                          ''weight_packed_down'', ''weight_scale_down'']),
      (''gguf_kquant'', [''raw_gate'', ''raw_up'', ''raw_down''])]"

text \<open>\<open>_proj_bytes\<close> and \<open>gptq_int4_bytes_per_expert_slot\<close>.\<close>

definition proj_bytes :: "int \<Rightarrow> int \<Rightarrow> int \<Rightarrow> int \<Rightarrow> int \<Rightarrow> int" where
  "proj_bytes group_size qweight_bytes scale_bytes k n =
     (let groups = - ((- k) div group_size)
      in (k div 8) * n * qweight_bytes + groups * (n div 8) * qweight_bytes + groups * n * scale_bytes)"

definition gptq_int4_bytes_per_expert_slot :: "int \<Rightarrow> int \<Rightarrow> int \<Rightarrow> int \<Rightarrow> int \<Rightarrow> int res" where
  "gptq_int4_bytes_per_expert_slot hidden moe_inter group_size qweight_bytes scale_bytes =
     (if hidden \<le> 0 \<or> moe_inter \<le> 0 \<or> group_size \<le> 0 then Inl ValueError
      else Inr (proj_bytes group_size qweight_bytes scale_bytes hidden (2 * moe_inter) +
                proj_bytes group_size qweight_bytes scale_bytes moe_inter hidden))"

section \<open>The cache object\<close>

record 'v bank =
  bk_name :: string
  bk_host :: "'v list list list"
  bk_cache :: "'v list list"

record 'v moe_cache =
  mc_layers :: nat
  mc_experts :: nat
  mc_size :: nat
  mc_format :: string
  mc_overlap :: bool
  mc_slot :: "nat option list"
  mc_id :: "nat option list"
  mc_usage :: "nat list"
  mc_step :: nat
  mc_active :: "nat list"
  mc_cap :: nat
  mc_plan :: "(nat \<times> nat) list"
  mc_banks :: "'v bank list"
  mc_extra :: "string \<rightharpoonup> 'v list list"
  mc_pending :: "nat option"
  mc_whole :: bool
  mc_missing :: nat
  mc_calls :: nat

definition moe_init :: "nat \<Rightarrow> nat \<Rightarrow> nat \<Rightarrow> string \<Rightarrow> bool \<Rightarrow> 'v moe_cache res" where
  "moe_init L E S fmt overlap =
     (if bank_schemas fmt = None then Inl ValueError
      else if S < E then Inl ValueError
      else Inr \<lparr> mc_layers = L, mc_experts = E, mc_size = S, mc_format = fmt, mc_overlap = overlap,
             mc_slot = replicate (L * E) None, mc_id = replicate S None, mc_usage = replicate S 0,
             mc_step = 0, mc_active = replicate E 0, mc_cap = max E S, mc_plan = [],
             mc_banks = [], mc_extra = Map.empty, mc_pending = None, mc_whole = False,
             mc_missing = 0, mc_calls = 0 \<rparr>)"

definition bank_schema :: "'v moe_cache \<Rightarrow> string list" where
  "bank_schema c = (case bank_schemas (mc_format c) of Some ns \<Rightarrow> ns | None \<Rightarrow> [])"

text \<open>\<open>torch.zeros((cache_size, *row_shape))\<close> for the rows of \<open>per_layer[0]\<close>.\<close>

definition slot_pool :: "nat \<Rightarrow> 'v::zero list list list \<Rightarrow> 'v list list res" where
  "slot_pool S per_layer =
     (case per_layer of
        [] \<Rightarrow> Inl IndexError
      | rows # _ \<Rightarrow> Inr (replicate S (case rows of [] \<Rightarrow> [] | row # _ \<Rightarrow> replicate (length row) 0)))"

fun attach_banks ::
  "nat \<Rightarrow> nat \<Rightarrow> (string \<rightharpoonup> 'v::zero list list list) \<Rightarrow> string list \<Rightarrow> 'v bank list res" where
  "attach_banks L S sources [] = Inr []"
| "attach_banks L S sources (b # bs) =
     (case sources b of
        None \<Rightarrow> Inl KeyError
      | Some per_layer \<Rightarrow>
          if length per_layer \<noteq> L then Inl ValueError
          else bind_res (slot_pool S per_layer) (\<lambda>pool.
               bind_res (attach_banks L S sources bs) (\<lambda>rest.
                 Inr (\<lparr> bk_name = b, bk_host = per_layer, bk_cache = pool \<rparr> # rest))))"

definition set_bank_sources :: "(string \<times> 'v::zero list list list) list \<Rightarrow> 'v moe_cache \<Rightarrow> 'v moe_cache res" where
  "set_bank_sources sources c =
     (if set (map fst sources) \<noteq> set (bank_schema c) then Inl ValueError
      else bind_res (attach_banks (mc_layers c) (mc_size c) (map_of sources) (bank_schema c))
             (\<lambda>bs. Inr (c\<lparr>mc_banks := bs\<rparr>)))"

definition set_extra_metadata :: "string \<Rightarrow> 'v list list \<Rightarrow> 'v moe_cache \<Rightarrow> 'v moe_cache res" where
  "set_extra_metadata name per_layer c =
     (if length per_layer \<noteq> mc_layers c then Inl ValueError
      else Inr (c\<lparr>mc_extra := (mc_extra c)(name \<mapsto> per_layer)\<rparr>))"

definition get_extra_metadata :: "string \<Rightarrow> nat \<Rightarrow> 'v moe_cache \<Rightarrow> 'v list res" where
  "get_extra_metadata name l c =
     (case mc_extra c name of
        None \<Rightarrow> Inl KeyError
      | Some xs \<Rightarrow> if l < length xs then Inr (xs ! l) else Inl IndexError)"

definition bank_views :: "nat option \<Rightarrow> 'v moe_cache \<Rightarrow> 'v list list list res" where
  "bank_views n c =
     (if mc_banks c = [] then Inl AssertionError
      else Inr (map (\<lambda>b. case n of None \<Rightarrow> bk_cache b | Some k \<Rightarrow> take k (bk_cache b)) (mc_banks c)))"

section \<open>Resizing and resetting\<close>

definition zero_rows :: "'v::zero list list \<Rightarrow> 'v list list" where
  "zero_rows = map (map (\<lambda>_. 0))"

fun resize_banks :: "nat \<Rightarrow> 'v::zero bank list \<Rightarrow> 'v bank list res" where
  "resize_banks S [] = Inr []"
| "resize_banks S (b # bs) =
     bind_res (slot_pool S (bk_host b)) (\<lambda>pool.
     bind_res (resize_banks S bs) (\<lambda>rest. Inr (b\<lparr>bk_cache := pool\<rparr> # rest)))"

definition moe_rebuild :: "nat \<Rightarrow> 'v::zero moe_cache \<Rightarrow> 'v moe_cache res" where
  "moe_rebuild S c =
     (if S < mc_experts c then Inl ValueError
      else bind_res (resize_banks S (mc_banks c)) (\<lambda>bs.
        Inr (c\<lparr>mc_size := S, mc_id := replicate S None, mc_usage := replicate S 0,
               mc_cap := max (mc_experts c) S, mc_banks := bs,
               mc_slot := replicate (mc_layers c * mc_experts c) None, mc_step := 0,
               mc_active := replicate (mc_experts c) 0, mc_pending := None, mc_whole := False\<rparr>)))"

definition reset_stats :: "'v moe_cache \<Rightarrow> 'v moe_cache" where
  "reset_stats c = c\<lparr>mc_missing := 0, mc_calls := 0\<rparr>"

definition decode_miss_stats :: "'v moe_cache \<Rightarrow> nat \<times> nat" where
  "decode_miss_stats c = (mc_missing c, mc_calls c)"

definition moe_reset :: "'v::zero moe_cache \<Rightarrow> 'v moe_cache" where
  "moe_reset c = reset_stats
     (c\<lparr>mc_slot := replicate (mc_layers c * mc_experts c) None, mc_id := replicate (mc_size c) None,
        mc_usage := replicate (mc_size c) 0, mc_step := 0, mc_active := replicate (mc_experts c) 0,
        mc_plan := [], mc_pending := None, mc_whole := False,
        mc_banks := map (\<lambda>b. b\<lparr>bk_cache := zero_rows (bk_cache b)\<rparr>) (mc_banks c)\<rparr>)"

text \<open>\<open>_resync_slot_for_id\<close>: the forward map rebuilt from \<open>id_of_slot\<close>.\<close>

definition resync :: "'v moe_cache \<Rightarrow> 'v moe_cache" where
  "resync c = c\<lparr>mc_slot :=
     fold (\<lambda>s m. case mc_id c ! s of None \<Rightarrow> m | Some i \<Rightarrow> m[i := Some s])
       [0..<length (mc_id c)] (replicate (mc_layers c * mc_experts c) None)\<rparr>"

section \<open>Making experts resident\<close>

definition flat_id :: "nat \<Rightarrow> nat \<Rightarrow> 'v moe_cache \<Rightarrow> nat" where
  "flat_id l e c = l * mc_experts c + e"

text \<open>Phase 1: the slot of every expert that has one is stamped with this step.\<close>

definition bump_hits :: "nat \<Rightarrow> nat list \<Rightarrow> 'v moe_cache \<Rightarrow> 'v moe_cache" where
  "bump_hits l es c = c\<lparr>mc_usage :=
     fold (\<lambda>e u. case mc_slot c ! flat_id l e c of None \<Rightarrow> u | Some s \<Rightarrow> u[s := mc_step c]) es (mc_usage c)\<rparr>"

text \<open>\<open>min(range(S), key=lambda s: (usage[s], s))\<close>, and the pick of the prefill path.\<close>

definition lru_victim :: "'v moe_cache \<Rightarrow> nat" where
  "lru_victim c = arg_min_list (\<lambda>s. mc_usage c ! s) [0..<mc_size c]"

definition free_or_lru :: "'v moe_cache \<Rightarrow> nat" where
  "free_or_lru c =
     (case filter (\<lambda>s. mc_id c ! s = None) [0..<mc_size c] of s # _ \<Rightarrow> s | [] \<Rightarrow> lru_victim c)"

text \<open>Phase 2, one missing expert: its slot, the two maps, the stamp and the staged copy.\<close>

definition place :: "nat \<Rightarrow> nat \<Rightarrow> nat \<Rightarrow> 'v moe_cache \<Rightarrow> 'v moe_cache" where
  "place victim l e c =
     (let cleared = (case mc_id c ! victim of None \<Rightarrow> mc_slot c | Some old \<Rightarrow> (mc_slot c)[old := None])
      in c\<lparr>mc_slot := cleared[flat_id l e c := Some victim],
           mc_id := (mc_id c)[victim := Some (flat_id l e c)],
           mc_usage := (mc_usage c)[victim := mc_step c],
           mc_plan := mc_plan c @ [(victim, e)]\<rparr>)"

fun stage :: "('v moe_cache \<Rightarrow> nat) \<Rightarrow> nat \<Rightarrow> nat list \<Rightarrow> 'v moe_cache \<Rightarrow> 'v moe_cache res" where
  "stage pick l [] c = Inr c"
| "stage pick l (e # es) c =
     (if mc_cap c \<le> length (mc_plan c) then Inl RuntimeError else stage pick l es (place (pick c) l e c))"

definition missing_of :: "nat \<Rightarrow> nat list \<Rightarrow> 'v moe_cache \<Rightarrow> nat list" where
  "missing_of l es c = filter (\<lambda>e. mc_slot c ! flat_id l e c = None) es"

text \<open>Both phases for the experts \<open>es\<close>, missing ones taken in the order \<open>ord\<close> gives them.\<close>

definition acquire ::
  "('v moe_cache \<Rightarrow> nat) \<Rightarrow> (nat list \<Rightarrow> nat list) \<Rightarrow> bool \<Rightarrow> nat \<Rightarrow> nat list \<Rightarrow> 'v moe_cache \<Rightarrow> 'v moe_cache res" where
  "acquire pick ord whole l es c =
     (let c1 = bump_hits l es (c\<lparr>mc_step := mc_step c + 1,
                 mc_active := map (\<lambda>e. if e \<in> set es then 1 else 0) [0..<mc_experts c]\<rparr>);
          missing = ord (missing_of l es c1)
      in bind_res (stage pick l missing (c1\<lparr>mc_missing := mc_missing c1 + length missing,
                     mc_calls := mc_calls c1 + 1, mc_plan := []\<rparr>))
           (\<lambda>c2. Inr (resync (c2\<lparr>mc_pending := Some l, mc_whole := whole\<rparr>))))"

definition materialize_layer :: "nat \<Rightarrow> 'v moe_cache \<Rightarrow> 'v moe_cache res" where
  "materialize_layer l c =
     (if \<not> l < mc_layers c then Inl ValueError
      else if mc_size c < mc_experts c then Inl ValueError
      else acquire free_or_lru (\<lambda>es. es) True l [0..<mc_experts c] c)"

text \<open>The routed experts in the order of their first occurrence.\<close>

definition first_seen :: "nat list \<Rightarrow> nat list" where
  "first_seen es = fold (\<lambda>e seen. if e \<in> set seen then seen else seen @ [e]) es []"

text \<open>\<open>ensure_experts\<close>; \<open>active_mask[expert]\<close> and \<open>slot_for_id[layer_id]\<close> raise out of range.\<close>

definition ensure_experts :: "nat \<Rightarrow> nat list \<Rightarrow> 'v moe_cache \<Rightarrow> 'v moe_cache res" where
  "ensure_experts l es c =
     (if mc_banks c \<noteq> [] \<and> mc_size c < 2 then Inl RuntimeError
      else if \<exists>e \<in> set es. \<not> e < mc_experts c then Inl IndexError
      else if \<not> l < mc_layers c then Inl IndexError
      else acquire lru_victim sort False l (first_seen es) c)"

section \<open>The copies\<close>

definition copy_rows :: "nat \<Rightarrow> (nat \<times> nat) list \<Rightarrow> 'v bank \<Rightarrow> 'v bank" where
  "copy_rows l plan b = b\<lparr>bk_cache :=
     fold (\<lambda>(s, row) pool. pool[s := bk_host b ! l ! row]) plan (bk_cache b)\<rparr>"

definition copy_missing :: "'v moe_cache \<Rightarrow> 'v moe_cache res" where
  "copy_missing c =
     (if mc_banks c = [] then Inl AssertionError
      else case mc_pending c of
        None \<Rightarrow> Inr c
      | Some l \<Rightarrow> Inr (c\<lparr>mc_banks := map (copy_rows l (mc_plan c)) (mc_banks c),
                       mc_pending := None, mc_whole := False\<rparr>))"

definition resident_slots :: "nat \<Rightarrow> 'v moe_cache \<Rightarrow> nat list" where
  "resident_slots l c =
     filter (\<lambda>s. case mc_id c ! s of
                   None \<Rightarrow> False
                 | Some i \<Rightarrow> l * mc_experts c \<le> i \<and> i < l * mc_experts c + mc_experts c)
       [0..<mc_size c]"

end
