(* ===== verification/Expert_Laws.thy ===== *)
theory Expert_Laws
  imports Expert_Cache
begin

text \<open>
  What the expert cache keeps: its two maps are inverse to each other, a resident expert's slot holds
  the expert's host rows in every bank, and a residency step on a reachable cache serves every wanted
  expert.
\<close>

section \<open>The invariant of the maps\<close>

definition maps_agree :: "'v moe_cache \<Rightarrow> bool" where
  "maps_agree c \<longleftrightarrow>
     (\<forall>i < mc_layers c * mc_experts c. \<forall>s. mc_slot c ! i = Some s \<longleftrightarrow> s < mc_size c \<and> mc_id c ! s = Some i) \<and>
     (\<forall>s < mc_size c. \<forall>i. mc_id c ! s = Some i \<longrightarrow> i < mc_layers c * mc_experts c)"

definition moe_wf :: "'v moe_cache \<Rightarrow> bool" where
  "moe_wf c \<longleftrightarrow> mc_experts c \<le> mc_size c \<and> length (mc_slot c) = mc_layers c * mc_experts c \<and>
     length (mc_id c) = mc_size c \<and> length (mc_usage c) = mc_size c \<and>
     mc_cap c = max (mc_experts c) (mc_size c) \<and> maps_agree c \<and>
     (\<forall>u \<in> set (mc_usage c). u \<le> mc_step c)"

definition bank_wf :: "'v moe_cache \<Rightarrow> 'v bank \<Rightarrow> bool" where
  "bank_wf c b \<longleftrightarrow> length (bk_host b) = mc_layers c \<and> length (bk_cache b) = mc_size c"

text \<open>The slots outside \<open>X\<close> hold the bytes of the expert that occupies them.\<close>

definition holds_rows :: "nat set \<Rightarrow> 'v moe_cache \<Rightarrow> 'v bank \<Rightarrow> bool" where
  "holds_rows X c b \<longleftrightarrow>
     (\<forall>s i. s < mc_size c \<longrightarrow> s \<notin> X \<longrightarrow> mc_id c ! s = Some i \<longrightarrow>
        bk_cache b ! s = bk_host b ! (i div mc_experts c) ! (i mod mc_experts c))"

definition moe_ok :: "'v moe_cache \<Rightarrow> bool" where
  "moe_ok c \<longleftrightarrow> moe_wf c \<and> mc_pending c = None \<and> (\<forall>b \<in> set (mc_banks c). bank_wf c b \<and> holds_rows {} c b)"

lemma moe_wfD:
  assumes "moe_wf c"
  shows "mc_experts c \<le> mc_size c" "length (mc_slot c) = mc_layers c * mc_experts c" "length (mc_id c) = mc_size c"
    "length (mc_usage c) = mc_size c" "mc_cap c = max (mc_experts c) (mc_size c)" "maps_agree c"
    "\<And>s. s < mc_size c \<Longrightarrow> mc_usage c ! s \<le> mc_step c"
  using assms by (auto simp: moe_wf_def)

lemma maps_agreeD:
  assumes "maps_agree c"
  shows "i < mc_layers c * mc_experts c \<Longrightarrow> mc_slot c ! i = Some s \<Longrightarrow> s < mc_size c \<and> mc_id c ! s = Some i"
    "s < mc_size c \<Longrightarrow> mc_id c ! s = Some i \<Longrightarrow> i < mc_layers c * mc_experts c \<and> mc_slot c ! i = Some s"
  using assms by (auto simp: maps_agree_def)

lemma flat_lt: "l < mc_layers c \<Longrightarrow> e < mc_experts c \<Longrightarrow> flat_id l e c < mc_layers c * mc_experts c"
proof -
  assume a: "l < mc_layers c" "e < mc_experts c"
  then have "l * mc_experts c + e < Suc l * mc_experts c" by simp
  also have "\<dots> \<le> mc_layers c * mc_experts c" using a(1) by (intro mult_le_mono1) simp
  finally show ?thesis by (simp add: flat_id_def)
qed

lemma flat_div: "e < mc_experts c \<Longrightarrow> flat_id l e c div mc_experts c = l" "e < mc_experts c \<Longrightarrow> flat_id l e c mod mc_experts c = e"
  by (simp_all add: flat_id_def)

lemma flat_inj: "flat_id l e c = flat_id l e' c \<longleftrightarrow> e = e'"
  by (simp add: flat_id_def)

lemma moe_init_ok: "moe_init L E S fmt ov = Inr c \<Longrightarrow> moe_ok c"
  by (auto simp: moe_init_def moe_ok_def moe_wf_def maps_agree_def split: if_splits)

section \<open>The forward map is always in step\<close>

lemma resync_fold:
  assumes "\<And>s t i. s < n \<Longrightarrow> t < n \<Longrightarrow> ids ! s = Some i \<Longrightarrow> ids ! t = Some i \<Longrightarrow> s = t"
    and "\<And>s i. s < n \<Longrightarrow> ids ! s = Some i \<Longrightarrow> i < N"
  defines "r \<equiv> fold (\<lambda>s m. case ids ! s of None \<Rightarrow> m | Some i \<Rightarrow> m[i := Some s]) [0..<n] (replicate N None)"
  shows "length r = N \<and> (\<forall>i < N. \<forall>s. r ! i = Some s \<longleftrightarrow> s < n \<and> ids ! s = Some i)"
  using assms(1,2) unfolding r_def
proof (induction n)
  case (Suc n)
  let ?f = "\<lambda>s m. case ids ! s of None \<Rightarrow> m | Some i \<Rightarrow> m[i := Some s]"
  let ?r = "fold ?f [0..<n] (replicate N None)"
  have IH: "length ?r = N" "\<forall>i < N. \<forall>s. ?r ! i = Some s \<longleftrightarrow> s < n \<and> ids ! s = Some i"
    using Suc.IH Suc.prems less_SucI by (metis (no_types, lifting))+
  have st: "fold ?f [0..<Suc n] (replicate N None) = ?f n ?r" by simp
  show ?case
  proof (cases "ids ! n")
    case None
    then show ?thesis unfolding st using IH by (auto simp: less_Suc_eq)
  next
    case (Some i)
    have "i < N" using Suc.prems(2) [of n i] Some by simp
    moreover have "ids ! s \<noteq> Some i" if "s < n" for s using Suc.prems(1) [of s n i] Some that by auto
    ultimately show ?thesis unfolding st using IH Some by (auto simp: nth_list_update less_Suc_eq)
  qed
qed simp

lemma option_eqI: "(\<And>s. x = Some s \<longleftrightarrow> y = Some s) \<Longrightarrow> x = y"
  by (cases x; cases y) auto

lemma resync_id: "moe_wf c \<Longrightarrow> resync c = c"
proof -
  assume W: "moe_wf c"
  note D = moe_wfD [OF W] and A = maps_agreeD [OF moe_wfD(6) [OF W]]
  let ?r = "fold (\<lambda>s m. case mc_id c ! s of None \<Rightarrow> m | Some i \<Rightarrow> m[i := Some s]) [0..<length (mc_id c)]
      (replicate (mc_layers c * mc_experts c) None)"
  have R: "length ?r = mc_layers c * mc_experts c \<and>
      (\<forall>i < mc_layers c * mc_experts c. \<forall>s. ?r ! i = Some s \<longleftrightarrow> s < length (mc_id c) \<and> mc_id c ! s = Some i)"
  proof (rule resync_fold)
    fix s t i assume "s < length (mc_id c)" "t < length (mc_id c)" "mc_id c ! s = Some i" "mc_id c ! t = Some i"
    then show "s = t" using A(2) D(3) by (metis option.inject)
  next
    fix s i assume "s < length (mc_id c)" "mc_id c ! s = Some i"
    then show "i < mc_layers c * mc_experts c" using A(2) D(3) by simp
  qed
  have "?r = mc_slot c"
  proof (rule nth_equalityI)
    fix i assume "i < length ?r"
    then have i: "i < mc_layers c * mc_experts c" using R by simp
    show "?r ! i = mc_slot c ! i"
    proof (rule option_eqI)
      fix s
      have "?r ! i = Some s \<longleftrightarrow> s < length (mc_id c) \<and> mc_id c ! s = Some i" using R i by blast
      then show "?r ! i = Some s \<longleftrightarrow> mc_slot c ! i = Some s"
        using D(3,6) i unfolding maps_agree_def by simp
    qed
  qed (use R D(2) in simp)
  then show "resync c = c" by (simp add: resync_def)
qed

section \<open>One placement\<close>

lemma place_simps [simp]:
  "mc_layers (place v l e c) = mc_layers c" "mc_experts (place v l e c) = mc_experts c"
  "mc_size (place v l e c) = mc_size c" "mc_step (place v l e c) = mc_step c" "mc_cap (place v l e c) = mc_cap c"
  "mc_banks (place v l e c) = mc_banks c" "mc_plan (place v l e c) = mc_plan c @ [(v, e)]"
  "mc_id (place v l e c) = (mc_id c)[v := Some (flat_id l e c)]"
  "mc_usage (place v l e c) = (mc_usage c)[v := mc_step c]" "mc_pending (place v l e c) = mc_pending c"
  "flat_id l' e' (place v l e c) = flat_id l' e' c"
  by (simp_all add: place_def Let_def flat_id_def)

lemma place_slot:
  assumes W: "moe_wf c" and "v < mc_size c" "l < mc_layers c" "e < mc_experts c"
  shows "length (mc_slot (place v l e c)) = length (mc_slot c)"
    "mc_slot (place v l e c) ! flat_id l e c = Some v"
    "i < mc_layers c * mc_experts c \<Longrightarrow> i \<noteq> flat_id l e c \<Longrightarrow>
       mc_slot (place v l e c) ! i = (if mc_id c ! v = Some i then None else mc_slot c ! i)"
proof -
  note f = flat_lt [OF assms(3,4)] and D = moe_wfD [OF W]
  show "length (mc_slot (place v l e c)) = length (mc_slot c)"
    by (simp add: place_def Let_def split: option.split)
  show "mc_slot (place v l e c) ! flat_id l e c = Some v"
    using f D(2) by (simp add: place_def Let_def split: option.split)
  show "i < mc_layers c * mc_experts c \<Longrightarrow> i \<noteq> flat_id l e c \<Longrightarrow>
       mc_slot (place v l e c) ! i = (if mc_id c ! v = Some i then None else mc_slot c ! i)"
    using f D(2) by (auto simp: place_def Let_def nth_list_update split: option.split)
qed

lemma place_wf:
  assumes W: "moe_wf c" and v: "v < mc_size c" and l: "l < mc_layers c" "e < mc_experts c"
    and n: "mc_slot c ! flat_id l e c = None"
  shows "moe_wf (place v l e c)"
proof -
  note D = moe_wfD [OF W] and A = maps_agreeD [OF moe_wfD(6) [OF W]]
  note S = place_slot [OF W v l]
  let ?c = "place v l e c" and ?f = "flat_id l e c"
  have f: "?f < mc_layers c * mc_experts c" using flat_lt [OF l] .
  have "mc_slot ?c ! i = Some s \<longleftrightarrow> s < mc_size c \<and> mc_id ?c ! s = Some i" if i: "i < mc_layers c * mc_experts c" for i s
  proof (cases "i = ?f")
    case True
    have "mc_id c ! s \<noteq> Some ?f" if "s < mc_size c" for s using A(2) [OF that] n by fastforce
    then show ?thesis using True S(2) v D(3) by (auto simp: nth_list_update)
  next
    case False
    have e: "mc_slot c ! i = Some s \<longleftrightarrow> s < mc_size c \<and> mc_id c ! s = Some i" using D(6) i by (simp add: maps_agree_def)
    have u: "mc_id c ! v = Some i \<Longrightarrow> mc_slot c ! i = Some v" using A(2) [OF v] by simp
    show ?thesis
      using S(3) [OF i False] e u v D(3) False by (cases "s = v") (auto simp: nth_list_update)
  qed
  moreover have "i < mc_layers c * mc_experts c" if "s < mc_size c" "mc_id ?c ! s = Some i" for s i
    using that A(2) f D(3) v by (auto simp: nth_list_update split: if_splits)
  ultimately have "maps_agree ?c" by (simp add: maps_agree_def)
  moreover have "\<forall>u \<in> set (mc_usage ?c). u \<le> mc_step c"
    using W set_update_subset_insert [of "mc_usage c" v "mc_step c"] by (auto simp: moe_wf_def)
  ultimately show ?thesis using D S(1) by (simp add: moe_wf_def)
qed

section \<open>Choosing a victim\<close>

text \<open>\<open>H\<close> are the experts of layer \<open>l\<close> already served in this step: exactly their slots carry
  its stamp.\<close>

definition stamped :: "nat \<Rightarrow> nat set \<Rightarrow> 'v moe_cache \<Rightarrow> bool" where
  "stamped l H c \<longleftrightarrow> H \<subseteq> {..<mc_experts c} \<and> (\<forall>e \<in> H. mc_slot c ! flat_id l e c \<noteq> None) \<and>
     (\<forall>s < mc_size c. mc_usage c ! s = mc_step c \<longleftrightarrow> (\<exists>e \<in> H. mc_slot c ! flat_id l e c = Some s))"

lemma stamped_room:
  assumes W: "moe_wf c" and H: "stamped l H c" and e: "e < mc_experts c" "e \<notin> H" and l: "l < mc_layers c"
  shows "\<exists>s < mc_size c. mc_usage c ! s < mc_step c"
proof (rule ccontr)
  assume a: "\<not> ?thesis"
  note D = moe_wfD [OF W]
  have "\<exists>e \<in> H. mc_slot c ! flat_id l e c = Some s" if "s < mc_size c" for s
    using a D(7) [OF that] H that by (force simp: stamped_def)
  then have "{..<mc_size c} \<subseteq> (\<lambda>e. the (mc_slot c ! flat_id l e c)) ` H" by (force simp: image_iff)
  moreover have fin: "finite H" using H finite_subset by (auto simp: stamped_def)
  ultimately have "mc_size c \<le> card H" using surj_card_le [OF fin] by fastforce
  also have "card H < card (insert e H)" using e(2) fin by simp
  also have "\<dots> \<le> card {..<mc_experts c}" using H e(1) by (intro card_mono) (auto simp: stamped_def)
  finally show False using D(1) by simp
qed

lemma lru_least:
  assumes "0 < mc_size c"
  shows "lru_victim c < mc_size c" "\<And>s. s < mc_size c \<Longrightarrow> mc_usage c ! lru_victim c \<le> mc_usage c ! s"
proof -
  have ne: "[0..<mc_size c] \<noteq> []" using assms by simp
  show "lru_victim c < mc_size c" using arg_min_list_in [OF ne, of "\<lambda>s. mc_usage c ! s"] by (simp add: lru_victim_def)
  fix s assume "s < mc_size c"
  then show "mc_usage c ! lru_victim c \<le> mc_usage c ! s"
    using f_arg_min_list_f [OF ne, of "\<lambda>s. mc_usage c ! s"] by (simp add: lru_victim_def)
qed

lemma pick_ok:
  assumes W: "moe_wf c" and H: "stamped l H c" and e: "e < mc_experts c" "e \<notin> H" and l: "l < mc_layers c"
    and p: "pick = lru_victim \<or> pick = free_or_lru"
  shows "pick c < mc_size c" "\<forall>d \<in> H. mc_slot c ! flat_id l d c \<noteq> Some (pick c)"
proof -
  obtain s where s: "s < mc_size c" "mc_usage c ! s < mc_step c" using stamped_room [OF assms(1-5)] by blast
  have v: "lru_victim c < mc_size c" "mc_usage c ! lru_victim c < mc_step c"
    using lru_least [of c] s by (auto intro: le_less_trans)
  then have nv: "\<forall>d \<in> H. mc_slot c ! flat_id l d c \<noteq> Some (lru_victim c)" using H by (fastforce simp: stamped_def)
  have "pick c < mc_size c \<and> (\<forall>d \<in> H. mc_slot c ! flat_id l d c \<noteq> Some (pick c))"
  proof (cases "filter (\<lambda>s. mc_id c ! s = None) [0..<mc_size c]")
    case Nil
    then show ?thesis using p v nv by (auto simp: free_or_lru_def)
  next
    case (Cons t ts)
    then have "t \<in> set (filter (\<lambda>s. mc_id c ! s = None) [0..<mc_size c])" by simp
    then have t: "t < mc_size c" "mc_id c ! t = None" by auto
    have "mc_slot c ! flat_id l d c \<noteq> Some t" if "d \<in> H" for d
      using maps_agreeD(1) [OF moe_wfD(6) [OF W] flat_lt [OF l]] H that t(2) by (fastforce simp: stamped_def)
    then show ?thesis using p v nv t Cons by (auto simp: free_or_lru_def)
  qed
  then show "pick c < mc_size c" "\<forall>d \<in> H. mc_slot c ! flat_id l d c \<noteq> Some (pick c)" by auto
qed

section \<open>A whole stage\<close>

definition planned :: "nat \<Rightarrow> nat set \<Rightarrow> 'v moe_cache \<Rightarrow> bool" where
  "planned l H c \<longleftrightarrow> length (mc_plan c) \<le> card H \<and>
     (\<forall>(s, e) \<in> set (mc_plan c). e \<in> H \<and> mc_slot c ! flat_id l e c = Some s)"

definition same_frame :: "'v moe_cache \<Rightarrow> 'v moe_cache \<Rightarrow> bool" where
  "same_frame c c' \<longleftrightarrow> mc_layers c' = mc_layers c \<and> mc_experts c' = mc_experts c \<and> mc_size c' = mc_size c \<and>
     mc_step c' = mc_step c \<and> mc_cap c' = mc_cap c \<and> mc_banks c' = mc_banks c \<and> mc_missing c' = mc_missing c \<and>
     mc_calls c' = mc_calls c"

lemma same_frame_trans: "same_frame c d \<Longrightarrow> same_frame d e \<Longrightarrow> same_frame c e"
  by (simp add: same_frame_def)

lemma place_stamped:
  assumes W: "moe_wf c" and H: "stamped l H c" and P: "planned l H c" and e: "e < mc_experts c" "e \<notin> H" and l: "l < mc_layers c"
    and v: "v < mc_size c" "\<forall>d \<in> H. mc_slot c ! flat_id l d c \<noteq> Some v"
  shows "stamped l (insert e H) (place v l e c)" "planned l (insert e H) (place v l e c)"
proof -
  let ?c = "place v l e c"
  note S = place_slot [OF W v(1) l e(1)] and D = moe_wfD [OF W]
  have fin: "finite H" using H finite_subset by (auto simp: stamped_def)
  have keep: "mc_slot ?c ! flat_id l d c = mc_slot c ! flat_id l d c" if d: "d \<in> H" for d
  proof -
    have de: "d < mc_experts c" "d \<noteq> e" using H d e(2) by (auto simp: stamped_def)
    have "mc_id c ! v \<noteq> Some (flat_id l d c)"
      using maps_agreeD(2) [OF D(6) v(1)] v(2) d by blast
    then show ?thesis using S(3) [OF flat_lt [OF l de(1)]] de(2) by (simp add: flat_inj)
  qed
  have "mc_usage ?c ! s = mc_step ?c \<longleftrightarrow> (\<exists>d \<in> insert e H. mc_slot ?c ! flat_id l d ?c = Some s)" if s: "s < mc_size c" for s
    using H s S(2) keep v D(4) by (cases "s = v") (auto simp: stamped_def nth_list_update)
  moreover have "\<forall>d \<in> insert e H. mc_slot ?c ! flat_id l d ?c \<noteq> None"
    using H S(2) keep by (auto simp: stamped_def)
  ultimately show "stamped l (insert e H) ?c" using H e(1) by (auto simp: stamped_def)
  show "planned l (insert e H) ?c"
    using P S(2) keep e(2) fin by (auto simp: planned_def)
qed

lemma stage_ok:
  assumes "moe_wf c" "stamped l H c" "planned l H c" "l < mc_layers c" "distinct es" "set es \<inter> H = {}"
    "\<forall>e \<in> set es. e < mc_experts c \<and> mc_slot c ! flat_id l e c = None"
    and p: "pick = lru_victim \<or> pick = free_or_lru"
  shows "\<exists>c'. stage pick l es c = Inr c' \<and> moe_wf c' \<and> stamped l (H \<union> set es) c' \<and> planned l (H \<union> set es) c' \<and>
     same_frame c c' \<and> map snd (mc_plan c') = map snd (mc_plan c) @ es \<and> set (mc_plan c) \<subseteq> set (mc_plan c') \<and>
     (\<forall>s. s \<notin> fst ` set (mc_plan c') \<longrightarrow> mc_id c' ! s = mc_id c ! s)"
  using assms(1-7)
proof (induction es arbitrary: c H)
  case (Cons e es)
  have e: "e < mc_experts c" "e \<notin> H" "mc_slot c ! flat_id l e c = None" using Cons.prems by auto
  let ?v = "pick c"
  note V = pick_ok [OF Cons.prems(1,2) e(1,2) Cons.prems(4) p]
  let ?c = "place ?v l e c"
  have fin: "finite H" using Cons.prems(2) finite_subset by (auto simp: stamped_def)
  have "card H < card (insert e H)" using e(2) fin by simp
  also have "\<dots> \<le> card {..<mc_experts c}" using Cons.prems(2) e(1) by (intro card_mono) (auto simp: stamped_def)
  finally have "length (mc_plan c) < mc_cap c" using Cons.prems(3) moe_wfD(5) [OF Cons.prems(1)] by (auto simp: planned_def)
  then have st: "stage pick l (e # es) c = stage pick l es ?c" by simp
  have W: "moe_wf ?c" using place_wf [OF Cons.prems(1) V(1) Cons.prems(4) e(1,3)] .
  note S = place_stamped [OF Cons.prems(1,2,3) e(1,2) Cons.prems(4) V]
  have "\<forall>d \<in> set es. d < mc_experts ?c \<and> mc_slot ?c ! flat_id l d ?c = None"
  proof
    fix d assume d: "d \<in> set es"
    then have "d < mc_experts c" "d \<noteq> e" "mc_slot c ! flat_id l d c = None" using Cons.prems(5,7) by auto
    then show "d < mc_experts ?c \<and> mc_slot ?c ! flat_id l d ?c = None"
      using place_slot(3) [OF Cons.prems(1) V(1) Cons.prems(4) e(1) flat_lt [OF Cons.prems(4)], of d] by (simp add: flat_inj)
  qed
  moreover have "set es \<inter> insert e H = {}" using Cons.prems(5,6) by auto
  ultimately obtain c' where c': "stage pick l es ?c = Inr c'" "moe_wf c'" "stamped l (insert e H \<union> set es) c'"
     "planned l (insert e H \<union> set es) c'" "same_frame ?c c'" "map snd (mc_plan c') = map snd (mc_plan ?c) @ es"
     "set (mc_plan ?c) \<subseteq> set (mc_plan c')" "\<forall>s. s \<notin> fst ` set (mc_plan c') \<longrightarrow> mc_id c' ! s = mc_id ?c ! s"
    using Cons.IH [OF W S] Cons.prems(4,5) by auto
  have fr: "same_frame c ?c" by (simp add: same_frame_def place_def Let_def)
  have "mc_id c' ! s = mc_id c ! s" if "s \<notin> fst ` set (mc_plan c')" for s
  proof -
    have "?v \<in> fst ` set (mc_plan c')" using c'(7) by force
    then have "s \<noteq> ?v" using that by auto
    then show ?thesis using c'(8) that by simp
  qed
  then show ?case
    using c' st same_frame_trans [OF fr c'(5)] by (intro exI [of _ c']) auto
qed (auto simp: same_frame_def)

section \<open>Acquiring a set of experts\<close>

lemma bump_usage:
  assumes F: "\<And>e u. F e u = (case m e of None \<Rightarrow> u | Some s \<Rightarrow> u[s := t])"
    and "length u = S" "\<And>e s. e \<in> set es \<Longrightarrow> m e = Some s \<Longrightarrow> s < S"
  shows "length (fold F es u) = S \<and>
     (\<forall>s < S. fold F es u ! s = (if \<exists>e \<in> set es. m e = Some s then t else u ! s))"
  using assms(2,3)
proof (induction es arbitrary: u)
  case (Cons e es)
  have l: "length (F e u) = S" using Cons.prems(1) by (simp add: F split: option.split)
  have U: "F e u ! s = (if m e = Some s then t else u ! s)" if "s < S" for s
    using that Cons.prems(1) by (auto simp: F split: option.split)
  have "length (fold F es (F e u)) = S \<and>
     (\<forall>s < S. fold F es (F e u) ! s = (if \<exists>e \<in> set es. m e = Some s then t else F e u ! s))"
    by (rule Cons.IH [OF l]) (use Cons.prems(2) in auto)
  then show ?case using U by auto
qed simp

lemma bump_hits_nth:
  assumes "length (mc_usage c) = S" "\<And>e s. e \<in> set es \<Longrightarrow> mc_slot c ! flat_id l e c = Some s \<Longrightarrow> s < S"
  shows "length (mc_usage (bump_hits l es c)) = S \<and> (\<forall>s < S. mc_usage (bump_hits l es c) ! s =
     (if \<exists>e \<in> set es. mc_slot c ! flat_id l e c = Some s then mc_step c else mc_usage c ! s))"
proof -
  have "length (fold (\<lambda>e u. case mc_slot c ! flat_id l e c of None \<Rightarrow> u | Some s \<Rightarrow> u[s := mc_step c]) es (mc_usage c)) = S \<and>
    (\<forall>s < S. fold (\<lambda>e u. case mc_slot c ! flat_id l e c of None \<Rightarrow> u | Some s \<Rightarrow> u[s := mc_step c]) es (mc_usage c) ! s =
     (if \<exists>e \<in> set es. mc_slot c ! flat_id l e c = Some s then mc_step c else mc_usage c ! s))"
    by (rule bump_usage [OF refl]) (use assms in auto)
  then show ?thesis by (simp add: bump_hits_def)
qed

lemma acquire_ok:
  assumes W: "moe_wf c" and l: "l < mc_layers c" and es: "distinct es" "\<forall>e \<in> set es. e < mc_experts c"
    and p: "pick = lru_victim \<or> pick = free_or_lru" and o: "ord (missing_of l es c) = missing"
      "mset missing = mset (missing_of l es c)"
  shows "\<exists>c'. acquire pick ord whole l es c = Inr c' \<and> moe_wf c' \<and> mc_pending c' = Some l \<and>
     mc_layers c' = mc_layers c \<and> mc_experts c' = mc_experts c \<and> mc_size c' = mc_size c \<and> mc_banks c' = mc_banks c \<and>
     (\<forall>e \<in> set es. mc_slot c' ! flat_id l e c' \<noteq> None) \<and> map snd (mc_plan c') = missing \<and>
     mc_missing c' = mc_missing c + length missing \<and> mc_calls c' = mc_calls c + 1 \<and>
     (\<forall>(s, e) \<in> set (mc_plan c'). e < mc_experts c \<and> mc_slot c' ! flat_id l e c' = Some s) \<and>
     (\<forall>s. s \<notin> fst ` set (mc_plan c') \<longrightarrow> mc_id c' ! s = mc_id c ! s)"
proof -
  note D = moe_wfD [OF W]
  define c0 where "c0 = c\<lparr>mc_step := mc_step c + 1, mc_active := map (\<lambda>e. if e \<in> set es then 1 else 0) [0..<mc_experts c]\<rparr>"
  define c1 where "c1 = bump_hits l es c0"
  let ?c2 = "c1\<lparr>mc_missing := mc_missing c1 + length missing, mc_calls := mc_calls c1 + 1, mc_plan := []\<rparr>"
  have f: "flat_id l e ?c2 = flat_id l e c" "flat_id l e c1 = flat_id l e c" "flat_id l e c0 = flat_id l e c" for e
    by (simp_all add: flat_id_def bump_hits_def c0_def c1_def)
  have b0: "mc_slot c0 = mc_slot c" "mc_step c0 = mc_step c + 1" "mc_usage c0 = mc_usage c" by (simp_all add: c0_def)
  have b: "mc_slot ?c2 = mc_slot c" "mc_id ?c2 = mc_id c" "mc_layers ?c2 = mc_layers c" "mc_experts ?c2 = mc_experts c"
    "mc_size ?c2 = mc_size c" "mc_step ?c2 = mc_step c + 1" "mc_cap ?c2 = mc_cap c" "mc_banks ?c2 = mc_banks c"
    "mc_plan ?c2 = []" "mc_missing ?c2 = mc_missing c + length missing" "mc_calls ?c2 = mc_calls c + 1"
    "mc_slot c1 = mc_slot c" "mc_id c1 = mc_id c" "mc_layers c1 = mc_layers c" "mc_experts c1 = mc_experts c" "mc_size c1 = mc_size c"
    by (simp_all add: bump_hits_def c0_def c1_def)
  have hs: "mc_slot c ! flat_id l e c = Some s \<Longrightarrow> s < mc_size c" if "e \<in> set es" for e s
    using maps_agreeD(1) [OF D(6) flat_lt [OF l]] es(2) that by blast
  have U: "length (mc_usage ?c2) = mc_size c \<and> (\<forall>s < mc_size c. mc_usage ?c2 ! s =
      (if \<exists>e \<in> set es. mc_slot c ! flat_id l e c = Some s then mc_step c + 1 else mc_usage c ! s))"
    using bump_hits_nth [of c0 "mc_size c" es l] D(4) hs unfolding b0 f by (simp add: c1_def)
  have mo: "missing_of l es c1 = missing_of l es c" by (simp add: missing_of_def b f)
  let ?H = "{e \<in> set es. mc_slot c ! flat_id l e c \<noteq> None}"
  have W2: "moe_wf ?c2"
  proof -
    have u: "mc_usage ?c2 ! s \<le> mc_step c + 1" if "s < length (mc_usage ?c2)" for s
    proof -
      have "s < mc_size c" using that U by simp
      then show ?thesis using conjunct2 [OF U] D(7) [of s] by (simp del: moe_cache.simps)
    qed
    have "u \<le> mc_step c + 1" if "u \<in> set (mc_usage ?c2)" for u
      using u that unfolding in_set_conv_nth by blast
    moreover have "maps_agree ?c2" using D(6) by (simp add: maps_agree_def b)
    ultimately show ?thesis unfolding moe_wf_def b using D U by auto
  qed
  have H2: "stamped l ?H ?c2"
    unfolding stamped_def b f
  proof (intro conjI allI impI)
    fix s assume s: "s < mc_size c"
    have "mc_usage c ! s \<noteq> mc_step c + 1" using D(7) [OF s] by simp
    then show "mc_usage ?c2 ! s = mc_step c + 1 \<longleftrightarrow> (\<exists>e \<in> ?H. mc_slot c ! flat_id l e c = Some s)"
      using U s by auto
  qed (use es(2) in auto)
  have P2: "planned l ?H ?c2" by (simp add: planned_def b)
  have sm: "set missing = {e \<in> set es. mc_slot c ! flat_id l e c = None}" "distinct missing"
    using mset_eq_setD [OF o(2)] mset_eq_distinct [OF o(2)] es(1) by (auto simp: missing_of_def)
  have M: "distinct missing" "set missing \<inter> ?H = {}" "\<forall>e \<in> set missing. e < mc_experts ?c2 \<and> mc_slot ?c2 ! flat_id l e ?c2 = None"
    unfolding b f using sm es(2) by auto
  have l2: "l < mc_layers ?c2" using l unfolding b .
  obtain c' where c': "stage pick l missing ?c2 = Inr c'" "moe_wf c'" "stamped l (?H \<union> set missing) c'"
     "planned l (?H \<union> set missing) c'" "same_frame ?c2 c'" "map snd (mc_plan c') = map snd (mc_plan ?c2) @ missing"
     "\<forall>s. s \<notin> fst ` set (mc_plan c') \<longrightarrow> mc_id c' ! s = mc_id ?c2 ! s"
    using stage_ok [OF W2 H2 P2 l2 M p] by (elim exE conjE) (rule that)
  let ?c' = "c'\<lparr>mc_pending := Some l, mc_whole := whole\<rparr>"
  have W': "moe_wf ?c'" using c'(2) by (simp add: moe_wf_def maps_agree_def)
  have fr: "mc_layers c' = mc_layers c" "mc_experts c' = mc_experts c" "mc_size c' = mc_size c" "mc_banks c' = mc_banks c"
    "mc_missing c' = mc_missing c + length missing" "mc_calls c' = mc_calls c + 1"
    using c'(5) b unfolding same_frame_def by simp_all
  have f': "flat_id l e ?c' = flat_id l e c'" for e by (simp add: flat_id_def)
  have "acquire pick ord whole l es c = Inr ?c'"
    using c'(1) resync_id [OF W'] unfolding acquire_def Let_def c0_def [symmetric] c1_def [symmetric] mo o(1) by simp
  moreover have "\<forall>e \<in> set es. mc_slot c' ! flat_id l e c' \<noteq> None"
    using c'(3) sm(1) unfolding stamped_def by blast
  moreover have "\<forall>(s, e) \<in> set (mc_plan c'). e < mc_experts c \<and> mc_slot c' ! flat_id l e c' = Some s"
    using c'(4) sm(1) es(2) unfolding planned_def by auto
  ultimately show ?thesis using W' c'(6,7) b(2,9) fr by (intro exI [of _ ?c']) (simp add: f')
qed

section \<open>The copies restore the rows\<close>

lemma copied_rows:
  "length (fold (\<lambda>(s, row) pool. pool[s := f row]) plan pool) = length pool"
  "t < length pool \<Longrightarrow> fold (\<lambda>(s, row) pool. pool[s := f row]) plan pool ! t =
     (case map_of (rev plan) t of None \<Rightarrow> pool ! t | Some e \<Rightarrow> f e)"
proof -
  show "length (fold (\<lambda>(s, row) pool. pool[s := f row]) plan pool) = length pool"
    by (induction plan arbitrary: pool) auto
  show "t < length pool \<Longrightarrow> fold (\<lambda>(s, row) pool. pool[s := f row]) plan pool ! t =
     (case map_of (rev plan) t of None \<Rightarrow> pool ! t | Some e \<Rightarrow> f e)"
    by (induction plan arbitrary: pool) (auto simp: map_add_def nth_list_update split: option.splits)
qed

lemma copy_rows_ok:
  assumes W: "moe_wf c" and l: "l < mc_layers c" and b: "bank_wf c b" "holds_rows (fst ` set (mc_plan c)) c b"
    and P: "\<forall>(s, e) \<in> set (mc_plan c). e < mc_experts c \<and> mc_slot c ! flat_id l e c = Some s"
  shows "bank_wf c (copy_rows l (mc_plan c) b)" "holds_rows {} c (copy_rows l (mc_plan c) b)"
proof -
  let ?k = "fold (\<lambda>(s, row) pool. pool[s := bk_host b ! l ! row]) (mc_plan c) (bk_cache b)"
  note K = copied_rows [where f = "\<lambda>row. bk_host b ! l ! row" and plan = "mc_plan c" and pool = "bk_cache b"]
  show "bank_wf c (copy_rows l (mc_plan c) b)" using b(1) K by (simp add: bank_wf_def copy_rows_def)
  have pl: "s < mc_size c \<and> mc_id c ! s = Some (flat_id l e c) \<and> e < mc_experts c" if "(s, e) \<in> set (mc_plan c)" for s e
    using maps_agreeD(1) [OF moe_wfD(6) [OF W] flat_lt [OF l]] P that by blast
  have "?k ! s = bk_host b ! (i div mc_experts c) ! (i mod mc_experts c)" if s: "s < mc_size c" "mc_id c ! s = Some i" for s i
  proof (cases "map_of (rev (mc_plan c)) s")
    case (Some e)
    then have "(s, e) \<in> set (mc_plan c)" by (auto dest: map_of_SomeD)
    then have "i = flat_id l e c" "e < mc_experts c" using pl s(2) by auto
    then show ?thesis using K(2) Some s(1) b(1) by (simp add: bank_wf_def flat_div)
  next
    case None
    then have "s \<notin> fst ` set (mc_plan c)" by (simp add: map_of_eq_None_iff)
    then show ?thesis using K(2) None s b by (simp add: holds_rows_def bank_wf_def)
  qed
  then show "holds_rows {} c (copy_rows l (mc_plan c) b)" by (simp add: holds_rows_def copy_rows_def)
qed

text \<open>A residency step and its copies together.\<close>

lemma acquire_copy_ok:
  assumes ok: "moe_ok c" and l: "l < mc_layers c" and es: "distinct es" "\<forall>e \<in> set es. e < mc_experts c"
    and p: "pick = lru_victim \<or> pick = free_or_lru" and o: "mset (ord (missing_of l es c)) = mset (missing_of l es c)"
    and ne: "mc_banks c \<noteq> []"
  shows "\<exists>c1 c'. acquire pick ord whole l es c = Inr c1 \<and> copy_missing c1 = Inr c' \<and> moe_ok c' \<and>
     mc_layers c' = mc_layers c \<and> mc_experts c' = mc_experts c \<and> mc_size c' = mc_size c \<and>
     map bk_host (mc_banks c') = map bk_host (mc_banks c) \<and> map bk_name (mc_banks c') = map bk_name (mc_banks c) \<and>
     (\<forall>e \<in> set es. mc_slot c' ! flat_id l e c' \<noteq> None) \<and> map snd (mc_plan c') = ord (missing_of l es c) \<and>
     mc_missing c' = mc_missing c + length (ord (missing_of l es c)) \<and> mc_calls c' = mc_calls c + 1"
proof -
  have W: "moe_wf c" and B: "b \<in> set (mc_banks c) \<Longrightarrow> bank_wf c b \<and> holds_rows {} c b" for b
    using ok by (auto simp: moe_ok_def)
  obtain c1 where c1: "acquire pick ord whole l es c = Inr c1" "moe_wf c1" "mc_pending c1 = Some l"
     "mc_layers c1 = mc_layers c" "mc_experts c1 = mc_experts c" "mc_size c1 = mc_size c" "mc_banks c1 = mc_banks c"
     "\<forall>e \<in> set es. mc_slot c1 ! flat_id l e c1 \<noteq> None" "map snd (mc_plan c1) = ord (missing_of l es c)"
     "mc_missing c1 = mc_missing c + length (ord (missing_of l es c))" "mc_calls c1 = mc_calls c + 1"
     "\<forall>(s, e) \<in> set (mc_plan c1). e < mc_experts c \<and> mc_slot c1 ! flat_id l e c1 = Some s"
     "\<forall>s. s \<notin> fst ` set (mc_plan c1) \<longrightarrow> mc_id c1 ! s = mc_id c ! s"
    using acquire_ok [where whole = whole and ord = ord and missing = "ord (missing_of l es c)", OF W l es p _ o]
    by (auto intro: that simp del: split_paired_All)
  let ?c' = "c1\<lparr>mc_banks := map (copy_rows l (mc_plan c1)) (mc_banks c1), mc_pending := None, mc_whole := False\<rparr>"
  have cp: "copy_missing c1 = Inr ?c'" using c1(3,7) ne by (simp add: copy_missing_def)
  have l1: "l < mc_layers c1" using l c1(4) by simp
  have P1: "\<forall>(s, e) \<in> set (mc_plan c1). e < mc_experts c1 \<and> mc_slot c1 ! flat_id l e c1 = Some s" using c1(5,12) by simp
  have "bank_wf c1 (copy_rows l (mc_plan c1) b) \<and> holds_rows {} c1 (copy_rows l (mc_plan c1) b)" if "b \<in> set (mc_banks c1)" for b
  proof -
    have "bank_wf c1 b" "holds_rows (fst ` set (mc_plan c1)) c1 b"
      using B that c1(4-7,13) by (auto simp: bank_wf_def holds_rows_def)
    then show ?thesis using copy_rows_ok [OF c1(2) l1 _ _ P1] by blast
  qed
  then have "moe_ok ?c'" using c1(2) by (auto simp: moe_ok_def moe_wf_def maps_agree_def bank_wf_def holds_rows_def)
  moreover have "\<forall>e \<in> set es. mc_slot ?c' ! flat_id l e ?c' \<noteq> None" using c1(8) by (simp add: flat_id_def)
  ultimately show ?thesis
    using c1(1,4-7,9-11) cp by (intro exI [of _ c1] exI [of _ ?c']) (simp add: copy_rows_def comp_def)
qed

section \<open>The operations of the cache\<close>

lemma first_seen_props: "distinct (first_seen es)" "set (first_seen es) = set es"
proof -
  have "(distinct acc \<longrightarrow> distinct (fold (\<lambda>e seen. if e \<in> set seen then seen else seen @ [e]) es acc)) \<and>
        set (fold (\<lambda>e seen. if e \<in> set seen then seen else seen @ [e]) es acc) = set acc \<union> set es" for acc
    by (induction es arbitrary: acc) auto
  from this [of "[]"] show "distinct (first_seen es)" "set (first_seen es) = set es"
    by (simp_all add: first_seen_def)
qed

text \<open>What every forward does before it reads a slot.\<close>

definition serve :: "bool \<Rightarrow> nat \<Rightarrow> nat list \<Rightarrow> 'v moe_cache \<Rightarrow> 'v moe_cache res" where
  "serve prefill l ids c =
     bind_res (if prefill then materialize_layer l c else ensure_experts l ids c) copy_missing"

definition wanted :: "bool \<Rightarrow> nat list \<Rightarrow> 'v moe_cache \<Rightarrow> nat set" where
  "wanted prefill ids c = (if prefill then {..<mc_experts c} else set ids)"

definition resident :: "nat \<Rightarrow> nat \<Rightarrow> 'v moe_cache \<Rightarrow> bool" where
  "resident l e c \<longleftrightarrow> mc_slot c ! flat_id l e c \<noteq> None"

lemma serve_ok:
  assumes ok: "moe_ok c" and l: "l < mc_layers c" and ne: "mc_banks c \<noteq> []" and S: "2 \<le> mc_size c \<or> prefill"
    and es: "prefill \<or> (\<forall>e \<in> set ids. e < mc_experts c)"
  shows "\<exists>c'. serve prefill l ids c = Inr c' \<and> moe_ok c' \<and>
     mc_layers c' = mc_layers c \<and> mc_experts c' = mc_experts c \<and> mc_size c' = mc_size c \<and>
     map bk_host (mc_banks c') = map bk_host (mc_banks c) \<and> map bk_name (mc_banks c') = map bk_name (mc_banks c) \<and>
     (\<forall>e \<in> wanted prefill ids c. resident l e c') \<and>
     mc_missing c' = mc_missing c + card {e \<in> wanted prefill ids c. \<not> resident l e c} \<and> mc_calls c' = mc_calls c + 1"
proof -
  let ?es = "if prefill then [0..<mc_experts c] else first_seen ids"
  let ?ord = "if prefill then (\<lambda>es. es) else sort"
  let ?pick = "if prefill then free_or_lru else lru_victim :: 'a moe_cache \<Rightarrow> nat"
  have w: "set ?es = wanted prefill ids c" "distinct ?es" by (auto simp: wanted_def first_seen_props)
  have E: "\<forall>e \<in> set ?es. e < mc_experts c" using es by (auto simp: first_seen_props)
  have o: "mset (?ord (missing_of l ?es c)) = mset (missing_of l ?es c)" by simp
  have p: "?pick = lru_victim \<or> ?pick = free_or_lru" by simp
  have se: "mc_experts c \<le> mc_size c" using ok by (simp add: moe_ok_def moe_wf_def)
  have r: "(if prefill then materialize_layer l c else ensure_experts l ids c) = acquire ?pick ?ord prefill l ?es c"
    using l S E se by (auto simp: materialize_layer_def ensure_experts_def first_seen_props)
  have "length (?ord (missing_of l ?es c)) = card (set (missing_of l ?es c))"
    using w(2) distinct_card [of "missing_of l ?es c"] by (simp add: missing_of_def)
  moreover have "set (missing_of l ?es c) = {e \<in> wanted prefill ids c. \<not> resident l e c}"
    unfolding w(1) [symmetric] by (auto simp: missing_of_def resident_def)
  ultimately have n: "length (?ord (missing_of l ?es c)) = card {e \<in> wanted prefill ids c. \<not> resident l e c}" by (simp only:)
  show ?thesis
    using acquire_copy_ok [where ord = ?ord and whole = prefill, OF ok l w(2) E p o ne]
    unfolding serve_def r n w(1) resident_def by (auto simp: bind_res_def)
qed

text \<open>A resident expert's row.\<close>

lemma resident_row:
  assumes ok: "moe_ok c" and e: "resident l e c" "l < mc_layers c" "e < mc_experts c"
  shows "\<exists>s < mc_size c. mc_slot c ! flat_id l e c = Some s \<and> (\<forall>b \<in> set (mc_banks c). bk_cache b ! s = bk_host b ! l ! e)"
proof -
  have W: "moe_wf c" using ok by (simp add: moe_ok_def)
  obtain s where s: "mc_slot c ! flat_id l e c = Some s" using e(1) by (auto simp: resident_def)
  have i: "s < mc_size c" "mc_id c ! s = Some (flat_id l e c)"
    using maps_agreeD(1) [OF moe_wfD(6) [OF W] flat_lt [OF e(2,3)] s] by auto
  have "bk_cache b ! s = bk_host b ! l ! e" if "b \<in> set (mc_banks c)" for b
    using ok that i flat_div [OF e(3), of l] by (auto simp: moe_ok_def holds_rows_def)
  then show ?thesis using s i(1) by blast
qed

lemma serve_errors:
  assumes "serve prefill l ids c = Inr c'" "mc_banks c \<noteq> []"
  shows "l < mc_layers c" "2 \<le> mc_size c \<or> prefill" "prefill \<or> (\<forall>e \<in> set ids. e < mc_experts c)"
  using assms by (auto simp: serve_def bind_res_def materialize_layer_def ensure_experts_def split: if_splits sum.splits)

lemma attach_banks_ok:
  assumes "attach_banks L S src ns = Inr bs"
  shows "map bk_name bs = ns" "\<And>b. b \<in> set bs \<Longrightarrow> length (bk_host b) = L \<and> length (bk_cache b) = S \<and> src (bk_name b) = Some (bk_host b)"
proof -
  have "map bk_name bs = ns \<and> (\<forall>b \<in> set bs. length (bk_host b) = L \<and> length (bk_cache b) = S \<and> src (bk_name b) = Some (bk_host b))"
    using assms by (induction ns arbitrary: bs) (auto simp: bind_res_def slot_pool_def split: if_splits sum.splits option.splits list.splits)
  then show "map bk_name bs = ns" "\<And>b. b \<in> set bs \<Longrightarrow> length (bk_host b) = L \<and> length (bk_cache b) = S \<and> src (bk_name b) = Some (bk_host b)"
    by auto
qed

lemma resize_banks_ok:
  assumes "resize_banks S bs = Inr bs'"
  shows "map bk_name bs' = map bk_name bs" "map bk_host bs' = map bk_host bs" "\<And>b. b \<in> set bs' \<Longrightarrow> length (bk_cache b) = S"
proof -
  have "map bk_name bs' = map bk_name bs \<and> map bk_host bs' = map bk_host bs \<and> (\<forall>b \<in> set bs'. length (bk_cache b) = S)"
    using assms by (induction bs arbitrary: bs') (auto simp: bind_res_def slot_pool_def split: sum.splits list.splits)
  then show "map bk_name bs' = map bk_name bs" "map bk_host bs' = map bk_host bs" "\<And>b. b \<in> set bs' \<Longrightarrow> length (bk_cache b) = S"
    by auto
qed

lemma same_hosts: "map bk_host bs' = map bk_host bs \<Longrightarrow> b \<in> set bs' \<Longrightarrow> \<exists>a \<in> set bs. bk_host a = bk_host b"
  by (metis image_eqI image_iff list.set_map)

lemma empty_maps_ok:
  assumes "mc_experts c \<le> mc_size c" "mc_slot c = replicate (mc_layers c * mc_experts c) None" "mc_id c = replicate (mc_size c) None"
    "mc_usage c = replicate (mc_size c) 0" "mc_cap c = max (mc_experts c) (mc_size c)" "mc_pending c = None"
    "\<forall>b \<in> set (mc_banks c). bank_wf c b"
  shows "moe_ok c"
  using assms by (auto simp: moe_ok_def moe_wf_def maps_agree_def holds_rows_def)

lemma moe_init_set_ok:
  assumes "moe_init L E S fmt ov = Inr c0" "set_bank_sources src c0 = Inr c"
  shows "moe_ok c" "mc_banks c \<noteq> []" "mc_layers c = L" "mc_experts c = E" "mc_size c = S"
    "\<And>b. b \<in> set (mc_banks c) \<Longrightarrow> map_of src (bk_name b) = Some (bk_host b)"
proof -
  obtain bs where bs: "attach_banks (mc_layers c0) (mc_size c0) (map_of src) (bank_schema c0) = Inr bs" "c = c0\<lparr>mc_banks := bs\<rparr>"
    using assms(2) by (auto simp: set_bank_sources_def bind_res_def split: if_splits sum.splits)
  note A = attach_banks_ok [OF bs(1)]
  have "bank_schema c0 \<noteq> []"
    using assms(1) by (auto simp: moe_init_def bank_schema_def bank_schemas_def split: if_splits)
  then show "mc_banks c \<noteq> []" using A(1) bs(2) by auto
  show "mc_layers c = L" "mc_experts c = E" "mc_size c = S" using assms(1) bs(2) by (auto simp: moe_init_def split: if_splits)
  show "moe_ok c"
    by (rule empty_maps_ok) (use assms(1) bs(2) A in \<open>auto simp: moe_init_def bank_wf_def split: if_splits\<close>)
  show "\<And>b. b \<in> set (mc_banks c) \<Longrightarrow> map_of src (bk_name b) = Some (bk_host b)" using A bs(2) by auto
qed

lemma moe_rebuild_ok:
  assumes ok: "moe_ok c" and r: "moe_rebuild S c = Inr c'"
  shows "moe_ok c'" "mc_size c' = S" "mc_layers c' = mc_layers c" "mc_experts c' = mc_experts c"
    "map bk_host (mc_banks c') = map bk_host (mc_banks c)" "map bk_name (mc_banks c') = map bk_name (mc_banks c)"
    "mc_id c' = replicate S None"
proof -
  obtain bs where bs: "resize_banks S (mc_banks c) = Inr bs" "\<not> S < mc_experts c"
    "c' = c\<lparr>mc_size := S, mc_id := replicate S None, mc_usage := replicate S 0,
               mc_cap := max (mc_experts c) S, mc_banks := bs,
               mc_slot := replicate (mc_layers c * mc_experts c) None, mc_step := 0,
               mc_active := replicate (mc_experts c) 0, mc_pending := None, mc_whole := False\<rparr>"
    using r by (auto simp: moe_rebuild_def bind_res_def split: if_splits sum.splits)
  note A = resize_banks_ok [OF bs(1)]
  show "mc_size c' = S" "mc_layers c' = mc_layers c" "mc_experts c' = mc_experts c" "mc_id c' = replicate S None"
    "map bk_host (mc_banks c') = map bk_host (mc_banks c)" "map bk_name (mc_banks c') = map bk_name (mc_banks c)"
    using A bs(3) by simp_all
  have "bank_wf c' b" if b: "b \<in> set bs" for b
  proof -
    obtain a where "a \<in> set (mc_banks c)" "bk_host a = bk_host b" using same_hosts [of bs "mc_banks c" b] A(2) b by auto
    then show ?thesis using ok A(3) [OF b] bs(3) by (auto simp: moe_ok_def bank_wf_def)
  qed
  then show "moe_ok c'" by (intro empty_maps_ok) (use bs in auto)
qed

lemma moe_reset_ok:
  assumes ok: "moe_ok c"
  shows "moe_ok (moe_reset c)" "mc_size (moe_reset c) = mc_size c" "mc_layers (moe_reset c) = mc_layers c"
    "mc_experts (moe_reset c) = mc_experts c" "map bk_host (mc_banks (moe_reset c)) = map bk_host (mc_banks c)"
    "map bk_name (mc_banks (moe_reset c)) = map bk_name (mc_banks c)" "mc_id (moe_reset c) = replicate (mc_size c) None"
proof -
  show "moe_ok (moe_reset c)"
    by (rule empty_maps_ok)
      (use ok in \<open>auto simp: moe_reset_def reset_stats_def moe_ok_def moe_wf_def bank_wf_def zero_rows_def\<close>)
qed (simp_all add: moe_reset_def reset_stats_def comp_def)

section \<open>Reachable caches\<close>

text \<open>Every bank has a row of every expert of every layer.\<close>

inductive moe_run :: "'v::zero moe_cache \<Rightarrow> bool" where
  run_start: "moe_init L E S fmt ov = Inr c0 \<Longrightarrow> set_bank_sources src c0 = Inr c \<Longrightarrow>
     \<forall>(b, host) \<in> set src. \<forall>rows \<in> set host. length rows = E \<Longrightarrow> moe_run c"
| run_serve: "moe_run c \<Longrightarrow> serve prefill l ids c = Inr c' \<Longrightarrow> moe_run c'"
| run_rebuild: "moe_run c \<Longrightarrow> moe_rebuild S c = Inr c' \<Longrightarrow> moe_run c'"
| run_reset: "moe_run c \<Longrightarrow> moe_run (moe_reset c)"

lemma moe_run_ok: "moe_run c \<Longrightarrow> moe_ok c \<and> mc_banks c \<noteq> []"
proof (induction rule: moe_run.induct)
  case (run_start L E S fmt ov c0 src c)
  then show ?case using moe_init_set_ok by blast
next
  case (run_serve c prefill l ids c')
  then have ok: "moe_ok c" "mc_banks c \<noteq> []" by auto
  note e = serve_errors [OF run_serve.hyps(2) ok(2)]
  show ?case using serve_ok [OF ok(1) e(1) ok(2) e(2,3)] run_serve.hyps(2) ok(2) by auto
next
  case (run_rebuild c S c')
  then have "map bk_name (mc_banks c') = map bk_name (mc_banks c)" using moe_rebuild_ok(6) by blast
  then show ?case using run_rebuild moe_rebuild_ok(1) by auto
next
  case (run_reset c)
  then show ?case using moe_reset_ok(1) by (auto simp: moe_reset_def reset_stats_def)
qed

section \<open>Correctness\<close>

text \<open>For every reachable expert cache the two maps are inverse to each other, no slot is out of
  range, and the rebuild of the forward map at the end of every residency step changes
  nothing: it never clears a wrong row, because there is none.\<close>

theorem moe_maps_inverse:
  assumes "moe_run c"
  shows "resync c = c \<and>
    (\<forall>l e s. l < mc_layers c \<longrightarrow> e < mc_experts c \<longrightarrow>
       (mc_slot c ! flat_id l e c = Some s \<longleftrightarrow> s < mc_size c \<and> mc_id c ! s = Some (flat_id l e c))) \<and>
    (\<forall>s < mc_size c. \<forall>i. mc_id c ! s = Some i \<longrightarrow> i < mc_layers c * mc_experts c \<and> mc_slot c ! i = Some s)"
proof (intro conjI allI impI)
  have W: "moe_wf c" using moe_run_ok [OF assms] by (simp add: moe_ok_def)
  show "resync c = c" by (rule resync_id [OF W])
  show "mc_slot c ! flat_id l e c = Some s \<longleftrightarrow> s < mc_size c \<and> mc_id c ! s = Some (flat_id l e c)"
    if "l < mc_layers c" "e < mc_experts c" for l e s
    using maps_agreeD [OF moe_wfD(6) [OF W]] flat_lt [OF that] by blast
  show "i < mc_layers c * mc_experts c" "mc_slot c ! i = Some s" if "s < mc_size c" "mc_id c ! s = Some i" for s i
    using maps_agreeD(2) [OF moe_wfD(6) [OF W] that] by auto
qed

text \<open>C21. The residency step of a forward never fails on a reachable cache (whatever the routing,
  in both phases, however small the pool: one slot per expert is enough), and after its copies every
  wanted expert has a slot of its own whose row in every bank is byte for byte the row of that expert
  in the host bank of the layer; the host banks are as before.\<close>

theorem moe_serves_rows:
  assumes "moe_run c" and "l < mc_layers c" and "2 \<le> mc_size c \<or> prefill" and "prefill \<or> (\<forall>e \<in> set ids. e < mc_experts c)"
  shows "\<exists>c'. serve prefill l ids c = Inr c' \<and> map bk_host (mc_banks c') = map bk_host (mc_banks c) \<and>
     (\<forall>e \<in> wanted prefill ids c. \<exists>s < mc_size c. mc_slot c' ! flat_id l e c' = Some s \<and>
        (\<forall>b \<in> set (mc_banks c'). bk_cache b ! s = bk_host b ! l ! e))"
proof -
  note R = moe_run_ok [OF assms(1)]
  obtain c' where c': "serve prefill l ids c = Inr c'" "moe_ok c'" "mc_layers c' = mc_layers c" "mc_experts c' = mc_experts c"
     "mc_size c' = mc_size c" "map bk_host (mc_banks c') = map bk_host (mc_banks c)" "\<forall>e \<in> wanted prefill ids c. resident l e c'"
    using serve_ok [OF _ assms(2) _ assms(3,4)] R by blast
  have "\<exists>s < mc_size c. mc_slot c' ! flat_id l e c' = Some s \<and> (\<forall>b \<in> set (mc_banks c'). bk_cache b ! s = bk_host b ! l ! e)"
    if e: "e \<in> wanted prefill ids c" for e
    using resident_row [OF c'(2), of l e] c'(3-5,7) e assms(2,4) by (auto simp: wanted_def split: if_splits)
  then show ?thesis using c'(1,6) by blast
qed

text \<open>A residency step counts as misses exactly the wanted experts without a slot, and repeating
  the same step is free: it stages no copy.\<close>

theorem moe_miss_count:
  assumes "moe_run c" and "l < mc_layers c" and "2 \<le> mc_size c" and "\<forall>e \<in> set ids. e < mc_experts c"
  shows "\<exists>c' c''. serve prefill l ids c = Inr c' \<and> serve prefill l ids c' = Inr c'' \<and>
     decode_miss_stats c' = (mc_missing c + card {e \<in> wanted prefill ids c. \<not> resident l e c}, mc_calls c + 1) \<and>
     decode_miss_stats c'' = (mc_missing c', mc_calls c + 2)"
proof -
  note R = moe_run_ok [OF assms(1)]
  have pre: "2 \<le> mc_size c \<or> prefill" "prefill \<or> (\<forall>e \<in> set ids. e < mc_experts c)" using assms(3,4) by auto
  obtain c' where c': "serve prefill l ids c = Inr c'" "moe_ok c'" "mc_layers c' = mc_layers c" "mc_experts c' = mc_experts c"
     "mc_size c' = mc_size c" "map bk_name (mc_banks c') = map bk_name (mc_banks c)" "\<forall>e \<in> wanted prefill ids c. resident l e c'"
     "mc_missing c' = mc_missing c + card {e \<in> wanted prefill ids c. \<not> resident l e c}" "mc_calls c' = mc_calls c + 1"
    using serve_ok [OF _ assms(2) _ pre] R by blast
  have ne: "mc_banks c' \<noteq> []" "wanted prefill ids c' = wanted prefill ids c" using c'(4,6) R by (auto simp: wanted_def)
  obtain c'' where c'': "serve prefill l ids c' = Inr c''" "mc_calls c'' = mc_calls c' + 1"
     "mc_missing c'' = mc_missing c' + card {e \<in> wanted prefill ids c'. \<not> resident l e c'}"
    using serve_ok [OF c'(2) _ ne(1), of l prefill ids] c'(3-5) assms(2) pre by auto
  have "{e \<in> wanted prefill ids c'. \<not> resident l e c'} = {}" using c'(7) ne(2) by blast
  then have "mc_missing c'' = mc_missing c'" using c''(3) by (simp only: card.empty)
  then show ?thesis using c' c''(1,2) by (intro exI [of _ c'] exI [of _ c'']) (simp add: decode_miss_stats_def)
qed

text \<open>Resizing a reachable cache fails exactly below one slot per expert; otherwise, as a reset
  does, it empties every slot, keeps the host banks, and leaves a reachable cache of the new size.\<close>

theorem moe_rebuild_total:
  assumes "moe_run c" and "0 < mc_layers c"
  shows "(S < mc_experts c \<longrightarrow> moe_rebuild S c = Inl ValueError) \<and>
    (mc_experts c \<le> S \<longrightarrow> (\<exists>c'. moe_rebuild S c = Inr c' \<and> moe_run c' \<and> mc_size c' = S \<and> mc_id c' = replicate S None \<and>
       map bk_host (mc_banks c') = map bk_host (mc_banks c))) \<and>
    mc_id (moe_reset c) = replicate (mc_size c) None \<and> map bk_host (mc_banks (moe_reset c)) = map bk_host (mc_banks c)"
proof -
  have ok: "moe_ok c" using moe_run_ok [OF assms(1)] by simp
  have "\<exists>c'. moe_rebuild S c = Inr c'" if "mc_experts c \<le> S"
  proof -
    have h: "\<forall>b \<in> set (mc_banks c). bk_host b \<noteq> []" using ok assms(2) by (auto simp: moe_ok_def bank_wf_def)
    have "\<exists>bs'. resize_banks S bs = Inr bs'" if "\<forall>b \<in> set bs. bk_host b \<noteq> []" for bs :: "'a bank list"
      using that by (induction bs) (auto simp: bind_res_def slot_pool_def neq_Nil_conv)
    from this [OF h] show ?thesis using that by (auto simp: moe_rebuild_def bind_res_def)
  qed
  moreover have "S < mc_experts c \<longrightarrow> moe_rebuild S c = Inl ValueError" by (simp add: moe_rebuild_def)
  ultimately show ?thesis
    using moe_rebuild_ok [OF ok] moe_reset_ok [OF ok] moe_run.run_rebuild [OF assms(1)] by blast
qed

section \<open>A small cache\<close>

definition small_sources :: "(string \<times> int list list list) list" where
  "small_sources = [(''gate_up'', [[[1, 2], [3, 4]], [[5, 6], [7, 8]]]), (''down'', [[[11], [12]], [[13], [14]]])]"

definition small_moe :: "int moe_cache" where
  "small_moe = \<lparr> mc_layers = 2, mc_experts = 2, mc_size = 2, mc_format = ''bf16'', mc_overlap = False,
     mc_slot = [None, None, None, None], mc_id = [None, None], mc_usage = [0, 0],
     mc_step = 0, mc_active = [0, 0], mc_cap = 2, mc_plan = [],
     mc_banks = [\<lparr> bk_name = ''gate_up'', bk_host = [[[1, 2], [3, 4]], [[5, 6], [7, 8]]], bk_cache = [[0, 0], [0, 0]] \<rparr>,
                 \<lparr> bk_name = ''down'', bk_host = [[[11], [12]], [[13], [14]]], bk_cache = [[0], [0]] \<rparr>],
     mc_extra = Map.empty, mc_pending = None, mc_whole = False, mc_missing = 0, mc_calls = 0 \<rparr>"

lemma small_moe_run: "moe_run small_moe"
proof (rule moe_run.run_start)
  show "moe_init 2 2 2 ''bf16'' False = Inr (small_moe\<lparr>mc_banks := []\<rparr>)"
    by (simp add: moe_init_def bank_schemas_def small_moe_def numeral_2_eq_2)
  show "set_bank_sources small_sources (small_moe\<lparr>mc_banks := []\<rparr>) = Inr small_moe"
    by (simp add: set_bank_sources_def small_moe_def small_sources_def bank_schema_def bank_schemas_def slot_pool_def
        bind_res_def numeral_2_eq_2)
  show "\<forall>(b, host) \<in> set small_sources. \<forall>rows \<in> set host. length rows = 2" by (simp add: small_sources_def)
qed

lemma small_moe_dims: "mc_layers small_moe = 2" "mc_experts small_moe = 2" "mc_size small_moe = 2"
  by (simp_all add: small_moe_def)

theorem moe_maps_inverse_witness:
  "\<exists>c'. serve False 1 [1, 1] small_moe = Inr c' \<and> resync c' = c' \<and> moe_run c'"
proof -
  obtain c' where "serve False 1 [1, 1] small_moe = Inr c'"
    using serve_ok [of small_moe 1 False "[1, 1]"] moe_run_ok [OF small_moe_run] by (auto simp: small_moe_dims)
  then show ?thesis using moe_maps_inverse [OF moe_run.run_serve [OF small_moe_run]] moe_run.run_serve [OF small_moe_run] by blast
qed

theorem moe_serves_rows_witness:
  "\<exists>c'. serve True 1 [] small_moe = Inr c' \<and>
     (\<forall>e < 2. \<exists>s < 2. mc_slot c' ! flat_id 1 e c' = Some s \<and> (\<forall>b \<in> set (mc_banks c'). bk_cache b ! s = bk_host b ! 1 ! e))"
  using moe_serves_rows [OF small_moe_run, of 1 True "[]"] by (auto simp: small_moe_dims wanted_def)

theorem moe_miss_count_witness:
  "\<exists>c' c''. serve False 0 [1, 1] small_moe = Inr c' \<and> serve False 0 [1, 1] c' = Inr c'' \<and>
     decode_miss_stats c' = (1, 1) \<and> decode_miss_stats c'' = (1, 2)"
proof -
  have "{e \<in> wanted False [1, 1] small_moe. \<not> resident 0 e small_moe} = {1}"
    by (auto simp: wanted_def resident_def small_moe_def flat_id_def)
  moreover have "mc_missing small_moe = 0" "mc_calls small_moe = 0" by (simp_all add: small_moe_def)
  ultimately show ?thesis
    using moe_miss_count [OF small_moe_run, of 0 "[1, 1]" False] by (fastforce simp: small_moe_dims decode_miss_stats_def)
qed

theorem moe_rebuild_total_witness:
  "moe_rebuild 1 small_moe = Inl ValueError \<and> (\<exists>c'. moe_rebuild 5 small_moe = Inr c' \<and> mc_id c' = replicate 5 None)"
  using moe_rebuild_total [OF small_moe_run, of 1] moe_rebuild_total [OF small_moe_run, of 5] by (auto simp: small_moe_dims)

end
