(* ===== verification/Moe_Forward.thy ===== *)
theory Moe_Forward
  imports Expert_Laws Complex_Main
begin

text \<open>
  The forward of one MoE block (\<open>models/qwen3_moe/__init__.py\<close>, \<open>moe/cpu_executor.py\<close>): the
  experts resident in device memory, streamed through the expert cache, computed on the host, or
  split between the two. The arithmetic of the tensors is a parameter (\<open>arith\<close>): an activation row
  is a value, an expert a function of the rows its banks hold and of the activation. The loops, their
  order, the residency calls and the choice of the slots are the code's. A rational stands for the
  fetch fraction.
\<close>

section \<open>The routed batch and its arithmetic\<close>

record ('a, 'w, 'v) arith =
  ar_zero :: 'a
  ar_add :: "'a \<Rightarrow> 'a \<Rightarrow> 'a"
  ar_scale :: "'w \<Rightarrow> 'a \<Rightarrow> 'a"
  ar_expert :: "'v list list \<Rightarrow> 'a \<Rightarrow> 'a"

text \<open>\<open>flat\<close>, \<open>top_idx\<close>, \<open>top_w\<close> and the \<open>k\<close> of \<open>torch.topk\<close>.\<close>

record ('a, 'w) routed =
  ro_flat :: "'a list"
  ro_idx :: "nat list list"
  ro_w :: "'w list list"
  ro_k :: nat

text \<open>\<open>out.index_add_(0, [i], w * y)\<close> for one row \<open>i\<close> of column \<open>j\<close>, served by the expert \<open>f\<close>.\<close>

definition add_row :: "('a, 'w, 'v) arith \<Rightarrow> ('a, 'w) routed \<Rightarrow> ('a \<Rightarrow> 'a) \<Rightarrow> nat \<Rightarrow> nat \<Rightarrow> 'a list \<Rightarrow> 'a list" where
  "add_row A R f j i out = out[i := ar_add A (out ! i) (ar_scale A (ro_w R ! i ! j) (f (ro_flat R ! i)))]"

definition zero_out :: "('a, 'w, 'v) arith \<Rightarrow> ('a, 'w) routed \<Rightarrow> 'a list" where
  "zero_out A R = replicate (length (ro_flat R)) (ar_zero A)"

text \<open>The rows that column \<open>j\<close> routes to expert \<open>e\<close>.\<close>

definition routed_rows :: "('a, 'w) routed \<Rightarrow> nat \<Rightarrow> nat \<Rightarrow> nat list" where
  "routed_rows R e j = filter (\<lambda>i. ro_idx R ! i ! j = e) [0..<length (ro_flat R)]"

text \<open>One expert, then a list of experts: for each expert each column, for each column its rows.\<close>

definition expert_step :: "('a, 'w, 'v) arith \<Rightarrow> ('a, 'w) routed \<Rightarrow> (nat \<Rightarrow> 'a \<Rightarrow> 'a) \<Rightarrow> nat \<Rightarrow> 'a list \<Rightarrow> 'a list" where
  "expert_step A R f e = fold (\<lambda>j. fold (add_row A R (f e) j) (routed_rows R e j)) [0..<ro_k R]"

definition expert_loop :: "('a, 'w, 'v) arith \<Rightarrow> ('a, 'w) routed \<Rightarrow> (nat \<Rightarrow> 'a \<Rightarrow> 'a) \<Rightarrow> nat list \<Rightarrow> 'a list" where
  "expert_loop A R f es = fold (expert_step A R f) es (zero_out A R)"

section \<open>The resident experts\<close>

definition forward_inram :: "('a, 'w, 'v) arith \<Rightarrow> (nat \<Rightarrow> 'a \<Rightarrow> 'a) \<Rightarrow> nat \<Rightarrow> ('a, 'w) routed \<Rightarrow> 'a list" where
  "forward_inram A f E R = expert_loop A R f [0..<E]"

text \<open>The dense routing of a graph capture: \<open>torch.where(top_idx[:, slot] == e, top_w[:, slot], w)\<close>
  over the columns, then every expert on every row; \<open>w0\<close> is the zero weight.\<close>

definition dense_weight :: "'w \<Rightarrow> ('a, 'w) routed \<Rightarrow> nat \<Rightarrow> nat \<Rightarrow> 'w" where
  "dense_weight w0 R e i = fold (\<lambda>j w. if ro_idx R ! i ! j = e then ro_w R ! i ! j else w) [0..<ro_k R] w0"

definition forward_capturing :: "('a, 'w, 'v) arith \<Rightarrow> 'w \<Rightarrow> (nat \<Rightarrow> 'a \<Rightarrow> 'a) \<Rightarrow> nat \<Rightarrow> ('a, 'w) routed \<Rightarrow> 'a list" where
  "forward_capturing A w0 f E R =
     fold (\<lambda>e out. map (\<lambda>i. ar_add A (out ! i) (ar_scale A (dense_weight w0 R e i) (f e (ro_flat R ! i))))
             [0..<length (ro_flat R)]) [0..<E] (zero_out A R)"

section \<open>The host executor\<close>

text \<open>\<open>_python_forward\<close>, over the layer's \<open>gate_up\<close> and \<open>down\<close> banks; \<open>expert_mask\<close> as the hybrid
  split passes it.\<close>

definition cpu_forward ::
  "('a, 'w, 'v) arith \<Rightarrow> (nat \<Rightarrow> bool) \<Rightarrow> 'v list list \<Rightarrow> 'v list list \<Rightarrow> nat \<Rightarrow> ('a, 'w) routed \<Rightarrow> 'a list" where
  "cpu_forward A cand gate_up down E R =
     expert_loop A R (\<lambda>e. ar_expert A [gate_up ! e, down ! e]) (filter cand [0..<E])"

section \<open>The expert cache\<close>

text \<open>The ids handed to \<open>ensure_experts\<close>: all routed ones but those of the host half.\<close>

definition fetch_ids :: "nat set \<Rightarrow> ('a, 'w) routed \<Rightarrow> nat list" where
  "fetch_ids exclude R = (if exclude = {} then concat (ro_idx R) else filter (\<lambda>e. e \<notin> exclude) (concat (ro_idx R)))"

definition valid_slot :: "nat \<Rightarrow> nat \<Rightarrow> 'v moe_cache \<Rightarrow> bool" where
  "valid_slot l e c = (case mc_slot c ! flat_id l e c of None \<Rightarrow> False | Some s \<Rightarrow> s < mc_size c)"

definition positions :: "('a, 'w) routed \<Rightarrow> (nat \<times> nat) list" where
  "positions R = concat (map (\<lambda>j. map (Pair j) [0..<length (ro_flat R)]) [0..<ro_k R])"

text \<open>\<open>routed_cpu[~valid_cpu].max() >= S\<close>; an invalid position was stored as slot 0.\<close>

definition stale_slot :: "bool \<Rightarrow> nat \<Rightarrow> ('a, 'w) routed \<Rightarrow> 'v moe_cache \<Rightarrow> bool" where
  "stale_slot is_xpu l R c =
     (let bad = filter (\<lambda>(j, i). \<not> valid_slot l (ro_idx R ! i ! j) c) (positions R)
      in is_xpu \<and> bad \<noteq> [] \<and> mc_size c \<le> fold max (map (\<lambda>_. 0) bad) 0)"

text \<open>\<open>expert_to_col[e]\<close>, and the groups in expert-major order.\<close>

definition expert_cols :: "nat \<Rightarrow> ('a, 'w) routed \<Rightarrow> 'v moe_cache \<Rightarrow> nat \<Rightarrow> (nat \<times> nat) list" where
  "expert_cols l R c e =
     filter (\<lambda>(j, i). valid_slot l (ro_idx R ! i ! j) c \<and> ro_idx R ! i ! j = e) (positions R)"

definition gather_groups :: "nat set \<Rightarrow> nat \<Rightarrow> ('a, 'w) routed \<Rightarrow> 'v moe_cache \<Rightarrow> (nat \<times> nat \<times> nat) list" where
  "gather_groups exclude l R c =
     concat (map (\<lambda>e. if e \<in> exclude then []
       else case mc_slot c ! flat_id l e c of
              None \<Rightarrow> []
            | Some s \<Rightarrow> if s < mc_size c then map (\<lambda>(j, i). (j, s, i)) (expert_cols l R c e) else [])
       [0..<mc_experts c])"

definition slot_rows :: "'v moe_cache \<Rightarrow> nat \<Rightarrow> 'v list list" where
  "slot_rows c s = map (\<lambda>b. bk_cache b ! s) (mc_banks c)"

definition forward_offload ::
  "('a, 'w, 'v) arith \<Rightarrow> bool \<Rightarrow> bool \<Rightarrow> nat set \<Rightarrow> nat \<Rightarrow> ('a, 'w) routed \<Rightarrow> 'v moe_cache \<Rightarrow> ('a list \<times> 'v moe_cache) res" where
  "forward_offload A prefill is_xpu exclude l R c =
     bind_res (serve prefill l (fetch_ids exclude R) c) (\<lambda>c'.
       if \<exists>(j, i) \<in> set (positions R). mc_experts c \<le> ro_idx R ! i ! j then Inl IndexError
       else if stale_slot is_xpu l R c' then Inl IndexError
       else Inr (fold (\<lambda>(j, s, i). add_row A R (ar_expert A (slot_rows c' s)) j i) (gather_groups exclude l R c') (zero_out A R), c'))"

section \<open>The hybrid split\<close>

text \<open>Python's \<open>round\<close>: to the nearest integer, a tie to the even one.\<close>

definition py_round :: "rat \<Rightarrow> int" where
  "py_round x = (let f = \<lfloor>x\<rfloor>; d = x - of_int f
                 in if d < 1 / 2 then f else if 1 / 2 < d then f + 1 else if even f then f else f + 1)"

definition hybrid_fetch_count :: "rat \<Rightarrow> int \<Rightarrow> nat \<Rightarrow> int" where
  "hybrid_fetch_count share max_fetch n =
     (let want = py_round (of_nat n * share);
          cap = (if max_fetch = 0 then - 1 else max_fetch);
          capped = (if 0 \<le> cap \<and> cap < want then cap else want)
      in max 1 (min (int n - 1) capped))"

definition hybrid_cpu_experts :: "rat \<Rightarrow> int \<Rightarrow> ('a, 'w) routed \<Rightarrow> nat list" where
  "hybrid_cpu_experts share max_fetch R =
     (let seen = first_seen (concat (ro_idx R)); n = length seen
      in take (nat (int n - hybrid_fetch_count share max_fetch n)) (sort seen))"

definition packed_formats :: "string list" where
  "packed_formats = [''gptq_int4'', ''fp8_block'', ''mxfp4'', ''int8_channel'', ''gguf_kquant'']"

definition bank_source :: "string \<Rightarrow> nat \<Rightarrow> 'v moe_cache \<Rightarrow> 'v list list res" where
  "bank_source name l c =
     (case filter (\<lambda>b. bk_name b = name) (mc_banks c) of
        [] \<Rightarrow> Inl KeyError
      | b # _ \<Rightarrow> if l < length (bk_host b) then Inr (bk_host b ! l) else Inl IndexError)"

definition forward_hybrid ::
  "('a, 'w, 'v) arith \<Rightarrow> bool \<Rightarrow> bool \<Rightarrow> rat \<Rightarrow> int \<Rightarrow> nat \<Rightarrow> ('a, 'w) routed \<Rightarrow> 'v moe_cache \<Rightarrow> ('a list \<times> 'v moe_cache) res" where
  "forward_hybrid A prefill is_xpu fraction max_fetch l R c =
     (let share = (if mc_format c \<in> set packed_formats then 1 else fraction)
      in if share \<le> 0 \<or> 1 \<le> share then forward_offload A prefill is_xpu {} l R c
         else let cpu = set (hybrid_cpu_experts share max_fetch R)
              in bind_res (bank_source ''gate_up'' l c) (\<lambda>gate_up.
                 bind_res (bank_source ''down'' l c) (\<lambda>down.
                 bind_res (forward_offload A prefill is_xpu cpu l R c) (\<lambda>(out, c').
                   Inr (map2 (ar_add A) out (cpu_forward A (\<lambda>e. e \<in> cpu) gate_up down (length gate_up) R), c')))))"

section \<open>The block\<close>

record moe_model =
  mm_backend :: "string option"
  mm_cpu_layers :: "nat list option"
  mm_layer_id :: "(nat \<Rightarrow> nat) option"

text \<open>\<open>_is_cpu_layer\<close> of the block of decoder layer \<open>d\<close>.\<close>

definition is_cpu_layer :: "bool \<Rightarrow> nat \<Rightarrow> moe_model \<Rightarrow> bool" where
  "is_cpu_layer use_hybrid d m =
     (if mm_backend m = Some ''cpu'' then
        (case mm_cpu_layers m of
           None \<Rightarrow> True
         | Some ls \<Rightarrow> (case mm_layer_id m of None \<Rightarrow> ls \<noteq> [] | Some f \<Rightarrow> f d \<in> set ls))
      else if mm_backend m = Some ''hybrid'' then
        (if use_hybrid then False
         else case mm_cpu_layers m of
                None \<Rightarrow> False
              | Some ls \<Rightarrow> if ls = [] then False
                           else (case mm_layer_id m of None \<Rightarrow> True | Some f \<Rightarrow> f d \<in> set ls))
      else False)"

section \<open>Loops over rows\<close>

lemma fold_nested: "fold f (concat xss) = fold (\<lambda>xs. fold f xs) xss"
  by (induction xss) (auto simp: fun_eq_iff)

lemma fold_map': "fold f (map g xs) = fold (\<lambda>x. f (g x)) xs"
  by (simp add: fold_map comp_def)

lemma fold_none: "(\<And>x. x \<in> set xs \<Longrightarrow> f x = id) \<Longrightarrow> fold f xs = id"
  by (induction xs) (auto simp: fun_eq_iff)

lemma filter_positions:
  "filter (\<lambda>(j, i). P i j) (positions R) = concat (map (\<lambda>j. map (Pair j) (filter (\<lambda>i. P i j) [0..<length (ro_flat R)])) [0..<ro_k R])"
proof -
  have "filter (\<lambda>(j, i). P i j) (map (Pair j) is) = map (Pair j) (filter (\<lambda>i. P i j) is)" for j "is"
    by (induction "is") auto
  then show ?thesis by (simp add: positions_def filter_concat comp_def)
qed

lemma set_positions: "set (positions R) = {..<ro_k R} \<times> {..<length (ro_flat R)}"
  by (auto simp: positions_def)

definition routing_wf :: "nat \<Rightarrow> ('a, 'w) routed \<Rightarrow> bool" where
  "routing_wf E R \<longleftrightarrow> length (ro_idx R) = length (ro_flat R) \<and> (\<forall>row \<in> set (ro_idx R). length row = ro_k R \<and> set row \<subseteq> {..<E})"

lemma routed_in:
  assumes "routing_wf E R" "(j, i) \<in> set (positions R)"
  shows "ro_idx R ! i ! j < E" "ro_idx R ! i ! j \<in> set (concat (ro_idx R))"
proof -
  have "i < length (ro_idx R)" "j < ro_k R" using assms by (auto simp: routing_wf_def set_positions)
  then have "ro_idx R ! i \<in> set (ro_idx R)" "ro_idx R ! i ! j \<in> set (ro_idx R ! i)" using assms(1) by (auto simp: routing_wf_def)
  then show "ro_idx R ! i ! j < E" "ro_idx R ! i ! j \<in> set (concat (ro_idx R))" using assms(1) by (auto simp: routing_wf_def)
qed

lemma expert_step_positions:
  "expert_step A R f e = fold (\<lambda>(j, i). add_row A R (f e) j i) (filter (\<lambda>(j, i). ro_idx R ! i ! j = e) (positions R))"
  unfolding filter_positions fold_nested fold_map' expert_step_def routed_rows_def by simp

text \<open>The groups of one step, run in order, are the expert loop over the experts not excluded.\<close>

lemma groups_loop:
  assumes R: "routing_wf (mc_experts c) R"
    and res: "\<And>e. e \<in> set (concat (ro_idx R)) \<Longrightarrow> e \<notin> exclude \<Longrightarrow>
        \<exists>s < mc_size c. mc_slot c ! flat_id l e c = Some s \<and> slot_rows c s = g e"
  shows "fold (\<lambda>(j, s, i). add_row A R (ar_expert A (slot_rows c s)) j i) (gather_groups exclude l R c) (zero_out A R) =
    expert_loop A R (\<lambda>e. ar_expert A (g e)) (filter (\<lambda>e. e \<notin> exclude) [0..<mc_experts c])"
proof -
  let ?add = "\<lambda>(j, s, i). add_row A R (ar_expert A (slot_rows c s)) j i"
  let ?grp = "\<lambda>e. if e \<in> exclude then []
       else case mc_slot c ! flat_id l e c of
              None \<Rightarrow> []
            | Some s \<Rightarrow> if s < mc_size c then map (\<lambda>(j, i). (j, s, i)) (expert_cols l R c e) else []"
  have one: "fold ?add (?grp e) = (if e \<notin> exclude then expert_step A R (\<lambda>e. ar_expert A (g e)) e else id)" for e
  proof (cases "e \<in> exclude \<or> filter (\<lambda>(j, i). ro_idx R ! i ! j = e) (positions R) = []")
    case True
    have "expert_cols l R c e = []" if "filter (\<lambda>(j, i). ro_idx R ! i ! j = e) (positions R) = []"
      using that by (auto simp: expert_cols_def filter_empty_conv)
    then show ?thesis using True by (auto simp: expert_step_positions fun_eq_iff split: option.split)
  next
    case False
    then obtain j i where "(j, i) \<in> set (positions R)" "ro_idx R ! i ! j = e" by (auto simp: filter_empty_conv)
    then have "e \<in> set (concat (ro_idx R))" using routed_in(2) [OF R] by blast
    then obtain s where s: "s < mc_size c" "mc_slot c ! flat_id l e c = Some s" "slot_rows c s = g e" using res False by blast
    have "expert_cols l R c e = filter (\<lambda>(j, i). ro_idx R ! i ! j = e) (positions R)"
      using s(1,2) by (auto simp: expert_cols_def valid_slot_def intro!: filter_cong)
    then have "fold ?add (?grp e) = fold (\<lambda>(j, i). add_row A R (ar_expert A (g e)) j i) (filter (\<lambda>(j, i). ro_idx R ! i ! j = e) (positions R))"
      using s False by (simp add: fold_map' case_prod_unfold)
    then show ?thesis using False by (simp add: expert_step_positions)
  qed
  have "fold ?add (gather_groups exclude l R c) = fold (\<lambda>e. if e \<notin> exclude then expert_step A R (\<lambda>e. ar_expert A (g e)) e else id) [0..<mc_experts c]"
    unfolding gather_groups_def fold_nested fold_map' one ..
  also have "\<dots> = fold (expert_step A R (\<lambda>e. ar_expert A (g e))) (filter (\<lambda>e. e \<notin> exclude) [0..<mc_experts c])"
    by (simp add: fold_filter if_distrib fun_eq_iff)
  finally show ?thesis by (simp add: expert_loop_def)
qed

text \<open>The tripwire never fires: an invalid position counts as slot 0, below the pool's size.\<close>

lemma never_stale: "0 < mc_size c \<Longrightarrow> \<not> stale_slot is_xpu l R c"
proof -
  assume S: "0 < mc_size c"
  have "fold max (map (\<lambda>_. 0) xs) (0 :: nat) = 0" for xs :: "(nat \<times> nat) list" by (induction xs) auto
  then show ?thesis using S by (auto simp: stale_slot_def Let_def)
qed

definition host_rows :: "'v moe_cache \<Rightarrow> nat \<Rightarrow> nat \<Rightarrow> 'v list list" where
  "host_rows c l e = map (\<lambda>b. bk_host b ! l ! e) (mc_banks c)"

lemma host_rows_eq: "map bk_host (mc_banks c') = map bk_host (mc_banks c) \<Longrightarrow> host_rows c' l e = host_rows c l e"
proof -
  assume "map bk_host (mc_banks c') = map bk_host (mc_banks c)"
  then have "map (\<lambda>h. h ! l ! e) (map bk_host (mc_banks c')) = map (\<lambda>h. h ! l ! e) (map bk_host (mc_banks c))" by simp
  then show ?thesis by (simp add: host_rows_def comp_def)
qed

lemma offload_core:
  assumes run: "moe_run c" and l: "l < mc_layers c" and S: "2 \<le> mc_size c \<or> prefill" and R: "routing_wf (mc_experts c) R"
  shows "\<exists>c'. forward_offload A prefill is_xpu exclude l R c =
      Inr (expert_loop A R (\<lambda>e. ar_expert A (host_rows c l e)) (filter (\<lambda>e. e \<notin> exclude) [0..<mc_experts c]), c') \<and>
    serve prefill l (fetch_ids exclude R) c = Inr c' \<and> moe_run c'"
proof -
  note ok = moe_run_ok [OF run]
  have W: "wanted prefill (fetch_ids exclude R) c \<subseteq> {..<mc_experts c}"
    using R by (auto simp: wanted_def fetch_ids_def routing_wf_def split: if_splits)
  have pre: "prefill \<or> (\<forall>e \<in> set (fetch_ids exclude R). e < mc_experts c)" using W by (auto simp: wanted_def split: if_splits)
  obtain c' where c': "serve prefill l (fetch_ids exclude R) c = Inr c'" "moe_ok c'" "mc_layers c' = mc_layers c"
      "mc_experts c' = mc_experts c" "mc_size c' = mc_size c" "map bk_host (mc_banks c') = map bk_host (mc_banks c)"
      "\<forall>e \<in> wanted prefill (fetch_ids exclude R) c. resident l e c'"
    using serve_ok [OF _ l _ S pre] ok by blast
  have lay: "routing_wf (mc_experts c') R" using R c'(4) by simp
  have row: "\<exists>s < mc_size c'. mc_slot c' ! flat_id l e c' = Some s \<and> slot_rows c' s = host_rows c l e"
    if e: "e \<in> set (concat (ro_idx R))" "e \<notin> exclude" for e
  proof -
    have w: "e \<in> wanted prefill (fetch_ids exclude R) c" "e < mc_experts c'"
      using e R c'(4) by (auto simp: wanted_def fetch_ids_def routing_wf_def)
    then obtain s where s: "s < mc_size c'" "mc_slot c' ! flat_id l e c' = Some s" "\<forall>b \<in> set (mc_banks c'). bk_cache b ! s = bk_host b ! l ! e"
      using resident_row [OF c'(2), of l e] c'(3,7) l by auto
    then have "slot_rows c' s = host_rows c' l e" by (auto simp: slot_rows_def host_rows_def)
    then show ?thesis using s host_rows_eq [OF c'(6)] by auto
  qed
  have in_range: "\<not> (\<exists>(j, i) \<in> set (positions R). mc_experts c' \<le> ro_idx R ! i ! j)"
    using routed_in(1) [OF lay] by (fastforce simp: not_le)
  have st: "\<not> stale_slot is_xpu l R c'"
  proof (cases "mc_size c' = 0")
    case True
    then have "mc_experts c' = 0" using c'(2) by (simp add: moe_ok_def moe_wf_def)
    then have "p \<notin> set (positions R)" for p using routed_in(1) [OF lay, of "fst p" "snd p"] by (cases p) auto
    then have "positions R = []" by (cases "positions R") auto
    then show ?thesis by (simp add: stale_slot_def)
  qed (simp add: never_stale)
  have "forward_offload A prefill is_xpu exclude l R c =
      Inr (expert_loop A R (\<lambda>e. ar_expert A (host_rows c l e)) (filter (\<lambda>e. e \<notin> exclude) [0..<mc_experts c]), c')"
    unfolding forward_offload_def c'(1) using in_range st groups_loop [OF lay row, of exclude A] c'(4) by auto
  then show ?thesis using c'(1) moe_run.run_serve [OF run c'(1)] by blast
qed

section \<open>One row of the output\<close>

definition row_add :: "('a, 'w, 'v) arith \<Rightarrow> ('a, 'w) routed \<Rightarrow> (nat \<Rightarrow> 'a \<Rightarrow> 'a) \<Rightarrow> nat \<Rightarrow> nat \<Rightarrow> 'a \<Rightarrow> 'a" where
  "row_add A R f i e = fold (\<lambda>j acc. if ro_idx R ! i ! j = e
      then ar_add A acc (ar_scale A (ro_w R ! i ! j) (f e (ro_flat R ! i))) else acc) [0..<ro_k R]"

lemma add_rows_nth:
  assumes "distinct is" "i < length out"
  shows "fold (add_row A R g j) is out ! i =
     (if i \<in> set is then ar_add A (out ! i) (ar_scale A (ro_w R ! i ! j) (g (ro_flat R ! i))) else out ! i)"
    "length (fold (add_row A R g j) is out) = length out"
proof -
  show "length (fold (add_row A R g j) is out) = length out" by (induction "is" arbitrary: out) (auto simp: add_row_def)
  show "fold (add_row A R g j) is out ! i =
     (if i \<in> set is then ar_add A (out ! i) (ar_scale A (ro_w R ! i ! j) (g (ro_flat R ! i))) else out ! i)"
    using assms
  proof (induction "is" arbitrary: out)
    case (Cons a "is")
    show ?case using Cons.IH [of "add_row A R g j a out"] Cons.prems by (cases "a = i") (auto simp: add_row_def)
  qed simp
qed

lemma expert_step_nth:
  assumes "i < length (ro_flat R)" "length out = length (ro_flat R)"
  shows "expert_step A R f e out ! i = row_add A R f i e (out ! i)" "length (expert_step A R f e out) = length out"
proof -
  have "fold (\<lambda>j. fold (add_row A R (f e) j) (routed_rows R e j)) js out ! i =
      fold (\<lambda>j acc. if ro_idx R ! i ! j = e then ar_add A acc (ar_scale A (ro_w R ! i ! j) (f e (ro_flat R ! i))) else acc) js (out ! i) \<and>
      length (fold (\<lambda>j. fold (add_row A R (f e) j) (routed_rows R e j)) js out) = length out" for js
    using assms(2)
  proof (induction js arbitrary: out)
    case (Cons j js)
    have "distinct (routed_rows R e j)" by (simp add: routed_rows_def)
    note N = add_rows_nth [OF this, of i out A R "f e" j]
    have i: "i < length out" "i \<in> set (routed_rows R e j) \<longleftrightarrow> ro_idx R ! i ! j = e"
      using assms(1) Cons.prems by (auto simp: routed_rows_def)
    show ?case using Cons.IH [of "fold (add_row A R (f e) j) (routed_rows R e j) out"] N i Cons.prems by simp
  qed simp
  then show "expert_step A R f e out ! i = row_add A R f i e (out ! i)" "length (expert_step A R f e out) = length out"
    by (auto simp: expert_step_def row_add_def)
qed

lemma expert_loop_nth:
  assumes i: "i < length (ro_flat R)"
  shows "expert_loop A R f es ! i = fold (row_add A R f i) es (ar_zero A)" "length (expert_loop A R f es) = length (ro_flat R)"
proof -
  have "fold (expert_step A R f) es out ! i = fold (row_add A R f i) es (out ! i) \<and> length (fold (expert_step A R f) es out) = length out"
    if "length out = length (ro_flat R)" for out
    using that by (induction es arbitrary: out) (auto simp: expert_step_nth [OF i])
  from this [of "zero_out A R"] show "expert_loop A R f es ! i = fold (row_add A R f i) es (ar_zero A)"
      "length (expert_loop A R f es) = length (ro_flat R)"
    using i by (auto simp: expert_loop_def zero_out_def)
qed

lemma expert_loop_length [simp]: "length (expert_loop A R f es) = length (ro_flat R)"
proof -
  have "length (expert_step A R f e out) = length out" for e out
  proof -
    have "length (fold (add_row A R (f e) j) is out) = length out" for j "is" out
      by (induction "is" arbitrary: out) (auto simp: add_row_def)
    then have "length (fold (\<lambda>j. fold (add_row A R (f e) j) (routed_rows R e j)) js out) = length out" for js
      by (induction js arbitrary: out) auto
    then show ?thesis by (simp add: expert_step_def)
  qed
  then have "length (fold (expert_step A R f) es out) = length out" for out by (induction es arbitrary: out) auto
  then show ?thesis by (simp add: expert_loop_def zero_out_def)
qed

text \<open>With an exact sum the order of the experts does not matter.\<close>

lemma row_add_sum:
  fixes A :: "('a::comm_monoid_add, 'w, 'v) arith"
  assumes "ar_add A = (+)"
  shows "row_add A R f i e acc =
    acc + sum_list (map (\<lambda>j. if ro_idx R ! i ! j = e then ar_scale A (ro_w R ! i ! j) (f e (ro_flat R ! i)) else 0) [0..<ro_k R])"
proof -
  have *: "fold (\<lambda>j acc. if P j then acc + h j else acc) js acc = acc + sum_list (map (\<lambda>j. if P j then h j else 0) js)"
    for P and h :: "nat \<Rightarrow> 'a" and js by (induction js arbitrary: acc) (auto simp: ac_simps)
  show ?thesis unfolding row_add_def assms by (rule *)
qed

lemma rows_sum:
  fixes A :: "('a::comm_monoid_add, 'w, 'v) arith"
  assumes A: "ar_add A = (+)"
  shows "fold (row_add A R f i) es acc = acc + (\<Sum>e\<leftarrow>es. row_add A R f i e 0)"
proof (induction es arbitrary: acc)
  case (Cons e es)
  then show ?case by (simp add: row_add_sum [OF A] ac_simps)
qed simp

lemma sum_split:
  fixes h :: "'b \<Rightarrow> 'a::comm_monoid_add"
  shows "(\<Sum>e\<leftarrow>filter (\<lambda>e. \<not> P e) es. h e) + (\<Sum>e\<leftarrow>filter P es. h e) = (\<Sum>e\<leftarrow>es. h e)"
  by (induction es) (auto simp: ac_simps)

lemma halves_sum:
  fixes A :: "('a::comm_monoid_add, 'w, 'v) arith"
  assumes A: "ar_add A = (+)" "ar_zero A = 0"
  shows "map2 (+) (expert_loop A R f (filter (\<lambda>e. \<not> P e) es)) (expert_loop A R f (filter P es)) = expert_loop A R f es"
proof (rule nth_equalityI)
  fix i assume "i < length (map2 (+) (expert_loop A R f (filter (\<lambda>e. \<not> P e) es)) (expert_loop A R f (filter P es)))"
  then have i: "i < length (ro_flat R)" by simp
  then show "map2 (+) (expert_loop A R f (filter (\<lambda>e. \<not> P e) es)) (expert_loop A R f (filter P es)) ! i = expert_loop A R f es ! i"
    using sum_split [of "\<lambda>e. row_add A R f i e 0" P es] by (simp add: expert_loop_nth(1) rows_sum [OF A(1)] A(2))
qed simp

section \<open>The two halves\<close>

lemma hybrid_cpu_subset: "set (hybrid_cpu_experts share max_fetch R) \<subseteq> set (concat (ro_idx R))"
  using set_take_subset by (fastforce simp: hybrid_cpu_experts_def Let_def first_seen_props)

lemma py_round_near: "\<bar>of_int (py_round x) - x\<bar> \<le> 1 / 2"
proof -
  have "of_int \<lfloor>x\<rfloor> \<le> x" "x < of_int \<lfloor>x\<rfloor> + 1" by linarith+
  then show ?thesis by (auto simp: py_round_def Let_def abs_le_iff)
qed

lemma hybrid_counts:
  assumes "2 \<le> n"
  shows "1 \<le> hybrid_fetch_count share max_fetch n" "hybrid_fetch_count share max_fetch n \<le> int n - 1"
    "0 < max_fetch \<Longrightarrow> hybrid_fetch_count share max_fetch n \<le> max_fetch"
    "max_fetch \<le> 0 \<Longrightarrow> 1 \<le> of_nat n * share \<Longrightarrow> of_nat n * share \<le> of_nat n - 1 \<Longrightarrow>
       \<bar>of_int (hybrid_fetch_count share max_fetch n) - of_nat n * share\<bar> \<le> 1 / 2"
proof -
  let ?w = "py_round (of_nat n * share)"
  show "1 \<le> hybrid_fetch_count share max_fetch n" "hybrid_fetch_count share max_fetch n \<le> int n - 1"
    "0 < max_fetch \<Longrightarrow> hybrid_fetch_count share max_fetch n \<le> max_fetch"
    using assms by (auto simp: hybrid_fetch_count_def Let_def)
  assume m: "max_fetch \<le> 0" and s: "1 \<le> of_nat n * share" "of_nat n * share \<le> of_nat n - 1"
  note N = py_round_near [of "of_nat n * share"]
  have "(0::rat) < of_int ?w" using N s(1) unfolding abs_le_iff by linarith
  then have "1 \<le> ?w" by simp
  moreover have "(of_int ?w :: rat) < of_int (int n)" using N s(2) unfolding abs_le_iff by (simp only: of_int_of_nat_eq) linarith
  then have "?w < int n" by (simp only: of_int_less_iff)
  ultimately have "hybrid_fetch_count share max_fetch n = ?w" using m by (auto simp: hybrid_fetch_count_def Let_def)
  then show "\<bar>of_int (hybrid_fetch_count share max_fetch n) - of_nat n * share\<bar> \<le> 1 / 2" using N by simp
qed

text \<open>The banks of a reachable cache are those of its format, with a row per layer and expert.\<close>

lemma acquire_format: "acquire pick ord whole l es c = Inr c' \<Longrightarrow> mc_format c' = mc_format c"
proof -
  have "stage pick l ms d = Inr d' \<Longrightarrow> mc_format d' = mc_format d" for ms d d'
    by (induction ms arbitrary: d) (auto simp: place_def Let_def split: if_splits)
  then show "acquire pick ord whole l es c = Inr c' \<Longrightarrow> mc_format c' = mc_format c"
    by (fastforce simp: acquire_def Let_def bind_res_Inr resync_def bump_hits_def)
qed

lemma serve_format: "serve prefill l ids c = Inr c' \<Longrightarrow> mc_format c' = mc_format c"
  by (auto simp: serve_def bind_res_Inr materialize_layer_def ensure_experts_def copy_missing_def acquire_format
      split: if_splits option.splits dest!: acquire_format)

definition bank_shape :: "'v moe_cache \<Rightarrow> bool" where
  "bank_shape c \<longleftrightarrow> bank_schemas (mc_format c) = Some (map bk_name (mc_banks c)) \<and>
     (\<forall>host \<in> set (map bk_host (mc_banks c)). length host = mc_layers c \<and> (\<forall>rows \<in> set host. length rows = mc_experts c))"

lemma bank_shape_cong:
  assumes "bank_shape c" "mc_format c' = mc_format c" "map bk_name (mc_banks c') = map bk_name (mc_banks c)"
    "map bk_host (mc_banks c') = map bk_host (mc_banks c)" "mc_layers c' = mc_layers c" "mc_experts c' = mc_experts c"
  shows "bank_shape c'"
  using assms unfolding bank_shape_def by simp

lemma moe_run_shape: "moe_run c \<Longrightarrow> bank_shape c"
proof (induction rule: moe_run.induct)
  case (run_start L E S fmt ov c0 src c)
  obtain bs where bs: "attach_banks (mc_layers c0) (mc_size c0) (map_of src) (bank_schema c0) = Inr bs" "c = c0\<lparr>mc_banks := bs\<rparr>"
    using run_start.hyps(2) by (auto simp: set_bank_sources_def bind_res_def split: if_splits sum.splits)
  note A = attach_banks_ok [OF bs(1)]
  have i: "mc_layers c0 = L" "mc_experts c0 = E" "bank_schemas (mc_format c0) = Some (bank_schema c0)"
    using run_start.hyps(1) by (auto simp: moe_init_def bank_schema_def split: if_splits)
  have "length rows = E" if b: "b \<in> set bs" "rows \<in> set (bk_host b)" for b rows
  proof -
    have "(bk_name b, bk_host b) \<in> set src" using A(2) [OF b(1)] by (auto dest: map_of_SomeD)
    then show ?thesis using run_start.hyps(3) b(2) by fastforce
  qed
  then show ?case using A i bs(2) by (auto simp: bank_shape_def)
next
  case (run_serve c prefill l ids c')
  have ok: "moe_ok c" "mc_banks c \<noteq> []" using moe_run_ok [OF run_serve.hyps(1)] by auto
  note e = serve_errors [OF run_serve.hyps(2) ok(2)]
  show ?case
    using serve_ok [OF ok(1) e(1) ok(2) e(2,3)] run_serve.hyps(2) serve_format [OF run_serve.hyps(2)]
    by (intro bank_shape_cong [OF run_serve.IH]) auto
next
  case (run_rebuild c S c')
  have ok: "moe_ok c" using moe_run_ok [OF run_rebuild.hyps(1)] by auto
  have "mc_format c' = mc_format c" using run_rebuild.hyps(2) by (auto simp: moe_rebuild_def bind_res_Inr split: if_splits)
  then show ?case using moe_rebuild_ok [OF ok run_rebuild.hyps(2)] by (intro bank_shape_cong [OF run_rebuild.IH]) auto
next
  case (run_reset c)
  have ok: "moe_ok c" using moe_run_ok [OF run_reset.hyps(1)] by auto
  have "mc_format (moe_reset c) = mc_format c" by (simp add: moe_reset_def reset_stats_def)
  then show ?case using moe_reset_ok [OF ok] by (intro bank_shape_cong [OF run_reset.IH]) auto
qed

lemma plain_banks:
  assumes "bank_shape c" "mc_format c \<notin> set packed_formats" "l < mc_layers c"
  shows "\<exists>gu dn. bank_source ''gate_up'' l c = Inr gu \<and> bank_source ''down'' l c = Inr dn \<and> length gu = mc_experts c \<and>
     host_rows c l = (\<lambda>e. [gu ! e, dn ! e])"
proof -
  have "map bk_name (mc_banks c) = [''gate_up'', ''down'']"
    using assms(1,2) by (auto simp: bank_shape_def bank_schemas_def packed_formats_def split: if_splits)
  then obtain b d where b: "mc_banks c = [b, d]" "bk_name b = ''gate_up''" "bk_name d = ''down''" by auto
  have "length (bk_host b) = mc_layers c" "length (bk_host d) = mc_layers c" "length (bk_host b ! l) = mc_experts c"
    using assms(1,3) b(1) by (auto simp: bank_shape_def)
  then show ?thesis using b assms(3) by (auto simp: bank_source_def host_rows_def fun_eq_iff)
qed

text \<open>The hybrid forward is the row sum of the two halves of the resident loop.\<close>

lemma hybrid_core:
  fixes A :: "('a, 'w, 'v::zero) arith" and max_fetch :: int
  assumes run: "moe_run c" and l: "l < mc_layers c" and S: "2 \<le> mc_size c \<or> prefill" and R: "routing_wf (mc_experts c) R"
    and s: "mc_format c \<notin> set packed_formats" "0 < share" "share < 1"
  defines "cpu \<equiv> set (hybrid_cpu_experts share max_fetch R)" and "f \<equiv> \<lambda>e. ar_expert A (host_rows c l e)"
  shows "\<exists>c'. forward_hybrid A prefill is_xpu share max_fetch l R c =
      Inr (map2 (ar_add A) (expert_loop A R f (filter (\<lambda>e. e \<notin> cpu) [0..<mc_experts c]))
                           (expert_loop A R f (filter (\<lambda>e. e \<in> cpu) [0..<mc_experts c])), c') \<and>
    serve prefill l (fetch_ids cpu R) c = Inr c' \<and> moe_run c'"
proof -
  obtain gu dn where b: "bank_source ''gate_up'' l c = Inr gu" "bank_source ''down'' l c = Inr dn" "length gu = mc_experts c"
     "host_rows c l = (\<lambda>e. [gu ! e, dn ! e])"
    using plain_banks [OF moe_run_shape [OF run] s(1) l] by blast
  obtain c' where c': "forward_offload A prefill is_xpu cpu l R c =
      Inr (expert_loop A R f (filter (\<lambda>e. e \<notin> cpu) [0..<mc_experts c]), c')" "serve prefill l (fetch_ids cpu R) c = Inr c'" "moe_run c'"
    using offload_core [OF run l S R, of A is_xpu cpu] unfolding f_def by blast
  have "cpu_forward A (\<lambda>e. e \<in> cpu) gu dn (length gu) R = expert_loop A R f (filter (\<lambda>e. e \<in> cpu) [0..<mc_experts c])"
    by (simp add: cpu_forward_def f_def b(3,4))
  moreover have "(if mc_format c \<in> set packed_formats then 1 else share) = share" using s(1) by simp
  ultimately show ?thesis
    using c' b(1,2) s(2,3) unfolding forward_hybrid_def Let_def by (simp only: cpu_def) simp
qed

section \<open>Dense routing\<close>

text \<open>In a row that names no expert twice at most one column hits.\<close>

lemma one_hit:
  assumes "distinct row" "n \<le> length row"
  shows "((\<forall>j < n. row ! j \<noteq> e) \<and> fold (\<lambda>j acc. if row ! j = e then h j acc else acc) [0..<n] a = a \<and>
          fold (\<lambda>j w. if row ! j = e then v j else w) [0..<n] w = w) \<or>
         (\<exists>j < n. row ! j = e \<and> fold (\<lambda>j acc. if row ! j = e then h j acc else acc) [0..<n] a = h j a \<and>
          fold (\<lambda>j w. if row ! j = e then v j else w) [0..<n] w = v j)"
  using assms(2)
proof (induction n)
  case (Suc n)
  show ?case
  proof (cases "row ! n = e")
    case True
    then have "\<forall>j < n. row ! j \<noteq> e" using assms(1) Suc.prems by (auto simp: nth_eq_iff_index_eq)
    then have "fold (\<lambda>j acc. if row ! j = e then h j acc else acc) [0..<n] a = a" using Suc by auto
    then show ?thesis using True by (intro disjI2 exI [of _ n]) auto
  next
    case False
    then show ?thesis using Suc by (auto simp: less_Suc_eq)
  qed
qed simp

lemma dense_row:
  assumes d: "distinct (ro_idx R ! i)" "length (ro_idx R ! i) = ro_k R"
    and z: "\<And>a y. ar_add A a (ar_scale A w0 y) = a"
  shows "ar_add A a (ar_scale A (dense_weight w0 R e i) (f e (ro_flat R ! i))) = row_add A R f i e a"
  using one_hit [OF d(1), of "ro_k R" e "\<lambda>j acc. ar_add A acc (ar_scale A (ro_w R ! i ! j) (f e (ro_flat R ! i)))" a
      "\<lambda>j. ro_w R ! i ! j" w0] d(2) z
  by (auto simp: dense_weight_def row_add_def)

section \<open>Correctness\<close>


text \<open>C22. With an exact sum (a commutative monoid) the hybrid forward computes what the resident
  experts compute, for every fetch fraction and every cap: each routed expert is served by exactly one
  of the two halves.\<close>

theorem hybrid_equals_inram:
  fixes A :: "('a::comm_monoid_add, 'w, 'v::zero) arith"
  assumes "moe_run c" and "l < mc_layers c" and "2 \<le> mc_size c \<or> prefill" and "routing_wf (mc_experts c) R"
    and "ar_add A = (+)" and "ar_zero A = 0"
  shows "\<exists>c'. forward_hybrid A prefill is_xpu share max_fetch l R c =
       Inr (forward_inram A (\<lambda>e. ar_expert A (host_rows c l e)) (mc_experts c) R, c') \<and> moe_run c'"
proof (cases "mc_format c \<notin> set packed_formats \<and> 0 < share \<and> share < 1")
  case True
  then show ?thesis
    using hybrid_core [OF assms(1-4), where share = share and max_fetch = max_fetch and A = A and is_xpu = is_xpu]
      halves_sum [OF assms(5,6), of R _ "\<lambda>e. e \<in> set (hybrid_cpu_experts share max_fetch R)" "[0..<mc_experts c]"]
    by (auto simp: assms(5) forward_inram_def)
next
  case False
  then have "forward_hybrid A prefill is_xpu share max_fetch l R c = forward_offload A prefill is_xpu {} l R c"
    by (auto simp: forward_hybrid_def Let_def)
  then show ?thesis using offload_core [OF assms(1-4), of A is_xpu "{}"] by (auto simp: forward_inram_def)
qed

text \<open>The split of a step that routes to at least two experts: the host half and the fetched ids
  are disjoint and together the routed experts, neither is empty, a positive cap bounds the fetched
  ones, and without a cap their number is the share of the step rounded, up to a half.\<close>

theorem hybrid_split_cover:
  assumes cpu: "cpu = set (hybrid_cpu_experts share max_fetch R)" and routed: "routed = set (concat (ro_idx R))"
    and two: "2 \<le> card routed"
  shows "cpu \<inter> set (fetch_ids cpu R) = {} \<and> cpu \<union> set (fetch_ids cpu R) = routed \<and> cpu \<noteq> {} \<and> set (fetch_ids cpu R) \<noteq> {} \<and>
    int (card (set (fetch_ids cpu R))) = hybrid_fetch_count share max_fetch (card routed) \<and>
    (0 < max_fetch \<longrightarrow> int (card (set (fetch_ids cpu R))) \<le> max_fetch) \<and>
    (max_fetch \<le> 0 \<and> 1 \<le> of_nat (card routed) * share \<and> of_nat (card routed) * share \<le> of_nat (card routed) - 1 \<longrightarrow>
       \<bar>of_nat (card (set (fetch_ids cpu R))) - of_nat (card routed) * share\<bar> \<le> 1 / 2)"
proof -
  let ?seen = "first_seen (concat (ro_idx R))"
  let ?n = "card routed" and ?f = "hybrid_fetch_count share max_fetch (card routed)"
  have n: "length ?seen = ?n" using distinct_card [OF first_seen_props(1), of "concat (ro_idx R)"] unfolding first_seen_props(2) routed by simp
  note B = hybrid_counts [OF two, where share = share and max_fetch = max_fetch]
  have sub: "cpu \<subseteq> routed" unfolding cpu routed by (rule hybrid_cpu_subset)
  have "card cpu = length (hybrid_cpu_experts share max_fetch R)"
    unfolding cpu by (rule distinct_card) (simp add: hybrid_cpu_experts_def Let_def first_seen_props)
  also have "\<dots> = nat (int ?n - ?f)" using B by (simp add: hybrid_cpu_experts_def Let_def n)
  finally have c: "card cpu = nat (int ?n - ?f)" .
  then have "cpu \<noteq> {}" using B by auto
  then have F: "set (fetch_ids cpu R) = routed - cpu" by (auto simp: fetch_ids_def routed)
  have fin: "finite routed" by (simp add: routed)
  have "card (routed - cpu) = ?n - card cpu" using sub fin by (simp add: card_Diff_subset finite_subset)
  then have k: "int (card (routed - cpu)) = ?f" using c B by auto
  then have q: "(of_nat (card (routed - cpu)) :: rat) = of_int ?f" by (metis of_int_of_nat_eq)
  have "card (routed - cpu) \<noteq> 0" using k B(1) by linarith
  then have "routed - cpu \<noteq> {}" by (metis card.empty)
  then show ?thesis unfolding F q k using B \<open>cpu \<noteq> {}\<close> sub by (intro conjI impI) auto
qed

text \<open>The dense routing used while a graph is captured computes what the gather computes, if
  adding a term of zero weight changes nothing and no token names an expert twice (as
  \<open>torch.topk\<close> guarantees).\<close>

theorem capture_equals_inram:
  assumes "routing_wf E R" and "\<forall>row \<in> set (ro_idx R). distinct row"
    and "\<And>a y. ar_add A a (ar_scale A w0 y) = a"
  shows "forward_capturing A w0 f E R = forward_inram A f E R"
proof (rule nth_equalityI)
  let ?F = "\<lambda>e out. map (\<lambda>i. ar_add A (out ! i) (ar_scale A (dense_weight w0 R e i) (f e (ro_flat R ! i)))) [0..<length (ro_flat R)]"
  have loop: "length (fold ?F es out) = length (ro_flat R) \<and>
     (\<forall>i < length (ro_flat R). fold ?F es out ! i = fold (row_add A R f i) es (out ! i))"
    if "length out = length (ro_flat R)" for es out
    using that
  proof (induction es arbitrary: out)
    case (Cons e es)
    have "?F e out ! i = row_add A R f i e (out ! i)" if i: "i < length (ro_flat R)" for i
    proof -
      have "ro_idx R ! i \<in> set (ro_idx R)" using assms(1) i by (auto simp: routing_wf_def)
      then show ?thesis using dense_row [of R i A w0, OF _ _ assms(3)] assms(1,2) i by (auto simp: routing_wf_def)
    qed
    then show ?case using Cons.IH [of "?F e out"] by simp
  qed simp
  have z: "length (zero_out A R) = length (ro_flat R)" by (simp add: zero_out_def)
  show "length (forward_capturing A w0 f E R) = length (forward_inram A f E R)"
    using loop [OF z] by (simp add: forward_capturing_def forward_inram_def)
  fix i assume "i < length (forward_capturing A w0 f E R)"
  then have i: "i < length (ro_flat R)" using loop [OF z] by (simp add: forward_capturing_def)
  then show "forward_capturing A w0 f E R ! i = forward_inram A f E R ! i"
    using loop [OF z] by (simp add: forward_capturing_def forward_inram_def expert_loop_nth(1) zero_out_def)
qed

section \<open>A small block\<close>

definition small_arith :: "(int, int, int) arith" where
  "small_arith = \<lparr> ar_zero = 0, ar_add = (+), ar_scale = (*), ar_expert = (\<lambda>rows x. sum_list (map sum_list rows) * x) \<rparr>"

definition small_routed :: "(int, int) routed" where
  "small_routed = \<lparr> ro_flat = [1, 2], ro_idx = [[0, 1], [1, 0]], ro_w = [[1, 2], [3, 4]], ro_k = 2 \<rparr>"

lemma small_routed_wf: "routing_wf (mc_experts small_moe) small_routed"
  by (auto simp: routing_wf_def small_routed_def small_moe_dims)

lemma small_inram:
  "forward_inram small_arith (\<lambda>e. ar_expert small_arith (host_rows small_moe 1 e)) (mc_experts small_moe) small_routed = [82, 366]"
  by code_simp


theorem hybrid_equals_inram_witness:
  "\<exists>c'. forward_hybrid small_arith False True (1 / 2) (- 1) 1 small_routed small_moe = Inr ([82, 366], c')"
  using hybrid_equals_inram [OF small_moe_run _ _ small_routed_wf, of 1 False small_arith True "1 / 2" "- 1"] small_inram
  by (auto simp: small_moe_dims small_arith_def)

theorem hybrid_split_cover_witness:
  "set (hybrid_cpu_experts (1 / 2) (- 1) small_routed) \<inter> set (fetch_ids (set (hybrid_cpu_experts (1 / 2) (- 1) small_routed)) small_routed) = {} \<and>
   card (set (fetch_ids (set (hybrid_cpu_experts (1 / 2) (- 1) small_routed)) small_routed)) = 1"
proof -
  have c: "card (set (concat (ro_idx small_routed))) = 2" by (simp add: small_routed_def card_insert_if)
  have "hybrid_fetch_count (1 / 2) (- 1) 2 = 1" by (simp add: hybrid_fetch_count_def py_round_def Let_def)
  then show ?thesis using hybrid_split_cover [OF refl refl, of small_routed "1 / 2" "- 1"] c by simp
qed

theorem capture_equals_inram_witness:
  "forward_capturing small_arith 0 (\<lambda>e x. int e * x) 2 small_routed = forward_inram small_arith (\<lambda>e x. int e * x) 2 small_routed"
  by (rule capture_equals_inram) (auto simp: small_routed_def small_arith_def routing_wf_def)

section \<open>The order of the sum is visible\<close>

text \<open>An addition that saturates at 100, as a float sum does at its precision, tells the two forwards
  apart: three experts add 80, 80 and -60 to a row.\<close>

definition sat_arith :: "(int, int, int) arith" where
  "sat_arith = \<lparr> ar_zero = 0, ar_add = (\<lambda>x y. min 100 (x + y)), ar_scale = (*),
     ar_expert = (\<lambda>rows x. sum_list (map sum_list rows) * x) \<rparr>"

definition three_moe :: "int moe_cache" where
  "three_moe = \<lparr> mc_layers = 1, mc_experts = 3, mc_size = 3, mc_format = ''bf16'', mc_overlap = False,
     mc_slot = [None, None, None], mc_id = [None, None, None], mc_usage = [0, 0, 0],
     mc_step = 0, mc_active = [0, 0, 0], mc_cap = 3, mc_plan = [],
     mc_banks = [\<lparr> bk_name = ''gate_up'', bk_host = [[[40], [40], [- 30]]], bk_cache = [[0], [0], [0]] \<rparr>,
                 \<lparr> bk_name = ''down'', bk_host = [[[40], [40], [- 30]]], bk_cache = [[0], [0], [0]] \<rparr>],
     mc_extra = Map.empty, mc_pending = None, mc_whole = False, mc_missing = 0, mc_calls = 0 \<rparr>"

definition three_routed :: "(int, int) routed" where
  "three_routed = \<lparr> ro_flat = [1], ro_idx = [[0, 1, 2]], ro_w = [[1, 1, 1]], ro_k = 3 \<rparr>"

lemma hybrid_order_visible:
  "map_sum id fst (forward_hybrid sat_arith False True (3 / 5) (- 1) 0 three_routed three_moe) = Inr [100]"
  "map_sum id fst (forward_offload sat_arith False True {} 0 three_routed three_moe) = Inr [40]"
  by code_simp+

end
