(* ===== verification/Codec.thy ===== *)
theory Codec
  imports Prelude "HOL-Library.Word"
begin

text \<open>
  Binary formats. A reader takes bytes off the front of what is left of a file; a codec ties a
  reader to the encoding it reads: it reads every encoding back, accepts nothing else, and
  reports a cut encoding with the reader's own error. Codecs compose, which gives the laws of a
  whole format from those of its fields.
\<close>

type_synonym byte = "8 word"
type_synonym 'v reader = "byte list \<Rightarrow> ('v \<times> byte list) res"

section \<open>Codecs\<close>

locale codec =
  fixes parse :: "'v reader" and enc :: "'a \<Rightarrow> byte list" and val :: "'a \<Rightarrow> 'v" and valid :: "'a \<Rightarrow> bool"
  assumes exact: "valid a \<Longrightarrow> parse (enc a @ rest) = Inr (val a, rest)"
    and sound: "parse bs = Inr (v, rest) \<Longrightarrow> \<exists>a. valid a \<and> v = val a \<and> bs = enc a @ rest"
    and cut: "valid a \<Longrightarrow> strict_prefix bs (enc a) \<Longrightarrow> parse bs = Inl GGUFFormatError"
begin

lemma accepts_iff: "parse bs = Inr (v, rest) \<longleftrightarrow> (\<exists>a. valid a \<and> v = val a \<and> bs = enc a @ rest)"
  using exact sound by blast

lemma unambiguous: "valid a \<Longrightarrow> valid b \<Longrightarrow> enc a @ rest = enc b @ rest' \<Longrightarrow> val a = val b \<and> rest = rest'"
  using exact [of a rest] exact [of b rest'] by simp

lemma consumes: "parse bs = Inr (v, rest) \<Longrightarrow> length rest \<le> length bs"
  using sound by fastforce

end

definition then_read :: "'v reader \<Rightarrow> ('v \<Rightarrow> 'w reader) \<Rightarrow> 'w reader" where
  "then_read p q bs = bind_res (p bs) (\<lambda>(x, rest). q x rest)"

definition give :: "'v \<Rightarrow> 'v reader" where
  "give x bs = Inr (x, bs)"

primrec read_many :: "'v reader \<Rightarrow> nat \<Rightarrow> 'v list reader" where
  "read_many p 0 = give []"
| "read_many p (Suc n) = then_read p (\<lambda>x. then_read (read_many p n) (\<lambda>xs. give (x # xs)))"

lemma strict_prefix_append:
  "strict_prefix bs (xs @ ys) \<longleftrightarrow> strict_prefix bs xs \<or> (\<exists>cs. bs = xs @ cs \<and> strict_prefix cs ys)"
proof
  assume a: "strict_prefix bs (xs @ ys)"
  show "strict_prefix bs xs \<or> (\<exists>cs. bs = xs @ cs \<and> strict_prefix cs ys)"
  proof (cases "prefix xs bs")
    case True
    then show ?thesis using a by (auto simp: prefix_def strict_prefix_def)
  next
    case False
    have "prefix bs xs" using a False by (meson append_prefixD prefix_order.less_imp_le prefix_same_cases prefixI)
    then show ?thesis using False by (auto simp: strict_prefix_def)
  qed
qed (auto simp: strict_prefix_def prefix_def)

lemma codec_give: "codec (give x) (\<lambda>_::unit. []) (\<lambda>_. x) (\<lambda>_. True)"
  by unfold_locales (auto simp: give_def)

lemma codec_then:
  assumes P: "codec p e1 v1 k1" and Q: "\<And>a. k1 a \<Longrightarrow> codec (q (v1 a)) (e2 a) (v2 a) (k2 a)"
  shows "codec (then_read p q) (\<lambda>(a, b). e1 a @ e2 a b) (\<lambda>(a, b). v2 a b) (\<lambda>(a, b). k1 a \<and> k2 a b)"
proof
  fix ab rest assume "case ab of (a, b) \<Rightarrow> k1 a \<and> k2 a b"
  then show "then_read p q ((case ab of (a, b) \<Rightarrow> e1 a @ e2 a b) @ rest) = Inr (case ab of (a, b) \<Rightarrow> v2 a b, rest)"
    using codec.exact [OF P] codec.exact [OF Q] by (auto simp: then_read_def split: prod.splits)
next
  fix bs v rest assume "then_read p q bs = Inr (v, rest)"
  then obtain x r1 where r: "p bs = Inr (x, r1)" "q x r1 = Inr (v, rest)"
    by (auto simp: then_read_def bind_res_Inr)
  obtain a where a: "k1 a" "x = v1 a" "bs = e1 a @ r1" using codec.sound [OF P r(1)] by blast
  obtain b where b: "k2 a b" "v = v2 a b" "r1 = e2 a b @ rest" using codec.sound [OF Q [OF a(1)]] r(2) a(2) by blast
  show "\<exists>ab. (case ab of (a, b) \<Rightarrow> k1 a \<and> k2 a b) \<and> v = (case ab of (a, b) \<Rightarrow> v2 a b) \<and> bs = (case ab of (a, b) \<Rightarrow> e1 a @ e2 a b) @ rest"
    by (rule exI [of _ "(a, b)"]) (use a b in simp)
next
  fix ab bs assume k: "case ab of (a, b) \<Rightarrow> k1 a \<and> k2 a b" and s: "strict_prefix bs (case ab of (a, b) \<Rightarrow> e1 a @ e2 a b)"
  obtain a b where ab: "ab = (a, b)" "k1 a" "k2 a b" using k by (cases ab) auto
  from s have "strict_prefix bs (e1 a) \<or> (\<exists>cs. bs = e1 a @ cs \<and> strict_prefix cs (e2 a b))"
    by (simp add: ab strict_prefix_append)
  then show "then_read p q bs = Inl GGUFFormatError"
    using codec.cut [OF P ab(2)] codec.exact [OF P ab(2)] codec.cut [OF Q [OF ab(2)] ab(3)] by (auto simp: then_read_def)
qed

text \<open>The same reader, with another description of what it reads.\<close>

lemma codec_change:
  assumes P: "codec p e v k" and "\<And>b. k' b \<Longrightarrow> k (f b) \<and> e' b = e (f b) \<and> v' b = v (f b)" "\<And>a. k a \<Longrightarrow> k' (g a) \<and> f (g a) = a"
  shows "codec p e' v' k'"
proof
  fix a rest assume "k' a"
  then show "p (e' a @ rest) = Inr (v' a, rest)" using codec.exact [OF P] assms(2) by simp
next
  fix bs w rest assume "p bs = Inr (w, rest)"
  then obtain a where "k a" "w = v a" "bs = e a @ rest" using codec.sound [OF P] by blast
  then show "\<exists>a. k' a \<and> w = v' a \<and> bs = e' a @ rest" using assms(2,3) by (intro exI [of _ "g a"]) metis
next
  fix a bs assume "k' a" "strict_prefix bs (e' a)"
  then show "p bs = Inl GGUFFormatError" using codec.cut [OF P, of "f a" bs] assms(2) [of a] by simp
qed

lemma codec_many:
  assumes P: "codec p e v k"
  shows "codec (read_many p n) (\<lambda>as. concat (map e as)) (map v) (\<lambda>as. length as = n \<and> (\<forall>a \<in> set as. k a))"
proof (induction n)
  case 0
  have "codec (give []) (\<lambda>_::unit. []) (\<lambda>_. []) (\<lambda>_. True)" by (rule codec_give)
  from codec_change [OF this, where k' = "\<lambda>as. length as = 0 \<and> (\<forall>a \<in> set as. k a)" and f = "\<lambda>_. ()" and g = "\<lambda>_. []"
      and e' = "\<lambda>as. concat (map e as)" and v' = "map v"]
  show ?case by simp
next
  case (Suc n)
  have rest: "codec (then_read (read_many p n) (\<lambda>xs. give (x # xs))) (\<lambda>(as, _). concat (map e as) @ [])
      (\<lambda>(as, _::unit). x # map v as) (\<lambda>(as, _). (length as = n \<and> (\<forall>a \<in> set as. k a)) \<and> True)" for x
    by (rule codec_then [OF Suc]) (rule codec_give)
  have all: "codec (read_many p (Suc n)) (\<lambda>(a, b). e a @ (case b of (as, _) \<Rightarrow> concat (map e as) @ []))
      (\<lambda>(a, b). case b of (as, _::unit) \<Rightarrow> v a # map v as) (\<lambda>(a, b). k a \<and> (case b of (as, _) \<Rightarrow> (length as = n \<and> (\<forall>a \<in> set as. k a)) \<and> True))"
    unfolding read_many.simps by (rule codec_then [OF P]) (rule rest)
  show ?case
    by (rule codec_change [OF all, of _ "\<lambda>as. (hd as, (tl as, ()))" _ _ "\<lambda>(a, (as, _)). a # as"])
      (auto simp: length_Suc_conv split: prod.splits)
qed

section \<open>Little-endian numbers\<close>

fun le_num :: "byte list \<Rightarrow> nat" where
  "le_num [] = 0"
| "le_num (b # bs) = unat b + 256 * le_num bs"

fun le_bytes :: "nat \<Rightarrow> nat \<Rightarrow> byte list" where
  "le_bytes 0 n = []"
| "le_bytes (Suc k) n = word_of_nat n # le_bytes k (n div 256)"

lemma unat_byte [simp]: "unat (word_of_nat n :: byte) = n mod 256"
  by (simp add: unat_of_nat)

lemma byte_less [simp]: "unat (b :: byte) < 256"
  by (rule order_less_le_trans [OF unsigned_less]) simp

lemma length_le_bytes [simp]: "length (le_bytes k n) = k"
  by (induction k arbitrary: n) auto

lemma le_num_less: "le_num bs < 256 ^ length bs"
proof (induction bs)
  case (Cons b bs)
  have "unat b < 256" by simp
  moreover have "le_num bs + 1 \<le> 256 ^ length bs" using Cons by simp
  ultimately show ?case unfolding le_num.simps length_Cons power_Suc by linarith
qed simp

lemma le_bytes_num [simp]: "le_bytes (length bs) (le_num bs) = bs"
proof (induction bs)
  case (Cons b bs)
  have "(unat b + 256 * le_num bs) div 256 = le_num bs" by (simp add: div_eq_0_iff)
  moreover have "unat (word_of_nat (unat b + 256 * le_num bs) :: byte) = unat b" unfolding unat_byte by simp
  then have "word_of_nat (unat b + 256 * le_num bs) = b" by (rule word_unat_eq_iff [THEN iffD2])
  ultimately show ?case using Cons by simp
qed simp

lemma le_num_bytes [simp]: "n < 256 ^ k \<Longrightarrow> le_num (le_bytes k n) = n"
proof (induction k arbitrary: n)
  case (Suc k)
  then have "n div 256 < 256 ^ k" by (simp add: less_mult_imp_div_less mult.commute)
  then show ?case using Suc by simp
qed simp

end
