(* ===== verification/Gguf_Reader.thy ===== *)
theory Gguf_Reader
  imports Codec
begin

text \<open>
  \<open>models/gguf/reader.py\<close>: the GGUF header, metadata and tensor descriptors. A Python \<open>str\<close> is
  its UTF-8 bytes, a float its bit pattern, a file its bytes.
\<close>

section \<open>UTF-8\<close>

text \<open>What \<open>bytes.decode("utf-8")\<close> accepts (no overlong forms, no surrogates, at most U+10FFFF).\<close>

definition cont_byte :: "byte \<Rightarrow> bool" where
  "cont_byte b \<longleftrightarrow> 0x80 \<le> b \<and> b \<le> 0xBF"

fun utf8_valid :: "byte list \<Rightarrow> bool" where
  "utf8_valid [] = True"
| "utf8_valid [a] = (a \<le> 0x7F)"
| "utf8_valid [a, b] =
     (if a \<le> 0x7F then utf8_valid [b] else 0xC2 \<le> a \<and> a \<le> 0xDF \<and> cont_byte b)"
| "utf8_valid [a, b, c] =
     (if a \<le> 0x7F then utf8_valid [b, c]
      else if a \<le> 0xDF then 0xC2 \<le> a \<and> cont_byte b \<and> utf8_valid [c]
      else a \<le> 0xEF \<and> (if a = 0xE0 then 0xA0 \<le> b else True) \<and> (if a = 0xED then b \<le> 0x9F else True)
           \<and> cont_byte b \<and> cont_byte c)"
| "utf8_valid (a # b # c # d # bs) =
     (if a \<le> 0x7F then utf8_valid (b # c # d # bs)
      else if a \<le> 0xDF then 0xC2 \<le> a \<and> cont_byte b \<and> utf8_valid (c # d # bs)
      else if a \<le> 0xEF then (if a = 0xE0 then 0xA0 \<le> b else True) \<and> (if a = 0xED then b \<le> 0x9F else True)
           \<and> cont_byte b \<and> cont_byte c \<and> utf8_valid (d # bs)
      else a \<le> 0xF4 \<and> (if a = 0xF0 then 0x90 \<le> b else True) \<and> (if a = 0xF4 then b \<le> 0x8F else True)
           \<and> cont_byte b \<and> cont_byte c \<and> cont_byte d \<and> utf8_valid bs)"

section \<open>Values\<close>

datatype gvalue =
    VInt int
  | VF32 "32 word"
  | VF64 "64 word"
  | VBool bool
  | VStr "byte list"
  | VList "gvalue list"

datatype skind = Unsigned | Signed | Single | Double | Boolean

text \<open>\<open>_SCALAR_FMT\<close>: the kind and the size of each scalar type code.\<close>

definition scalar_fmt :: "nat \<Rightarrow> (skind \<times> nat) option" where
  "scalar_fmt t =
     (if t = 0 then Some (Unsigned, 1) else if t = 1 then Some (Signed, 1)
      else if t = 2 then Some (Unsigned, 2) else if t = 3 then Some (Signed, 2)
      else if t = 4 then Some (Unsigned, 4) else if t = 5 then Some (Signed, 4)
      else if t = 6 then Some (Single, 4) else if t = 7 then Some (Boolean, 1)
      else if t = 10 then Some (Unsigned, 8) else if t = 11 then Some (Signed, 8)
      else if t = 12 then Some (Double, 8) else None)"

definition signed_num :: "nat \<Rightarrow> nat \<Rightarrow> int" where
  "signed_num sz n = (if 256 ^ sz \<le> 2 * n then int n - 256 ^ sz else int n)"

definition scalar_value :: "skind \<Rightarrow> nat \<Rightarrow> nat \<Rightarrow> gvalue" where
  "scalar_value k sz n =
     (case k of Unsigned \<Rightarrow> VInt (int n) | Signed \<Rightarrow> VInt (signed_num sz n) | Single \<Rightarrow> VF32 (word_of_nat n)
      | Double \<Rightarrow> VF64 (word_of_nat n) | Boolean \<Rightarrow> VBool (n \<noteq> 0))"

section \<open>Readers\<close>

definition fail_with :: "py_error \<Rightarrow> 'v reader" where
  "fail_with err bs = Inl err"

text \<open>\<open>file.read(n)\<close> refuses a size beyond \<open>ssize_t\<close>.\<close>

definition read_exact :: "nat \<Rightarrow> byte list reader" where
  "read_exact n bs =
     (if 2 ^ 63 \<le> n then Inl OverflowError
      else if length bs < n then Inl GGUFFormatError else Inr (take n bs, drop n bs))"

definition read_le :: "nat \<Rightarrow> nat reader" where
  "read_le k = then_read (read_exact k) (\<lambda>bs. give (le_num bs))"

definition read_string :: "byte list reader" where
  "read_string = then_read (read_le 8) (\<lambda>n. then_read (read_exact n) (\<lambda>s.
     if utf8_valid s then give s else fail_with UnicodeDecodeError))"

text \<open>\<open>_read_gguf_value\<close>; the first argument is how deep the interpreter lets it recurse.\<close>

fun read_value :: "nat \<Rightarrow> nat \<Rightarrow> gvalue reader" where
  "read_value 0 t = fail_with RecursionError"
| "read_value (Suc k) t =
     (if t = 8 then then_read read_string (\<lambda>s. give (VStr s))
      else if t = 9 then
        then_read (read_le 4) (\<lambda>et. then_read (read_le 8) (\<lambda>n.
          then_read (read_many (read_value k et) n) (\<lambda>vs. give (VList vs))))
      else case scalar_fmt t of
        None \<Rightarrow> fail_with GGUFFormatError
      | Some (kd, sz) \<Rightarrow> then_read (read_le sz) (\<lambda>n. give (scalar_value kd sz n)))"

definition read_item :: "nat \<Rightarrow> (byte list \<times> gvalue) reader" where
  "read_item depth =
     then_read read_string (\<lambda>key. then_read (read_le 4) (\<lambda>t.
       then_read (read_value depth t) (\<lambda>v. give (key, v))))"

text \<open>A raw tensor descriptor: name, dimensions, quantisation type, offset within the data.\<close>

type_synonym raw_tensor = "byte list \<times> nat list \<times> nat \<times> nat"

definition read_tensor :: "raw_tensor reader" where
  "read_tensor =
     then_read read_string (\<lambda>name. then_read (read_le 4) (\<lambda>nd. then_read (read_many (read_le 8) nd) (\<lambda>shape.
       then_read (read_le 4) (\<lambda>ty. then_read (read_le 8) (\<lambda>off. give (name, shape, ty, off))))))"

definition gguf_magic :: "byte list" where
  "gguf_magic = [0x47, 0x47, 0x55, 0x46]"

type_synonym raw_header = "nat \<times> (byte list \<times> gvalue) list \<times> raw_tensor list"

definition count_width :: "nat \<Rightarrow> nat" where
  "count_width version = (if version = 1 then 4 else 8)"

definition read_counts :: "nat \<Rightarrow> nat \<Rightarrow> nat \<Rightarrow> nat \<Rightarrow> raw_header reader" where
  "read_counts depth version tensor_count kv_count =
     then_read (read_many (read_item depth) kv_count) (\<lambda>kvs.
       then_read (read_many read_tensor tensor_count) (\<lambda>ts. give (version, kvs, ts)))"

definition read_header :: "nat \<Rightarrow> raw_header reader" where
  "read_header depth =
     then_read (read_exact 4) (\<lambda>magic. if magic \<noteq> gguf_magic then fail_with GGUFFormatError
     else then_read (read_le 4) (\<lambda>version. then_read (read_le (count_width version)) (\<lambda>tc.
       then_read (read_le (count_width version)) (\<lambda>kc. read_counts depth version tc kc))))"

section \<open>The parsed file\<close>

record tensor_info =
  ti_name :: "byte list"
  ti_shape :: "nat list"
  ti_type :: nat
  ti_offset :: int

definition n_elements :: "tensor_info \<Rightarrow> nat" where
  "n_elements ti = foldl (*) 1 (ti_shape ti)"

record gguf_file =
  gf_version :: nat
  gf_metadata :: "(byte list \<times> gvalue) list"
  gf_tensors :: "(byte list \<times> tensor_info) list"
  gf_data_start :: int

text \<open>Building a dictionary from items: a later value replaces an earlier one in its place.\<close>

fun dict_put :: "'k \<Rightarrow> 'v \<Rightarrow> ('k \<times> 'v) list \<Rightarrow> ('k \<times> 'v) list" where
  "dict_put k v [] = [(k, v)]"
| "dict_put k v ((k', v') # d) = (if k' = k then (k, v) # d else (k', v') # dict_put k v d)"

definition dict_of :: "('k \<times> 'v) list \<Rightarrow> ('k \<times> 'v) list" where
  "dict_of items = foldl (\<lambda>d (k, v). dict_put k v d) [] items"

definition alignment_key :: "byte list" where
  "alignment_key = map (word_of_nat \<circ> of_char) ''general.alignment''"

text \<open>The value of \<open>general.alignment\<close> in integer arithmetic; a \<open>bool\<close> is an integer. A float
  makes every later seek raise; the model raises at once.\<close>

definition as_int :: "gvalue \<Rightarrow> int res" where
  "as_int v = (case v of VInt i \<Rightarrow> Inr i | VBool b \<Rightarrow> Inr (if b then 1 else 0) | _ \<Rightarrow> Inl TypeError)"

definition data_start :: "nat \<Rightarrow> int \<Rightarrow> int res" where
  "data_start header_end alignment =
     bind_res (py_floordiv (int header_end + alignment - 1) alignment) (\<lambda>q. Inr (q * alignment))"

definition resolve_tensors :: "int \<Rightarrow> raw_tensor list \<Rightarrow> (byte list \<times> tensor_info) list" where
  "resolve_tensors start raw =
     dict_of (map (\<lambda>(name, shape, ty, off).
       (name, \<lparr>ti_name = name, ti_shape = shape, ti_type = ty, ti_offset = start + int off\<rparr>)) raw)"

definition load_gguf :: "nat \<Rightarrow> byte list \<Rightarrow> gguf_file res" where
  "load_gguf depth file =
     bind_res (read_header depth file) (\<lambda>((version, kvs, raw), rest).
     let metadata = dict_of kvs; header_end = length file - length rest
     in bind_res (as_int (case map_of metadata alignment_key of None \<Rightarrow> VInt 32 | Some v \<Rightarrow> v)) (\<lambda>alignment.
        bind_res (data_start header_end alignment) (\<lambda>start.
          Inr \<lparr>gf_version = version, gf_metadata = metadata, gf_tensors = resolve_tensors start raw,
               gf_data_start = start\<rparr>)))"

text \<open>\<open>_resolve_gguf_file\<close> and \<open>is_gguf_path\<close> on what the file system says of a path: a file with
  its bytes, a directory with its sorted \<open>*.gguf\<close> entries, or nothing.\<close>

datatype fs_entry = FsFile "byte list" | FsDir "byte list list" | FsMissing

definition resolve_gguf_file :: "fs_entry \<Rightarrow> byte list res" where
  "resolve_gguf_file p =
     (case p of FsFile c \<Rightarrow> Inr c
      | FsDir cs \<Rightarrow> (case cs of [c] \<Rightarrow> Inr c | _ \<Rightarrow> Inl GGUFFormatError)
      | FsMissing \<Rightarrow> Inl FileNotFoundError)"

definition is_gguf_path :: "fs_entry \<Rightarrow> bool" where
  "is_gguf_path p = (case resolve_gguf_file p of Inl _ \<Rightarrow> False | Inr c \<Rightarrow> take 4 c = gguf_magic)"

section \<open>What a header encodes\<close>

text \<open>A metadata value as it is stored: a scalar's type code and raw number, a text, an array
  with its element type.\<close>

datatype tval = TScalar nat nat | TText "byte list" | TArray nat "tval list"

fun tcode :: "tval \<Rightarrow> nat" where
  "tcode (TScalar c n) = c"
| "tcode (TText s) = 8"
| "tcode (TArray et vs) = 9"

definition enc_str :: "byte list \<Rightarrow> byte list" where
  "enc_str s = le_bytes 8 (length s) @ s"

fun enc_tval :: "tval \<Rightarrow> byte list" where
  "enc_tval (TScalar c n) = le_bytes (case scalar_fmt c of None \<Rightarrow> 0 | Some (_, sz) \<Rightarrow> sz) n"
| "enc_tval (TText s) = enc_str s"
| "enc_tval (TArray et vs) = le_bytes 4 et @ le_bytes 8 (length vs) @ concat (map enc_tval vs)"

fun meaning :: "tval \<Rightarrow> gvalue" where
  "meaning (TScalar c n) = (case scalar_fmt c of None \<Rightarrow> VInt 0 | Some (kd, sz) \<Rightarrow> scalar_value kd sz n)"
| "meaning (TText s) = VStr s"
| "meaning (TArray et vs) = VList (map meaning vs)"

definition str_ok :: "byte list \<Rightarrow> bool" where
  "str_ok s \<longleftrightarrow> length s < 2 ^ 63 \<and> utf8_valid s"

fun tval_ok :: "nat \<Rightarrow> nat \<Rightarrow> tval \<Rightarrow> bool" where
  "tval_ok 0 t v = False"
| "tval_ok (Suc k) t (TScalar c n) = (c = t \<and> (case scalar_fmt c of None \<Rightarrow> False | Some (_, sz) \<Rightarrow> n < 256 ^ sz))"
| "tval_ok (Suc k) t (TText s) = (t = 8 \<and> str_ok s)"
| "tval_ok (Suc k) t (TArray et vs) = (t = 9 \<and> et < 256 ^ 4 \<and> length vs < 256 ^ 8 \<and> (\<forall>v \<in> set vs. tval_ok k et v))"

end
