(* ===== verification/Gguf_Dequant.thy ===== *)
theory Gguf_Dequant
  imports Gguf_Reader
begin

text \<open>
  \<open>models/gguf/dequant.py\<close>: the GGML block formats. Bytes are 8-bit words and every bit operation
  is the code's; the floating-point operations are a parameter. A tensor here is the list of its
  values, its shape the number of them.
\<close>

unbundle bit_operations_syntax

section \<open>Arrays\<close>

text \<open>\<open>reshape\<close>: the rows of a flat array, each of \<open>n\<close> elements.\<close>

fun chunks :: "nat \<Rightarrow> 'a list \<Rightarrow> 'a list list" where
  "chunks n xs = (if n = 0 \<or> xs = [] then [] else take n xs # chunks n (drop n xs))"

declare chunks.simps [simp del]

text \<open>Row \<open>e\<close> of a flat array of rows of \<open>n\<close>.\<close>

definition row_at :: "nat \<Rightarrow> 'a list \<Rightarrow> nat \<Rightarrow> 'a list" where
  "row_at n xs e = take n (drop (e * n) xs)"

record 'f float_ops =
  fo_half :: "16 word \<Rightarrow> 'f"
  fo_single :: "32 word \<Rightarrow> 'f"
  fo_int :: "int \<Rightarrow> 'f"
  fo_mul :: "'f \<Rightarrow> 'f \<Rightarrow> 'f"
  fo_sub :: "'f \<Rightarrow> 'f \<Rightarrow> 'f"
  fo_cast :: "'f \<Rightarrow> 'f"

definition half_at :: "'f float_ops \<Rightarrow> byte list \<Rightarrow> 'f" where
  "half_at F bs = fo_half F (word_of_nat (le_num bs))"

definition lo4 :: "byte \<Rightarrow> byte" where
  "lo4 b = b AND 0x0F"

definition hi4 :: "byte \<Rightarrow> byte" where
  "hi4 b = drop_bit 4 b AND 0x0F"

section \<open>One block\<close>

definition deq_f32 :: "'f float_ops \<Rightarrow> byte list \<Rightarrow> 'f list" where
  "deq_f32 F blk = [fo_single F (word_of_nat (le_num blk))]"

definition deq_f16 :: "'f float_ops \<Rightarrow> byte list \<Rightarrow> 'f list" where
  "deq_f16 F blk = [half_at F blk]"

definition deq_bf16 :: "'f float_ops \<Rightarrow> byte list \<Rightarrow> 'f list" where
  "deq_bf16 F blk = [fo_single F (push_bit 16 (word_of_nat (le_num blk)))]"

definition deq_q4_0 :: "'f float_ops \<Rightarrow> byte list \<Rightarrow> 'f list" where
  "deq_q4_0 F blk =
     (let d = half_at F (take 2 blk); qs = drop 2 blk;
          lo = map (\<lambda>b. int (unat (lo4 b)) - 8) qs; hi = map (\<lambda>b. int (unat (hi4 b)) - 8) qs
      in map (\<lambda>q. fo_mul F d (fo_int F q)) (lo @ hi))"

definition deq_q8_0 :: "'f float_ops \<Rightarrow> byte list \<Rightarrow> 'f list" where
  "deq_q8_0 F blk =
     (let d = half_at F (take 2 blk) in map (\<lambda>b. fo_mul F d (fo_int F (sint b))) (drop 2 blk))"

definition unpack_scale_min :: "byte list \<Rightarrow> byte list \<times> byte list" where
  "unpack_scale_min s =
     (let b0 = take 4 s; b4 = take 4 (drop 4 s); b8 = take 4 (drop 8 s)
      in (map (\<lambda>x. x AND 0x3F) b0 @ map2 (\<lambda>y x. (y AND 0x0F) OR push_bit 4 (drop_bit 6 x)) b8 b0,
          map (\<lambda>x. x AND 0x3F) b4 @ map2 (\<lambda>y x. drop_bit 4 y OR push_bit 4 (drop_bit 6 x)) b8 b4))"

text \<open>\<open>np.stack([lo, hi], axis=2)\<close>: each group of 32 bytes gives its low, then its high nibbles.\<close>

definition nibble_rows :: "byte list \<Rightarrow> byte list list" where
  "nibble_rows qs = concat (map (\<lambda>g. [map lo4 g, map hi4 g]) (chunks 32 qs))"

definition scaled_rows :: "'f float_ops \<Rightarrow> 'f \<Rightarrow> 'f \<Rightarrow> byte list \<Rightarrow> byte list \<Rightarrow> byte list list \<Rightarrow> 'f list" where
  "scaled_rows F d dmin sc m rows =
     concat (map (\<lambda>j.
       let dl = fo_mul F d (fo_int F (uint (sc ! j))); ml = fo_mul F dmin (fo_int F (uint (m ! j)))
       in map (\<lambda>q. fo_sub F (fo_mul F dl (fo_int F (uint q))) ml) (rows ! j)) [0..<length rows])"

definition deq_q4_k :: "'f float_ops \<Rightarrow> byte list \<Rightarrow> 'f list" where
  "deq_q4_k F blk =
     (let d = half_at F (take 2 blk); dmin = half_at F (take 2 (drop 2 blk));
          (sc, m) = unpack_scale_min (take 12 (drop 4 blk))
      in scaled_rows F d dmin sc m (nibble_rows (take 128 (drop 16 blk))))"

definition high_rows :: "byte list \<Rightarrow> byte list list" where
  "high_rows qh = map (\<lambda>i. map (\<lambda>b. drop_bit i b AND 1) qh) [0..<8]"

definition deq_q5_k :: "'f float_ops \<Rightarrow> byte list \<Rightarrow> 'f list" where
  "deq_q5_k F blk =
     (let d = half_at F (take 2 blk); dmin = half_at F (take 2 (drop 2 blk));
          (sc, m) = unpack_scale_min (take 12 (drop 4 blk));
          qh = take 32 (drop 16 blk);
          rows = map2 (map2 (\<lambda>l h. l OR push_bit 4 h)) (nibble_rows (take 128 (drop 48 blk))) (high_rows qh)
      in scaled_rows F d dmin sc m rows)"

text \<open>\<open>x.reshape(.., 1, n) >> shifts\<close>: every half of the bytes, once per shift.\<close>

definition shifted :: "nat \<Rightarrow> nat list \<Rightarrow> byte \<Rightarrow> byte list \<Rightarrow> byte list" where
  "shifted n shifts msk bs =
     concat (map (\<lambda>g. concat (map (\<lambda>s. map (\<lambda>b. drop_bit s b AND msk) g) shifts)) (chunks n bs))"

definition deq_q6_k :: "'f float_ops \<Rightarrow> byte list \<Rightarrow> 'f list" where
  "deq_q6_k F blk =
     (let ql = shifted 64 [0, 4] 0x0F (take 128 blk);
          qh = shifted 32 [0, 2, 4, 6] 3 (take 64 (drop 128 blk));
          scales = map (\<lambda>b. fo_int F (sint b)) (take 16 (drop 192 blk));
          d = half_at F (take 2 (drop 208 blk));
          q = map2 (\<lambda>l h. uint (l OR push_bit 4 h) - 32) ql qh
      in concat (map2 (\<lambda>s g. map (\<lambda>x. fo_mul F (fo_mul F d s) (fo_int F x)) g) scales (chunks 16 q)))"

section \<open>A tensor\<close>

text \<open>The formats by their type number: elements and bytes of a block, and the block's values. For
  the plain formats a block is one element; \<open>np.frombuffer\<close> checks the length there.\<close>

definition block_format :: "nat \<Rightarrow> (nat \<times> nat \<times> ('f float_ops \<Rightarrow> byte list \<Rightarrow> 'f list)) option" where
  "block_format t =
     (if t = 0 then Some (1, 4, deq_f32) else if t = 1 then Some (1, 2, deq_f16)
      else if t = 2 then Some (32, 18, deq_q4_0) else if t = 8 then Some (32, 34, deq_q8_0)
      else if t = 12 then Some (256, 144, deq_q4_k) else if t = 13 then Some (256, 176, deq_q5_k)
      else if t = 14 then Some (256, 210, deq_q6_k) else if t = 30 then Some (1, 2, deq_bf16) else None)"

definition deq_flat :: "'f float_ops \<Rightarrow> nat \<Rightarrow> byte list \<Rightarrow> 'f list res" where
  "deq_flat F t raw =
     (case block_format t of
        None \<Rightarrow> Inl DequantError
      | Some (block_size, type_size, f) \<Rightarrow>
          if length raw mod type_size \<noteq> 0 then Inl (if block_size = 1 then ValueError else DequantError)
          else Inr (concat (map (f F) (chunks type_size raw))))"

definition dequantize :: "'f float_ops \<Rightarrow> nat \<Rightarrow> byte list \<Rightarrow> nat list \<Rightarrow> 'f list res" where
  "dequantize F t raw shape =
     bind_res (deq_flat F t raw) (\<lambda>flat.
     let n = foldl (*) 1 shape
     in if length flat < n then Inl DequantError else Inr (map (fo_cast F) (take n flat)))"

section \<open>Laws of the arrays\<close>

lemma chunks_Nil [simp]: "chunks n [] = []"
  by (subst chunks.simps) simp

lemma chunks_append: "0 < n \<Longrightarrow> length xs = n \<Longrightarrow> chunks n (xs @ ys) = xs # chunks n ys"
  by (subst chunks.simps) auto

lemma concat_chunks: "0 < n \<Longrightarrow> concat (chunks n xs) = xs"
proof (induction n xs rule: chunks.induct)
  case (1 n xs)
  then show ?case by (subst chunks.simps) auto
qed

lemma length_chunks: "0 < n \<Longrightarrow> length xs = k * n \<Longrightarrow> length (chunks n xs) = k \<and> (\<forall>c \<in> set (chunks n xs). length c = n)"
proof (induction k arbitrary: xs)
  case (Suc k)
  have "length (chunks n (drop n xs)) = k \<and> (\<forall>c \<in> set (chunks n (drop n xs)). length c = n)"
    by (rule Suc.IH) (use Suc.prems in simp_all)
  moreover have "chunks n xs = take n xs # chunks n (drop n xs)" using Suc.prems by (subst chunks.simps) auto
  ultimately show ?case using Suc.prems by simp
qed simp

lemma chunks_concat: "0 < n \<Longrightarrow> \<forall>c \<in> set cs. length c = n \<Longrightarrow> chunks n (concat cs @ ys) = cs @ chunks n ys"
  by (induction cs) (simp_all add: chunks_append)

lemma nth_concat_rows:
  "\<forall>r \<in> set rows. length r = n \<Longrightarrow> i < length rows * n \<Longrightarrow> concat rows ! i = rows ! (i div n) ! (i mod n)"
proof (induction rows arbitrary: i)
  case (Cons r rows)
  show ?case
  proof (cases "i < n")
    case True
    then show ?thesis using Cons.prems by (simp add: nth_append)
  next
    case False
    then have "n \<le> i" "0 < n" using Cons.prems(2) by (auto intro: gr0I)
    then have "i div n = Suc ((i - n) div n)" "i mod n = (i - n) mod n" by (simp_all add: le_div_geq le_mod_geq)
    then show ?thesis using Cons.IH [of "i - n"] Cons.prems False by (simp add: nth_append)
  qed
qed simp

lemma length_concat_rows: "\<forall>r \<in> set rows. length r = n \<Longrightarrow> length (concat rows) = length rows * n"
  by (induction rows) simp_all

lemma nth_chunks: "0 < n \<Longrightarrow> length xs = k * n \<Longrightarrow> j < k \<Longrightarrow> i < n \<Longrightarrow> chunks n xs ! j ! i = xs ! (j * n + i)"
proof -
  assume a: "0 < n" "length xs = k * n" "j < k" "i < n"
  note L = length_chunks [OF a(1,2)]
  have b: "j * n + i < k * n"
  proof -
    have "Suc j * n \<le> k * n" using a(3) by (intro mult_le_mono1) simp
    then show ?thesis using a(4) by simp
  qed
  have "concat (chunks n xs) ! (j * n + i) = chunks n xs ! ((j * n + i) div n) ! ((j * n + i) mod n)"
    by (rule nth_concat_rows) (use L b in auto)
  then show ?thesis using a by (simp add: concat_chunks)
qed


section \<open>Scales and minimums of the K-quants\<close>

text \<open>Entry \<open>j\<close> as \<open>ggml-quants.c\<close> (\<open>get_scale_min_k4\<close>) reads it, and the table that holds given
  six-bit scales and minimums.\<close>

definition scale_min_at :: "byte list \<Rightarrow> nat \<Rightarrow> byte \<times> byte" where
  "scale_min_at q j =
     (if j < 4 then (q ! j AND 63, q ! (j + 4) AND 63)
      else ((q ! (j + 4) AND 0xF) OR push_bit 4 (drop_bit 6 (q ! (j - 4))),
            drop_bit 4 (q ! (j + 4)) OR push_bit 4 (drop_bit 6 (q ! j))))"

definition pack_scale_min :: "byte list \<Rightarrow> byte list \<Rightarrow> byte list" where
  "pack_scale_min sc m =
     map2 (\<lambda>x y. x OR push_bit 6 (drop_bit 4 y)) (take 4 sc) (drop 4 sc) @
     map2 (\<lambda>x y. x OR push_bit 6 (drop_bit 4 y)) (take 4 m) (drop 4 m) @
     map2 (\<lambda>x y. (x AND 0xF) OR push_bit 4 y) (drop 4 sc) (drop 4 m)"

lemma bit_const: "bit (63 :: int) n \<longleftrightarrow> n < 6" "bit (15 :: int) n \<longleftrightarrow> n < 4"
proof -
  have m: "63 = (mask 6 :: int)" "15 = (mask 4 :: int)" by (simp_all add: mask_eq_exp_minus_1)
  have b: "bit (mask k :: int) n \<longleftrightarrow> n < k" for k by (simp add: bit_mask_iff)
  show "bit (63 :: int) n \<longleftrightarrow> n < 6" "bit (15 :: int) n \<longleftrightarrow> n < 4" unfolding m b by auto
qed

lemma six_bits: "(x :: byte) < 64 \<longleftrightarrow> (\<forall>n \<ge> 6. \<not> bit x n)"
proof -
  have "x < 64 \<longleftrightarrow> take_bit 6 (unat x) = unat x" by (simp add: word_less_nat_alt take_bit_nat_eq_self_iff)
  also have "\<dots> \<longleftrightarrow> (\<forall>n. bit (take_bit 6 (unat x)) n \<longleftrightarrow> bit (unat x) n)" by (simp only: bit_eq_iff [of "take_bit 6 (unat x)"]) simp
  also have "\<dots> \<longleftrightarrow> (\<forall>n. n < 6 \<and> bit x n \<longleftrightarrow> bit x n)" by (simp add: bit_take_bit_iff bit_unsigned_iff)
  finally show ?thesis by (metis not_le)
qed

lemma byte_eqI:
  assumes "bit x 0 = bit y 0" "bit x 1 = bit y 1" "bit x 2 = bit y 2" "bit x 3 = bit y 3"
    "bit x 4 = bit y 4" "bit x 5 = bit y 5" "bit x 6 = bit y 6" "bit x 7 = bit y 7"
  shows "(x :: byte) = y"
proof (rule bit_word_eqI)
  fix n assume "n < LENGTH(8)"
  then have "n \<in> {0, 1, 2, 3, 4, 5, 6, 7}" by auto
  then show "bit x n = bit y n" using assms by (elim insertE emptyE) simp_all
qed

lemma bit_byte_high: "8 \<le> n \<Longrightarrow> \<not> bit (x :: byte) n"
  using bit_imp_le_length [of x n] by auto

lemma list8: "length xs = 8 \<Longrightarrow> \<exists>ys zs. xs = ys @ zs \<and> length ys = 4 \<and> length zs = 4"
  by (rule exI [of _ "take 4 xs"], rule exI [of _ "drop 4 xs"]) simp

text \<open>One column of the table: what packing and unpacking do to its bytes.\<close>

lemma unpack_column:
  assumes "(x :: byte) < 64" "y < 64" "z < 64"
  shows "(x OR push_bit 6 (drop_bit 4 y)) AND 0x3F = x"
    "(((y AND 0xF) OR push_bit 4 z) AND 0x0F) OR push_bit 4 (drop_bit 6 (x OR push_bit 6 (drop_bit 4 y))) = y"
    "drop_bit 4 ((y AND 0xF) OR push_bit 4 z) OR push_bit 4 (drop_bit 6 (x OR push_bit 6 (drop_bit 4 z))) = z"
proof -
  have b: "\<not> bit x 6" "\<not> bit x 7" "\<not> bit y 6" "\<not> bit y 7" "\<not> bit z 6" "\<not> bit z 7" using assms by (auto simp: six_bits)
  show "(x OR push_bit 6 (drop_bit 4 y)) AND 0x3F = x"
    by (rule byte_eqI) (simp_all add: b bit_simps bit_const bit_byte_high)
  show "(((y AND 0xF) OR push_bit 4 z) AND 0x0F) OR push_bit 4 (drop_bit 6 (x OR push_bit 6 (drop_bit 4 y))) = y"
    by (rule byte_eqI) (simp_all add: b bit_simps bit_const bit_byte_high)
  show "drop_bit 4 ((y AND 0xF) OR push_bit 4 z) OR push_bit 4 (drop_bit 6 (x OR push_bit 6 (drop_bit 4 z))) = z"
    by (rule byte_eqI) (simp_all add: b bit_simps bit_const bit_byte_high)
qed

lemma pack_column:
  fixes a b c :: byte
  shows "(a AND 0x3F) OR push_bit 6 (drop_bit 4 ((c AND 0x0F) OR push_bit 4 (drop_bit 6 a))) = a"
    "(a AND 0x3F) OR push_bit 6 (drop_bit 4 (drop_bit 4 c OR push_bit 4 (drop_bit 6 a))) = a"
    "(((c AND 0x0F) OR push_bit 4 (drop_bit 6 a)) AND 0xF) OR push_bit 4 (drop_bit 4 c OR push_bit 4 (drop_bit 6 b)) = c"
  by (rule byte_eqI; simp add: bit_simps bit_const bit_byte_high)+

lemma map2_eqI: "length zs = length xs \<Longrightarrow> length ys = length xs \<Longrightarrow> (\<And>i. i < length xs \<Longrightarrow> f (xs ! i) (ys ! i) = zs ! i) \<Longrightarrow> map2 f xs ys = zs"
  by (rule nth_equalityI) simp_all

lemma map_eqI: "length zs = length xs \<Longrightarrow> (\<And>i. i < length xs \<Longrightarrow> f (xs ! i) = zs ! i) \<Longrightarrow> map f xs = zs"
  by (rule nth_equalityI) simp_all

lemma unpack_pack:
  assumes "length sc = 8" "length m = 8" "\<forall>x \<in> set sc \<union> set m. x < 64"
  shows "unpack_scale_min (pack_scale_min sc m) = (sc, m)"
proof -
  obtain s1 s2 where s: "sc = s1 @ s2" "length s1 = 4" "length s2 = 4" using list8 assms(1) by blast
  obtain m1 m2 where m: "m = m1 @ m2" "length m1 = 4" "length m2 = 4" using list8 assms(2) by blast
  have lt: "s1 ! i < 64" "s2 ! i < 64" "m1 ! i < 64" "m2 ! i < 64" if "i < 4" for i
    using assms(3) that s m by (auto simp: nth_mem)
  note u = unpack_column [OF lt(1) lt(2) lt(4)] unpack_column [OF lt(3) lt(4) lt(4)] unpack_column [OF lt(3) lt(2) lt(4)]
  have e: "map (\<lambda>x. x AND 0x3F) (map2 (\<lambda>x y. x OR push_bit 6 (drop_bit 4 y)) s1 s2) = s1"
    "map (\<lambda>x. x AND 0x3F) (map2 (\<lambda>x y. x OR push_bit 6 (drop_bit 4 y)) m1 m2) = m1"
    "map2 (\<lambda>y x. (y AND 0x0F) OR push_bit 4 (drop_bit 6 x)) (map2 (\<lambda>x y. (x AND 0xF) OR push_bit 4 y) s2 m2)
       (map2 (\<lambda>x y. x OR push_bit 6 (drop_bit 4 y)) s1 s2) = s2"
    "map2 (\<lambda>y x. drop_bit 4 y OR push_bit 4 (drop_bit 6 x)) (map2 (\<lambda>x y. (x AND 0xF) OR push_bit 4 y) s2 m2)
       (map2 (\<lambda>x y. x OR push_bit 6 (drop_bit 4 y)) m1 m2) = m2"
    by (rule map_eqI map2_eqI; simp only: length_map length_zip s m min.idem nth_map nth_zip prod.case u)+
  then show ?thesis using s m by (simp add: unpack_scale_min_def pack_scale_min_def)
qed

lemma pack_unpack:
  assumes "length s = 12"
  shows "pack_scale_min (fst (unpack_scale_min s)) (snd (unpack_scale_min s)) = s"
proof -
  define x y z where d: "x = take 4 s" "y = take 4 (drop 4 s)" "z = take 4 (drop 8 s)"
  have l: "length x = 4" "length y = 4" "length z = 4" using assms by (simp_all add: d)
  have s: "s = x @ y @ z" using assms
    by (simp add: d) (metis append_take_drop_id drop_drop numeral_Bit0)
  have e: "map2 (\<lambda>x y. x OR push_bit 6 (drop_bit 4 y)) (map (\<lambda>x. x AND 0x3F) x) (map2 (\<lambda>y x. (y AND 0x0F) OR push_bit 4 (drop_bit 6 x)) z x) = x"
    "map2 (\<lambda>x y. x OR push_bit 6 (drop_bit 4 y)) (map (\<lambda>x. x AND 0x3F) y) (map2 (\<lambda>y x. drop_bit 4 y OR push_bit 4 (drop_bit 6 x)) z y) = y"
    "map2 (\<lambda>x y. (x AND 0xF) OR push_bit 4 y) (map2 (\<lambda>y x. (y AND 0x0F) OR push_bit 4 (drop_bit 6 x)) z x)
       (map2 (\<lambda>y x. drop_bit 4 y OR push_bit 4 (drop_bit 6 x)) z y) = z"
    by (rule map2_eqI; simp only: length_map length_zip l min.idem nth_map nth_zip prod.case pack_column)+
  show ?thesis unfolding d [symmetric] unpack_scale_min_def pack_scale_min_def using l e by (simp add: s)
qed

lemma scale_min_at_unpack:
  "length s = 12 \<Longrightarrow> j < 8 \<Longrightarrow> (fst (unpack_scale_min s) ! j, snd (unpack_scale_min s) ! j) = scale_min_at s j"
  by (cases "j < 4") (simp_all add: unpack_scale_min_def scale_min_at_def Let_def nth_append add.commute)

text \<open>The twelve-byte table of the K-quants. Unpacking reads entry \<open>j\<close> where the reference
  implementation reads it, gives six-bit values, reads back every packed table, and is
  one to one: packing what was unpacked restores the bytes.\<close>

theorem scale_min_roundtrip:
  "(\<forall>sc m. length sc = 8 \<and> length m = 8 \<and> (\<forall>x \<in> set sc \<union> set m. x < 64) \<longrightarrow> unpack_scale_min (pack_scale_min sc m) = (sc, m)) \<and>
   (\<forall>s. length s = 12 \<longrightarrow> pack_scale_min (fst (unpack_scale_min s)) (snd (unpack_scale_min s)) = s \<and>
      (\<forall>j < 8. (fst (unpack_scale_min s) ! j, snd (unpack_scale_min s) ! j) = scale_min_at s j))"
by (use unpack_pack pack_unpack scale_min_at_unpack in blast)

section \<open>The block formats, value by value\<close>

text \<open>Value \<open>i\<close> of a block as the loops of \<open>ggml-quants.c\<close> compute it.\<close>

definition scaled_at :: "'f float_ops \<Rightarrow> byte list \<Rightarrow> byte \<Rightarrow> nat \<Rightarrow> 'f" where
  "scaled_at F blk q j =
     (let (s, m) = scale_min_at (take 12 (drop 4 blk)) j;
          dl = fo_mul F (half_at F (take 2 blk)) (fo_int F (uint s));
          ml = fo_mul F (half_at F (take 2 (drop 2 blk))) (fo_int F (uint m))
      in fo_sub F (fo_mul F dl (fo_int F (uint q))) ml)"

definition nibble :: "byte \<Rightarrow> nat \<Rightarrow> byte" where
  "nibble b j = (if even j then b AND 0xF else drop_bit 4 b)"

definition q4_k_at :: "'f float_ops \<Rightarrow> byte list \<Rightarrow> nat \<Rightarrow> 'f" where
  "q4_k_at F blk i = scaled_at F blk (nibble (blk ! (16 + 32 * (i div 64) + i mod 32)) (i div 32)) (i div 32)"

definition q5_k_at :: "'f float_ops \<Rightarrow> byte list \<Rightarrow> nat \<Rightarrow> 'f" where
  "q5_k_at F blk i =
     scaled_at F blk (nibble (blk ! (48 + 32 * (i div 64) + i mod 32)) (i div 32) OR
       push_bit 4 (drop_bit (i div 32) (blk ! (16 + i mod 32)) AND 1)) (i div 32)"

definition q6_k_at :: "'f float_ops \<Rightarrow> byte list \<Rightarrow> nat \<Rightarrow> 'f" where
  "q6_k_at F blk i =
     (let h = i div 128; k = i mod 128 div 32; l = i mod 32;
          ql = drop_bit (4 * (k div 2)) (blk ! (64 * h + 32 * (k mod 2) + l)) AND 0xF;
          qh = drop_bit (2 * k) (blk ! (128 + 32 * h + l)) AND 3
      in fo_mul F (fo_mul F (half_at F (drop 208 blk)) (fo_int F (sint (blk ! (192 + i div 16)))))
           (fo_int F (uint (ql OR push_bit 4 qh) - 32)))"

definition q4_0_at :: "'f float_ops \<Rightarrow> byte list \<Rightarrow> nat \<Rightarrow> 'f" where
  "q4_0_at F blk i =
     fo_mul F (half_at F (take 2 blk)) (fo_int F (int (unat (nibble (blk ! (2 + i mod 16)) (i div 16))) - 8))"

definition q8_0_at :: "'f float_ops \<Rightarrow> byte list \<Rightarrow> nat \<Rightarrow> 'f" where
  "q8_0_at F blk i = fo_mul F (half_at F (take 2 blk)) (fo_int F (sint (blk ! (2 + i))))"

lemma hi4_drop: "hi4 b = drop_bit 4 b"
  unfolding hi4_def by (rule byte_eqI) (simp_all add: bit_simps bit_const bit_byte_high)

lemma nibble_eq: "nibble b j = (if even j then lo4 b else hi4 b)"
  by (simp add: nibble_def hi4_drop lo4_def)

lemma nibble_rows_nth:
  assumes "length qs = k * 32"
  shows "length (nibble_rows qs) = 2 * k"
    "j < 2 * k \<Longrightarrow> nibble_rows qs ! j = map (\<lambda>b. nibble b j) (chunks 32 qs ! (j div 2))"
proof -
  note L = length_chunks [of 32 qs k, simplified, OF assms]
  let ?rs = "map (\<lambda>g. [map lo4 g, map hi4 g]) (chunks 32 qs)"
  have r: "\<forall>r \<in> set ?rs. length r = 2" by auto
  show "length (nibble_rows qs) = 2 * k" using length_concat_rows [OF r] L by (simp add: nibble_rows_def)
  show "nibble_rows qs ! j = map (\<lambda>b. nibble b j) (chunks 32 qs ! (j div 2))" if j: "j < 2 * k"
  proof -
    have "j div 2 < k" using j by simp
    moreover have "nibble_rows qs ! j = ?rs ! (j div 2) ! (j mod 2)"
      unfolding nibble_rows_def by (rule nth_concat_rows [OF r]) (use j L in simp)
    ultimately show ?thesis using L by (cases "even j") (auto simp: nibble_eq even_iff_mod_2_eq_zero odd_iff_mod_2_eq_one)
  qed
qed

lemma nibble_rows_32:
  assumes "length qs = k * 32" "j < 2 * k"
  shows "length (nibble_rows qs ! j) = 32"
  using nibble_rows_nth(2) [OF assms] length_chunks [of 32 qs k, simplified, OF assms(1)] assms(2) by simp

lemma nibble_at:
  assumes "length qs = k * 32" "i < 64 * k"
  shows "nibble_rows qs ! (i div 32) ! (i mod 32) = nibble (qs ! (i div 64 * 32 + i mod 32)) (i div 32)"
proof -
  have h: "i div 32 div 2 = i div 64" by (simp add: div_mult2_eq [symmetric])
  have j: "i div 32 < 2 * k" "i div 64 < k" "i mod 32 < 32" using assms(2) by (simp_all add: less_mult_imp_div_less)
  have "length (chunks 32 qs) = k" "length (chunks 32 qs ! (i div 64)) = 32"
    using length_chunks [of 32 qs k, simplified, OF assms(1)] j(2) by simp_all
  then have "nibble_rows qs ! (i div 32) ! (i mod 32) = nibble (chunks 32 qs ! (i div 64) ! (i mod 32)) (i div 32)"
    unfolding nibble_rows_nth(2) [OF assms(1) j(1)] h using j(3) by (simp only: nth_map)
  also have "chunks 32 qs ! (i div 64) ! (i mod 32) = qs ! (i div 64 * 32 + i mod 32)"
    by (rule nth_chunks [OF _ assms(1) j(2,3)]) simp
  finally show ?thesis .
qed

lemma scaled_rows_at:
  assumes "length blk = n" "16 \<le> n" "length rows = 8" "\<forall>r \<in> set rows. length r = 32" "i < 256"
    "unpack_scale_min (take 12 (drop 4 blk)) = (sc, m)"
  shows "length (scaled_rows F (half_at F (take 2 blk)) (half_at F (take 2 (drop 2 blk))) sc m rows) = 256"
    "scaled_rows F (half_at F (take 2 blk)) (half_at F (take 2 (drop 2 blk))) sc m rows ! i =
       scaled_at F blk (rows ! (i div 32) ! (i mod 32)) (i div 32)"
proof -
  let ?rs = "map (\<lambda>j. let dl = fo_mul F (half_at F (take 2 blk)) (fo_int F (uint (sc ! j)));
      ml = fo_mul F (half_at F (take 2 (drop 2 blk))) (fo_int F (uint (m ! j)))
    in map (\<lambda>q. fo_sub F (fo_mul F dl (fo_int F (uint q))) ml) (rows ! j)) [0..<length rows]"
  have r: "\<forall>r \<in> set ?rs. length r = 32" using assms(3,4) by (auto simp: Let_def)
  show "length (scaled_rows F (half_at F (take 2 blk)) (half_at F (take 2 (drop 2 blk))) sc m rows) = 256"
    using length_concat_rows [OF r] assms(3) by (simp add: scaled_rows_def)
  have j: "i div 32 < 8" using assms(5) by simp
  have "length (take 12 (drop 4 blk)) = 12" using assms(1,2) by simp
  then have "(sc ! (i div 32), m ! (i div 32)) = scale_min_at (take 12 (drop 4 blk)) (i div 32)"
    using scale_min_at_unpack [of "take 12 (drop 4 blk)" "i div 32"] j assms(6) by simp
  moreover have "scaled_rows F (half_at F (take 2 blk)) (half_at F (take 2 (drop 2 blk))) sc m rows ! i = ?rs ! (i div 32) ! (i mod 32)"
    unfolding scaled_rows_def by (rule nth_concat_rows [OF r]) (use assms(3,5) in simp)
  ultimately show "scaled_rows F (half_at F (take 2 blk)) (half_at F (take 2 (drop 2 blk))) sc m rows ! i =
       scaled_at F blk (rows ! (i div 32) ! (i mod 32)) (i div 32)"
    using j assms(3,4) by (simp add: scaled_at_def Let_def split: prod.split) (metis fst_conv snd_conv)
qed

lemma shifted_nth:
  assumes "0 < n" "length bs = k * n" "shifts \<noteq> []" "i < k * (length shifts * n)"
  shows "length (shifted n shifts msk bs) = k * (length shifts * n)"
    "shifted n shifts msk bs ! i =
       drop_bit (shifts ! (i mod (length shifts * n) div n)) (bs ! (i div (length shifts * n) * n + i mod n)) AND msk"
proof -
  let ?row = "\<lambda>g. concat (map (\<lambda>s. map (\<lambda>b. drop_bit s b AND msk) g) shifts)"
  let ?N = "length shifts * n" and ?cs = "chunks n bs"
  note L = length_chunks [OF assms(1,2)]
  have inner: "\<forall>r \<in> set (map (\<lambda>s. map (\<lambda>b. drop_bit s b AND msk) g) shifts). length r = n" if "length g = n" for g
    using that by auto
  have len: "length (?row g) = ?N" if "length g = n" for g using length_concat_rows [OF inner [OF that]] by simp
  have rows: "\<forall>r \<in> set (map ?row ?cs). length r = ?N" using L len by auto
  show "length (shifted n shifts msk bs) = k * (length shifts * n)"
    using length_concat_rows [OF rows] L by (simp add: shifted_def)
  have N: "0 < ?N" using assms(1,3) by simp
  have c: "i div ?N < k" using assms(4) by (simp add: less_mult_imp_div_less mult.commute)
  have g: "length (?cs ! (i div ?N)) = n" using L c by simp
  have m: "i mod ?N < ?N" using N by simp
  then have m': "i mod ?N div n < length shifts" by (simp add: less_mult_imp_div_less)
  have "shifted n shifts msk bs ! i = map ?row ?cs ! (i div ?N) ! (i mod ?N)"
    unfolding shifted_def by (rule nth_concat_rows [OF rows]) (use assms(4) L in simp)
  also have "\<dots> = ?row (?cs ! (i div ?N)) ! (i mod ?N)" using c L by simp
  also have "\<dots> = map (\<lambda>s. map (\<lambda>b. drop_bit s b AND msk) (?cs ! (i div ?N))) shifts ! (i mod ?N div n) ! (i mod ?N mod n)"
    by (rule nth_concat_rows [OF inner [OF g]]) (use m in simp)
  also have "\<dots> = drop_bit (shifts ! (i mod ?N div n)) (?cs ! (i div ?N) ! (i mod n)) AND msk"
    using m' g assms(1) by (simp add: mod_mult2_eq mult.commute [of "length shifts"])
  also have "?cs ! (i div ?N) ! (i mod n) = bs ! (i div ?N * n + i mod n)"
    by (rule nth_chunks [OF assms(1,2) c]) (use assms(1) in simp)
  finally show "shifted n shifts msk bs ! i =
       drop_bit (shifts ! (i mod ?N div n)) (bs ! (i div ?N * n + i mod n)) AND msk" .
qed

lemma deq_q4_k_at:
  assumes "length blk = 144"
  shows "deq_q4_k F blk = map (q4_k_at F blk) [0..<256]"
proof -
  let ?qs = "take 128 (drop 16 blk)"
  obtain sc m where u: "unpack_scale_min (take 12 (drop 4 blk)) = (sc, m)" by fastforce
  have q: "length ?qs = 4 * 32" using assms by simp
  note N = nibble_rows_nth [OF q] and C = length_chunks [of 32 ?qs 4, simplified, OF q [simplified]]
  have rows: "length (nibble_rows ?qs) = 8" "\<forall>r \<in> set (nibble_rows ?qs). length r = 32"
    using N(1) nibble_rows_32 [OF q] unfolding all_set_conv_all_nth by simp_all
  note S = scaled_rows_at [where F = F, OF assms _ rows _ u]
  have at: "scaled_rows F (half_at F (take 2 blk)) (half_at F (take 2 (drop 2 blk))) sc m (nibble_rows ?qs) ! i = q4_k_at F blk i" if "i < 256" for i
  proof -
    have j: "i div 64 < 4" "i mod 32 < 32" using that by simp_all
    have "nibble_rows ?qs ! (i div 32) ! (i mod 32) = nibble (?qs ! (i div 64 * 32 + i mod 32)) (i div 32)"
      by (rule nibble_at [OF q]) (use that in simp)
    moreover have "?qs ! (i div 64 * 32 + i mod 32) = blk ! (16 + 32 * (i div 64) + i mod 32)"
      using assms j by (simp add: algebra_simps)
    ultimately show ?thesis using S(2) that by (simp add: q4_k_at_def)
  qed
  have e: "deq_q4_k F blk = scaled_rows F (half_at F (take 2 blk)) (half_at F (take 2 (drop 2 blk))) sc m (nibble_rows ?qs)"
    unfolding deq_q4_k_def Let_def u prod.case ..
  have l: "length (deq_q4_k F blk) = 256" unfolding e by (rule S(1) [where i = 0]) simp_all
  show ?thesis by (rule nth_equalityI) (simp_all only: l [unfolded e] e at length_map length_upt nth_map_upt diff_zero add_0)
qed

lemma deq_q5_k_at:
  assumes "length blk = 176"
  shows "deq_q5_k F blk = map (q5_k_at F blk) [0..<256]"
proof -
  let ?qs = "take 128 (drop 48 blk)" and ?qh = "take 32 (drop 16 blk)"
  obtain sc m where u: "unpack_scale_min (take 12 (drop 4 blk)) = (sc, m)" by fastforce
  have q: "length ?qs = 4 * 32" using assms by simp
  note N = nibble_rows_nth [OF q] and C = length_chunks [of 32 ?qs 4, simplified, OF q [simplified]]
  let ?rows = "map2 (map2 (\<lambda>l h. l OR push_bit 4 h)) (nibble_rows ?qs) (high_rows ?qh)"
  have len: "length (nibble_rows ?qs ! j) = 32" if "j < 8" for j using nibble_rows_32 [OF q] that by simp
  have r: "?rows ! j = map2 (\<lambda>l h. l OR push_bit 4 h) (nibble_rows ?qs ! j) (map (\<lambda>b. drop_bit j b AND 1) ?qh)" if "j < 8" for j
    using N(1) that by (simp add: high_rows_def)
  have l8: "length ?rows = 8" using N(1) by (simp add: high_rows_def)
  have "length (?rows ! j) = 32" if "j < 8" for j unfolding r [OF that] using len [OF that] assms by simp
  then have rows: "length ?rows = 8" "\<forall>r \<in> set ?rows. length r = 32"
    using l8 unfolding all_set_conv_all_nth by simp_all
  note S = scaled_rows_at [where F = F, OF assms _ rows _ u]
  have at: "scaled_rows F (half_at F (take 2 blk)) (half_at F (take 2 (drop 2 blk))) sc m ?rows ! i = q5_k_at F blk i" if "i < 256" for i
  proof -
    have j: "i div 32 < 8" "i div 64 < 4" "i mod 32 < 32" using that by simp_all
    have "nibble_rows ?qs ! (i div 32) ! (i mod 32) = nibble (?qs ! (i div 64 * 32 + i mod 32)) (i div 32)"
      by (rule nibble_at [OF q]) (use that in simp)
    moreover have "?qs ! (i div 64 * 32 + i mod 32) = blk ! (48 + 32 * (i div 64) + i mod 32)"
      using assms j(2,3) by (simp add: algebra_simps)
    moreover have "?qh ! (i mod 32) = blk ! (16 + i mod 32)" using assms j(3) by simp
    ultimately have "?rows ! (i div 32) ! (i mod 32) = nibble (blk ! (48 + 32 * (i div 64) + i mod 32)) (i div 32) OR
        push_bit 4 (drop_bit (i div 32) (blk ! (16 + i mod 32)) AND 1)"
      unfolding r [OF j(1)] using len [OF j(1)] j(3) assms by simp
    then show ?thesis using S(2) that by (simp only: q5_k_at_def)
  qed
  have e: "deq_q5_k F blk = scaled_rows F (half_at F (take 2 blk)) (half_at F (take 2 (drop 2 blk))) sc m ?rows"
    unfolding deq_q5_k_def Let_def u prod.case ..
  have l: "length (deq_q5_k F blk) = 256" unfolding e by (rule S(1) [where i = 0]) simp_all
  show ?thesis by (rule nth_equalityI) (simp_all only: l [unfolded e] e at length_map length_upt nth_map_upt diff_zero add_0)
qed

lemma deq_q6_k_at:
  assumes "length blk = 210"
  shows "deq_q6_k F blk = map (q6_k_at F blk) [0..<256]"
proof -
  let ?ql = "shifted 64 [0, 4] 0x0F (take 128 blk)" and ?qh = "shifted 32 [0, 2, 4, 6] 3 (take 64 (drop 128 blk))"
  let ?q = "map2 (\<lambda>l h. uint (l OR push_bit 4 h) - 32) ?ql ?qh"
  let ?s = "map (\<lambda>b. fo_int F (sint b)) (take 16 (drop 192 blk))" and ?d = "half_at F (take 2 (drop 208 blk))"
  let ?rs = "map2 (\<lambda>s g. map (\<lambda>x. fo_mul F (fo_mul F ?d s) (fo_int F x)) g) ?s (chunks 16 ?q)"
  have a: "length (take 128 blk) = 2 * 64" "length (take 64 (drop 128 blk)) = 2 * 32" using assms by simp_all
  note A = shifted_nth [of 64 "take 128 blk" 2 "[0, 4]", OF _ a(1), simplified]
    and B = shifted_nth [of 32 "take 64 (drop 128 blk)" 2 "[0, 2, 4, 6]", OF _ a(2), simplified]
  have lq: "length ?q = 16 * 16" using A(1) [of 0] B(1) [of 0] by simp
  note C = length_chunks [of 16 ?q 16, simplified, OF lq [simplified]]
  have rows: "\<forall>r \<in> set ?rs. length r = 16" using C by (auto simp: set_zip)
  have lr: "length ?rs = 16" using C assms by simp
  have at: "concat ?rs ! i = q6_k_at F blk i" if i: "i < 256" for i
  proof -
    define h r where "h = i div 128" and "r = i mod 128"
    have e: "i = 128 * h + r" "h < 2" "r < 128" using i by (simp_all add: h_def r_def)
    have l: "i mod 32 = r mod 32" unfolding r_def by (simp add: mod_mod_cancel)
    have m64: "i mod 64 = 32 * (r div 32 mod 2) + r mod 32"
    proof -
      have "i mod 128 = 32 * (i div 32 mod 4) + i mod 32" "i mod 64 = 32 * (i div 32 mod 2) + i mod 32"
        using mod_mult2_eq [of i 32 4] mod_mult2_eq [of i 32 2] by simp_all
      moreover from this(1) have "r div 32 = i div 32 mod 4" unfolding r_def by simp
      ultimately show ?thesis using l by (simp add: mod_mod_cancel)
    qed
    have sh: "[0, 4] ! (r div 64) = 4 * (r div 32 div 2)" "[0, 2, 4, 6] ! (r div 32) = 2 * (r div 32)"
    proof -
      have "r div 64 \<in> {0, 1}" "r div 32 \<in> {0, 1, 2, 3}" using e(3) by auto
      then show "[0, 4] ! (r div 64) = 4 * (r div 32 div 2)" "[0, 2, 4, 6] ! (r div 32) = 2 * (r div 32)"
        using div_mult2_eq [of r 32 2] by auto
    qed
    have ql: "?ql ! i = drop_bit (4 * (r div 32 div 2)) (blk ! (64 * h + 32 * (r div 32 mod 2) + r mod 32)) AND 0xF"
      using A(2) [of i 15] i e m64 sh(1) by (simp add: h_def [symmetric] r_def [symmetric] algebra_simps)
    have qh: "?qh ! i = drop_bit (2 * (r div 32)) (blk ! (128 + 32 * h + r mod 32)) AND 3"
      using B(2) [of i 3] i e l sh(2) assms mod_less_divisor [of 32 r]
      by (simp add: h_def [symmetric] r_def [symmetric] algebra_simps)
    have c: "i div 16 < 16" using i by simp
    have "chunks 16 ?q ! (i div 16) ! (i mod 16) = ?q ! (i div 16 * 16 + i mod 16)"
      by (rule nth_chunks [OF _ lq c]) simp_all
    then have "chunks 16 ?q ! (i div 16) ! (i mod 16) = uint (?ql ! i OR push_bit 4 (?qh ! i)) - 32"
      using i A(1) [of 0] B(1) [of 0] by simp
    moreover have "concat ?rs ! i = ?rs ! (i div 16) ! (i mod 16)"
      by (rule nth_concat_rows [OF rows]) (use i lr in simp)
    moreover have "?s ! (i div 16) = fo_int F (sint (blk ! (192 + i div 16)))" using assms c by simp
    ultimately have "concat ?rs ! i = fo_mul F (fo_mul F ?d (fo_int F (sint (blk ! (192 + i div 16))))) (fo_int F (uint (?ql ! i OR push_bit 4 (?qh ! i)) - 32))"
      using c C assms by simp
    then show ?thesis unfolding ql qh q6_k_at_def Let_def l h_def r_def using assms by simp
  qed
  show ?thesis
    by (rule nth_equalityI) (use at length_concat_rows [OF rows] lr in \<open>simp_all add: deq_q6_k_def Let_def\<close>)
qed

lemma deq_q4_0_at:
  assumes "length blk = 18"
  shows "deq_q4_0 F blk = map (q4_0_at F blk) [0..<32]"
proof (rule nth_equalityI)
  fix i assume "i < length (deq_q4_0 F blk)"
  then have i: "i < 32" using assms by (simp add: deq_q4_0_def Let_def)
  show "deq_q4_0 F blk ! i = map (q4_0_at F blk) [0..<32] ! i"
  proof (cases "i < 16")
    case True
    then show ?thesis using i assms by (simp add: deq_q4_0_def q4_0_at_def Let_def nth_append nibble_eq)
  next
    case False
    then have "i div 16 = 1" "i mod 16 = i - 16" using i by (simp_all add: le_mod_geq div_nat_eqI)
    then show ?thesis using i assms False by (simp add: deq_q4_0_def q4_0_at_def Let_def nth_append nibble_eq)
  qed
qed (use assms in \<open>simp add: deq_q4_0_def Let_def\<close>)

lemma deq_q8_0_at: "length blk = 34 \<Longrightarrow> deq_q8_0 F blk = map (q8_0_at F blk) [0..<32]"
  by (rule nth_equalityI) (simp_all add: deq_q8_0_def q8_0_at_def Let_def)

text \<open>C14. Every block format computes, value by value, what the loops of the reference implementation
  compute: which nibble, which high bits, which sub-block scale and minimum.\<close>

theorem blocks_elementwise:
  "(length b1 = 18 \<longrightarrow> deq_q4_0 F b1 = map (q4_0_at F b1) [0..<32]) \<and>
   (length b2 = 34 \<longrightarrow> deq_q8_0 F b2 = map (q8_0_at F b2) [0..<32]) \<and>
   (length b3 = 144 \<longrightarrow> deq_q4_k F b3 = map (q4_k_at F b3) [0..<256]) \<and>
   (length b4 = 176 \<longrightarrow> deq_q5_k F b4 = map (q5_k_at F b4) [0..<256]) \<and>
   (length b5 = 210 \<longrightarrow> deq_q6_k F b5 = map (q6_k_at F b5) [0..<256])"
  using deq_q4_0_at deq_q8_0_at deq_q4_k_at deq_q5_k_at deq_q6_k_at by blast

section \<open>Whole tensors and single experts\<close>

lemma block_format_length:
  assumes "block_format t = Some (bs, ts, f)" "length blk = ts"
  shows "length (f F blk) = bs" "0 < ts" "0 < bs"
  using assms
  by (auto simp: block_format_def deq_f32_def deq_f16_def deq_bf16_def deq_q4_0_at deq_q8_0_at deq_q4_k_at
      deq_q5_k_at deq_q6_k_at split: if_splits)

lemma deq_flat_length:
  assumes "block_format t = Some (bs, ts, f)" "length raw = k * ts"
  shows "deq_flat F t raw = Inr (concat (map (f F) (chunks ts raw)))" "length (concat (map (f F) (chunks ts raw))) = k * bs"
proof -
  have ts: "0 < ts" using block_format_length(2) [OF assms(1), of "replicate ts 0"] by simp
  note L = length_chunks [OF ts assms(2)]
  have "\<forall>r \<in> set (map (f F) (chunks ts raw)). length r = bs" using L block_format_length(1) [OF assms(1)] by simp
  from length_concat_rows [OF this] show "length (concat (map (f F) (chunks ts raw))) = k * bs" using L by simp
  show "deq_flat F t raw = Inr (concat (map (f F) (chunks ts raw)))" using assms by (simp add: deq_flat_def)
qed

lemma chunks_append_dvd:
  assumes "0 < n" "length xs = k * n"
  shows "chunks n (xs @ ys) = chunks n xs @ chunks n ys"
  using chunks_concat [OF assms(1), of "chunks n xs" ys] length_chunks [OF assms] concat_chunks [OF assms(1), of xs] by simp

lemma chunks_concat_rows:
  "0 < n \<Longrightarrow> \<forall>r \<in> set rows. length r = k * n \<Longrightarrow> chunks n (concat rows) = concat (map (chunks n) rows)"
  by (induction rows) (simp_all add: chunks_append_dvd)

lemma concat_map_concat: "concat (map g (concat (map h rows))) = concat (map (\<lambda>r. concat (map g (h r))) rows)"
  by (induction rows) simp_all

lemma take_drop_concat_rows:
  "\<forall>r \<in> set rows. length r = n \<Longrightarrow> e < length rows \<Longrightarrow> take n (drop (e * n) (concat rows)) = rows ! e"
proof (induction rows arbitrary: e)
  case (Cons r rows)
  then show ?case by (cases e) simp_all
qed simp

lemma dequantize_eq:
  assumes "block_format t = Some (bs, ts, f)" "length raw = k * ts" "foldl (*) 1 shape \<le> k * bs"
  shows "dequantize F t raw shape = Inr (map (fo_cast F) (take (foldl (*) 1 shape) (concat (map (f F) (chunks ts raw)))))"
  using deq_flat_length [OF assms(1,2)] assms(3) by (simp add: dequantize_def Let_def)

lemma dequantize_format:
  fixes F :: "'f float_ops"
  assumes d: "dequantize F t raw shape = Inr v"
  shows "\<exists>bs ts (f :: 'f float_ops \<Rightarrow> byte list \<Rightarrow> 'f list). block_format t = Some (bs, ts, f) \<and>
         length raw mod ts = 0 \<and> foldl (*) 1 shape \<le> length raw div ts * bs \<and> length v = foldl (*) 1 shape"
proof (cases "block_format t :: (nat \<times> nat \<times> ('f float_ops \<Rightarrow> byte list \<Rightarrow> 'f list)) option")
  case None
  then show ?thesis using d by (simp add: dequantize_def deq_flat_def)
next
  case (Some x)
  then obtain bs ts f where b: "block_format t = Some (bs, ts, f :: 'f float_ops \<Rightarrow> byte list \<Rightarrow> 'f list)" by (cases x) auto
  have m: "length raw mod ts = 0" using d b by (auto simp: dequantize_def deq_flat_def split: if_splits)
  then have k: "length raw = length raw div ts * ts" by (metis div_mult_mod_eq add_0_right)
  note L = deq_flat_length [OF b k, of F]
  show ?thesis using d b m L by (auto simp: dequantize_def Let_def split: if_splits)
qed

text \<open>Dequantising a tensor. It succeeds exactly when the format is known, the bytes are whole
  blocks and the blocks hold as many values as the shape has, and then gives that many values.\<close>

theorem dequantize_total:
  fixes F :: "'f float_ops"
  shows "((\<exists>v. dequantize F t raw shape = Inr v) \<longleftrightarrow>
      (\<exists>bs ts (f :: 'f float_ops \<Rightarrow> byte list \<Rightarrow> 'f list). block_format t = Some (bs, ts, f) \<and>
         length raw mod ts = 0 \<and> foldl (*) 1 shape \<le> length raw div ts * bs)) \<and>
    (\<forall>v. dequantize F t raw shape = Inr v \<longrightarrow> length v = foldl (*) 1 shape)"
proof -
  have len: "\<forall>v. dequantize F t raw shape = Inr v \<longrightarrow> length v = foldl (*) 1 shape" using dequantize_format [of F t raw shape] by blast
  have iff: "(\<exists>v. dequantize F t raw shape = Inr v) \<longleftrightarrow>
      (\<exists>bs ts (f :: 'f float_ops \<Rightarrow> byte list \<Rightarrow> 'f list). block_format t = Some (bs, ts, f) \<and>
         length raw mod ts = 0 \<and> foldl (*) 1 shape \<le> length raw div ts * bs)"
  proof
    assume "\<exists>bs ts (f :: 'f float_ops \<Rightarrow> byte list \<Rightarrow> 'f list). block_format t = Some (bs, ts, f) \<and>
         length raw mod ts = 0 \<and> foldl (*) 1 shape \<le> length raw div ts * bs"
    then obtain bs ts f where b: "block_format t = Some (bs, ts, f :: 'f float_ops \<Rightarrow> byte list \<Rightarrow> 'f list)"
      "length raw mod ts = 0" "foldl (*) 1 shape \<le> length raw div ts * bs" by (elim exE conjE) (rule that)
    from b(2) have "length raw = length raw div ts * ts" by (metis div_mult_mod_eq add_0_right)
    from dequantize_eq [OF b(1) this b(3)] show "\<exists>v. dequantize F t raw shape = Inr v" by blast
  next
    assume "\<exists>v. dequantize F t raw shape = Inr v"
    then obtain v where "dequantize F t raw shape = Inr v" by blast
    from dequantize_format [OF this] show "\<exists>bs ts (f :: 'f float_ops \<Rightarrow> byte list \<Rightarrow> 'f list). block_format t = Some (bs, ts, f) \<and>
         length raw mod ts = 0 \<and> foldl (*) 1 shape \<le> length raw div ts * bs"
      by (elim exE conjE, intro exI conjI) assumption+
  qed
  from iff len show ?thesis by (rule conjI)
qed

lemma expert_slice:
  fixes F :: "'f float_ops" and f :: "'f float_ops \<Rightarrow> byte list \<Rightarrow> 'f list"
  assumes "block_format t = Some (bs, ts, f)" "length raw = E * (k * ts)" "e < E"
    "foldl (*) 1 shape = E * (k * bs)" "foldl (*) 1 row_shape = k * bs"
  shows "\<exists>v. dequantize F t raw shape = Inr v \<and>
    dequantize F t (row_at (k * ts) raw e) row_shape = Inr (row_at (k * bs) v e)"
proof (cases "k = 0")
  case True
  then show ?thesis using assms by (simp add: dequantize_def deq_flat_def row_at_def)
next
  case False
  have ts: "0 < ts" using block_format_length(2) [OF assms(1), of "replicate ts 0"] by simp
  then have w: "0 < k * ts" using False by simp
  define rows where "rows = chunks (k * ts) raw"
  have R: "length rows = E" "\<forall>r \<in> set rows. length r = k * ts" "concat rows = raw"
    using length_chunks [OF w assms(2)] concat_chunks [OF w] by (simp_all add: rows_def)
  define vals where "vals = map (\<lambda>r. concat (map (f F) (chunks ts r))) rows"
  have V: "length vals = E" "\<forall>v \<in> set vals. length v = k * bs"
    using R deq_flat_length(2) [OF assms(1)] by (auto simp: vals_def)
  have whole: "concat (map (f F) (chunks ts raw)) = concat vals"
    using chunks_concat_rows [OF ts R(2)] R(3) by (simp only: vals_def concat_map_concat)
  have eager: "dequantize F t raw shape = Inr (map (fo_cast F) (concat vals))"
    using dequantize_eq [OF assms(1), of raw "E * k" shape F] assms(2,4) length_concat_rows [OF V(2)] V(1)
    by (simp add: whole algebra_simps)
  have row: "row_at (k * ts) raw e = rows ! e"
    using take_drop_concat_rows [OF R(2)] R(1,3) assms(3) by (simp add: row_at_def)
  have "dequantize F t (rows ! e) row_shape = Inr (map (fo_cast F) (vals ! e))"
    using dequantize_eq [OF assms(1), of "rows ! e" k row_shape F] assms(3,5) R V by (simp add: vals_def)
  also have "vals ! e = row_at (k * bs) (concat vals) e"
    using take_drop_concat_rows [OF V(2)] V(1) assms(3) by (simp add: row_at_def)
  finally show ?thesis using eager row by (simp add: row_at_def take_map drop_map)
qed

text \<open>Lazy dequantisation. When a row holds whole blocks, dequantising the packed row of expert
  \<open>e\<close> gives exactly row \<open>e\<close> of the dequantised whole tensor.\<close>

theorem lazy_expert_slice:
  fixes F :: "'f float_ops" and f :: "'f float_ops \<Rightarrow> byte list \<Rightarrow> 'f list"
  assumes "block_format t = Some (bs, ts, f)" "length raw = E * (k * ts)" "e < E"
    "foldl (*) 1 shape = E * (k * bs)" "foldl (*) 1 row_shape = k * bs"
  shows "\<exists>v. dequantize F t raw shape = Inr v \<and>
    dequantize F t (row_at (k * ts) raw e) row_shape = Inr (row_at (k * bs) v e)"
  by (rule expert_slice [OF assms])

definition demo_ops :: "int float_ops" where
  "demo_ops = \<lparr>fo_half = uint, fo_single = uint, fo_int = (\<lambda>i. i), fo_mul = (*), fo_sub = (-), fo_cast = (\<lambda>x. x)\<rparr>"

definition demo_rows :: "byte list" where
  "demo_rows = [1, 0] @ replicate 32 5 @ [2, 0] @ replicate 32 7"

lemma scale_min_roundtrip_witness:
  "unpack_scale_min (pack_scale_min [1, 2, 3, 4, 5, 6, 7, 63] [9, 8, 7, 6, 5, 4, 3, 62]) = ([1, 2, 3, 4, 5, 6, 7, 63], [9, 8, 7, 6, 5, 4, 3, 62]) \<and>
   pack_scale_min (fst (unpack_scale_min [0, 17, 34, 51, 68, 85, 102, 119, 136, 153, 170, 255])) (snd (unpack_scale_min [0, 17, 34, 51, 68, 85, 102, 119, 136, 153, 170, 255])) = [0, 17, 34, 51, 68, 85, 102, 119, 136, 153, 170, 255]"
  by (rule conjI; rule scale_min_roundtrip [THEN conjunct1, rule_format] scale_min_roundtrip [THEN conjunct2, rule_format, THEN conjunct1]; simp)

lemma blocks_elementwise_witness:
  "deq_q8_0 demo_ops (take 34 demo_rows) = map (q8_0_at demo_ops (take 34 demo_rows)) [0..<32] \<and> q8_0_at demo_ops (take 34 demo_rows) 3 = 5"
proof
  show "deq_q8_0 demo_ops (take 34 demo_rows) = map (q8_0_at demo_ops (take 34 demo_rows)) [0..<32]"
    using blocks_elementwise [of "[]" demo_ops "take 34 demo_rows"] by (simp add: demo_rows_def)
  show "q8_0_at demo_ops (take 34 demo_rows) 3 = 5" by code_simp
qed

lemma dequantize_total_witness:
  "\<exists>v. dequantize demo_ops 8 demo_rows [8, 8] = Inr v \<and> length v = 64"
proof -
  have "\<exists>v. dequantize demo_ops 8 demo_rows [8, 8] = Inr v"
    using dequantize_total [where F = demo_ops and t = 8 and raw = demo_rows and shape = "[8, 8]", THEN conjunct1]
    by (simp add: block_format_def demo_rows_def)
  then show ?thesis using dequantize_total [where F = demo_ops and t = 8 and raw = demo_rows and shape = "[8, 8]", THEN conjunct2] by auto
qed

lemma lazy_expert_slice_witness:
  "\<exists>v. dequantize demo_ops 8 demo_rows [32, 2] = Inr v \<and>
    dequantize demo_ops 8 (row_at 34 demo_rows 1) [32] = Inr (row_at 32 v 1)"
  using lazy_expert_slice [of 8 32 34 deq_q8_0 demo_rows 2 1 1 "[32, 2]" "[32]" demo_ops]
  by (simp add: block_format_def demo_rows_def)

end
