(* ===== verification/Gguf_Weights.thy ===== *)
theory Gguf_Weights
  imports Gguf_Dequant
begin

text \<open>
  \<open>models/gguf/__init__.py\<close>: from a parsed GGUF file to the configuration, the named weights and
  the packed expert banks, and the packed banks of \<open>models/weight.py\<close> with the accessor of
  \<open>moe/offload_cache.py\<close> that dequantises them. A Python \<open>str\<close> is its UTF-8 bytes; a generator is
  the list it yields, or the exception it raises.
\<close>

section \<open>Texts\<close>

type_synonym pstr = "byte list"

definition asc :: "string \<Rightarrow> pstr" where
  "asc s = map (word_of_nat \<circ> of_char) s"

fun dec :: "nat \<Rightarrow> pstr" where
  "dec n = (if n < 10 then [word_of_nat (48 + n)] else dec (n div 10) @ [word_of_nat (48 + n mod 10)])"

declare dec.simps [simp del]

definition is_digit :: "byte \<Rightarrow> bool" where
  "is_digit b \<longleftrightarrow> 48 \<le> b \<and> b \<le> 57"

definition undec :: "pstr \<Rightarrow> nat" where
  "undec s = foldl (\<lambda>a b. a * 10 + (unat b - 48)) 0 s"

text \<open>\<open>_LAYER_RE\<close>, \<open>^blk\.(\d+)\.(.+)$\<close>: the dot does not match a newline, the end may stand before a
  final one. Digits are the ASCII ones.\<close>

definition layer_re :: "pstr \<Rightarrow> (nat \<times> pstr) option" where
  "layer_re name =
     (let rest = drop 4 name; digits = takeWhile is_digit rest; tl = dropWhile is_digit rest;
          body = takeWhile (\<lambda>b. b \<noteq> 10) (drop 1 tl); end = dropWhile (\<lambda>b. b \<noteq> 10) (drop 1 tl)
      in if take 4 name = asc ''blk.'' \<and> digits \<noteq> [] \<and> take 1 tl = asc ''.'' \<and> body \<noteq> [] \<and> (end = [] \<or> end = [10])
         then Some (undec digits, body) else None)"

section \<open>Metadata\<close>

text \<open>What \<open>str()\<close> and \<open>int()\<close> make of a value that is neither a text nor an integer is a parameter.\<close>

record py_conv =
  cv_str :: "gvalue \<Rightarrow> pstr"
  cv_int :: "gvalue \<Rightarrow> int res"

definition str_of :: "py_conv \<Rightarrow> gvalue option \<Rightarrow> pstr" where
  "str_of C v = (case v of None \<Rightarrow> asc ''None'' | Some w \<Rightarrow> (case w of VStr s \<Rightarrow> s | _ \<Rightarrow> cv_str C w))"

definition int_of :: "py_conv \<Rightarrow> gvalue \<Rightarrow> int res" where
  "int_of C v =
     (case v of VInt i \<Rightarrow> Inr i | VBool b \<Rightarrow> Inr (if b then 1 else 0) | VList _ \<Rightarrow> Inl TypeError | _ \<Rightarrow> cv_int C v)"

fun truthy :: "gvalue \<Rightarrow> bool" where
  "truthy (VInt i) = (i \<noteq> 0)"
| "truthy (VF32 w) = (push_bit 1 w \<noteq> 0)"
| "truthy (VF64 w) = (push_bit 1 w \<noteq> 0)"
| "truthy (VBool b) = b"
| "truthy (VStr s) = (s \<noteq> [])"
| "truthy (VList vs) = (vs \<noteq> [])"

type_synonym metadata = "(pstr \<times> gvalue) list"

definition arch_of :: "metadata \<Rightarrow> gvalue option" where
  "arch_of md = map_of md (asc ''general.architecture'')"

definition arch_get :: "py_conv \<Rightarrow> metadata \<Rightarrow> gvalue option \<Rightarrow> string \<Rightarrow> gvalue option" where
  "arch_get C md arch key = map_of md (str_of C arch @ asc ''.'' @ asc key)"

definition real_num_layers :: "py_conv \<Rightarrow> metadata \<Rightarrow> gvalue option \<Rightarrow> int \<Rightarrow> int res" where
  "real_num_layers C md arch block_count =
     (case arch_get C md arch ''nextn_predict_layers'' of
        None \<Rightarrow> Inr block_count
      | Some nextn \<Rightarrow> if truthy nextn then bind_res (int_of C nextn) (\<lambda>k. Inr (max 0 (block_count - k))) else Inr block_count)"

text \<open>The bound both weight generators compute first.\<close>

definition layer_bound :: "py_conv \<Rightarrow> metadata \<Rightarrow> gvalue option \<Rightarrow> int option res" where
  "layer_bound C md arch =
     (case arch_get C md arch ''block_count'' of
        None \<Rightarrow> Inr None
      | Some v \<Rightarrow> if truthy v then bind_res (int_of C v) (\<lambda>n. bind_res (real_num_layers C md arch n) (\<lambda>m. Inr (Some m)))
                  else Inr None)"

definition qwen35_archs :: "pstr list" where
  "qwen35_archs = [asc ''qwen35moe'', asc ''qwen35'', asc ''qwen3next'']"

text \<open>Looking the architecture up in a set or a dictionary: a list is not hashable.\<close>

definition is_qwen35 :: "gvalue option \<Rightarrow> bool res" where
  "is_qwen35 arch =
     (case arch of None \<Rightarrow> Inr False
      | Some v \<Rightarrow> (case v of VStr s \<Rightarrow> Inr (s \<in> set qwen35_archs) | VList _ \<Rightarrow> Inl TypeError | _ \<Rightarrow> Inr False))"

section \<open>Names\<close>

definition dense_suffix_map :: "(pstr \<times> pstr) list" where
  "dense_suffix_map = map (\<lambda>(a, b). (asc a, asc b))
    [(''attn_norm.weight'', ''input_layernorm.weight''),
     (''attn_q.weight'', ''self_attn.q_proj.weight''),
     (''attn_q_norm.weight'', ''self_attn.q_norm.weight''),
     (''attn_k.weight'', ''self_attn.k_proj.weight''),
     (''attn_k_norm.weight'', ''self_attn.k_norm.weight''),
     (''attn_v.weight'', ''self_attn.v_proj.weight''),
     (''attn_output.weight'', ''self_attn.o_proj.weight''),
     (''ffn_norm.weight'', ''post_attention_layernorm.weight''),
     (''ffn_gate_inp.weight'', ''mlp.gate.weight''),
     (''ffn_gate.weight'', ''mlp.gate_proj.weight''),
     (''ffn_up.weight'', ''mlp.up_proj.weight''),
     (''ffn_down.weight'', ''mlp.down_proj.weight'')]"

definition top_level_map :: "(pstr \<times> pstr) list" where
  "top_level_map = map (\<lambda>(a, b). (asc a, asc b))
    [(''token_embd.weight'', ''model.embed_tokens.weight''),
     (''output_norm.weight'', ''model.norm.weight''),
     (''output.weight'', ''lm_head.weight'')]"

definition qwen35_suffix_map :: "(pstr \<times> pstr) list" where
  "qwen35_suffix_map = map (\<lambda>(a, b). (asc a, asc b))
    [(''attn_norm.weight'', ''input_layernorm.weight''),
     (''post_attention_norm.weight'', ''post_attention_layernorm.weight''),
     (''ffn_gate_inp.weight'', ''mlp.gate.weight''),
     (''attn_q.weight'', ''self_attn.q_proj.weight''),
     (''attn_q_norm.weight'', ''self_attn.q_norm.weight''),
     (''attn_k.weight'', ''self_attn.k_proj.weight''),
     (''attn_k_norm.weight'', ''self_attn.k_norm.weight''),
     (''attn_v.weight'', ''self_attn.v_proj.weight''),
     (''attn_output.weight'', ''self_attn.o_proj.weight''),
     (''attn_qkv.weight'', ''linear_attn.in_proj_qkv.weight''),
     (''attn_gate.weight'', ''linear_attn.in_proj_z.weight''),
     (''ssm_alpha.weight'', ''linear_attn.in_proj_a.weight''),
     (''ssm_beta.weight'', ''linear_attn.in_proj_b.weight''),
     (''ssm_conv1d.weight'', ''linear_attn.conv1d.weight''),
     (''ssm_dt.bias'', ''linear_attn.dt_bias''),
     (''ssm_a'', ''linear_attn.A_log''),
     (''ssm_norm.weight'', ''linear_attn.norm.weight''),
     (''ssm_out.weight'', ''linear_attn.out_proj.weight''),
     (''ffn_gate_inp_shexp.weight'', ''mlp.shared_expert_gate.weight''),
     (''ffn_gate_shexp.weight'', ''mlp.shared_expert.gate_proj.weight''),
     (''ffn_up_shexp.weight'', ''mlp.shared_expert.up_proj.weight''),
     (''ffn_down_shexp.weight'', ''mlp.shared_expert.down_proj.weight'')]"

definition suffix_map :: "bool \<Rightarrow> (pstr \<times> pstr) list" where
  "suffix_map q35 = (if q35 then qwen35_suffix_map else dense_suffix_map)"

definition layer_prefix :: "nat \<Rightarrow> pstr" where
  "layer_prefix l = asc ''model.layers.'' @ dec l"

text \<open>The tensors of a file by layer, in the order of the file, without those of the layers beyond the
  bound; the others by name.\<close>

type_synonym layer_dict = "(nat \<times> (pstr \<times> tensor_info) list) list"

definition layer_put :: "nat \<Rightarrow> pstr \<Rightarrow> tensor_info \<Rightarrow> layer_dict \<Rightarrow> layer_dict" where
  "layer_put l sfx ti d = dict_put l (dict_put sfx ti (case map_of d l of None \<Rightarrow> [] | Some s \<Rightarrow> s)) d"

definition beyond :: "int option \<Rightarrow> nat \<Rightarrow> bool" where
  "beyond bound l = (case bound of None \<Rightarrow> False | Some n \<Rightarrow> n \<le> int l)"

fun group_tensors ::
  "int option \<Rightarrow> (pstr \<times> tensor_info) list \<Rightarrow> layer_dict \<times> (pstr \<times> tensor_info) list \<Rightarrow> layer_dict \<times> (pstr \<times> tensor_info) list" where
  "group_tensors bound [] acc = acc"
| "group_tensors bound ((name, ti) # ts) (by_layer, other) =
     group_tensors bound ts
       (case layer_re name of
          None \<Rightarrow> (by_layer, dict_put name ti other)
        | Some (l, sfx) \<Rightarrow> if beyond bound l then (by_layer, other) else (layer_put l sfx ti by_layer, other))"

section \<open>Tensors\<close>

record 'f tensor =
  tn_shape :: "nat list"
  tn_data :: "'f list"

text \<open>\<open>GGML_QUANT_SIZES\<close> of the reference package, and the two transforms of values, are
  parameters.\<close>

type_synonym quant_sizes = "nat \<Rightarrow> (nat \<times> nat) option"

record 'f weight_ops =
  wo_float :: "'f float_ops"
  wo_log_neg :: "'f \<Rightarrow> 'f"
  wo_minus_one :: "'f \<Rightarrow> 'f"

text \<open>\<open>seek\<close> and \<open>read\<close>: at most the bytes up to the end of the file.\<close>

definition read_at :: "byte list \<Rightarrow> int \<Rightarrow> nat \<Rightarrow> byte list res" where
  "read_at file off n = (if off < 0 then Inl OSError else Inr (take n (drop (nat off) file)))"

definition read_and_dequant :: "'f float_ops \<Rightarrow> quant_sizes \<Rightarrow> byte list \<Rightarrow> tensor_info \<Rightarrow> 'f tensor res" where
  "read_and_dequant F sizes file ti =
     (case sizes (ti_type ti) of
        None \<Rightarrow> Inl ValueError
      | Some (block_size, type_size) \<Rightarrow>
          if block_size = 0 then Inl ZeroDivisionError
          else bind_res (read_at file (ti_offset ti) (n_elements ti div block_size * type_size)) (\<lambda>raw.
            bind_res (dequantize F (ti_type ti) raw (rev (ti_shape ti))) (\<lambda>v.
              Inr \<lparr>tn_shape = rev (ti_shape ti), tn_data = v\<rparr>)))"

definition tn_map :: "('f \<Rightarrow> 'f) \<Rightarrow> 'f tensor \<Rightarrow> 'f tensor" where
  "tn_map g t = t\<lparr>tn_data := map g (tn_data t)\<rparr>"

definition unsqueeze :: "nat \<Rightarrow> 'f tensor \<Rightarrow> 'f tensor res" where
  "unsqueeze d t =
     (if length (tn_shape t) < d then Inl IndexError
      else Inr (t\<lparr>tn_shape := take d (tn_shape t) @ 1 # drop d (tn_shape t)\<rparr>))"

definition cat_dim1 :: "'f tensor \<Rightarrow> 'f tensor \<Rightarrow> 'f tensor res" where
  "cat_dim1 s t =
     (case (tn_shape s, tn_shape t) of
        (a # m # as, b # n # bs) \<Rightarrow>
          if a = b \<and> as = bs then
            Inr \<lparr>tn_shape = a # (m + n) # as,
                 tn_data = concat (map (\<lambda>e. row_at (foldl (*) 1 (m # as)) (tn_data s) e @
                   row_at (foldl (*) 1 (n # bs)) (tn_data t) e) [0..<a])\<rparr>
          else Inl RuntimeError
      | (a # m # as, _) \<Rightarrow> Inl RuntimeError
      | _ \<Rightarrow> Inl IndexError)"

definition value_transform :: "'f weight_ops \<Rightarrow> bool \<Rightarrow> pstr \<Rightarrow> 'f tensor \<Rightarrow> 'f tensor" where
  "value_transform W q35 sfx t =
     (if \<not> q35 then t else if sfx = asc ''ssm_a'' then tn_map (wo_log_neg W) t
      else if sfx \<in> set [asc ''attn_norm.weight'', asc ''post_attention_norm.weight'', asc ''attn_q_norm.weight'', asc ''attn_k_norm.weight'']
      then tn_map (wo_minus_one W) t else t)"

definition reshape :: "bool \<Rightarrow> pstr \<Rightarrow> 'f tensor \<Rightarrow> 'f tensor res" where
  "reshape q35 sfx t =
     (if \<not> q35 then Inr t else if sfx = asc ''ssm_conv1d.weight'' then unsqueeze 1 t
      else if sfx = asc ''ffn_gate_inp_shexp.weight'' then unsqueeze 0 t else Inr t)"

section \<open>The generators\<close>

text \<open>Yielding in order, up to the first exception.\<close>

fun gather :: "'a list res list \<Rightarrow> 'a list res" where
  "gather [] = Inr []"
| "gather (r # rs) = bind_res r (\<lambda>xs. bind_res (gather rs) (\<lambda>ys. Inr (xs @ ys)))"

definition gate_exps :: pstr where "gate_exps = asc ''ffn_gate_exps.weight''"
definition up_exps :: pstr where "up_exps = asc ''ffn_up_exps.weight''"
definition down_exps :: pstr where "down_exps = asc ''ffn_down_exps.weight''"

definition top_weights ::
  "'f weight_ops \<Rightarrow> quant_sizes \<Rightarrow> byte list \<Rightarrow> bool \<Rightarrow> (pstr \<times> tensor_info) list \<Rightarrow> (pstr \<times> 'f tensor) list res" where
  "top_weights W sizes file q35 other =
     gather (map (\<lambda>(g, h). case map_of other g of
         None \<Rightarrow> Inr []
       | Some ti \<Rightarrow> bind_res (read_and_dequant (wo_float W) sizes file ti) (\<lambda>t.
           Inr [(h, if q35 \<and> g = asc ''output_norm.weight'' then tn_map (wo_minus_one W) t else t)])) top_level_map)"

definition layer_dense ::
  "'f weight_ops \<Rightarrow> quant_sizes \<Rightarrow> byte list \<Rightarrow> bool \<Rightarrow> nat \<Rightarrow> (pstr \<times> tensor_info) list \<Rightarrow> (pstr \<times> 'f tensor) list res" where
  "layer_dense W sizes file q35 l sfxs =
     gather (map (\<lambda>(g, h). case map_of sfxs g of
         None \<Rightarrow> Inr []
       | Some ti \<Rightarrow> bind_res (read_and_dequant (wo_float W) sizes file ti) (\<lambda>t.
           bind_res (reshape q35 g (value_transform W q35 g t)) (\<lambda>t'.
             Inr [(layer_prefix l @ asc ''.'' @ h, t')]))) (suffix_map q35))"

definition layer_experts ::
  "'f float_ops \<Rightarrow> quant_sizes \<Rightarrow> byte list \<Rightarrow> nat \<Rightarrow> (pstr \<times> tensor_info) list \<Rightarrow> (pstr \<times> 'f tensor) list res" where
  "layer_experts F sizes file l sfxs =
     gather [
       case (map_of sfxs gate_exps, map_of sfxs up_exps) of
         (Some gate, Some up) \<Rightarrow>
           bind_res (read_and_dequant F sizes file gate) (\<lambda>g. bind_res (read_and_dequant F sizes file up) (\<lambda>u.
             bind_res (cat_dim1 g u) (\<lambda>gu. Inr [(layer_prefix l @ asc ''.mlp.experts.gate_up_proj'', gu)])))
       | _ \<Rightarrow> Inr [],
       case map_of sfxs down_exps of
         Some down \<Rightarrow> bind_res (read_and_dequant F sizes file down) (\<lambda>d.
           Inr [(layer_prefix l @ asc ''.mlp.experts.down_proj'', d)])
       | None \<Rightarrow> Inr []]"

definition iter_weights ::
  "py_conv \<Rightarrow> 'f weight_ops \<Rightarrow> quant_sizes \<Rightarrow> gguf_file \<Rightarrow> byte list \<Rightarrow> bool \<Rightarrow> bool \<Rightarrow> (pstr \<times> 'f tensor) list res" where
  "iter_weights C W sizes g file moe non_moe =
     (let md = gf_metadata g; arch = arch_of md
      in bind_res (is_qwen35 arch) (\<lambda>q35. bind_res (layer_bound C md arch) (\<lambda>bound.
        let (by_layer, other) = group_tensors bound (gf_tensors g) ([], [])
        in gather ((if non_moe then top_weights W sizes file q35 other else Inr []) #
             map (\<lambda>l. let sfxs = the (map_of by_layer l) in
               gather [if non_moe then layer_dense W sizes file q35 l sfxs else Inr [],
                       if moe then layer_experts (wo_float W) sizes file l sfxs else Inr []])
             (sort (map fst by_layer))))))"

definition expert_row_bytes :: "quant_sizes \<Rightarrow> nat \<Rightarrow> nat \<Rightarrow> nat res" where
  "expert_row_bytes sizes t n =
     (case sizes t of
        None \<Rightarrow> Inl ValueError
      | Some (block_size, type_size) \<Rightarrow>
          if block_size = 0 then Inl ZeroDivisionError
          else if n mod block_size \<noteq> 0 then Inl GGUFFormatError else Inr (n div block_size * type_size))"

datatype bank_kind = Gate | Up | Down

definition expert_wanted :: "(pstr \<times> bank_kind) list" where
  "expert_wanted = [(gate_exps, Gate), (up_exps, Up), (down_exps, Down)]"

text \<open>One packed tensor: its experts' raw rows. The last dimension equals the number of experts,
  which is then positive.\<close>

definition raw_rows :: "quant_sizes \<Rightarrow> int \<Rightarrow> byte list \<Rightarrow> tensor_info \<Rightarrow> byte list list res" where
  "raw_rows sizes num_experts file ti =
     (if ti_shape ti = [] then Inl IndexError
      else if int (last (ti_shape ti)) \<noteq> num_experts then Inl GGUFFormatError
      else let E = nat num_experts
        in bind_res (expert_row_bytes sizes (ti_type ti) (n_elements ti div E)) (\<lambda>row_bytes.
             bind_res (read_at file (ti_offset ti) (row_bytes * E)) (\<lambda>raw.
               if length raw \<noteq> row_bytes * E then Inl GGUFFormatError
               else Inr (map (row_at row_bytes raw) [0..<E]))))"

type_synonym raw_bank = "nat \<times> bank_kind \<times> byte list list \<times> nat"

definition iter_raw_banks :: "py_conv \<Rightarrow> quant_sizes \<Rightarrow> gguf_file \<Rightarrow> byte list \<Rightarrow> raw_bank list res" where
  "iter_raw_banks C sizes g file =
     (let md = gf_metadata g; arch = arch_of md
      in case arch_get C md arch ''expert_count'' of
           None \<Rightarrow> Inr []
         | Some v \<Rightarrow> if \<not> truthy v then Inr [] else
             bind_res (int_of C v) (\<lambda>E. bind_res (layer_bound C md arch) (\<lambda>bound.
               let by_layer = fst (group_tensors bound
                     (filter (\<lambda>(name, _). case layer_re name of None \<Rightarrow> False | Some (_, sfx) \<Rightarrow> sfx \<in> fst ` set expert_wanted) (gf_tensors g)) ([], []))
               in gather (map (\<lambda>l. gather (map (\<lambda>(sfx, bk).
                    case map_of (the (map_of by_layer l)) sfx of
                      None \<Rightarrow> Inr []
                    | Some ti \<Rightarrow> bind_res (raw_rows sizes E file ti) (\<lambda>rows. Inr [(l, bk, rows, ti_type ti)])) expert_wanted))
                  (sort (map fst by_layer))))))"

section \<open>Packed banks\<close>

text \<open>\<open>stream_moe_expert_sources_gguf_kquant\<close>: the banks of every layer, the rows of one bank padded
  with zero bytes to one length.\<close>

definition row_len :: "byte list list \<Rightarrow> nat" where
  "row_len rows = (case rows of [] \<Rightarrow> 0 | r # _ \<Rightarrow> length r)"

definition pad_rows :: "byte list list list \<Rightarrow> byte list list list" where
  "pad_rows banks =
     (let m = fold max (map row_len banks) 0
      in map (\<lambda>rows. map (\<lambda>r. r @ replicate (m - length r) 0) rows) banks)"

fun fold_banks ::
  "int \<Rightarrow> nat \<Rightarrow> raw_bank list \<Rightarrow> (nat \<Rightarrow> bank_kind \<Rightarrow> (byte list list \<times> nat) option) \<Rightarrow>
    (nat \<Rightarrow> bank_kind \<Rightarrow> (byte list list \<times> nat) option) res" where
  "fold_banks num_layers num_experts [] d = Inr d"
| "fold_banks num_layers num_experts ((l, bk, rows, ty) # bs) d =
     (if num_layers \<le> int l then Inl ValueError
      else if length rows \<noteq> num_experts then Inl ValueError
      else fold_banks num_layers num_experts bs (d(l := (d l)(bk := Some (rows, ty)))))"

record packed_bank =
  pb_raw_gate :: "byte list list"
  pb_type_gate :: nat
  pb_raw_up :: "byte list list"
  pb_type_up :: nat
  pb_raw_down :: "byte list list"
  pb_type_down :: nat

definition stream_kquant :: "int \<Rightarrow> nat \<Rightarrow> raw_bank list \<Rightarrow> packed_bank list res" where
  "stream_kquant num_layers num_experts raws =
     bind_res (fold_banks num_layers num_experts raws (\<lambda>_ _. None)) (\<lambda>d.
       let L = nat num_layers
       in if list_ex (\<lambda>l. d l Gate = None \<or> d l Up = None \<or> d l Down = None) [0..<L] then Inl ValueError
          else let col = (\<lambda>bk. map (\<lambda>l. the (d l bk)) [0..<L]);
                   pad = (\<lambda>bk. pad_rows (map fst (col bk)))
            in Inr (map (\<lambda>l. \<lparr>pb_raw_gate = pad Gate ! l, pb_type_gate = snd (col Gate ! l),
                 pb_raw_up = pad Up ! l, pb_type_up = snd (col Up ! l),
                 pb_raw_down = pad Down ! l, pb_type_down = snd (col Down ! l)\<rparr>) [0..<L]))"

text \<open>\<open>SlotWeightAccessor.get\<close> for \<open>gguf_kquant\<close>: a slot holds one row of each bank.\<close>

definition dequant_row :: "'f float_ops \<Rightarrow> quant_sizes \<Rightarrow> byte list \<Rightarrow> nat \<Rightarrow> nat \<Rightarrow> nat \<Rightarrow> 'f list res" where
  "dequant_row F sizes raw_row ty m n =
     bind_res (expert_row_bytes sizes ty (m * n)) (\<lambda>row_bytes. dequantize F ty (take row_bytes raw_row) [m, n])"

definition get_kquant ::
  "'f float_ops \<Rightarrow> quant_sizes \<Rightarrow> nat \<Rightarrow> nat \<Rightarrow> packed_bank \<Rightarrow> nat \<Rightarrow> ('f list \<times> 'f list \<times> 'f list) res" where
  "get_kquant F sizes H I b e =
     bind_res (dequant_row F sizes (pb_raw_gate b ! e) (pb_type_gate b) I H) (\<lambda>gate.
     bind_res (dequant_row F sizes (pb_raw_up b ! e) (pb_type_up b) I H) (\<lambda>up.
     bind_res (dequant_row F sizes (pb_raw_down b ! e) (pb_type_down b) H I) (\<lambda>down.
       Inr (gate, up, down))))"

section \<open>Configuration\<close>

definition dense_keys :: "(string \<times> string) list" where
  "dense_keys =
    [(''vocab_size'', ''vocab_size''), (''context_length'', ''max_position_embeddings''),
     (''embedding_length'', ''hidden_size''), (''block_count'', ''num_layers''),
     (''feed_forward_length'', ''intermediate_size''), (''leading_dense_block_count'', ''first_k_dense_replace'')]"

definition attention_keys :: "(string \<times> string) list" where
  "attention_keys =
    [(''attention.head_count'', ''num_attention_heads''), (''attention.head_count_kv'', ''num_key_value_heads''),
     (''attention.key_length'', ''head_dim'')]"

definition moe_keys :: "(string \<times> string) list" where
  "moe_keys =
    [(''expert_count'', ''num_experts''), (''expert_used_count'', ''num_experts_per_tok''),
     (''expert_feed_forward_length'', ''moe_intermediate_size'')]"

fun apply_key_map ::
  "py_conv \<Rightarrow> metadata \<Rightarrow> gvalue option \<Rightarrow> (string \<times> string) list \<Rightarrow> (string \<times> gvalue) list \<Rightarrow> (string \<times> gvalue) list" where
  "apply_key_map C md arch [] cfg = cfg"
| "apply_key_map C md arch ((key, field) # ks) cfg =
     apply_key_map C md arch ks (case arch_get C md arch key of None \<Rightarrow> cfg | Some v \<Rightarrow> dict_put field v cfg)"

datatype layer_kind = Full_attention | Linear_attention

definition tensor_name :: "nat \<Rightarrow> string \<Rightarrow> pstr" where
  "tensor_name l sfx = asc ''blk.'' @ dec l @ asc ''.'' @ asc sfx"

fun layer_types :: "pstr set \<Rightarrow> nat list \<Rightarrow> layer_kind list option" where
  "layer_types names [] = Some []"
| "layer_types names (l # ls) =
     (if tensor_name l ''attn_qkv.weight'' \<in> names then map_option ((#) Linear_attention) (layer_types names ls)
      else if tensor_name l ''attn_q.weight'' \<in> names then map_option ((#) Full_attention) (layer_types names ls)
      else None)"

text \<open>The configuration: the fields set from the metadata, the number of layers, of layers with
  experts, and the kinds of the layers. The metadata without a file has no tensor names.\<close>

record gguf_config =
  gc_name :: pstr
  gc_fields :: "(string \<times> gvalue) list"
  gc_layers :: "int option"
  gc_is_moe :: bool
  gc_moe_layers :: "int option"
  gc_value_head_dim :: "int option"
  gc_layer_types :: "layer_kind list option"

definition value_head_dim :: "py_conv \<Rightarrow> metadata \<Rightarrow> gvalue option \<Rightarrow> int option res" where
  "value_head_dim C md arch =
     (case (arch_get C md arch ''ssm.inner_size'', arch_get C md arch ''ssm.time_step_rank'') of
        (Some n, Some k) \<Rightarrow>
          if truthy n \<and> truthy k then
            bind_res (as_int n) (\<lambda>a. bind_res (as_int k) (\<lambda>b. bind_res (py_floordiv a b) (\<lambda>q. Inr (Some q))))
          else Inr None
      | _ \<Rightarrow> Inr None)"

definition parse_config :: "py_conv \<Rightarrow> metadata \<Rightarrow> pstr set option \<Rightarrow> gguf_config res" where
  "parse_config C md names =
     (case arch_of md of
        None \<Rightarrow> Inl GGUFFormatError
      | Some a \<Rightarrow> if \<not> truthy a then Inl GGUFFormatError else
          let arch = Some a;
              name = (case map_of md (asc ''general.name'') of None \<Rightarrow> a | Some v \<Rightarrow> if truthy v then v else a);
              f1 = apply_key_map C md arch attention_keys (apply_key_map C md arch dense_keys [])
          in bind_res (case map_of f1 ''num_layers'' of None \<Rightarrow> Inr None
               | Some v \<Rightarrow> bind_res (int_of C v) (\<lambda>n. bind_res (real_num_layers C md arch n) (\<lambda>m. Inr (Some m)))) (\<lambda>layers.
          let f2 = (case map_of f1 ''vocab_size'' of Some _ \<Rightarrow> f1
               | None \<Rightarrow> (case map_of md (asc ''tokenizer.ggml.tokens'') of
                   Some (VList ts) \<Rightarrow> if ts = [] then f1 else dict_put ''vocab_size'' (VInt (int (length ts))) f1
                 | _ \<Rightarrow> f1));
              moe = (case arch_get C md arch ''expert_count'' of None \<Rightarrow> False | Some v \<Rightarrow> truthy v);
              f3 = (if moe then apply_key_map C md arch moe_keys f2 else f2)
          in bind_res (if \<not> moe then Inr None else case layers of None \<Rightarrow> Inr None
               | Some n \<Rightarrow> if n = 0 then Inr None else
                   bind_res (as_int (case map_of f3 ''first_k_dense_replace'' of None \<Rightarrow> VInt 0 | Some v \<Rightarrow> v)) (\<lambda>k. Inr (Some (n - k)))) (\<lambda>moe_layers.
             bind_res (is_qwen35 arch) (\<lambda>q35. bind_res (if q35 then value_head_dim C md arch else Inr None) (\<lambda>vhd.
               Inr \<lparr>gc_name = str_of C (Some name), gc_fields = f3, gc_layers = layers, gc_is_moe = moe, gc_moe_layers = moe_layers,
                  gc_value_head_dim = vhd,
                  gc_layer_types = (case (q35, names) of
                     (True, Some ns) \<Rightarrow> layer_types ns [0..<nat (case layers of None \<Rightarrow> 0 | Some n \<Rightarrow> n)]
                   | _ \<Rightarrow> None)\<rparr>)))))"

end
