(* ===== verification/Gguf_Laws.thy ===== *)
theory Gguf_Laws
  imports Gguf_Reader
begin

text \<open>
  The GGUF reader accepts exactly the files that encode a header, reads every header back, types
  every metadata value and reports a truncated header with its own error.
\<close>

section \<open>Codecs of the fields\<close>

lemma codec_fail: "codec (fail_with err) e v (\<lambda>_. False)"
  by unfold_locales (auto simp: fail_with_def)

lemma codec_if: "codec p e v k \<Longrightarrow> codec (if c then p else fail_with err) e v (\<lambda>a. c \<and> k a)"
  using codec_fail [of err e v] by (cases c) simp_all

lemma codec_exact: "codec (read_exact n) (\<lambda>s. s) (\<lambda>s. s) (\<lambda>s. length s = n \<and> n < 2 ^ 63)"
proof
  show "read_exact n bs = Inr (v, rest) \<Longrightarrow> \<exists>a. (length a = n \<and> n < 2 ^ 63) \<and> v = a \<and> bs = a @ rest" for bs v rest
    by (rule exI [of _ "take n bs"]) (auto simp: read_exact_def split: if_splits)
  show "length a = n \<and> n < 2 ^ 63 \<Longrightarrow> strict_prefix bs a \<Longrightarrow> read_exact n bs = Inl GGUFFormatError" for a bs
    using prefix_length_less by (fastforce simp: read_exact_def)
qed (simp add: read_exact_def)

lemma codec_le: "k < 2 ^ 63 \<Longrightarrow> codec (read_le k) (le_bytes k) (\<lambda>n. n) (\<lambda>n. n < 256 ^ k)"
proof -
  assume k: "k < 2 ^ 63"
  have "codec (read_le k) (\<lambda>(bs, _::unit). bs @ []) (\<lambda>(bs, _). le_num bs) (\<lambda>(bs, _). (length bs = k \<and> k < 2 ^ 63) \<and> True)"
    unfolding read_le_def by (rule codec_then [OF codec_exact codec_give])
  then show ?thesis
    by (rule codec_change [where f = "\<lambda>n. (le_bytes k n, ())" and g = "\<lambda>(bs, _). le_num bs"])
      (use k le_num_less in auto)
qed

lemma codec_string: "codec read_string enc_str (\<lambda>s. s) str_ok"
proof -
  have "codec read_string (\<lambda>(n, b). le_bytes 8 n @ (case b of (s, _::unit) \<Rightarrow> s @ [])) (\<lambda>(n, b). case b of (s, _) \<Rightarrow> s)
      (\<lambda>(n, b). n < 256 ^ 8 \<and> (case b of (s, _) \<Rightarrow> (length s = n \<and> n < 2 ^ 63) \<and> utf8_valid s \<and> True))"
    unfolding read_string_def
    by (intro codec_then [OF codec_le] codec_then [OF codec_exact] codec_if codec_give) simp
  then show ?thesis
    by (rule codec_change [where f = "\<lambda>s. (length s, (s, ()))" and g = "\<lambda>(n, (s, _)). s"]) (auto simp: str_ok_def enc_str_def)
qed

lemma codec_value: "codec (read_value k t) enc_tval meaning (tval_ok k t)"
proof (induction k arbitrary: t)
  case 0
  show ?case by (simp add: codec_fail)
next
  case (Suc k)
  consider "t = 8" | "t = 9" | "t \<noteq> 8" "t \<noteq> 9" by blast
  then show ?case
  proof cases
    case 1
    have "codec (read_value (Suc k) t) (\<lambda>(s, _::unit). enc_str s @ []) (\<lambda>(s, _). VStr s) (\<lambda>(s, _). str_ok s \<and> True)"
      using codec_then [OF codec_string codec_give, of VStr] 1 by simp
    then show ?thesis
    proof (rule codec_change [where f = "\<lambda>v. case v of TText s \<Rightarrow> (s, ()) | _ \<Rightarrow> ([], ())" and g = "\<lambda>(s, _). TText s"], goal_cases)
      case (1 v)
      then show ?case using \<open>t = 8\<close> by (cases v) (auto simp: scalar_fmt_def split: if_splits)
    next
      case (2 a)
      then show ?case using \<open>t = 8\<close> by (cases a) simp
    qed
  next
    case 2
    have "codec (read_value (Suc k) t)
      (\<lambda>(et, b). le_bytes 4 et @ (case b of (n, c) \<Rightarrow> le_bytes 8 n @ (case c of (vs, _::unit) \<Rightarrow> concat (map enc_tval vs) @ [])))
      (\<lambda>(et, b). case b of (n, c) \<Rightarrow> case c of (vs, _) \<Rightarrow> VList (map meaning vs))
      (\<lambda>(et, b). et < 256 ^ 4 \<and> (case b of (n, c) \<Rightarrow> n < 256 ^ 8 \<and>
        (case c of (vs, _) \<Rightarrow> (length vs = n \<and> (\<forall>v \<in> set vs. tval_ok k et v)) \<and> True)))"
    proof -
      have eq: "read_value (Suc k) t = then_read (read_le 4) (\<lambda>et. then_read (read_le 8) (\<lambda>n.
          then_read (read_many (read_value k et) n) (\<lambda>vs. give (VList vs))))" using 2 by simp
      show ?thesis unfolding eq
        by (intro codec_then [OF codec_le] codec_then [OF codec_many [OF Suc]] codec_give) simp_all
    qed
    then show ?thesis
    proof (rule codec_change [where f = "\<lambda>v. case v of TArray et vs \<Rightarrow> (et, (length vs, (vs, ()))) | _ \<Rightarrow> (0, (0, ([], ())))"
          and g = "\<lambda>(et, (n, (vs, _))). TArray et vs"], goal_cases)
      case (1 v)
      then show ?case using \<open>t = 9\<close> by (cases v) (auto simp: scalar_fmt_def split: if_splits)
    next
      case (2 a)
      then show ?case using \<open>t = 9\<close> by (cases a) auto
    qed
  next
    case 3
    show ?thesis
    proof (cases "scalar_fmt t")
      case None
      have "\<not> tval_ok (Suc k) t v" for v using 3 None by (cases v) auto
      then have "tval_ok (Suc k) t = (\<lambda>_. False)" by auto
      then show ?thesis using 3 None by (simp add: codec_fail)
    next
      case (Some q)
      obtain kd sz where q: "q = (kd, sz)" by (cases q)
      have sz: "sz < 2 ^ 63" using Some q by (auto simp: scalar_fmt_def split: if_splits)
      have "codec (read_value (Suc k) t) (\<lambda>(n, _::unit). le_bytes sz n @ []) (\<lambda>(n, _). scalar_value kd sz n) (\<lambda>(n, _). n < 256 ^ sz \<and> True)"
        using codec_then [OF codec_le [OF sz] codec_give, of "scalar_value kd sz"] 3 Some q by simp
      then show ?thesis
      proof (rule codec_change [where f = "\<lambda>v. case v of TScalar c n \<Rightarrow> (n, ()) | _ \<Rightarrow> (0, ())" and g = "\<lambda>(n, _). TScalar t n"], goal_cases)
        case (1 v)
        then show ?case using 3 Some q by (cases v) auto
      next
        case (2 a)
        then show ?case using 3 Some q by (cases a) auto
      qed
    qed
  qed
qed


section \<open>Codec of the header\<close>

type_synonym spec_header = "nat \<times> (byte list \<times> nat \<times> tval) list \<times> raw_tensor list"

definition enc_kv :: "byte list \<times> nat \<times> tval \<Rightarrow> byte list" where
  "enc_kv e = (case e of (key, t, v) \<Rightarrow> enc_str key @ le_bytes 4 t @ enc_tval v)"

definition kv_meaning :: "byte list \<times> nat \<times> tval \<Rightarrow> byte list \<times> gvalue" where
  "kv_meaning e = (case e of (key, t, v) \<Rightarrow> (key, meaning v))"

definition kv_ok :: "nat \<Rightarrow> byte list \<times> nat \<times> tval \<Rightarrow> bool" where
  "kv_ok depth e \<longleftrightarrow> (case e of (key, t, v) \<Rightarrow> str_ok key \<and> t < 256 ^ 4 \<and> tval_ok depth t v)"

definition enc_tensor :: "raw_tensor \<Rightarrow> byte list" where
  "enc_tensor e = (case e of (name, shape, ty, off) \<Rightarrow>
     enc_str name @ le_bytes 4 (length shape) @ concat (map (le_bytes 8) shape) @ le_bytes 4 ty @ le_bytes 8 off)"

definition tensor_ok :: "raw_tensor \<Rightarrow> bool" where
  "tensor_ok e \<longleftrightarrow> (case e of (name, shape, ty, off) \<Rightarrow>
     str_ok name \<and> length shape < 256 ^ 4 \<and> (\<forall>d \<in> set shape. d < 256 ^ 8) \<and> ty < 256 ^ 4 \<and> off < 256 ^ 8)"

definition enc_header :: "spec_header \<Rightarrow> byte list" where
  "enc_header h = (case h of (version, kvs, ts) \<Rightarrow>
     gguf_magic @ le_bytes 4 version @ le_bytes (count_width version) (length ts) @ le_bytes (count_width version) (length kvs)
       @ concat (map enc_kv kvs) @ concat (map enc_tensor ts))"

definition header_meaning :: "spec_header \<Rightarrow> raw_header" where
  "header_meaning h = (case h of (version, kvs, ts) \<Rightarrow> (version, map kv_meaning kvs, ts))"

definition header_ok :: "nat \<Rightarrow> spec_header \<Rightarrow> bool" where
  "header_ok depth h \<longleftrightarrow> (case h of (version, kvs, ts) \<Rightarrow>
     version < 256 ^ 4 \<and> length ts < 256 ^ count_width version \<and> length kvs < 256 ^ count_width version \<and>
     (\<forall>e \<in> set kvs. kv_ok depth e) \<and> (\<forall>e \<in> set ts. tensor_ok e))"

lemma codec_kv: "codec (read_item depth) enc_kv kv_meaning (kv_ok depth)"
proof -
  have "codec (read_item depth) (\<lambda>(key, b). enc_str key @ (case b of (t, c) \<Rightarrow> le_bytes 4 t @ (case c of (v, _::unit) \<Rightarrow> enc_tval v @ [])))
     (\<lambda>(key, b). case b of (t, c) \<Rightarrow> case c of (v, _) \<Rightarrow> (key, meaning v))
     (\<lambda>(key, b). str_ok key \<and> (case b of (t, c) \<Rightarrow> t < 256 ^ 4 \<and> (case c of (v, _) \<Rightarrow> tval_ok depth t v \<and> True)))"
    unfolding read_item_def by (intro codec_then [OF codec_string] codec_then [OF codec_le] codec_then [OF codec_value] codec_give) simp
  then show ?thesis
    by (rule codec_change [where f = "\<lambda>(key, t, v). (key, (t, (v, ())))" and g = "\<lambda>(key, (t, (v, _))). (key, t, v)"])
      (auto simp: enc_kv_def kv_meaning_def kv_ok_def)
qed

lemma codec_tensor: "codec read_tensor enc_tensor (\<lambda>e. e) tensor_ok"
proof -
  have "codec read_tensor
     (\<lambda>(name, b). enc_str name @ (case b of (nd, c) \<Rightarrow> le_bytes 4 nd @ (case c of (shape, d) \<Rightarrow> concat (map (le_bytes 8) shape) @
        (case d of (ty, e) \<Rightarrow> le_bytes 4 ty @ (case e of (off, _::unit) \<Rightarrow> le_bytes 8 off @ [])))))
     (\<lambda>(name, b). case b of (nd, c) \<Rightarrow> case c of (shape, d) \<Rightarrow> case d of (ty, e) \<Rightarrow> case e of (off, _) \<Rightarrow> (name, map (\<lambda>n. n) shape, ty, off))
     (\<lambda>(name, b). str_ok name \<and> (case b of (nd, c) \<Rightarrow> nd < 256 ^ 4 \<and> (case c of (shape, d) \<Rightarrow>
        (length shape = nd \<and> (\<forall>n \<in> set shape. n < 256 ^ 8)) \<and> (case d of (ty, e) \<Rightarrow> ty < 256 ^ 4 \<and> (case e of (off, _) \<Rightarrow> off < 256 ^ 8 \<and> True)))))"
    unfolding read_tensor_def
    by (intro codec_then [OF codec_string] codec_then [OF codec_le] codec_then [OF codec_many [OF codec_le]] codec_give) simp_all
  then show ?thesis
    by (rule codec_change [where f = "\<lambda>(name, shape, ty, off). (name, (length shape, (shape, (ty, (off, ())))))"
        and g = "\<lambda>(name, (nd, (shape, (ty, (off, _))))). (name, shape, ty, off)"])
      (auto simp: enc_tensor_def tensor_ok_def)
qed

lemma codec_counts:
  "codec (read_counts depth version tc kc) (\<lambda>(kvs, ts). concat (map enc_kv kvs) @ concat (map enc_tensor ts))
     (\<lambda>(kvs, ts). (version, map kv_meaning kvs, ts))
     (\<lambda>(kvs, ts). (length kvs = kc \<and> (\<forall>e \<in> set kvs. kv_ok depth e)) \<and> (length ts = tc \<and> (\<forall>e \<in> set ts. tensor_ok e)))"
proof -
  have "codec (read_counts depth version tc kc)
     (\<lambda>(kvs, b). concat (map enc_kv kvs) @ (case b of (ts, _::unit) \<Rightarrow> concat (map enc_tensor ts) @ []))
     (\<lambda>(kvs, b). case b of (ts, _) \<Rightarrow> (version, map kv_meaning kvs, map (\<lambda>e. e) ts))
     (\<lambda>(kvs, b). (length kvs = kc \<and> (\<forall>e \<in> set kvs. kv_ok depth e)) \<and> (case b of (ts, _) \<Rightarrow> (length ts = tc \<and> (\<forall>e \<in> set ts. tensor_ok e)) \<and> True))"
    unfolding read_counts_def
    by (intro codec_then [OF codec_many [OF codec_kv]] codec_then [OF codec_many [OF codec_tensor]] codec_give)
  then show ?thesis
    by (rule codec_change [where f = "\<lambda>(kvs, ts). (kvs, (ts, ()))" and g = "\<lambda>(kvs, (ts, _)). (kvs, ts)"]) auto
qed

interpretation gguf: codec "read_header depth" enc_header header_meaning "header_ok depth" for depth
proof -
  have 1: "codec (read_header depth)
     (\<lambda>(m, b). m @ (case b of (version, c) \<Rightarrow> le_bytes 4 version @ (case c of (tc, d) \<Rightarrow> le_bytes (count_width version) tc @
        (case d of (kc, kts) \<Rightarrow> le_bytes (count_width version) kc @ (case kts of (kvs, ts) \<Rightarrow> concat (map enc_kv kvs) @ concat (map enc_tensor ts))))))
     (\<lambda>(m, b). case b of (version, c) \<Rightarrow> case c of (tc, d) \<Rightarrow> case d of (kc, kts) \<Rightarrow> case kts of (kvs, ts) \<Rightarrow> (version, map kv_meaning kvs, ts))
     (\<lambda>(m, b). (length m = 4 \<and> (4::nat) < 2 ^ 63) \<and> (m = gguf_magic \<and> (case b of (version, c) \<Rightarrow> version < 256 ^ 4 \<and>
        (case c of (tc, d) \<Rightarrow> tc < 256 ^ count_width version \<and> (case d of (kc, kts) \<Rightarrow> kc < 256 ^ count_width version \<and>
          (case kts of (kvs, ts) \<Rightarrow> (length kvs = kc \<and> (\<forall>e \<in> set kvs. kv_ok depth e)) \<and> (length ts = tc \<and> (\<forall>e \<in> set ts. tensor_ok e))))))))"
  proof -
    have eq: "read_header depth = then_read (read_exact 4) (\<lambda>magic. if magic = gguf_magic then
        then_read (read_le 4) (\<lambda>version. then_read (read_le (count_width version)) (\<lambda>tc.
          then_read (read_le (count_width version)) (\<lambda>kc. read_counts depth version tc kc))) else fail_with GGUFFormatError)"
      by (auto simp: read_header_def fun_eq_iff then_read_def intro!: arg_cong [of _ _ "bind_res _"])
    show ?thesis unfolding eq
      by (intro codec_then [OF codec_exact] codec_if codec_then [OF codec_le] codec_counts) (simp_all add: count_width_def)
  qed
  then show "codec (read_header depth) enc_header header_meaning (header_ok depth)"
    by (rule codec_change [where f = "\<lambda>(version, kvs, ts). (gguf_magic, (version, (length ts, (length kvs, (kvs, ts)))))"
          and g = "\<lambda>(m, (version, (tc, (kc, (kvs, ts))))). (version, kvs, ts)"])
      (auto simp: enc_header_def header_meaning_def header_ok_def gguf_magic_def)
qed


section \<open>The parsed file\<close>

definition describe :: "spec_header \<Rightarrow> gguf_file res" where
  "describe h = (case h of (version, kvs, ts) \<Rightarrow>
     let metadata = dict_of (map kv_meaning kvs)
     in bind_res (as_int (case map_of metadata alignment_key of None \<Rightarrow> VInt 32 | Some v \<Rightarrow> v)) (\<lambda>alignment.
        bind_res (data_start (length (enc_header h)) alignment) (\<lambda>start.
          Inr \<lparr>gf_version = version, gf_metadata = metadata, gf_tensors = resolve_tensors start ts, gf_data_start = start\<rparr>)))"

lemma load_header: "header_ok depth h \<Longrightarrow> load_gguf depth (enc_header h @ data) = describe h"
  by (simp add: load_gguf_def gguf.exact describe_def header_meaning_def split: prod.splits)

lemma load_sound:
  assumes "load_gguf depth file = Inr g"
  obtains h data where "header_ok depth h" "file = enc_header h @ data" "describe h = Inr g"
proof -
  obtain raw rest where r: "read_header depth file = Inr (raw, rest)"
    using assms by (auto simp: load_gguf_def bind_res_Inr)
  then obtain h where h: "header_ok depth h" "file = enc_header h @ rest" using gguf.sound [OF r] by blast
  then show ?thesis using that load_header [OF h(1), of rest] assms by simp
qed

text \<open>C13. Round trip. A file that starts with the encoding of a header is read as that header,
  whatever follows, and a file that is read starts with the encoding of the header it is read as:
  the reader accepts the format and nothing else.\<close>

theorem gguf_roundtrip:
  "(\<forall>h data. header_ok depth h \<longrightarrow> load_gguf depth (enc_header h @ data) = describe h) \<and>
   (\<forall>file g. load_gguf depth file = Inr g \<longrightarrow>
      (\<exists>h data. header_ok depth h \<and> file = enc_header h @ data \<and> describe h = Inr g))"
  using load_header by (metis load_sound)

text \<open>A truncated header, cut at any byte, is reported as a format error.\<close>

theorem gguf_truncated:
  assumes "header_ok depth h" "strict_prefix file (enc_header h)"
  shows "load_gguf depth file = Inl GGUFFormatError"
  using gguf.cut [OF assms] by (simp add: load_gguf_def)

section \<open>Types of the metadata\<close>

text \<open>What a value stored with type code \<open>t\<close> can be.\<close>

fun value_typed :: "nat \<Rightarrow> gvalue \<Rightarrow> bool" where
  "value_typed t (VInt i) = (case scalar_fmt t of Some (Unsigned, sz) \<Rightarrow> 0 \<le> i \<and> i < 256 ^ sz
      | Some (Signed, sz) \<Rightarrow> - (256 ^ sz) \<le> 2 * i \<and> 2 * i < 256 ^ sz | _ \<Rightarrow> False)"
| "value_typed t (VF32 w) = (t = 6)"
| "value_typed t (VF64 w) = (t = 12)"
| "value_typed t (VBool b) = (t = 7)"
| "value_typed t (VStr s) = (t = 8 \<and> utf8_valid s)"
| "value_typed t (VList vs) = (t = 9 \<and> (\<exists>et. \<forall>v \<in> set vs. value_typed et v))"

lemma signed_num_bounds: "n < 256 ^ sz \<Longrightarrow> - (256 ^ sz) \<le> 2 * signed_num sz n \<and> 2 * signed_num sz n < 256 ^ sz"
proof -
  assume n: "n < 256 ^ sz"
  have lt: "int n < (256 :: int) ^ sz" using n by (metis of_nat_less_iff of_nat_numeral of_nat_power)
  have c: "256 ^ sz \<le> 2 * n \<longleftrightarrow> (256 :: int) ^ sz \<le> 2 * int n"
    by (metis of_nat_le_iff of_nat_mult of_nat_numeral of_nat_power)
  show ?thesis
  proof (cases "(256 :: int) ^ sz \<le> 2 * int n")
    case True
    then have "signed_num sz n = int n - 256 ^ sz" using c by (simp only: signed_num_def if_True)
    then show ?thesis using lt True by linarith
  next
    case False
    then have "signed_num sz n = int n" using c by (simp only: signed_num_def if_False)
    then show ?thesis using lt False by linarith
  qed
qed

lemma meaning_typed: "tval_ok k t v \<Longrightarrow> value_typed t (meaning v)"
proof (induction k t v rule: tval_ok.induct)
  case (2 k t c n)
  then obtain kd sz where s: "scalar_fmt t = Some (kd, sz)" "n < 256 ^ sz" "c = t" by (auto split: option.splits)
  have "int n < 256 ^ sz" using s(2) by (metis of_nat_less_iff of_nat_numeral of_nat_power)
  then show ?case using s signed_num_bounds [OF s(2)]
    by (cases kd) (auto simp: scalar_value_def scalar_fmt_def split: if_splits)
next
  case (4 k t et vs)
  then show ?case by (auto intro!: exI [of _ et])
qed (auto simp: str_ok_def)

lemma dict_put_set: "set (dict_put k v d) \<subseteq> insert (k, v) (set d)"
  by (induction d) (auto split: if_splits)

lemma dict_put_keys: "fst ` set (dict_put k v d) = insert k (fst ` set d)"
proof (induction d)
  case (Cons e d)
  then show ?case by (cases e) (auto simp: insert_commute)
qed simp

lemma dict_put_distinct: "distinct (map fst d) \<Longrightarrow> distinct (map fst (dict_put k v d))"
proof (induction d)
  case (Cons e d)
  then show ?case using dict_put_keys [of k v d] by (cases e) auto
qed simp

lemma dict_of_props: "set (dict_of items) \<subseteq> set items" "fst ` set (dict_of items) = fst ` set items" "distinct (map fst (dict_of items))"
proof -
  have "set (foldl (\<lambda>d (k, v). dict_put k v d) d items) \<subseteq> set d \<union> set items \<and>
      fst ` set (foldl (\<lambda>d (k, v). dict_put k v d) d items) = fst ` set d \<union> fst ` set items \<and>
      (distinct (map fst d) \<longrightarrow> distinct (map fst (foldl (\<lambda>d (k, v). dict_put k v d) d items)))" for d
  proof (induction items arbitrary: d)
    case (Cons kv items)
    obtain k v where kv: "kv = (k, v)" by (cases kv)
    show ?case using Cons [of "dict_put k v d"] dict_put_set [where k = k and v = v and d = d] dict_put_keys [where k = k and v = v and d = d]
        dict_put_distinct [where k = k and v = v and d = d] kv by auto
  qed simp
  from this [of "[]"] show "set (dict_of items) \<subseteq> set items" "fst ` set (dict_of items) = fst ` set items" "distinct (map fst (dict_of items))"
    by (auto simp: dict_of_def)
qed


text \<open>Layout. With a positive alignment the data section starts at the first multiple of it at
  or after the end of the header, and every tensor is listed once, under its own name, at an
  offset inside the data section.\<close>

theorem gguf_layout:
  assumes "header_ok depth h" "load_gguf depth (enc_header h @ data) = Inr g"
    and "as_int (case map_of (gf_metadata g) alignment_key of None \<Rightarrow> VInt 32 | Some v \<Rightarrow> v) = Inr al" "0 < al"
  shows "al dvd gf_data_start g \<and> int (length (enc_header h)) \<le> gf_data_start g \<and> gf_data_start g < int (length (enc_header h)) + al \<and>
    distinct (map fst (gf_tensors g)) \<and> (\<forall>(name, ti) \<in> set (gf_tensors g). ti_name ti = name \<and> gf_data_start g \<le> ti_offset ti)"
proof -
  obtain version kvs ts where e: "h = (version, kvs, ts)" by (cases h)
  let ?n = "int (length (enc_header h))"
  have d: "describe h = Inr g" using assms(2) load_header [OF assms(1)] by simp
  then have m: "gf_metadata g = dict_of (map kv_meaning kvs)" by (auto simp: describe_def e bind_res_Inr Let_def)
  have st: "data_start (length (enc_header h)) al = Inr (gf_data_start g)" "gf_tensors g = resolve_tensors (gf_data_start g) ts"
    using d assms(3) unfolding m by (auto simp: describe_def e bind_res_Inr Let_def)
  have s: "gf_data_start g = (?n + al - 1) div al * al" using st(1) assms(4) by (auto simp: data_start_def py_floordiv_def bind_res_def)
  have "(?n + al - 1) div al * al = ?n + al - 1 - (?n + al - 1) mod al" by (simp add: minus_mod_eq_div_mult [symmetric])
  moreover have "0 \<le> (?n + al - 1) mod al" "(?n + al - 1) mod al < al" using assms(4) by simp_all
  ultimately have "?n \<le> gf_data_start g" "gf_data_start g < ?n + al" using s by linarith+
  moreover have "al dvd gf_data_start g" by (simp add: s)
  moreover have "ti_name ti = name \<and> gf_data_start g \<le> ti_offset ti" if "(name, ti) \<in> set (gf_tensors g)" for name ti
  proof -
    have "(name, ti) \<in> set (map (\<lambda>(name, shape, ty, off).
       (name, \<lparr>ti_name = name, ti_shape = shape, ti_type = ty, ti_offset = gf_data_start g + int off\<rparr>)) ts)"
      using that dict_of_props(1) unfolding st(2) resolve_tensors_def by blast
    then show ?thesis by auto
  qed
  ultimately show ?thesis using dict_of_props(3) by (auto simp: st(2) resolve_tensors_def)
qed

section \<open>A small file\<close>

definition demo_header :: spec_header where
  "demo_header = (3, [([0x61], 9, TArray 1 [TScalar 1 255, TScalar 1 2])], [([0x77], [2, 3], 0, 0)])"

lemma demo_header_ok: "header_ok (Suc (Suc 0)) demo_header"
  by (simp add: demo_header_def header_ok_def kv_ok_def tensor_ok_def str_ok_def count_width_def scalar_fmt_def)

theorem gguf_truncated_witness: "load_gguf (Suc (Suc 0)) (take 30 (enc_header demo_header)) = Inl GGUFFormatError"
proof -
  have "prefix (take 30 (enc_header demo_header)) (enc_header demo_header)" by (rule take_is_prefix)
  moreover have "30 < length (enc_header demo_header)" by (simp add: demo_header_def enc_header_def enc_kv_def gguf_magic_def count_width_def)
  then have "take 30 (enc_header demo_header) \<noteq> enc_header demo_header" by (metis length_take min_less_iff_conj nat_neq_iff)
  ultimately have "strict_prefix (take 30 (enc_header demo_header)) (enc_header demo_header)" by (rule strict_prefixI)
  then show ?thesis by (rule gguf_truncated [OF demo_header_ok])
qed

lemma demo_load:
  obtains g where "load_gguf (Suc (Suc 0)) (enc_header demo_header @ [7]) = Inr g" "gf_data_start g = 96"
    "gf_metadata g = [([0x61], VList [VInt (-1), VInt 2])]" "map fst (gf_tensors g) = [[0x77]]"
proof -
  have len: "length (enc_header demo_header) = 92"
    by (simp add: demo_header_def enc_header_def enc_kv_def enc_tensor_def enc_str_def gguf_magic_def count_width_def scalar_fmt_def)
  have k: "alignment_key \<noteq> [0x61]" by (simp add: alignment_key_def)
  define kvs where "kvs = [([0x61 :: byte], 9 :: nat, TArray 1 [TScalar 1 255, TScalar 1 2])]"
  have d: "demo_header = (3, kvs, [([0x77], [2, 3], 0, 0)])" by (simp add: demo_header_def kvs_def)
  have m: "dict_of (map kv_meaning kvs) = [([0x61], VList [VInt (-1), VInt 2])]"
    by (simp add: kvs_def kv_meaning_def scalar_fmt_def scalar_value_def signed_num_def dict_of_def)
  have "describe demo_header = Inr \<lparr>gf_version = 3, gf_metadata = [([0x61], VList [VInt (-1), VInt 2])],
      gf_tensors = resolve_tensors 96 [([0x77], [2, 3], 0, 0)], gf_data_start = 96\<rparr>"
    using k len unfolding d by (simp add: describe_def m as_int_def data_start_def py_floordiv_def)
  then show ?thesis using that load_header [OF demo_header_ok, of "[7]"] by (simp add: resolve_tensors_def dict_of_def)
qed

theorem gguf_roundtrip_witness:
  "\<exists>g h data. load_gguf (Suc (Suc 0)) (enc_header demo_header @ [7]) = describe demo_header \<and>
     describe demo_header = Inr g \<and>
     header_ok (Suc (Suc 0)) h \<and> enc_header demo_header @ [7] = enc_header h @ data \<and> describe h = Inr g"
proof -
  have 1: "load_gguf (Suc (Suc 0)) (enc_header demo_header @ [7]) = describe demo_header"
    by (rule gguf_roundtrip [THEN conjunct1, rule_format, OF demo_header_ok])
  obtain g where 2: "load_gguf (Suc (Suc 0)) (enc_header demo_header @ [7]) = Inr g" by (rule demo_load)
  from gguf_roundtrip [of "Suc (Suc 0)", THEN conjunct2, rule_format, OF 2]
  obtain h data where "header_ok (Suc (Suc 0)) h" "enc_header demo_header @ [7] = enc_header h @ data" "describe h = Inr g" by blast
  then show ?thesis using 1 2 by (intro exI [of _ g] exI [of _ h] exI [of _ data]) simp
qed


theorem gguf_layout_witness:
  "\<exists>g. load_gguf (Suc (Suc 0)) (enc_header demo_header @ [7]) = Inr g \<and> gf_data_start g = 96 \<and> 32 dvd gf_data_start g \<and>
    int (length (enc_header demo_header)) \<le> gf_data_start g"
proof -
  obtain g where g: "load_gguf (Suc (Suc 0)) (enc_header demo_header @ [7]) = Inr g" "gf_data_start g = 96"
    "gf_metadata g = [([0x61], VList [VInt (-1), VInt 2])]" by (rule demo_load)
  have a: "as_int (case map_of (gf_metadata g) alignment_key of None \<Rightarrow> VInt 32 | Some v \<Rightarrow> v) = Inr 32"
    using g(3) by (simp add: as_int_def alignment_key_def)
  show ?thesis using gguf_layout [OF demo_header_ok g(1) a] g by auto
qed

end
