(* ===== verification/Gguf_Names.thy ===== *)
theory Gguf_Names
  imports Gguf_Weights Gguf_Laws
begin

text \<open>
  Laws of the weight generators: the names they give, the layers they leave out, and the packed
  experts against the dequantised ones.
\<close>

section \<open>Dictionaries and generators\<close>

lemma map_of_dict_put [simp]: "map_of (dict_put k v d) = (map_of d)(k \<mapsto> v)"
  by (induction k v d rule: dict_put.induct) auto

lemma gather_Inr: "gather rs = Inr ys \<longleftrightarrow> (\<exists>xss. rs = map Inr xss \<and> ys = concat xss)"
proof (induction rs arbitrary: ys)
  case (Cons r rs)
  show ?case
  proof (cases r)
    case (Inr x)
    then show ?thesis using Cons.IH by (auto simp: bind_res_Inr Cons_eq_map_conv)
  qed auto
qed auto

lemma gather_set:
  assumes "gather rs = Inr ys"
  shows "y \<in> set ys \<longleftrightarrow> (\<exists>xs. Inr xs \<in> set rs \<and> y \<in> set xs)"
proof -
  obtain xss where "rs = map Inr xss" "ys = concat xss" using assms by (auto simp: gather_Inr)
  then show ?thesis by auto
qed

lemma gather_elem: "gather (map f tbl) = Inr ys \<Longrightarrow> y \<in> set ys \<Longrightarrow> \<exists>x \<in> set tbl. \<exists>zs. f x = Inr zs \<and> y \<in> set zs"
  by (auto simp: gather_set image_iff) metis

lemma gather_map_Inr:
  assumes "gather (map f xs) = Inr ys" "x \<in> set xs"
  shows "\<exists>zs. f x = Inr zs \<and> set zs \<subseteq> set ys"
proof -
  obtain xss where x: "map f xs = map Inr xss" "ys = concat xss" using assms(1) by (auto simp: gather_Inr)
  have "f x \<in> set (map Inr xss)" using assms(2) x(1) by (metis image_eqI list.set_map)
  then show ?thesis using x(2) by auto
qed

section \<open>Numbers in names\<close>

lemma dec_digits: "b \<in> set (dec n) \<Longrightarrow> is_digit b"
proof (induction n rule: dec.induct)
  case (1 n)
  have w: "is_digit (word_of_nat (48 + d))" if "d < 10" for d
    unfolding is_digit_def word_le_nat_alt unat_byte using that by simp
  show ?case
  proof (cases "n < 10")
    case True
    then have "b = word_of_nat (48 + n)" using 1(2) by (subst (asm) dec.simps) (auto simp del: of_nat_add)
    then show ?thesis using w [OF True] by (simp del: of_nat_add)
  next
    case False
    then have "b \<in> set (dec (n div 10)) \<or> b = word_of_nat (48 + n mod 10)" using 1(2) by (subst (asm) dec.simps) (auto simp del: of_nat_add)
    then show ?thesis using 1(1) [OF False] w [of "n mod 10"] by (auto simp del: of_nat_add)
  qed
qed

lemma undec_dec: "undec (dec n) = n"
proof (induction n rule: dec.induct)
  case (1 n)
  have w: "unat (word_of_nat (48 + d) :: byte) - 48 = d" if "d < 10" for d unfolding unat_byte using that by simp
  show ?case
  proof (cases "n < 10")
    case True
    then show ?thesis using w [OF True] by (subst dec.simps) (simp add: undec_def del: of_nat_add)
  next
    case False
    then have "undec (dec n) = undec (dec (n div 10)) * 10 + n mod 10"
      using w [of "n mod 10"] by (subst dec.simps) (simp add: undec_def del: of_nat_add)
    then show ?thesis using 1 [OF False] by simp
  qed
qed

lemma dec_nonempty: "dec n \<noteq> []"
  by (subst dec.simps) simp

lemma dec_stops: "takeWhile is_digit (dec n @ 46 # s) = dec n" "dropWhile is_digit (dec n @ 46 # s) = 46 # s"
proof -
  have "\<not> is_digit 46" by (simp add: is_digit_def)
  then show "takeWhile is_digit (dec n @ 46 # s) = dec n" "dropWhile is_digit (dec n @ 46 # s) = 46 # s"
    using dec_digits by (simp_all add: takeWhile_append2 dropWhile_append2)
qed

lemma asc_dot: "asc ''.'' = [46]"
  by code_simp

lemma layer_name_inj:
  "layer_prefix l @ asc ''.'' @ h = layer_prefix l' @ asc ''.'' @ h' \<longleftrightarrow> l = l' \<and> h = h'"
proof
  assume "layer_prefix l @ asc ''.'' @ h = layer_prefix l' @ asc ''.'' @ h'"
  then have e: "dec l @ 46 # h = dec l' @ 46 # h'" by (simp add: layer_prefix_def asc_dot)
  have "dec l = dec l'" "46 # h = 46 # h'"
    using arg_cong [OF e, of "takeWhile is_digit"] arg_cong [OF e, of "dropWhile is_digit"] by (simp_all add: dec_stops)
  then show "l = l' \<and> h = h'" by (metis list.inject undec_dec)
qed simp

lemma layer_re_name:
  assumes "s \<noteq> ''''" "10 \<notin> set (asc s)"
  shows "layer_re (tensor_name l s) = Some (l, asc s)"
proof -
  have "length (asc ''blk.'') = 4" by (simp add: asc_def)
  then have t: "take 4 (tensor_name l s) = asc ''blk.''" "drop 4 (tensor_name l s) = dec l @ 46 # asc s"
    by (simp_all add: tensor_name_def asc_dot)
  have b: "takeWhile (\<lambda>b. b \<noteq> 10) (asc s) = asc s" "dropWhile (\<lambda>b. b \<noteq> 10) (asc s) = []"
    using assms(2) by (auto simp: takeWhile_eq_all_conv dropWhile_eq_Nil_conv)
  have "asc s \<noteq> []" using assms(1) by (simp add: asc_def)
  then show ?thesis using assms(2) by (simp add: layer_re_def t dec_stops dec_nonempty b undec_dec asc_dot Let_def)
qed

section \<open>Tensors by layer\<close>

text \<open>The tensor a layer has under a suffix: the last one of the file.\<close>

definition layer_tensor :: "int option \<Rightarrow> (pstr \<times> tensor_info) list \<Rightarrow> nat \<Rightarrow> pstr \<Rightarrow> tensor_info option" where
  "layer_tensor bound ts l sfx =
     foldl (\<lambda>r (name, ti). if layer_re name = Some (l, sfx) \<and> \<not> beyond bound l then Some ti else r) None ts"

definition lookup2 :: "layer_dict \<Rightarrow> nat \<Rightarrow> pstr \<Rightarrow> tensor_info option" where
  "lookup2 d l sfx = Option.bind (map_of d l) (\<lambda>s. map_of s sfx)"

lemma group_lookup:
  "lookup2 (fst (group_tensors bound ts acc)) l sfx =
   foldl (\<lambda>r (name, ti). if layer_re name = Some (l, sfx) \<and> \<not> beyond bound l then Some ti else r) (lookup2 (fst acc) l sfx) ts"
proof (induction ts arbitrary: acc)
  case (Cons x ts)
  obtain name ti by_layer other where e: "x = (name, ti)" "acc = (by_layer, other)" by (cases x, cases acc) auto
  show ?case
    unfolding e group_tensors.simps Cons.IH foldl_Cons prod.case
    by (rule arg_cong [where f = "\<lambda>r. foldl _ r ts"])
      (auto simp: lookup2_def layer_put_def split: option.splits prod.splits)
qed simp

lemma group_layers_set:
  "l \<in> fst ` set (fst (group_tensors bound ts acc)) \<longleftrightarrow>
   l \<in> fst ` set (fst acc) \<or> (\<exists>name ti sfx. (name, ti) \<in> set ts \<and> layer_re name = Some (l, sfx) \<and> \<not> beyond bound l)"
proof (induction ts arbitrary: acc)
  case (Cons x ts)
  obtain name ti by_layer other where e: "x = (name, ti)" "acc = (by_layer, other)" by (cases x, cases acc) auto
  have one: "l \<in> fst ` set (fst (case layer_re name of None \<Rightarrow> (by_layer, dict_put name ti other)
        | Some (l, sfx) \<Rightarrow> if beyond bound l then (by_layer, other) else (layer_put l sfx ti by_layer, other))) \<longleftrightarrow>
      l \<in> fst ` set by_layer \<or> (\<exists>sfx. layer_re name = Some (l, sfx) \<and> \<not> beyond bound l)"
    by (auto simp: layer_put_def dict_put_keys split: option.splits prod.splits)
  show ?case
    unfolding e group_tensors.simps Cons.IH one by auto
qed simp

lemma group_layers_distinct:
  "distinct (map fst (fst acc)) \<Longrightarrow> distinct (map fst (fst (group_tensors bound ts acc)))"
proof (induction ts arbitrary: acc)
  case (Cons x ts)
  obtain name ti by_layer other where e: "x = (name, ti)" "acc = (by_layer, other)" by (cases x, cases acc) auto
  show ?case
    unfolding e group_tensors.simps
    by (rule Cons.IH) (use Cons.prems e in \<open>auto simp: layer_put_def dict_put_distinct split: option.splits prod.splits\<close>)
qed simp

lemma group_other_set:
  "x \<in> set (snd (group_tensors bound ts acc)) \<Longrightarrow> x \<in> set (snd acc) \<or> x \<in> set ts"
proof (induction ts arbitrary: acc)
  case (Cons y ts)
  obtain name ti by_layer other where e: "y = (name, ti)" "acc = (by_layer, other)" by (cases y, cases acc) auto
  let ?acc = "case layer_re name of None \<Rightarrow> (by_layer, dict_put name ti other)
        | Some (l, sfx) \<Rightarrow> if beyond bound l then (by_layer, other) else (layer_put l sfx ti by_layer, other)"
  have "set (snd ?acc) \<subseteq> insert (name, ti) (set other)"
    using dict_put_set [of name ti other] by (auto split: option.splits prod.splits)
  moreover have "x \<in> set (snd ?acc) \<or> x \<in> set ts" by (rule Cons.IH) (use Cons.prems e in simp)
  ultimately show ?case using e by auto
qed simp

lemma layer_tensor_filter:
  assumes "\<And>name ti. (name, ti) \<in> set ts \<Longrightarrow> layer_re name = Some (l, sfx) \<Longrightarrow> P (name, ti)"
  shows "layer_tensor bound (filter P ts) l sfx = layer_tensor bound ts l sfx"
proof -
  have "foldl (\<lambda>r (name, ti). if layer_re name = Some (l, sfx) \<and> \<not> beyond bound l then Some ti else r) r0 (filter P ts)
      = foldl (\<lambda>r (name, ti). if layer_re name = Some (l, sfx) \<and> \<not> beyond bound l then Some ti else r) r0 ts" for r0
    using assms by (induction ts arbitrary: r0) auto
  then show ?thesis by (simp add: layer_tensor_def)
qed

lemma layer_tensor_Some:
  assumes "layer_tensor bound ts l sfx = Some ti"
  shows "\<not> beyond bound l \<and> (\<exists>name. (name, ti) \<in> set ts \<and> layer_re name = Some (l, sfx))"
proof -
  have "foldl (\<lambda>r (name, ti). if layer_re name = Some (l, sfx) \<and> \<not> beyond bound l then Some ti else r) r0 ts = Some ti \<Longrightarrow>
      r0 = Some ti \<or> \<not> beyond bound l \<and> (\<exists>name. (name, ti) \<in> set ts \<and> layer_re name = Some (l, sfx))" for r0
    by (induction ts arbitrary: r0) (fastforce split: if_splits)+
  then show ?thesis using assms by (auto simp: layer_tensor_def)
qed

lemma group_map_of:
  assumes "l \<in> fst ` set (fst (group_tensors bound ts ([], [])))"
  shows "map_of (the (map_of (fst (group_tensors bound ts ([], []))) l)) sfx = layer_tensor bound ts l sfx"
proof -
  obtain s where "map_of (fst (group_tensors bound ts ([], []))) l = Some s"
    using assms by (metis map_of_eq_None_iff not_None_eq)
  then show ?thesis using group_lookup [of bound ts "([], [])" l sfx] by (simp add: lookup2_def layer_tensor_def)
qed

section \<open>The names of the weights\<close>

lemma gather_names:
  assumes "gather (map f tbl) = Inr ys"
    "\<And>x zs. x \<in> set tbl \<Longrightarrow> f x = Inr zs \<Longrightarrow> map fst zs = [] \<or> map fst zs = [k x]"
  shows "subseq (map fst ys) (map k tbl)"
  using assms
proof (induction tbl arbitrary: ys)
  case (Cons x tbl)
  obtain zs ws where z: "f x = Inr zs" "gather (map f tbl) = Inr ws" "ys = zs @ ws"
    using Cons.prems(1) by (auto simp: bind_res_Inr)
  have ih: "subseq (map fst ws) (map k tbl)" by (rule Cons.IH [OF z(2)]) (use Cons.prems(2) in simp)
  have "map fst zs = [] \<or> map fst zs = [k x]" by (rule Cons.prems(2) [OF _ z(1)]) simp
  then show ?case using ih z(3) by auto
qed simp

lemma subseq_distinct: "subseq xs ys \<Longrightarrow> distinct ys \<Longrightarrow> distinct xs"
proof (induction rule: list_emb.induct)
  case (list_emb_Cons2 x y xs ys)
  then show ?case using subseq_subset [of xs ys] by auto
qed auto

lemma tables_distinct:
  "distinct (map snd top_level_map)" "distinct (map snd (suffix_map q35) @ [asc ''mlp.experts.gate_up_proj'', asc ''mlp.experts.down_proj''])"
proof -
  show "distinct (map snd top_level_map)" by code_simp
  have "distinct (map snd dense_suffix_map @ [asc ''mlp.experts.gate_up_proj'', asc ''mlp.experts.down_proj''])"
    "distinct (map snd qwen35_suffix_map @ [asc ''mlp.experts.gate_up_proj'', asc ''mlp.experts.down_proj''])" by code_simp+
  then show "distinct (map snd (suffix_map q35) @ [asc ''mlp.experts.gate_up_proj'', asc ''mlp.experts.down_proj''])"
    by (simp add: suffix_map_def)
qed

lemma top_names:
  assumes "top_weights W sizes file q35 other = Inr ys"
  shows "subseq (map fst ys) (map snd top_level_map)"
    "(n, T) \<in> set ys \<Longrightarrow> \<exists>g ti. (g, n) \<in> set top_level_map \<and> (g, ti) \<in> set other"
proof -
  show "subseq (map fst ys) (map snd top_level_map)"
    by (rule gather_names [OF assms [unfolded top_weights_def]])
      (auto simp: bind_res_Inr split: option.splits)
  show "\<exists>g ti. (g, n) \<in> set top_level_map \<and> (g, ti) \<in> set other" if n: "(n, T) \<in> set ys"
  proof -
    obtain x xs where x: "x \<in> set top_level_map" "(n, T) \<in> set xs" "(case x of (g, h) \<Rightarrow> case map_of other g of
         None \<Rightarrow> Inr []
       | Some ti \<Rightarrow> bind_res (read_and_dequant (wo_float W) sizes file ti) (\<lambda>t.
           Inr [(h, if q35 \<and> g = asc ''output_norm.weight'' then tn_map (wo_minus_one W) t else t)])) = Inr xs"
      using gather_elem [OF assms [unfolded top_weights_def] n] by blast
    obtain g h where gh: "x = (g, h)" by (cases x)
    obtain ti where ti: "map_of other g = Some ti" using x(2,3) gh by (cases "map_of other g") auto
    then obtain v where "xs = [(h, v)]" using x(3) gh by (auto simp: bind_res_Inr)
    then show ?thesis using gh x(1,2) map_of_SomeD [OF ti] by auto
  qed
qed

lemma layer_names:
  assumes "gather [if nm then layer_dense W sizes file q35 l sfxs else Inr [],
      if moe then layer_experts F sizes file l sfxs else Inr []] = Inr ys"
  shows "subseq (map fst ys) (map (\<lambda>h. layer_prefix l @ asc ''.'' @ h)
      (map snd (suffix_map q35) @ [asc ''mlp.experts.gate_up_proj'', asc ''mlp.experts.down_proj'']))"
proof -
  have dot: "asc ''.mlp.experts.gate_up_proj'' = asc ''.'' @ asc ''mlp.experts.gate_up_proj''"
    "asc ''.mlp.experts.down_proj'' = asc ''.'' @ asc ''mlp.experts.down_proj''" by (simp_all add: asc_def)
  obtain ds es where d: "(if nm then layer_dense W sizes file q35 l sfxs else Inr []) = Inr ds"
    "(if moe then layer_experts F sizes file l sfxs else Inr []) = Inr es" "ys = ds @ es"
    using assms by (auto simp: bind_res_Inr)
  have 1: "subseq (map fst ds) (map (\<lambda>h. layer_prefix l @ asc ''.'' @ h) (map snd (suffix_map q35)))"
  proof (cases nm)
    case True
    then have "layer_dense W sizes file q35 l sfxs = Inr ds" using d(1) by simp
    from gather_names [OF this [unfolded layer_dense_def], of "\<lambda>x. layer_prefix l @ asc ''.'' @ snd x"]
    show ?thesis by (force simp: bind_res_Inr comp_def split: option.splits)
  qed (use d(1) in simp)
  have "map fst es \<in> {[], [layer_prefix l @ asc ''.'' @ asc ''mlp.experts.gate_up_proj''], [layer_prefix l @ asc ''.'' @ asc ''mlp.experts.down_proj''],
      [layer_prefix l @ asc ''.'' @ asc ''mlp.experts.gate_up_proj'', layer_prefix l @ asc ''.'' @ asc ''mlp.experts.down_proj'']}"
    using d(2) unfolding dot [symmetric]
    by (auto simp: layer_experts_def bind_res_Inr split: if_splits option.splits)
  then have 2: "subseq (map fst es) (map (\<lambda>h. layer_prefix l @ asc ''.'' @ h) [asc ''mlp.experts.gate_up_proj'', asc ''mlp.experts.down_proj''])"
    by auto
  show ?thesis unfolding d(3) map_append by (rule list_emb_append_mono [OF 1 2])
qed

lemma concat_distinct_names:
  assumes "distinct ls" "\<And>l. l \<in> set ls \<Longrightarrow> distinct (map fst (f l))"
    "\<And>l x. l \<in> set ls \<Longrightarrow> x \<in> set (f l) \<Longrightarrow> \<exists>h. fst x = layer_prefix l @ asc ''.'' @ h"
  shows "distinct (map fst (concat (map f ls)))"
  using assms
proof (induction ls)
  case (Cons l ls)
  have "set (map fst (f l)) \<inter> set (map fst (concat (map f ls))) = {}"
  proof (rule ccontr)
    assume "\<not> ?thesis"
    then obtain n where n: "n \<in> set (map fst (f l))" "n \<in> set (map fst (concat (map f ls)))" by blast
    obtain x where "x \<in> set (f l)" "fst x = n" using n(1) by auto
    moreover obtain l' y where "l' \<in> set ls" "y \<in> set (f l')" "fst y = n" using n(2) by auto
    ultimately have x: "x \<in> set (f l)" "l' \<in> set ls" "y \<in> set (f l')" "fst x = fst y" by simp_all
    obtain h h' where "fst x = layer_prefix l @ asc ''.'' @ h" "fst y = layer_prefix l' @ asc ''.'' @ h'"
      using Cons.prems(3) x by (metis list.set_intros)
    then have "l = l'" using x(4) by (metis layer_name_inj)
    then show False using x(2) Cons.prems(1) by simp
  qed
  then show ?case using Cons by simp
qed simp

lemma top_not_layer: "(g, layer_prefix l @ s) \<notin> set top_level_map"
proof
  assume a: "(g, layer_prefix l @ s) \<in> set top_level_map"
  have "length (asc ''model.layers.'') = 13" by (simp add: asc_def)
  then have "take 13 (layer_prefix l @ s) = asc ''model.layers.''" by (simp add: layer_prefix_def)
  moreover have "asc ''model.layers.'' \<notin> take 13 ` snd ` set top_level_map" by code_simp
  ultimately show False using a by (metis image_eqI snd_conv)
qed

lemma iter_weights_parts:
  assumes "iter_weights C W sizes g file moe nm = Inr ws"
  obtains q35 bound tops pieces where
    "is_qwen35 (arch_of (gf_metadata g)) = Inr q35" "layer_bound C (gf_metadata g) (arch_of (gf_metadata g)) = Inr bound"
    "(if nm then top_weights W sizes file q35 (snd (group_tensors bound (gf_tensors g) ([], []))) else Inr []) = Inr tops"
    "\<forall>l \<in> fst ` set (fst (group_tensors bound (gf_tensors g) ([], []))).
      gather [if nm then layer_dense W sizes file q35 l (the (map_of (fst (group_tensors bound (gf_tensors g) ([], []))) l)) else Inr [],
        if moe then layer_experts (wo_float W) sizes file l (the (map_of (fst (group_tensors bound (gf_tensors g) ([], []))) l)) else Inr []] = Inr (pieces l)"
    "ws = tops @ concat (map pieces (sort (map fst (fst (group_tensors bound (gf_tensors g) ([], []))))))"
proof -
  obtain q35 bound where q: "is_qwen35 (arch_of (gf_metadata g)) = Inr q35" "layer_bound C (gf_metadata g) (arch_of (gf_metadata g)) = Inr bound"
    using assms by (auto simp: iter_weights_def Let_def bind_res_Inr)
  define by_layer other where "by_layer = fst (group_tensors bound (gf_tensors g) ([], []))"
    and "other = snd (group_tensors bound (gf_tensors g) ([], []))"
  let ?f = "\<lambda>l. gather [if nm then layer_dense W sizes file q35 l (the (map_of by_layer l)) else Inr [],
      if moe then layer_experts (wo_float W) sizes file l (the (map_of by_layer l)) else Inr []]"
  have gg: "group_tensors bound (gf_tensors g) ([], []) = (by_layer, other)" by (simp add: by_layer_def other_def)
  have "gather ((if nm then top_weights W sizes file q35 other else Inr []) # map ?f (sort (map fst by_layer))) = Inr ws"
    using assms unfolding iter_weights_def Let_def q bind_res_simps gg prod.case by simp
  then obtain tops rest where t: "(if nm then top_weights W sizes file q35 other else Inr []) = Inr tops"
    "gather (map ?f (sort (map fst by_layer))) = Inr rest" "ws = tops @ rest"
    unfolding gather.simps bind_res_Inr by auto
  obtain xss where x: "map ?f (sort (map fst by_layer)) = map Inr xss" "rest = concat xss" using t(2) by (auto simp: gather_Inr)
  define pieces where "pieces = (\<lambda>l. case ?f l of Inr z \<Rightarrow> z | Inl _ \<Rightarrow> [])"
  have xss: "xss = map pieces (sort (map fst by_layer))"
  proof (rule nth_equalityI)
    show l: "length xss = length (map pieces (sort (map fst by_layer)))" using arg_cong [OF x(1), of length] by simp
    fix i assume i: "i < length xss"
    then have "?f (sort (map fst by_layer) ! i) = Inr (xss ! i)" using arg_cong [OF x(1), of "\<lambda>z. z ! i"] l by simp
    then show "xss ! i = map pieces (sort (map fst by_layer)) ! i" using i l by (simp add: pieces_def)
  qed
  have fl: "?f l = Inr (pieces l)" if "l \<in> fst ` set by_layer" for l
  proof -
    have "?f l \<in> set (map ?f (sort (map fst by_layer)))" using that by simp
    then obtain z where "?f l = Inr z" unfolding x(1) by auto
    then show ?thesis by (simp add: pieces_def)
  qed
  have "ws = tops @ concat (map pieces (sort (map fst by_layer)))" using t(3) x(2) xss by simp
  then show ?thesis by (intro that [OF q t(1) [unfolded other_def], of pieces] ballI fl [unfolded by_layer_def]) (simp_all only: by_layer_def)
qed


end
