(* ===== verification/Gguf_Experts.thy ===== *)
theory Gguf_Experts
  imports Gguf_Names
begin

text \<open>
  The packed experts: what a slot of the packed banks gives is what the dequantised banks hold.
\<close>

section \<open>One packed tensor\<close>

definition sizes_agree :: "quant_sizes \<Rightarrow> bool" where
  "sizes_agree sizes \<longleftrightarrow> (\<forall>t. case block_format t :: (nat \<times> nat \<times> (int float_ops \<Rightarrow> byte list \<Rightarrow> int list)) option of
     None \<Rightarrow> True | Some (bs, ts, _) \<Rightarrow> sizes t = Some (bs, ts))"

lemma block_format_any:
  assumes "block_format t = Some (bs, ts, f :: 'f float_ops \<Rightarrow> byte list \<Rightarrow> 'f list)"
  shows "\<exists>g. block_format t = Some (bs, ts, g :: 'e float_ops \<Rightarrow> byte list \<Rightarrow> 'e list)"
  using assms by (auto simp: block_format_def split: if_splits)

lemma sizes_agreeD:
  assumes "sizes_agree sizes" "block_format t = Some (bs, ts, f :: 'f float_ops \<Rightarrow> byte list \<Rightarrow> 'f list)"
  shows "sizes t = Some (bs, ts)"
proof -
  obtain g where g: "block_format t = Some (bs, ts, g :: int float_ops \<Rightarrow> byte list \<Rightarrow> int list)" using block_format_any [OF assms(2)] by blast
  have "case block_format t :: (nat \<times> nat \<times> (int float_ops \<Rightarrow> byte list \<Rightarrow> int list)) option of
     None \<Rightarrow> True | Some (bs, ts, _) \<Rightarrow> sizes t = Some (bs, ts)" using assms(1) by (simp only: sizes_agree_def)
  then show ?thesis unfolding g by simp
qed

lemma foldl_prod_rev: "foldl (*) a (rev xs) = foldl (*) (a :: nat) xs"
proof -
  have e: "foldl (*) a xs = a * prod_list xs" for a :: nat and xs by (induction xs arbitrary: a) simp_all
  have "prod_list (rev xs) = prod_list xs" by (induction xs) (simp_all add: mult.commute)
  then show ?thesis by (simp only: e)
qed

text \<open>Reading one expert's row from the packed rows, padded or not, against the whole tensor.\<close>

lemma packed_row:
  fixes F :: "'f float_ops"
  assumes S: "sizes_agree sizes"
    and eager: "read_and_dequant F sizes file ti = Inr T"
    and rows: "raw_rows sizes (int E) file ti = Inr rows"
    and shape: "n_elements ti = E * (m * n)" "e < E"
  shows "tn_shape T = rev (ti_shape ti) \<and> length rows = E \<and>
    (\<forall>pad. dequant_row F sizes (rows ! e @ replicate pad 0) (ti_type ti) m n = Inr (row_at (m * n) (tn_data T) e))"
proof -
  obtain bs0 ts0 where z: "sizes (ti_type ti) = Some (bs0, ts0)" "bs0 \<noteq> 0"
    using eager by (auto simp: read_and_dequant_def split: option.splits if_splits)
  obtain raw where r: "read_at file (ti_offset ti) (n_elements ti div bs0 * ts0) = Inr raw"
    "dequantize F (ti_type ti) raw (rev (ti_shape ti)) = Inr (tn_data T)" "tn_shape T = rev (ti_shape ti)"
    using eager z by (auto simp: read_and_dequant_def bind_res_Inr)
  obtain bs ts f where f: "block_format (ti_type ti) = Some (bs, ts, f :: 'f float_ops \<Rightarrow> byte list \<Rightarrow> 'f list)"
    using dequantize_format [OF r(2)] by blast
  have bt: "bs0 = bs" "ts0 = ts" using sizes_agreeD [OF S f] z by simp_all
  have E: "0 < E" using shape(2) by simp
  have per: "n_elements ti div E = m * n" using shape(1) E by simp
  obtain raw' where w: "m * n mod bs = 0" "read_at file (ti_offset ti) (m * n div bs * ts * E) = Inr raw'"
    "length raw' = m * n div bs * ts * E" "rows = map (row_at (m * n div bs * ts) raw') [0..<E]"
    using rows z per bt by (auto simp: raw_rows_def expert_row_bytes_def bind_res_Inr Let_def split: if_splits)
  define k where "k = m * n div bs"
  have mn: "m * n = k * bs" using w(1) unfolding k_def by (metis add_0_right div_mult_mod_eq)
  have "n_elements ti div bs0 * ts0 = k * ts * E" using shape(1) z(2) bt by (simp add: mn algebra_simps)
  then have same: "raw = raw'" using r(1) w(2) by (simp add: k_def)
  have shp: "foldl (*) 1 (rev (ti_shape ti)) = E * (k * bs)"
    using shape(1) by (simp add: foldl_prod_rev n_elements_def mn del: One_nat_def)
  have len: "length raw = E * (k * ts)" using w(3) same by (simp add: k_def algebra_simps)
  obtain v where v: "dequantize F (ti_type ti) raw (rev (ti_shape ti)) = Inr v"
    "dequantize F (ti_type ti) (row_at (k * ts) raw e) [m, n] = Inr (row_at (k * bs) v e)"
    using lazy_expert_slice [OF f len shape(2) shp, of "[m, n]"] mn by auto
  have row: "rows ! e = row_at (k * ts) raw e" "length (rows ! e) = k * ts"
  proof -
    show "rows ! e = row_at (k * ts) raw e" using w(4) shape(2) same by (simp add: k_def)
    have "(e + 1) * (k * ts) \<le> E * (k * ts)" using shape(2) by (intro mult_le_mono1) simp
    then have "k * ts \<le> length raw - e * (k * ts)" using len by simp
    then show "length (rows ! e) = k * ts" using \<open>rows ! e = row_at (k * ts) raw e\<close> by (simp add: row_at_def)
  qed
  have "dequant_row F sizes (rows ! e @ replicate pad 0) (ti_type ti) m n = Inr (row_at (m * n) (tn_data T) e)" for pad
    using v r(2) row z w(1) bt by (simp add: dequant_row_def expert_row_bytes_def mn [symmetric] k_def [symmetric])
  then show ?thesis using r(3) w(4) by simp
qed

section \<open>From the generators to a slot\<close>

lemma fold_banks_Some:
  assumes "fold_banks L E raws d = Inr d'" "d' l bk = Some (rows, ty)"
  shows "d l bk = Some (rows, ty) \<or> (l, bk, rows, ty) \<in> set raws \<and> length rows = E \<and> int l < L"
  using assms
proof (induction raws arbitrary: d)
  case (Cons x raws)
  obtain l0 bk0 rows0 ty0 where x: "x = (l0, bk0, rows0, ty0)" by (cases x) auto
  have "fold_banks L E raws (d(l0 := (d l0)(bk0 := Some (rows0, ty0)))) = Inr d'" and ok: "int l0 < L" "length rows0 = E"
    using Cons.prems(1) by (auto simp: x split: if_splits)
  from Cons.IH [OF this(1) Cons.prems(2)] show ?case using ok by (auto simp: x split: if_splits)
qed simp

lemma row_len_all: "\<forall>r \<in> set rows. length r = n \<Longrightarrow> rows \<noteq> [] \<Longrightarrow> row_len rows = n"
  by (cases rows) (simp_all add: row_len_def)

lemma pad_rows_nth:
  assumes "l < length banks" "e < length (banks ! l)"
  shows "\<exists>pad. pad_rows banks ! l ! e = banks ! l ! e @ replicate pad 0"
  using assms by (auto simp: pad_rows_def Let_def)

lemma stream_kquant_bank:
  assumes "stream_kquant L E raws = Inr banks" "l < nat L" "e < E"
  shows "\<exists>g tg u tu d td p q r. (l, Gate, g, tg) \<in> set raws \<and> (l, Up, u, tu) \<in> set raws \<and> (l, Down, d, td) \<in> set raws \<and>
    length g = E \<and> length u = E \<and> length d = E \<and>
    pb_raw_gate (banks ! l) ! e = g ! e @ replicate p 0 \<and> pb_type_gate (banks ! l) = tg \<and>
    pb_raw_up (banks ! l) ! e = u ! e @ replicate q 0 \<and> pb_type_up (banks ! l) = tu \<and>
    pb_raw_down (banks ! l) ! e = d ! e @ replicate r 0 \<and> pb_type_down (banks ! l) = td"
proof -
  obtain m where m: "fold_banks L E raws (\<lambda>_ _. None) = Inr m"
    "\<not> list_ex (\<lambda>l. m l Gate = None \<or> m l Up = None \<or> m l Down = None) [0..<nat L]"
    and b: "banks = map (\<lambda>l. \<lparr>pb_raw_gate = pad_rows (map fst (map (\<lambda>l. the (m l Gate)) [0..<nat L])) ! l,
                 pb_type_gate = snd (map (\<lambda>l. the (m l Gate)) [0..<nat L] ! l),
                 pb_raw_up = pad_rows (map fst (map (\<lambda>l. the (m l Up)) [0..<nat L])) ! l,
                 pb_type_up = snd (map (\<lambda>l. the (m l Up)) [0..<nat L] ! l),
                 pb_raw_down = pad_rows (map fst (map (\<lambda>l. the (m l Down)) [0..<nat L])) ! l,
                 pb_type_down = snd (map (\<lambda>l. the (m l Down)) [0..<nat L] ! l)\<rparr>) [0..<nat L]"
    using assms(1) by (auto simp: stream_kquant_def bind_res_Inr Let_def split: if_splits)
  have one: "\<exists>x tx p. m l bk = Some (x, tx) \<and> (l, bk, x, tx) \<in> set raws \<and> length x = E \<and>
      pad_rows (map fst (map (\<lambda>l. the (m l bk)) [0..<nat L])) ! l ! e = x ! e @ replicate p 0" for bk
  proof -
    have "m l bk \<noteq> None" using m(2) assms(2) by (cases bk) (auto simp: list_ex_iff)
    then obtain x tx where x: "m l bk = Some (x, tx)" by (metis not_None_eq surj_pair)
    have r: "(l, bk, x, tx) \<in> set raws" "length x = E" using fold_banks_Some [OF m(1) x] by simp_all
    have n: "map fst (map (\<lambda>l. the (m l bk)) [0..<nat L]) ! l = x" using x assms(2) by simp
    show ?thesis
      using pad_rows_nth [of l "map fst (map (\<lambda>l. the (m l bk)) [0..<nat L])" e] assms(2,3) r x unfolding n by auto
  qed
  obtain g tg p where G: "m l Gate = Some (g, tg)" "(l, Gate, g, tg) \<in> set raws" "length g = E"
    "pad_rows (map fst (map (\<lambda>l. the (m l Gate)) [0..<nat L])) ! l ! e = g ! e @ replicate p 0" using one [of Gate] by blast
  obtain u tu q where U: "m l Up = Some (u, tu)" "(l, Up, u, tu) \<in> set raws" "length u = E"
    "pad_rows (map fst (map (\<lambda>l. the (m l Up)) [0..<nat L])) ! l ! e = u ! e @ replicate q 0" using one [of Up] by blast
  obtain d td r where D: "m l Down = Some (d, td)" "(l, Down, d, td) \<in> set raws" "length d = E"
    "pad_rows (map fst (map (\<lambda>l. the (m l Down)) [0..<nat L])) ! l ! e = d ! e @ replicate r 0" using one [of Down] by blast
  show ?thesis
    by (rule exI [of _ g], rule exI [of _ tg], rule exI [of _ u], rule exI [of _ tu], rule exI [of _ d], rule exI [of _ td],
      rule exI [of _ p], rule exI [of _ q], rule exI [of _ r])
      (use G U D assms(2) in \<open>simp add: b\<close>)
qed

lemma iter_raw_banks_source:
  assumes "iter_raw_banks C sizes g file = Inr raws" "(l, bk, rows, ty) \<in> set raws"
    "layer_bound C (gf_metadata g) (arch_of (gf_metadata g)) = Inr bound"
  shows "\<exists>sfx ti. (sfx, bk) \<in> set expert_wanted \<and> layer_tensor bound (gf_tensors g) l sfx = Some ti \<and>
    raw_rows sizes (int (length rows)) file ti = Inr rows \<and> ty = ti_type ti"
proof -
  define P where "P = (\<lambda>(name, _ :: tensor_info). case layer_re name of None \<Rightarrow> False | Some (_, sfx) \<Rightarrow> sfx \<in> fst ` set expert_wanted)"
  define by_layer where "by_layer = fst (group_tensors bound (filter P (gf_tensors g)) ([], []))"
  obtain v where v: "arch_get C (gf_metadata g) (arch_of (gf_metadata g)) ''expert_count'' = Some v" "truthy v"
    using assms(1,2) by (auto simp: iter_raw_banks_def Let_def split: option.splits if_splits)
  obtain E where E: "int_of C v = Inr E" using assms(1) v by (auto simp: iter_raw_banks_def Let_def bind_res_Inr)
  let ?f = "\<lambda>l (sfx, bk). case map_of (the (map_of by_layer l)) sfx of None \<Rightarrow> Inr []
      | Some ti \<Rightarrow> bind_res (raw_rows sizes E file ti) (\<lambda>rows. Inr [(l, bk, rows, ti_type ti)])"
  have "gather (map (\<lambda>l. gather (map (?f l) expert_wanted)) (sort (map fst by_layer))) = Inr raws"
    using assms(1) unfolding iter_raw_banks_def Let_def v(1) option.case E bind_res_simps assms(3)
      P_def [symmetric] by_layer_def [symmetric] using v(2) by simp
  from gather_elem [OF this assms(2)] obtain l0 xs where l0: "l0 \<in> set (sort (map fst by_layer))"
    "gather (map (?f l0) expert_wanted) = Inr xs" "(l, bk, rows, ty) \<in> set xs" by blast
  from gather_elem [OF l0(2,3)] obtain q zs where q: "q \<in> set expert_wanted" "?f l0 q = Inr zs" "(l, bk, rows, ty) \<in> set zs" by blast
  obtain sfx bk0 where e: "q = (sfx, bk0)" by (cases q)
  obtain ti where ti: "map_of (the (map_of by_layer l0)) sfx = Some ti" using q(2,3) e by (cases "map_of (the (map_of by_layer l0)) sfx") auto
  obtain rows0 where r0: "raw_rows sizes E file ti = Inr rows0" "zs = [(l0, bk0, rows0, ti_type ti)]"
    using q(2) e ti by (auto simp: bind_res_Inr)
  then have eq: "l0 = l" "bk0 = bk" "rows0 = rows" "ty = ti_type ti" using q(3) by auto
  have "layer_tensor bound (filter P (gf_tensors g)) l sfx = Some ti"
    using group_map_of [of l bound "filter P (gf_tensors g)" sfx] l0(1) ti eq(1) by (simp add: by_layer_def)
  moreover have "layer_tensor bound (filter P (gf_tensors g)) l sfx = layer_tensor bound (gf_tensors g) l sfx"
    by (rule layer_tensor_filter) (use q(1) e in \<open>force simp: P_def\<close>)
  moreover have "E = int (length rows)"
    using r0(1) eq(3) by (auto simp: raw_rows_def Let_def bind_res_Inr split: if_splits)
  ultimately show ?thesis using q(1) e eq r0(1) by (intro exI [of _ sfx] exI [of _ ti]) simp
qed

lemma expert_weights_source:
  assumes "iter_weights C W sizes g file True nm = Inr ws"
    "layer_bound C (gf_metadata g) (arch_of (gf_metadata g)) = Inr bound"
    "layer_tensor bound (gf_tensors g) l gate_exps = Some gi" "layer_tensor bound (gf_tensors g) l up_exps = Some ui"
    "layer_tensor bound (gf_tensors g) l down_exps = Some di"
  shows "\<exists>G U GU D. read_and_dequant (wo_float W) sizes file gi = Inr G \<and> read_and_dequant (wo_float W) sizes file ui = Inr U \<and>
    cat_dim1 G U = Inr GU \<and> read_and_dequant (wo_float W) sizes file di = Inr D \<and>
    (layer_prefix l @ asc ''.mlp.experts.gate_up_proj'', GU) \<in> set ws \<and> (layer_prefix l @ asc ''.mlp.experts.down_proj'', D) \<in> set ws"
proof -
  obtain q35 bound' tops pieces where P0: "is_qwen35 (arch_of (gf_metadata g)) = Inr q35"
    and P: "layer_bound C (gf_metadata g) (arch_of (gf_metadata g)) = Inr bound'"
    "(if nm then top_weights W sizes file q35 (snd (group_tensors bound' (gf_tensors g) ([], []))) else Inr []) = Inr tops"
    "\<forall>l \<in> fst ` set (fst (group_tensors bound' (gf_tensors g) ([], []))).
      gather [if nm then layer_dense W sizes file q35 l (the (map_of (fst (group_tensors bound' (gf_tensors g) ([], []))) l)) else Inr [],
        if True then layer_experts (wo_float W) sizes file l (the (map_of (fst (group_tensors bound' (gf_tensors g) ([], []))) l)) else Inr []] = Inr (pieces l)"
    "ws = tops @ concat (map pieces (sort (map fst (fst (group_tensors bound' (gf_tensors g) ([], []))))))"
    by (rule iter_weights_parts [OF assms(1)])
  have b: "bound' = bound" using P(1) assms(2) by simp
  define by_layer where "by_layer = fst (group_tensors bound (gf_tensors g) ([], []))"
  note P = P [unfolded b, folded by_layer_def]
  have l: "l \<in> fst ` set by_layer"
    using layer_tensor_Some [OF assms(3)] unfolding by_layer_def group_layers_set by auto
  note m = group_map_of [OF l [unfolded by_layer_def], folded by_layer_def]
  have in_ws: "x \<in> set ws" if "x \<in> set (pieces l)" for x using that l by (auto simp: P(4))
  obtain ds es where e: "layer_experts (wo_float W) sizes file l (the (map_of by_layer l)) = Inr es" "ds @ es = pieces l"
    using P(3) [rule_format, OF l] unfolding gather.simps if_True bind_res_Inr by auto
  then obtain G U GU D where "read_and_dequant (wo_float W) sizes file gi = Inr G" "read_and_dequant (wo_float W) sizes file ui = Inr U"
    "cat_dim1 G U = Inr GU" "read_and_dequant (wo_float W) sizes file di = Inr D"
    "es = [(layer_prefix l @ asc ''.mlp.experts.gate_up_proj'', GU), (layer_prefix l @ asc ''.mlp.experts.down_proj'', D)]"
    by (auto simp: layer_experts_def m assms(3,4,5) bind_res_Inr)
  then show ?thesis using in_ws e(2) [symmetric] by auto
qed

lemma cat_dim1_rows:
  assumes "tn_shape G = [E, I, H]" "tn_shape U = [E, I, H]" "length (tn_data G) = E * (I * H)" "length (tn_data U) = E * (I * H)"
    "cat_dim1 G U = Inr GU" "e < E"
  shows "tn_shape GU = [E, I + I, H]" "row_at ((I + I) * H) (tn_data GU) e = row_at (I * H) (tn_data G) e @ row_at (I * H) (tn_data U) e"
proof -
  have gu: "GU = \<lparr>tn_shape = [E, I + I, H], tn_data = concat (map (\<lambda>e. row_at (I * H) (tn_data G) e @ row_at (I * H) (tn_data U) e) [0..<E])\<rparr>"
    using assms(1,2,5) by (simp add: cat_dim1_def)
  show "tn_shape GU = [E, I + I, H]" by (simp add: gu)
  let ?rs = "map (\<lambda>e. row_at (I * H) (tn_data G) e @ row_at (I * H) (tn_data U) e) [0..<E]"
  have len: "length (row_at (I * H) xs i) = I * H" if "length xs = E * (I * H)" "i < E" for xs :: "'a list" and i
  proof -
    have "(i + 1) * (I * H) \<le> E * (I * H)" using that(2) by (intro mult_le_mono1) simp
    then show ?thesis using that(1) by (simp add: row_at_def)
  qed
  have "\<forall>r \<in> set ?rs. length r = (I + I) * H" using len assms(3,4) by (auto simp: algebra_simps)
  then show "row_at ((I + I) * H) (tn_data GU) e = row_at (I * H) (tn_data G) e @ row_at (I * H) (tn_data U) e"
    using take_drop_concat_rows [of ?rs "(I + I) * H" e] assms(6) by (simp add: gu row_at_def)
qed

lemma read_and_dequant_length: "read_and_dequant F sizes file ti = Inr T \<Longrightarrow> tn_shape T = rev (ti_shape ti) \<and> length (tn_data T) = foldl (*) 1 (rev (ti_shape ti))"
  by (auto simp: read_and_dequant_def bind_res_Inr dest!: dequantize_format split: option.splits if_splits)

text \<open>C30. Packed and dequantised experts agree. When the packed banks of a file are built, and its
  weights are generated the other way, every slot of the packed banks gives for expert \<open>e\<close> of layer
  \<open>l\<close> exactly the gate, up and down matrices the dequantised banks hold, whatever the rows were
  padded with and whatever formats the layers mix.\<close>

theorem packed_equals_eager:
  assumes "sizes_agree sizes" "iter_weights C W sizes g file True nm = Inr ws"
    "iter_raw_banks C sizes g file = Inr raws" "stream_kquant L E raws = Inr banks"
    "layer_bound C (gf_metadata g) (arch_of (gf_metadata g)) = Inr bound" "l < nat L" "e < E"
    "\<forall>ti. layer_tensor bound (gf_tensors g) l gate_exps = Some ti \<or> layer_tensor bound (gf_tensors g) l up_exps = Some ti \<longrightarrow> ti_shape ti = [H, I, E]"
    "\<forall>ti. layer_tensor bound (gf_tensors g) l down_exps = Some ti \<longrightarrow> ti_shape ti = [I, H, E]"
  shows "\<exists>gu dn gate up down. (layer_prefix l @ asc ''.mlp.experts.gate_up_proj'', gu) \<in> set ws \<and>
    (layer_prefix l @ asc ''.mlp.experts.down_proj'', dn) \<in> set ws \<and>
    tn_shape gu = [E, I + I, H] \<and> tn_shape dn = [E, H, I] \<and>
    get_kquant (wo_float W) sizes H I (banks ! l) e = Inr (gate, up, down) \<and>
    row_at ((I + I) * H) (tn_data gu) e = gate @ up \<and> row_at (H * I) (tn_data dn) e = down"
proof -
  obtain rg tg ru tu rd td p q r where B: "(l, Gate, rg, tg) \<in> set raws" "(l, Up, ru, tu) \<in> set raws" "(l, Down, rd, td) \<in> set raws"
    "length rg = E" "length ru = E" "length rd = E"
    "pb_raw_gate (banks ! l) ! e = rg ! e @ replicate p 0" "pb_type_gate (banks ! l) = tg"
    "pb_raw_up (banks ! l) ! e = ru ! e @ replicate q 0" "pb_type_up (banks ! l) = tu"
    "pb_raw_down (banks ! l) ! e = rd ! e @ replicate r 0" "pb_type_down (banks ! l) = td"
    using stream_kquant_bank [OF assms(4,6,7)] by blast
  have k: "x = gate_exps" if "(x, Gate) \<in> set expert_wanted" for x using that by (auto simp: expert_wanted_def)
  have k': "x = up_exps" if "(x, Up) \<in> set expert_wanted" for x using that by (auto simp: expert_wanted_def)
  have k'': "x = down_exps" if "(x, Down) \<in> set expert_wanted" for x using that by (auto simp: expert_wanted_def)
  obtain gi where G: "layer_tensor bound (gf_tensors g) l gate_exps = Some gi" "raw_rows sizes (int E) file gi = Inr rg" "tg = ti_type gi"
    using iter_raw_banks_source [OF assms(3) B(1) assms(5)] k B(4) by blast
  obtain ui where U: "layer_tensor bound (gf_tensors g) l up_exps = Some ui" "raw_rows sizes (int E) file ui = Inr ru" "tu = ti_type ui"
    using iter_raw_banks_source [OF assms(3) B(2) assms(5)] k' B(5) by blast
  obtain di where D: "layer_tensor bound (gf_tensors g) l down_exps = Some di" "raw_rows sizes (int E) file di = Inr rd" "td = ti_type di"
    using iter_raw_banks_source [OF assms(3) B(3) assms(5)] k'' B(6) by blast
  have sh: "ti_shape gi = [H, I, E]" "ti_shape ui = [H, I, E]" "ti_shape di = [I, H, E]" using assms(8,9) G(1) U(1) D(1) by auto
  have n: "n_elements gi = E * (I * H)" "n_elements ui = E * (I * H)" "n_elements di = E * (H * I)" by (simp_all add: n_elements_def sh)
  obtain TG TU GU TD where T: "read_and_dequant (wo_float W) sizes file gi = Inr TG" "read_and_dequant (wo_float W) sizes file ui = Inr TU"
    "cat_dim1 TG TU = Inr GU" "read_and_dequant (wo_float W) sizes file di = Inr TD"
    "(layer_prefix l @ asc ''.mlp.experts.gate_up_proj'', GU) \<in> set ws" "(layer_prefix l @ asc ''.mlp.experts.down_proj'', TD) \<in> set ws"
    using expert_weights_source [OF assms(2,5) G(1) U(1) D(1)] by blast
  note R = packed_row [OF assms(1) T(1) G(2) n(1) assms(7)] packed_row [OF assms(1) T(2) U(2) n(2) assms(7)]
    packed_row [OF assms(1) T(4) D(2) n(3) assms(7)]
  have len: "tn_shape TG = [E, I, H]" "tn_shape TU = [E, I, H]" "tn_shape TD = [E, H, I]"
    "length (tn_data TG) = E * (I * H)" "length (tn_data TU) = E * (I * H)"
    using read_and_dequant_length [OF T(1)] read_and_dequant_length [OF T(2)] read_and_dequant_length [OF T(4)] by (simp_all add: sh)
  note CR = cat_dim1_rows [OF len(1,2,4,5) T(3) assms(7)]
  have "get_kquant (wo_float W) sizes H I (banks ! l) e =
      Inr (row_at (I * H) (tn_data TG) e, row_at (I * H) (tn_data TU) e, row_at (H * I) (tn_data TD) e)"
    using R by (simp add: get_kquant_def B G(3) U(3) D(3))
  then show ?thesis using T(5,6) CR len(3) by blast
qed

section \<open>A file with one layer of two experts and a multi-token-prediction block\<close>

definition demo_conv :: py_conv where
  "demo_conv = \<lparr>cv_str = (\<lambda>_. []), cv_int = (\<lambda>_. Inl ValueError)\<rparr>"

definition demo_weight_ops :: "int weight_ops" where
  "demo_weight_ops = \<lparr>wo_float = demo_ops, wo_log_neg = (\<lambda>x. x), wo_minus_one = (\<lambda>x. x - 1)\<rparr>"

definition demo_sizes :: quant_sizes where
  "demo_sizes t = (case block_format t :: (nat \<times> nat \<times> (int float_ops \<Rightarrow> byte list \<Rightarrow> int list)) option of
     None \<Rightarrow> None | Some (bs, ts, _) \<Rightarrow> Some (bs, ts))"

definition demo_info :: "string \<Rightarrow> nat list \<Rightarrow> int \<Rightarrow> pstr \<times> tensor_info" where
  "demo_info name shape off = (asc name, \<lparr>ti_name = asc name, ti_shape = shape, ti_type = 1, ti_offset = off\<rparr>)"

definition demo_gguf :: gguf_file where
  "demo_gguf = \<lparr>gf_version = 3,
     gf_metadata = [(asc ''general.architecture'', VStr (asc ''m'')), (asc ''m.block_count'', VInt 2),
       (asc ''m.nextn_predict_layers'', VInt 1), (asc ''m.expert_count'', VInt 2)],
     gf_tensors = [demo_info ''blk.0.ffn_gate_exps.weight'' [1, 1, 2] 0, demo_info ''blk.0.ffn_up_exps.weight'' [1, 1, 2] 4,
       demo_info ''blk.0.ffn_down_exps.weight'' [1, 1, 2] 8, demo_info ''blk.1.ffn_down_exps.weight'' [1, 1, 2] 0],
     gf_data_start = 0\<rparr>"

definition demo_bytes :: "byte list" where
  "demo_bytes = [1, 0, 2, 0, 3, 0, 4, 0, 5, 0, 6, 0]"

lemma demo_sizes_agree: "sizes_agree demo_sizes"
  by (auto simp: sizes_agree_def demo_sizes_def split: option.splits)

lemma demo_bound: "layer_bound demo_conv (gf_metadata demo_gguf) (arch_of (gf_metadata demo_gguf)) = Inr (Some 1)"
  by code_simp

lemma demo_iter: "iter_weights demo_conv demo_weight_ops demo_sizes demo_gguf demo_bytes True False =
  Inr [(asc ''model.layers.0.mlp.experts.gate_up_proj'', \<lparr>tn_shape = [2, 2, 1], tn_data = [1, 3, 2, 4]\<rparr>),
       (asc ''model.layers.0.mlp.experts.down_proj'', \<lparr>tn_shape = [2, 1, 1], tn_data = [5, 6]\<rparr>)]"
  by code_simp

lemma demo_raw: "iter_raw_banks demo_conv demo_sizes demo_gguf demo_bytes =
  Inr [(0, Gate, [[1, 0], [2, 0]], 1), (0, Up, [[3, 0], [4, 0]], 1), (0, Down, [[5, 0], [6, 0]], 1)]"
  by code_simp

lemma demo_stream: "stream_kquant 1 2 [(0, Gate, [[1, 0], [2, 0]], 1), (0, Up, [[3, 0], [4, 0]], 1), (0, Down, [[5, 0], [6, 0]], 1)] =
  Inr [\<lparr>pb_raw_gate = [[1, 0], [2, 0]], pb_type_gate = 1, pb_raw_up = [[3, 0], [4, 0]], pb_type_up = 1,
    pb_raw_down = [[5, 0], [6, 0]], pb_type_down = 1\<rparr>]"
  by code_simp

lemma demo_tensors:
  "layer_tensor (Some 1) (gf_tensors demo_gguf) 0 gate_exps = Some (snd (demo_info ''blk.0.ffn_gate_exps.weight'' [1, 1, 2] 0))"
  "layer_tensor (Some 1) (gf_tensors demo_gguf) 0 up_exps = Some (snd (demo_info ''blk.0.ffn_up_exps.weight'' [1, 1, 2] 4))"
  "layer_tensor (Some 1) (gf_tensors demo_gguf) 0 down_exps = Some (snd (demo_info ''blk.0.ffn_down_exps.weight'' [1, 1, 2] 8))"
  by code_simp+


theorem packed_equals_eager_witness:
  "\<exists>ws raws banks gu dn gate up down. iter_weights demo_conv demo_weight_ops demo_sizes demo_gguf demo_bytes True False = Inr ws \<and>
    iter_raw_banks demo_conv demo_sizes demo_gguf demo_bytes = Inr raws \<and> stream_kquant 1 2 raws = Inr banks \<and>
    (layer_prefix 0 @ asc ''.mlp.experts.gate_up_proj'', gu) \<in> set ws \<and>
    (layer_prefix 0 @ asc ''.mlp.experts.down_proj'', dn) \<in> set ws \<and>
    get_kquant (wo_float demo_weight_ops) demo_sizes 1 1 (banks ! 0) 1 = Inr (gate, up, down) \<and>
    row_at ((1 + 1) * 1) (tn_data gu) 1 = gate @ up \<and> row_at (1 * 1) (tn_data dn) 1 = down"
proof -
  have "\<forall>ti. layer_tensor (Some 1) (gf_tensors demo_gguf) 0 gate_exps = Some ti \<or>
      layer_tensor (Some 1) (gf_tensors demo_gguf) 0 up_exps = Some ti \<longrightarrow> ti_shape ti = [1, 1, 2]"
    "\<forall>ti. layer_tensor (Some 1) (gf_tensors demo_gguf) 0 down_exps = Some ti \<longrightarrow> ti_shape ti = [1, 1, 2]"
    by (auto simp: demo_tensors demo_info_def)
  from packed_equals_eager [OF demo_sizes_agree demo_iter demo_raw demo_stream demo_bound _ _ this, of 1]
  show ?thesis unfolding demo_iter demo_raw using demo_stream by fastforce
qed

end
