(* ===== verification/Expert_Keys.thy ===== *)
theory Expert_Keys
  imports Prelude
begin

text \<open>
  \<open>models/weight.py\<close>: the names of expert weights in a safetensors checkpoint, for the dense layouts
  and the four quantised ones. A name is a text of ASCII characters.
\<close>

section \<open>Text helpers of the language\<close>

text \<open>\<open>s.split(c)\<close>, \<open>xs.index(x)\<close> and \<open>int(s)\<close>.\<close>

fun split_on :: "char \<Rightarrow> string \<Rightarrow> string list" where
  "split_on c [] = [[]]"
| "split_on c (x # xs) =
     (if x = c then [] # split_on c xs
      else (case split_on c xs of [] \<Rightarrow> [[x]] | p # ps \<Rightarrow> (x # p) # ps))"

fun index_of :: "'a \<Rightarrow> 'a list \<Rightarrow> nat option" where
  "index_of x [] = None"
| "index_of x (y # ys) = (if x = y then Some 0 else map_option Suc (index_of x ys))"

definition digit_of :: "char \<Rightarrow> int option" where
  "digit_of c = (let n = of_char c :: nat in if 48 \<le> n \<and> n \<le> 57 then Some (int n - 48) else None)"

definition py_space :: "char \<Rightarrow> bool" where
  "py_space c \<longleftrightarrow> (let n = of_char c :: nat in n = 32 \<or> 9 \<le> n \<and> n \<le> 13)"

fun int_digits :: "int \<Rightarrow> string \<Rightarrow> int option" where
  "int_digits a [] = Some a"
| "int_digits a (c # cs) =
     (case digit_of c of
        Some d \<Rightarrow> int_digits (a * 10 + d) cs
      | None \<Rightarrow> if c \<noteq> CHR ''_'' then None else
          (case cs of [] \<Rightarrow> None | c' # cs' \<Rightarrow>
             (case digit_of c' of None \<Rightarrow> None | Some d \<Rightarrow> int_digits (a * 10 + d) cs')))"

definition py_int :: "string \<Rightarrow> int option" where
  "py_int s =
     (let t = rev (dropWhile py_space (rev (dropWhile py_space s)));
          (neg, r) = (case t of [] \<Rightarrow> (False, []) | c # cs \<Rightarrow>
             if c = CHR ''-'' then (True, cs) else if c = CHR ''+'' then (False, cs) else (False, t))
      in case r of [] \<Rightarrow> None | c # cs \<Rightarrow>
           (case digit_of c of None \<Rightarrow> None | Some d \<Rightarrow> map_option (\<lambda>v. if neg then - v else v) (int_digits d cs)))"

text \<open>\<open>parts[i - 1]\<close>: the last part when \<open>i\<close> is 0.\<close>

definition part_before :: "'a list \<Rightarrow> nat \<Rightarrow> 'a" where
  "part_before parts i = (if i = 0 then last parts else parts ! (i - 1))"

section \<open>The anchor \<open>{L}.mlp.experts\<close>\<close>

datatype proj = Gate_proj | Up_proj | Down_proj
datatype expert_bank = Gate_up_bank | Down_bank

definition proj_of :: "string \<Rightarrow> proj option" where
  "proj_of s = (if s = ''gate_proj'' then Some Gate_proj else if s = ''up_proj'' then Some Up_proj
     else if s = ''down_proj'' then Some Down_proj else None)"

definition bank_of :: "proj \<Rightarrow> expert_bank" where
  "bank_of p = (case p of Down_proj \<Rightarrow> Down_bank | _ \<Rightarrow> Gate_up_bank)"

text \<open>The layer and the parts after the first \<open>experts\<close>; a name that ends in \<open>mlp\<close> makes
  \<open>body[mlp_pos + 1]\<close> fail.\<close>

definition mlp_experts :: "string list \<Rightarrow> (int \<times> string list) option res" where
  "mlp_experts body =
     (case (index_of ''mlp'' body, index_of ''experts'' body) of
        (Some m, Some e) \<Rightarrow>
          (case py_int (part_before body m) of
             None \<Rightarrow> Inr None
           | Some l \<Rightarrow>
               if length body \<le> m + 1 then Inl IndexError
               else if body ! (m + 1) \<noteq> ''experts'' then Inr None
               else Inr (Some (l, drop (e + 1) body)))
      | _ \<Rightarrow> Inr None)"

section \<open>Quantised layouts\<close>

text \<open>\<open>{e}.{proj}\<close>.\<close>

definition expert_proj :: "string list \<Rightarrow> (int \<times> proj) option" where
  "expert_proj tail =
     (case tail of [e, p] \<Rightarrow> (case (py_int e, proj_of p) of (Some i, Some q) \<Rightarrow> Some (i, q) | _ \<Rightarrow> None) | _ \<Rightarrow> None)"

type_synonym component_key = "int \<times> proj \<times> int \<times> string"

text \<open>The body that \<open>_parse_gptq_expert_key\<close> and \<open>_parse_fp8_expert_key\<close> have in common.\<close>

definition parse_component_key :: "string list \<Rightarrow> string \<Rightarrow> component_key option res" where
  "parse_component_key comps key =
     (let parts = split_on CHR ''.'' key
      in if length parts < 2 \<or> last parts \<notin> set comps then Inr None
         else bind_res (mlp_experts (butlast parts)) (\<lambda>r. Inr (case r of
             None \<Rightarrow> None
           | Some (l, tail) \<Rightarrow> (case expert_proj tail of None \<Rightarrow> None | Some (e, p) \<Rightarrow> Some (l, p, e, last parts)))))"

definition gptq_components :: "string list" where
  "gptq_components = [''qweight'', ''qzeros'', ''scales'', ''g_idx'']"

definition parse_gptq_key :: "string \<Rightarrow> component_key option res" where
  "parse_gptq_key key = parse_component_key gptq_components key"

definition fp8_components :: "string list" where
  "fp8_components = [''weight'', ''weight_scale_inv'']"

definition parse_fp8_key :: "string \<Rightarrow> component_key option res" where
  "parse_fp8_key key = parse_component_key fp8_components key"

text \<open>\<open>_parse_int8_expert_key\<close>: the \<open>mlp\<close> part may be missing.\<close>

definition int8_components :: "string list" where
  "int8_components = [''weight_packed'', ''weight_scale'', ''weight_shape'']"

definition parse_int8_key :: "string \<Rightarrow> component_key option res" where
  "parse_int8_key key =
     (let parts = split_on CHR ''.'' key; body = butlast parts
      in if length parts < 2 \<or> last parts \<notin> set int8_components then Inr None
         else Inr (case index_of ''experts'' body of
             None \<Rightarrow> None
           | Some 0 \<Rightarrow> None
           | Some e \<Rightarrow>
               if body ! (e - 1) = ''mlp'' \<and> e < 2 then None
               else (case (py_int (body ! (if body ! (e - 1) = ''mlp'' then e - 2 else e - 1)), expert_proj (drop (e + 1) body)) of
                   (Some l, Some (i, p)) \<Rightarrow> Some (l, p, i, last parts)
                 | _ \<Rightarrow> None)))"

text \<open>\<open>_parse_mxfp4_expert_key\<close>: one packed tensor per layer, projection and component.\<close>

definition mxfp4_components :: "string list" where
  "mxfp4_components = [''blocks'', ''scales'']"

definition mxfp4_tokens :: "(string \<times> expert_bank \<times> string) list" where
  "mxfp4_tokens = concat (map (\<lambda>(p, b). map (\<lambda>c. (p @ ''_'' @ c, (b, c))) mxfp4_components)
     [(''gate_up_proj'', Gate_up_bank), (''down_proj'', Down_bank)])"

definition parse_mxfp4_key :: "string \<Rightarrow> (int \<times> expert_bank \<times> string) option res" where
  "parse_mxfp4_key key =
     bind_res (mlp_experts (split_on CHR ''.'' key)) (\<lambda>r. Inr (case r of
         Some (l, [token]) \<Rightarrow> map_option (\<lambda>(b, c). (l, b, c)) (map_of mxfp4_tokens token)
       | _ \<Rightarrow> None))"

section \<open>Dense layouts\<close>

text \<open>\<open>_expert_source_info\<close>: a packed tensor of a bank, or one expert's row of a projection.\<close>

datatype dense_key = Packed expert_bank | Row proj int

definition expert_source_info :: "string \<Rightarrow> (int \<times> dense_key) option res" where
  "expert_source_info key =
     bind_res (mlp_experts (split_on CHR ''.'' key)) (\<lambda>r.
       case r of
         None \<Rightarrow> Inr None
       | Some (l, tail) \<Rightarrow>
           if tail \<noteq> [] \<and> (last tail \<in> set gptq_components \<or> last tail = ''weight_scale_inv'') then Inl ValueError
           else let tail' = (if tail \<noteq> [] \<and> last tail \<in> {''weight'', ''bias''} then butlast tail else tail)
             in Inr (case tail' of
                  [] \<Rightarrow> None
                | [p] \<Rightarrow> if p = ''gate_up_proj'' then Some (l, Packed Gate_up_bank)
                         else if p = ''down_proj'' then Some (l, Packed Down_bank) else None
                | e # p # _ \<Rightarrow> (case (proj_of p, py_int e) of (Some q, Some i) \<Rightarrow> Some (l, Row q i) | _ \<Rightarrow> None)))"

section \<open>Names of the real checkpoints\<close>

lemma checkpoint_names:
  "parse_gptq_key ''model.layers.3.mlp.experts.17.gate_proj.qweight'' = Inr (Some (3, Gate_proj, 17, ''qweight''))"
  "parse_fp8_key ''model.layers.3.mlp.experts.0.gate_proj.weight_scale_inv'' = Inr (Some (3, Gate_proj, 0, ''weight_scale_inv''))"
  "parse_int8_key ''model.language_model.layers.1.experts.0.gate_proj.weight_packed'' = Inr (Some (1, Gate_proj, 0, ''weight_packed''))"
  "parse_mxfp4_key ''model.layers.0.mlp.experts.gate_up_proj_blocks'' = Inr (Some (0, Gate_up_bank, ''blocks''))"
  "expert_source_info ''model.layers.2.mlp.experts.down_proj'' = Inr (Some (2, Packed Down_bank))"
  "expert_source_info ''model.layers.2.mlp.experts.5.up_proj.weight'' = Inr (Some (2, Row Up_proj 5))"
  by code_simp+

text \<open>The same slot can have several names, and a name may end the search beyond the list.\<close>

lemma other_names:
  "parse_gptq_key ''layers.0_3.mlp.experts.+17.gate_proj.qweight'' = Inr (Some (3, Gate_proj, 17, ''qweight''))"
  "parse_gptq_key ''experts.3.mlp.qweight'' = Inl IndexError"
  by code_simp+

section \<open>What the parsers return\<close>

lemma parse_component_key_comp: "parse_component_key comps key = Inr (Some (l, p, e, c)) \<Longrightarrow> c \<in> set comps"
  by (auto simp: parse_component_key_def Let_def bind_res_Inr split: if_splits option.splits)

lemma parse_int8_key_comp: "parse_int8_key key = Inr (Some (l, p, e, c)) \<Longrightarrow> c \<in> set int8_components"
  by (auto simp: parse_int8_key_def Let_def split: if_splits option.splits nat.splits)

lemma parse_mxfp4_key_comp:
  assumes "parse_mxfp4_key key = Inr (Some (l, b, c))"
  shows "c \<in> set mxfp4_components"
proof -
  obtain r where r: "(case r of Some (l, [token]) \<Rightarrow> map_option (\<lambda>(b, c). (l, b, c)) (map_of mxfp4_tokens token) | _ \<Rightarrow> None) = Some (l, b, c)"
    using assms by (auto simp: parse_mxfp4_key_def bind_res_Inr)
  then obtain a tail where a: "r = Some (a, tail)" by (cases r) auto
  obtain token where "tail = [token]"
  proof (cases tail)
    case (Cons x xs)
    then show ?thesis using that r a by (cases xs) auto
  qed (use r a in auto)
  then have "map_of mxfp4_tokens token = Some (b, c)" using r a by auto
  then have "(token, b, c) \<in> set mxfp4_tokens" by (rule map_of_SomeD)
  then show ?thesis by (auto simp: mxfp4_tokens_def mxfp4_components_def)
qed

end
