(* ===== verification/Expert_Banks.thy ===== *)
theory Expert_Banks
  imports Expert_Keys Gguf_Weights
begin

text \<open>
  \<open>models/weight.py\<close>: the streams that assemble a checkpoint's expert tensors, in whatever order
  they arrive, into one bank per layer: GPTQ, block-FP8, compressed INT8 and MXFP4 share one loop;
  the dense (bf16) stream has its own, in Dense Banks.
\<close>

section \<open>Tensors\<close>

text \<open>\<open>torch.cat\<close> of two tensors skips a one-dimensional empty one.\<close>

definition cat_dim0 :: "'v tensor \<Rightarrow> 'v tensor \<Rightarrow> 'v tensor res" where
  "cat_dim0 s t =
     (case (tn_shape s, tn_shape t) of
        (a # as, b # bs) \<Rightarrow>
          if as = bs then Inr \<lparr>tn_shape = (a + b) # as, tn_data = tn_data s @ tn_data t\<rparr> else Inl RuntimeError
      | _ \<Rightarrow> Inl RuntimeError)"

definition torch_cat :: "nat \<Rightarrow> 'v tensor \<Rightarrow> 'v tensor \<Rightarrow> 'v tensor res" where
  "torch_cat d s t =
     (if tn_shape s = [0] \<and> tn_shape t \<noteq> [0] \<and> d < length (tn_shape t) then Inr t
      else if tn_shape t = [0] \<and> tn_shape s \<noteq> [0] \<and> d < length (tn_shape s) then Inr s
      else if d = 0 then cat_dim0 s t else cat_dim1 s t)"

text \<open>\<open>_stack_expert_rows\<close>.\<close>

definition stack_rows :: "'v tensor list \<Rightarrow> 'v tensor res" where
  "stack_rows rows =
     (case rows of
        [] \<Rightarrow> Inl ValueError
      | r # rs \<Rightarrow>
          if length (tn_shape r) \<noteq> 2 \<or> list_ex (\<lambda>x. tn_shape x \<noteq> tn_shape r) rs then Inl ValueError
          else Inr \<lparr>tn_shape = length rows # tn_shape r, tn_data = concat (map tn_data rows)\<rparr>)"

text \<open>A list of calls, up to the first that raises.\<close>

fun all_res :: "'a res list \<Rightarrow> 'a list res" where
  "all_res [] = Inr []"
| "all_res (r # rs) = bind_res r (\<lambda>x. bind_res (all_res rs) (\<lambda>xs. Inr (x # xs)))"

lemma all_res_Inr: "all_res rs = Inr xs \<longleftrightarrow> rs = map Inr xs"
  by (induction rs arbitrary: xs) (auto simp: bind_res_Inr)

section \<open>The loop of the quantised streams\<close>

text \<open>What has arrived for one bank (\<open>by_expert\<close>, one entry per expert, projection and component), and
  the stream's two dictionaries.\<close>

type_synonym ('s, 't) pile = "'s \<rightharpoonup> 't"

record ('s, 't, 'b) bank_stream =
  bs_buf :: "int \<times> expert_bank \<Rightarrow> ('s, 't) pile"
  bs_done :: "int \<times> expert_bank \<Rightarrow> 'b option"

definition bank_step ::
  "(string \<Rightarrow> (int \<times> expert_bank \<times> 's) option res) \<Rightarrow> ('s \<Rightarrow> bool) \<Rightarrow> (expert_bank \<Rightarrow> ('s, 't) pile \<Rightarrow> bool) \<Rightarrow>
    (expert_bank \<Rightarrow> ('s, 't) pile \<Rightarrow> 'b res) \<Rightarrow> nat \<Rightarrow> string \<times> 't \<Rightarrow> ('s, 't, 'b) bank_stream \<Rightarrow> ('s, 't, 'b) bank_stream res" where
  "bank_step parse fits complete fin L x st =
     bind_res (parse (fst x)) (\<lambda>info.
       case info of
         None \<Rightarrow> Inl ValueError
       | Some (l, b, s) \<Rightarrow>
           if \<not> (0 \<le> l \<and> l < int L) then Inl ValueError
           else if \<not> fits s then Inl ValueError
           else if bs_done st (l, b) \<noteq> None then Inl ValueError
           else if bs_buf st (l, b) s \<noteq> None then Inl ValueError
           else let p = (bs_buf st (l, b))(s \<mapsto> snd x)
             in if complete b p
                then bind_res (fin b p) (\<lambda>r. Inr (st\<lparr>bs_buf := (bs_buf st)((l, b) := Map.empty),
                  bs_done := (bs_done st)((l, b) \<mapsto> r)\<rparr>))
                else Inr (st\<lparr>bs_buf := (bs_buf st)((l, b) := p)\<rparr>))"

fun bank_feed ::
  "(string \<Rightarrow> (int \<times> expert_bank \<times> 's) option res) \<Rightarrow> ('s \<Rightarrow> bool) \<Rightarrow> (expert_bank \<Rightarrow> ('s, 't) pile \<Rightarrow> bool) \<Rightarrow>
    (expert_bank \<Rightarrow> ('s, 't) pile \<Rightarrow> 'b res) \<Rightarrow> nat \<Rightarrow> (string \<times> 't) list \<Rightarrow> ('s, 't, 'b) bank_stream \<Rightarrow> ('s, 't, 'b) bank_stream res" where
  "bank_feed parse fits complete fin L [] st = Inr st"
| "bank_feed parse fits complete fin L (x # xs) st =
     bind_res (bank_step parse fits complete fin L x st) (bank_feed parse fits complete fin L xs)"

definition bank_init :: "('s, 't, 'b) bank_stream" where
  "bank_init = \<lparr>bs_buf = (\<lambda>_. Map.empty), bs_done = (\<lambda>_. None)\<rparr>"

definition stream_banks ::
  "(string \<Rightarrow> (int \<times> expert_bank \<times> 's) option res) \<Rightarrow> ('s \<Rightarrow> bool) \<Rightarrow> (expert_bank \<Rightarrow> ('s, 't) pile \<Rightarrow> bool) \<Rightarrow>
    (expert_bank \<Rightarrow> ('s, 't) pile \<Rightarrow> 'b res) \<Rightarrow> nat \<Rightarrow> (string \<times> 't) list \<Rightarrow> ('b list \<times> 'b list) res" where
  "stream_banks parse fits complete fin L ts =
     bind_res (bank_feed parse fits complete fin L ts bank_init) (\<lambda>st.
       if list_ex (\<lambda>l. bs_done st (int l, Gate_up_bank) = None \<or> bs_done st (int l, Down_bank) = None) [0..<L] then Inl ValueError
       else Inr (map (\<lambda>l. the (bs_done st (int l, Gate_up_bank))) [0..<L], map (\<lambda>l. the (bs_done st (int l, Down_bank))) [0..<L]))"

section \<open>What a stream computes\<close>

text \<open>The tensors by the slot their name stands for.\<close>

definition placed :: "(string \<Rightarrow> (int \<times> expert_bank \<times> 's) option res) \<Rightarrow> (string \<times> 't) list \<Rightarrow> ((int \<times> expert_bank \<times> 's) \<times> 't) list" where
  "placed parse ts = map (\<lambda>(n, t). (the (projr (parse n)), t)) ts"

definition pile_of :: "(string \<Rightarrow> (int \<times> expert_bank \<times> 's) option res) \<Rightarrow> (string \<times> 't) list \<Rightarrow> int \<times> expert_bank \<Rightarrow> ('s, 't) pile" where
  "pile_of parse ts k = (\<lambda>s. map_of (placed parse ts) (fst k, snd k, s))"

definition names_ok :: "(string \<Rightarrow> (int \<times> expert_bank \<times> 's) option res) \<Rightarrow> ('s \<Rightarrow> bool) \<Rightarrow> nat \<Rightarrow> (string \<times> 't) list \<Rightarrow> bool" where
  "names_ok parse fits L ts \<longleftrightarrow>
     (\<forall>n \<in> fst ` set ts. \<exists>l b s. parse n = Inr (Some (l, b, s)) \<and> 0 \<le> l \<and> l < int L \<and> fits s) \<and>
     distinct (map fst (placed parse ts))"

lemma placed_append: "placed parse (xs @ ys) = placed parse xs @ placed parse ys"
  by (simp add: placed_def)

lemma placed_single: "parse n = Inr (Some k) \<Longrightarrow> placed parse [(n, t)] = [(k, t)]"
  by (simp add: placed_def)

lemma pile_None: "pile_of parse xs (l, b) s = None \<longleftrightarrow> (l, b, s) \<notin> fst ` set (placed parse xs)"
  by (simp add: pile_of_def map_of_eq_None_iff)

lemma pile_of_snoc:
  assumes "parse n = Inr (Some (l, b, s))" "pile_of parse xs (l, b) s = None"
  shows "pile_of parse (xs @ [(n, t)]) k = (if k = (l, b) then (pile_of parse xs k)(s \<mapsto> t) else pile_of parse xs k)"
proof
  fix s'
  have one: "placed parse [(n, t)] = [((l, b, s), t)]" using assms(1) by (simp add: placed_def)
  have "map_of (placed parse xs) (l, b, s) = None" using assms(2) by (simp add: pile_of_def)
  then show "pile_of parse (xs @ [(n, t)]) k s' = (if k = (l, b) then (pile_of parse xs k)(s \<mapsto> t) else pile_of parse xs k) s'"
    by (cases k) (auto simp: pile_of_def placed_append one map_add_def split: option.splits)
qed

lemma pile_of_perm:
  assumes "mset ts = mset ts'" "distinct (map fst (placed parse ts))"
  shows "pile_of parse ts k = pile_of parse ts' k"
proof -
  have s: "set (placed parse ts) = set (placed parse ts')" using assms(1) by (metis (no_types) mset_map placed_def set_mset_mset)
  have "mset (map fst (placed parse ts)) = mset (map fst (placed parse ts'))" using assms(1) by (simp add: placed_def)
  then have "distinct (map fst (placed parse ts'))" using assms(2) by (metis mset_eq_imp_distinct_iff)
  then have "map_of (placed parse ts) = map_of (placed parse ts')" using s map_of_inject_set [OF assms(2)] by blast
  then show ?thesis by (simp add: pile_of_def)
qed

text \<open>What a format promises the loop: it accepts exactly the slots of the banks, finitely many, and
  recognises a full bank.\<close>

locale bank_format =
  fixes parse :: "string \<Rightarrow> (int \<times> expert_bank \<times> 's) option res"
    and fits :: "'s \<Rightarrow> bool"
    and complete :: "expert_bank \<Rightarrow> ('s, 't) pile \<Rightarrow> bool"
    and fin :: "expert_bank \<Rightarrow> ('s, 't) pile \<Rightarrow> 'b res"
    and required :: "expert_bank \<Rightarrow> 's set"
  assumes parsed_required: "parse n = Inr (Some (l, b, s)) \<Longrightarrow> fits s \<Longrightarrow> s \<in> required b"
    and complete_iff: "dom p \<subseteq> required b \<Longrightarrow> complete b p \<longleftrightarrow> dom p = required b"
begin

abbreviation feed where "feed L \<equiv> bank_feed parse fits complete fin L"

definition full :: "(string \<times> 't) list \<Rightarrow> int \<times> expert_bank \<Rightarrow> bool" where
  "full ts k \<longleftrightarrow> dom (pile_of parse ts k) = required (snd k) \<and> required (snd k) \<noteq> {}"

definition state_of :: "(string \<times> 't) list \<Rightarrow> ('s, 't, 'b) bank_stream" where
  "state_of ts = \<lparr>bs_buf = (\<lambda>k. if full ts k then Map.empty else pile_of parse ts k),
     bs_done = (\<lambda>k. if full ts k then Some (projr (fin (snd k) (pile_of parse ts k))) else None)\<rparr>"

lemma feed_append: "feed L (xs @ ys) st = bind_res (feed L xs st) (feed L ys)"
  by (induction xs arbitrary: st) (simp_all add: bind_res_def split: sum.splits)

lemma pile_required: "names_ok parse fits L ts \<Longrightarrow> dom (pile_of parse ts k) \<subseteq> required (snd k)"
proof
  fix s
  assume ok: "names_ok parse fits L ts" and "s \<in> dom (pile_of parse ts k)"
  then obtain t where "map_of (placed parse ts) (fst k, snd k, s) = Some t" by (auto simp: pile_of_def)
  then have "((fst k, snd k, s), t) \<in> set (placed parse ts)" by (rule map_of_SomeD)
  then obtain n where n: "(n, t) \<in> set ts" "the (projr (parse n)) = (fst k, snd k, s)" by (auto simp: placed_def)
  then obtain l b s' where "parse n = Inr (Some (l, b, s'))" "fits s'" using ok by (force simp: names_ok_def)
  then show "s \<in> required (snd k)" using n(2) parsed_required by auto
qed

lemma names_ok_snoc:
  "names_ok parse fits L (xs @ [(n, t)]) \<longleftrightarrow> names_ok parse fits L xs \<and>
    (\<exists>l b s. parse n = Inr (Some (l, b, s)) \<and> 0 \<le> l \<and> l < int L \<and> fits s \<and> pile_of parse xs (l, b) s = None)"
proof -
  have "parse n = Inr (Some k) \<Longrightarrow> distinct (map fst (placed parse (xs @ [(n, t)]))) \<longleftrightarrow>
      distinct (map fst (placed parse xs)) \<and> k \<notin> fst ` set (placed parse xs)" for k
    by (simp add: placed_append placed_single)
  then show ?thesis unfolding pile_None names_ok_def by auto
qed

lemma full_snoc:
  assumes "parse n = Inr (Some (l, b, s))" "fits s" "pile_of parse xs (l, b) s = None" "names_ok parse fits L xs"
  shows "full (xs @ [(n, t)]) k = (if k = (l, b) then complete b ((pile_of parse xs k)(s \<mapsto> t)) else full xs k)"
proof (cases "k = (l, b)")
  case True
  have r: "s \<in> required b" using parsed_required assms(1,2) by blast
  then have "dom ((pile_of parse xs k)(s \<mapsto> t)) \<subseteq> required b" using pile_required [OF assms(4), of k] True by auto
  then show ?thesis using complete_iff r True by (auto simp: full_def pile_of_snoc [OF assms(1,3)])
qed (simp add: full_def pile_of_snoc [OF assms(1,3)])

lemma not_full_yet:
  assumes "parse n = Inr (Some (l, b, s))" "fits s" "pile_of parse xs (l, b) s = None"
  shows "\<not> full xs (l, b)"
proof
  assume "full xs (l, b)"
  then have "s \<in> dom (pile_of parse xs (l, b))" using parsed_required [OF assms(1,2)] by (simp add: full_def)
  then show False using assms(3) by auto
qed

lemma step_state:
  assumes "names_ok parse fits L xs"
  shows "bank_step parse fits complete fin L (n, t) (state_of xs) = Inr st \<longleftrightarrow>
    names_ok parse fits L (xs @ [(n, t)]) \<and>
    (\<forall>k. full (xs @ [(n, t)]) k \<and> \<not> full xs k \<longrightarrow> ok (fin (snd k) (pile_of parse (xs @ [(n, t)]) k))) \<and>
    st = state_of (xs @ [(n, t)])" (is "?L = ?R")
proof (cases "\<exists>l b s. parse n = Inr (Some (l, b, s)) \<and> 0 \<le> l \<and> l < int L \<and> fits s")
  case False
  then have "\<not> ?R" by (auto simp: names_ok_snoc)
  moreover have "\<not> ?L" using False by (auto simp: bank_step_def bind_res_Inr split: option.splits)
  ultimately show ?thesis by blast
next
  case True
  then obtain l b s where p: "parse n = Inr (Some (l, b, s))" "0 \<le> l" "l < int L" "fits s" by blast
  have r: "s \<in> required b" using parsed_required p by blast
  show ?thesis
  proof (cases "pile_of parse xs (l, b) s \<noteq> None")
    case True
    then have "\<not> ?L" using p by (auto simp: bank_step_def state_of_def bind_res_Inr Let_def split: if_splits)
    moreover have "\<not> ?R" using True p by (auto simp: names_ok_snoc)
    ultimately show ?thesis by blast
  next
    case new: False
    have none: "pile_of parse xs (l, b) s = None" using new by simp
    have nf: "\<not> full xs (l, b)" by (rule not_full_yet [OF p(1,4) none])
    have ok': "names_ok parse fits L (xs @ [(n, t)])" using assms p new by (auto simp: names_ok_snoc)
    note F = full_snoc [OF p(1,4) none assms, of t] and P = pile_of_snoc [OF p(1) none, of t]
    let ?p = "(pile_of parse xs (l, b))(s \<mapsto> t)"
    have L: "?L \<longleftrightarrow> (if complete b ?p
        then (\<exists>r. fin b ?p = Inr r \<and> st = \<lparr>bs_buf = (bs_buf (state_of xs))((l, b) := Map.empty), bs_done = (bs_done (state_of xs))((l, b) \<mapsto> r)\<rparr>)
        else st = \<lparr>bs_buf = (bs_buf (state_of xs))((l, b) := ?p), bs_done = bs_done (state_of xs)\<rparr>)"
      using p nf none by (auto simp: bank_step_def state_of_def bind_res_Inr Let_def)
    have S: "state_of (xs @ [(n, t)]) = (if complete b ?p
        then \<lparr>bs_buf = (bs_buf (state_of xs))((l, b) := Map.empty), bs_done = (bs_done (state_of xs))((l, b) \<mapsto> projr (fin b ?p))\<rparr>
        else \<lparr>bs_buf = (bs_buf (state_of xs))((l, b) := ?p), bs_done = bs_done (state_of xs)\<rparr>)"
      using nf by (auto simp: state_of_def F P fun_eq_iff)
    have R: "?R \<longleftrightarrow> (complete b ?p \<longrightarrow> ok (fin b ?p)) \<and> st = state_of (xs @ [(n, t)])"
      using ok' nf by (auto simp: F P split: if_splits)
    show ?thesis unfolding L R unfolding S by (auto simp: ok_def split: sum.splits)
  qed
qed

theorem feed_iff:
  "feed L ts bank_init = Inr st \<longleftrightarrow>
    names_ok parse fits L ts \<and> (\<forall>k. full ts k \<longrightarrow> ok (fin (snd k) (pile_of parse ts k))) \<and> st = state_of ts"
proof (induction ts arbitrary: st rule: rev_induct)
  case Nil
  have "dom (pile_of parse [] k) = {}" for k by (simp add: pile_of_def placed_def)
  then have "\<not> full [] k" for k by (metis full_def)
  then show ?case by (auto simp: bank_init_def state_of_def names_ok_def placed_def pile_of_def)
next
  case (snoc x xs)
  obtain n t where x: "x = (n, t)" by (cases x)
  have step: "feed L (xs @ [x]) bank_init = Inr st \<longleftrightarrow> (\<exists>s. feed L xs bank_init = Inr s \<and> bank_step parse fits complete fin L x s = Inr st)"
    by (simp add: feed_append bind_res_Inr)
  have kept: "full (xs @ [x]) k \<and> pile_of parse (xs @ [x]) k = pile_of parse xs k"
    if N: "names_ok parse fits L (xs @ [x])" and F: "full xs k" for k
  proof -
    obtain l b s where p: "parse n = Inr (Some (l, b, s))" "fits s" "pile_of parse xs (l, b) s = None"
      "names_ok parse fits L xs" using N unfolding x names_ok_snoc by blast
    then have "k \<noteq> (l, b)" using not_full_yet F by blast
    then show ?thesis using F by (simp add: x full_snoc [OF p] pile_of_snoc [OF p(1,3)])
  qed
  have mono: "names_ok parse fits L xs" if "names_ok parse fits L (xs @ [x])" using that by (simp add: x names_ok_snoc)
  have oks: "(\<forall>k. full xs k \<longrightarrow> ok (fin (snd k) (pile_of parse xs k))) \<and>
      (\<forall>k. full (xs @ [x]) k \<and> \<not> full xs k \<longrightarrow> ok (fin (snd k) (pile_of parse (xs @ [x]) k))) \<longleftrightarrow>
      (\<forall>k. full (xs @ [x]) k \<longrightarrow> ok (fin (snd k) (pile_of parse (xs @ [x]) k)))"
    if "names_ok parse fits L (xs @ [x])"
    using kept [OF that] by metis
  have "feed L (xs @ [x]) bank_init = Inr st \<longleftrightarrow> names_ok parse fits L xs \<and>
      (\<forall>k. full xs k \<longrightarrow> ok (fin (snd k) (pile_of parse xs k))) \<and> bank_step parse fits complete fin L x (state_of xs) = Inr st"
    unfolding step snoc.IH by blast
  also have "\<dots> \<longleftrightarrow> names_ok parse fits L (xs @ [x]) \<and>
      (\<forall>k. full (xs @ [x]) k \<longrightarrow> ok (fin (snd k) (pile_of parse (xs @ [x]) k))) \<and> st = state_of (xs @ [x])"
  proof (cases "names_ok parse fits L xs")
    case True
    show ?thesis using step_state [OF True, of n t st] oks True unfolding x [symmetric] by blast
  next
    case False
    then show ?thesis using mono by blast
  qed
  finally show ?case .
qed

lemma full_layer: "names_ok parse fits L ts \<Longrightarrow> full ts (l, b) \<Longrightarrow> 0 \<le> l \<and> l < int L"
proof -
  assume N: "names_ok parse fits L ts" and F: "full ts (l, b)"
  then have "dom (pile_of parse ts (l, b)) \<noteq> {}" by (simp add: full_def)
  then obtain s where "pile_of parse ts (l, b) s \<noteq> None" by blast
  then obtain n t where n: "(n, t) \<in> set ts" "the (projr (parse n)) = (l, b, s)" by (auto simp: pile_None placed_def)
  have "\<exists>l b s. parse n = Inr (Some (l, b, s)) \<and> 0 \<le> l \<and> l < int L \<and> fits s"
    using N imageI [OF n(1), of fst] unfolding names_ok_def fst_conv by blast
  then show ?thesis using n(2) by auto
qed

theorem stream_iff:
  "stream_banks parse fits complete fin L ts = Inr (gs, ds) \<longleftrightarrow>
    names_ok parse fits L ts \<and>
    (\<forall>l < L. full ts (int l, Gate_up_bank) \<and> full ts (int l, Down_bank)) \<and>
    map Inr gs = map (\<lambda>l. fin Gate_up_bank (pile_of parse ts (int l, Gate_up_bank))) [0..<L] \<and>
    map Inr ds = map (\<lambda>l. fin Down_bank (pile_of parse ts (int l, Down_bank))) [0..<L]"
  (is "?L \<longleftrightarrow> ?R")
proof -
  define out where "out b l = fin b (pile_of parse ts (int l, b))" for b l
  have one: "map Inr xs = map (out b) [0..<L] \<longleftrightarrow> (\<forall>l < L. ok (out b l)) \<and> xs = map (\<lambda>l. projr (out b l)) [0..<L]" for xs b
  proof
    assume a: "map Inr xs = map (out b) [0..<L]"
    then have len: "length xs = L" by (metis length_map length_upt minus_nat.diff_0)
    have nth: "out b l = Inr (xs ! l)" if "l < L" for l
      using arg_cong [OF a, of "\<lambda>ys. ys ! l"] that len by simp
    then show "(\<forall>l < L. ok (out b l)) \<and> xs = map (\<lambda>l. projr (out b l)) [0..<L]"
      using len by (auto intro: nth_equalityI)
  next
    assume "(\<forall>l < L. ok (out b l)) \<and> xs = map (\<lambda>l. projr (out b l)) [0..<L]"
    then show "map Inr xs = map (out b) [0..<L]" by (auto simp: ok_def split: sum.splits) (metis sum.collapse(2) sum.disc(2) sum.exhaust)
  qed
  have all: "(\<forall>k. full ts k \<longrightarrow> ok (fin (snd k) (pile_of parse ts k))) \<longleftrightarrow> (\<forall>l < L. \<forall>b. ok (out b l))"
    if N: "names_ok parse fits L ts" and F: "\<forall>l < L. full ts (int l, Gate_up_bank) \<and> full ts (int l, Down_bank)"
  proof
    assume a: "\<forall>k. full ts k \<longrightarrow> ok (fin (snd k) (pile_of parse ts k))"
    have "full ts (int l, b)" if "l < L" for l b using F that by (cases b) auto
    then show "\<forall>l < L. \<forall>b. ok (out b l)" using a by (auto simp: out_def)
  next
    assume a: "\<forall>l < L. \<forall>b. ok (out b l)"
    show "\<forall>k. full ts k \<longrightarrow> ok (fin (snd k) (pile_of parse ts k))"
    proof (intro allI impI)
      fix k assume k: "full ts k"
      obtain l b where lb: "k = (l, b)" by (cases k)
      have "0 \<le> l \<and> l < int L" using full_layer [OF N] k lb by blast
      then have "nat l < L" "int (nat l) = l" by auto
      then show "ok (fin (snd k) (pile_of parse ts k))" using a lb by (metis out_def snd_conv)
    qed
  qed
  have "?L \<longleftrightarrow> names_ok parse fits L ts \<and> (\<forall>k. full ts k \<longrightarrow> ok (fin (snd k) (pile_of parse ts k))) \<and>
      (\<forall>l < L. full ts (int l, Gate_up_bank) \<and> full ts (int l, Down_bank)) \<and>
      gs = map (\<lambda>l. projr (out Gate_up_bank l)) [0..<L] \<and> ds = map (\<lambda>l. projr (out Down_bank l)) [0..<L]"
    by (auto simp: stream_banks_def bind_res_Inr feed_iff state_of_def list_ex_iff out_def split: if_splits)
  also have "\<dots> \<longleftrightarrow> ?R"
  proof (cases "names_ok parse fits L ts \<and> (\<forall>l < L. full ts (int l, Gate_up_bank) \<and> full ts (int l, Down_bank))")
    case True
    have "(\<forall>b. ok (out b l)) \<longleftrightarrow> ok (out Gate_up_bank l) \<and> ok (out Down_bank l)" for l by (metis (full_types) expert_bank.exhaust)
    then have "(\<forall>k. full ts k \<longrightarrow> ok (fin (snd k) (pile_of parse ts k))) \<longleftrightarrow>
        (\<forall>l < L. ok (out Gate_up_bank l)) \<and> (\<forall>l < L. ok (out Down_bank l))"
      using all True by auto
    then show ?thesis unfolding out_def [symmetric] one using True by blast
  qed blast
  finally show ?thesis .
qed

text \<open>The order in which the tensors arrive does not matter.\<close>

theorem any_order:
  assumes "mset ts = mset ts'"
  shows "stream_banks parse fits complete fin L ts = Inr r \<longleftrightarrow> stream_banks parse fits complete fin L ts' = Inr r"
proof -
  have *: "stream_banks parse fits complete fin L ts' = Inr r"
    if m: "mset ts = mset ts'" and S: "stream_banks parse fits complete fin L ts = Inr r" for ts ts' :: "(string \<times> 't) list"
  proof -
    obtain gs ds where r: "r = (gs, ds)" by (cases r)
    have N: "names_ok parse fits L ts" using S r stream_iff by blast
    have d: "distinct (map fst (placed parse ts))" using N by (simp add: names_ok_def)
    have "mset (map fst (placed parse ts)) = mset (map fst (placed parse ts'))" using m by (simp add: placed_def)
    then have "distinct (map fst (placed parse ts'))" using d by (metis mset_eq_imp_distinct_iff)
    moreover have "set ts = set ts'" using m by (metis set_mset_mset)
    ultimately have "names_ok parse fits L ts'" using N by (simp add: names_ok_def)
    moreover have P: "pile_of parse ts k = pile_of parse ts' k" for k by (rule pile_of_perm [OF m d])
    moreover have "full ts k = full ts' k" for k by (simp add: full_def P)
    ultimately show ?thesis using S unfolding r stream_iff by simp
  qed
  show ?thesis using * [OF assms] * [OF assms [symmetric]] by blast
qed

end

end
