(* ===== verification/Quant_Formats.thy ===== *)
theory Quant_Formats
  imports Expert_Banks
begin

text \<open>
  \<open>models/weight.py\<close>: the banks of the four quantised formats, each an instance of the loop of
  Expert Banks, and the fact that a bank does not depend on the order of the checkpoint's tensors.
\<close>

section \<open>Slots of a bank\<close>

type_synonym part = "proj \<times> int \<times> string"

definition slot_key :: "(string \<Rightarrow> component_key option res) \<Rightarrow> string \<Rightarrow> (int \<times> expert_bank \<times> part) option res" where
  "slot_key parse n = bind_res (parse n) (\<lambda>r. Inr (map_option (\<lambda>(l, q, e, c). (l, bank_of q, (q, e, c))) r))"

definition fits_expert :: "nat \<Rightarrow> part \<Rightarrow> bool" where
  "fits_expert E s \<longleftrightarrow> (case s of (q, e, c) \<Rightarrow> 0 \<le> e \<and> e < int E)"

definition projs_of :: "expert_bank \<Rightarrow> proj list" where
  "projs_of b = (case b of Gate_up_bank \<Rightarrow> [Gate_proj, Up_proj] | Down_bank \<Rightarrow> [Down_proj])"

text \<open>\<open>_gptq_bank_is_complete\<close> and its siblings; nothing but these slots is ever stored.\<close>

definition bank_is_complete :: "string list \<Rightarrow> nat \<Rightarrow> expert_bank \<Rightarrow> (part, 't) pile \<Rightarrow> bool" where
  "bank_is_complete comps E b p \<longleftrightarrow>
     list_all (\<lambda>e. list_all (\<lambda>q. list_all (\<lambda>c. p (q, int e, c) \<noteq> None) comps) (projs_of b)) [0..<E]"

definition required_slots :: "string list \<Rightarrow> nat \<Rightarrow> expert_bank \<Rightarrow> part set" where
  "required_slots comps E b = {(q, e, c). q \<in> set (projs_of b) \<and> 0 \<le> e \<and> e < int E \<and> c \<in> set comps}"

definition part_of :: "(part, 't) pile \<Rightarrow> proj \<Rightarrow> nat \<Rightarrow> string \<Rightarrow> 't res" where
  "part_of p q e c = (case p (q, int e, c) of None \<Rightarrow> Inl ValueError | Some t \<Rightarrow> Inr t)"

section \<open>GPTQ\<close>

record 'v gptq_bank =
  gq_qweight :: "'v tensor"
  gq_qzeros :: "'v tensor"
  gq_scales :: "'v tensor"
  gq_g_idx :: "'v tensor"

definition gptq_parts :: "(part, 'v tensor) pile \<Rightarrow> proj \<Rightarrow> nat \<Rightarrow> 'v gptq_bank res" where
  "gptq_parts p q e =
     bind_res (part_of p q e ''qweight'') (\<lambda>w. bind_res (part_of p q e ''qzeros'') (\<lambda>z.
     bind_res (part_of p q e ''scales'') (\<lambda>s. bind_res (part_of p q e ''g_idx'') (\<lambda>g.
       Inr \<lparr>gq_qweight = w, gq_qzeros = z, gq_scales = s, gq_g_idx = g\<rparr>))))"

text \<open>One expert: gate and up are joined along the output channels.\<close>

definition gptq_row :: "expert_bank \<Rightarrow> (part, 'v tensor) pile \<Rightarrow> nat \<Rightarrow> 'v gptq_bank res" where
  "gptq_row b p e =
     (case b of
        Down_bank \<Rightarrow> gptq_parts p Down_proj e
      | Gate_up_bank \<Rightarrow>
          bind_res (gptq_parts p Gate_proj e) (\<lambda>gate. bind_res (gptq_parts p Up_proj e) (\<lambda>up.
            if gq_g_idx gate \<noteq> gq_g_idx up then Inl ValueError
            else bind_res (torch_cat 1 (gq_qweight gate) (gq_qweight up)) (\<lambda>w.
                 bind_res (torch_cat 1 (gq_qzeros gate) (gq_qzeros up)) (\<lambda>z.
                 bind_res (torch_cat 1 (gq_scales gate) (gq_scales up)) (\<lambda>s.
                   Inr \<lparr>gq_qweight = w, gq_qzeros = z, gq_scales = s, gq_g_idx = gq_g_idx gate\<rparr>))))))"

definition finalize_gptq :: "nat \<Rightarrow> expert_bank \<Rightarrow> (part, 'v tensor) pile \<Rightarrow> 'v gptq_bank res" where
  "finalize_gptq E b p =
     bind_res (all_res (map (gptq_row b p) [0..<E])) (\<lambda>rows.
       case rows of
         [] \<Rightarrow> Inl IndexError
       | r # rs \<Rightarrow>
           if list_ex (\<lambda>x. gq_g_idx x \<noteq> gq_g_idx r) rs then Inl ValueError
           else bind_res (stack_rows (map gq_qweight rows)) (\<lambda>w.
                bind_res (stack_rows (map gq_qzeros rows)) (\<lambda>z.
                bind_res (stack_rows (map gq_scales rows)) (\<lambda>s.
                  Inr \<lparr>gq_qweight = w, gq_qzeros = z, gq_scales = s, gq_g_idx = gq_g_idx r\<rparr>))))"

definition stream_gptq :: "nat \<Rightarrow> nat \<Rightarrow> (string \<times> 'v tensor) list \<Rightarrow> ('v gptq_bank list \<times> 'v gptq_bank list) res" where
  "stream_gptq L E ts =
     stream_banks (slot_key parse_gptq_key) (fits_expert E) (bank_is_complete gptq_components E) (finalize_gptq E) L ts"

section \<open>Block FP8\<close>

record 'v fp8_bank =
  fp_weight :: "'v tensor"
  fp_scale :: "'v tensor"

definition fp8_parts :: "(part, 'v tensor) pile \<Rightarrow> proj \<Rightarrow> nat \<Rightarrow> 'v fp8_bank res" where
  "fp8_parts p q e =
     bind_res (part_of p q e ''weight'') (\<lambda>w. bind_res (part_of p q e ''weight_scale_inv'') (\<lambda>s.
       Inr \<lparr>fp_weight = w, fp_scale = s\<rparr>))"

text \<open>The rows of gate must be whole blocks, or the joined scales would not fit the joined weight.\<close>

definition fp8_row :: "nat \<Rightarrow> expert_bank \<Rightarrow> (part, 'v tensor) pile \<Rightarrow> nat \<Rightarrow> 'v fp8_bank res" where
  "fp8_row block b p e =
     (case b of
        Down_bank \<Rightarrow> fp8_parts p Down_proj e
      | Gate_up_bank \<Rightarrow>
          bind_res (fp8_parts p Gate_proj e) (\<lambda>gate. bind_res (fp8_parts p Up_proj e) (\<lambda>up.
            if tn_shape (fp_weight gate) = [] then Inl IndexError
            else if block = 0 then Inl ZeroDivisionError
            else if hd (tn_shape (fp_weight gate)) mod block \<noteq> 0 then Inl ValueError
            else bind_res (torch_cat 0 (fp_weight gate) (fp_weight up)) (\<lambda>w.
                 bind_res (torch_cat 0 (fp_scale gate) (fp_scale up)) (\<lambda>s.
                   Inr \<lparr>fp_weight = w, fp_scale = s\<rparr>)))))"

definition finalize_fp8 :: "nat \<Rightarrow> nat \<Rightarrow> expert_bank \<Rightarrow> (part, 'v tensor) pile \<Rightarrow> 'v fp8_bank res" where
  "finalize_fp8 block E b p =
     bind_res (all_res (map (fp8_row block b p) [0..<E])) (\<lambda>rows.
       bind_res (stack_rows (map fp_weight rows)) (\<lambda>w. bind_res (stack_rows (map fp_scale rows)) (\<lambda>s.
         Inr \<lparr>fp_weight = w, fp_scale = s\<rparr>)))"

definition stream_fp8 :: "nat \<Rightarrow> nat \<Rightarrow> nat \<Rightarrow> (string \<times> 'v tensor) list \<Rightarrow> ('v fp8_bank list \<times> 'v fp8_bank list) res" where
  "stream_fp8 block L E ts =
     stream_banks (slot_key parse_fp8_key) (fits_expert E) (bank_is_complete fp8_components E) (finalize_fp8 block E) L ts"

section \<open>Compressed INT8\<close>

text \<open>An element carries its type: a 32-bit or 8-bit word, an integer, or a floating-point number.\<close>

datatype 'f elem = W32 "32 word" | W8 "8 word" | I64 int | Fp 'f

text \<open>\<open>_int8_logical_k\<close>; reading a floating-point number as an integer is a parameter.\<close>

definition elem_int :: "('f \<Rightarrow> int) \<Rightarrow> 'f elem \<Rightarrow> int" where
  "elem_int trunc x = (case x of W32 w \<Rightarrow> sint w | W8 w \<Rightarrow> uint w | I64 i \<Rightarrow> i | Fp f \<Rightarrow> trunc f)"

definition int8_logical_k :: "('f \<Rightarrow> int) \<Rightarrow> 'f elem tensor \<Rightarrow> int res" where
  "int8_logical_k trunc t =
     (case tn_shape t of
        [n] \<Rightarrow> if n < 2 then Inl IndexError else Inr (elem_int trunc (tn_data t ! 1))
      | [] \<Rightarrow> Inl IndexError
      | _ \<Rightarrow> Inl RuntimeError)"

record 'f int8_bank =
  i8_packed :: "'f elem tensor"
  i8_scale :: "'f elem tensor"
  i8_k :: int

definition int8_parts :: "('f \<Rightarrow> int) \<Rightarrow> (part, 'f elem tensor) pile \<Rightarrow> proj \<Rightarrow> nat \<Rightarrow> 'f int8_bank res" where
  "int8_parts trunc p q e =
     bind_res (part_of p q e ''weight_shape'') (\<lambda>s. bind_res (int8_logical_k trunc s) (\<lambda>k.
     bind_res (part_of p q e ''weight_packed'') (\<lambda>w. bind_res (part_of p q e ''weight_scale'') (\<lambda>sc.
       Inr \<lparr>i8_packed = w, i8_scale = sc, i8_k = k\<rparr>))))"

definition int8_row :: "('f \<Rightarrow> int) \<Rightarrow> expert_bank \<Rightarrow> (part, 'f elem tensor) pile \<Rightarrow> nat \<Rightarrow> 'f int8_bank res" where
  "int8_row trunc b p e =
     (case b of
        Down_bank \<Rightarrow> int8_parts trunc p Down_proj e
      | Gate_up_bank \<Rightarrow>
          bind_res (int8_parts trunc p Gate_proj e) (\<lambda>gate. bind_res (int8_parts trunc p Up_proj e) (\<lambda>up.
            if i8_k gate \<noteq> i8_k up then Inl ValueError
            else bind_res (torch_cat 0 (i8_packed gate) (i8_packed up)) (\<lambda>w.
                 bind_res (torch_cat 0 (i8_scale gate) (i8_scale up)) (\<lambda>s.
                   Inr \<lparr>i8_packed = w, i8_scale = s, i8_k = i8_k gate\<rparr>)))))"

text \<open>The check of \<open>k\<close> against the first expert's comes in the loop; both are \<open>ValueError\<close> or what
  a row raises before.\<close>

fun int8_rows :: "('f \<Rightarrow> int) \<Rightarrow> expert_bank \<Rightarrow> (part, 'f elem tensor) pile \<Rightarrow> int option \<Rightarrow> nat list \<Rightarrow> 'f int8_bank list res" where
  "int8_rows trunc b p k0 [] = Inr []"
| "int8_rows trunc b p k0 (e # es) =
     bind_res (int8_row trunc b p e) (\<lambda>r.
       if (case k0 of None \<Rightarrow> False | Some k \<Rightarrow> i8_k r \<noteq> k) then Inl ValueError
       else bind_res (int8_rows trunc b p (Some (i8_k r)) es) (\<lambda>rs. Inr (r # rs)))"

definition finalize_int8 :: "('f \<Rightarrow> int) \<Rightarrow> nat \<Rightarrow> expert_bank \<Rightarrow> (part, 'f elem tensor) pile \<Rightarrow> 'f int8_bank res" where
  "finalize_int8 trunc E b p =
     bind_res (int8_rows trunc b p None [0..<E]) (\<lambda>rows.
       bind_res (stack_rows (map i8_packed rows)) (\<lambda>w. bind_res (stack_rows (map i8_scale rows)) (\<lambda>s.
         Inr \<lparr>i8_packed = w, i8_scale = s, i8_k = i8_k (hd rows)\<rparr>)))"

definition stream_int8 :: "('f \<Rightarrow> int) \<Rightarrow> nat \<Rightarrow> nat \<Rightarrow> (string \<times> 'f elem tensor) list \<Rightarrow> ('f int8_bank list \<times> 'f int8_bank list) res" where
  "stream_int8 trunc L E ts =
     stream_banks (slot_key parse_int8_key) (fits_expert E) (bank_is_complete int8_components E) (finalize_int8 trunc E) L ts"

section \<open>MXFP4\<close>

text \<open>One packed tensor per component, its experts on the first axis.\<close>

record 'v mxfp4_bank =
  mx_blocks :: "'v tensor"
  mx_scales :: "'v tensor"

definition mxfp4_complete :: "expert_bank \<Rightarrow> (string, 't) pile \<Rightarrow> bool" where
  "mxfp4_complete b p \<longleftrightarrow> list_all (\<lambda>c. p c \<noteq> None) mxfp4_components"

definition finalize_mxfp4 :: "nat \<Rightarrow> expert_bank \<Rightarrow> (string, 'v tensor) pile \<Rightarrow> 'v mxfp4_bank res" where
  "finalize_mxfp4 E b p =
     (let blocks = the (p ''blocks''); scales = the (p ''scales'')
      in if tn_shape blocks = [] then Inl IndexError
         else if hd (tn_shape blocks) \<noteq> E then Inl ValueError
         else if butlast (tn_shape blocks) \<noteq> tn_shape scales then Inl ValueError
         else Inr \<lparr>mx_blocks = blocks, mx_scales = scales\<rparr>)"

definition stream_mxfp4 :: "nat \<Rightarrow> nat \<Rightarrow> (string \<times> 'v tensor) list \<Rightarrow> ('v mxfp4_bank list \<times> 'v mxfp4_bank list) res" where
  "stream_mxfp4 L E ts = stream_banks parse_mxfp4_key (\<lambda>_. True) mxfp4_complete (finalize_mxfp4 E) L ts"

section \<open>The formats meet the loop's contract\<close>

lemma projs_bank: "q \<in> set (projs_of (bank_of q))"
  by (cases q) (simp_all add: projs_of_def bank_of_def)

lemma slot_key_required:
  assumes "\<And>l q e c. parse n = Inr (Some (l, q, e, c)) \<Longrightarrow> c \<in> set comps"
    and "slot_key parse n = Inr (Some (l, b, s))" "fits_expert E s"
  shows "s \<in> required_slots comps E b"
proof -
  obtain q e c where "parse n = Inr (Some (l, q, e, c))" "b = bank_of q" "s = (q, e, c)"
    using assms(2) by (auto simp: slot_key_def bind_res_Inr)
  then show ?thesis using assms(1,3) projs_bank [of q] by (auto simp: required_slots_def fits_expert_def)
qed

lemma bank_is_complete_iff:
  assumes "dom p \<subseteq> required_slots comps E b"
  shows "bank_is_complete comps E b p \<longleftrightarrow> dom p = required_slots comps E b"
proof -
  have "bank_is_complete comps E b p \<longleftrightarrow> required_slots comps E b \<subseteq> dom p"
  proof
    assume a: "bank_is_complete comps E b p"
    show "required_slots comps E b \<subseteq> dom p"
    proof
      fix s assume "s \<in> required_slots comps E b"
      then obtain q e c where s: "s = (q, int e, c)" "q \<in> set (projs_of b)" "e < E" "c \<in> set comps"
        by (auto simp: required_slots_def elim!: nonneg_int_cases)
      then have "p (q, int e, c) \<noteq> None" using a by (simp add: bank_is_complete_def list_all_iff)
      then show "s \<in> dom p" using s(1) by blast
    qed
  next
    assume sub: "required_slots comps E b \<subseteq> dom p"
    have "(q, int e, c) \<in> dom p" if "e < E" "q \<in> set (projs_of b)" "c \<in> set comps" for q e c
      by (rule subsetD [OF sub]) (use that in \<open>simp add: required_slots_def\<close>)
    then show "bank_is_complete comps E b p" by (fastforce simp: bank_is_complete_def list_all_iff)
  qed
  then show ?thesis using assms by blast
qed

interpretation gptq: bank_format "slot_key parse_gptq_key" "fits_expert E" "bank_is_complete gptq_components E"
    "finalize_gptq E" "required_slots gptq_components E" for E
proof unfold_locales
  show "slot_key parse_gptq_key n = Inr (Some (l, b, s)) \<Longrightarrow> fits_expert E s \<Longrightarrow> s \<in> required_slots gptq_components E b" for n l b s
    by (erule slot_key_required [rotated]) (auto simp: parse_gptq_key_def dest: parse_component_key_comp)
qed (rule bank_is_complete_iff)

interpretation fp8: bank_format "slot_key parse_fp8_key" "fits_expert E" "bank_is_complete fp8_components E"
    "finalize_fp8 block E" "required_slots fp8_components E" for block E
proof unfold_locales
  show "slot_key parse_fp8_key n = Inr (Some (l, b, s)) \<Longrightarrow> fits_expert E s \<Longrightarrow> s \<in> required_slots fp8_components E b" for n l b s
    by (erule slot_key_required [rotated]) (auto simp: parse_fp8_key_def dest: parse_component_key_comp)
qed (rule bank_is_complete_iff)

interpretation int8: bank_format "slot_key parse_int8_key" "fits_expert E" "bank_is_complete int8_components E"
    "finalize_int8 trunc E" "required_slots int8_components E" for trunc E
proof unfold_locales
  show "slot_key parse_int8_key n = Inr (Some (l, b, s)) \<Longrightarrow> fits_expert E s \<Longrightarrow> s \<in> required_slots int8_components E b" for n l b s
    by (erule slot_key_required [rotated]) (auto dest: parse_int8_key_comp)
qed (rule bank_is_complete_iff)

interpretation mxfp4: bank_format parse_mxfp4_key "\<lambda>_. True" mxfp4_complete "finalize_mxfp4 E" "\<lambda>_. set mxfp4_components" for E
  by unfold_locales (auto simp: mxfp4_complete_def list_all_iff dest: parse_mxfp4_key_comp)

text \<open>C36. Expert banks do not depend on the order of the checkpoint's tensors: for each quantised
  format, a reordered stream gives the same banks, or fails as well.\<close>

theorem banks_any_order:
  "(mset ts = mset ts' \<longrightarrow> (stream_gptq L E ts = Inr r \<longleftrightarrow> stream_gptq L E ts' = Inr r)) \<and>
   (mset fs = mset fs' \<longrightarrow> (stream_fp8 block L E fs = Inr fr \<longleftrightarrow> stream_fp8 block L E fs' = Inr fr)) \<and>
   (mset ins = mset ins' \<longrightarrow> (stream_int8 trunc L E ins = Inr ir \<longleftrightarrow> stream_int8 trunc L E ins' = Inr ir)) \<and>
   (mset xs = mset xs' \<longrightarrow> (stream_mxfp4 L E xs = Inr xr \<longleftrightarrow> stream_mxfp4 L E xs' = Inr xr))"
  unfolding stream_gptq_def stream_fp8_def stream_int8_def stream_mxfp4_def
  by (intro conjI impI gptq.any_order fp8.any_order int8.any_order mxfp4.any_order)

end
