(* ===== verification/Packed_Linear.thy ===== *)
theory Packed_Linear
  imports Quant_Formats "HOL-Library.Word"
begin

text \<open>
  \<open>kernel/triton/gptq_linear.py\<close>, \<open>int8_packed_linear.py\<close>, \<open>fp8_block_linear.py\<close> and
  \<open>mxfp4_linear.py\<close>: the dequantisation of packed weights, and the branches of
  \<open>SlotWeightAccessor.get\<close> (\<open>moe/offload_cache.py\<close>) that call it. What a slot gives for an expert is
  what the checkpoint's own tensors give.
\<close>

unbundle bit_operations_syntax

section \<open>Matrices\<close>

text \<open>A matrix is a tensor of two dimensions, its data row by row.\<close>

definition at2 :: "'v tensor \<Rightarrow> nat \<Rightarrow> nat \<Rightarrow> 'v" where
  "at2 t i j = tn_data t ! (i * (tn_shape t ! 1) + j)"

definition grid :: "nat \<Rightarrow> nat \<Rightarrow> (nat \<Rightarrow> nat \<Rightarrow> 'v) \<Rightarrow> 'v tensor" where
  "grid m n f = \<lparr>tn_shape = [m, n], tn_data = concat (map (\<lambda>i. map (f i) [0..<n]) [0..<m])\<rparr>"

definition transpose2 :: "'v tensor \<Rightarrow> 'v tensor" where
  "transpose2 t = grid (tn_shape t ! 1) (tn_shape t ! 0) (\<lambda>i j. at2 t j i)"

text \<open>\<open>t[a:b]\<close>, and the row of a bank, \<open>bank[e]\<close>.\<close>

definition rows_between :: "nat \<Rightarrow> nat \<Rightarrow> 'v tensor \<Rightarrow> 'v tensor" where
  "rows_between a b t =
     (let m = tn_shape t ! 0; n = tn_shape t ! 1 in grid (min b m - min a m) n (\<lambda>i j. at2 t (min a m + i) j))"

definition bank_row :: "'v tensor \<Rightarrow> nat \<Rightarrow> 'v tensor" where
  "bank_row t e = \<lparr>tn_shape = tl (tn_shape t), tn_data = row_at (prod_list (tl (tn_shape t))) (tn_data t) e\<rparr>"

text \<open>The floating-point operations are a parameter: conversion of an integer and of an element to
  single precision, product, difference, the conversion to the output type, signed halves and powers
  of two.\<close>

record 'f tensor_ops =
  tp_int :: "int \<Rightarrow> 'f"
  tp_single :: "'f elem \<Rightarrow> 'f"
  tp_mul :: "'f \<Rightarrow> 'f \<Rightarrow> 'f"
  tp_sub :: "'f \<Rightarrow> 'f \<Rightarrow> 'f"
  tp_out :: "'f \<Rightarrow> 'f"
  tp_half :: "bool \<Rightarrow> nat \<Rightarrow> 'f"
  tp_exp2 :: "int \<Rightarrow> 'f"

definition w32 :: "'f elem \<Rightarrow> 32 word" where
  "w32 x = (case x of W32 w \<Rightarrow> w | _ \<Rightarrow> 0)"

definition is_w32 :: "'f elem \<Rightarrow> bool" where
  "is_w32 x = (case x of W32 _ \<Rightarrow> True | _ \<Rightarrow> False)"

definition w8 :: "'f elem \<Rightarrow> 8 word" where
  "w8 x = (case x of W8 w \<Rightarrow> w | _ \<Rightarrow> 0)"

definition is_w8 :: "'f elem \<Rightarrow> bool" where
  "is_w8 x = (case x of W8 _ \<Rightarrow> True | _ \<Rightarrow> False)"

section \<open>GPTQ\<close>

text \<open>\<open>_unpack_int32\<close> with 4 bits: value \<open>i\<close> of a word.\<close>

definition nibble_of :: "32 word \<Rightarrow> nat \<Rightarrow> int" where
  "nibble_of w i = uint (drop_bit (4 * i) w AND 15)"

text \<open>An index into an axis of \<open>G\<close> entries; a negative one counts from the end.\<close>

definition axis_index :: "nat \<Rightarrow> int \<Rightarrow> nat res" where
  "axis_index G i =
     (if 0 \<le> i \<and> i < int G then Inr (nat i) else if - int G \<le> i \<and> i < 0 then Inr (nat (i + int G)) else Inl IndexError)"

definition gptq_entry :: "'f tensor_ops \<Rightarrow> 'f elem tensor \<Rightarrow> 'f elem tensor \<Rightarrow> 'f elem tensor \<Rightarrow> nat list \<Rightarrow> nat list \<Rightarrow> nat \<Rightarrow> nat \<Rightarrow> 'f" where
  "gptq_entry F qw qz sc si zi k j =
     tp_out F (tp_mul F (tp_single F (at2 sc (si ! k) j))
       (tp_sub F (tp_int F (nibble_of (w32 (at2 qw (k div 8) j)) (k mod 8)))
                 (tp_int F (nibble_of (w32 (at2 qz (zi ! k) (j div 8))) (j mod 8) + 1))))"

definition dequantize_gptq :: "'f tensor_ops \<Rightarrow> 'f elem tensor \<Rightarrow> 'f elem tensor \<Rightarrow> 'f elem tensor \<Rightarrow> int list \<Rightarrow> 'f tensor res" where
  "dequantize_gptq F qw qz sc g =
     (if \<not> list_all is_w32 (tn_data qw) \<or> \<not> list_all is_w32 (tn_data qz) then Inl TypeError
      else case (tn_shape qw, tn_shape qz, tn_shape sc) of
        ([kp, n], [gz, nz], [gs, ns]) \<Rightarrow>
          if ns \<noteq> n \<or> nz * 8 \<noteq> n then Inl ValueError
          else if length g \<noteq> kp * 8 then Inl ValueError
          else bind_res (all_res (map (axis_index gs) g)) (\<lambda>si. bind_res (all_res (map (axis_index gz) g)) (\<lambda>zi.
            Inr (grid (kp * 8) n (gptq_entry F qw qz sc si zi))))
      | _ \<Rightarrow> Inl ValueError)"

definition dequantize_gptq_groups :: "'f tensor_ops \<Rightarrow> nat \<Rightarrow> 'f elem tensor \<Rightarrow> 'f elem tensor \<Rightarrow> 'f elem tensor \<Rightarrow> 'f tensor res" where
  "dequantize_gptq_groups F group_size qw qz sc =
     (case tn_shape qw of
        [] \<Rightarrow> Inl IndexError
      | kp # _ \<Rightarrow>
          if group_size = 0 \<and> 0 < kp then Inl RuntimeError
          else dequantize_gptq F qw qz sc (map (\<lambda>k. int (k div group_size)) [0..<kp * 8]))"

definition get_gptq :: "'f tensor_ops \<Rightarrow> nat \<Rightarrow> nat \<Rightarrow> 'f elem gptq_bank \<Rightarrow> 'f elem gptq_bank \<Rightarrow> nat \<Rightarrow> ('f tensor \<times> 'f tensor \<times> 'f tensor) res" where
  "get_gptq F group_size I gu dn e =
     bind_res (dequantize_gptq_groups F group_size (bank_row (gq_qweight gu) e) (bank_row (gq_qzeros gu) e) (bank_row (gq_scales gu) e)) (\<lambda>g.
     bind_res (dequantize_gptq_groups F group_size (bank_row (gq_qweight dn) e) (bank_row (gq_qzeros dn) e) (bank_row (gq_scales dn) e)) (\<lambda>d.
       let gt = transpose2 g in Inr (rows_between 0 I gt, rows_between I (2 * I) gt, transpose2 d)))"

section \<open>Compressed INT8\<close>

text \<open>Byte \<open>i\<close> of a word, stored with an offset of 128.\<close>

definition int8_of :: "32 word \<Rightarrow> nat \<Rightarrow> int" where
  "int8_of w i = uint (drop_bit (8 * i) w AND 0xFF) - 128"

definition int8_entry :: "'f tensor_ops \<Rightarrow> 'f elem tensor \<Rightarrow> 'f elem tensor \<Rightarrow> nat \<Rightarrow> nat \<Rightarrow> nat \<Rightarrow> 'f" where
  "int8_entry F wp sc group_size i j =
     tp_out F (tp_mul F (tp_int F (int8_of (w32 (at2 wp i (j div 4))) (j mod 4))) (tp_single F (at2 sc i (j div group_size))))"

definition dequantize_int8 :: "'f tensor_ops \<Rightarrow> 'f elem tensor \<Rightarrow> 'f elem tensor \<Rightarrow> int \<Rightarrow> 'f tensor res" where
  "dequantize_int8 F wp sc k =
     (case (tn_shape wp, tn_shape sc) of
        ([n, cols], [ns, groups]) \<Rightarrow>
          if ns \<noteq> n then Inl ValueError
          else if groups = 0 then Inl ZeroDivisionError
          else if k mod int groups \<noteq> 0 then Inl ValueError
          else if \<not> list_all is_w32 (tn_data wp) then Inl TypeError
          else if k < 0 \<or> (int (cols * 4) < k \<and> \<not> (cols = 0 \<and> k = 1)) then Inl RuntimeError
          else Inr (grid n (min (nat k) (cols * 4)) (int8_entry F wp sc (nat k div groups)))
      | _ \<Rightarrow> Inl ValueError)"

definition get_int8 :: "'f tensor_ops \<Rightarrow> nat \<Rightarrow> int \<Rightarrow> int \<Rightarrow> 'f int8_bank \<Rightarrow> 'f int8_bank \<Rightarrow> nat \<Rightarrow> ('f tensor \<times> 'f tensor \<times> 'f tensor) res" where
  "get_int8 F I k_gate_up k_down gu dn e =
     bind_res (dequantize_int8 F (bank_row (i8_packed gu) e) (bank_row (i8_scale gu) e) k_gate_up) (\<lambda>g.
     bind_res (dequantize_int8 F (bank_row (i8_packed dn) e) (bank_row (i8_scale dn) e) k_down) (\<lambda>d.
       Inr (rows_between 0 I g, rows_between I (2 * I) g, d)))"

section \<open>Block FP8\<close>

definition ceil_blocks :: "nat \<Rightarrow> nat \<Rightarrow> nat" where
  "ceil_blocks n block = (n + block - 1) div block"

definition fp8_entry :: "'f tensor_ops \<Rightarrow> nat \<Rightarrow> 'f elem tensor \<Rightarrow> 'f elem tensor \<Rightarrow> nat \<Rightarrow> nat \<Rightarrow> 'f" where
  "fp8_entry F block w s i j = tp_out F (tp_mul F (tp_single F (at2 w i j)) (tp_single F (at2 s (i div block) (j div block))))"

definition dequantize_fp8 :: "'f tensor_ops \<Rightarrow> nat \<Rightarrow> 'f elem tensor \<Rightarrow> 'f elem tensor \<Rightarrow> 'f tensor res" where
  "dequantize_fp8 F block w s =
     (case tn_shape w of
        [n, k] \<Rightarrow>
          if block = 0 then Inl ZeroDivisionError
          else if tn_shape s \<noteq> [ceil_blocks n block, ceil_blocks k block] then Inl ValueError
          else Inr (grid n k (fp8_entry F block w s))
      | _ \<Rightarrow> Inl ValueError)"

definition get_fp8 :: "'f tensor_ops \<Rightarrow> nat \<Rightarrow> nat \<Rightarrow> 'f elem fp8_bank \<Rightarrow> 'f elem fp8_bank \<Rightarrow> nat \<Rightarrow> ('f tensor \<times> 'f tensor \<times> 'f tensor) res" where
  "get_fp8 F block I gu dn e =
     bind_res (dequantize_fp8 F block (bank_row (fp_weight gu) e) (bank_row (fp_scale gu) e)) (\<lambda>g.
     bind_res (dequantize_fp8 F block (bank_row (fp_weight dn) e) (bank_row (fp_scale dn) e)) (\<lambda>d.
       Inr (rows_between 0 I g, rows_between I (2 * I) g, d)))"

section \<open>MXFP4\<close>

text \<open>The table \<open>_LUT\<close> by code, as a sign and a number of halves; the low nibble is the even element.\<close>

definition e2m1_halves :: "nat list" where
  "e2m1_halves = [0, 1, 2, 3, 4, 6, 8, 12]"

definition fp4_of :: "'f tensor_ops \<Rightarrow> 8 word \<Rightarrow> 'f" where
  "fp4_of F c = tp_half F (8 \<le> c) (e2m1_halves ! unat (c AND 7))"

definition mxfp4_code :: "8 word \<Rightarrow> nat \<Rightarrow> 8 word" where
  "mxfp4_code b i = (if even i then b AND 0x0F else drop_bit 4 b)"

definition dequantize_mxfp4 :: "'f tensor_ops \<Rightarrow> 'f elem tensor \<Rightarrow> 'f elem tensor \<Rightarrow> 'f tensor res" where
  "dequantize_mxfp4 F blocks scales =
     (if \<not> list_all is_w8 (tn_data blocks) \<or> \<not> list_all is_w8 (tn_data scales) then Inl TypeError
      else if tn_shape blocks = [] then Inl IndexError
      else if last (tn_shape blocks) \<noteq> 16 then Inl ValueError
      else if butlast (tn_shape blocks) \<noteq> tn_shape scales then Inl ValueError
      else case rev (tn_shape scales) of
        [] \<Rightarrow> Inl IndexError
      | nb # rs \<Rightarrow>
          Inr \<lparr>tn_shape = rev rs @ [nb * 32],
            tn_data = concat (map (\<lambda>b. map (\<lambda>i. tp_out F (tp_mul F
                (fp4_of F (mxfp4_code (w8 (tn_data blocks ! (b * 16 + i div 2))) i))
                (tp_exp2 F (uint (w8 (tn_data scales ! b)) - 127)))) [0..<32]) [0..<prod_list (tn_shape scales)])\<rparr>)"

definition get_mxfp4 :: "'f tensor_ops \<Rightarrow> nat \<Rightarrow> 'f elem mxfp4_bank \<Rightarrow> 'f elem mxfp4_bank \<Rightarrow> nat \<Rightarrow> ('f tensor \<times> 'f tensor \<times> 'f tensor) res" where
  "get_mxfp4 F I gu dn e =
     bind_res (dequantize_mxfp4 F (bank_row (mx_blocks gu) e) (bank_row (mx_scales gu) e)) (\<lambda>g.
     bind_res (dequantize_mxfp4 F (bank_row (mx_blocks dn) e) (bank_row (mx_scales dn) e)) (\<lambda>d.
       Inr (rows_between 0 I g, rows_between I (2 * I) g, d)))"

section \<open>Facts on matrices\<close>

definition mat :: "nat \<Rightarrow> nat \<Rightarrow> 'v tensor \<Rightarrow> bool" where
  "mat m n t \<longleftrightarrow> tn_shape t = [m, n] \<and> length (tn_data t) = m * n"

lemma length_grid_rows: "length (concat (map (\<lambda>i. map (f i) [0..<n]) [0..<m])) = m * n"
  by (induction m) simp_all

lemma mat_grid: "mat m n (grid m n f)"
  by (simp add: mat_def grid_def length_grid_rows)

lemma nth_grid: "i < m \<Longrightarrow> j < n \<Longrightarrow> concat (map (\<lambda>i. map (f i) [0..<n]) [0..<m]) ! (i * n + j) = f i j"
proof (induction m)
  case (Suc m)
  let ?xs = "concat (map (\<lambda>i. map (f i) [0..<n]) [0..<m])"
  show ?case
  proof (cases "i = m")
    case True
    then show ?thesis using Suc.prems by (simp add: nth_append length_grid_rows)
  next
    case False
    then have i: "i < m" using Suc.prems by simp
    then have "(i + 1) * n \<le> m * n" by (intro mult_le_mono1) simp
    then have "i * n + j < m * n" using Suc.prems(2) by simp
    then show ?thesis using Suc.IH [OF i Suc.prems(2)] by (simp add: nth_append length_grid_rows)
  qed
qed simp

lemma at2_grid: "i < m \<Longrightarrow> j < n \<Longrightarrow> at2 (grid m n f) i j = f i j"
  by (simp add: at2_def grid_def nth_grid)

lemma split_index: "(k::nat) < m * n \<Longrightarrow> k div n < m \<and> k mod n < n \<and> k = k div n * n + k mod n"
  by (cases "n = 0") (simp_all add: less_mult_imp_div_less)

lemma mat_eq_grid: "mat m n t \<Longrightarrow> t = grid m n (at2 t)"
proof -
  assume m: "mat m n t"
  have "tn_data t = concat (map (\<lambda>i. map (at2 t i) [0..<n]) [0..<m])"
  proof (rule nth_equalityI)
    fix k assume "k < length (tn_data t)"
    then have k: "k div n < m" "k mod n < n" "k = k div n * n + k mod n" using split_index [of k m n] m by (auto simp: mat_def)
    show "tn_data t ! k = concat (map (\<lambda>i. map (at2 t i) [0..<n]) [0..<m]) ! k"
      using nth_grid [OF k(1,2), of "at2 t"] k(3) m by (metis at2_def mat_def nth_Cons_0 nth_Cons_Suc One_nat_def)
  qed (use m in \<open>simp add: mat_def length_grid_rows\<close>)
  then show ?thesis using m by (simp add: mat_def grid_def)
qed

lemma grid_cong: "(\<And>i j. i < m \<Longrightarrow> j < n \<Longrightarrow> f i j = g i j) \<Longrightarrow> grid m n f = grid m n g"
  by (auto simp: grid_def intro!: arg_cong [where f = concat] map_cong)

lemma mat_eqI: "mat m n s \<Longrightarrow> mat m n t \<Longrightarrow> (\<And>i j. i < m \<Longrightarrow> j < n \<Longrightarrow> at2 s i j = at2 t i j) \<Longrightarrow> s = t"
  using mat_eq_grid [of m n s] mat_eq_grid [of m n t] grid_cong [of m n "at2 s" "at2 t"] by simp

end
