(* ===== verification/Packed_Laws.thy ===== *)
theory Packed_Laws
  imports Packed_Linear
begin

text \<open>
  Joining gate and up, stacking the experts, taking a slot's row and dequantising it gives what
  dequantising the checkpoint's tensors gives, for GPTQ, block FP8 and compressed INT8.
\<close>

section \<open>Joining, stacking and slicing\<close>

lemma grid_shape [simp]: "tn_shape (grid m n f) = [m, n]"
  by (simp add: grid_def)

lemma row_at_nth: "(i + 1) * n \<le> length xs \<Longrightarrow> j < n \<Longrightarrow> row_at n xs i ! j = xs ! (i * n + j)"
  by (simp add: row_at_def)

lemma cat1:
  assumes "mat m n1 s" "mat m n2 t"
  shows "torch_cat 1 s t = Inr (grid m (n1 + n2) (\<lambda>i j. if j < n1 then at2 s i j else at2 t i (j - n1)))"
proof -
  have row: "row_at n (tn_data u) i = map (at2 u i) [0..<n]" if u: "mat m n u" and i: "i < m" for n u i
  proof (rule nth_equalityI)
    have l: "(i + 1) * n \<le> length (tn_data u)" using u i by (simp add: mat_def) (metis Suc_leI mult_Suc mult_le_mono1)
    then show "length (row_at n (tn_data u) i) = length (map (at2 u i) [0..<n])" by (simp add: row_at_def)
    fix j assume "j < length (row_at n (tn_data u) i)"
    then have j: "j < n" by (simp add: row_at_def)
    then show "row_at n (tn_data u) i ! j = map (at2 u i) [0..<n] ! j"
      using row_at_nth [OF l j] u by (simp add: at2_def mat_def)
  qed
  have join: "row_at n1 (tn_data s) i @ row_at n2 (tn_data t) i =
      map (\<lambda>j. if j < n1 then at2 s i j else at2 t i (j - n1)) [0..<n1 + n2]" if "i < m" for i
    unfolding row [OF assms(1) that] row [OF assms(2) that] by (rule nth_equalityI) (simp_all add: nth_append)
  have "concat (map (\<lambda>e. row_at n1 (tn_data s) e @ row_at n2 (tn_data t) e) [0..<m]) =
      concat (map (\<lambda>i. map (\<lambda>j. if j < n1 then at2 s i j else at2 t i (j - n1)) [0..<n1 + n2]) [0..<m])"
    by (intro arg_cong [where f = concat] map_cong refl join) simp
  then show ?thesis using assms by (simp add: torch_cat_def cat_dim1_def mat_def grid_def)
qed

lemma cat0:
  assumes "mat m1 n s" "mat m2 n t"
  shows "torch_cat 0 s t = Inr (grid (m1 + m2) n (\<lambda>i j. if i < m1 then at2 s i j else at2 t (i - m1) j))"
proof -
  let ?f = "\<lambda>i j. if i < m1 then at2 s i j else at2 t (i - m1) j"
  have t: "torch_cat 0 s t = Inr \<lparr>tn_shape = [m1 + m2, n], tn_data = tn_data s @ tn_data t\<rparr>"
    using assms by (simp add: torch_cat_def cat_dim0_def mat_def)
  have "\<lparr>tn_shape = [m1 + m2, n], tn_data = tn_data s @ tn_data t\<rparr> = grid (m1 + m2) n ?f"
  proof (rule mat_eqI [of "m1 + m2" n])
    show "mat (m1 + m2) n \<lparr>tn_shape = [m1 + m2, n], tn_data = tn_data s @ tn_data t\<rparr>"
      using assms by (simp add: mat_def algebra_simps)
    fix i j assume i: "i < m1 + m2" and j: "j < n"
    have "at2 \<lparr>tn_shape = [m1 + m2, n], tn_data = tn_data s @ tn_data t\<rparr> i j = ?f i j"
    proof (cases "i < m1")
      case True
      then have "(i + 1) * n \<le> m1 * n" by (intro mult_le_mono1) simp
      then have "i * n + j < m1 * n" using j by simp
      then show ?thesis using True assms by (simp add: at2_def mat_def nth_append)
    next
      case False
      then have "i * n + j = m1 * n + ((i - m1) * n + j)" by (metis add.assoc add_mult_distrib le_add_diff_inverse not_less)
      then show ?thesis using False assms by (simp add: at2_def mat_def nth_append)
    qed
    then show "at2 \<lparr>tn_shape = [m1 + m2, n], tn_data = tn_data s @ tn_data t\<rparr> i j = at2 (grid (m1 + m2) n ?f) i j"
      using i j by (simp add: at2_grid)
  qed (rule mat_grid)
  then show ?thesis by (simp only: t)
qed

lemma stacked_row:
  assumes "stack_rows rows = Inr T" "\<forall>r \<in> set rows. length (tn_data r) = prod_list (tn_shape r)" "e < length rows"
  shows "bank_row T e = rows ! e" "length (tn_shape (rows ! e)) = 2"
proof -
  obtain r rs where rows: "rows = r # rs" using assms(3) by (cases rows) auto
  have T: "length (tn_shape r) = 2" "\<forall>x \<in> set rs. tn_shape x = tn_shape r"
    "T = \<lparr>tn_shape = length rows # tn_shape r, tn_data = concat (map tn_data rows)\<rparr>"
    using assms(1) by (auto simp: stack_rows_def rows list_ex_iff split: if_splits)
  have sh: "tn_shape (rows ! e) = tn_shape r" using T(2) assms(3) nth_mem [OF assms(3)] by (auto simp: rows)
  then show "length (tn_shape (rows ! e)) = 2" using T(1) by simp
  have "\<forall>x \<in> set (map tn_data rows). length x = prod_list (tn_shape r)" using T(2) assms(2) by (auto simp: rows)
  then have "row_at (prod_list (tn_shape r)) (concat (map tn_data rows)) e = map tn_data rows ! e"
    using take_drop_concat_rows [of "map tn_data rows" "prod_list (tn_shape r)" e] assms(3) by (simp add: row_at_def)
  then show "bank_row T e = rows ! e" using sh assms(3) by (simp add: bank_row_def T(3))
qed

text \<open>The two halves of what was joined along the rows.\<close>

lemma halves:
  assumes "mat m n s" "mat m n t"
  shows "rows_between 0 m (grid (m + m) n (\<lambda>i j. if i < m then at2 s i j else at2 t (i - m) j)) = s"
    "rows_between m (2 * m) (grid (m + m) n (\<lambda>i j. if i < m then at2 s i j else at2 t (i - m) j)) = t"
proof -
  let ?g = "grid (m + m) n (\<lambda>i j. if i < m then at2 s i j else at2 t (i - m) j)"
  have "rows_between 0 m ?g = grid m n (\<lambda>i j. at2 ?g i j)" by (simp add: rows_between_def)
  also have "\<dots> = grid m n (at2 s)" by (rule grid_cong) (simp add: at2_grid)
  finally show "rows_between 0 m ?g = s" using mat_eq_grid [OF assms(1)] by simp
  have "rows_between m (2 * m) ?g = grid m n (\<lambda>i j. at2 ?g (m + i) j)" by (simp add: rows_between_def)
  also have "\<dots> = grid m n (at2 t)" by (rule grid_cong) (simp add: at2_grid)
  finally show "rows_between m (2 * m) ?g = t" using mat_eq_grid [OF assms(2)] by simp
qed

lemma transpose_grid: "transpose2 (grid m n f) = grid n m (\<lambda>i j. f j i)"
  unfolding transpose2_def by simp (rule grid_cong, simp add: at2_grid)

section \<open>Dequantising what was joined\<close>

definition joined :: "nat \<Rightarrow> 'v tensor \<Rightarrow> 'v tensor \<Rightarrow> nat \<Rightarrow> nat \<Rightarrow> 'v" where
  "joined m s t i j = (if i < m then at2 s i j else at2 t (i - m) j)"

lemma ceil_blocks_less: "0 < block \<Longrightarrow> j < k \<Longrightarrow> j div block < ceil_blocks k block"
proof -
  assume b: "0 < block" and j: "j < k"
  have "(j div block + 1) * block = j div block * block + block" by simp
  also have "\<dots> \<le> j + block" by simp
  also have "\<dots> \<le> k + block - 1" using j by simp
  finally have "j div block + 1 \<le> ceil_blocks k block" using b by (simp add: ceil_blocks_def less_eq_div_iff_mult_less_eq)
  then show ?thesis by simp
qed

lemma fp8_joined:
  assumes "dequantize_fp8 F block w1 s1 = Inr G" "dequantize_fp8 F block w2 s2 = Inr U"
    and wf: "length (tn_data w1) = prod_list (tn_shape w1)" "length (tn_data s1) = prod_list (tn_shape s1)"
      "length (tn_data w2) = prod_list (tn_shape w2)" "length (tn_data s2) = prod_list (tn_shape s2)"
    and sh: "tn_shape G = [m1, k]" "tn_shape U = [m2, k]" and whole: "m1 mod block = 0"
    and cat: "torch_cat 0 w1 w2 = Inr w" "torch_cat 0 s1 s2 = Inr s"
  shows "dequantize_fp8 F block w s = Inr (grid (m1 + m2) k (joined m1 G U)) \<and> mat m1 k G \<and> mat m2 k U"
proof -
  let ?v = "fp8_entry F block"
  let ?c = "ceil_blocks k block"
  have b: "block \<noteq> 0" using assms(1) by (auto simp: dequantize_fp8_def split: list.splits if_splits)
  have G: "mat m1 k w1" "mat (ceil_blocks m1 block) ?c s1" "G = grid m1 k (?v w1 s1)"
    using assms(1) wf sh by (auto simp: dequantize_fp8_def mat_def split: list.splits if_splits)
  have U: "mat m2 k w2" "mat (ceil_blocks m2 block) ?c s2" "U = grid m2 k (?v w2 s2)"
    using assms(2) wf sh by (auto simp: dequantize_fp8_def mat_def split: list.splits if_splits)
  define q where "q = m1 div block"
  have m1: "m1 = q * block" using whole by (metis q_def dvd_div_mult_self mod_eq_0_iff_dvd)
  have add: "(q * block + x + block - 1) div block = q + (x + block - 1) div block" for x
  proof -
    have "q * block + x + block - 1 = x + block - 1 + q * block" using b by simp
    then show ?thesis using b div_mult_self1 [of block "x + block - 1" q] by simp
  qed
  have c1: "ceil_blocks m1 block = q" using add [of 0] b by (simp add: ceil_blocks_def m1)
  have c2: "ceil_blocks (m1 + m2) block = q + ceil_blocks m2 block" using add [of m2] by (simp add: ceil_blocks_def m1)
  have w: "w = grid (m1 + m2) k (joined m1 w1 w2)" using cat0 [OF G(1) U(1)] cat(1) by (simp add: joined_def [abs_def])
  have s: "s = grid (q + ceil_blocks m2 block) ?c (joined q s1 s2)"
    using cat0 [OF G(2) U(2)] cat(2) unfolding c1 joined_def [abs_def] by simp
  have "grid (m1 + m2) k (?v w s) = grid (m1 + m2) k (joined m1 G U)"
  proof (rule grid_cong)
    fix i j assume i: "i < m1 + m2" and j: "j < k"
    have jc: "j div block < ?c" using b j by (simp add: ceil_blocks_less)
    show "?v w s i j = joined m1 G U i j"
    proof (cases "i < m1")
      case True
      then have ib: "i div block < q" by (simp add: m1 less_mult_imp_div_less)
      then show ?thesis using True i j jc by (simp add: w s at2_grid joined_def G(3) fp8_entry_def)
    next
      case False
      then have d: "i div block = q + (i - m1) div block" using b by (metis add_diff_inverse_nat div_mult_self3 m1)
      have "(i - m1) div block < ceil_blocks m2 block" using b False i by (simp add: ceil_blocks_less)
      then show ?thesis using False i j jc d by (simp add: w s at2_grid joined_def U(3) fp8_entry_def)
    qed
  qed
  then show ?thesis using b by (simp add: dequantize_fp8_def w s c2 G(3) U(3) mat_grid)
qed

lemma two_dims: "(case xs of [a, b] \<Rightarrow> f a b | _ \<Rightarrow> Inl e) = Inr y \<longleftrightarrow> (\<exists>a b. xs = [a, b] \<and> f a b = Inr y)"
  by (auto split: list.splits)

lemma dequantize_int8_Inr:
  assumes "dequantize_int8 F wp sc k = Inr G"
  shows "\<exists>n cols groups. tn_shape wp = [n, cols] \<and> tn_shape sc = [n, groups] \<and> groups \<noteq> 0 \<and> k mod int groups = 0 \<and>
    list_all is_w32 (tn_data wp) \<and> 0 \<le> k \<and> (k \<le> int (cols * 4) \<or> cols = 0 \<and> k = 1) \<and>
    G = grid n (min (nat k) (cols * 4)) (int8_entry F wp sc (nat k div groups))"
proof -
  obtain n cols ns groups where sh: "tn_shape wp = [n, cols]" "tn_shape sc = [ns, groups]"
    using assms unfolding dequantize_int8_def by (auto split: list.splits)
  show ?thesis using assms unfolding dequantize_int8_def sh by (auto simp: not_less split: if_splits)
qed

lemma int8_joined:
  assumes "dequantize_int8 F w1 s1 k = Inr G" "dequantize_int8 F w2 s2 k = Inr U"
    and wf: "length (tn_data w1) = prod_list (tn_shape w1)" "length (tn_data s1) = prod_list (tn_shape s1)"
      "length (tn_data w2) = prod_list (tn_shape w2)" "length (tn_data s2) = prod_list (tn_shape s2)"
    and sh: "tn_shape G = [m1, n]" "tn_shape U = [m2, n]"
    and cat: "torch_cat 0 w1 w2 = Inr w" "torch_cat 0 s1 s2 = Inr s"
  shows "dequantize_int8 F w s k = Inr (grid (m1 + m2) n (joined m1 G U)) \<and> mat m1 n G \<and> mat m2 n U"
proof -
  obtain n1 c1 g1 where G: "tn_shape w1 = [n1, c1]" "tn_shape s1 = [n1, g1]" "g1 \<noteq> 0" "k mod int g1 = 0"
      "list_all is_w32 (tn_data w1)" "0 \<le> k" "k \<le> int (c1 * 4) \<or> c1 = 0 \<and> k = 1"
      "G = grid n1 (min (nat k) (c1 * 4)) (int8_entry F w1 s1 (nat k div g1))"
    by (rule exE [OF dequantize_int8_Inr [OF assms(1)]]) (elim exE conjE, rule that)
  obtain n2 c2 g2 where U: "tn_shape w2 = [n2, c2]" "tn_shape s2 = [n2, g2]" "list_all is_w32 (tn_data w2)"
      "U = grid n2 (min (nat k) (c2 * 4)) (int8_entry F w2 s2 (nat k div g2))"
    by (rule exE [OF dequantize_int8_Inr [OF assms(2)]]) (elim exE conjE, rule that)
  have same: "c2 = c1" "g2 = g1" using cat by (auto simp: torch_cat_def cat_dim0_def G(1,2) U(1,2) split: if_splits)
  have n: "n1 = m1" "n2 = m2" "n = min (nat k) (c1 * 4)" using sh by (simp_all add: G(8) U(4))
  have M: "mat m1 c1 w1" "mat m2 c1 w2" "mat m1 g1 s1" "mat m2 g1 s2"
    using wf G(1,2) U(1,2) by (simp_all add: mat_def n same)
  have w: "w = grid (m1 + m2) c1 (joined m1 w1 w2)" using cat0 [OF M(1,2)] cat(1) by (simp add: joined_def [abs_def])
  have s: "s = grid (m1 + m2) g1 (joined m1 s1 s2)" using cat0 [OF M(3,4)] cat(2) by (simp add: joined_def [abs_def])
  have words: "list_all is_w32 (tn_data w)"
    using cat(1) G(1,5) U(1,3) by (auto simp: torch_cat_def cat_dim0_def split: if_splits)
  have "grid (m1 + m2) n (int8_entry F w s (nat k div g1)) = grid (m1 + m2) n (joined m1 G U)"
  proof (rule grid_cong)
    fix i j assume i: "i < m1 + m2" and j: "j < n"
    have "j div 4 < c1" using j by (simp add: n less_mult_imp_div_less)
    moreover have "j div (nat k div g1) < g1"
    proof -
      have "int (nat k) = k" using G(6) by simp
      then have "nat k mod g1 = 0" using G(4) by (metis of_nat_eq_0_iff of_nat_mod)
      then have "nat k = g1 * (nat k div g1)" by (metis dvd_mult_div_cancel mod_eq_0_iff_dvd)
      then have "j < g1 * (nat k div g1)" using j n(3) by simp
      then show ?thesis by (rule less_mult_imp_div_less)
    qed
    ultimately show "int8_entry F w s (nat k div g1) i j = joined m1 G U i j"
      using i j by (auto simp: int8_entry_def w s at2_grid joined_def G(8) U(4) n same)
  qed
  moreover have "dequantize_int8 F w s k = Inr (grid (m1 + m2) n (int8_entry F w s (nat k div g1)))"
    using words G(3,4,6,7) by (auto simp: dequantize_int8_def w s n)
  ultimately show ?thesis by (simp add: G(8) U(4) n same mat_grid)
qed

lemma dequantize_gptq_Inr:
  assumes "dequantize_gptq F qw qz sc g = Inr D"
  shows "\<exists>kp n gz gs si zi. tn_shape qw = [kp, n] \<and> tn_shape qz = [gz, n div 8] \<and> tn_shape sc = [gs, n] \<and> 8 dvd n \<and>
    list_all is_w32 (tn_data qw) \<and> list_all is_w32 (tn_data qz) \<and> length g = kp * 8 \<and>
    map (axis_index gs) g = map Inr si \<and> map (axis_index gz) g = map Inr zi \<and>
    D = grid (kp * 8) n (gptq_entry F qw qz sc si zi)"
proof -
  obtain kp n gz nz gs ns where sh: "tn_shape qw = [kp, n]" "tn_shape qz = [gz, nz]" "tn_shape sc = [gs, ns]"
    using assms unfolding dequantize_gptq_def by (auto split: list.splits if_splits)
  show ?thesis using assms unfolding dequantize_gptq_def sh by (auto simp: bind_res_Inr all_res_Inr split: if_splits)
qed

definition joined_cols :: "nat \<Rightarrow> 'v tensor \<Rightarrow> 'v tensor \<Rightarrow> nat \<Rightarrow> nat \<Rightarrow> 'v" where
  "joined_cols n s t i j = (if j < n then at2 s i j else at2 t i (j - n))"

lemma at2_mem:
  assumes "mat m n t" "i < m" "j < n"
  shows "at2 t i j \<in> set (tn_data t)"
proof -
  have "(i + 1) * n \<le> m * n" using assms(2) by (intro mult_le_mono1) simp
  then have "i * n + j < length (tn_data t)" using assms(1,3) by (simp add: mat_def)
  then show ?thesis using assms(1) by (simp add: at2_def mat_def)
qed

lemma all_joined_cols:
  assumes "mat m n1 s" "mat m n2 t" "list_all P (tn_data s)" "list_all P (tn_data t)"
  shows "list_all P (tn_data (grid m (n1 + n2) (joined_cols n1 s t)))"
  using at2_mem [OF assms(1)] at2_mem [OF assms(2)] assms(3,4) by (auto simp: list_all_iff grid_def joined_cols_def)

lemma axis_index_less: "axis_index G i = Inr r \<Longrightarrow> r < G"
  by (auto simp: axis_index_def split: if_splits)

lemma gptq_joined:
  assumes "dequantize_gptq_groups F gs w1 z1 s1 = Inr G" "dequantize_gptq_groups F gs w2 z2 s2 = Inr U"
    and wf: "length (tn_data w1) = prod_list (tn_shape w1)" "length (tn_data z1) = prod_list (tn_shape z1)"
      "length (tn_data s1) = prod_list (tn_shape s1)" "length (tn_data w2) = prod_list (tn_shape w2)"
      "length (tn_data z2) = prod_list (tn_shape z2)" "length (tn_data s2) = prod_list (tn_shape s2)"
    and sh: "tn_shape G = [k, n1]" "tn_shape U = [k, n2]"
    and cat: "torch_cat 1 w1 w2 = Inr w" "torch_cat 1 z1 z2 = Inr z" "torch_cat 1 s1 s2 = Inr s"
  shows "dequantize_gptq_groups F gs w z s = Inr (grid k (n1 + n2) (joined_cols n1 G U)) \<and> mat k n1 G \<and> mat k n2 U"
proof -
  let ?g = "\<lambda>kp. map (\<lambda>k. int (k div gs)) [0..<kp * 8]"
  obtain kp where kp: "hd (tn_shape w1) = kp" "dequantize_gptq F w1 z1 s1 (?g kp) = Inr G" "\<not> (gs = 0 \<and> 0 < kp)"
    using assms(1) by (auto simp: dequantize_gptq_groups_def split: list.splits if_splits)
  obtain kq where kq: "hd (tn_shape w2) = kq" "dequantize_gptq F w2 z2 s2 (?g kq) = Inr U"
    using assms(2) by (auto simp: dequantize_gptq_groups_def split: list.splits if_splits)
  obtain k1 m1 gz1 gs1 si1 zi1 where G: "tn_shape w1 = [k1, m1]" "tn_shape z1 = [gz1, m1 div 8]" "tn_shape s1 = [gs1, m1]" "8 dvd m1"
      "list_all is_w32 (tn_data w1)" "list_all is_w32 (tn_data z1)" "length (?g kp) = k1 * 8"
      "map (axis_index gs1) (?g kp) = map Inr si1" "map (axis_index gz1) (?g kp) = map Inr zi1"
      "G = grid (k1 * 8) m1 (gptq_entry F w1 z1 s1 si1 zi1)"
    by (rule exE [OF dequantize_gptq_Inr [OF kp(2)]]) (elim exE conjE, rule that)
  obtain k2 m2 gz2 gs2 si2 zi2 where U: "tn_shape w2 = [k2, m2]" "tn_shape z2 = [gz2, m2 div 8]" "tn_shape s2 = [gs2, m2]" "8 dvd m2"
      "list_all is_w32 (tn_data w2)" "list_all is_w32 (tn_data z2)" "length (?g kq) = k2 * 8"
      "map (axis_index gs2) (?g kq) = map Inr si2" "map (axis_index gz2) (?g kq) = map Inr zi2"
      "U = grid (k2 * 8) m2 (gptq_entry F w2 z2 s2 si2 zi2)"
    by (rule exE [OF dequantize_gptq_Inr [OF kq(2)]]) (elim exE conjE, rule that)
  have n: "m1 = n1" "m2 = n2" "k = k1 * 8" "k2 = k1" using sh by (simp_all add: G(10) U(10))
  have kpq: "kp = k1" "kq = k1" using kp(1) kq(1) by (simp_all add: G(1) U(1) n)
  have rows: "gs2 = gs1" "gz2 = gz1"
    using cat by (auto simp: torch_cat_def cat_dim1_def G(2,3) U(2,3) split: if_splits)
  have idx: "si2 = si1" "zi2 = zi1" using G(8,9) U(8,9) by (simp_all add: kpq rows inj_map_eq_map)
  have M: "mat k1 n1 w1" "mat k1 n2 w2" "mat gz1 (n1 div 8) z1" "mat gz1 (n2 div 8) z2" "mat gs1 n1 s1" "mat gs1 n2 s2"
    using wf G(1,2,3) U(1,2,3) by (simp_all add: mat_def n rows)
  have w: "w = grid k1 (n1 + n2) (joined_cols n1 w1 w2)" using cat1 [OF M(1,2)] cat(1) by (simp add: joined_cols_def [abs_def])
  have z: "z = grid gz1 (n1 div 8 + n2 div 8) (joined_cols (n1 div 8) z1 z2)"
    using cat1 [OF M(3,4)] cat(2) by (simp add: joined_cols_def [abs_def])
  have s: "s = grid gs1 (n1 + n2) (joined_cols n1 s1 s2)" using cat1 [OF M(5,6)] cat(3) by (simp add: joined_cols_def [abs_def])
  have words: "list_all is_w32 (tn_data w)" "list_all is_w32 (tn_data z)"
    unfolding w z by (rule all_joined_cols [OF M(1,2) G(5) U(5)], rule all_joined_cols [OF M(3,4) G(6) U(6)])
  have n8: "n1 = 8 * (n1 div 8)" "n1 div 8 + n2 div 8 = (n1 + n2) div 8" "(n1 + n2) div 8 * 8 = n1 + n2"
    using G(4) U(4) by (auto simp: n elim!: dvdE)
  have "grid k (n1 + n2) (gptq_entry F w z s si1 zi1) = grid k (n1 + n2) (joined_cols n1 G U)"
  proof (rule grid_cong)
    fix i j assume i: "i < k" and j: "j < n1 + n2"
    have k8: "i div 8 < k1" using i by (simp add: n less_mult_imp_div_less)
    have nth: "axis_index gs1 (?g k1 ! i) = Inr (si1 ! i)" "axis_index gz1 (?g k1 ! i) = Inr (zi1 ! i)"
      using arg_cong [OF G(8), of "\<lambda>xs. xs ! i"] arg_cong [OF G(9), of "\<lambda>xs. xs ! i"] i
        arg_cong [OF G(8), of length] arg_cong [OF G(9), of length] by (simp_all add: kpq n)
    have r: "si1 ! i < gs1" "zi1 ! i < gz1" using nth axis_index_less by blast+
    show "gptq_entry F w z s si1 zi1 i j = joined_cols n1 G U i j"
    proof (cases "j < n1")
      case True
      then have "j div 8 < n1 div 8" using n8(1) by (metis less_mult_imp_div_less mult.commute)
      then show ?thesis using True i j k8 r
        by (simp add: gptq_entry_def w z s at2_grid joined_cols_def G(10) n)
    next
      case False
      define d where "d = j - n1"
      have jd: "j = d + 8 * (n1 div 8)" "d < n2" using False j n8(1) by (simp_all add: d_def)
      have e: "j div 8 = n1 div 8 + d div 8" "j mod 8 = d mod 8" by (simp_all add: jd(1))
      have "d div 8 < n2 div 8" using jd(2) U(4) by (auto simp: n less_mult_imp_div_less mult.commute elim!: dvdE)
      then show ?thesis using False i j k8 r jd(2)
        by (simp add: gptq_entry_def w z s at2_grid joined_cols_def U(10) n idx e d_def [symmetric])
    qed
  qed
  moreover have "dequantize_gptq_groups F gs w z s = Inr (grid k (n1 + n2) (gptq_entry F w z s si1 zi1))"
  proof -
    have "all_res (map (axis_index gs1) (?g k1)) = Inr si1" "all_res (map (axis_index gz1) (?g k1)) = Inr zi1"
      using G(8,9) by (simp_all add: all_res_Inr kpq del: map_map)
    then show ?thesis using words kp(3) n8 by (simp add: dequantize_gptq_groups_def dequantize_gptq_def w z s kpq n del: map_map)
  qed
  ultimately show ?thesis by (simp add: G(10) U(10) n mat_grid)
qed

end
