(* ===== verification/Packed_Slots.thy ===== *)
theory Packed_Slots
  imports Packed_Laws
begin

text \<open>
  From a checkpoint's tensors to a slot: the gate, up and down matrices that the accessor gives for an
  expert of the streamed banks are the dequantised tensors of that expert's names.
\<close>

section \<open>The tensor of a name\<close>

definition find_part :: "(string \<Rightarrow> component_key option res) \<Rightarrow> (string \<times> 't) list \<Rightarrow> nat \<Rightarrow> nat \<Rightarrow> proj \<Rightarrow> string \<Rightarrow> 't option" where
  "find_part parse ts l e q c =
     map_option snd (List.find (\<lambda>(n, t). parse n = Inr (Some (int l, q, int e, c))) ts)"

lemma map_of_find: "map_of (map (\<lambda>(n, t). (f n, t)) ts) k = map_option snd (List.find (\<lambda>(n, t). f n = k) ts)"
  by (induction ts) auto

lemma pile_find:
  assumes "names_ok (slot_key parse) fits L ts"
  shows "pile_of (slot_key parse) ts (int l, bank_of q) (q, int e, c) = find_part parse ts l e q c"
proof -
  have "List.find (\<lambda>(n, t). the (projr (slot_key parse n)) = (int l, bank_of q, (q, int e, c))) ts =
      List.find (\<lambda>(n, t). parse n = Inr (Some (int l, q, int e, c))) ts"
  proof (rule find_cong [OF refl])
    fix x assume x: "x \<in> set ts"
    obtain n t where nt: "x = (n, t)" by (cases x)
    have "\<exists>l b s. slot_key parse n = Inr (Some (l, b, s)) \<and> 0 \<le> l \<and> l < int L \<and> fits s"
      using assms imageI [OF x, of fst] unfolding names_ok_def nt fst_conv by blast
    then obtain l' q' e' c' where "parse n = Inr (Some (l', q', e', c'))" by (auto simp: slot_key_def bind_res_Inr)
    then show "(case x of (n, t) \<Rightarrow> the (projr (slot_key parse n)) = (int l, bank_of q, (q, int e, c))) \<longleftrightarrow>
        (case x of (n, t) \<Rightarrow> parse n = Inr (Some (int l, q, int e, c)))"
      by (auto simp: nt slot_key_def)
  qed
  then show ?thesis by (simp add: pile_of_def placed_def map_of_find find_part_def)
qed

definition tensor_for :: "(string \<Rightarrow> component_key option res) \<Rightarrow> (string \<times> 't) list \<Rightarrow> nat \<Rightarrow> nat \<Rightarrow> proj \<Rightarrow> string \<Rightarrow> 't" where
  "tensor_for parse ts l e q c = the (find_part parse ts l e q c)"

section \<open>Whole tensors\<close>

definition whole :: "'v tensor \<Rightarrow> bool" where
  "whole t \<longleftrightarrow> length (tn_data t) = prod_list (tn_shape t)"

lemma foldl_prod: "foldl (*) a xs = (a :: nat) * prod_list xs"
  by (induction xs arbitrary: a) simp_all

lemma length_row_at: "e < m \<Longrightarrow> length xs = m * n \<Longrightarrow> length (row_at n xs e) = n"
proof -
  assume "e < m" and l: "length xs = m * n"
  then have "(e + 1) * n \<le> m * n" by (intro mult_le_mono1) simp
  then show ?thesis using l by (simp add: row_at_def)
qed

lemma torch_cat_whole:
  assumes "torch_cat d s t = Inr u" "whole s" "whole t"
  shows "whole u"
proof -
  have "u = t \<or> u = s \<or> cat_dim0 s t = Inr u \<or> cat_dim1 s t = Inr u"
    using assms(1) unfolding torch_cat_def by (metis sum.inject(2))
  then consider "u = t" | "u = s" | "cat_dim0 s t = Inr u" | "cat_dim1 s t = Inr u" by blast
  then show ?thesis
  proof cases
    case 3
    then show ?thesis using assms(2,3) by (auto simp: cat_dim0_def whole_def add_mult_distrib split: list.splits if_splits)
  next
    case 4
    then obtain a m n as where sh: "tn_shape s = a # m # as" "tn_shape t = a # n # as"
        "u = \<lparr>tn_shape = a # (m + n) # as, tn_data = concat (map (\<lambda>e. row_at (foldl (*) 1 (m # as)) (tn_data s) e @
                 row_at (foldl (*) 1 (n # as)) (tn_data t) e) [0..<a])\<rparr>"
      by (auto simp: cat_dim1_def split: list.splits if_splits)
    have "length (row_at (m * prod_list as) (tn_data s) e @ row_at (n * prod_list as) (tn_data t) e) = (m + n) * prod_list as"
      if "e < a" for e
      using length_row_at [OF that, of "tn_data s"] length_row_at [OF that, of "tn_data t"] assms(2,3)
      by (simp add: whole_def sh algebra_simps)
    then have "map (length \<circ> (\<lambda>e. row_at (m * prod_list as) (tn_data s) e @ row_at (n * prod_list as) (tn_data t) e)) [0..<a] =
        map (\<lambda>_. (m + n) * prod_list as) [0..<a]" by (intro map_cong) auto
    then have "length (tn_data u) = a * ((m + n) * prod_list as)"
      unfolding sh(3) by (simp add: foldl_prod length_concat map_replicate_const sum_list_replicate)
    then show ?thesis by (simp add: whole_def sh(3))
  qed (use assms in simp_all)
qed

lemma part_of_whole: "part_of p q e c = Inr t \<Longrightarrow> \<forall>s t. p s = Some t \<longrightarrow> whole t \<Longrightarrow> whole t"
  by (auto simp: part_of_def split: option.splits)

lemma pile_whole: "\<forall>t \<in> snd ` set ts. whole t \<Longrightarrow> pile_of parse ts k s = Some t \<Longrightarrow> whole t"
  by (force simp: pile_of_def placed_def dest: map_of_SomeD)

lemma map_Inr_nth: "map Inr xs = map f [0..<n] \<Longrightarrow> i < n \<Longrightarrow> f i = Inr (xs ! i) \<and> length xs = n"
  by (metis (no_types, lifting) add.left_neutral diff_zero length_map length_upt nth_map nth_upt)

section \<open>A bank's rows\<close>

lemma gptq_row_whole:
  assumes "gptq_row b p e = Inr r" "\<forall>s t. p s = Some t \<longrightarrow> whole t"
  shows "whole (gq_qweight r) \<and> whole (gq_qzeros r) \<and> whole (gq_scales r)"
proof -
  have parts: "whole (gq_qweight r) \<and> whole (gq_qzeros r) \<and> whole (gq_scales r)" if "gptq_parts p q e = Inr r" for q r
    using that part_of_whole [OF _ assms(2)] by (auto simp: gptq_parts_def bind_res_Inr)
  show ?thesis
  proof (cases b)
    case Gate_up_bank
    then obtain g u where gu: "gptq_parts p Gate_proj e = Inr g" "gptq_parts p Up_proj e = Inr u"
        "torch_cat 1 (gq_qweight g) (gq_qweight u) = Inr (gq_qweight r)" "torch_cat 1 (gq_qzeros g) (gq_qzeros u) = Inr (gq_qzeros r)"
        "torch_cat 1 (gq_scales g) (gq_scales u) = Inr (gq_scales r)"
      using assms(1) by (auto simp: gptq_row_def bind_res_Inr split: if_splits)
    then show ?thesis using parts [OF gu(1)] parts [OF gu(2)] torch_cat_whole by blast
  qed (use assms(1) parts in \<open>auto simp: gptq_row_def\<close>)
qed

lemma finalize_gptq_row:
  assumes "finalize_gptq E b p = Inr B" "e < E" "\<forall>s t. p s = Some t \<longrightarrow> whole t"
  shows "\<exists>r. gptq_row b p e = Inr r \<and> bank_row (gq_qweight B) e = gq_qweight r \<and>
    bank_row (gq_qzeros B) e = gq_qzeros r \<and> bank_row (gq_scales B) e = gq_scales r"
proof -
  obtain rows where rows: "map (gptq_row b p) [0..<E] = map Inr rows" "stack_rows (map gq_qweight rows) = Inr (gq_qweight B)"
      "stack_rows (map gq_qzeros rows) = Inr (gq_qzeros B)" "stack_rows (map gq_scales rows) = Inr (gq_scales B)"
  proof -
    obtain rows where a: "all_res (map (gptq_row b p) [0..<E]) = Inr rows"
      "(case rows of [] \<Rightarrow> Inl IndexError | r # rs \<Rightarrow>
           if list_ex (\<lambda>x. gq_g_idx x \<noteq> gq_g_idx r) rs then Inl ValueError
           else bind_res (stack_rows (map gq_qweight rows)) (\<lambda>w.
                bind_res (stack_rows (map gq_qzeros rows)) (\<lambda>z.
                bind_res (stack_rows (map gq_scales rows)) (\<lambda>s.
                  Inr \<lparr>gq_qweight = w, gq_qzeros = z, gq_scales = s, gq_g_idx = gq_g_idx r\<rparr>)))) = Inr B"
      using assms(1) unfolding finalize_gptq_def bind_res_Inr [of "all_res (map (gptq_row b p) [0..<E])"] by blast
    obtain r rs where r: "rows = r # rs" using a(2) by (cases rows) auto
    show ?thesis
      by (rule that [of rows]) (use a in \<open>auto simp: r all_res_Inr bind_res_Inr split: if_splits\<close>)
  qed
  have len: "length rows = E" using arg_cong [OF rows(1), of length] by simp
  have nth: "gptq_row b p i = Inr (rows ! i)" if "i < E" for i
    using arg_cong [OF rows(1), of "\<lambda>xs. xs ! i"] that len by simp
  have w: "\<forall>r \<in> set rows. whole (gq_qweight r) \<and> whole (gq_qzeros r) \<and> whole (gq_scales r)"
    using gptq_row_whole [OF nth assms(3)] len by (metis in_set_conv_nth)
  show ?thesis
    using stacked_row(1) [OF rows(2)] stacked_row(1) [OF rows(3)] stacked_row(1) [OF rows(4)] nth [OF assms(2)] w len assms(2)
    by (auto simp: whole_def)
qed

lemma fp8_row_whole:
  assumes "fp8_row block b p e = Inr r" "\<forall>s t. p s = Some t \<longrightarrow> whole t"
  shows "whole (fp_weight r) \<and> whole (fp_scale r)"
proof -
  have parts: "whole (fp_weight r) \<and> whole (fp_scale r)" if "fp8_parts p q e = Inr r" for q r
    using that part_of_whole [OF _ assms(2)] by (auto simp: fp8_parts_def bind_res_Inr)
  show ?thesis
  proof (cases b)
    case Gate_up_bank
    then obtain g u where gu: "fp8_parts p Gate_proj e = Inr g" "fp8_parts p Up_proj e = Inr u"
        "torch_cat 0 (fp_weight g) (fp_weight u) = Inr (fp_weight r)" "torch_cat 0 (fp_scale g) (fp_scale u) = Inr (fp_scale r)"
      using assms(1) by (auto simp: fp8_row_def bind_res_Inr split: if_splits)
    then show ?thesis using parts [OF gu(1)] parts [OF gu(2)] torch_cat_whole by blast
  qed (use assms(1) parts in \<open>auto simp: fp8_row_def\<close>)
qed

lemma finalize_fp8_row:
  assumes "finalize_fp8 block E b p = Inr B" "e < E" "\<forall>s t. p s = Some t \<longrightarrow> whole t"
  shows "\<exists>r. fp8_row block b p e = Inr r \<and> bank_row (fp_weight B) e = fp_weight r \<and> bank_row (fp_scale B) e = fp_scale r"
proof -
  obtain rows where rows: "map (fp8_row block b p) [0..<E] = map Inr rows" "stack_rows (map fp_weight rows) = Inr (fp_weight B)"
      "stack_rows (map fp_scale rows) = Inr (fp_scale B)"
    using assms(1) by (auto simp: finalize_fp8_def bind_res_Inr all_res_Inr)
  have nth: "fp8_row block b p i = Inr (rows ! i) \<and> length rows = E" if "i < E" for i
    by (rule map_Inr_nth [OF rows(1) [symmetric] that])
  have w: "\<forall>r \<in> set rows. whole (fp_weight r) \<and> whole (fp_scale r)"
    using fp8_row_whole [OF _ assms(3)] nth assms(2) by (metis in_set_conv_nth)
  show ?thesis using stacked_row(1) [OF rows(2)] stacked_row(1) [OF rows(3)] nth [OF assms(2)] w assms(2) by (auto simp: whole_def)
qed

lemma int8_row_whole:
  assumes "int8_row trunc b p e = Inr r" "\<forall>s t. p s = Some t \<longrightarrow> whole t"
  shows "whole (i8_packed r) \<and> whole (i8_scale r)"
proof -
  have parts: "whole (i8_packed r) \<and> whole (i8_scale r)" if "int8_parts trunc p q e = Inr r" for q r
    using that part_of_whole [OF _ assms(2)] by (auto simp: int8_parts_def bind_res_Inr)
  show ?thesis
  proof (cases b)
    case Gate_up_bank
    then obtain g u where gu: "int8_parts trunc p Gate_proj e = Inr g" "int8_parts trunc p Up_proj e = Inr u"
        "torch_cat 0 (i8_packed g) (i8_packed u) = Inr (i8_packed r)" "torch_cat 0 (i8_scale g) (i8_scale u) = Inr (i8_scale r)"
      using assms(1) by (auto simp: int8_row_def bind_res_Inr split: if_splits)
    then show ?thesis using parts [OF gu(1)] parts [OF gu(2)] torch_cat_whole by blast
  qed (use assms(1) parts in \<open>auto simp: int8_row_def\<close>)
qed

lemma int8_rows_Inr: "int8_rows trunc b p k es = Inr rows \<Longrightarrow> map (int8_row trunc b p) es = map Inr rows"
  by (induction es arbitrary: k rows) (auto simp: bind_res_Inr split: if_splits)

lemma finalize_int8_row:
  assumes "finalize_int8 trunc E b p = Inr B" "e < E" "\<forall>s t. p s = Some t \<longrightarrow> whole t"
  shows "\<exists>r. int8_row trunc b p e = Inr r \<and> bank_row (i8_packed B) e = i8_packed r \<and> bank_row (i8_scale B) e = i8_scale r"
proof -
  obtain rows where rows: "int8_rows trunc b p None [0..<E] = Inr rows" "stack_rows (map i8_packed rows) = Inr (i8_packed B)"
      "stack_rows (map i8_scale rows) = Inr (i8_scale B)"
    using assms(1) by (auto simp: finalize_int8_def bind_res_Inr)
  have nth: "int8_row trunc b p i = Inr (rows ! i) \<and> length rows = E" if "i < E" for i
    by (rule map_Inr_nth [OF int8_rows_Inr [OF rows(1), symmetric] that])
  have w: "\<forall>r \<in> set rows. whole (i8_packed r) \<and> whole (i8_scale r)"
    using int8_row_whole [OF _ assms(3)] nth assms(2) by (metis in_set_conv_nth)
  show ?thesis using stacked_row(1) [OF rows(2)] stacked_row(1) [OF rows(3)] nth [OF assms(2)] w assms(2) by (auto simp: whole_def)
qed

lemma transposed_joined:
  assumes "mat k m G" "mat k m U"
  shows "transpose2 (grid k (m + m) (joined_cols m G U)) = grid (m + m) k (joined m (transpose2 G) (transpose2 U)) \<and>
    mat m k (transpose2 G) \<and> mat m k (transpose2 U)"
proof -
  have t: "transpose2 G = grid m k (\<lambda>i j. at2 G j i)" "transpose2 U = grid m k (\<lambda>i j. at2 U j i)"
    using assms by (simp_all add: transpose2_def mat_def)
  have "grid (m + m) k (\<lambda>i j. joined_cols m G U j i) = grid (m + m) k (joined m (transpose2 G) (transpose2 U))"
    by (rule grid_cong) (auto simp: joined_cols_def joined_def t at2_grid)
  then show ?thesis by (simp add: transpose_grid) (simp add: t mat_grid)
qed

section \<open>Slots\<close>

lemma gptq_slots:
  fixes T :: "proj \<Rightarrow> string \<Rightarrow> 'f elem tensor"
  assumes "stream_gptq L E ts = Inr (gus, dns)" "\<forall>t \<in> snd ` set ts. whole t" "l < L" "e < E"
    and T: "\<And>q c. T q c = the (find_part parse_gptq_key ts l e q c)"
    and D: "\<And>q. dequantize_gptq_groups F gs (T q ''qweight'') (T q ''qzeros'') (T q ''scales'') = Inr (D q)"
    and sh: "tn_shape (D Gate_proj) = [k, I]" "tn_shape (D Up_proj) = [k, I]"
  shows "get_gptq F gs I (gus ! l) (dns ! l) e = Inr (transpose2 (D Gate_proj), transpose2 (D Up_proj), transpose2 (D Down_proj))"
proof -
  let ?p = "\<lambda>b. pile_of (slot_key parse_gptq_key) ts (int l, b)"
  note S = assms(1) [unfolded stream_gptq_def gptq.stream_iff]
  have names: "names_ok (slot_key parse_gptq_key) (fits_expert E) L ts" using S by blast
  have wp: "\<forall>s t. ?p b s = Some t \<longrightarrow> whole t" for b
    by (intro allI impI) (rule pile_whole [OF assms(2)])
  have fin: "finalize_gptq E Gate_up_bank (?p Gate_up_bank) = Inr (gus ! l)" "finalize_gptq E Down_bank (?p Down_bank) = Inr (dns ! l)"
    using S map_Inr_nth [OF _ assms(3)] by blast+
  have part: "t = T q c" if "part_of (?p (bank_of q)) q e c = Inr t" for q c t
    using that by (simp add: part_of_def pile_find [OF names] T split: option.splits)
  have parts: "gq_qweight r = T q ''qweight'' \<and> gq_qzeros r = T q ''qzeros'' \<and> gq_scales r = T q ''scales'' \<and>
      whole (gq_qweight r) \<and> whole (gq_qzeros r) \<and> whole (gq_scales r)"
    if "gptq_parts (?p (bank_of q)) q e = Inr r" for q r
    using that part part_of_whole [OF _ wp] by (auto simp: gptq_parts_def bind_res_Inr)
  have bank: "bank_of Gate_proj = Gate_up_bank" "bank_of Up_proj = Gate_up_bank" "bank_of Down_proj = Down_bank"
    by (simp_all add: bank_of_def)
  obtain gu where gu: "gptq_row Gate_up_bank (?p Gate_up_bank) e = Inr gu" "bank_row (gq_qweight (gus ! l)) e = gq_qweight gu"
      "bank_row (gq_qzeros (gus ! l)) e = gq_qzeros gu" "bank_row (gq_scales (gus ! l)) e = gq_scales gu"
    using finalize_gptq_row [OF fin(1) assms(4) wp] by blast
  obtain dn where dn: "gptq_row Down_bank (?p Down_bank) e = Inr dn" "bank_row (gq_qweight (dns ! l)) e = gq_qweight dn"
      "bank_row (gq_qzeros (dns ! l)) e = gq_qzeros dn" "bank_row (gq_scales (dns ! l)) e = gq_scales dn"
    using finalize_gptq_row [OF fin(2) assms(4) wp] by blast
  obtain g u where g: "gptq_parts (?p Gate_up_bank) Gate_proj e = Inr g" "gptq_parts (?p Gate_up_bank) Up_proj e = Inr u"
      "torch_cat 1 (gq_qweight g) (gq_qweight u) = Inr (gq_qweight gu)" "torch_cat 1 (gq_qzeros g) (gq_qzeros u) = Inr (gq_qzeros gu)"
      "torch_cat 1 (gq_scales g) (gq_scales u) = Inr (gq_scales gu)"
    using gu(1) by (auto simp: gptq_row_def bind_res_Inr split: if_splits)
  have d: "gptq_parts (?p Down_bank) Down_proj e = Inr dn" using dn(1) by (simp add: gptq_row_def)
  note pg = parts [of Gate_proj g, unfolded bank, OF g(1)] and pu = parts [of Up_proj u, unfolded bank, OF g(2)]
    and pd = parts [of Down_proj dn, unfolded bank, OF d]
  have J: "dequantize_gptq_groups F gs (gq_qweight gu) (gq_qzeros gu) (gq_scales gu) =
        Inr (grid k (I + I) (joined_cols I (D Gate_proj) (D Up_proj)))" "mat k I (D Gate_proj)" "mat k I (D Up_proj)"
    using gptq_joined [of F gs "gq_qweight g" "gq_qzeros g" "gq_scales g" "D Gate_proj" "gq_qweight u" "gq_qzeros u" "gq_scales u" "D Up_proj", OF _ _ _ _ _ _ _ _ sh g(3,4,5)]
      pg pu D [of Gate_proj] D [of Up_proj] by (auto simp: whole_def)
  note X = transposed_joined [OF J(2,3)]
  have "get_gptq F gs I (gus ! l) (dns ! l) e = Inr (rows_between 0 I (grid (I + I) k (joined I (transpose2 (D Gate_proj)) (transpose2 (D Up_proj)))),
      rows_between I (2 * I) (grid (I + I) k (joined I (transpose2 (D Gate_proj)) (transpose2 (D Up_proj)))), transpose2 (D Down_proj))"
    using D [of Down_proj] J(1) X pd by (simp add: get_gptq_def gu dn Let_def)
  then show ?thesis using halves [of I k "transpose2 (D Gate_proj)" "transpose2 (D Up_proj)"] X by (simp add: joined_def [abs_def])
qed

lemma fp8_slots:
  fixes T :: "proj \<Rightarrow> string \<Rightarrow> 'f elem tensor"
  assumes "stream_fp8 block L E ts = Inr (gus, dns)" "\<forall>t \<in> snd ` set ts. whole t" "l < L" "e < E"
    and T: "\<And>q c. T q c = the (find_part parse_fp8_key ts l e q c)"
    and D: "\<And>q. dequantize_fp8 F block (T q ''weight'') (T q ''weight_scale_inv'') = Inr (D q)"
    and sh: "tn_shape (D Gate_proj) = [I, k]" "tn_shape (D Up_proj) = [I, k]"
  shows "get_fp8 F block I (gus ! l) (dns ! l) e = Inr (D Gate_proj, D Up_proj, D Down_proj)"
proof -
  let ?p = "\<lambda>b. pile_of (slot_key parse_fp8_key) ts (int l, b)"
  note S = assms(1) [unfolded stream_fp8_def fp8.stream_iff]
  have names: "names_ok (slot_key parse_fp8_key) (fits_expert E) L ts" using S by blast
  have wp: "\<forall>s t. ?p b s = Some t \<longrightarrow> whole t" for b
    by (intro allI impI) (rule pile_whole [OF assms(2)])
  have fin: "finalize_fp8 block E Gate_up_bank (?p Gate_up_bank) = Inr (gus ! l)" "finalize_fp8 block E Down_bank (?p Down_bank) = Inr (dns ! l)"
    using S map_Inr_nth [OF _ assms(3)] by blast+
  have part: "t = T q c" if "part_of (?p (bank_of q)) q e c = Inr t" for q c t
    using that by (simp add: part_of_def pile_find [OF names] T split: option.splits)
  have parts: "fp_weight r = T q ''weight'' \<and> fp_scale r = T q ''weight_scale_inv'' \<and> whole (fp_weight r) \<and> whole (fp_scale r)"
    if "fp8_parts (?p (bank_of q)) q e = Inr r" for q r
    using that part part_of_whole [OF _ wp] by (auto simp: fp8_parts_def bind_res_Inr)
  have bank: "bank_of Gate_proj = Gate_up_bank" "bank_of Up_proj = Gate_up_bank" "bank_of Down_proj = Down_bank"
    by (simp_all add: bank_of_def)
  obtain gu where gu: "fp8_row block Gate_up_bank (?p Gate_up_bank) e = Inr gu" "bank_row (fp_weight (gus ! l)) e = fp_weight gu"
      "bank_row (fp_scale (gus ! l)) e = fp_scale gu"
    using finalize_fp8_row [OF fin(1) assms(4) wp] by blast
  obtain dn where dn: "fp8_row block Down_bank (?p Down_bank) e = Inr dn" "bank_row (fp_weight (dns ! l)) e = fp_weight dn"
      "bank_row (fp_scale (dns ! l)) e = fp_scale dn"
    using finalize_fp8_row [OF fin(2) assms(4) wp] by blast
  obtain g u where g: "fp8_parts (?p Gate_up_bank) Gate_proj e = Inr g" "fp8_parts (?p Gate_up_bank) Up_proj e = Inr u"
      "hd (tn_shape (fp_weight g)) mod block = 0"
      "torch_cat 0 (fp_weight g) (fp_weight u) = Inr (fp_weight gu)" "torch_cat 0 (fp_scale g) (fp_scale u) = Inr (fp_scale gu)"
    using gu(1) by (auto simp: fp8_row_def bind_res_Inr split: if_splits)
  have d: "fp8_parts (?p Down_bank) Down_proj e = Inr dn" using dn(1) by (simp add: fp8_row_def)
  note pg = parts [of Gate_proj g, unfolded bank, OF g(1)] and pu = parts [of Up_proj u, unfolded bank, OF g(2)]
    and pd = parts [of Down_proj dn, unfolded bank, OF d]
  have "tn_shape (fp_weight g) = tn_shape (D Gate_proj)"
    using D [of Gate_proj] pg by (auto simp: dequantize_fp8_def split: list.splits if_splits) (metis grid_shape)
  then have whole_rows: "I mod block = 0" using g(3) sh(1) by simp
  have J: "dequantize_fp8 F block (fp_weight gu) (fp_scale gu) = Inr (grid (I + I) k (joined I (D Gate_proj) (D Up_proj)))"
      "mat I k (D Gate_proj)" "mat I k (D Up_proj)"
    using fp8_joined [of F block "fp_weight g" "fp_scale g" "D Gate_proj" "fp_weight u" "fp_scale u" "D Up_proj", OF _ _ _ _ _ _ sh whole_rows g(4,5)]
      pg pu D [of Gate_proj] D [of Up_proj] by (auto simp: whole_def)
  show ?thesis using D [of Down_proj] J(1) pd halves [OF J(2,3)] by (simp add: get_fp8_def gu dn joined_def [abs_def])
qed

lemma int8_slots:
  fixes T :: "proj \<Rightarrow> string \<Rightarrow> 'f elem tensor"
  assumes "stream_int8 trunc L E ts = Inr (gus, dns)" "\<forall>t \<in> snd ` set ts. whole t" "l < L" "e < E"
    and T: "\<And>q c. T q c = the (find_part parse_int8_key ts l e q c)"
    and D: "\<And>q. dequantize_int8 F (T q ''weight_packed'') (T q ''weight_scale'') (if q = Down_proj then kd else kg) = Inr (D q)"
    and sh: "tn_shape (D Gate_proj) = [I, n]" "tn_shape (D Up_proj) = [I, n]"
  shows "get_int8 F I kg kd (gus ! l) (dns ! l) e = Inr (D Gate_proj, D Up_proj, D Down_proj)"
proof -
  let ?p = "\<lambda>b. pile_of (slot_key parse_int8_key) ts (int l, b)"
  note S = assms(1) [unfolded stream_int8_def int8.stream_iff]
  have names: "names_ok (slot_key parse_int8_key) (fits_expert E) L ts" using S by blast
  have wp: "\<forall>s t. ?p b s = Some t \<longrightarrow> whole t" for b
    by (intro allI impI) (rule pile_whole [OF assms(2)])
  have fin: "finalize_int8 trunc E Gate_up_bank (?p Gate_up_bank) = Inr (gus ! l)" "finalize_int8 trunc E Down_bank (?p Down_bank) = Inr (dns ! l)"
    using S map_Inr_nth [OF _ assms(3)] by blast+
  have part: "t = T q c" if "part_of (?p (bank_of q)) q e c = Inr t" for q c t
    using that by (simp add: part_of_def pile_find [OF names] T split: option.splits)
  have parts: "i8_packed r = T q ''weight_packed'' \<and> i8_scale r = T q ''weight_scale'' \<and> whole (i8_packed r) \<and> whole (i8_scale r)"
    if "int8_parts trunc (?p (bank_of q)) q e = Inr r" for q r
    using that part part_of_whole [OF _ wp] by (auto simp: int8_parts_def bind_res_Inr)
  have bank: "bank_of Gate_proj = Gate_up_bank" "bank_of Up_proj = Gate_up_bank" "bank_of Down_proj = Down_bank"
    by (simp_all add: bank_of_def)
  obtain gu where gu: "int8_row trunc Gate_up_bank (?p Gate_up_bank) e = Inr gu" "bank_row (i8_packed (gus ! l)) e = i8_packed gu"
      "bank_row (i8_scale (gus ! l)) e = i8_scale gu"
    using finalize_int8_row [OF fin(1) assms(4) wp] by blast
  obtain dn where dn: "int8_row trunc Down_bank (?p Down_bank) e = Inr dn" "bank_row (i8_packed (dns ! l)) e = i8_packed dn"
      "bank_row (i8_scale (dns ! l)) e = i8_scale dn"
    using finalize_int8_row [OF fin(2) assms(4) wp] by blast
  obtain g u where g: "int8_parts trunc (?p Gate_up_bank) Gate_proj e = Inr g" "int8_parts trunc (?p Gate_up_bank) Up_proj e = Inr u"
      "torch_cat 0 (i8_packed g) (i8_packed u) = Inr (i8_packed gu)" "torch_cat 0 (i8_scale g) (i8_scale u) = Inr (i8_scale gu)"
    using gu(1) by (auto simp: int8_row_def bind_res_Inr split: if_splits)
  have d: "int8_parts trunc (?p Down_bank) Down_proj e = Inr dn" using dn(1) by (simp add: int8_row_def)
  note pg = parts [of Gate_proj g, unfolded bank, OF g(1)] and pu = parts [of Up_proj u, unfolded bank, OF g(2)]
    and pd = parts [of Down_proj dn, unfolded bank, OF d]
  have J: "dequantize_int8 F (i8_packed gu) (i8_scale gu) kg = Inr (grid (I + I) n (joined I (D Gate_proj) (D Up_proj)))"
      "mat I n (D Gate_proj)" "mat I n (D Up_proj)"
    using int8_joined [of F "i8_packed g" "i8_scale g" kg "D Gate_proj" "i8_packed u" "i8_scale u" "D Up_proj", OF _ _ _ _ _ _ sh g(3,4)]
      pg pu D [of Gate_proj] D [of Up_proj] by (auto simp: whole_def)
  show ?thesis using D [of Down_proj] J(1) pd halves [OF J(2,3)] by (simp add: get_int8_def gu dn joined_def [abs_def])
qed


section \<open>One expert in each format\<close>

definition demo_tensor_ops :: "int tensor_ops" where
  "demo_tensor_ops = \<lparr>tp_int = id, tp_single = (\<lambda>x. elem_int id x), tp_mul = (*), tp_sub = (-), tp_out = id,
     tp_half = (\<lambda>s h. if s then - int h else int h), tp_exp2 = id\<rparr>"

definition demo_expert :: "proj \<Rightarrow> string \<Rightarrow> nat list \<Rightarrow> int elem list \<Rightarrow> string \<times> int elem tensor" where
  "demo_expert q c shape xs =
     (''model.layers.0.mlp.experts.0.'' @ (case q of Gate_proj \<Rightarrow> ''gate_proj'' | Up_proj \<Rightarrow> ''up_proj'' | Down_proj \<Rightarrow> ''down_proj'') @
       ''.'' @ c, \<lparr>tn_shape = shape, tn_data = xs\<rparr>)"

definition demo_gptq :: "(string \<times> int elem tensor) list" where
  "demo_gptq = concat (map (\<lambda>(q, w).
     [demo_expert q ''scales'' [1, 8] (map Fp [1, 2, 3, 1, 2, 3, 1, 2]), demo_expert q ''qweight'' [1, 8] (map (\<lambda>i. W32 (w + i)) [0, 1, 2, 3, 4, 5, 6, 7]),
      demo_expert q ''g_idx'' [8] (map I64 [0, 0, 0, 0, 0, 0, 0, 0]), demo_expert q ''qzeros'' [1, 1] [W32 0x11111111]])
     [(Up_proj, 0x12345670), (Down_proj, 0x01010101), (Gate_proj, 0xFEDCBA90)])"

definition demo_fp8 :: "(string \<times> int elem tensor) list" where
  "demo_fp8 = concat (map (\<lambda>(q, w). [demo_expert q ''weight'' [1, 1] [Fp w], demo_expert q ''weight_scale_inv'' [1, 1] [Fp 2]])
     [(Gate_proj, 3), (Up_proj, 4), (Down_proj, 5)])"

definition demo_int8 :: "(string \<times> int elem tensor) list" where
  "demo_int8 = concat (map (\<lambda>(q, w). [demo_expert q ''weight_packed'' [1, 1] [W32 w], demo_expert q ''weight_scale'' [1, 2] [Fp 2, Fp 3],
      demo_expert q ''weight_shape'' [2] [I64 1, I64 4]])
     [(Gate_proj, 0x817F8000), (Up_proj, 0x80808080), (Down_proj, 0x01020304)])"

lemma demo_banks: "ok (stream_gptq 1 1 demo_gptq)" "ok (stream_fp8 1 1 1 demo_fp8)" "ok (stream_int8 id 1 1 demo_int8)"
  by code_simp+

definition demo_gptq_matrix :: "proj \<Rightarrow> int tensor" where
  "demo_gptq_matrix q = projr (dequantize_gptq_groups demo_tensor_ops 8 (tensor_for parse_gptq_key demo_gptq 0 0 q ''qweight'')
     (tensor_for parse_gptq_key demo_gptq 0 0 q ''qzeros'') (tensor_for parse_gptq_key demo_gptq 0 0 q ''scales''))"

definition demo_fp8_matrix :: "proj \<Rightarrow> int tensor" where
  "demo_fp8_matrix q = \<lparr>tn_shape = [1, 1], tn_data = [case q of Gate_proj \<Rightarrow> 6 | Up_proj \<Rightarrow> 8 | Down_proj \<Rightarrow> 10]\<rparr>"

definition demo_int8_matrix :: "proj \<Rightarrow> int tensor" where
  "demo_int8_matrix q = \<lparr>tn_shape = [1, 4], tn_data = (case q of Gate_proj \<Rightarrow> [- 256, 0, - 3, 3] | Up_proj \<Rightarrow> [0, 0, 0, 0]
     | Down_proj \<Rightarrow> [- 248, - 250, - 378, - 381])\<rparr>"

lemma demo_matrices:
  "ok (dequantize_gptq_groups demo_tensor_ops 8 (tensor_for parse_gptq_key demo_gptq 0 0 q ''qweight'')
     (tensor_for parse_gptq_key demo_gptq 0 0 q ''qzeros'') (tensor_for parse_gptq_key demo_gptq 0 0 q ''scales''))"
  by (cases q; simp only:; code_simp)

lemma demo_gptq_Inr:
  "dequantize_gptq_groups demo_tensor_ops 8 (tensor_for parse_gptq_key demo_gptq 0 0 q ''qweight'')
     (tensor_for parse_gptq_key demo_gptq 0 0 q ''qzeros'') (tensor_for parse_gptq_key demo_gptq 0 0 q ''scales'') = Inr (demo_gptq_matrix q)"
  using demo_matrices [of q] by (auto simp: demo_gptq_matrix_def ok_def split: sum.splits)

lemma demo_matrices2:
  "dequantize_fp8 demo_tensor_ops 1 (tensor_for parse_fp8_key demo_fp8 0 0 q ''weight'')
     (tensor_for parse_fp8_key demo_fp8 0 0 q ''weight_scale_inv'') = Inr (demo_fp8_matrix q)"
  by (cases q; simp only:; code_simp)

lemma demo_matrices3:
  "dequantize_int8 demo_tensor_ops (tensor_for parse_int8_key demo_int8 0 0 q ''weight_packed'')
     (tensor_for parse_int8_key demo_int8 0 0 q ''weight_scale'') 4 = Inr (demo_int8_matrix q)"
  by (cases q; simp only:; code_simp)

lemma demo_shapes: "tn_shape (demo_gptq_matrix Gate_proj) = [8, 8]" "tn_shape (demo_gptq_matrix Up_proj) = [8, 8]"
  by code_simp+


definition demo_mxfp4 :: "(string \<times> int elem tensor) list" where
  "demo_mxfp4 = map (\<lambda>(n, s, m). (''model.layers.0.mlp.experts.'' @ n, \<lparr>tn_shape = s, tn_data = replicate m (W8 7)\<rparr>))
     [(''gate_up_proj_blocks'', [1, 1, 1, 16], 16), (''down_proj_scales'', [1, 1, 1], 1), (''gate_up_proj_scales'', [1, 1, 1], 1),
      (''down_proj_blocks'', [1, 1, 1, 16], 16)]"

lemma demo_mxfp4_ok: "ok (stream_mxfp4 1 1 demo_mxfp4)"
  by code_simp

theorem banks_any_order_witness:
  "(\<exists>r. stream_gptq 1 1 demo_gptq = Inr r \<and> stream_gptq 1 1 (rev demo_gptq) = Inr r) \<and>
   (\<exists>r. stream_fp8 1 1 1 demo_fp8 = Inr r \<and> stream_fp8 1 1 1 (rev demo_fp8) = Inr r) \<and>
   (\<exists>r. stream_int8 id 1 1 demo_int8 = Inr r \<and> stream_int8 id 1 1 (rev demo_int8) = Inr r) \<and>
   (\<exists>r. stream_mxfp4 1 1 demo_mxfp4 = Inr r \<and> stream_mxfp4 1 1 (rev demo_mxfp4) = Inr r)"
proof -
  have r: "mset xs = mset (rev xs)" for xs :: "(string \<times> int elem tensor) list" by simp
  have o: "\<exists>v. x = Inr v" if "ok x" for x :: "'a res" using that by (cases x) simp_all
  obtain g f i m where b: "stream_gptq 1 1 demo_gptq = Inr g" "stream_fp8 1 1 1 demo_fp8 = Inr f"
      "stream_int8 id 1 1 demo_int8 = Inr i" "stream_mxfp4 1 1 demo_mxfp4 = Inr m"
    using o [OF demo_banks(1)] demo_banks(2,3) demo_mxfp4_ok by (auto simp: ok_def split: sum.splits)
  note A = banks_any_order [of demo_gptq "rev demo_gptq" 1 1 g demo_fp8 "rev demo_fp8" 1 f demo_int8 "rev demo_int8" id i demo_mxfp4 "rev demo_mxfp4" m]
  show ?thesis using A b r by blast
qed

end
