(* ===== verification/Dense_Banks.thy ===== *)
theory Dense_Banks
  imports Expert_Banks
begin

text \<open>
  \<open>models/weight.py\<close>, \<open>stream_moe_expert_sources\<close>: the dense (bf16) expert banks, from whole packed
  layers or from one tensor per expert and projection.
\<close>

section \<open>State and steps\<close>

record expert_config =
  ec_layers :: nat
  ec_experts :: nat
  ec_first_dense :: nat

record 'v dense_state =
  dn_banks :: "expert_bank \<Rightarrow> nat \<Rightarrow> 'v tensor option"
  dn_shape :: "expert_bank \<Rightarrow> nat list option"
  dn_seen :: "expert_bank \<Rightarrow> nat set"
  dn_rows :: "proj \<Rightarrow> nat \<Rightarrow> nat \<Rightarrow> 'v tensor option"

definition dense_init :: "'v dense_state" where
  "dense_init = \<lparr>dn_banks = (\<lambda>_ _. None), dn_shape = (\<lambda>_. None), dn_seen = (\<lambda>_. {}), dn_rows = (\<lambda>_ _ _. None)\<rparr>"

text \<open>\<open>row_shape.setdefault\<close> and the check against it.\<close>

definition agree_shape :: "expert_bank \<Rightarrow> nat list \<Rightarrow> 'v dense_state \<Rightarrow> 'v dense_state res" where
  "agree_shape b sh st =
     (case dn_shape st b of
        None \<Rightarrow> Inr (st\<lparr>dn_shape := (dn_shape st)(b \<mapsto> sh)\<rparr>)
      | Some s \<Rightarrow> if s = sh then Inr st else Inl ValueError)"

text \<open>\<open>bank.tensor.copy_\<close>: a bank that exists keeps its shape; a single row is repeated to fill it.\<close>

definition copy_into :: "'v tensor option \<Rightarrow> 'v tensor \<Rightarrow> 'v tensor res" where
  "copy_into old t =
     (case old of
        None \<Rightarrow> Inr t
      | Some s \<Rightarrow>
          if tn_shape s = tn_shape t then Inr t
          else (case (tn_shape s, tn_shape t) of
            ([a, m, n], [a', k, n']) \<Rightarrow>
              if k = 1 \<and> a' = a \<and> n' = n
              then Inr \<lparr>tn_shape = [a, m, n], tn_data = concat (map (\<lambda>e. concat (replicate m (row_at n (tn_data t) e))) [0..<a])\<rparr>
              else Inl RuntimeError
          | _ \<Rightarrow> Inl RuntimeError))"

definition copy_layer :: "expert_config \<Rightarrow> expert_bank \<Rightarrow> 'v tensor \<Rightarrow> int \<Rightarrow> 'v dense_state \<Rightarrow> 'v dense_state res" where
  "copy_layer C b t l st =
     (if l < 0 \<or> int (ec_layers C) \<le> l then Inl ValueError
      else if tn_shape t = [] then Inl IndexError
      else if hd (tn_shape t) \<noteq> ec_experts C then Inl ValueError
      else bind_res (agree_shape b (tl (tn_shape t)) st) (\<lambda>st. bind_res (copy_into (dn_banks st b (nat l)) t) (\<lambda>t.
        Inr (st\<lparr>dn_banks := (dn_banks st)(b := (dn_banks st b)(nat l \<mapsto> t)),
          dn_seen := (dn_seen st)(b := insert (nat l) (dn_seen st b))\<rparr>))))"

definition buffer_row :: "expert_config \<Rightarrow> proj \<Rightarrow> 'v tensor \<Rightarrow> int \<Rightarrow> int \<Rightarrow> 'v dense_state \<Rightarrow> 'v dense_state res" where
  "buffer_row C q t l e st =
     (if \<not> (0 \<le> l \<and> l < int (ec_layers C)) then Inl ValueError
      else if \<not> (0 \<le> e \<and> e < int (ec_experts C)) then Inl ValueError
      else bind_res (agree_shape (bank_of q) (tn_shape t) st) (\<lambda>st.
        if dn_rows st q (nat l) (nat e) \<noteq> None then Inl ValueError
        else Inr (st\<lparr>dn_rows := (dn_rows st)(q := (dn_rows st q)(nat l := (dn_rows st q (nat l))(nat e \<mapsto> t)))\<rparr>)))"

definition rows_full :: "expert_config \<Rightarrow> proj \<Rightarrow> nat \<Rightarrow> 'v dense_state \<Rightarrow> bool" where
  "rows_full C q l st \<longleftrightarrow> list_all (\<lambda>e. dn_rows st q l e \<noteq> None) [0..<ec_experts C]"

definition rows_of :: "expert_config \<Rightarrow> proj \<Rightarrow> nat \<Rightarrow> 'v dense_state \<Rightarrow> 'v tensor list" where
  "rows_of C q l st = map (\<lambda>e. the (dn_rows st q l e)) [0..<ec_experts C]"

definition maybe_finalize :: "expert_config \<Rightarrow> nat \<Rightarrow> 'v dense_state \<Rightarrow> 'v dense_state res" where
  "maybe_finalize C l st =
     (if dn_banks st Gate_up_bank l \<noteq> None \<and> dn_banks st Down_bank l \<noteq> None then Inr st
      else if \<not> (rows_full C Gate_proj l st \<and> rows_full C Up_proj l st \<and> rows_full C Down_proj l st) then Inr st
      else bind_res (stack_rows (rows_of C Gate_proj l st)) (\<lambda>g. bind_res (stack_rows (rows_of C Up_proj l st)) (\<lambda>u.
        bind_res (stack_rows (rows_of C Down_proj l st)) (\<lambda>d. bind_res (torch_cat 1 g u) (\<lambda>gu.
          Inr (st\<lparr>dn_banks := (\<lambda>b. (dn_banks st b)(l \<mapsto> (case b of Gate_up_bank \<Rightarrow> gu | Down_bank \<Rightarrow> d))),
            dn_rows := (\<lambda>q. (dn_rows st q)(l := Map.empty))\<rparr>))))))"

text \<open>One tensor of the stream; the conversion to the bank's type is a parameter.\<close>

definition dense_step :: "expert_config \<Rightarrow> ('v \<Rightarrow> 'v) \<Rightarrow> string \<times> 'v tensor \<Rightarrow> 'v dense_state \<Rightarrow> 'v dense_state res" where
  "dense_step C cast x st =
     bind_res (expert_source_info (fst x)) (\<lambda>info.
       case info of
         None \<Rightarrow> Inl ValueError
       | Some (l, Packed b) \<Rightarrow> copy_layer C b (tn_map cast (snd x)) l st
       | Some (l, Row q e) \<Rightarrow>
           bind_res (buffer_row C q (tn_map cast (snd x)) l e st) (\<lambda>st.
             maybe_finalize C (nat l) (st\<lparr>dn_seen := (dn_seen st)(bank_of q := insert (nat l) (dn_seen st (bank_of q)))\<rparr>)))"

fun dense_feed :: "expert_config \<Rightarrow> ('v \<Rightarrow> 'v) \<Rightarrow> (string \<times> 'v tensor) list \<Rightarrow> 'v dense_state \<Rightarrow> 'v dense_state res" where
  "dense_feed C cast [] st = Inr st"
| "dense_feed C cast (x # xs) st = bind_res (dense_step C cast x st) (dense_feed C cast xs)"

fun finalize_rest :: "expert_config \<Rightarrow> nat list \<Rightarrow> 'v dense_state \<Rightarrow> 'v dense_state res" where
  "finalize_rest C [] st = Inr st"
| "finalize_rest C (l # ls) st = bind_res (maybe_finalize C l st) (finalize_rest C ls)"

text \<open>Reading \<open>bank.tensor\<close> of a bank that was never built.\<close>

definition bank_tensor :: "'v tensor option \<Rightarrow> 'v tensor res" where
  "bank_tensor b = (case b of None \<Rightarrow> Inl AttributeError | Some t \<Rightarrow> Inr t)"

definition stream_dense :: "expert_config \<Rightarrow> ('v \<Rightarrow> 'v) \<Rightarrow> (string \<times> 'v tensor) list \<Rightarrow> ('v tensor list \<times> 'v tensor list) res" where
  "stream_dense C cast ts =
     bind_res (dense_feed C cast ts dense_init) (\<lambda>st.
       if dn_seen st Gate_up_bank \<noteq> {ec_first_dense C..<ec_layers C} \<or> dn_seen st Down_bank \<noteq> {ec_first_dense C..<ec_layers C}
       then Inl ValueError
       else bind_res (finalize_rest C [0..<ec_layers C] st) (\<lambda>st.
         bind_res (all_res (map (\<lambda>l. bank_tensor (dn_banks st Gate_up_bank l)) [ec_first_dense C..<ec_layers C])) (\<lambda>gu.
         bind_res (all_res (map (\<lambda>l. bank_tensor (dn_banks st Down_bank l)) [ec_first_dense C..<ec_layers C])) (\<lambda>dn.
           Inr (gu, dn)))))"

section \<open>Which streams are accepted\<close>

definition dense_bank :: "dense_key \<Rightarrow> expert_bank" where
  "dense_bank k = (case k of Packed b \<Rightarrow> b | Row q e \<Rightarrow> bank_of q)"

text \<open>The shape a tensor is compared by, and whether a name is in the stream.\<close>

definition item_shape :: "dense_key \<Rightarrow> 'v tensor \<Rightarrow> nat list" where
  "item_shape k t = (case k of Packed b \<Rightarrow> tl (tn_shape t) | Row q e \<Rightarrow> tn_shape t)"

definition has_key :: "(string \<times> 'v tensor) list \<Rightarrow> nat \<Rightarrow> dense_key \<Rightarrow> bool" where
  "has_key ts l k \<longleftrightarrow> (\<exists>x \<in> set ts. expert_source_info (fst x) = Inr (Some (int l, k)))"

text \<open>Shapes, once recorded, stay.\<close>

abbreviation keeps_shapes :: "'v dense_state \<Rightarrow> 'v dense_state \<Rightarrow> bool" where
  "keeps_shapes st st' \<equiv> (\<forall>b s. dn_shape st b = Some s \<longrightarrow> dn_shape st' b = Some s)"

lemma agree_shape_Inr:
  assumes "agree_shape b sh st = Inr st'"
  shows "dn_shape st' b = Some sh" "keeps_shapes st st'" "dn_banks st' = dn_banks st" "dn_rows st' = dn_rows st"
  using assms by (auto simp: agree_shape_def split: option.splits if_splits)

lemma copy_layer_Inr:
  assumes "copy_layer C b t l st = Inr st'"
  obtains s1 t1 where "agree_shape b (tl (tn_shape t)) st = Inr s1" "0 \<le> l"
    "st' = s1\<lparr>dn_banks := (dn_banks s1)(b := (dn_banks s1 b)(nat l \<mapsto> t1)), dn_seen := (dn_seen s1)(b := insert (nat l) (dn_seen s1 b))\<rparr>"
proof -
  have l: "\<not> (l < 0 \<or> int (ec_layers C) \<le> l)" using assms by (auto simp: copy_layer_def)
  have r: "\<not> tn_shape t = []" using assms l by (auto simp: copy_layer_def)
  have e: "\<not> hd (tn_shape t) \<noteq> ec_experts C" using assms unfolding copy_layer_def if_not_P [OF l] if_not_P [OF r] by (metis Inl_Inr_False)
  from assms have "bind_res (agree_shape b (tl (tn_shape t)) st) (\<lambda>st. bind_res (copy_into (dn_banks st b (nat l)) t) (\<lambda>t.
        Inr (st\<lparr>dn_banks := (dn_banks st)(b := (dn_banks st b)(nat l \<mapsto> t)),
          dn_seen := (dn_seen st)(b := insert (nat l) (dn_seen st b))\<rparr>))) = Inr st'"
    unfolding copy_layer_def if_not_P [OF l] if_not_P [OF r] if_not_P [OF e] .
  then show ?thesis using that l unfolding bind_res_Inr by force
qed

lemma buffer_row_Inr:
  assumes "buffer_row C q t l e st = Inr st'"
  obtains s1 where "agree_shape (bank_of q) (tn_shape t) st = Inr s1" "0 \<le> l" "0 \<le> e"
    "st' = s1\<lparr>dn_rows := (dn_rows s1)(q := (dn_rows s1 q)(nat l := (dn_rows s1 q (nat l))(nat e \<mapsto> t)))\<rparr>"
proof -
  have l: "\<not> \<not> (0 \<le> l \<and> l < int (ec_layers C))" using assms unfolding buffer_row_def by (metis Inl_Inr_False)
  have e: "\<not> \<not> (0 \<le> e \<and> e < int (ec_experts C))" using assms unfolding buffer_row_def if_not_P [OF l] by (metis Inl_Inr_False)
  from assms have "bind_res (agree_shape (bank_of q) (tn_shape t) st) (\<lambda>st.
        if dn_rows st q (nat l) (nat e) \<noteq> None then Inl ValueError
        else Inr (st\<lparr>dn_rows := (dn_rows st)(q := (dn_rows st q)(nat l := (dn_rows st q (nat l))(nat e \<mapsto> t)))\<rparr>)) = Inr st'"
    unfolding buffer_row_def if_not_P [OF l] if_not_P [OF e] .
  then obtain s1 where s: "agree_shape (bank_of q) (tn_shape t) st = Inr s1"
    "(if dn_rows s1 q (nat l) (nat e) \<noteq> None then Inl ValueError
        else Inr (s1\<lparr>dn_rows := (dn_rows s1)(q := (dn_rows s1 q)(nat l := (dn_rows s1 q (nat l))(nat e \<mapsto> t)))\<rparr>)) = Inr st'"
    unfolding bind_res_Inr by blast
  from s(2) have "st' = s1\<lparr>dn_rows := (dn_rows s1)(q := (dn_rows s1 q)(nat l := (dn_rows s1 q (nat l))(nat e \<mapsto> t)))\<rparr>"
    by (metis Inl_Inr_False sum.inject(2))
  with s(1) l e show ?thesis using that by blast
qed

lemma maybe_finalize_Inr:
  assumes "maybe_finalize C l st = Inr st'"
  obtains "st' = st" | gu d where "rows_full C Gate_proj l st" "rows_full C Up_proj l st" "rows_full C Down_proj l st"
      "st' = st\<lparr>dn_banks := (\<lambda>b. (dn_banks st b)(l \<mapsto> (case b of Gate_up_bank \<Rightarrow> gu | Down_bank \<Rightarrow> d))),
            dn_rows := (\<lambda>q. (dn_rows st q)(l := Map.empty))\<rparr>"
proof (cases "dn_banks st Gate_up_bank l \<noteq> None \<and> dn_banks st Down_bank l \<noteq> None")
  case True
  have "Inr st = (Inr st' :: 'a dense_state res)" using assms unfolding maybe_finalize_def if_P [OF True] .
  then show ?thesis using that(1) by simp
next
  case False
  note A = assms [unfolded maybe_finalize_def if_not_P [OF False]]
  show ?thesis
  proof (cases "rows_full C Gate_proj l st \<and> rows_full C Up_proj l st \<and> rows_full C Down_proj l st")
    case f: True
    from A f show ?thesis using that(2) unfolding bind_res_Inr by (simp only: not_True_eq_False if_False simp_thms bind_res_Inr) blast
  next
    case f: False
    from A f have "st' = st" by simp
    then show ?thesis by (rule that(1))
  qed
qed

text \<open>What a state owes to the tensors seen.\<close>

definition shapes_ok :: "(string \<times> 'v tensor) list \<Rightarrow> 'v dense_state \<Rightarrow> bool" where
  "shapes_ok ts st \<longleftrightarrow> (\<forall>x \<in> set ts. \<exists>l k. expert_source_info (fst x) = Inr (Some (l, k)) \<and>
     dn_shape st (dense_bank k) = Some (item_shape k (snd x)))"

definition rows_seen :: "(string \<times> 'v tensor) list \<Rightarrow> 'v dense_state \<Rightarrow> bool" where
  "rows_seen ts st \<longleftrightarrow> (\<forall>q l e. dn_rows st q l e \<noteq> None \<longrightarrow> has_key ts l (Row q (int e)))"

definition named :: "expert_config \<Rightarrow> (string \<times> 'v tensor) list \<Rightarrow> nat \<Rightarrow> expert_bank \<Rightarrow> bool" where
  "named C ts l b \<longleftrightarrow> has_key ts l (Packed b) \<or> (\<forall>q. \<forall>e < ec_experts C. has_key ts l (Row q (int e)))"

definition banks_seen :: "expert_config \<Rightarrow> (string \<times> 'v tensor) list \<Rightarrow> 'v dense_state \<Rightarrow> bool" where
  "banks_seen C ts st \<longleftrightarrow> (\<forall>b l. dn_banks st b l \<noteq> None \<longrightarrow> named C ts l b)"

abbreviation dense_ok :: "expert_config \<Rightarrow> (string \<times> 'v tensor) list \<Rightarrow> 'v dense_state \<Rightarrow> bool" where
  "dense_ok C ts st \<equiv> shapes_ok ts st \<and> rows_seen ts st \<and> banks_seen C ts st"

lemma has_key_snoc: "has_key (ts @ [x]) l k \<longleftrightarrow> has_key ts l k \<or> expert_source_info (fst x) = Inr (Some (int l, k))"
  by (auto simp: has_key_def)

lemma named_snoc: "named C ts l b \<Longrightarrow> named C (ts @ [x]) l b"
  by (auto simp: named_def has_key_snoc)

lemma tn_shape_map [simp]: "tn_shape (tn_map f t) = tn_shape t"
  by (simp add: tn_map_def)

lemma finalize_ok:
  assumes "maybe_finalize C l st = Inr st'" "dense_ok C ts st"
  shows "dense_ok C ts st'"
proof (rule maybe_finalize_Inr [OF assms(1)])
  assume "st' = st" then show ?thesis using assms(2) by simp
next
  fix gu d
  assume r: "rows_full C Gate_proj l st" "rows_full C Up_proj l st" "rows_full C Down_proj l st"
    and s: "st' = st\<lparr>dn_banks := (\<lambda>b. (dn_banks st b)(l \<mapsto> (case b of Gate_up_bank \<Rightarrow> gu | Down_bank \<Rightarrow> d))),
            dn_rows := (\<lambda>q. (dn_rows st q)(l := Map.empty))\<rparr>"
  have "has_key ts l (Row q (int e))" if "e < ec_experts C" for q e
  proof -
    have "dn_rows st q l e \<noteq> None" using r that by (cases q) (simp_all add: rows_full_def list_all_iff)
    then show ?thesis using assms(2) unfolding rows_seen_def by blast
  qed
  then have n: "named C ts l b" for b by (simp add: named_def)
  have "shapes_ok ts st'" using assms(2) by (simp add: s shapes_ok_def)
  moreover have "rows_seen ts st'" using assms(2) unfolding rows_seen_def s by (simp add: fun_upd_def)
  moreover have "banks_seen C ts st'" using assms(2) n unfolding banks_seen_def s by (simp add: fun_upd_def)
  ultimately show ?thesis by simp
qed

lemma shapes_ok_snoc:
  assumes "shapes_ok ts st" "keeps_shapes st st'" "expert_source_info (fst x) = Inr (Some (l, k))"
    "dn_shape st' (dense_bank k) = Some (item_shape k (snd x))"
  shows "shapes_ok (ts @ [x]) st'"
  unfolding shapes_ok_def
proof
  fix y assume "y \<in> set (ts @ [x])"
  then consider "y \<in> set ts" | "y = x" by auto
  then show "\<exists>l k. expert_source_info (fst y) = Inr (Some (l, k)) \<and> dn_shape st' (dense_bank k) = Some (item_shape k (snd y))"
  proof cases
    case 1
    then show ?thesis using assms(1,2) unfolding shapes_ok_def by blast
  next
    case 2
    then show ?thesis using assms(3,4) by blast
  qed
qed

lemma packed_ok:
  assumes "copy_layer C b (tn_map cast (snd x)) l st = Inr st'" "expert_source_info (fst x) = Inr (Some (l, Packed b))" "dense_ok C ts st"
  shows "dense_ok C (ts @ [x]) st'"
proof (rule copy_layer_Inr [OF assms(1)])
  fix s1 t1
  assume a: "agree_shape b (tl (tn_shape (tn_map cast (snd x)))) st = Inr s1" and l: "0 \<le> l"
    and s: "st' = s1\<lparr>dn_banks := (dn_banks s1)(b := (dn_banks s1 b)(nat l \<mapsto> t1)), dn_seen := (dn_seen s1)(b := insert (nat l) (dn_seen s1 b))\<rparr>"
  note A = agree_shape_Inr [OF a]
  have i: "expert_source_info (fst x) = Inr (Some (int (nat l), Packed b))" using assms(2) l by simp
  have "shapes_ok (ts @ [x]) st'"
    by (rule shapes_ok_snoc [OF _ _ i]) (use assms(3) A in \<open>simp_all add: s item_shape_def dense_bank_def\<close>)
  moreover have "rows_seen (ts @ [x]) st'" using assms(3) A(4) unfolding rows_seen_def s by (simp add: has_key_snoc)
  moreover have "named C (ts @ [x]) (nat l) b" using i by (simp add: named_def has_key_snoc)
  then have "banks_seen C (ts @ [x]) st'"
    using assms(3) A(3) named_snoc [of C ts _ _ x] unfolding banks_seen_def s by (simp add: fun_upd_def)
  ultimately show ?thesis by simp
qed

lemma row_ok:
  assumes "buffer_row C q (tn_map cast (snd x)) l e st = Inr st'" "expert_source_info (fst x) = Inr (Some (l, Row q e))" "dense_ok C ts st"
  shows "dense_ok C (ts @ [x]) (st'\<lparr>dn_seen := m\<rparr>)"
proof (rule buffer_row_Inr [OF assms(1)])
  fix s1
  assume a: "agree_shape (bank_of q) (tn_shape (tn_map cast (snd x))) st = Inr s1" and l: "0 \<le> l" "0 \<le> e"
    and s: "st' = s1\<lparr>dn_rows := (dn_rows s1)(q := (dn_rows s1 q)(nat l := (dn_rows s1 q (nat l))(nat e \<mapsto> tn_map cast (snd x))))\<rparr>"
  note A = agree_shape_Inr [OF a]
  have i: "expert_source_info (fst x) = Inr (Some (int (nat l), Row q (int (nat e))))" using assms(2) l by simp
  have "shapes_ok (ts @ [x]) (st'\<lparr>dn_seen := m\<rparr>)"
    by (rule shapes_ok_snoc [OF _ _ i]) (use assms(3) A in \<open>simp_all add: s item_shape_def dense_bank_def\<close>)
  moreover have "rows_seen (ts @ [x]) (st'\<lparr>dn_seen := m\<rparr>)"
    using assms(3) A(4) i unfolding rows_seen_def s by (simp add: fun_upd_def has_key_snoc)
  moreover have "banks_seen C (ts @ [x]) (st'\<lparr>dn_seen := m\<rparr>)"
    using assms(3) A(3) named_snoc [of C ts _ _ x] unfolding banks_seen_def s by simp
  ultimately show ?thesis by simp
qed

lemma step_ok:
  assumes "dense_step C cast x st = Inr st'" "dense_ok C ts st"
  shows "dense_ok C (ts @ [x]) st'"
proof -
  obtain info where i: "expert_source_info (fst x) = Inr info"
      "(case info of None \<Rightarrow> Inl ValueError
       | Some (l, Packed b) \<Rightarrow> copy_layer C b (tn_map cast (snd x)) l st
       | Some (l, Row q e) \<Rightarrow>
           bind_res (buffer_row C q (tn_map cast (snd x)) l e st) (\<lambda>st.
             maybe_finalize C (nat l) (st\<lparr>dn_seen := (dn_seen st)(bank_of q := insert (nat l) (dn_seen st (bank_of q)))\<rparr>))) = Inr st'"
    using assms(1) unfolding dense_step_def bind_res_Inr by blast
  then obtain l k where k: "info = Some (l, k)" by (cases info) auto
  show ?thesis
  proof (cases k)
    case (Packed b)
    then have "copy_layer C b (tn_map cast (snd x)) l st = Inr st'" using i(2) k by simp
    then show ?thesis by (rule packed_ok) (use i(1) k Packed assms(2) in simp_all)
  next
    case (Row q e)
    then have "bind_res (buffer_row C q (tn_map cast (snd x)) l e st) (\<lambda>st.
             maybe_finalize C (nat l) (st\<lparr>dn_seen := (dn_seen st)(bank_of q := insert (nat l) (dn_seen st (bank_of q)))\<rparr>)) = Inr st'"
      using i(2) k by simp
    then obtain s1 where s: "buffer_row C q (tn_map cast (snd x)) l e st = Inr s1"
      "maybe_finalize C (nat l) (s1\<lparr>dn_seen := (dn_seen s1)(bank_of q := insert (nat l) (dn_seen s1 (bank_of q)))\<rparr>) = Inr st'"
      unfolding bind_res_Inr by blast
    have "expert_source_info (fst x) = Inr (Some (l, Row q e))" using i(1) k Row by simp
    from finalize_ok [OF s(2) row_ok [OF s(1) this assms(2)]] show ?thesis .
  qed
qed

lemma feed_ok:
  "dense_feed C cast xs st = Inr st' \<Longrightarrow> dense_ok C ts st \<Longrightarrow> dense_ok C (ts @ xs) st'"
proof (induction xs arbitrary: ts st)
  case (Cons x xs)
  then obtain s where "dense_step C cast x st = Inr s" "dense_feed C cast xs s = Inr st'"
    unfolding dense_feed.simps bind_res_Inr by blast
  with Cons.IH [of s "ts @ [x]"] step_ok Cons.prems(2) show ?case by (metis append.assoc append_Cons append_Nil)
qed simp

lemma rest_ok:
  "finalize_rest C ls st = Inr st' \<Longrightarrow> dense_ok C ts st \<Longrightarrow> dense_ok C ts st'"
proof (induction ls arbitrary: st)
  case (Cons l ls)
  then obtain s where "maybe_finalize C l st = Inr s" "finalize_rest C ls s = Inr st'"
    unfolding finalize_rest.simps bind_res_Inr by blast
  with Cons.IH finalize_ok Cons.prems(2) show ?case by blast
qed simp

lemma bank_tensor_Inr: "bank_tensor b = Inr t \<longleftrightarrow> b = Some t"
  by (cases b) (simp_all add: bank_tensor_def)

lemma stream_dense_Inr:
  assumes "stream_dense C cast ts = Inr (gu, dn)"
  obtains st where "dense_ok C ts st" "map (\<lambda>l. dn_banks st Gate_up_bank l) [ec_first_dense C..<ec_layers C] = map Some gu"
    "map (\<lambda>l. dn_banks st Down_bank l) [ec_first_dense C..<ec_layers C] = map Some dn"
proof -
  obtain s0 where s0: "dense_feed C cast ts dense_init = Inr s0"
    "(if dn_seen s0 Gate_up_bank \<noteq> {ec_first_dense C..<ec_layers C} \<or> dn_seen s0 Down_bank \<noteq> {ec_first_dense C..<ec_layers C}
       then Inl ValueError
       else bind_res (finalize_rest C [0..<ec_layers C] s0) (\<lambda>st.
         bind_res (all_res (map (\<lambda>l. bank_tensor (dn_banks st Gate_up_bank l)) [ec_first_dense C..<ec_layers C])) (\<lambda>gu.
         bind_res (all_res (map (\<lambda>l. bank_tensor (dn_banks st Down_bank l)) [ec_first_dense C..<ec_layers C])) (\<lambda>dn.
           Inr (gu, dn))))) = Inr (gu, dn)"
    using assms unfolding stream_dense_def bind_res_Inr by blast
  then have "bind_res (finalize_rest C [0..<ec_layers C] s0) (\<lambda>st.
         bind_res (all_res (map (\<lambda>l. bank_tensor (dn_banks st Gate_up_bank l)) [ec_first_dense C..<ec_layers C])) (\<lambda>gu.
         bind_res (all_res (map (\<lambda>l. bank_tensor (dn_banks st Down_bank l)) [ec_first_dense C..<ec_layers C])) (\<lambda>dn.
           Inr (gu, dn)))) = Inr (gu, dn)" by (metis Inl_Inr_False)
  then obtain st where st: "finalize_rest C [0..<ec_layers C] s0 = Inr st"
    "all_res (map (\<lambda>l. bank_tensor (dn_banks st Gate_up_bank l)) [ec_first_dense C..<ec_layers C]) = Inr gu"
    "all_res (map (\<lambda>l. bank_tensor (dn_banks st Down_bank l)) [ec_first_dense C..<ec_layers C]) = Inr dn"
    unfolding bind_res_Inr by blast
  have "dense_ok C ([] :: (string \<times> 'a tensor) list) dense_init"
    by (simp add: shapes_ok_def rows_seen_def banks_seen_def dense_init_def)
  from rest_ok [OF st(1) feed_ok [OF s0(1) this]] have "dense_ok C ts st" by simp
  moreover have "map (\<lambda>l. dn_banks st b l) ls = map Some xs"
    if "all_res (map (\<lambda>l. bank_tensor (dn_banks st b l)) ls) = Inr xs" for b ls xs
    using that unfolding all_res_Inr by (auto simp: list_eq_iff_nth_eq bank_tensor_Inr)
  ultimately show ?thesis using that st(2,3) by blast
qed

text \<open>A stream whose only layer has a packed bank and per-expert rows for the other.\<close>

definition demo_mixed :: "(string \<times> int tensor) list" where
  "demo_mixed =
     [(''layers.0.mlp.experts.gate_up_proj'', \<lparr>tn_shape = [1, 2, 1], tn_data = [1, 2]\<rparr>),
      (''layers.0.mlp.experts.0.down_proj'', \<lparr>tn_shape = [1, 1], tn_data = [3]\<rparr>)]"

definition demo_rows :: "(string \<times> int tensor) list" where
  "demo_rows =
     [(''layers.0.mlp.experts.0.up_proj'', \<lparr>tn_shape = [1, 1], tn_data = [2]\<rparr>),
      (''layers.0.mlp.experts.0.down_proj'', \<lparr>tn_shape = [1, 1], tn_data = [3]\<rparr>),
      (''layers.0.mlp.experts.0.gate_proj'', \<lparr>tn_shape = [1, 1], tn_data = [1]\<rparr>)]"

definition demo_config :: expert_config where
  "demo_config = \<lparr>ec_layers = 1, ec_experts = 1, ec_first_dense = 0\<rparr>"



end
