(* ===== verification/Dense_Rows.thy ===== *)
theory Dense_Rows
  imports Dense_Banks Packed_Laws
begin

text \<open>
  \<open>models/weight.py\<close>, \<open>stream_moe_expert_sources\<close>: a checkpoint of one tensor per expert and
  projection, in whatever order it arrives, gives the banks that stack those tensors.
\<close>

section \<open>Stacking and fusing\<close>

lemma stack_ok:
  assumes "rows \<noteq> []" "\<forall>r \<in> set rows. tn_shape r = sh" "length sh = 2"
  shows "stack_rows rows = Inr \<lparr>tn_shape = length rows # sh, tn_data = concat (map tn_data rows)\<rparr>"
  using assms by (cases rows) (auto simp: stack_rows_def list_ex_iff)

lemma fold_mult2: "foldl (*) 1 [m, n] = m * (n :: nat)"
  by simp

lemma fuse_ok:
  assumes "tn_shape g = [E, m, n]" "tn_shape u = [E, m, n]"
  shows "torch_cat 1 g u = Inr \<lparr>tn_shape = [E, m + m, n],
    tn_data = concat (map (\<lambda>e. row_at (m * n) (tn_data g) e @ row_at (m * n) (tn_data u) e) [0..<E])\<rparr>"
  using assms by (simp add: torch_cat_def cat_dim1_def)

lemma fused_row:
  assumes G: "length gs = E" "\<forall>r \<in> set gs. tn_shape r = [m, n] \<and> length (tn_data r) = m * n"
    and U: "length us = E" "\<forall>r \<in> set us. tn_shape r = [m, n] \<and> length (tn_data r) = m * n" and e: "e < E"
  obtains g u gu where "stack_rows gs = Inr g" "stack_rows us = Inr u" "torch_cat 1 g u = Inr gu"
    "torch_cat 0 (gs ! e) (us ! e) = Inr (bank_row gu e)"
proof -
  let ?g = "\<lparr>tn_shape = [E, m, n], tn_data = concat (map tn_data gs)\<rparr>" and ?u = "\<lparr>tn_shape = [E, m, n], tn_data = concat (map tn_data us)\<rparr>"
  have ne: "gs \<noteq> []" "us \<noteq> []" using G(1) U(1) e by auto
  have s: "stack_rows gs = Inr ?g" "stack_rows us = Inr ?u"
    using stack_ok [OF ne(1), of "[m, n]"] stack_ok [OF ne(2), of "[m, n]"] G U by simp_all
  let ?gu = "\<lparr>tn_shape = [E, m + m, n],
    tn_data = concat (map (\<lambda>e. row_at (m * n) (concat (map tn_data gs)) e @ row_at (m * n) (concat (map tn_data us)) e) [0..<E])\<rparr>"
  have f: "torch_cat 1 ?g ?u = Inr ?gu" using fuse_ok [of ?g E m n ?u] by simp
  have row: "row_at (m * n) (concat (map tn_data rs)) k = tn_data (rs ! k)"
    if "length rs = E" "\<forall>r \<in> set rs. tn_shape r = [m, n] \<and> length (tn_data r) = m * n" "k < E" for rs k
    using take_drop_concat_rows [of "map tn_data rs" "m * n" k] that by (auto simp: row_at_def)
  have parts: "concat (map (\<lambda>e. row_at (m * n) (concat (map tn_data gs)) e @ row_at (m * n) (concat (map tn_data us)) e) [0..<E]) =
      concat (map (\<lambda>e. tn_data (gs ! e) @ tn_data (us ! e)) [0..<E])"
    by (intro arg_cong [where f = concat] map_cong refl) (simp add: row [OF G] row [OF U])
  have l: "length (tn_data (gs ! k)) = m * n \<and> length (tn_data (us ! k)) = m * n" if "k < E" for k
    using G U that by (metis nth_mem)
  have "row_at ((m + m) * n) (concat (map (\<lambda>e. tn_data (gs ! e) @ tn_data (us ! e)) [0..<E])) e = tn_data (gs ! e) @ tn_data (us ! e)"
    using take_drop_concat_rows [of "map (\<lambda>e. tn_data (gs ! e) @ tn_data (us ! e)) [0..<E]" "(m + m) * n" e] e l
    by (auto simp: row_at_def algebra_simps)
  then have b: "bank_row ?gu e = \<lparr>tn_shape = [m + m, n], tn_data = tn_data (gs ! e) @ tn_data (us ! e)\<rparr>"
    by (simp add: bank_row_def parts)
  have "tn_shape (gs ! e) = [m, n]" "tn_shape (us ! e) = [m, n]" using G U e by (metis nth_mem)+
  then have "torch_cat 0 (gs ! e) (us ! e) = Inr (bank_row ?gu e)"
    unfolding b by (simp add: torch_cat_def cat_dim0_def)
  with s f show ?thesis by (rule that)
qed

section \<open>The state after some rows\<close>

text \<open>The row a stream holds for a projection, a layer and an expert.\<close>

definition row_in :: "(string \<times> 'v tensor) list \<Rightarrow> proj \<Rightarrow> nat \<Rightarrow> nat \<Rightarrow> 'v tensor option" where
  "row_in ts q l e = map_of (map (\<lambda>x. (expert_source_info (fst x), snd x)) ts) (Inr (Some (int l, Row q (int e))))"

definition all_rows :: "expert_config \<Rightarrow> (string \<times> 'v tensor) list \<Rightarrow> nat \<Rightarrow> bool" where
  "all_rows C ts l \<longleftrightarrow> (\<forall>q. \<forall>e < ec_experts C. row_in ts q l e \<noteq> None)"

text \<open>A tensor that is a row of the bank shapes \<open>shp\<close>, for a layer with experts.\<close>

definition row_item :: "expert_config \<Rightarrow> (expert_bank \<Rightarrow> nat \<times> nat) \<Rightarrow> string \<times> 'v tensor \<Rightarrow> bool" where
  "row_item C shp x \<longleftrightarrow> (\<exists>q l e. expert_source_info (fst x) = Inr (Some (int l, Row q (int e))) \<and>
     ec_first_dense C \<le> l \<and> l < ec_layers C \<and> e < ec_experts C \<and>
     tn_shape (snd x) = [fst (shp (bank_of q)), snd (shp (bank_of q))] \<and>
     length (tn_data (snd x)) = fst (shp (bank_of q)) * snd (shp (bank_of q)))"

definition stacked :: "expert_config \<Rightarrow> ('v \<Rightarrow> 'v) \<Rightarrow> (string \<times> 'v tensor) list \<Rightarrow> proj \<Rightarrow> nat \<Rightarrow> 'v tensor list" where
  "stacked C cast ts q l = map (\<lambda>e. tn_map cast (the (row_in ts q l e))) [0..<ec_experts C]"

definition layer_built :: "expert_config \<Rightarrow> ('v \<Rightarrow> 'v) \<Rightarrow> (string \<times> 'v tensor) list \<Rightarrow> 'v dense_state \<Rightarrow> nat \<Rightarrow> bool" where
  "layer_built C cast ts st l \<longleftrightarrow> (\<exists>g u gu d. stack_rows (stacked C cast ts Gate_proj l) = Inr g \<and>
     stack_rows (stacked C cast ts Up_proj l) = Inr u \<and> torch_cat 1 g u = Inr gu \<and>
     stack_rows (stacked C cast ts Down_proj l) = Inr d \<and> dn_banks st Gate_up_bank l = Some gu \<and> dn_banks st Down_bank l = Some d)"

definition rows_state :: "expert_config \<Rightarrow> ('v \<Rightarrow> 'v) \<Rightarrow> (expert_bank \<Rightarrow> nat \<times> nat) \<Rightarrow> (string \<times> 'v tensor) list \<Rightarrow> 'v dense_state \<Rightarrow> bool" where
  "rows_state C cast shp ts st \<longleftrightarrow>
     (\<forall>q l e. dn_rows st q l e = (if all_rows C ts l then None else map_option (tn_map cast) (row_in ts q l e))) \<and>
     (\<forall>l. if all_rows C ts l then layer_built C cast ts st l else (\<forall>b. dn_banks st b l = None)) \<and>
     (\<forall>b. dn_seen st b = {l. \<exists>q e. bank_of q = b \<and> row_in ts q l e \<noteq> None}) \<and>
     (\<forall>b s. dn_shape st b = Some s \<longrightarrow> s = [fst (shp b), snd (shp b)])"

lemma row_in_snoc:
  assumes "expert_source_info (fst x) \<notin> (expert_source_info \<circ> fst) ` set ts" "expert_source_info (fst x) = Inr (Some (int l, Row q (int e)))"
  shows "row_in ts q l e = None" "row_in (ts @ [x]) q l e = Some (snd x)"
    "(q', l', e') \<noteq> (q, l, e) \<Longrightarrow> row_in (ts @ [x]) q' l' e' = row_in ts q' l' e'"
proof -
  show n: "row_in ts q l e = None"
    unfolding row_in_def map_of_eq_None_iff using assms by (auto simp: image_iff)
  then show "row_in (ts @ [x]) q l e = Some (snd x)" using assms(2) by (simp add: row_in_def map_add_def)
  show "(q', l', e') \<noteq> (q, l, e) \<Longrightarrow> row_in (ts @ [x]) q' l' e' = row_in ts q' l' e'"
    using assms(2) by (auto simp: row_in_def map_add_def split: option.splits)
qed

lemma row_in_item: "row_in ts q l e = Some t \<Longrightarrow> \<forall>x \<in> set ts. row_item C shp x \<Longrightarrow>
  tn_shape t = [fst (shp (bank_of q)), snd (shp (bank_of q))] \<and> length (tn_data t) = fst (shp (bank_of q)) * snd (shp (bank_of q)) \<and>
  ec_first_dense C \<le> l \<and> l < ec_layers C \<and> e < ec_experts C"
  unfolding row_in_def by (drule map_of_SomeD) (fastforce simp: row_item_def)

lemma stacked_items:
  assumes "all_rows C ts l" "\<forall>x \<in> set ts. row_item C shp x" "r \<in> set (stacked C cast ts q l)"
  shows "tn_shape r = [fst (shp (bank_of q)), snd (shp (bank_of q))] \<and> length (tn_data r) = fst (shp (bank_of q)) * snd (shp (bank_of q))"
proof -
  obtain e where e: "e < ec_experts C" "r = tn_map cast (the (row_in ts q l e))" using assms(3) by (auto simp: stacked_def)
  then obtain t where "row_in ts q l e = Some t" using assms(1) unfolding all_rows_def by blast
  with row_in_item [OF this assms(2)] e(2) show ?thesis by (simp add: tn_map_def)
qed

lemma stacked_rows:
  assumes "all_rows C ts l" "\<forall>x \<in> set ts. row_item C shp x" "0 < ec_experts C"
  shows "stack_rows (stacked C cast ts q l) = Inr \<lparr>tn_shape = [ec_experts C, fst (shp (bank_of q)), snd (shp (bank_of q))],
    tn_data = concat (map tn_data (stacked C cast ts q l))\<rparr>"
proof -
  have "length (stacked C cast ts q l) = ec_experts C" by (simp add: stacked_def)
  with stack_ok [of "stacked C cast ts q l"] stacked_items [OF assms(1,2)] assms(3) show ?thesis by fastforce
qed

lemma layer_built_exists:
  assumes "all_rows C ts l" "\<forall>x \<in> set ts. row_item C shp x" "0 < ec_experts C"
  obtains g u gu d where "stack_rows (stacked C cast ts Gate_proj l) = Inr g" "stack_rows (stacked C cast ts Up_proj l) = Inr u"
    "torch_cat 1 g u = Inr gu" "stack_rows (stacked C cast ts Down_proj l) = Inr d"
proof -
  let ?m = "fst (shp Gate_up_bank)" and ?n = "snd (shp Gate_up_bank)"
  note G = stacked_rows [OF assms, of cast Gate_proj] and U = stacked_rows [OF assms, of cast Up_proj]
  let ?g = "\<lparr>tn_shape = [ec_experts C, ?m, ?n], tn_data = concat (map tn_data (stacked C cast ts Gate_proj l))\<rparr>"
    and ?u = "\<lparr>tn_shape = [ec_experts C, ?m, ?n], tn_data = concat (map tn_data (stacked C cast ts Up_proj l))\<rparr>"
  have b: "bank_of Gate_proj = Gate_up_bank" "bank_of Up_proj = Gate_up_bank" by (simp_all add: bank_of_def)
  have "tn_shape ?g = [ec_experts C, ?m, ?n]" "tn_shape ?u = [ec_experts C, ?m, ?n]" by simp_all
  note f = fuse_ok [OF this]
  show ?thesis by (rule that [OF G [unfolded b] U [unfolded b] f stacked_rows [OF assms, of cast Down_proj]])
qed

lemma stacked_cong: "(\<And>q e. row_in ts q l e = row_in ts' q l e) \<Longrightarrow> stacked C cast ts q l = stacked C cast ts' q l"
  by (simp add: stacked_def)

lemma all_proj: "(\<forall>q. P q) \<longleftrightarrow> P Gate_proj \<and> P Up_proj \<and> P Down_proj"
proof
  assume "P Gate_proj \<and> P Up_proj \<and> P Down_proj"
  then have "P q" for q by (cases q) simp_all
  then show "\<forall>q. P q" ..
qed simp

lemma rows_state_step:
  assumes st: "rows_state C cast shp ts st" and items: "\<forall>y \<in> set (ts @ [x]). row_item C shp y"
    and new: "expert_source_info (fst x) \<notin> (expert_source_info \<circ> fst) ` set ts" and E: "0 < ec_experts C"
  obtains st' where "dense_step C cast x st = Inr st'" "rows_state C cast shp (ts @ [x]) st'"
proof -
  let ?ts = "ts @ [x]"
  have "row_item C shp x" using items by simp
  then obtain q l e where x: "expert_source_info (fst x) = Inr (Some (int l, Row q (int e)))" "l < ec_layers C" "e < ec_experts C"
    "tn_shape (snd x) = [fst (shp (bank_of q)), snd (shp (bank_of q))]"
    unfolding row_item_def by blast
  note R = row_in_snoc [OF new x(1)]
  have D: "\<And>q l e. dn_rows st q l e = (if all_rows C ts l then None else map_option (tn_map cast) (row_in ts q l e))"
    "\<And>l. if all_rows C ts l then layer_built C cast ts st l else (\<forall>b. dn_banks st b l = None)"
    "\<And>b. dn_seen st b = {l. \<exists>q e. bank_of q = b \<and> row_in ts q l e \<noteq> None}"
    "\<And>b s. dn_shape st b = Some s \<Longrightarrow> s = [fst (shp b), snd (shp b)]"
    using st unfolding rows_state_def by blast+
  have nl: "\<not> all_rows C ts l" using R(1) x(3) unfolding all_rows_def by blast
  have nb: "dn_banks st b l = None" for b using D(2) [of l] nl by simp
  define s1 where "s1 = st\<lparr>dn_shape := (dn_shape st)(bank_of q \<mapsto> tn_shape (snd x))\<rparr>"
  have ag: "agree_shape (bank_of q) (tn_shape (snd x)) st = Inr s1"
  proof (cases "dn_shape st (bank_of q)")
    case (Some s)
    then have "s = tn_shape (snd x)" using D(4) x(4) by simp
    moreover from this Some have "s1 = st" by (simp add: s1_def fun_upd_idem)
    ultimately show ?thesis using Some by (simp add: agree_shape_def)
  qed (simp add: agree_shape_def s1_def)
  define s2 where "s2 = s1\<lparr>dn_rows := (dn_rows s1)(q := (dn_rows s1 q)(l := (dn_rows s1 q l)(e \<mapsto> tn_map cast (snd x)))),
    dn_seen := (dn_seen s1)(bank_of q := insert l (dn_seen s1 (bank_of q)))\<rparr>"
  have step: "dense_step C cast x st = maybe_finalize C l s2"
    using x(2,3) ag D(1) [of q l e] R(1)
    by (simp add: dense_step_def x(1) buffer_row_def s1_def s2_def bind_res_def)
  have rows2: "dn_rows s2 q' l' e' = (if l' \<noteq> l \<and> all_rows C ts l' then None else map_option (tn_map cast) (row_in ?ts q' l' e'))" for q' l' e'
  proof (cases "(q', l', e') = (q, l, e)")
    case True
    then show ?thesis using R(2) by (simp add: s2_def s1_def)
  next
    case False
    then have "dn_rows s2 q' l' e' = dn_rows st q' l' e'" by (auto simp: s2_def s1_def)
    then show ?thesis using D(1) [of q' l' e'] nl R(3) [OF False] by simp
  qed
  have banks2: "dn_banks s2 = dn_banks st" by (simp add: s2_def s1_def)
  have other: "row_in ?ts q' l' e' = row_in ts q' l' e'" if "l' \<noteq> l" for q' l' e' using R(3) that by simp
  have all': "all_rows C ?ts l' = all_rows C ts l'" if "l' \<noteq> l" for l' using other [OF that] by (simp add: all_rows_def)
  have built': "layer_built C cast ?ts s l' = layer_built C cast ts s l'" if "l' \<noteq> l" for l' s
    using stacked_cong [of ?ts l' ts C cast, OF other [OF that]] by (simp add: layer_built_def)
  have seen2: "dn_seen s2 b = {l. \<exists>q e. bank_of q = b \<and> row_in ?ts q l e \<noteq> None}" for b
  proof -
    have "(\<exists>q e. bank_of q = b \<and> row_in ?ts q l' e \<noteq> None) \<longleftrightarrow>
        (\<exists>q e. bank_of q = b \<and> row_in ts q l' e \<noteq> None) \<or> (b = bank_of q \<and> l' = l)" for l'
    proof -
      have "row_in ?ts q' l' e' \<noteq> None \<longleftrightarrow> row_in ts q' l' e' \<noteq> None \<or> (q', l', e') = (q, l, e)" for q' e'
        using R(1,2) R(3) [of q' l' e'] by (cases "(q', l', e') = (q, l, e)") auto
      then show ?thesis by blast
    qed
    moreover have "dn_seen s2 b = dn_seen st b \<union> (if b = bank_of q then {l} else {})" by (simp add: s2_def s1_def)
    ultimately show ?thesis using D(3) by auto
  qed
  have shape2: "s = [fst (shp b), snd (shp b)]" if "dn_shape s2 b = Some s" for b s
    using that D(4) x(4) by (auto simp: s2_def s1_def split: if_splits)
  have full: "rows_full C q' l s2 \<longleftrightarrow> (\<forall>e < ec_experts C. row_in ?ts q' l e \<noteq> None)" for q'
    by (auto simp: rows_full_def rows2 list_all_iff)
  have every: "rows_full C Gate_proj l s2 \<and> rows_full C Up_proj l s2 \<and> rows_full C Down_proj l s2 \<longleftrightarrow> all_rows C ?ts l"
    unfolding full all_rows_def all_proj ..
  show ?thesis
  proof (cases "all_rows C ?ts l")
    case False
    then have "maybe_finalize C l s2 = Inr s2" using every nb banks2 by (simp add: maybe_finalize_def)
    moreover have "rows_state C cast shp ?ts s2"
      unfolding rows_state_def
    proof (intro conjI allI impI)
      show "dn_rows s2 q' l' e' = (if all_rows C ?ts l' then None else map_option (tn_map cast) (row_in ?ts q' l' e'))" for q' l' e'
        using all' [of l'] False by (cases "l' = l") (simp_all add: rows2)
      show "if all_rows C ?ts l' then layer_built C cast ?ts s2 l' else (\<forall>b. dn_banks s2 b l' = None)" for l'
        using all' [of l'] built' [of l' s2] D(2) [of l'] False nb by (cases "l' = l") (simp_all add: banks2 layer_built_def split: if_splits)
    qed (use seen2 shape2 in simp_all)
    ultimately show ?thesis using that step by simp
  next
    case True
    then obtain g u gu d where b: "stack_rows (stacked C cast ?ts Gate_proj l) = Inr g" "stack_rows (stacked C cast ?ts Up_proj l) = Inr u"
      "torch_cat 1 g u = Inr gu" "stack_rows (stacked C cast ?ts Down_proj l) = Inr d" using layer_built_exists [OF True items E] by blast
    have ro: "rows_of C q' l s2 = stacked C cast ?ts q' l" for q'
      using True by (auto simp: rows_of_def stacked_def rows2 all_rows_def option.map_sel)
    define s3 where "s3 = s2\<lparr>dn_banks := (\<lambda>b. (dn_banks s2 b)(l \<mapsto> (case b of Gate_up_bank \<Rightarrow> gu | Down_bank \<Rightarrow> d))),
            dn_rows := (\<lambda>q. (dn_rows s2 q)(l := Map.empty))\<rparr>"
    have "maybe_finalize C l s2 = Inr s3"
      using every True nb by (simp add: maybe_finalize_def banks2 ro b(1,2,4) b(3) [simplified] s3_def)
    moreover have "rows_state C cast shp ?ts s3"
      unfolding rows_state_def
    proof (intro conjI allI impI)
      show "dn_rows s3 q' l' e' = (if all_rows C ?ts l' then None else map_option (tn_map cast) (row_in ?ts q' l' e'))" for q' l' e'
        using all' [of l'] True by (cases "l' = l") (simp_all add: rows2 s3_def)
      show "if all_rows C ?ts l' then layer_built C cast ?ts s3 l' else (\<forall>b. dn_banks s3 b l' = None)" for l'
      proof (cases "l' = l")
        case l: True
        have "layer_built C cast ?ts s3 l" using b by (auto simp: layer_built_def s3_def)
        then show ?thesis using True l by simp
      next
        case l: False
        then have "dn_banks s3 b l' = dn_banks st b l'" for b by (simp add: s3_def banks2)
        then show ?thesis using all' [OF l] built' [OF l, of s3] D(2) [of l'] by (simp add: layer_built_def split: if_splits)
      qed
    qed (use seen2 shape2 in \<open>simp_all add: s3_def\<close>)
    ultimately show ?thesis using that step by simp
  qed
qed

lemma rows_state_feed:
  assumes "rows_state C cast shp ts st" "\<forall>y \<in> set (ts @ xs). row_item C shp y"
    "distinct (map (expert_source_info \<circ> fst) (ts @ xs))" "0 < ec_experts C"
  shows "\<exists>st'. dense_feed C cast xs st = Inr st' \<and> rows_state C cast shp (ts @ xs) st'"
  using assms
proof (induction xs arbitrary: ts st)
  case (Cons x xs)
  have i: "\<forall>y \<in> set (ts @ [x]). row_item C shp y" and n: "expert_source_info (fst x) \<notin> (expert_source_info \<circ> fst) ` set ts"
    using Cons.prems(2,3) by auto
  obtain s1 where s: "dense_step C cast x st = Inr s1" "rows_state C cast shp (ts @ [x]) s1"
    by (rule rows_state_step [OF Cons.prems(1) i n Cons.prems(4)])
  have "\<forall>y \<in> set ((ts @ [x]) @ xs). row_item C shp y" "distinct (map (expert_source_info \<circ> fst) ((ts @ [x]) @ xs))"
    using Cons.prems(2,3) by (simp_all only: append.assoc append.simps)
  from Cons.IH [OF s(2) this Cons.prems(4)] show ?case using s(1) by simp
qed simp

text \<open>The closing pass over the layers changes nothing any more.\<close>

lemma rest_idle:
  assumes "rows_state C cast shp ts st" "0 < ec_experts C"
  shows "finalize_rest C ls st = Inr st"
proof (induction ls)
  case (Cons l ls)
  have "maybe_finalize C l st = Inr st"
  proof (cases "all_rows C ts l")
    case True
    then have "layer_built C cast ts st l" using assms(1) by (simp add: rows_state_def)
    then show ?thesis by (auto simp: layer_built_def maybe_finalize_def)
  next
    case False
    then have "dn_rows st q l e = map_option (tn_map cast) (row_in ts q l e)" for q e using assms(1) by (simp add: rows_state_def)
    then have f: "rows_full C q l st \<longleftrightarrow> (\<forall>e < ec_experts C. row_in ts q l e \<noteq> None)" for q by (auto simp: rows_full_def list_all_iff)
    have "\<not> (rows_full C Gate_proj l st \<and> rows_full C Up_proj l st \<and> rows_full C Down_proj l st)"
      using False unfolding f all_rows_def all_proj .
    then show ?thesis by (simp add: maybe_finalize_def)
  qed
  then show ?case using Cons by simp
qed simp

lemma dense_rows_banks:
  assumes items: "\<forall>x \<in> set ts. row_item C shp x" and d: "distinct (map (expert_source_info \<circ> fst) ts)" and E: "0 < ec_experts C"
    and all: "\<forall>l \<in> {ec_first_dense C..<ec_layers C}. all_rows C ts l"
  obtains st where "stream_dense C cast ts = Inr (map (\<lambda>l. the (dn_banks st Gate_up_bank l)) [ec_first_dense C..<ec_layers C],
      map (\<lambda>l. the (dn_banks st Down_bank l)) [ec_first_dense C..<ec_layers C])"
    "\<forall>l. ec_first_dense C \<le> l \<and> l < ec_layers C \<longrightarrow> layer_built C cast ts st l"
proof -
  have no: "\<not> all_rows C ([] :: (string \<times> 'a tensor) list) l" for l using E by (auto simp: all_rows_def row_in_def)
  have "rows_state C cast shp ([] :: (string \<times> 'a tensor) list) dense_init"
    using no by (simp add: rows_state_def dense_init_def row_in_def)
  from rows_state_feed [OF this, of ts] items d E
  obtain st where f: "dense_feed C cast ts dense_init = Inr st" and r: "rows_state C cast shp ts st" by auto
  have seen: "dn_seen st b = {ec_first_dense C..<ec_layers C}" for b
  proof -
    have s: "dn_seen st b = {l. \<exists>q e. bank_of q = b \<and> row_in ts q l e \<noteq> None}" using r by (simp add: rows_state_def)
    show ?thesis
    proof
      show "dn_seen st b \<subseteq> {ec_first_dense C..<ec_layers C}" using row_in_item [OF _ items] by (fastforce simp: s)
      have "\<exists>q. bank_of q = b" by (cases b) (metis bank_of_def proj.simps)+
      then show "{ec_first_dense C..<ec_layers C} \<subseteq> dn_seen st b" using all E unfolding s all_rows_def by blast
    qed
  qed
  have built: "layer_built C cast ts st l" if "ec_first_dense C \<le> l" "l < ec_layers C" for l
    using r all that by (simp add: rows_state_def)
  have banks: "all_res (map (\<lambda>l. bank_tensor (dn_banks st b l)) [ec_first_dense C..<ec_layers C]) =
      Inr (map (\<lambda>l. the (dn_banks st b l)) [ec_first_dense C..<ec_layers C])" for b
    unfolding all_res_Inr using built by (cases b) (fastforce simp: bank_tensor_def layer_built_def)+
  have "stream_dense C cast ts = Inr (map (\<lambda>l. the (dn_banks st Gate_up_bank l)) [ec_first_dense C..<ec_layers C],
      map (\<lambda>l. the (dn_banks st Down_bank l)) [ec_first_dense C..<ec_layers C])"
    by (simp add: stream_dense_def f seen rest_idle [OF r E] banks)
  then show ?thesis by (rule that) (use built in blast)
qed

text \<open>C34. A checkpoint with one tensor per expert and projection, each row once and every row of the MoE
  layers there, is accepted in whatever order its tensors arrive; row \<open>e\<close> of a layer's \<open>gate_up\<close> bank is
  the converted gate matrix of expert \<open>e\<close> on top of its up matrix, row \<open>e\<close> of the \<open>down\<close> bank its
  converted down matrix, and the banks start at the first MoE layer.\<close>

theorem dense_rows_stack:
  assumes items: "\<forall>x \<in> set ts. row_item C shp x" and d: "distinct (map (expert_source_info \<circ> fst) ts)" and E: "0 < ec_experts C"
    and all: "\<forall>l \<in> {ec_first_dense C..<ec_layers C}. all_rows C ts l"
  shows "\<exists>gu dn. stream_dense C cast ts = Inr (gu, dn) \<and> length gu = ec_layers C - ec_first_dense C \<and>
    length dn = ec_layers C - ec_first_dense C \<and>
    (\<forall>i e. i < ec_layers C - ec_first_dense C \<and> e < ec_experts C \<longrightarrow>
      (\<exists>g u d. row_in ts Gate_proj (ec_first_dense C + i) e = Some g \<and> row_in ts Up_proj (ec_first_dense C + i) e = Some u \<and>
        row_in ts Down_proj (ec_first_dense C + i) e = Some d \<and>
        torch_cat 0 (tn_map cast g) (tn_map cast u) = Inr (bank_row (gu ! i) e) \<and> bank_row (dn ! i) e = tn_map cast d))"
proof -
  let ?F = "ec_first_dense C" and ?E = "ec_experts C"
  obtain st where st: "stream_dense C cast ts = Inr (map (\<lambda>l. the (dn_banks st Gate_up_bank l)) [?F..<ec_layers C],
      map (\<lambda>l. the (dn_banks st Down_bank l)) [?F..<ec_layers C])"
    "\<forall>l. ?F \<le> l \<and> l < ec_layers C \<longrightarrow> layer_built C cast ts st l"
    by (rule dense_rows_banks [OF items d E all, of cast])
  have rows: "\<exists>g u d. row_in ts Gate_proj l e = Some g \<and> row_in ts Up_proj l e = Some u \<and> row_in ts Down_proj l e = Some d \<and>
        torch_cat 0 (tn_map cast g) (tn_map cast u) = Inr (bank_row (the (dn_banks st Gate_up_bank l)) e) \<and>
        bank_row (the (dn_banks st Down_bank l)) e = tn_map cast d"
    if l: "?F \<le> l" "l < ec_layers C" and e: "e < ?E" for l e
  proof -
    have a: "all_rows C ts l" using all l by simp
    then obtain g u d where r: "row_in ts Gate_proj l e = Some g" "row_in ts Up_proj l e = Some u" "row_in ts Down_proj l e = Some d"
      using e unfolding all_rows_def all_proj by blast
    have nth: "stacked C cast ts q l ! e = tn_map cast (the (row_in ts q l e))" for q using e by (simp add: stacked_def)
    obtain g' u' gu' d' where b: "stack_rows (stacked C cast ts Gate_proj l) = Inr g'" "stack_rows (stacked C cast ts Up_proj l) = Inr u'"
      "torch_cat 1 g' u' = Inr gu'" "stack_rows (stacked C cast ts Down_proj l) = Inr d'"
      "dn_banks st Gate_up_bank l = Some gu'" "dn_banks st Down_bank l = Some d'" using st(2) l unfolding layer_built_def by blast
    have S: "length (stacked C cast ts q l) = ?E" for q by (simp add: stacked_def)
    have I: "\<forall>r \<in> set (stacked C cast ts q l). tn_shape r = [fst (shp (bank_of q)), snd (shp (bank_of q))] \<and>
        length (tn_data r) = fst (shp (bank_of q)) * snd (shp (bank_of q))" for q
      using stacked_items [OF a items] by blast
    have "bank_of Gate_proj = Gate_up_bank" "bank_of Up_proj = Gate_up_bank" by (simp_all add: bank_of_def)
    note I' = I [of Gate_proj, unfolded this] I [of Up_proj, unfolded this]
    obtain g2 u2 gu2 where f: "stack_rows (stacked C cast ts Gate_proj l) = Inr g2" "stack_rows (stacked C cast ts Up_proj l) = Inr u2"
      "torch_cat 1 g2 u2 = Inr gu2" "torch_cat 0 (stacked C cast ts Gate_proj l ! e) (stacked C cast ts Up_proj l ! e) = Inr (bank_row gu2 e)"
      by (rule fused_row [OF S I'(1) S I'(2) e])
    have "gu2 = gu'" using f(1-3) b(1-3) by (metis sum.inject(2))
    moreover have "bank_row d' e = stacked C cast ts Down_proj l ! e"
      by (rule stacked_row(1) [OF b(4)]) (use I [of Down_proj] S e in simp_all)
    ultimately show ?thesis using f(4) r b(5,6) by (simp add: nth)
  qed
  show ?thesis
  proof ((rule exI)+, intro conjI allI impI)
    show "stream_dense C cast ts = Inr (map (\<lambda>l. the (dn_banks st Gate_up_bank l)) [?F..<ec_layers C],
      map (\<lambda>l. the (dn_banks st Down_bank l)) [?F..<ec_layers C])" by (rule st(1))
  next
    fix i e assume i: "i < ec_layers C - ?F \<and> e < ?E"
    then have "?F \<le> ?F + i" "?F + i < ec_layers C" "e < ?E" by linarith+
    moreover from this have n: "[?F..<ec_layers C] ! i = ?F + i" by (intro nth_upt)
    ultimately show "\<exists>g u d. row_in ts Gate_proj (?F + i) e = Some g \<and> row_in ts Up_proj (?F + i) e = Some u \<and>
        row_in ts Down_proj (?F + i) e = Some d \<and>
        torch_cat 0 (tn_map cast g) (tn_map cast u) = Inr (bank_row (map (\<lambda>l. the (dn_banks st Gate_up_bank l)) [?F..<ec_layers C] ! i) e) \<and>
        bank_row (map (\<lambda>l. the (dn_banks st Down_bank l)) [?F..<ec_layers C] ! i) e = tn_map cast d"
      using rows [of "?F + i" e] i by (simp add: n)
  qed simp_all
qed

lemma demo_row_names:
  "expert_source_info ''layers.0.mlp.experts.0.gate_proj'' = Inr (Some (0, Row Gate_proj 0))"
  "expert_source_info ''layers.0.mlp.experts.0.up_proj'' = Inr (Some (0, Row Up_proj 0))"
  "expert_source_info ''layers.0.mlp.experts.0.down_proj'' = Inr (Some (0, Row Down_proj 0))"
  by code_simp+

theorem dense_rows_stack_witness:
  "\<exists>gu dn g u. stream_dense demo_config id demo_rows = Inr (gu, dn) \<and> row_in demo_rows Gate_proj 0 0 = Some g \<and>
    row_in demo_rows Up_proj 0 0 = Some u \<and> torch_cat 0 (tn_map id g) (tn_map id u) = Inr (bank_row (gu ! 0) 0)"
proof -
  have items: "\<forall>x \<in> set demo_rows. row_item demo_config (\<lambda>_. (1, 1)) x"
    by (simp add: demo_rows_def row_item_def demo_row_names demo_config_def)
  have d: "distinct (map (expert_source_info \<circ> fst) demo_rows)" by (simp add: demo_rows_def demo_row_names)
  have "all_rows demo_config demo_rows 0"
    unfolding all_rows_def all_proj by (simp add: demo_rows_def demo_row_names demo_config_def row_in_def)
  then have all: "\<forall>l \<in> {ec_first_dense demo_config..<ec_layers demo_config}. all_rows demo_config demo_rows l"
    by (simp add: demo_config_def)
  have E: "0 < ec_experts demo_config" by (simp add: demo_config_def)
  have s: "ec_first_dense demo_config = 0" "ec_layers demo_config = 1" "ec_experts demo_config = 1" by (simp_all add: demo_config_def)
  from dense_rows_stack [OF items d E all, of id, unfolded s] show ?thesis by fastforce
qed

end
