(* ===== verification/Weight_Streams.thy ===== *)
theory Weight_Streams
  imports Packed_Linear
begin

text \<open>
  The \<open>iter_weights\<close> generators of the architectures under \<open>models/\<close>: which of a checkpoint's tensors the
  loader's two calls see, the experts for the host banks and the rest for the device. A generator is the
  list it yields, or the exception it raises; a checkpoint is the list of its named tensors.
\<close>

section \<open>The common generator\<close>

datatype device_place = Host | On_device

definition expert_name :: "string \<Rightarrow> bool" where
  "expert_name n \<longleftrightarrow> sublist ''.experts.'' n"

text \<open>The loop: \<open>emb\<close> and \<open>saw\<close> are \<open>embed_tokens_weight\<close> and \<open>saw_lm_head\<close>; \<open>host\<close> tells whether
  experts are moved to host memory.\<close>

fun weight_loop :: "bool \<Rightarrow> bool \<Rightarrow> bool \<Rightarrow> (string \<times> 't) list \<Rightarrow> (device_place \<times> 't) option \<Rightarrow> bool \<Rightarrow>
    (string \<times> device_place \<times> 't) list \<times> (device_place \<times> 't) option \<times> bool" where
  "weight_loop host exps nons [] emb saw = ([], emb, saw)"
| "weight_loop host exps nons ((n, t) # ps) emb saw =
     (if expert_name n \<and> \<not> exps then weight_loop host exps nons ps emb saw
      else if \<not> expert_name n \<and> \<not> nons then weight_loop host exps nons ps emb saw
      else let on = (if host \<and> expert_name n then Host else On_device, t);
               emb' = (if n = ''model.embed_tokens.weight'' then Some on else emb);
               saw' = (if n = ''model.embed_tokens.weight'' then saw else saw \<or> n = ''lm_head.weight'');
               (ys, r) = weight_loop host exps nons ps emb' saw'
        in ((n, on) # ys, r))"

text \<open>The tie of \<open>lm_head\<close> to the embedding; \<open>tied\<close> is the configuration's \<open>tie_word_embeddings\<close>.\<close>

definition tie_head :: "bool \<Rightarrow> bool \<Rightarrow> (string \<times> device_place \<times> 't) list \<times> (device_place \<times> 't) option \<times> bool \<Rightarrow> (string \<times> device_place \<times> 't) list" where
  "tie_head tied nons r =
     (case r of (ys, emb, saw) \<Rightarrow>
       case emb of
         Some on \<Rightarrow> if nons \<and> \<not> saw \<and> tied then ys @ [(''lm_head.weight'', on)] else ys
       | None \<Rightarrow> ys)"

definition split_weights :: "bool \<Rightarrow> bool \<Rightarrow> bool \<Rightarrow> bool \<Rightarrow> (string \<times> 't) list \<Rightarrow> (string \<times> device_place \<times> 't) list" where
  "split_weights host tied exps nons ps = tie_head tied nons (weight_loop host exps nons ps None False)"

text \<open>The architectures that keep experts on the host.\<close>

definition iter_qwen3_moe :: "bool \<Rightarrow> bool \<Rightarrow> bool \<Rightarrow> (string \<times> 't) list \<Rightarrow> (string \<times> device_place \<times> 't) list" where
  "iter_qwen3_moe tied exps nons ps = split_weights True tied exps nons ps"

definition iter_qwen2_moe :: "bool \<Rightarrow> bool \<Rightarrow> bool \<Rightarrow> (string \<times> 't) list \<Rightarrow> (string \<times> device_place \<times> 't) list" where
  "iter_qwen2_moe tied exps nons ps = split_weights True tied exps nons ps"

definition iter_glm4_moe :: "bool \<Rightarrow> bool \<Rightarrow> bool \<Rightarrow> (string \<times> 't) list \<Rightarrow> (string \<times> device_place \<times> 't) list" where
  "iter_glm4_moe tied exps nons ps = split_weights True tied exps nons ps"

definition iter_glm_moe_dsa :: "bool \<Rightarrow> bool \<Rightarrow> bool \<Rightarrow> (string \<times> 't) list \<Rightarrow> (string \<times> device_place \<times> 't) list" where
  "iter_glm_moe_dsa tied exps nons ps = split_weights True tied exps nons ps"

definition iter_gpt_oss :: "bool \<Rightarrow> bool \<Rightarrow> bool \<Rightarrow> (string \<times> 't) list \<Rightarrow> (string \<times> device_place \<times> 't) list" where
  "iter_gpt_oss tied exps nons ps = split_weights True tied exps nons ps"

definition iter_qwen4_exp :: "bool \<Rightarrow> bool \<Rightarrow> bool \<Rightarrow> (string \<times> 't) list \<Rightarrow> (string \<times> device_place \<times> 't) list" where
  "iter_qwen4_exp tied exps nons ps = split_weights True tied exps nons ps"

text \<open>The DeepSeek generators do not ask for \<open>include_non_moe\<close> when they tie the head.\<close>

definition iter_deepseek_v4 :: "bool \<Rightarrow> bool \<Rightarrow> bool \<Rightarrow> (string \<times> 't) list \<Rightarrow> (string \<times> device_place \<times> 't) list" where
  "iter_deepseek_v4 tied exps nons ps = tie_head tied True (weight_loop True exps nons ps None False)"

definition iter_deepseek_v2 :: "bool \<Rightarrow> bool \<Rightarrow> bool \<Rightarrow> (string \<times> 't) list \<Rightarrow> (string \<times> device_place \<times> 't) list" where
  "iter_deepseek_v2 tied exps nons ps = tie_head tied True (weight_loop True exps nons ps None False)"

text \<open>The architectures whose experts go to the device.\<close>

definition iter_mellum :: "bool \<Rightarrow> bool \<Rightarrow> bool \<Rightarrow> (string \<times> 't) list \<Rightarrow> (string \<times> device_place \<times> 't) list" where
  "iter_mellum tied exps nons ps = split_weights False tied exps nons ps"

definition iter_olmoe :: "bool \<Rightarrow> bool \<Rightarrow> bool \<Rightarrow> (string \<times> 't) list \<Rightarrow> (string \<times> device_place \<times> 't) list" where
  "iter_olmoe tied exps nons ps = split_weights False tied exps nons ps"

text \<open>A dense model: no filter.\<close>

fun dense_loop :: "(string \<times> 't) list \<Rightarrow> (device_place \<times> 't) option \<Rightarrow> bool \<Rightarrow> (string \<times> device_place \<times> 't) list \<times> (device_place \<times> 't) option \<times> bool" where
  "dense_loop [] emb saw = ([], emb, saw)"
| "dense_loop ((n, t) # ps) emb saw =
     (let (ys, r) = dense_loop ps (if n = ''model.embed_tokens.weight'' then Some (On_device, t) else emb)
            (if n = ''model.embed_tokens.weight'' then saw else saw \<or> n = ''lm_head.weight'')
      in ((n, On_device, t) # ys, r))"

definition iter_qwen3 :: "bool \<Rightarrow> (string \<times> 't) list \<Rightarrow> (string \<times> device_place \<times> 't) list" where
  "iter_qwen3 tied ps = tie_head tied True (dense_loop ps None False)"

section \<open>LFM2: renamed tensors\<close>

text \<open>\<open>s.replace(p, r)\<close> for a non-empty \<open>p\<close>.\<close>

function replace_all :: "string \<Rightarrow> string \<Rightarrow> string \<Rightarrow> string" where
  "replace_all p r [] = []"
| "replace_all p r (c # cs) =
     (if p \<noteq> [] \<and> prefix p (c # cs) then r @ replace_all p r (drop (length p - 1) cs) else c # replace_all p r cs)"
  by pat_completeness auto
termination by (relation "measure (\<lambda>(p, r, s). length s)") auto

definition without_suffix :: "string \<Rightarrow> string \<Rightarrow> string" where
  "without_suffix s n = take (length n - length s) n"

text \<open>\<open>tensor.reshape(shape[0], shape[-1])\<close> of the convolution's filter.\<close>

definition squeeze_filter :: "'v tensor \<Rightarrow> 'v tensor res" where
  "squeeze_filter t =
     (if tn_shape t = [] then Inl IndexError
      else if hd (tn_shape t) * last (tn_shape t) \<noteq> prod_list (tn_shape t) then Inl RuntimeError
      else Inr (t\<lparr>tn_shape := [hd (tn_shape t), last (tn_shape t)]\<rparr>))"

definition lfm2_rename :: "string \<times> 'v tensor \<Rightarrow> (string \<times> 'v tensor) res" where
  "lfm2_rename x =
     (let n = (if sublist ''.feed_forward.'' (fst x) then replace_all ''.feed_forward.'' ''.mlp.'' (fst x) else fst x)
      in if suffix ''.conv.conv.weight'' n
         then bind_res (squeeze_filter (snd x)) (\<lambda>t. Inr (without_suffix ''.conv.conv.weight'' n @ ''.conv.conv_weight'', t))
         else if suffix ''.conv.conv.bias'' n then Inr (without_suffix ''.conv.conv.bias'' n @ ''.conv.conv_bias'', snd x)
         else Inr (n, snd x))"

definition iter_lfm2 :: "bool \<Rightarrow> bool \<Rightarrow> bool \<Rightarrow> (string \<times> 'v tensor) list \<Rightarrow> (string \<times> device_place \<times> 'v tensor) list res" where
  "iter_lfm2 tied exps nons ps =
     bind_res (all_res (map lfm2_rename ps)) (\<lambda>qs. Inr (split_weights False tied exps nons qs))"

section \<open>Two halves\<close>

definition kept :: "bool \<Rightarrow> bool \<Rightarrow> bool \<Rightarrow> (string \<times> 't) list \<Rightarrow> (string \<times> device_place \<times> 't) list" where
  "kept host exps nons ps = map (\<lambda>(n, t). (n, if host \<and> expert_name n then Host else On_device, t))
     (filter (\<lambda>(n, _). if expert_name n then exps else nons) ps)"

lemma kept_names: "fst ` set (kept host exps nons ps) = {n \<in> fst ` set ps. if expert_name n then exps else nons}"
  by (induction ps) (auto simp: kept_def split: if_splits)

text \<open>The embedding met last, and whether the head was met.\<close>

definition embedding :: "(string \<times> 'p) list \<Rightarrow> 'p option" where
  "embedding ks = map_of (rev ks) ''model.embed_tokens.weight''"

lemma embedding_Cons: "embedding (k # ks) = (case embedding ks of Some x \<Rightarrow> Some x | None \<Rightarrow>
    if fst k = ''model.embed_tokens.weight'' then Some (snd k) else None)"
  by (auto simp: embedding_def map_add_def split: option.splits)

lemma weight_loop_kept:
  "weight_loop host exps nons ps emb saw =
     (kept host exps nons ps, (case embedding (kept host exps nons ps) of Some x \<Rightarrow> Some x | None \<Rightarrow> emb),
      saw \<or> ''lm_head.weight'' \<in> fst ` set (kept host exps nons ps))"
proof (induction ps arbitrary: emb saw)
  case Nil
  then show ?case by (simp add: kept_def embedding_def)
next
  case (Cons p ps)
  obtain n t where p: "p = (n, t)" by (cases p)
  show ?case
  proof (cases "if expert_name n then exps else nons")
    case False
    then have "kept host exps nons (p # ps) = kept host exps nons ps" by (simp add: kept_def p split: if_splits)
    moreover have "weight_loop host exps nons (p # ps) emb saw = weight_loop host exps nons ps emb saw"
      using False by (cases "expert_name n") (simp_all add: p)
    ultimately show ?thesis by (simp only: Cons.IH)
  next
    case True
    let ?x = "(n, if host \<and> expert_name n then Host else On_device, t)"
    have "kept host exps nons (p # ps) = ?x # kept host exps nons ps" using True by (simp add: kept_def p split: if_splits)
    moreover have "weight_loop host exps nons (p # ps) emb saw =
        (let (ys, r) = weight_loop host exps nons ps (if n = ''model.embed_tokens.weight'' then Some (snd ?x) else emb)
            (if n = ''model.embed_tokens.weight'' then saw else saw \<or> n = ''lm_head.weight'') in (?x # ys, r))"
    proof (cases "expert_name n")
      case e: True
      have "exps" using True e by simp
      with e show ?thesis by (simp only: p weight_loop.simps Let_def prod.sel simp_thms if_True if_False)
    next
      case e: False
      have "nons" using True e by simp
      with e show ?thesis by (simp only: p weight_loop.simps Let_def prod.sel simp_thms if_True if_False)
    qed
    ultimately show ?thesis
      by (simp only: Cons.IH Let_def prod.case embedding_Cons) (auto split: option.splits)
  qed
qed

lemma dense_loop_kept:
  "dense_loop ps emb saw = (map (\<lambda>(n, t). (n, On_device, t)) ps,
     (case embedding (map (\<lambda>(n, t). (n, On_device, t)) ps) of Some x \<Rightarrow> Some x | None \<Rightarrow> emb), saw \<or> ''lm_head.weight'' \<in> fst ` set ps)"
proof (induction ps arbitrary: emb saw)
  case Nil
  then show ?case by (simp add: embedding_def)
next
  case (Cons p ps)
  obtain n t where p: "p = (n, t)" by (cases p)
  show ?case by (simp only: p dense_loop.simps Cons.IH Let_def list.map prod.case embedding_Cons) (auto split: option.splits)
qed

text \<open>The head a generator adds to what it kept.\<close>

definition head_of :: "bool \<Rightarrow> (string \<times> device_place \<times> 't) list \<Rightarrow> (string \<times> device_place \<times> 't) list" where
  "head_of tied ks =
     (case embedding ks of
        Some x \<Rightarrow> if tied \<and> ''lm_head.weight'' \<notin> fst ` set ks then [(''lm_head.weight'', x)] else []
      | None \<Rightarrow> [])"

lemma head_names: "\<not> expert_name ''lm_head.weight''" "\<not> expert_name ''model.embed_tokens.weight''"
  by code_simp+

lemma embedding_expert: "embedding (kept host exps False ps) = None"
  using head_names by (auto simp: embedding_def kept_def map_of_eq_None_iff split: if_splits)

lemma tie_kept: "tie_head tied nons (weight_loop host exps nons ps None False) =
    kept host exps nons ps @ (if nons then head_of tied (kept host exps nons ps) else [])"
  by (auto simp: tie_head_def weight_loop_kept head_of_def split: option.splits)

lemma split_weights_eq: "split_weights host tied exps nons ps =
    kept host exps nons ps @ (if nons then head_of tied (kept host exps nons ps) else [])"
  by (simp add: split_weights_def tie_kept)

lemma deepseek_eq: "tie_head tied True (weight_loop host exps nons ps None False) = split_weights host tied exps nons ps"
proof (cases nons)
  case False
  then show ?thesis by (simp add: split_weights_eq tie_head_def weight_loop_kept embedding_expert)
qed (simp add: split_weights_def)

text \<open>The head does not depend on the experts.\<close>

lemma head_same: "head_of tied (kept host True True ps) = head_of tied (kept host False True ps)"
proof -
  have "embedding (kept host True True ps) = embedding (kept host False True ps)"
  proof (induction ps)
    case (Cons p ps)
    have k: "kept host exps True (p # ps) = (if expert_name (fst p) \<and> \<not> exps then []
        else [(fst p, if host \<and> expert_name (fst p) then Host else On_device, snd p)]) @ kept host exps True ps" for exps
      by (simp add: kept_def split_beta)
    show ?case
    proof (cases "expert_name (fst p)")
      case True
      then have "fst p \<noteq> ''model.embed_tokens.weight''" using head_names(2) by metis
      then show ?thesis using True Cons by (simp add: k embedding_Cons split: option.splits)
    next
      case False
      then show ?thesis using Cons by (simp add: k embedding_Cons)
    qed
  qed (simp add: kept_def)
  moreover have "''lm_head.weight'' \<in> fst ` set (kept host True True ps) \<longleftrightarrow> ''lm_head.weight'' \<in> fst ` set (kept host False True ps)"
    using head_names(1) by (simp add: kept_names)
  ultimately show ?thesis unfolding head_of_def by (simp only:)
qed

lemma kept_halves: "mset (kept host True True ps) = mset (kept host False True ps) + mset (kept host True False ps)"
proof (induction ps)
  case (Cons p ps)
  have k: "kept host exps nons (p # ps) = (if (if expert_name (fst p) then exps else nons)
      then [(fst p, if host \<and> expert_name (fst p) then Host else On_device, snd p)] else []) @ kept host exps nons ps" for exps nons
    by (simp add: kept_def split_beta)
  show ?case using Cons by (cases "expert_name (fst p)") (simp_all add: k)
qed (simp add: kept_def)

lemma split_halves:
  "mset (split_weights host tied True True ps) = mset (split_weights host tied False True ps) + mset (split_weights host tied True False ps)"
  by (simp add: split_weights_eq head_same kept_halves)

section \<open>Qwen 3.5\<close>

text \<open>\<open>_expert_source_names\<close>; a number is printed in decimal.\<close>

record moe_config =
  mo_is_moe :: bool
  mo_first_dense :: nat
  mo_layers :: nat
  mo_experts :: nat

fun decimal :: "nat \<Rightarrow> string" where
  "decimal n = (if n < 10 then [char_of (48 + n)] else decimal (n div 10) @ [char_of (48 + n mod 10)])"

declare decimal.simps [simp del]

definition experts_prefix :: "nat \<Rightarrow> string" where
  "experts_prefix i = ''model.layers.'' @ decimal i @ ''.mlp.experts''"

definition expert_source_names :: "moe_config \<Rightarrow> string list" where
  "expert_source_names c =
     (if mo_is_moe c
      then concat (map (\<lambda>i. concat (map (\<lambda>e. map (\<lambda>s. experts_prefix i @ ''.'' @ decimal e @ ''.'' @ s)
               [''gate_proj.weight'', ''up_proj.weight'', ''down_proj.weight'']) [0..<mo_experts c]) @
             [experts_prefix i @ ''.gate_up_proj'', experts_prefix i @ ''.down_proj'']) [mo_first_dense c..<mo_layers c + mo_first_dense c])
      else [])"

definition gptq_suffixes :: "string list" where
  "gptq_suffixes = [''.qweight'', ''.qzeros'', ''.scales'', ''.g_idx'']"

definition other_suffixes :: "string list" where
  "other_suffixes = [''.weight_scale_inv'', ''.weight_packed'', ''.weight_scale'', ''.weight_shape'', ''_blocks'', ''_scales'']"

definition ends_in :: "string list \<Rightarrow> string \<Rightarrow> bool" where
  "ends_in ss n \<longleftrightarrow> list_ex (\<lambda>s. suffix s n) ss"

definition drop_routed :: "(string \<times> 't) list \<Rightarrow> (string \<times> 't) list" where
  "drop_routed ps = filter (\<lambda>(n, _). \<not> (ends_in gptq_suffixes n \<and> expert_name n)) ps"

text \<open>One projection: \<open>dequantize_gptq_int4\<close> on its four tensors, transposed. A \<open>g_idx\<close> is a vector.\<close>

definition index_vector :: "'f elem tensor \<Rightarrow> int list res" where
  "index_vector g =
     (if list_ex (\<lambda>x. case x of W32 _ \<Rightarrow> False | I64 _ \<Rightarrow> False | _ \<Rightarrow> True) (tn_data g) then Inl TypeError
      else if length (tn_shape g) \<noteq> 1 then Inl RuntimeError
      else Inr (map (elem_int (\<lambda>_. 0)) (tn_data g)))"

definition dense_gptq :: "'f tensor_ops \<Rightarrow> (string \<times> 'f elem tensor) list \<Rightarrow> 'f elem tensor res" where
  "dense_gptq F parts =
     (let part = (\<lambda>s. the (map_of parts s))
      in bind_res (index_vector (part ''.g_idx'')) (\<lambda>g.
         bind_res (dequantize_gptq F (part ''.qweight'') (part ''.qzeros'') (part ''.scales'') g) (\<lambda>w.
           Inr \<lparr>tn_shape = tn_shape (transpose2 w), tn_data = map Fp (tn_data (transpose2 w))\<rparr>)))"

text \<open>\<open>_dequantize_gptq_stream\<close>: \<open>pending\<close> by prefix, then by suffix.\<close>

fun dequantize_stream :: "'f tensor_ops \<Rightarrow> (string \<times> (string \<times> 'f elem tensor) list) list \<Rightarrow> (string \<times> 'f elem tensor) list \<Rightarrow>
    (string \<times> 'f elem tensor) list res" where
  "dequantize_stream F pending [] = (if pending = [] then Inr [] else Inl ValueError)"
| "dequantize_stream F pending ((n, t) # ps) =
     (case List.find (\<lambda>s. suffix s n) gptq_suffixes of
        None \<Rightarrow> bind_res (dequantize_stream F pending ps) (\<lambda>ys. Inr ((n, t) # ys))
      | Some s \<Rightarrow>
          let pre = without_suffix s n;
              parts = dict_put s t (case map_of pending pre of None \<Rightarrow> [] | Some d \<Rightarrow> d)
          in if length parts < 4 then dequantize_stream F (dict_put pre parts pending) ps
             else bind_res (dense_gptq F parts) (\<lambda>w.
                  bind_res (dequantize_stream F (filter (\<lambda>(k, _). k \<noteq> pre) pending) ps) (\<lambda>ys.
                    Inr ((pre @ ''.weight'', w) # ys))))"

definition remap_name :: "string \<Rightarrow> string" where
  "remap_name n = (if prefix ''model.language_model.'' n then ''model.'' @ drop (length ''model.language_model.'') n else n)"

definition text_name :: "string \<Rightarrow> bool" where
  "text_name n \<longleftrightarrow> \<not> prefix ''model.visual.'' n \<and> \<not> prefix ''mtp.'' n"

definition quant_component :: "bool \<Rightarrow> string \<Rightarrow> bool" where
  "quant_component bank_only n \<longleftrightarrow> bank_only \<and> (ends_in gptq_suffixes n \<or> ends_in other_suffixes n)"

definition routed_expert :: "string list option \<Rightarrow> bool \<Rightarrow> string \<Rightarrow> bool" where
  "routed_expert routed bank_only n =
     (if quant_component bank_only n then expert_name n
      else case routed of None \<Rightarrow> expert_name n | Some ns \<Rightarrow> n \<in> set ns)"

text \<open>\<open>cast\<close> is the conversion to the requested type, the identity when none is; \<open>dev\<close> the place the
  checkpoint is read to.\<close>

definition iter_qwen35 :: "'f tensor_ops \<Rightarrow> moe_config option \<Rightarrow> ('f elem tensor \<Rightarrow> 'f elem tensor) \<Rightarrow> device_place \<Rightarrow> bool \<Rightarrow> bool \<Rightarrow>
    (string \<times> 'f elem tensor) list \<Rightarrow> (string \<times> device_place \<times> 'f elem tensor) list res" where
  "iter_qwen35 F cfg cast dev exps nons ps =
     (let routed = map_option expert_source_names cfg; bank_only = exps \<and> \<not> nons
      in bind_res (if bank_only then Inr ps else if \<not> exps then dequantize_stream F [] (drop_routed ps) else dequantize_stream F [] ps) (\<lambda>qs.
        Inr (map (\<lambda>(r, t). let n = remap_name r
                 in (n, if routed_expert routed bank_only n then Host else dev, if quant_component bank_only n then t else cast t))
          (filter (\<lambda>(r, _). text_name r \<and> (if routed_expert routed bank_only (remap_name r) then exps else nons)) qs))))"

lemma find_gptq: "List.find (\<lambda>s. suffix s n) gptq_suffixes = None \<longleftrightarrow> \<not> ends_in gptq_suffixes n"
  by (auto simp: find_None_iff ends_in_def list_ex_iff)

lemma dequantize_plain: "\<forall>n \<in> fst ` set ps. \<not> ends_in gptq_suffixes n \<Longrightarrow> dequantize_stream F [] ps = Inr ps"
proof (induction ps)
  case (Cons p ps)
  obtain n t where p: "p = (n, t)" by (cases p)
  have "List.find (\<lambda>s. suffix s n) gptq_suffixes = None" using Cons.prems find_gptq [of n] by (simp add: p)
  then show ?case using Cons by (simp add: p)
qed simp

lemma expert_remap: "expert_name (remap_name n) \<longleftrightarrow> expert_name n"
proof (cases "prefix ''model.language_model.'' n")
  case True
  then obtain r where n: "n = ''model.language_model.'' @ r" by (auto elim: prefixE)
  then have "remap_name n = ''model.'' @ r" by (simp add: remap_name_def)
  then show ?thesis by (simp add: n expert_name_def sublist_code)
qed (simp add: remap_name_def)

lemma suffix_overlaps: "list_all (\<lambda>s. list_all (\<lambda>x. suffix x ''model.language_model.'' \<longleftrightarrow> suffix x ''model.'') (prefixes s))
    (gptq_suffixes @ other_suffixes)"
  by code_simp

lemma suffix_remap: "s \<in> set (gptq_suffixes @ other_suffixes) \<Longrightarrow> suffix s (remap_name n) \<longleftrightarrow> suffix s n"
proof (cases "prefix ''model.language_model.'' n")
  case True
  assume s: "s \<in> set (gptq_suffixes @ other_suffixes)"
  obtain r where n: "n = ''model.language_model.'' @ r" using True by (auto elim: prefixE)
  then have m: "remap_name n = ''model.'' @ r" by (simp add: remap_name_def)
  have "suffix x ''model.language_model.'' \<longleftrightarrow> suffix x ''model.''" if "s = x @ r" for x
  proof -
    have "x \<in> set (prefixes s)" using that by simp
    then show ?thesis using suffix_overlaps s unfolding list_all_iff by blast
  qed
  then show ?thesis unfolding m unfolding n suffix_append by blast
qed (simp add: remap_name_def)

lemma ends_in_remap: "ends_in gptq_suffixes (remap_name n) \<longleftrightarrow> ends_in gptq_suffixes n"
    "ends_in other_suffixes (remap_name n) \<longleftrightarrow> ends_in other_suffixes n"
  using suffix_remap by (simp_all add: ends_in_def list_ex_iff)

lemma source_names_shape: "n \<in> set (expert_source_names c) \<Longrightarrow> suffix ''proj'' n \<or> suffix ''proj.weight'' n"
proof -
  assume "n \<in> set (expert_source_names c)"
  then consider i e s where "n = experts_prefix i @ ''.'' @ decimal e @ ''.'' @ s" "s \<in> {''gate_proj.weight'', ''up_proj.weight'', ''down_proj.weight''}"
    | i where "n = experts_prefix i @ ''.gate_up_proj''" | i where "n = experts_prefix i @ ''.down_proj''"
    by (auto simp: expert_source_names_def split: if_splits)
  then show ?thesis
  proof cases
    case (1 i e s)
    have "suffix ''proj.weight'' s" using 1(2) by (auto simp: suffix_to_prefix)
    then show ?thesis unfolding 1(1) by (intro disjI2 suffix_appendI)
  next
    case (2 i)
    have "suffix ''proj'' ''.gate_up_proj''" by code_simp
    then show ?thesis unfolding 2 by (intro disjI1 suffix_appendI)
  next
    case (3 i)
    have "suffix ''proj'' ''.down_proj''" by code_simp
    then show ?thesis unfolding 3 by (intro disjI1 suffix_appendI)
  qed
qed

lemma qwen35_bank: "iter_qwen35 F cfg cast dev True False ps =
    Inr (map (\<lambda>(r, t). (remap_name r, Host, if quant_component True (remap_name r) then t else cast t))
      (filter (\<lambda>(r, t). text_name r \<and> routed_expert (map_option expert_source_names cfg) True (remap_name r)) ps))"
  by (auto simp: iter_qwen35_def Let_def intro!: map_cong filter_cong split: if_splits)

lemma qwen35_dense:
  assumes "dequantize_stream F [] (drop_routed ps) = Inr qs"
  shows "iter_qwen35 F cfg cast dev False True ps =
    Inr (map (\<lambda>(r, t). (remap_name r, dev, cast t))
      (filter (\<lambda>(r, t). text_name r \<and> \<not> routed_expert (map_option expert_source_names cfg) False (remap_name r)) qs))"
  using assms by (auto simp: iter_qwen35_def Let_def quant_component_def intro!: map_cong filter_cong split: if_splits)

lemma qwen35_split:
  assumes "\<forall>n \<in> fst ` set ps. \<not> ends_in other_suffixes n \<and> (ends_in gptq_suffixes n \<longrightarrow> expert_name n)"
  obtains bank dense where "iter_qwen35 F cfg cast dev True False ps = Inr bank" "iter_qwen35 F cfg cast dev False True ps = Inr dense"
    "mset (map fst bank) + mset (map fst dense) = mset (map remap_name (filter text_name (map fst ps)))"
    "\<forall>(n, p, t) \<in> set bank. p = Host \<and> (ends_in gptq_suffixes n \<longrightarrow> (\<exists>r. (r, t) \<in> set ps \<and> n = remap_name r))"
proof -
  let ?R = "map_option expert_source_names cfg"
  have plain: "dequantize_stream F [] (drop_routed ps) = Inr (drop_routed ps)"
    by (rule dequantize_plain) (use assms in \<open>auto simp: drop_routed_def\<close>)
  have same: "routed_expert ?R True (remap_name n) \<longleftrightarrow>
      ends_in gptq_suffixes n \<and> expert_name n \<or> \<not> (ends_in gptq_suffixes n \<and> expert_name n) \<and> routed_expert ?R False (remap_name n)"
    if "n \<in> fst ` set ps" for n
    using assms that by (auto simp: routed_expert_def quant_component_def ends_in_remap expert_remap)
  have "mset (map remap_name (filter (\<lambda>n. text_name n \<and> routed_expert ?R True (remap_name n)) ns)) +
      mset (map remap_name (filter (\<lambda>n. text_name n \<and> \<not> routed_expert ?R False (remap_name n))
        (filter (\<lambda>n. \<not> (ends_in gptq_suffixes n \<and> expert_name n)) ns))) = mset (map remap_name (filter text_name ns))"
    if "set ns \<subseteq> fst ` set ps" for ns
    using that
  proof (induction ns)
    case (Cons n ns)
    then have n: "n \<in> fst ` set ps" and IH: "set ns \<subseteq> fst ` set ps" by auto
    show ?case using Cons.IH [OF IH] same [OF n] by (cases "ends_in gptq_suffixes n \<and> expert_name n"; cases "text_name n";
        cases "routed_expert ?R False (remap_name n)") simp_all
  qed simp
  from this [of "map fst ps"]
  have split: "mset (map remap_name (filter (\<lambda>n. text_name n \<and> routed_expert ?R True (remap_name n)) (map fst ps))) +
      mset (map remap_name (filter (\<lambda>n. text_name n \<and> \<not> routed_expert ?R False (remap_name n))
        (filter (\<lambda>n. \<not> (ends_in gptq_suffixes n \<and> expert_name n)) (map fst ps)))) = mset (map remap_name (filter text_name (map fst ps)))" by simp
  show ?thesis
  proof (rule that [OF qwen35_bank qwen35_dense [OF plain]])
    show "mset (map fst (map (\<lambda>(r, t). (remap_name r, Host, if quant_component True (remap_name r) then t else cast t))
        (filter (\<lambda>(r, t). text_name r \<and> routed_expert ?R True (remap_name r)) ps))) +
      mset (map fst (map (\<lambda>(r, t). (remap_name r, dev, cast t))
        (filter (\<lambda>(r, t). text_name r \<and> \<not> routed_expert ?R False (remap_name r)) (drop_routed ps)))) =
      mset (map remap_name (filter text_name (map fst ps)))"
      using split by (simp add: drop_routed_def filter_map comp_def split_beta)
    show "\<forall>(n, p, t) \<in> set (map (\<lambda>(r, t). (remap_name r, Host, if quant_component True (remap_name r) then t else cast t))
        (filter (\<lambda>(r, t). text_name r \<and> routed_expert ?R True (remap_name r)) ps)).
      p = Host \<and> (ends_in gptq_suffixes n \<longrightarrow> (\<exists>r. (r, t) \<in> set ps \<and> n = remap_name r))"
      by (auto simp: quant_component_def)
  qed
qed

lemma split_names: "list_all (\<lambda>x. expert_name (fst x)) (split_weights host tied True False qs)"
    "list_all (\<lambda>x. \<not> expert_name (fst x)) (split_weights host tied False True qs)"
  using head_names(1) by (auto simp: split_weights_eq kept_def head_of_def list_all_iff split: option.splits)

lemma dense_no_experts:
  "list_all (\<lambda>n. \<not> expert_name n) (map fst ps) \<Longrightarrow> iter_qwen3 tied ps = iter_mellum tied True True ps"
proof -
  assume "list_all (\<lambda>n. \<not> expert_name n) (map fst ps)"
  have k: "kept False True True ps = map (\<lambda>(n, t). (n, On_device, t)) ps" by (auto simp: kept_def)
  show ?thesis by (simp add: iter_qwen3_def iter_mellum_def split_weights_def tie_head_def dense_loop_kept weight_loop_kept k)
      (force split: option.splits)
qed


definition plain_ops :: "int tensor_ops" where
  "plain_ops = \<lparr>tp_int = id, tp_single = elem_int id, tp_mul = (*), tp_sub = (-), tp_out = id,
     tp_half = (\<lambda>s n. if s then - int n else int n), tp_exp2 = (\<lambda>_. 1)\<rparr>"

definition small_checkpoint :: "(string \<times> int elem tensor) list" where
  "small_checkpoint =
     [(''model.visual.patch.weight'', \<lparr>tn_shape = [1], tn_data = [Fp 1]\<rparr>),
      (''model.language_model.layers.0.mlp.experts.0.gate_proj.qweight'', \<lparr>tn_shape = [1], tn_data = [W32 7]\<rparr>),
      (''model.language_model.embed_tokens.weight'', \<lparr>tn_shape = [1], tn_data = [Fp 2]\<rparr>)]"


end
