(* ===== verification/Ftw_Archive.thy ===== *)
theory Ftw_Archive
  imports Gguf_Reader
begin

text \<open>
  \<open>checkpoint/ftw.py\<close> and \<open>checkpoint/convert.py\<close>: the archive of one flat file and one index. A tensor is
  the name of its type, its shape and its bytes; the index is the dictionary that JSON stores; which
  names are types of torch, and their sizes in bytes, is a parameter.
\<close>

section \<open>Writing\<close>

record archived_tensor =
  rt_dtype :: string
  rt_shape :: "nat list"
  rt_bytes :: "byte list"

record ftw_entry =
  fe_dtype :: string
  fe_shape :: "nat list"
  fe_offset :: nat
  fe_nbytes :: nat

definition alignment :: nat where
  "alignment = 8"

text \<open>\<open>tensor.contiguous().cpu().view(torch.uint8)\<close>: a tensor without dimensions cannot change the size of
  its elements.\<close>

definition raw_view :: "(string \<Rightarrow> nat option) \<Rightarrow> archived_tensor \<Rightarrow> byte list res" where
  "raw_view sz t = (if rt_shape t = [] \<and> sz (rt_dtype t) \<noteq> Some 1 then Inl RuntimeError else Inr (rt_bytes t))"

definition padding :: "nat \<Rightarrow> nat" where
  "padding offset = nat ((- int offset) mod int alignment)"

fun write_loop :: "(string \<Rightarrow> nat option) \<Rightarrow> (string \<times> archived_tensor) list \<Rightarrow> nat \<Rightarrow> byte list \<Rightarrow> (string \<times> ftw_entry) list \<Rightarrow>
    (byte list \<times> (string \<times> ftw_entry) list) res" where
  "write_loop sz [] offset f index = Inr (f, index)"
| "write_loop sz ((n, t) # items) offset f index =
     (let pad = padding offset; offset = offset + pad
      in bind_res (raw_view sz t) (\<lambda>raw.
           write_loop sz items (offset + length raw) (f @ replicate pad 0 @ raw)
             (dict_put n \<lparr>fe_dtype = rt_dtype t, fe_shape = rt_shape t, fe_offset = offset, fe_nbytes = length raw\<rparr> index)))"

definition ftw_write :: "(string \<Rightarrow> nat option) \<Rightarrow> (string \<times> archived_tensor) list \<Rightarrow> (byte list \<times> (string \<times> ftw_entry) list) res" where
  "ftw_write sz items = write_loop sz items 0 [] []"

text \<open>\<open>convert_checkpoint\<close> writes what the checkpoint's reader yields, and refuses an empty one.\<close>

definition convert_checkpoint :: "(string \<Rightarrow> nat option) \<Rightarrow> (string \<times> archived_tensor) list \<Rightarrow> (byte list \<times> (string \<times> ftw_entry) list) res" where
  "convert_checkpoint sz items = bind_res (ftw_write sz items) (\<lambda>r. if items = [] then Inl ValueError else Inr r)"

definition convert_summary :: "(string \<times> ftw_entry) list \<Rightarrow> nat \<times> nat" where
  "convert_summary index = (length index, sum_list (map (fe_nbytes \<circ> snd) index))"

section \<open>Reading\<close>

text \<open>\<open>whole[offset : offset + nbytes].view(dtype).view(shape)\<close>: the view starts at a multiple of the size
  of an element and covers whole elements, as many as the shape has.\<close>

definition view_tensor :: "(string \<Rightarrow> nat option) \<Rightarrow> byte list \<Rightarrow> ftw_entry \<Rightarrow> archived_tensor res" where
  "view_tensor sz whole e =
     (case sz (fe_dtype e) of
        None \<Rightarrow> Inl ValueError
      | Some k \<Rightarrow>
          let start = min (fe_offset e) (length whole); part = take (fe_nbytes e) (drop (fe_offset e) whole)
          in if k \<noteq> 1 \<and> (length part mod k \<noteq> 0 \<or> start mod k \<noteq> 0) then Inl RuntimeError
             else if prod_list (fe_shape e) * k \<noteq> length part then Inl RuntimeError
             else Inr \<lparr>rt_dtype = fe_dtype e, rt_shape = fe_shape e, rt_bytes = part\<rparr>)"

fun read_loop :: "(string \<Rightarrow> nat option) \<Rightarrow> byte list \<Rightarrow> (string \<times> ftw_entry) list \<Rightarrow> (string \<times> archived_tensor) list res" where
  "read_loop sz whole [] = Inr []"
| "read_loop sz whole ((n, e) # index) =
     bind_res (view_tensor sz whole e) (\<lambda>t. bind_res (read_loop sz whole index) (\<lambda>ts. Inr ((n, t) # ts)))"

text \<open>An empty file cannot be mapped.\<close>

definition ftw_read :: "(string \<Rightarrow> nat option) \<Rightarrow> byte list \<times> (string \<times> ftw_entry) list \<Rightarrow> (string \<times> archived_tensor) list res" where
  "ftw_read sz a = (if fst a = [] then Inl ValueError else read_loop sz (fst a) (snd a))"

section \<open>What is stored is read\<close>

lemma padding_aligns: "alignment dvd offset + padding offset"
proof -
  have "int alignment dvd int offset + (- int offset) mod int alignment"
    by (metis add.commute dvd_eq_mod_eq_0 mod_add_left_eq mod_self add_uminus_conv_diff diff_self mod_0)
  moreover have "int (padding offset) = (- int offset) mod int alignment" by (simp add: padding_def alignment_def)
  ultimately show ?thesis by (metis int_dvd_int_iff of_nat_add)
qed

definition good_tensor :: "(string \<Rightarrow> nat option) \<Rightarrow> archived_tensor \<Rightarrow> bool" where
  "good_tensor sz t \<longleftrightarrow>
     (case sz (rt_dtype t) of
        None \<Rightarrow> False
      | Some k \<Rightarrow> k dvd alignment \<and> length (rt_bytes t) = prod_list (rt_shape t) * k \<and> (rt_shape t \<noteq> [] \<or> k = 1))"

definition stored :: "byte list \<Rightarrow> archived_tensor \<Rightarrow> ftw_entry \<Rightarrow> bool" where
  "stored f t e \<longleftrightarrow> fe_dtype e = rt_dtype t \<and> fe_shape e = rt_shape t \<and> fe_nbytes e = length (rt_bytes t) \<and>
     alignment dvd fe_offset e \<and> fe_offset e + fe_nbytes e \<le> length f \<and> take (fe_nbytes e) (drop (fe_offset e) f) = rt_bytes t"

abbreviation archived :: "byte list \<Rightarrow> (string \<times> archived_tensor) list \<Rightarrow> (string \<times> ftw_entry) list \<Rightarrow> bool" where
  "archived f d index \<equiv> list_all2 (\<lambda>(n, t) (n', e). n' = n \<and> stored f t e) d index"

lemma stored_append: "stored f t e \<Longrightarrow> stored (f @ g) t e"
  by (auto simp: stored_def)

lemma archived_append: "archived f d index \<Longrightarrow> archived (f @ g) d index"
  by (erule list_all2_mono) (auto intro: stored_append)

lemma archived_put: "archived f d index \<Longrightarrow> stored f t e \<Longrightarrow> archived f (dict_put n t d) (dict_put n e index)"
proof (induction d index rule: list_all2_induct)
  case (Cons x xs y ys)
  then show ?case by (cases x; cases y) auto
qed simp

lemma dict_of_snoc: "dict_of (xs @ [(k, v)]) = dict_put k v (dict_of xs)"
  by (simp add: dict_of_def)

lemma stored_new:
  assumes "alignment dvd length g"
  shows "stored (g @ rt_bytes t) t \<lparr>fe_dtype = rt_dtype t, fe_shape = rt_shape t, fe_offset = length g, fe_nbytes = length (rt_bytes t)\<rparr>"
  using assms by (simp add: stored_def)

lemma raw_view_good: "good_tensor sz t \<Longrightarrow> raw_view sz t = Inr (rt_bytes t)"
  by (auto simp: good_tensor_def raw_view_def split: option.splits)

lemma write_loop_archived:
  assumes "\<forall>x \<in> set items. good_tensor sz (snd x)" "archived f (dict_of done) index"
  shows "\<exists>f' index'. write_loop sz items (length f) f index = Inr (f', index') \<and> archived f' (dict_of (done @ items)) index' \<and>
    length f + sum_list (map (length \<circ> rt_bytes \<circ> snd) items) \<le> length f'"
  using assms
proof (induction items arbitrary: f index "done")
  case (Cons x items)
  obtain n t where x: "x = (n, t)" by (cases x)
  let ?g = "f @ replicate (padding (length f)) 0"
  let ?e = "\<lparr>fe_dtype = rt_dtype t, fe_shape = rt_shape t, fe_offset = length ?g, fe_nbytes = length (rt_bytes t)\<rparr>"
  let ?f = "?g @ rt_bytes t"
  have "alignment dvd length ?g" using padding_aligns by simp
  from archived_put [OF archived_append [OF archived_append [OF Cons.prems(2)]] stored_new [OF this]]
  have a: "archived ?f (dict_of (done @ [x])) (dict_put n ?e index)" by (simp add: x dict_of_snoc)
  have g: "good_tensor sz t" "\<forall>x \<in> set items. good_tensor sz (snd x)" using Cons.prems(1) by (simp_all add: x)
  have step: "write_loop sz (x # items) (length f) f index = write_loop sz items (length ?f) ?f (dict_put n ?e index)"
    by (simp add: x raw_view_good [OF g(1)] Let_def add.assoc)
  from Cons.IH [OF g(2) a] obtain f' index' where w: "write_loop sz items (length ?f) ?f (dict_put n ?e index) = Inr (f', index')"
      "archived f' (dict_of ((done @ [x]) @ items)) index'"
      "length ?f + sum_list (map (length \<circ> rt_bytes \<circ> snd) items) \<le> length f'" by blast
  then show ?case unfolding step by (auto simp: x comp_def)
qed (auto intro: list_all2_refl)

lemma view_stored:
  assumes "stored f t e" "good_tensor sz t"
  shows "view_tensor sz f e = Inr t"
proof -
  obtain k where k: "sz (rt_dtype t) = Some k" "k dvd alignment" "length (rt_bytes t) = prod_list (rt_shape t) * k"
    using assms(2) by (auto simp: good_tensor_def split: option.splits)
  have s: "fe_dtype e = rt_dtype t" "fe_shape e = rt_shape t" "fe_offset e \<le> length f" "take (fe_nbytes e) (drop (fe_offset e) f) = rt_bytes t"
    "k dvd fe_offset e" using assms(1) k(2) dvd_trans by (auto simp: stored_def)
  have "length (rt_bytes t) mod k = 0" "fe_offset e mod k = 0" using k(3) s(5) by simp_all
  then show ?thesis using k s by (simp add: view_tensor_def Let_def)
qed

lemma read_archived: "archived f d index \<Longrightarrow> \<forall>x \<in> set d. good_tensor sz (snd x) \<Longrightarrow> read_loop sz f index = Inr d"
proof (induction d index rule: list_all2_induct)
  case (Cons x xs y ys)
  then show ?case by (cases x; cases y) (simp add: view_stored)
qed simp

lemma dict_put_values: "set (dict_put k v d) \<subseteq> insert (k, v) (set d)"
  by (induction k v d rule: dict_put.induct) auto

lemma dict_of_values: "set (dict_of xs) \<subseteq> set xs"
proof (induction xs rule: rev_induct)
  case (snoc x xs)
  then show ?case using dict_put_values [of "fst x" "snd x" "dict_of xs"] by (cases x) (auto simp: dict_of_snoc)
qed (simp add: dict_of_def)

lemma dict_bytes: "sum_list (map (length \<circ> rt_bytes \<circ> snd) (dict_of xs)) \<le> sum_list (map (length \<circ> rt_bytes \<circ> snd) xs)"
proof (induction xs rule: rev_induct)
  case (snoc x xs)
  have "sum_list (map (length \<circ> rt_bytes \<circ> snd) (dict_put k v d)) \<le> length (rt_bytes v) + sum_list (map (length \<circ> rt_bytes \<circ> snd) d)" for k v d
    by (induction k v d rule: dict_put.induct) auto
  from this [of "fst x" "snd x" "dict_of xs"] snoc show ?case by (cases x) (simp add: dict_of_snoc comp_def)
qed (simp add: dict_of_def)

lemma archived_bytes: "archived f d index \<Longrightarrow> map (fe_nbytes \<circ> snd) index = map (length \<circ> rt_bytes \<circ> snd) d"
  by (induction d index rule: list_all2_induct) (auto simp: stored_def)

lemma convert_read:
  assumes good: "\<forall>x \<in> set items. good_tensor sz (snd x)" and "\<exists>x \<in> set items. rt_bytes (snd x) \<noteq> []"
  shows "\<exists>a. convert_checkpoint sz items = Inr a \<and> ftw_read sz a = Inr (dict_of items) \<and>
       fst (convert_summary (snd a)) = length (dict_of items) \<and> snd (convert_summary (snd a)) \<le> length (fst a)"
proof -
  obtain f index where w: "ftw_write sz items = Inr (f, index)" "archived f (dict_of items) index"
      "sum_list (map (length \<circ> rt_bytes \<circ> snd) items) \<le> length f"
    using write_loop_archived [OF good, of "[]" "[]" "[]"] by (auto simp: ftw_write_def dict_of_def)
  obtain x where x: "x \<in> set items" "rt_bytes (snd x) \<noteq> []" using assms(2) by blast
  then have "length (rt_bytes (snd x)) \<le> sum_list (map (length \<circ> rt_bytes \<circ> snd) items)"
    by (induction items) auto
  moreover have "0 < length (rt_bytes (snd x))" using x(2) by simp
  ultimately have "0 < length f" using w(3) by linarith
  then have "f \<noteq> []" by simp
  moreover have "read_loop sz f index = Inr (dict_of items)"
    using read_archived [OF w(2)] good dict_of_values [of items] by blast
  moreover have "sum_list (map (fe_nbytes \<circ> snd) index) \<le> length f"
    unfolding archived_bytes [OF w(2)] using dict_bytes [of items] w(3) by linarith
  moreover have "length index = length (dict_of items)" using w(2) by (simp add: list_all2_lengthD)
  moreover have "items \<noteq> []" using x(1) by auto
  ultimately show ?thesis using w(1) by (auto simp: convert_checkpoint_def ftw_read_def convert_summary_def)
qed

text \<open>C39. A checkpoint that is converted to an archive is read back as it was: the same names in the same
  order, each with the type, shape and bytes it was written with last, if some tensor has a byte, the
  sizes of the types divide the alignment and no tensor without dimensions has wider elements than a
  byte. Without the last two the archive is not written, or not read: a scalar of four bytes stops the
  conversion, a 16-byte type the reading, and so does an archive of empty tensors only.\<close>

theorem ftw_roundtrip:
  "(list_all (\<lambda>x. good_tensor sz (snd x)) items \<and> list_ex (\<lambda>x. rt_bytes (snd x) \<noteq> []) items \<longrightarrow>
     (\<exists>a. convert_checkpoint sz items = Inr a \<and> ftw_read sz a = Inr (dict_of items) \<and>
       fst (convert_summary (snd a)) = length (dict_of items) \<and> snd (convert_summary (snd a)) \<le> length (fst a))) \<and>
   convert_checkpoint (\<lambda>_. Some 4) [(''scale'', \<lparr>rt_dtype = ''float32'', rt_shape = [], rt_bytes = [0, 0, 128, 63]\<rparr>)] = Inl RuntimeError \<and>
   bind_res (convert_checkpoint (\<lambda>n. Some (if n = ''uint8'' then 1 else 16))
       [(''a'', \<lparr>rt_dtype = ''uint8'', rt_shape = [1], rt_bytes = [1]\<rparr>),
        (''b'', \<lparr>rt_dtype = ''complex128'', rt_shape = [1], rt_bytes = replicate 16 0\<rparr>)])
     (ftw_read (\<lambda>n. Some (if n = ''uint8'' then 1 else 16))) = Inl RuntimeError \<and>
   bind_res (convert_checkpoint (\<lambda>_. Some 4) [(''e'', \<lparr>rt_dtype = ''float32'', rt_shape = [0], rt_bytes = []\<rparr>)])
     (ftw_read (\<lambda>_. Some 4)) = Inl ValueError"
proof (intro conjI impI)
  assume "list_all (\<lambda>x. good_tensor sz (snd x)) items \<and> list_ex (\<lambda>x. rt_bytes (snd x) \<noteq> []) items"
  then show "\<exists>a. convert_checkpoint sz items = Inr a \<and> ftw_read sz a = Inr (dict_of items) \<and>
       fst (convert_summary (snd a)) = length (dict_of items) \<and> snd (convert_summary (snd a)) \<le> length (fst a)"
    by (intro convert_read) (simp_all add: list_all_iff list_ex_iff)
qed code_simp+

theorem ftw_roundtrip_witness:
  "\<exists>a. convert_checkpoint (\<lambda>n. Some (if n = ''int64'' then 8 else 1))
      [(''a'', \<lparr>rt_dtype = ''uint8'', rt_shape = [3], rt_bytes = [1, 2, 3]\<rparr>), (''b'', \<lparr>rt_dtype = ''int64'', rt_shape = [1], rt_bytes = [9, 0, 0, 0, 0, 0, 0, 0]\<rparr>)] = Inr a \<and>
    ftw_read (\<lambda>n. Some (if n = ''int64'' then 8 else 1)) a =
      Inr [(''a'', \<lparr>rt_dtype = ''uint8'', rt_shape = [3], rt_bytes = [1, 2, 3]\<rparr>), (''b'', \<lparr>rt_dtype = ''int64'', rt_shape = [1], rt_bytes = [9, 0, 0, 0, 0, 0, 0, 0]\<rparr>)]"
proof -
  let ?sz = "\<lambda>n. Some (if n = ''int64'' then 8 else 1 :: nat)"
    and ?items = "[(''a'', \<lparr>rt_dtype = ''uint8'', rt_shape = [3], rt_bytes = [1, 2, 3]\<rparr>), (''b'', \<lparr>rt_dtype = ''int64'', rt_shape = [1], rt_bytes = [9, 0, 0, 0, 0, 0, 0, 0]\<rparr>)]"
  have "list_all (\<lambda>x. good_tensor ?sz (snd x)) ?items \<and> list_ex (\<lambda>x. rt_bytes (snd x) \<noteq> []) ?items"
    by (simp add: good_tensor_def alignment_def)
  moreover have "dict_of ?items = ?items" by (simp add: dict_of_def)
  ultimately show ?thesis using ftw_roundtrip [of ?sz ?items] by auto
qed

end
