(* ===== verification/Text_Stream.thy ===== *)
theory Text_Stream
  imports Prelude
begin

text \<open>
  The text stream of a response: \<open>tokenizer/detokenize.py\<close> (token ids to text), the tool-call parser
  of \<open>server/function_call_parser.py\<close>, the reasoning parser of \<open>server/reasoning_parser.py\<close> and the
  loop of \<open>server/generation.py\<close> that drives them. A text is the list of its characters.
\<close>

section \<open>Searching\<close>

text \<open>\<open>s.find(pat)\<close>, \<open>s.find(pat, k)\<close>, \<open>s.endswith(pat)\<close> and the suffix a parser holds back.\<close>

fun find_sub :: "'c list \<Rightarrow> 'c list \<Rightarrow> nat option" where
  "find_sub pat [] = (if pat = [] then Some 0 else None)"
| "find_sub pat (c # s) = (if take (length pat) (c # s) = pat then Some 0 else map_option Suc (find_sub pat s))"

definition find_from :: "'c list \<Rightarrow> 'c list \<Rightarrow> nat \<Rightarrow> nat option" where
  "find_from pat s k = map_option (\<lambda>i. k + i) (find_sub pat (drop k s))"

definition ends_with :: "'c list \<Rightarrow> 'c list \<Rightarrow> bool" where
  "ends_with s pat \<longleftrightarrow> length pat \<le> length s \<and> drop (length s - length pat) s = pat"

definition trailing_partial :: "'c list \<Rightarrow> 'c list \<Rightarrow> nat" where
  "trailing_partial s tag =
     (case List.find (\<lambda>n. ends_with s (take n tag)) (rev [1..<Suc (min (length s) (length tag - 1))]) of
        None \<Rightarrow> 0 | Some n \<Rightarrow> n)"

definition hold_back :: "'c list \<Rightarrow> 'c list \<Rightarrow> 'c list" where
  "hold_back s tag = drop (length s - trailing_partial s tag) s"

lemma find_sub_Some:
  "find_sub pat s = Some i \<Longrightarrow> i + length pat \<le> length s \<and> take (length pat) (drop i s) = pat"
proof (induction pat s arbitrary: i rule: find_sub.induct)
  case (2 pat c s)
  show ?case
  proof (cases "take (length pat) (c # s) = pat")
    case True
    then have "length pat \<le> length (c # s)" by (metis length_take min.cobounded1)
    then show ?thesis using 2(2) True by simp
  next
    case False
    then obtain j where "find_sub pat s = Some j" "i = Suc j" using 2(2) by auto
    then show ?thesis using 2(1) [OF False] by simp
  qed
qed (simp split: if_splits)

lemma find_sub_first: "find_sub pat s = Some i \<Longrightarrow> j < i \<Longrightarrow> take (length pat) (drop j s) \<noteq> pat"
proof (induction pat s arbitrary: i j rule: find_sub.induct)
  case (2 pat c s)
  then show ?case by (cases j) (auto split: if_splits)
qed (simp split: if_splits)

lemma find_sub_None: "find_sub pat s = None \<Longrightarrow> take (length pat) (drop j s) \<noteq> pat \<or> length s < j"
proof (induction pat s arbitrary: j rule: find_sub.induct)
  case (1 pat)
  then show ?case by (cases pat) (auto split: if_splits)
next
  case (2 pat c s)
  then show ?case by (cases j) (auto split: if_splits)
qed

lemma find_sub_unique:
  assumes "i + length pat \<le> length s" "take (length pat) (drop i s) = pat" "\<And>j. j < i \<Longrightarrow> take (length pat) (drop j s) \<noteq> pat"
  shows "find_sub pat s = Some i"
proof (cases "find_sub pat s")
  case None
  then show ?thesis using find_sub_None [OF None, of i] assms(1,2) by simp
next
  case (Some k)
  then have "\<not> k < i" "\<not> i < k" using find_sub_Some [OF Some] find_sub_first [OF Some] assms by blast+
  then show ?thesis using Some by simp
qed

lemma find_sub_append:
  assumes "find_sub pat s = Some i"
  shows "find_sub pat (s @ t) = Some i"
proof -
  note F = find_sub_Some [OF assms]
  have "take (length pat) (drop j (s @ t)) \<noteq> pat" if "j < i" for j
    using find_sub_first [OF assms that] F that by (simp add: drop_append take_append)
  then show ?thesis using F by (intro find_sub_unique) (simp_all add: drop_append)
qed

text \<open>In front of the text, characters that no occurrence starts with.\<close>

lemma find_sub_dead:
  assumes "pat \<noteq> []" "hd pat \<notin> set p"
  shows "find_sub pat (p @ s) = map_option (\<lambda>i. length p + i) (find_sub pat s)"
  using assms(2)
proof (induction p)
  case (Cons c p)
  have "take (length pat) (c # p @ s) \<noteq> pat" using Cons.prems assms(1) by (cases pat) auto
  then show ?case using Cons by (simp add: option.map_comp comp_def)
next
  case Nil
  have "(\<lambda>i. 0 + i) = (id :: nat \<Rightarrow> nat)" by auto
  then show ?case by (simp add: option.map_id)
qed

lemma trailing_partial_props:
  "trailing_partial s tag \<le> length s" "0 < trailing_partial s tag \<Longrightarrow> trailing_partial s tag < length tag"
  "ends_with s (take (trailing_partial s tag) tag)"
  "n < length tag \<Longrightarrow> n \<le> length s \<Longrightarrow> ends_with s (take n tag) \<Longrightarrow> n \<le> trailing_partial s tag"
proof -
  let ?P = "\<lambda>n. ends_with s (take n tag)" and ?ns = "rev [1..<Suc (min (length s) (length tag - 1))]"
  have "trailing_partial s tag = 0 \<or> (trailing_partial s tag \<in> set ?ns \<and> ?P (trailing_partial s tag))"
  proof (cases "List.find ?P ?ns")
    case (Some n)
    then have "n \<in> set ?ns \<and> ?P n" by (metis find_Some_iff nth_mem)
    then show ?thesis using Some by (simp only: trailing_partial_def option.case simp_thms)
  qed (simp only: trailing_partial_def option.case simp_thms)
  moreover have "x \<in> set ?ns \<longleftrightarrow> 1 \<le> x \<and> x \<le> length s \<and> x \<le> length tag - 1" for x by auto
  ultimately have r: "trailing_partial s tag = 0 \<or> 1 \<le> trailing_partial s tag \<and> trailing_partial s tag \<le> length s \<and>
      trailing_partial s tag \<le> length tag - 1 \<and> ?P (trailing_partial s tag)" by blast
  then show "trailing_partial s tag \<le> length s" "0 < trailing_partial s tag \<Longrightarrow> trailing_partial s tag < length tag" by auto
  show "ends_with s (take (trailing_partial s tag) tag)" using r by (auto simp: ends_with_def)
  show "n \<le> trailing_partial s tag" if n: "n < length tag" "n \<le> length s" "ends_with s (take n tag)"
  proof (cases "n = 0")
    case False
    then have i: "n \<in> set ?ns" using n by auto
    then obtain m where m: "List.find ?P ?ns = Some m" using n(3) by (metis List.find_None_iff not_None_eq)
    have "n \<le> m"
    proof (rule ccontr)
      assume "\<not> n \<le> m"
      obtain a where a: "a < length ?ns" "?ns ! a = m" "\<forall>j < a. \<not> ?P (?ns ! j)" using m by (auto simp: find_Some_iff)
      obtain b where b: "b < length ?ns" "?ns ! b = n" using i unfolding in_set_conv_nth by blast
      have "sorted_wrt (>) ?ns" by (simp add: sorted_wrt_rev del: upt_Suc)
      then have "?ns ! b < ?ns ! a" if "a < b" using that b(1) by (simp only: sorted_wrt_iff_nth_less)
      then have "b < a" using a(2) b(2) \<open>\<not> n \<le> m\<close> by (cases a b rule: linorder_cases) auto
      then show False using a(3) b(2) n(3) by blast
    qed
    then show ?thesis using m by (simp add: trailing_partial_def)
  qed simp
qed

lemma ends_with_append: "ends_with (p @ s) t \<Longrightarrow> length t \<le> length s \<Longrightarrow> ends_with s t"
  by (auto simp: ends_with_def)

lemma ends_with_grow: "ends_with s t \<Longrightarrow> ends_with (p @ s) t"
  by (auto simp: ends_with_def)

lemma trailing_partial_dead:
  assumes "tag \<noteq> []" "hd tag \<notin> set p"
  shows "trailing_partial (p @ s) tag = trailing_partial s tag"
proof (rule antisym)
  let ?n = "trailing_partial (p @ s) tag"
  show "trailing_partial s tag \<le> ?n"
  proof (cases "trailing_partial s tag = 0")
    case False
    then show ?thesis using trailing_partial_props(1,2,3) [of s tag] by (intro trailing_partial_props(4)) (auto intro: ends_with_grow)
  qed simp
  show "?n \<le> trailing_partial s tag"
  proof (cases "?n = 0")
    case False
    then have n: "?n < length tag" "ends_with (p @ s) (take ?n tag)" "?n \<le> length (p @ s)" using trailing_partial_props(1,2,3) [of "p @ s" tag] by auto
    have "?n \<le> length s"
    proof (rule ccontr)
      assume a: "\<not> ?n \<le> length s"
      then have "drop (length (p @ s) - ?n) (p @ s) = take ?n tag" using n by (simp add: ends_with_def)
      then have "hd (drop (length (p @ s) - ?n) p @ s) = hd tag"
        using False a assms(1) by (simp add: drop_append hd_take)
      moreover have "length (p @ s) - ?n < length p" using a n(3) by simp
      ultimately have "p ! (length (p @ s) - ?n) = hd tag" by (simp add: hd_append hd_drop_conv_nth)
      then show False using assms(2) \<open>length (p @ s) - ?n < length p\<close> by (metis nth_mem)
    qed
    then show ?thesis using n ends_with_append [OF n(2)] by (intro trailing_partial_props(4)) simp_all
  qed simp
qed

lemma hold_back_dead: "tag \<noteq> [] \<Longrightarrow> hd tag \<notin> set p \<Longrightarrow> hold_back (p @ s) tag = hold_back s tag"
  using trailing_partial_props(1) [of s tag] by (simp add: hold_back_def trailing_partial_dead)

section \<open>Tool calls\<close>

lemma find_from_Some: "find_from pat s k = Some e \<Longrightarrow> k \<le> e \<and> (k \<le> length s \<longrightarrow> e + length pat \<le> length s)"
  using find_sub_Some [of pat "drop k s"] by (fastforce simp: find_from_def)

text \<open>The loop of \<open>GenericTagParser.parse\<close> on the buffer, for a grammar with an open marker (an empty
  one would be found everywhere, for ever): the bodies of the calls and the buffer that is left. The
  text before a call and the text after it are joined in the buffer.\<close>

function tool_loop :: "'c list \<Rightarrow> 'c list \<Rightarrow> 'c list \<Rightarrow> 'c list list \<times> 'c list" where
  "tool_loop op cl buf =
     (if op = [] then ([], buf) else
      case find_sub op buf of
        None \<Rightarrow> ([], hold_back buf op)
      | Some s \<Rightarrow>
          (case find_from cl buf (s + length op) of
             None \<Rightarrow> ([], drop s buf)
           | Some e \<Rightarrow>
               let (bodies, rest) = tool_loop op cl (take s buf @ drop (e + length cl) buf)
               in (take (e - (s + length op)) (drop (s + length op) buf) # bodies, rest)))"
  by pat_completeness auto

termination
proof (relation "measure (\<lambda>(op, cl, buf). length buf)")
  fix op cl buf :: "'c list" and s e
  assume "op \<noteq> []" "find_sub op buf = Some s" "find_from cl buf (s + length op) = Some e"
  then show "((op, cl, take s buf @ drop (e + length cl) buf), op, cl, buf) \<in> measure (\<lambda>(op, cl, buf). length buf)"
    using find_sub_Some [of op buf s] find_from_Some [of cl buf "s + length op" e] by (cases op) auto
qed simp

declare tool_loop.simps [simp del]

text \<open>\<open>parse\<close> on a sequence of chunks, and the calls it yields: identifiers count on from those
  already given; what a body's JSON says is a parameter.\<close>

fun tool_feed :: "'c list \<Rightarrow> 'c list \<Rightarrow> 'c list \<Rightarrow> 'c list list \<Rightarrow> 'c list list" where
  "tool_feed op cl buf [] = []"
| "tool_feed op cl buf (c # cs) =
     (let (bodies, rest) = tool_loop op cl (buf @ c) in bodies @ tool_feed op cl rest cs)"

definition parse_tools :: "('c list \<Rightarrow> 'call) \<Rightarrow> 'c list \<Rightarrow> 'c list \<Rightarrow> nat \<Rightarrow> 'c list list \<Rightarrow> (nat \<times> 'call) list" where
  "parse_tools json op cl n chunks =
     (let bodies = tool_feed op cl [] chunks in zip [n..<n + length bodies] (map json bodies))"

text \<open>What the parser should yield: the bodies of the calls from left to right.\<close>

function scan :: "'c list \<Rightarrow> 'c list \<Rightarrow> 'c list \<Rightarrow> 'c list list" where
  "scan op cl xs =
     (if op = [] then [] else
      case find_sub op xs of
        None \<Rightarrow> []
      | Some s \<Rightarrow>
          (case find_from cl xs (s + length op) of
             None \<Rightarrow> []
           | Some e \<Rightarrow> take (e - (s + length op)) (drop (s + length op) xs) # scan op cl (drop (e + length cl) xs)))"
  by pat_completeness auto
termination
proof (relation "measure (\<lambda>(op, cl, xs). length xs)")
  fix op cl xs :: "'c list" and s e
  assume "op \<noteq> []" "find_sub op xs = Some s" "find_from cl xs (s + length op) = Some e"
  then show "((op, cl, drop (e + length cl) xs), op, cl, xs) \<in> measure (\<lambda>(op, cl, xs). length xs)"
    using find_sub_Some [of op xs s] find_from_Some [of cl xs "s + length op" e] by (cases op) auto
qed simp

text \<open>Outside the calls the marker's first character only occurs in markers and, at the end, in the
  beginning of one.\<close>

function tidy :: "'c list \<Rightarrow> 'c list \<Rightarrow> 'c list \<Rightarrow> bool" where
  "tidy op cl xs =
     (if op = [] then True else
      case find_sub op xs of
        None \<Rightarrow> hd op \<notin> set (take (length xs - trailing_partial xs op) xs)
      | Some s \<Rightarrow> hd op \<notin> set (take s xs) \<and>
          (case find_from cl xs (s + length op) of
             None \<Rightarrow> True
           | Some e \<Rightarrow> tidy op cl (drop (e + length cl) xs)))"
  by pat_completeness auto
termination
proof (relation "measure (\<lambda>(op, cl, xs). length xs)")
  fix op cl xs :: "'c list" and s e
  assume "op \<noteq> []" "find_sub op xs = Some s" "find_from cl xs (s + length op) = Some e"
  then show "((op, cl, drop (e + length cl) xs), op, cl, xs) \<in> measure (\<lambda>(op, cl, xs). length xs)"
    using find_sub_Some [of op xs s] find_from_Some [of cl xs "s + length op" e] by (cases op) auto
qed simp

declare scan.simps [simp del] tidy.simps [simp del]

lemma find_from_dead: "find_from cl (p @ s) (length p + k) = map_option (\<lambda>e. length p + e) (find_from cl s k)"
  by (simp add: find_from_def option.map_comp comp_def add.assoc)

lemma find_from_append: "find_from cl s k = Some e \<Longrightarrow> k \<le> length s \<Longrightarrow> find_from cl (s @ t) k = Some e"
  using find_sub_append [of cl "drop k s"] by (fastforce simp: find_from_def)

text \<open>Characters in front that no marker starts with change nothing.\<close>

lemma tool_loop_dead:
  assumes "op \<noteq> []" "hd op \<notin> set p"
  shows "tool_loop op cl (p @ buf) = tool_loop op cl buf"
proof (induction buf rule: length_induct)
  case (1 buf)
  show ?case
  proof (cases "find_sub op buf")
    case None
    then show ?thesis using assms
      by (subst (1 2) tool_loop.simps) (simp add: find_sub_dead hold_back_dead)
  next
    case (Some s)
    then have d: "find_sub op (p @ buf) = Some (length p + s)" using assms by (simp add: find_sub_dead)
    have ff: "find_from cl (p @ buf) (length p + s + length op) = map_option (\<lambda>e. length p + e) (find_from cl buf (s + length op))"
      using find_from_dead [of cl p buf "s + length op"] by (simp add: add.assoc)
    show ?thesis
    proof (cases "find_from cl buf (s + length op)")
      case None
      then show ?thesis using assms(1) Some d ff by (subst (1 2) tool_loop.simps) simp
    next
      case e: (Some e)
      have l: "length (take s buf @ drop (e + length cl) buf) < length buf"
        using find_sub_Some [OF Some] find_from_Some [OF e] assms(1) by (cases op) auto
      have "tool_loop op cl (p @ take s buf @ drop (e + length cl) buf) = tool_loop op cl (take s buf @ drop (e + length cl) buf)"
        using 1 l by blast
      then show ?thesis using assms(1) Some d ff e
        by (subst (1 2) tool_loop.simps) (simp add: add.assoc)
    qed
  qed
qed

lemma tidy_dead:
  assumes "op \<noteq> []" "hd op \<notin> set p"
  shows "tidy op cl (p @ xs) = tidy op cl xs"
proof (cases "find_sub op xs")
  case None
  have "trailing_partial xs op \<le> length xs" by (rule trailing_partial_props(1))
  then show ?thesis using None assms by (subst (1 2) tidy.simps) (simp add: find_sub_dead trailing_partial_dead)
next
  case (Some s)
  have "find_from cl (p @ xs) (length p + s + length op) = map_option (\<lambda>e. length p + e) (find_from cl xs (s + length op))"
    using find_from_dead [of cl p xs "s + length op"] by (simp add: add.assoc)
  then show ?thesis using Some assms
    by (subst (1 2) tidy.simps) (simp add: find_sub_dead add.assoc split: option.splits)
qed

lemma tool_loop_call:
  assumes "op \<noteq> []" "find_sub op b = Some s" "find_from cl b (s + length op) = Some e" "hd op \<notin> set (take s b)"
  shows "tool_loop op cl b = (take (e - (s + length op)) (drop (s + length op) b) # fst (tool_loop op cl (drop (e + length cl) b)),
    snd (tool_loop op cl (drop (e + length cl) b)))"
  using assms tool_loop_dead [OF assms(1,4), of cl "drop (e + length cl) b"]
  by (subst tool_loop.simps) (simp add: case_prod_beta)

lemma tool_loop_scan: "tidy op cl b \<Longrightarrow> fst (tool_loop op cl b) = scan op cl b"
proof (induction op cl b rule: scan.induct)
  case (1 op cl b)
  show ?case
  proof (cases "op = []")
    case False
    show ?thesis
    proof (cases "find_sub op b")
      case (Some s)
      have h: "hd op \<notin> set (take s b)" using 1(2) False Some by (subst (asm) tidy.simps) simp
      show ?thesis
      proof (cases "find_from cl b (s + length op)")
        case (Some e)
        have "tidy op cl (drop (e + length cl) b)" using 1(2) False \<open>find_sub op b = Some s\<close> Some by (subst (asm) tidy.simps) simp
        then show ?thesis
          using 1(1) [OF False \<open>find_sub op b = Some s\<close> Some] tool_loop_call [OF False \<open>find_sub op b = Some s\<close> Some h] False Some \<open>find_sub op b = Some s\<close>
          by (subst scan.simps) simp
      qed (use False Some in \<open>simp add: tool_loop.simps scan.simps\<close>)
    qed (use False in \<open>simp add: tool_loop.simps scan.simps\<close>)
  qed (simp add: tool_loop.simps scan.simps)
qed

text \<open>Without a marker in \<open>b\<close>, what the parser drops of \<open>b\<close> cannot be part of a later one.\<close>

lemma dropped_dead:
  assumes "op \<noteq> []" "find_sub op b = None" "tidy op cl (b @ c)"
  shows "hd op \<notin> set (take (length b - trailing_partial b op) b)"
proof -
  let ?k = "trailing_partial b op" and ?p = "take (length b - trailing_partial b op) b"
  have k: "?k \<le> length b" by (rule trailing_partial_props(1))
  have late: "length b - ?k \<le> i" if i: "i < length b" "0 < length op" "ends_with b (take (length b - i) op)" "length b - i < length op" for i
    using trailing_partial_props(4) [of "length b - i" op b] i by simp
  show ?thesis
  proof (cases "find_sub op (b @ c)")
    case None
    let ?k' = "trailing_partial (b @ c) op"
    have "hd op \<notin> set (take (length (b @ c) - ?k') (b @ c))" using assms(1,3) None by (subst (asm) tidy.simps) simp
    moreover have "length b - ?k \<le> length (b @ c) - ?k'"
    proof (rule ccontr)
      assume a: "\<not> ?thesis"
      define i where "i = length (b @ c) - ?k'"
      have i: "i < length b - ?k" "i < length b" using a by (simp_all add: i_def)
      have "0 < ?k'" using i(2) by (simp add: i_def)
      then have n: "?k' < length op" "ends_with (b @ c) (take ?k' op)" "?k' \<le> length (b @ c)"
        using trailing_partial_props(1,2,3) [of "b @ c" op] by auto
      have e: "length (b @ c) - i = ?k'" using n(3) by (simp add: i_def)
      have "drop i (b @ c) = take ?k' op" using n e by (simp add: ends_with_def i_def)
      then have "take (length b - i) (drop i (b @ c)) = take (length b - i) op"
        using e i by (simp add: min_def)
      then have "drop i b = take (length b - i) op" using i by simp
      moreover have "length b - i < length op" using n(1) e by simp
      ultimately have "length b - ?k \<le> i" using i(2) assms(1) by (intro late) (simp_all add: ends_with_def)
      then show False using i by simp
    qed
    ultimately show ?thesis by (metis (no_types, lifting) append_take_drop_id diff_le_self set_append set_take_subset_set_take subsetD take_all_iff take_append UnCI)
  next
    case (Some s)
    have "hd op \<notin> set (take s (b @ c))" using assms(1,3) Some by (subst (asm) tidy.simps) simp
    moreover have "length b - ?k \<le> s"
    proof (rule ccontr)
      assume a: "\<not> ?thesis"
      then have sl: "s < length b" by simp
      note F = find_sub_Some [OF Some]
      have "\<not> s + length op \<le> length b"
        using F find_sub_None [OF assms(2), of s] sl by (auto simp: take_append drop_append)
      then have "drop s b = take (length b - s) op" "length b - s < length op"
      proof -
        have "take (length b - s) (take (length op) (drop s (b @ c))) = take (length b - s) op" using F by simp
        then show "drop s b = take (length b - s) op" using sl \<open>\<not> s + length op \<le> length b\<close> by (simp add: min_def)
        show "length b - s < length op" using sl \<open>\<not> s + length op \<le> length b\<close> by simp
      qed
      then have "length b - ?k \<le> s" using sl assms(1) by (intro late) (simp_all add: ends_with_def)
      then show False using a by simp
    qed
    ultimately show ?thesis by (metis (no_types, lifting) diff_le_self set_take_subset_set_take subsetD take_append take_all_iff UnCI set_append append_take_drop_id)
  qed
qed

text \<open>Parsing can stop anywhere: what is kept in the buffer stands for all that was read.\<close>

lemma tool_loop_resume:
  assumes "op \<noteq> []"
  shows "tidy op cl (b @ c) \<Longrightarrow>
    tool_loop op cl (b @ c) = (fst (tool_loop op cl b) @ fst (tool_loop op cl (snd (tool_loop op cl b) @ c)),
      snd (tool_loop op cl (snd (tool_loop op cl b) @ c)))"
proof (induction b rule: length_induct)
  case (1 b)
  show ?case
  proof (cases "find_sub op b")
    case None
    have r: "tool_loop op cl b = ([], hold_back b op)" using None assms by (simp add: tool_loop.simps)
    have "b @ c = take (length b - trailing_partial b op) b @ hold_back b op @ c" by (simp add: hold_back_def)
    then have "tool_loop op cl (b @ c) = tool_loop op cl (hold_back b op @ c)"
      using tool_loop_dead [OF assms dropped_dead [OF assms None 1(2)], of cl "hold_back b op @ c"] by metis
    then show ?thesis by (simp add: r)
  next
    case (Some s)
    have F: "find_sub op (b @ c) = Some s" by (rule find_sub_append [OF Some])
    note B = find_sub_Some [OF Some]
    have h: "hd op \<notin> set (take s b)" using 1(2) assms F B by (subst (asm) tidy.simps) simp
    show ?thesis
    proof (cases "find_from cl b (s + length op)")
      case None
      have r: "tool_loop op cl b = ([], drop s b)" using Some None assms by (simp add: tool_loop.simps)
      have "b @ c = take s b @ drop s b @ c" by simp
      then have "tool_loop op cl (b @ c) = tool_loop op cl (drop s b @ c)" using tool_loop_dead [OF assms h, of cl "drop s b @ c"] by metis
      then show ?thesis by (simp add: r)
    next
      case e: (Some e)
      have E: "find_from cl (b @ c) (s + length op) = Some e" using find_from_append [OF e] B by simp
      note X = find_from_Some [OF e]
      let ?r = "drop (e + length cl) b"
      have l: "length ?r < length b" using X B assms by (cases op) auto
      have d: "drop (e + length cl) (b @ c) = ?r @ c" "take (e - (s + length op)) (drop (s + length op) (b @ c)) = take (e - (s + length op)) (drop (s + length op) b)"
        using X B by simp_all
      have t: "tidy op cl (?r @ c)" using 1(2) assms F E d(1) by (subst (asm) tidy.simps) simp
      have ih: "tool_loop op cl (?r @ c) = (fst (tool_loop op cl ?r) @ fst (tool_loop op cl (snd (tool_loop op cl ?r) @ c)),
          snd (tool_loop op cl (snd (tool_loop op cl ?r) @ c)))" using 1(1) l t by blast
      have h': "hd op \<notin> set (take s (b @ c))" using h B by simp
      show ?thesis
        unfolding tool_loop_call [OF assms F E h'] tool_loop_call [OF assms Some e h] d using ih by simp
    qed
  qed
qed

lemma tool_feed_scan:
  assumes "op \<noteq> []" "tidy op cl (b @ concat cs)"
  shows "fst (tool_loop op cl b) @ tool_feed op cl (snd (tool_loop op cl b)) cs = scan op cl (b @ concat cs)"
  using assms(2)
proof (induction cs arbitrary: b)
  case Nil
  then show ?case using tool_loop_scan [of op cl b] by simp
next
  case (Cons c cs)
  have t: "tidy op cl ((b @ c) @ concat cs)" using Cons.prems by simp
  have bc: "tidy op cl (b @ c)" if "tidy op cl ((b @ c) @ d)" for d
    using that
  proof (induction "b @ c" arbitrary: b c rule: length_induct)
    case (1 b c)
    show ?case
    proof (cases "find_sub op (b @ c)")
      case None
      then show ?thesis using dropped_dead [OF assms(1) None 1(2)] assms(1) by (subst tidy.simps) simp
    next
      case (Some s)
      have F: "find_sub op ((b @ c) @ d) = Some s" by (rule find_sub_append [OF Some])
      note B = find_sub_Some [OF Some]
      have h: "hd op \<notin> set (take s (b @ c))" using 1(2) assms(1) F B by (subst (asm) tidy.simps) simp
      show ?thesis
      proof (cases "find_from cl (b @ c) (s + length op)")
        case None
        then show ?thesis using Some h assms(1) by (subst tidy.simps) simp
      next
        case e: (Some e)
        have E: "find_from cl ((b @ c) @ d) (s + length op) = Some e" using find_from_append [OF e] B by simp
        note X = find_from_Some [OF e]
        let ?r = "drop (e + length cl) (b @ c)"
        have l: "length ?r < length (b @ c)" using X B assms(1) by (cases op) auto
        have "tidy op cl (?r @ d)" using 1(2) assms(1) F E X B by (subst (asm) tidy.simps) simp
        then have "tidy op cl ?r" using 1(1) [rule_format, of ?r ?r "[]"] l by simp
        then show ?thesis using Some e h assms(1) by (subst tidy.simps) simp
      qed
    qed
  qed
  note R = tool_loop_resume [OF assms(1) bc [OF t]]
  have "tool_feed op cl (snd (tool_loop op cl b)) (c # cs) =
      fst (tool_loop op cl (snd (tool_loop op cl b) @ c)) @ tool_feed op cl (snd (tool_loop op cl (b @ c))) cs"
    by (simp add: R case_prod_beta)
  then show ?case using Cons.IH [OF t] by (simp add: R)
qed

text \<open>A response made of plain text and calls.\<close>

definition render :: "'c list \<Rightarrow> 'c list \<Rightarrow> ('c list \<times> 'c list) list \<Rightarrow> 'c list \<Rightarrow> 'c list" where
  "render op cl items tail = concat (map (\<lambda>(t, b). t @ op @ b @ cl) items) @ tail"

lemma find_sub_first_char: "pat \<noteq> [] \<Longrightarrow> hd pat \<notin> set b \<Longrightarrow> find_sub pat (b @ pat @ r) = Some (length b)"
proof -
  assume a: "pat \<noteq> []" "hd pat \<notin> set b"
  have "find_sub pat (pat @ r) = Some 0" using a(1) by (cases pat) simp_all
  then show ?thesis using find_sub_dead [OF a] by simp
qed

lemma render_tidy:
  assumes "op \<noteq> []" "cl \<noteq> []" "\<forall>(t, b) \<in> set items. hd op \<notin> set t \<and> hd cl \<notin> set b" "hd op \<notin> set tail"
  shows "tidy op cl (render op cl items tail) \<and> scan op cl (render op cl items tail) = map snd items"
  using assms(3)
proof (induction items)
  case Nil
  have "find_sub op tail = None"
  proof (cases "find_sub op tail")
    case (Some i)
    then have "take (length op) (drop i tail) = op" using find_sub_Some by blast
    then have "hd op \<in> set tail" using assms(1) by (metis hd_in_set in_set_dropD in_set_takeD)
    then show ?thesis using assms(4) by simp
  qed simp
  then show ?case using assms(4) by (simp add: render_def tidy.simps scan.simps) (meson in_set_takeD)
next
  case (Cons x items)
  obtain t b where x: "x = (t, b)" by (cases x)
  have h: "hd op \<notin> set t" "hd cl \<notin> set b" using Cons.prems x by simp_all
  let ?rest = "render op cl items tail"
  have e: "render op cl (x # items) tail = t @ op @ b @ cl @ ?rest" by (simp add: render_def x)
  have s: "find_sub op (t @ op @ b @ cl @ ?rest) = Some (length t)" by (rule find_sub_first_char [OF assms(1) h(1)])
  have f: "find_from cl (t @ op @ b @ cl @ ?rest) (length t + length op) = Some (length t + length op + length b)"
    using find_sub_first_char [OF assms(2) h(2)] by (simp add: find_from_def)
  have r: "tidy op cl ?rest" "scan op cl ?rest = map snd items" using Cons by simp_all
  have "tidy op cl (t @ op @ b @ cl @ ?rest)" using assms(1) s f h(1) r(1) by (subst tidy.simps) simp
  moreover have "scan op cl (t @ op @ b @ cl @ ?rest) = b # map snd items" using assms(1) s f r(2) by (subst scan.simps) simp
  ultimately show ?case unfolding e by (simp add: x)
qed


definition tool_open :: string where "tool_open = ''<tool>''"
definition tool_close :: string where "tool_close = ''</tool>''"


text \<open>Otherwise the cut matters: the text around a removed call is joined, and may form a marker.\<close>

lemma tool_text_joined:
  "parse_tools id tool_open tool_close 0 [''<to<tool>x</tool>ol>y</tool>''] = [(0, ''x''), (1, ''y'')]"
  "parse_tools id tool_open tool_close 0 [''<to<'', ''tool>x</tool>ol>y</tool>''] = [(0, ''x'')]"
  by code_simp+

section \<open>Reasoning\<close>

text \<open>\<open>ThinkTagParser.parse\<close>: the pairs it yields and the text it keeps. It yields what follows the
  cut \<open>emit_from\<close> and keeps what precedes it.\<close>

function think_loop :: "'c list \<Rightarrow> 'c list \<Rightarrow> bool \<Rightarrow> 'c list \<Rightarrow> ('c list \<times> 'c list) list \<times> bool \<times> 'c list" where
  "think_loop op cl in_think pending =
     (if op = [] \<or> cl = [] then ([], in_think, pending) else
      let tag = (if in_think then cl else op); pair = (\<lambda>x. if in_think then (x, []) else ([], x))
      in case find_sub tag pending of
           None \<Rightarrow>
             let emit_from = length pending - trailing_partial pending tag
             in if 0 < emit_from then ([pair (drop emit_from pending)], in_think, take emit_from pending) else ([], in_think, pending)
         | Some i \<Rightarrow>
             let (out, t, rest) = think_loop op cl (\<not> in_think) (drop (i + length tag) pending)
             in ((if i = 0 then [] else [pair (take i pending)]) @ out, t, rest))"
  by pat_completeness auto
termination
proof (relation "measure (\<lambda>(op, cl, in_think, pending). length pending)")
  fix op cl :: "'c list" and in_think :: bool and pending tag :: "'c list" and pair :: "'c list \<Rightarrow> 'c list \<times> 'c list" and i
  assume "\<not> (op = [] \<or> cl = [])" "tag = (if in_think then cl else op)" "find_sub tag pending = Some i"
  then show "((op, cl, \<not> in_think, drop (i + length tag) pending), op, cl, in_think, pending) \<in> measure (\<lambda>(op, cl, in_think, pending). length pending)"
    using find_sub_Some [of tag pending i] by (cases tag) (auto split: if_splits)
qed simp

declare think_loop.simps [simp del]

fun think_parse :: "'c list \<Rightarrow> 'c list \<Rightarrow> bool \<Rightarrow> 'c list \<Rightarrow> 'c list list \<Rightarrow> ('c list \<times> 'c list) list \<times> 'c list" where
  "think_parse op cl in_think pending [] = ([], pending)"
| "think_parse op cl in_think pending (c # cs) =
     (let (out, t, rest) = think_loop op cl in_think (pending @ c); (outs, rest') = think_parse op cl t rest cs
      in (out @ outs, rest'))"

definition off_parse :: "'c list list \<Rightarrow> ('c list \<times> 'c list) list" where
  "off_parse chunks = map (\<lambda>c. ([], c)) (filter (\<lambda>c. c \<noteq> []) chunks)"

definition flush :: "'c list \<Rightarrow> 'c list \<times> 'c list" where
  "flush pending = ([], pending)"

text \<open>\<open>stream_chat\<close>: one call of \<open>parse\<close> per token, each starting outside the tags, then \<open>flush\<close>;
  pairs of empty texts are not sent.\<close>

fun stream_think :: "'c list \<Rightarrow> 'c list \<Rightarrow> 'c list \<Rightarrow> 'c list list \<Rightarrow> ('c list \<times> 'c list) list" where
  "stream_think op cl pending [] = filter (\<lambda>p. p \<noteq> ([], [])) [flush pending]"
| "stream_think op cl pending (token # tokens) =
     (let (out, rest) = think_parse op cl False pending [token]
      in filter (\<lambda>p. p \<noteq> ([], [])) out @ stream_think op cl rest tokens)"

definition stream_off :: "'c list list \<Rightarrow> ('c list \<times> 'c list) list" where
  "stream_off tokens = concat (map (\<lambda>t. off_parse [t]) tokens) @ filter (\<lambda>p. p \<noteq> ([], [])) [flush []]"

definition think_open :: string where "think_open = ''<think>''"
definition think_close :: string where "think_close = ''</think>''"

lemma think_loop_find:
  assumes "op \<noteq> []" "cl \<noteq> []" "find_sub (if t then cl else op) s = Some i"
  shows "think_loop op cl t s =
    (let (out, u, rest) = think_loop op cl (\<not> t) (drop (i + length (if t then cl else op)) s)
     in ((if i = 0 then [] else [if t then (take i s, []) else ([], take i s)]) @ out, u, rest))"
  using assms by (subst think_loop.simps) (simp add: Let_def)

lemma think_loop_plain:
  assumes "op \<noteq> []" "cl \<noteq> []" "hd op \<notin> set s"
  shows "think_loop op cl False s = ((if s = [] then [] else [([], [])]), False, s)"
proof -
  have "find_sub op s = None" using find_sub_dead [OF assms(1,3), of "[]"] assms(1) by simp
  moreover have "trailing_partial s op = 0" using trailing_partial_dead [OF assms(1,3), of "[]"] by (simp add: trailing_partial_def)
  ultimately show ?thesis using assms by (subst think_loop.simps) simp
qed

text \<open>A whole response in one chunk: content and thinking blocks in turn.\<close>

lemma think_loop_render:
  assumes "op \<noteq> []" "cl \<noteq> []" "\<forall>(t, b) \<in> set items. hd op \<notin> set t \<and> hd cl \<notin> set b" "hd op \<notin> set tail"
  shows "\<exists>out. think_loop op cl False (render op cl items tail) = (out, False, tail) \<and>
    concat (map fst out) = concat (map snd items) \<and> concat (map snd out) = concat (map fst items)"
  using assms(3)
proof (induction items)
  case Nil
  then show ?case using think_loop_plain [OF assms(1,2,4)] by (simp add: render_def)
next
  case (Cons x items)
  obtain t b where x: "x = (t, b)" by (cases x)
  have h: "hd op \<notin> set t" "hd cl \<notin> set b" using Cons.prems x by simp_all
  let ?rest = "render op cl items tail"
  obtain out where out: "think_loop op cl False ?rest = (out, False, tail)"
    "concat (map fst out) = concat (map snd items)" "concat (map snd out) = concat (map fst items)" using Cons by auto
  have e: "render op cl (x # items) tail = t @ op @ b @ cl @ ?rest" by (simp add: render_def x)
  have 1: "find_sub (if False then cl else op) (t @ op @ b @ cl @ ?rest) = Some (length t)"
    using find_sub_first_char [OF assms(1) h(1)] by simp
  have 2: "find_sub (if True then cl else op) (b @ cl @ ?rest) = Some (length b)"
    using find_sub_first_char [OF assms(2) h(2)] by simp
  show ?case unfolding e
    by (subst think_loop_find [OF assms(1,2) 1]) (simp add: think_loop_find [OF assms(1,2) 2, simplified] out x)
qed



lemma stream_off_exact: "concat (map snd (stream_off tokens)) = concat tokens \<and> (\<forall>p \<in> set (stream_off tokens). fst p = [])"
  by (induction tokens) (auto simp: stream_off_def off_parse_def flush_def)

section \<open>Incremental decoding\<close>

text \<open>Characters are code points here; the tokenizer's \<open>decode\<close> is a parameter.\<close>

definition printable :: "nat list \<Rightarrow> nat list" where
  "printable xs = dropWhile (\<lambda>c. c \<in> set [32, 9, 10, 13, 12, 11, 0x85, 0x1C2F, 0x1C3F, 0x200A, 0x200B, 0x200C, 0x2028, 0x2029]) xs"

definition stop_holdback :: "nat list \<Rightarrow> nat list list \<Rightarrow> nat" where
  "stop_holdback xs stops =
     (if stops = [] \<or> xs = [] then 0
      else case List.find (\<lambda>n. list_ex (\<lambda>stop. n < length stop \<and> take n stop = drop (length xs - n) xs) stops)
             (rev [1..<Suc (min (length xs) (fold max (map length stops) 0))]) of
        None \<Rightarrow> 0 | Some n \<Rightarrow> n)"

record decode_state =
  ds_ids :: "int list"
  ds_str :: "nat list"
  ds_read :: nat
  ds_surr :: nat
  ds_sent :: nat

definition new_state :: decode_state where
  "new_state = \<lparr>ds_ids = [], ds_str = [], ds_read = 0, ds_surr = 0, ds_sent = 0\<rparr>"

definition update_state :: "(int list \<Rightarrow> nat list) \<Rightarrow> nat list list \<Rightarrow> int list \<Rightarrow> decode_state \<Rightarrow> nat list \<times> decode_state" where
  "update_state decode stops ids s =
     (let all = ds_ids s @ ids;
          read_str = decode (drop (ds_surr s) all);
          surr_str = decode (drop (ds_surr s) (take (ds_read s) all));
          new_text = drop (length surr_str) read_str;
          stable = (new_text \<noteq> [] \<and> last new_text \<noteq> 0xFFFD);
          output = ds_str s @ (if stable then new_text else printable new_text);
          emit_end = length output - (if stops = [] then 0 else stop_holdback output stops);
          s' = (if stable then s\<lparr>ds_ids := all, ds_str := output, ds_surr := ds_read s, ds_read := length all\<rparr>
                else s\<lparr>ds_ids := all\<rparr>)
      in (drop (ds_sent s) (take emit_end output), s'\<lparr>ds_sent := max (ds_sent s) emit_end\<rparr>))"

definition detok_create :: "'u \<Rightarrow> ('u \<rightharpoonup> decode_state) \<Rightarrow> ('u \<rightharpoonup> decode_state)" where
  "detok_create uid m = m(uid \<mapsto> new_state)"

definition detok_delete :: "'u \<Rightarrow> ('u \<rightharpoonup> decode_state) \<Rightarrow> ('u \<rightharpoonup> decode_state)" where
  "detok_delete uid m = m(uid := None)"

definition detok_update ::
  "(int list \<Rightarrow> nat list) \<Rightarrow> nat list list \<Rightarrow> 'u \<Rightarrow> int list \<Rightarrow> ('u \<rightharpoonup> decode_state) \<Rightarrow> (nat list \<times> ('u \<rightharpoonup> decode_state)) res" where
  "detok_update decode stops uid ids m =
     (case m uid of
        None \<Rightarrow> Inl KeyError
      | Some s \<Rightarrow> let (delta, s') = update_state decode stops ids s in Inr (delta, m(uid \<mapsto> s')))"

fun decode_from :: "(int list \<Rightarrow> nat list) \<Rightarrow> nat list list \<Rightarrow> decode_state \<Rightarrow> int list \<Rightarrow> nat list list" where
  "decode_from decode stops s [] = []"
| "decode_from decode stops s (i # is) =
     (let (delta, s') = update_state decode stops [i] s
      in (if delta = [] then [] else [delta]) @ decode_from decode stops s' is)"

text \<open>\<open>_decode_stream\<close> with a tokenizer.\<close>

definition decode_stream :: "(int list \<Rightarrow> nat list) \<Rightarrow> nat list list \<Rightarrow> int list \<Rightarrow> nat list list" where
  "decode_stream decode stops ids = decode_from decode stops new_state ids"

text \<open>A tokenizer that decodes token by token, each to whole characters.\<close>

definition whole_tokens :: "(int list \<Rightarrow> nat list) \<Rightarrow> bool" where
  "whole_tokens decode \<longleftrightarrow> (\<forall>a b. decode (a @ b) = decode a @ decode b) \<and> (\<forall>i. decode [i] = [] \<or> last (decode [i]) \<noteq> 0xFFFD)"

lemma whole_tokens_last:
  assumes "whole_tokens decode"
  shows "decode ids = [] \<or> last (decode ids) \<noteq> 0xFFFD"
proof (induction ids rule: rev_induct)
  case Nil
  have "decode ([] @ []) = decode [] @ decode []" using assms unfolding whole_tokens_def by blast
  then show ?case by simp
next
  case (snoc i ids)
  have "decode (ids @ [i]) = decode ids @ decode [i]" "decode [i] = [] \<or> last (decode [i]) \<noteq> 0xFFFD"
    using assms unfolding whole_tokens_def by blast+
  then show ?case using snoc by (cases "decode [i] = []") simp_all
qed

lemma decode_from_whole:
  assumes W: "whole_tokens decode"
    and "ds_surr s \<le> ds_read s" "ds_read s \<le> length (ds_ids s)" "ds_str s = decode (take (ds_read s) (ds_ids s))"
      "decode (drop (ds_read s) (ds_ids s)) = []" "ds_sent s = length (ds_str s)"
  shows "ds_str s @ concat (decode_from decode [] s ids) = decode (ds_ids s @ ids)"
  using assms(2-)
proof (induction ids arbitrary: s)
  case Nil
  have "decode (take (ds_read s) (ds_ids s) @ drop (ds_read s) (ds_ids s)) = decode (take (ds_read s) (ds_ids s)) @ decode (drop (ds_read s) (ds_ids s))"
    using W unfolding whole_tokens_def by blast
  then show ?case using Nil by simp
next
  case (Cons i ids)
  note H = W [unfolded whole_tokens_def, THEN conjunct1, rule_format]
  let ?all = "ds_ids s @ [i]" and ?new = "decode (drop (ds_read s) (ds_ids s @ [i]))"
  have split: "drop (ds_surr s) ?all = drop (ds_surr s) (take (ds_read s) ?all) @ drop (ds_read s) ?all"
proof -
    have "drop (ds_surr s) ?all = drop (ds_surr s) (take (ds_read s) ?all @ drop (ds_read s) ?all)" by (simp only: append_take_drop_id)
    also have "\<dots> = drop (ds_surr s) (take (ds_read s) ?all) @ drop (ds_read s) ?all"
      using Cons.prems(1,2) by (simp only: drop_append) simp
    finally show ?thesis .
  qed
  have new: "drop (length (decode (drop (ds_surr s) (take (ds_read s) ?all)))) (decode (drop (ds_surr s) ?all)) = ?new"
    unfolding split H by simp
  have whole: "decode ?all = ds_str s @ ?new"
  proof -
    have "decode ?all = decode (take (ds_read s) ?all @ drop (ds_read s) ?all)" by (simp only: append_take_drop_id)
    also have "\<dots> = decode (take (ds_read s) ?all) @ ?new" by (rule H)
    finally show ?thesis using Cons.prems(2,3) by simp
  qed
  show ?case
  proof (cases "?new = []")
    case True
    then have u: "update_state decode [] [i] s = ([], s\<lparr>ds_ids := ?all\<rparr>)"
      unfolding update_state_def Let_def new using Cons.prems(5) by (simp add: printable_def)
    have "ds_str s @ concat (decode_from decode [] (s\<lparr>ds_ids := ?all\<rparr>) ids) = decode (?all @ ids)"
      using Cons.IH [of "s\<lparr>ds_ids := ?all\<rparr>"] Cons.prems True by simp
    then show ?thesis by (simp add: u)
  next
    case False
    then have l: "last ?new \<noteq> 0xFFFD" using whole_tokens_last [OF W] by blast
    let ?s = "s\<lparr>ds_ids := ?all, ds_str := ds_str s @ ?new, ds_surr := ds_read s, ds_read := length ?all, ds_sent := length (ds_str s @ ?new)\<rparr>"
    have u: "update_state decode [] [i] s = (?new, ?s)"
      unfolding update_state_def Let_def new using False l Cons.prems(5) by simp
    have nil: "decode [] = []" using H [of "[]" "[]"] by simp
    have "ds_str ?s @ concat (decode_from decode [] ?s ids) = decode (ds_ids ?s @ ids)"
      by (rule Cons.IH) (use Cons.prems whole nil in simp_all)
    then show ?thesis using False by (simp add: u)
  qed
qed

text \<open>Two tokens for one character, as byte-level tokenizers have them.\<close>

definition byte_tokens :: "int list \<Rightarrow> nat list" where
  "byte_tokens ids = (if ids = [195] then [0xFFFD] else if ids = [195, 169] then [233] else [])"

definition ascii_tokens :: "int list \<Rightarrow> nat list" where
  "ascii_tokens ids = map nat ids"


definition seven_bit :: "int list \<Rightarrow> nat list" where
  "seven_bit ids = map (\<lambda>i. nat i mod 128) ids"


end
