(* ===== verification/Effort_Profile.thy ===== *)
theory Effort_Profile
  imports Prelude "HOL-Library.Product_Lexorder"
begin

text \<open>
  \<open>tokenizer/effort.py\<close> and the request side of \<open>tokenizer/tokenize.py\<close>: which efforts a checkpoint's
  template grades, learned by rendering probes through it, and what a client's effort becomes. The
  template is a parameter: \<open>render\<close> gives a rendering, or \<open>None\<close> when it raises. The order in which a
  set of strings is iterated, which differs from process to process, is a parameter too.
\<close>

section \<open>The scale\<close>

text \<open>In hundredths: no comparison the code makes on these values depends on the rounding of floats.\<close>

definition effort_scale :: "(string \<times> int) list" where
  "effort_scale = [(''none'', 0), (''minimal'', 10), (''low'', 20), (''medium'', 70), (''high'', 90), (''xhigh'', 99), (''max'', 99)]"

definition known_efforts :: "string list" where
  "known_efforts = map fst effort_scale"

definition scale_of :: "string \<Rightarrow> int" where
  "scale_of n = the (map_of effort_scale n)"

definition openai_triple :: "string list" where
  "openai_triple = [''low'', ''medium'', ''high'']"

definition graded_ladder :: "string list" where
  "graded_ladder = [''low'', ''medium'', ''high'', ''xhigh'']"

record effort_profile =
  ef_supported :: "string list"
  ef_default :: "string option"
  ef_consumes :: bool
  ef_validates :: bool
  ef_strength :: bool

text \<open>A set of names is the list of its iteration.\<close>

definition effective_efforts :: "effort_profile \<Rightarrow> string list" where
  "effective_efforts p =
     (if \<not> ef_consumes p then []
      else if ef_validates p \<or> set (ef_supported p) \<noteq> set known_efforts then ef_supported p
      else let vocab = filter (\<lambda>n. n \<in> set (ef_supported p)) (if ef_strength p then graded_ladder else openai_triple)
        in (case ef_default p of
              None \<Rightarrow> vocab
            | Some d \<Rightarrow> if d = [] \<or> d \<in> set vocab then vocab else vocab @ [d]))"

definition max_distance :: int where
  "max_distance = 15"

text \<open>The client's value, \<open>None\<close> when it is not a text.\<close>

definition quantize_effort :: "string option \<Rightarrow> effort_profile \<Rightarrow> string option" where
  "quantize_effort v p =
     (let supported = effective_efforts p
      in if supported = [] then None
         else (case v of
             None \<Rightarrow> None
           | Some n \<Rightarrow>
               if n \<in> set supported then Some n
               else (case map_of effort_scale n of
                   None \<Rightarrow> None
                 | Some position \<Rightarrow>
                     (case sort_key (\<lambda>m. (\<bar>scale_of m - position\<bar>, - scale_of m)) (filter (\<lambda>m. m \<noteq> ''max'') supported) of
                        [] \<Rightarrow> None
                      | m # _ \<Rightarrow> if \<bar>scale_of m - position\<bar> \<le> max_distance then Some m else None))))"

section \<open>Probing\<close>

datatype kwarg = KNone | KBool bool | KStr string

type_synonym kwargs = "(string \<times> kwarg) list"
type_synonym 'r template = "kwargs \<Rightarrow> bool \<Rightarrow> 'r option"

text \<open>\<open>_PROBE_ROUNDS\<close>: the extra arguments, and whether the probe tool is offered.\<close>

definition probe_rounds :: "(kwargs \<times> bool) list" where
  "probe_rounds = [([], False), ([], True), ([(''enable_thinking'', KBool True)], False)]"

record probe_state =
  pr_rejected :: "string list"
  pr_diverged :: "string list"
  pr_matches :: "string \<Rightarrow> bool"
  pr_ran :: nat

definition probe_name :: "'r template \<Rightarrow> kwargs \<Rightarrow> bool \<Rightarrow> 'r \<Rightarrow> string \<Rightarrow> probe_state \<Rightarrow> probe_state" where
  "probe_name render kw tools baseline name st =
     (case render (kw @ [(''reasoning_effort'', KStr name)]) tools of
        None \<Rightarrow> st\<lparr>pr_rejected := name # pr_rejected st, pr_matches := (pr_matches st)(name := False)\<rparr>
      | Some r \<Rightarrow>
          if r \<noteq> baseline then st\<lparr>pr_diverged := name # pr_diverged st, pr_matches := (pr_matches st)(name := False)\<rparr> else st)"

definition probe_round :: "'r template \<Rightarrow> kwargs \<times> bool \<Rightarrow> probe_state \<Rightarrow> probe_state" where
  "probe_round render r st =
     (case render (fst r) (snd r) of
        None \<Rightarrow> st
      | Some baseline \<Rightarrow> fold (probe_name render (fst r) (snd r) baseline) known_efforts (st\<lparr>pr_ran := pr_ran st + 1\<rparr>))"

text \<open>\<open>max(defaults, key=...)\<close>: the first of the largest.\<close>

fun first_max :: "string \<Rightarrow> string list \<Rightarrow> string" where
  "first_max b [] = b"
| "first_max b (n # ns) = (if scale_of b < scale_of n then first_max n ns else first_max b ns)"

definition probe_effort_profile :: "(string list \<Rightarrow> string list) \<Rightarrow> 'r template \<Rightarrow> effort_profile" where
  "probe_effort_profile iter render =
     (let st = fold (probe_round render) probe_rounds \<lparr>pr_rejected = [], pr_diverged = [], pr_matches = (\<lambda>_. True), pr_ran = 0\<rparr>
      in if pr_ran st = 0
         then \<lparr>ef_supported = [], ef_default = None, ef_consumes = False, ef_validates = False, ef_strength = False\<rparr>
         else let strength = (case (render [] False, render [(''reasoning_strength'', KStr ''low'')] False) of
                    (Some b, Some m) \<Rightarrow> m \<noteq> b | _ \<Rightarrow> False);
                  supported = iter (filter (\<lambda>n. n \<notin> set (pr_rejected st)) known_efforts);
                  consumes = pr_rejected st \<noteq> [] \<or> pr_diverged st \<noteq> [];
                  default = (if \<not> consumes then None
                    else (case filter (pr_matches st) supported of [] \<Rightarrow> None | n # ns \<Rightarrow> Some (first_max n ns)))
              in \<lparr>ef_supported = supported, ef_default = default, ef_consumes = consumes,
                  ef_validates = (pr_rejected st \<noteq> []), ef_strength = strength\<rparr>)"

datatype thinking_state = State_on | State_off | State_adaptive

record thinking_profile =
  th_efforts :: effort_profile
  th_toggleable :: bool
  th_adaptive :: bool
  th_default :: thinking_state

definition thinking_off :: kwargs where
  "thinking_off = [(''enable_thinking'', KBool False), (''thinking_mode'', KStr ''disabled'')]"

definition thinking_on :: kwargs where
  "thinking_on = [(''enable_thinking'', KBool True), (''thinking_mode'', KStr ''enabled'')]"

definition thinking_adaptive :: kwargs where
  "thinking_adaptive = [(''thinking_mode'', KStr ''adaptive'')]"

definition probe_thinking_profile :: "'r template \<Rightarrow> effort_profile \<Rightarrow> thinking_profile" where
  "probe_thinking_profile render efforts =
     (case (render [] False, render thinking_off False, render thinking_on False) of
        (Some baseline, Some off, Some on) \<Rightarrow>
          (let toggleable = (off \<noteq> on);
               adaptive = (if toggleable then render thinking_adaptive False else None);
               has_adaptive = (case adaptive of None \<Rightarrow> False | Some a \<Rightarrow> a \<noteq> off \<and> a \<noteq> on);
               default = (if \<not> toggleable then State_on
                 else if baseline = off then State_off
                 else if has_adaptive \<and> Some baseline = adaptive then State_adaptive else State_on)
           in \<lparr>th_efforts = efforts, th_toggleable = toggleable, th_adaptive = has_adaptive, th_default = default\<rparr>)
      | _ \<Rightarrow> \<lparr>th_efforts = efforts, th_toggleable = False, th_adaptive = False, th_default = State_on\<rparr>)"

section \<open>Requests\<close>

text \<open>\<open>resolve_thinking_mode\<close>; a value that is neither a text nor a truth value counts as absent.\<close>

definition kwarg_true :: "kwarg option \<Rightarrow> bool" where
  "kwarg_true v = (case v of Some (KBool b) \<Rightarrow> b | Some (KStr s) \<Rightarrow> s \<noteq> [] | _ \<Rightarrow> False)"

definition resolve_thinking_mode :: "kwargs \<Rightarrow> bool \<Rightarrow> string" where
  "resolve_thinking_mode kw tools =
     (let mode = (case map_of kw ''thinking_mode'' of Some (KStr s) \<Rightarrow> if s = [] then ''chat'' else s | _ \<Rightarrow> ''chat'');
          mode = (if tools \<or> kwarg_true (map_of kw ''enable_thinking'') \<or> kwarg_true (map_of kw ''thinking'') then ''thinking'' else mode)
      in if mode \<in> {''chat'', ''thinking''} then mode else ''chat'')"

definition text_of :: "kwarg \<Rightarrow> string option" where
  "text_of v = (case v of KStr s \<Rightarrow> Some s | _ \<Rightarrow> None)"

text \<open>\<open>_sanitize_effort\<close>.\<close>

definition sanitize_effort :: "effort_profile \<Rightarrow> kwargs \<Rightarrow> kwargs" where
  "sanitize_effort p kw =
     (case map_of kw ''reasoning_effort'' of
        None \<Rightarrow> kw
      | Some raw \<Rightarrow>
          (case quantize_effort (text_of raw) p of
             None \<Rightarrow> if raw = KNone then kw else filter (\<lambda>(k, _). k \<noteq> ''reasoning_effort'') kw
           | Some m \<Rightarrow> map (\<lambda>(k, v). (k, if k = ''reasoning_effort'' then KStr m else v)) kw))"

section \<open>What is served\<close>

lemma probe_names_rejected:
  "set (pr_rejected (fold (probe_name render kw tools b) ns st)) =
     set (pr_rejected st) \<union> {n \<in> set ns. render (kw @ [(''reasoning_effort'', KStr n)]) tools = None}"
proof (induction ns arbitrary: st)
  case (Cons n ns)
  have "set (pr_rejected (probe_name render kw tools b n st)) =
      set (pr_rejected st) \<union> (if render (kw @ [(''reasoning_effort'', KStr n)]) tools = None then {n} else {})"
    by (auto simp: probe_name_def split: option.splits)
  then show ?case using Cons by auto
qed simp

lemma probe_rounds_rejected:
  "set (pr_rejected (fold (probe_round render) rs st)) = set (pr_rejected st) \<union>
     {n \<in> set known_efforts. \<exists>r \<in> set rs. render (fst r) (snd r) \<noteq> None \<and> render (fst r @ [(''reasoning_effort'', KStr n)]) (snd r) = None}"
proof (induction rs arbitrary: st)
  case (Cons r rs)
  have "set (pr_rejected (probe_round render r st)) = set (pr_rejected st) \<union>
      {n \<in> set known_efforts. render (fst r) (snd r) \<noteq> None \<and> render (fst r @ [(''reasoning_effort'', KStr n)]) (snd r) = None}"
    by (simp add: probe_round_def probe_names_rejected split: option.splits)
  then show ?case by (simp only: fold_Cons comp_apply Cons.IH list.set) blast
qed simp

lemma first_max_mem: "first_max b ns \<in> set (b # ns)"
proof (induction ns arbitrary: b)
  case (Cons n ns)
  show ?case using Cons [of n] Cons [of b] by auto
qed simp

text \<open>The names no probe rejected.\<close>

definition accepted :: "'r template \<Rightarrow> string set" where
  "accepted render = {n \<in> set known_efforts. \<forall>r \<in> set probe_rounds.
     render (fst r) (snd r) \<noteq> None \<longrightarrow> render (fst r @ [(''reasoning_effort'', KStr n)]) (snd r) \<noteq> None}"

lemma probed:
  assumes "\<And>xs. set (iter xs) = set xs"
  shows "set (ef_supported (probe_effort_profile iter render)) \<subseteq> accepted render"
    "ef_default (probe_effort_profile iter render) = Some d \<Longrightarrow> d \<in> set (ef_supported (probe_effort_profile iter render))"
proof -
  define st where "st = fold (probe_round render) probe_rounds \<lparr>pr_rejected = [], pr_diverged = [], pr_matches = (\<lambda>_. True), pr_ran = 0\<rparr>"
  have rej: "n \<in> set (pr_rejected st) \<longleftrightarrow> n \<in> set known_efforts \<and> n \<notin> accepted render" for n
    unfolding st_def probe_rounds_rejected accepted_def by (simp del: not_None_eq) blast
  show "set (ef_supported (probe_effort_profile iter render)) \<subseteq> accepted render"
    unfolding probe_effort_profile_def Let_def st_def [symmetric] using rej by (auto simp: assms)
  show "ef_default (probe_effort_profile iter render) = Some d \<Longrightarrow> d \<in> set (ef_supported (probe_effort_profile iter render))"
    unfolding probe_effort_profile_def Let_def st_def [symmetric]
    by (auto split: if_splits list.splits dest!: arg_cong [where f = set]) (use first_max_mem in fastforce)+
qed

lemma effective_supported:
  "(\<And>d. ef_default p = Some d \<Longrightarrow> d \<in> set (ef_supported p)) \<Longrightarrow> set (effective_efforts p) \<subseteq> set (ef_supported p)"
  by (auto simp: effective_efforts_def Let_def split: option.splits if_splits)

lemma sort_head: "sort_key f xs = m # ms \<Longrightarrow> x \<in> set xs \<Longrightarrow> f m \<le> f x"
proof -
  assume s: "sort_key f xs = m # ms" and x: "x \<in> set xs"
  have "sorted (map f (sort_key f xs))" by simp
  then have "\<forall>y \<in> set (m # ms). f m \<le> f y" by (simp add: s)
  moreover have "set (m # ms) = set xs" by (metis s set_sort)
  ultimately show ?thesis using x by blast
qed

lemma le_fst: "(a, b) \<le> (c, d) \<Longrightarrow> a \<le> c" for a b c d :: int
  by (auto simp: less_eq_prod_def)

lemma quantize_cases:
  assumes "quantize_effort (Some n) p = Some e"
  shows "e \<in> set (effective_efforts p)"
    "e = n \<or> e \<noteq> ''max'' \<and> (\<exists>pos. map_of effort_scale n = Some pos \<and> \<bar>scale_of e - pos\<bar> \<le> max_distance \<and>
      (\<forall>m \<in> set (effective_efforts p). m \<noteq> ''max'' \<longrightarrow> \<bar>scale_of e - pos\<bar> \<le> \<bar>scale_of m - pos\<bar>))"
proof -
  have "e \<in> set (effective_efforts p) \<and> (e = n \<or> e \<noteq> ''max'' \<and> (\<exists>pos. map_of effort_scale n = Some pos \<and> \<bar>scale_of e - pos\<bar> \<le> max_distance \<and>
      (\<forall>m \<in> set (effective_efforts p). m \<noteq> ''max'' \<longrightarrow> \<bar>scale_of e - pos\<bar> \<le> \<bar>scale_of m - pos\<bar>)))"
  proof (cases "n \<in> set (effective_efforts p)")
    case True
    then show ?thesis using assms by (auto simp: quantize_effort_def Let_def split: if_splits)
  next
    case False
    have ne: "effective_efforts p \<noteq> []" using assms by (auto simp: quantize_effort_def)
    obtain pos where pos: "map_of effort_scale n = Some pos"
      using assms False ne by (cases "map_of effort_scale n") (simp_all add: quantize_effort_def)
    let ?ranked = "sort_key (\<lambda>m. (\<bar>scale_of m - pos\<bar>, - scale_of m)) (filter (\<lambda>m. m \<noteq> ''max'') (effective_efforts p))"
    have r: "(case ?ranked of [] \<Rightarrow> None | m # _ \<Rightarrow> if \<bar>scale_of m - pos\<bar> \<le> max_distance then Some m else None) = Some e"
      using assms unfolding quantize_effort_def Let_def if_not_P [OF ne] option.case if_not_P [OF False] pos .
    obtain m ms where m: "?ranked = m # ms" using r by (cases ?ranked) simp_all
    then have "m = e \<and> \<bar>scale_of e - pos\<bar> \<le> max_distance" using r unfolding m list.case by (metis option.distinct(1) option.inject)
    note q = pos conjunct2 [OF this] m [unfolded conjunct1 [OF this]]
    have "e \<in> set (filter (\<lambda>m. m \<noteq> ''max'') (effective_efforts p))" using arg_cong [OF q(3), of set] unfolding set_sort by simp
    moreover have "\<bar>scale_of e - pos\<bar> \<le> \<bar>scale_of m - pos\<bar>" if "m \<in> set (effective_efforts p)" "m \<noteq> ''max''" for m
      by (rule le_fst [OF sort_head [OF q(3)]]) (use that in simp)
    ultimately show ?thesis using q(1,2) by auto
  qed
  then show "e \<in> set (effective_efforts p)"
    "e = n \<or> e \<noteq> ''max'' \<and> (\<exists>pos. map_of effort_scale n = Some pos \<and> \<bar>scale_of e - pos\<bar> \<le> max_distance \<and>
      (\<forall>m \<in> set (effective_efforts p). m \<noteq> ''max'' \<longrightarrow> \<bar>scale_of e - pos\<bar> \<le> \<bar>scale_of m - pos\<bar>))" by blast+
qed

lemma quantize_fixed: "e \<in> set (effective_efforts p) \<Longrightarrow> quantize_effort (Some e) p = Some e"
  by (auto simp: quantize_effort_def Let_def)

text \<open>A template that grades three levels and ignores every other.\<close>

definition three_levels :: "string template" where
  "three_levels kw tools =
     Some (case map_of kw ''reasoning_effort'' of
        Some (KStr s) \<Rightarrow> if s \<in> set openai_triple then s else ''default''
      | _ \<Rightarrow> ''default'')"

text \<open>C40. The effort a checkpoint is sent is one its template was seen to accept in every probe that ran,
  whatever the client asked for: the client's own value, or the nearest served level at most 0.15 away,
  never \<open>max\<close> by rounding; and a value once quantised stays. But which value is sent depends on the
  order in which a process iterates a set: with a template that ignores unknown levels, \<open>max\<close> is sent as
  \<open>max\<close> in one process and as \<open>xhigh\<close> in another.\<close>

theorem effort_accepted:
  "((\<forall>xs. set (iter xs) = set xs) \<and> quantize_effort (Some n) (probe_effort_profile iter render) = Some e \<longrightarrow>
     e \<in> accepted render \<and>
     (e = n \<or> e \<noteq> ''max'' \<and> (\<exists>pos. map_of effort_scale n = Some pos \<and> \<bar>scale_of e - pos\<bar> \<le> max_distance \<and>
       (\<forall>m \<in> set (effective_efforts (probe_effort_profile iter render)). m \<noteq> ''max'' \<longrightarrow> \<bar>scale_of e - pos\<bar> \<le> \<bar>scale_of m - pos\<bar>))) \<and>
     quantize_effort (Some e) (probe_effort_profile iter render) = Some e) \<and>
   quantize_effort (Some ''max'') (probe_effort_profile id three_levels) = Some ''xhigh'' \<and>
   quantize_effort (Some ''max'') (probe_effort_profile rev three_levels) = Some ''max''"
proof (intro conjI impI)
  assume "(\<forall>xs. set (iter xs) = set xs) \<and> quantize_effort (Some n) (probe_effort_profile iter render) = Some e"
  then have i: "\<And>xs. set (iter xs) = set xs" and q: "quantize_effort (Some n) (probe_effort_profile iter render) = Some e" by auto
  note Q = quantize_cases [OF q]
  show "e \<in> accepted render" using Q(1) effective_supported [OF probed(2)] probed(1) i by blast
  show "e = n \<or> e \<noteq> ''max'' \<and> (\<exists>pos. map_of effort_scale n = Some pos \<and> \<bar>scale_of e - pos\<bar> \<le> max_distance \<and>
       (\<forall>m \<in> set (effective_efforts (probe_effort_profile iter render)). m \<noteq> ''max'' \<longrightarrow> \<bar>scale_of e - pos\<bar> \<le> \<bar>scale_of m - pos\<bar>))" by (rule Q(2))
  show "quantize_effort (Some e) (probe_effort_profile iter render) = Some e" by (rule quantize_fixed [OF Q(1)])
qed code_simp+

theorem effort_accepted_witness:
  "''high'' \<in> accepted three_levels \<and> quantize_effort (Some ''high'') (probe_effort_profile id three_levels) = Some ''high''"
proof -
  have "quantize_effort (Some ''high'') (probe_effort_profile id three_levels) = Some ''high''" by code_simp
  with effort_accepted [of id "''high''" three_levels "''high''"] show ?thesis by simp
qed

end
